(* ===== verification/Rovio_Prelude.thy ===== *)
theory Rovio_Prelude
  imports Main "HOL-Library.Word"
begin

section \<open>Shared types and facts\<close>

text \<open>
  The vocabulary of the development: the machine integers and byte strings of the firmware
  (32-bit ARM: \<open>int\<close>, \<open>long\<close>, \<open>size_t\<close> and pointers have 32 bits, \<open>char\<close> has 8), the ways a C
  operation can go wrong that the models distinguish, and the few generic facts on lists, intervals and
  words that more than one component uses.
\<close>

subsection \<open>Machine integers and faults\<close>

type_synonym u8 = "8 word"
type_synonym u16 = "16 word"
type_synonym u32 = "32 word"
type_synonym address = nat

text \<open>
  Behaviour the C code leaves undefined (or an endless loop it enters on purpose) is a value, so that
  no model silently continues past it.
\<close>

datatype fault = NullDeref | OutOfBounds | Uninitialised | Hang

type_synonym 'a checked = "fault + 'a"

definition ok :: "'a checked \<Rightarrow> bool" where
  "ok r = (case r of Inl _ \<Rightarrow> False | Inr _ \<Rightarrow> True)"

definition bnd :: "'a checked \<Rightarrow> ('a \<Rightarrow> 'b checked) \<Rightarrow> 'b checked" where
  "bnd r f = (case r of Inl e \<Rightarrow> Inl e | Inr x \<Rightarrow> f x)"

lemma bnd_simps [simp]: "bnd (Inl e) f = Inl e" "bnd (Inr x) f = f x"
  by (simp_all add: bnd_def)

lemma bnd_Inr: "bnd r f = Inr y \<longleftrightarrow> (\<exists>x. r = Inr x \<and> f x = Inr y)"
  by (cases r) simp_all

lemma ok_simps [simp]: "ok (Inr x)" "\<not> ok (Inl e)"
  by (simp_all add: ok_def)

named_theorems ring_simps \<open>facts about the linked rings of list.h\<close>
named_theorems view_simps \<open>what a store shows after an operation\<close>
named_theorems cfg_simps \<open>facts about the configuration operations\<close>

subsection \<open>Lists\<close>

lemma last_Cons_append: "last (x # xs @ y # ys) = last (y # ys)"
  by simp

lemma nth_append_upd:
  "i < length xs \<Longrightarrow> take i xs @ y # drop (Suc i) xs = xs[i := y]"
  by (simp add: upd_conv_take_nth_drop)

lemma map_upt_shift: "map f [a ..< a + n] = map (\<lambda>i. f (a + i)) [0 ..< n]"
proof -
  have "[a ..< a + n] = map (\<lambda>i. i + a) [0 ..< n]"
    by (simp add: map_add_upt add.commute)
  then show ?thesis by (simp add: comp_def add.commute)
qed

text \<open>Overwriting a block of a list, as \<open>memcpy\<close> into an array does.\<close>

definition blit :: "nat \<Rightarrow> 'a list \<Rightarrow> 'a list \<Rightarrow> 'a list" where
  "blit p src dst = take p dst @ src @ drop (p + length src) dst"

lemma length_blit [simp]:
  "p + length src \<le> length dst \<Longrightarrow> length (blit p src dst) = length dst"
  by (simp add: blit_def)

lemma nth_blit:
  assumes "p + length src \<le> length dst" and "i < length dst"
  shows "blit p src dst ! i = (if p \<le> i \<and> i < p + length src then src ! (i - p) else dst ! i)"
  using assms by (auto simp: blit_def nth_append)

text \<open>Overwriting a range of a store seen as a function from addresses to bytes.\<close>

definition overlay :: "nat \<Rightarrow> 'a list \<Rightarrow> (nat \<Rightarrow> 'a) \<Rightarrow> nat \<Rightarrow> 'a" where
  "overlay p src f = (\<lambda>x. if p \<le> x \<and> x < p + length src then src ! (x - p) else f x)"

lemma overlay_Nil [simp]: "overlay p [] f = f"
  by (auto simp: overlay_def fun_eq_iff)

lemma overlay_append: "overlay (p + length xs) ys (overlay p xs f) = overlay p (xs @ ys) f"
  by (auto simp: overlay_def fun_eq_iff nth_append)

lemma overlay_inside:
  "map (overlay p src f) [p ..< p + length src] = src"
  by (rule nth_equalityI) (simp_all add: overlay_def)

lemma overlay_outside:
  "b \<le> p \<or> p + length src \<le> a \<Longrightarrow> map (overlay p src f) [a ..< b] = map f [a ..< b]"
  by (auto simp: overlay_def)

subsection \<open>Words\<close>

lemma unat_plus_no_wrap:
  fixes a b :: "'a::len word"
  shows "unat a + unat b < 2 ^ LENGTH('a) \<Longrightarrow> unat (a + b) = unat a + unat b"
  by (simp add: unat_word_ariths)

lemma word_unat_eqI: "unat a = unat b \<Longrightarrow> a = b"
  by (simp add: word_unat_eq_iff)

lemma unat_byte: "unat (b :: u8) < 256"
  by (rule order_less_le_trans [OF unsigned_less]) simp

lemma of_nat_unat_self: "of_nat (unat w) = w"
  by simp

lemma unat_minus_le:
  fixes a b :: "'a::len word"
  shows "unat b \<le> unat a \<Longrightarrow> unat (a - b) = unat a - unat b"
  by (simp add: unat_sub_if')

lemma drop_upt_shift: "map f [a + n ..< a + m] = drop n (map f [a ..< a + m])"
  by (simp add: drop_map)

subsection \<open>C strings and formatted output\<close>

text \<open>
  A C string is the list of its characters before the terminating NUL. \<open>dec\<close> is what \<open>printf\<close> prints for an
  unsigned number and \<open>pad\<close> its minimal field width.
\<close>

definition digit :: "nat \<Rightarrow> char" where
  "digit n = char_of (48 + n)"

fun dec :: "nat \<Rightarrow> string" where
  "dec n = (if n < 10 then [digit n] else dec (n div 10) @ [digit (n mod 10)])"

declare dec.simps [simp del]

definition pad :: "nat \<Rightarrow> char \<Rightarrow> string \<Rightarrow> string" where
  "pad w c s = replicate (w - length s) c @ s"

lemma length_pad [simp]: "length (pad w c s) = max w (length s)"
  by (simp add: pad_def)

lemma length_dec_pos: "0 < length (dec n)"
  by (subst dec.simps) simp

lemma length_dec_le: "n < 10 ^ k \<Longrightarrow> 0 < k \<Longrightarrow> length (dec n) \<le> k"
proof (induction n arbitrary: k rule: dec.induct)
  case (1 n)
  show ?case
  proof (cases "n < 10")
    case True
    then show ?thesis using 1(3) by (subst dec.simps) simp
  next
    case False
    then obtain j where k: "k = Suc j" using 1(3) by (cases k) auto
    with False 1(2) have "0 < j" by (cases j) auto
    moreover have "n div 10 < 10 ^ j" using 1(2) by (simp add: k less_mult_imp_div_less mult.commute)
    ultimately have "length (dec (n div 10)) \<le> j" using 1(1) [OF False] by simp
    then show ?thesis using False by (subst dec.simps) (simp add: k)
  qed
qed

subsection \<open>Requests to the web server\<close>

text \<open>
  Every configuration handler is called twice: to ask which privilege the request needs (\<open>CA_AUTH\<close>) and, if the
  caller has it, to execute it (\<open>CA_CONFIG\<close>); other codes are refused.
\<close>

datatype ca_action = CA_CONFIG | CA_AUTH | CA_other

definition AUTH_ANY :: int where "AUTH_ANY = - 1"
definition AUTH_USER :: int where "AUTH_USER = 0"
definition AUTH_ADMIN :: int where "AUTH_ADMIN = 1"
definition AUTH_SYSTEM :: int where "AUTH_SYSTEM = 2"

lemmas auth_defs = AUTH_ANY_def AUTH_USER_def AUTH_ADMIN_def AUTH_SYSTEM_def

end
