(* ===== verification/IntrusiveList.thy ===== *)
theory IntrusiveList
  imports Rovio_Prelude
begin

section \<open>Intrusive doubly linked lists (libList/Inc/list.h)\<close>

text \<open>
  \<open>LIST_T\<close> is a pair of pointers embedded in a larger structure. A list is a cycle of such cells; a
  header cell is a member of the cycle like any other. The model is an explicit store of the two
  pointer fields, indexed by cell address, and every function of list.h is the same sequence of
  loads and stores as in C. The abstraction is \<open>is_ring h xs\<close>: the cells \<open>xs\<close>, in \<open>pNext\<close> order, form one cycle.
\<close>

record heap =
  pPrev :: "address \<Rightarrow> address"
  pNext :: "address \<Rightarrow> address"

definition set_next :: "address \<Rightarrow> address \<Rightarrow> heap \<Rightarrow> heap" where
  "set_next a b h = h\<lparr>pNext := (pNext h)(a := b)\<rparr>"

definition set_prev :: "address \<Rightarrow> address \<Rightarrow> heap \<Rightarrow> heap" where
  "set_prev a b h = h\<lparr>pPrev := (pPrev h)(a := b)\<rparr>"

subsection \<open>The operations\<close>

definition listInit :: "address \<Rightarrow> heap \<Rightarrow> heap" where
  "listInit pList h = set_next pList pList (set_prev pList pList h)"

definition listGetNext :: "address \<Rightarrow> heap \<Rightarrow> address option" where
  "listGetNext pList h = (if pNext h pList = pList then None else Some (pNext h pList))"

definition listConnect :: "address \<Rightarrow> address \<Rightarrow> heap \<Rightarrow> heap" where
  "listConnect pList1 pList2 h =
     (let pPrev1 = pPrev h pList1; pPrev2 = pPrev h pList2;
          h1 = set_next pPrev1 pList2 h;
          h2 = set_next pPrev2 pList1 h1;
          h3 = set_prev pList1 pPrev2 h2
      in set_prev pList2 pPrev1 h3)"

definition listDisconnect :: "address \<Rightarrow> address \<Rightarrow> heap \<Rightarrow> heap" where
  "listDisconnect pList1 pList2 h =
     (let pPrev1 = pPrev h pList1; pPrev2 = pPrev h pList2;
          h1 = set_next pPrev1 pList2 h;
          h2 = set_next pPrev2 pList1 h1;
          h3 = set_prev pList1 pPrev2 h2
      in set_prev pList2 pPrev1 h3)"

definition listAttach :: "address \<Rightarrow> address \<Rightarrow> heap \<Rightarrow> heap" where
  "listAttach pNode1 pNode2 h = listConnect pNode1 pNode2 h"

definition listDetach :: "address \<Rightarrow> heap \<Rightarrow> heap" where
  "listDetach pNode h = listDisconnect pNode (pNext h pNode) h"

text \<open>
  The two loops walk the cycle until they are back at the header: on a store that is not a ring they need
  not stop, so they are partial functions and \<open>None\<close> means that the walk does not return.
\<close>

partial_function (option) listLength_loop :: "address \<Rightarrow> address \<Rightarrow> nat \<Rightarrow> heap \<Rightarrow> nat option" where
  "listLength_loop pList pNode i h =
     (if pNode = pList then Some i else listLength_loop pList (pNext h pNode) (Suc i) h)"

definition listLength :: "address \<Rightarrow> heap \<Rightarrow> nat option" where
  "listLength pList h = listLength_loop pList (pNext h pList) 0 h"

partial_function (option) listGetAt_loop ::
  "address \<Rightarrow> address \<Rightarrow> int \<Rightarrow> heap \<Rightarrow> address option option" where
  "listGetAt_loop pList pNode nIndex h =
     (if pNode = pList then Some None
      else if nIndex = 0 then Some (Some pNode)
      else listGetAt_loop pList (pNext h pNode) (nIndex - 1) h)"

definition listGetAt :: "address \<Rightarrow> int \<Rightarrow> heap \<Rightarrow> address option option" where
  "listGetAt pList nIndex h =
     (if nIndex < 0 then Some None else listGetAt_loop pList (pNext h pList) nIndex h)"

definition listIsEmpty :: "address \<Rightarrow> heap \<Rightarrow> bool" where
  "listIsEmpty pList h = (pNext h pList = pList)"

subsection \<open>Rings\<close>

text \<open>\<open>links h xs\<close>: consecutive cells of \<open>xs\<close> point at each other in both directions.\<close>

fun links :: "heap \<Rightarrow> address list \<Rightarrow> bool" where
  "links h (a # b # xs) = (pNext h a = b \<and> pPrev h b = a \<and> links h (b # xs))"
| "links h _ = True"

definition is_ring :: "heap \<Rightarrow> address list \<Rightarrow> bool" where
  "is_ring h xs =
     (xs \<noteq> [] \<and> distinct xs \<and> links h xs \<and> pNext h (last xs) = hd xs \<and> pPrev h (hd xs) = last xs)"

lemma links_Cons:
  "links h (a # xs) = (xs = [] \<or> pNext h a = hd xs \<and> pPrev h (hd xs) = a \<and> links h xs)"
  by (cases xs) auto

lemma links_append:
  "xs \<noteq> [] \<Longrightarrow> ys \<noteq> [] \<Longrightarrow>
   links h (xs @ ys) =
     (links h xs \<and> links h ys \<and> pNext h (last xs) = hd ys \<and> pPrev h (hd ys) = last xs)"
  by (induction xs) (auto simp: links_Cons)

lemma links_cong:
  assumes "links h xs"
    and "\<And>a. a \<in> set (butlast xs) \<Longrightarrow> pNext h' a = pNext h a"
    and "\<And>a. a \<in> set (tl xs) \<Longrightarrow> pPrev h' a = pPrev h a"
  shows "links h' xs"
  using assms by (induction h xs rule: links.induct) (auto split: if_splits)

lemma is_ring_nonempty [simp]: "\<not> is_ring h []"
  by (simp add: is_ring_def)

lemma is_ring_distinct: "is_ring h xs \<Longrightarrow> distinct xs"
  by (simp add: is_ring_def)

lemma is_ring_single [simp]: "is_ring h [a] \<longleftrightarrow> pNext h a = a \<and> pPrev h a = a"
  by (auto simp: is_ring_def)

lemma is_ring_append:
  "xs \<noteq> [] \<Longrightarrow> ys \<noteq> [] \<Longrightarrow>
   is_ring h (xs @ ys) =
     (distinct (xs @ ys) \<and> links h xs \<and> links h ys
      \<and> pNext h (last xs) = hd ys \<and> pPrev h (hd ys) = last xs
      \<and> pNext h (last ys) = hd xs \<and> pPrev h (hd xs) = last ys)"
  by (auto simp: is_ring_def links_append)

text \<open>A cycle has no distinguished first cell.\<close>

lemma is_ring_swap: "is_ring h (xs @ ys) \<longleftrightarrow> is_ring h (ys @ xs)"
  by (cases "xs = []"; cases "ys = []") (auto simp: is_ring_append)

lemma is_ring_rotate1: "is_ring h (a # xs) \<longleftrightarrow> is_ring h (xs @ [a])"
  using is_ring_swap [of h "[a]" xs] by simp

lemma is_ring_cong:
  assumes "is_ring h xs"
    and "\<And>a. a \<in> set xs \<Longrightarrow> pNext h' a = pNext h a \<and> pPrev h' a = pPrev h a"
  shows "is_ring h' xs"
proof -
  have "links h' xs"
    by (rule links_cong [of h]) (use assms in \<open>auto simp: is_ring_def dest: in_set_butlastD list.set_sel(2)\<close>)
  with assms show ?thesis by (auto simp: is_ring_def)
qed

lemma is_ring_neighbours:
  "is_ring h (a # xs) \<Longrightarrow> pNext h a = hd (xs @ [a]) \<and> pPrev h a = last (a # xs)"
  by (cases xs) (auto simp: is_ring_def)

lemma is_ring_through:
  assumes "is_ring h xs" and "a \<in> set xs"
  obtains ys where "is_ring h (a # ys)" and "set xs = set (a # ys)" and "length xs = length (a # ys)"
proof -
  from assms(2) obtain us vs where xs: "xs = us @ a # vs" by (auto simp: in_set_conv_decomp)
  with assms(1) have "is_ring h (a # vs @ us)" using is_ring_swap [of h us "a # vs"] by simp
  then show thesis by (rule that) (auto simp: xs)
qed

subsection \<open>What the operations do to rings\<close>

lemmas store_simps = set_next_def set_prev_def

lemma listInit_ring: "is_ring (listInit a h) [a]"
  by (simp add: listInit_def store_simps)

lemma listInit_frame: "is_ring h xs \<Longrightarrow> a \<notin> set xs \<Longrightarrow> is_ring (listInit a h) xs"
  by (erule is_ring_cong) (auto simp: listInit_def store_simps)

lemma distinct_butlast: "distinct xs \<Longrightarrow> c \<in> set (butlast xs) \<Longrightarrow> c \<in> set xs \<and> c \<noteq> last xs"
  by (cases xs rule: rev_cases) auto

lemma distinct_tl_hd: "distinct xs \<Longrightarrow> c \<in> set (tl xs) \<Longrightarrow> c \<in> set xs \<and> c \<noteq> hd xs"
  by (cases xs) auto

lemma links_respliced:
  assumes "xs \<noteq> []" and "ys \<noteq> []" and d: "distinct (xs @ ys)" and "links h xs"
    and n: "pNext h' = (pNext h)(last xs := u, last ys := v)"
    and p: "pPrev h' = (pPrev h)(hd xs := p, hd ys := q)"
  shows "links h' xs"
proof (rule links_cong [of h, OF assms(4)])
  have lh: "last ys \<in> set ys" "hd ys \<in> set ys" using assms(2) by auto
  show "pNext h' c = pNext h c" if "c \<in> set (butlast xs)" for c
    using distinct_butlast [of xs c] that d lh by (auto simp: n)
  show "pPrev h' c = pPrev h c" if "c \<in> set (tl xs)" for c
    using distinct_tl_hd [of xs c] that d lh by (auto simp: p)
qed

text \<open>
  One splice does both jobs: it joins two disjoint cycles, and it cuts one cycle in two.
\<close>

lemma splice_fields:
  assumes "xs \<noteq> []" and "ys \<noteq> []" and "distinct (xs @ ys)"
    and "h' = listConnect (hd xs) (hd ys) h"
    and "pPrev h (hd xs) = p" and "pPrev h (hd ys) = q" and "p \<noteq> q"
  shows "pNext h' = (pNext h)(p := hd ys, q := hd xs)"
    and "pPrev h' = (pPrev h)(hd xs := q, hd ys := p)"
  using assms by (auto simp: listConnect_def store_simps Let_def)

lemma listConnect_join:
  assumes rx: "is_ring h xs" and ry: "is_ring h ys" and dis: "set xs \<inter> set ys = {}"
  shows "is_ring (listConnect (hd xs) (hd ys) h) (xs @ ys)"
proof -
  let ?h = "listConnect (hd xs) (hd ys) h"
  have ne: "xs \<noteq> []" "ys \<noteq> []" and d: "distinct (xs @ ys)"
    using assms by (auto simp: is_ring_def)
  have pq: "pPrev h (hd xs) = last xs" "pPrev h (hd ys) = last ys"
    using rx ry by (simp_all add: is_ring_def)
  have "last xs \<noteq> last ys" "hd xs \<noteq> hd ys" using ne dis by (metis disjoint_iff last_in_set, metis disjoint_iff hd_in_set)
  note f = splice_fields [OF ne d refl pq this(1)] and neq = this
  have "links ?h xs" by (rule links_respliced [OF ne d _ f]) (use rx in \<open>simp add: is_ring_def\<close>)
  moreover have "links ?h ys"
    by (rule links_respliced [of ys xs h])
      (use ry d ne neq in \<open>auto simp: is_ring_def f fun_upd_twist\<close>)
  ultimately show ?thesis using ne d neq by (simp add: is_ring_append f)
qed

lemma listDisconnect_cut:
  assumes r: "is_ring h (xs @ ys)" and ne: "xs \<noteq> []" "ys \<noteq> []"
  shows "is_ring (listDisconnect (hd xs) (hd ys) h) xs \<and> is_ring (listDisconnect (hd xs) (hd ys) h) ys"
proof -
  let ?h = "listDisconnect (hd xs) (hd ys) h"
  have h': "?h = listConnect (hd xs) (hd ys) h"
    by (simp add: listConnect_def listDisconnect_def)
  have d: "distinct (xs @ ys)" and l: "links h xs" "links h ys"
    and pq: "pPrev h (hd xs) = last ys" "pPrev h (hd ys) = last xs"
    using r ne by (auto simp: is_ring_append)
  have neq: "last ys \<noteq> last xs" "hd xs \<noteq> hd ys"
    using ne d by (metis disjoint_iff distinct_append last_in_set, metis disjoint_iff distinct_append hd_in_set)
  note f = splice_fields [OF ne d h' pq neq(1)]
  have "links ?h xs"
    by (rule links_respliced [OF ne d l(1)]) (use neq in \<open>simp_all add: f fun_upd_twist\<close>)
  moreover have "links ?h ys"
    by (rule links_respliced [of ys xs h]) (use ne d l neq in \<open>auto simp: f fun_upd_twist\<close>)
  ultimately show ?thesis using ne d neq by (simp add: is_ring_def f)
qed

lemma listConnect_frame:
  assumes "is_ring h zs" and "is_ring h xs" and "is_ring h ys"
    and "set xs \<inter> set zs = {}" and "set ys \<inter> set zs = {}"
  shows "is_ring (listConnect (hd xs) (hd ys) h) zs"
proof (rule is_ring_cong [OF assms(1)])
  have "hd xs \<in> set xs" "last xs \<in> set xs" "hd ys \<in> set ys" "last ys \<in> set ys"
    "pPrev h (hd xs) = last xs" "pPrev h (hd ys) = last ys"
    using assms(2,3) by (auto simp: is_ring_def)
  then show "pNext (listConnect (hd xs) (hd ys) h) c = pNext h c
      \<and> pPrev (listConnect (hd xs) (hd ys) h) c = pPrev h c" if "c \<in> set zs" for c
    using that assms(4,5) by (auto simp: listConnect_def store_simps Let_def)
qed

lemma listDetach_first:
  assumes r: "is_ring h (n # rest)"
  shows "is_ring (listDetach n h) [n]" and "rest \<noteq> [] \<Longrightarrow> is_ring (listDetach n h) rest"
proof -
  show "is_ring (listDetach n h) rest" if "rest \<noteq> []"
    using listDisconnect_cut [of h "[n]" rest] r that is_ring_neighbours [OF r]
    by (simp add: listDetach_def)
  show "is_ring (listDetach n h) [n]"
  proof (cases "rest = []")
    case True
    with r show ?thesis by (simp add: listDetach_def listDisconnect_def store_simps Let_def)
  next
    case False
    with listDisconnect_cut [of h "[n]" rest] r is_ring_neighbours [OF r]
    show ?thesis by (simp add: listDetach_def)
  qed
qed

lemma listDetach_frame:
  assumes "is_ring h zs" and r: "is_ring h (n # rest)" and "set (n # rest) \<inter> set zs = {}"
  shows "is_ring (listDetach n h) zs"
proof (cases "rest = []")
  case True
  with r assms(1,3) show ?thesis
    by (auto intro!: is_ring_cong [OF assms(1)] simp: listDetach_def listDisconnect_def store_simps Let_def)
next
  case False
  let ?b = "pNext h n"
  have b: "?b = hd rest" using is_ring_neighbours [OF r] False by simp
  have "pPrev h n \<in> set (n # rest)" "pPrev h ?b = n" "?b \<in> set rest"
    using r False b by (auto simp: is_ring_def links_Cons)
  with assms(3) show ?thesis
    by (intro is_ring_cong [OF assms(1)])
      (auto simp: listDetach_def listDisconnect_def store_simps Let_def)
qed

lemma listGetNext_ring:
  "is_ring h (q # ts) \<Longrightarrow> listGetNext q h = (case ts of [] \<Rightarrow> None | t # _ \<Rightarrow> Some t)"
  by (cases ts) (auto simp: listGetNext_def is_ring_def)

lemma listIsEmpty_ring: "is_ring h (q # ts) \<Longrightarrow> listIsEmpty q h = (ts = [])"
  by (cases ts) (auto simp: listIsEmpty_def is_ring_def)

lemma listLength_loop_ring:
  assumes "links h (ts @ [q])" and "q \<notin> set ts"
  shows "listLength_loop q (hd (ts @ [q])) i h = Some (i + length ts)"
  using assms
proof (induction ts arbitrary: i)
  case Nil
  then show ?case by (simp add: listLength_loop.simps)
next
  case (Cons t ts)
  then have "pNext h t = hd (ts @ [q])" by (cases ts) auto
  with Cons show ?case
    by (cases ts) (auto simp: listLength_loop.simps [of q t])
qed

lemma ring_links_back: "is_ring h (q # ts) \<Longrightarrow> links h (ts @ [q]) \<and> q \<notin> set ts \<and> pNext h q = hd (ts @ [q])"
  by (cases "ts = []") (auto simp: is_ring_def links_append links_Cons)

lemma listLength_ring: "is_ring h (q # ts) \<Longrightarrow> listLength q h = Some (length ts)"
  using ring_links_back [of h q ts] listLength_loop_ring [of h ts q 0] by (simp add: listLength_def)

lemma listGetAt_loop_ring:
  assumes "links h (ts @ [q])" and "q \<notin> set ts" and "0 \<le> i"
  shows "listGetAt_loop q (hd (ts @ [q])) i h =
           Some (if nat i < length ts then Some (ts ! nat i) else None)"
  using assms
proof (induction ts arbitrary: i)
  case Nil
  then show ?case by (simp add: listGetAt_loop.simps)
next
  case (Cons t ts)
  then have n: "pNext h t = hd (ts @ [q])" and "links h (ts @ [q])" by (cases ts; auto)+
  show ?case
  proof (cases "i = 0")
    case True
    with Cons.prems show ?thesis by (simp add: listGetAt_loop.simps [of q t])
  next
    case False
    with Cons.IH [of "i - 1"] Cons.prems n \<open>links h (ts @ [q])\<close> show ?thesis
      by (auto simp: listGetAt_loop.simps [of q t] nat_diff_distrib nth_Cons' )
  qed
qed

lemma listGetAt_ring:
  assumes "is_ring h (q # ts)"
  shows "listGetAt q i h =
           Some (if 0 \<le> i \<and> nat i < length ts then Some (ts ! nat i) else None)"
  using ring_links_back [OF assms] listGetAt_loop_ring [of h ts q i] by (auto simp: listGetAt_def)

subsection \<open>The interface\<close>

text \<open>
  What the clients of list.h rely on. The memory pools and the period-task scheduler are proved
  against this contract, not against the pointer code.
\<close>

locale linked_rings =
  fixes ring :: "'h \<Rightarrow> address list \<Rightarrow> bool"
    and init :: "address \<Rightarrow> 'h \<Rightarrow> 'h"
    and attach :: "address \<Rightarrow> address \<Rightarrow> 'h \<Rightarrow> 'h"
    and detach :: "address \<Rightarrow> 'h \<Rightarrow> 'h"
  assumes ring_distinct: "ring h xs \<Longrightarrow> distinct xs"
    and ring_swap: "ring h (xs @ ys) \<Longrightarrow> ring h (ys @ xs)"
    and init_ring: "ring (init a h) [a]"
    and init_frame: "ring h zs \<Longrightarrow> a \<notin> set zs \<Longrightarrow> ring (init a h) zs"
    and attach_join: "ring h xs \<Longrightarrow> ring h ys \<Longrightarrow> set xs \<inter> set ys = {} \<Longrightarrow>
      ring (attach (hd xs) (hd ys) h) (xs @ ys)"
    and attach_frame: "ring h xs \<Longrightarrow> ring h ys \<Longrightarrow> ring h zs \<Longrightarrow>
      set xs \<inter> set zs = {} \<Longrightarrow> set ys \<inter> set zs = {} \<Longrightarrow> ring (attach (hd xs) (hd ys) h) zs"
    and detach_cut: "ring h (n # rest) \<Longrightarrow>
      ring (detach n h) [n] \<and> (rest \<noteq> [] \<longrightarrow> ring (detach n h) rest)"
    and detach_frame: "ring h (n # rest) \<Longrightarrow> ring h zs \<Longrightarrow> set (n # rest) \<inter> set zs = {} \<Longrightarrow>
      ring (detach n h) zs"
begin

lemma attach_header_first:
  "ring h (q # ts) \<Longrightarrow> ring h [n] \<Longrightarrow> n \<notin> set (q # ts) \<Longrightarrow> ring (attach q n h) (q # ts @ [n])"
  using attach_join [of h "q # ts" "[n]"] by simp

lemma attach_header_second:
  assumes "ring h (q # ts)" and "ring h [n]" and "n \<notin> set (q # ts)"
  shows "ring (attach n q h) (q # ts @ [n])"
  using attach_join [of h "[n]" "q # ts"] ring_swap [of "attach n q h" "[n]" "q # ts"] assms by simp

lemma detach_member:
  assumes "ring h (q # us @ n # vs)"
  shows "ring (detach n h) (q # us @ vs)" and "ring (detach n h) [n]"
proof -
  from assms have r: "ring h (n # vs @ q # us)" using ring_swap [of h "q # us" "n # vs"] by simp
  from detach_cut [OF r] show "ring (detach n h) [n]" by simp
  from detach_cut [OF r] have "ring (detach n h) (vs @ q # us)" by simp
  then show "ring (detach n h) (q # us @ vs)" using ring_swap [of _ vs "q # us"] by simp
qed

lemma detach_member_frame:
  assumes "ring h (q # us @ n # vs)" and "ring h zs" and "set (q # us @ n # vs) \<inter> set zs = {}"
  shows "ring (detach n h) zs"
proof -
  from assms(1) have "ring h (n # vs @ q # us)" using ring_swap [of h "q # us" "n # vs"] by simp
  from detach_frame [OF this assms(2)] assms(3) show ?thesis by auto
qed

end

interpretation clist: linked_rings is_ring listInit listAttach listDetach
proof unfold_locales
  show "is_ring h (xs @ ys) \<Longrightarrow> is_ring h (ys @ xs)" for h xs ys by (simp add: is_ring_swap)
  show "is_ring (listInit a h) [a]" for a h by (rule listInit_ring)
  show "is_ring h (n # rest) \<Longrightarrow> is_ring h zs \<Longrightarrow> set (n # rest) \<inter> set zs = {} \<Longrightarrow>
      is_ring (listDetach n h) zs" for h n rest zs
    by (rule listDetach_frame)
qed (auto simp: listAttach_def intro: listInit_frame listConnect_join listConnect_frame
    listDetach_first dest: is_ring_distinct simp del: is_ring_single)

end
