(* ===== verification/MemPool.thy ===== *)
theory MemPool
  imports IntrusiveList
begin

section \<open>Fixed-size memory pools (libMemPool, libMemMgmt)\<close>

text \<open>
  A pool carves a static buffer into equal blocks, each with a \<open>LIST_T\<close> at a fixed offset, and threads
  the free ones on a ring behind a header at the start of the buffer. memory\_pool.h generates a
  reference-counted allocator per block type on top of it; memmgmt.c offers the same pool
  behind a mutex, without counts. Blocks are named by the address of the structure; the list
  cell of block \<open>b\<close> is \<open>b + list_offset\<close>. Reference counts are of the type \<open>int\<close> in
  all block types (vp\_buffer.h, vp\_audio.c); counting up wraps at 32 bits.
\<close>

record mem_pool =
  cells :: heap
  list_head :: address
  list_offset :: nat
  ref_count :: "address \<Rightarrow> int"
  block_count :: int

subsection \<open>Initialisation\<close>

definition MEM_ALIGN_SIZE :: "u32 \<Rightarrow> u32" where
  "MEM_ALIGN_SIZE sz = (sz + 32 - 1) div 32 * 32"

definition LIST_T_size :: u32 where
  "LIST_T_size = 8"

definition MEMORYPOOL_SIZE :: "u32 \<Rightarrow> u32 \<Rightarrow> u32" where
  "MEMORYPOOL_SIZE struct_size count = MEM_ALIGN_SIZE LIST_T_size + MEM_ALIGN_SIZE struct_size * count"

text \<open>The carving loop, on wrapping 32-bit sizes: with a zero block size it would not stop.\<close>

partial_function (option) memInit_loop ::
  "address \<Rightarrow> u32 \<Rightarrow> u32 \<Rightarrow> nat \<Rightarrow> u32 \<Rightarrow> heap \<Rightarrow> heap option" where
  "memInit_loop pBuffer szBuffer szEach szListOffset i h =
     (if i + szEach \<le> szBuffer
      then (let pListThis = pBuffer + unat i + szListOffset
            in memInit_loop pBuffer szBuffer szEach szListOffset (i + szEach)
                 (listAttach pBuffer pListThis (listInit pListThis h)))
      else Some h)"

definition memInit ::
  "address \<Rightarrow> u32 \<Rightarrow> u32 \<Rightarrow> nat \<Rightarrow> heap \<Rightarrow> (address option \<times> heap) option" where
  "memInit pBuffer szBuffer szEach szListOffset h =
     (if szBuffer < LIST_T_size then Some (None, h)
      else map_option (Pair (Some pBuffer))
             (memInit_loop pBuffer szBuffer (MEM_ALIGN_SIZE szEach) szListOffset
               (MEM_ALIGN_SIZE LIST_T_size) (listInit pBuffer h)))"

subsection \<open>The free list\<close>

definition memNew :: "address \<Rightarrow> heap \<Rightarrow> address option \<times> heap" where
  "memNew pBuffer h =
     (if pNext h pBuffer = pBuffer then (None, h)
      else let pReturn = pNext h pBuffer in (Some pReturn, listDetach pReturn h))"

definition memDel :: "address \<Rightarrow> address \<Rightarrow> heap \<Rightarrow> heap" where
  "memDel pBuffer pListThis h = listAttach pBuffer pListThis h"

definition memGet :: "address \<Rightarrow> int \<Rightarrow> heap \<Rightarrow> address option option" where
  "memGet pBuffer nIndex h = listGetAt pBuffer nIndex h"

definition memNum :: "address \<Rightarrow> heap \<Rightarrow> nat option" where
  "memNum pBuffer h = listLength pBuffer h"

text \<open>
  memmgmt.c: the same operations under \<open>mgmt_mutex\<close>; each is one critical section, so one atomic step.
\<close>

definition getMem :: "address \<Rightarrow> heap \<Rightarrow> address option \<times> heap" where
  "getMem pListHead h =
     (if pNext h pListHead = pListHead then (None, h)
      else let pReturn = pNext h pListHead in (Some pReturn, listDetach pReturn h))"

definition mgmtInit ::
  "address \<Rightarrow> u32 \<Rightarrow> u32 \<Rightarrow> nat \<Rightarrow> bool \<Rightarrow> heap \<Rightarrow> (bool \<times> address option \<times> heap) option" where
  "mgmtInit pBuffer szBuffer szEach szListOffset mgmt_IsInit h =
     (if szBuffer < LIST_T_size then Some (True, None, h)
      else map_option (\<lambda>h'. (True, Some pBuffer, h'))
             (memInit_loop pBuffer szBuffer (MEM_ALIGN_SIZE szEach) szListOffset
               (MEM_ALIGN_SIZE LIST_T_size) (listInit pBuffer h)))"

definition retMem :: "address \<Rightarrow> address \<Rightarrow> heap \<Rightarrow> heap" where
  "retMem pListHead pListThis h = listAttach pListHead pListThis h"

subsection \<open>The reference-counted allocator generated by DECLARE\_MEM\_POOL\<close>

text \<open>The count of a block that was never handed out is 0, as the pool is a static buffer.\<close>

definition pool_InitMemoryPool :: "address \<Rightarrow> u32 \<Rightarrow> u32 \<Rightarrow> nat \<Rightarrow> heap \<Rightarrow> mem_pool option" where
  "pool_InitMemoryPool pBuffer n szEach szListOffset h =
     (case memInit pBuffer (MEMORYPOOL_SIZE szEach n) szEach szListOffset h of
        Some (Some pList, h') \<Rightarrow> Some \<lparr>cells = h', list_head = pList, list_offset = szListOffset, ref_count = (\<lambda>_. 0), block_count = uint n\<rparr>
      | _ \<Rightarrow> None)"

definition pool_AddRef :: "address option \<Rightarrow> mem_pool \<Rightarrow> mem_pool" where
  "pool_AddRef pMemory s =
     (case pMemory of None \<Rightarrow> s
      | Some b \<Rightarrow> s\<lparr>ref_count := (ref_count s)(b := signed_take_bit 31 (ref_count s b + 1))\<rparr>)"

definition pool_DecRef :: "address option \<Rightarrow> mem_pool \<Rightarrow> mem_pool checked" where
  "pool_DecRef pMemory s =
     (case pMemory of None \<Rightarrow> Inr s
      | Some b \<Rightarrow>
          if ref_count s b \<le> 0 then Inl Hang
          else let s1 = s\<lparr>ref_count := (ref_count s)(b := ref_count s b - 1)\<rparr>
               in if ref_count s1 b = 0
                  then Inr (s1\<lparr>cells := memDel (list_head s) (b + list_offset s) (cells s1)\<rparr>)
                  else Inr s1)"

definition pool_New :: "mem_pool \<Rightarrow> address option \<times> mem_pool" where
  "pool_New s =
     (case memNew (list_head s) (cells s) of
        (None, h) \<Rightarrow> (None, s\<lparr>cells := h\<rparr>)
      | (Some pList, h) \<Rightarrow>
          let pReturn = pList - list_offset s
          in (Some pReturn, s\<lparr>cells := h, ref_count := (ref_count s)(pReturn := 1)\<rparr>))"

definition pool_Shift :: "mem_pool \<Rightarrow> address option \<times> mem_pool" where
  "pool_Shift s =
     (case memNew (list_head s) (cells s) of
        (None, h) \<Rightarrow> (None, s\<lparr>cells := h\<rparr>)
      | (Some pList, h) \<Rightarrow>
          (Some (pList - list_offset s), s\<lparr>cells := memDel (list_head s) pList h\<rparr>))"

definition pool_GetMemory :: "int \<Rightarrow> mem_pool \<Rightarrow> address option option" where
  "pool_GetMemory nIndex s =
     map_option (map_option (\<lambda>pList. pList - list_offset s)) (memGet (list_head s) nIndex (cells s))"

definition pool_GetFreeBlocksNum :: "mem_pool \<Rightarrow> nat option" where
  "pool_GetFreeBlocksNum s = memNum (list_head s) (cells s)"

definition pool_GetTotalBlocksNum :: "mem_pool \<Rightarrow> int" where
  "pool_GetTotalBlocksNum s = block_count s"

subsection \<open>The free-list contract\<close>

text \<open>
  Taking and giving back a cell, on any implementation of the rings. Both allocators are clients;
  \<open>others\<close> are cells on no list (singleton rings), as the allocated ones are.
\<close>

locale free_list = linked_rings +
  fixes take_cell :: "address \<Rightarrow> 'a \<Rightarrow> address option \<times> 'a"
    and give_cell :: "address \<Rightarrow> address \<Rightarrow> 'a \<Rightarrow> 'a"
  assumes take_empty: "ring h [q] \<Longrightarrow> take_cell q h = (None, h)"
    and take_first: "ring h (q # t # ts) \<Longrightarrow> take_cell q h = (Some t, detach t h)"
    and give_is_attach: "give_cell q n h = attach q n h"
begin

definition free_inv :: "'a \<Rightarrow> address \<Rightarrow> address list \<Rightarrow> address set \<Rightarrow> bool" where
  "free_inv h q free live =
     (ring h (q # free) \<and> (\<forall>n\<in>live. ring h [n]) \<and> live \<inter> set (q # free) = {})"

lemma take_inv:
  assumes "free_inv h q (t # ts) live"
  shows "take_cell q h = (Some t, detach t h)" and "free_inv (detach t h) q ts (insert t live)"
proof -
  from assms have r: "ring h (q # [] @ t # ts)" and l: "\<forall>n\<in>live. ring h [n]"
    and d: "live \<inter> set (q # t # ts) = {}" by (auto simp: free_inv_def)
  from r show "take_cell q h = (Some t, detach t h)" by (simp add: take_first)
  have "ring (detach t h) [n]" if "n \<in> live" for n
    using detach_member_frame [OF r, of "[n]"] l d that by auto
  moreover have "t \<notin> set (q # ts)" using ring_distinct [OF r] by auto
  ultimately show "free_inv (detach t h) q ts (insert t live)"
    using detach_member [OF r] d by (auto simp: free_inv_def)
qed

lemma give_inv:
  assumes "free_inv h q free live" and "n \<in> live"
  shows "free_inv (give_cell q n h) q (free @ [n]) (live - {n})"
proof -
  from assms have r: "ring h (q # free)" and n: "ring h [n]" "n \<notin> set (q # free)"
    and l: "\<forall>m\<in>live. ring h [m]" and d: "live \<inter> set (q # free) = {}" by (auto simp: free_inv_def)
  have "ring (attach q n h) [m]" if "m \<in> live - {n}" for m
    using attach_frame [OF r n(1), of "[m]"] l d that by auto
  then show ?thesis
    using attach_header_first [OF r n] d by (auto simp: free_inv_def give_is_attach)
qed

end

lemma memNew_empty: "is_ring h [q] \<Longrightarrow> memNew q h = (None, h)"
  by (simp add: memNew_def)

lemma memNew_first: "is_ring h (q # t # ts) \<Longrightarrow> memNew q h = (Some t, listDetach t h)"
  by (auto simp: memNew_def is_ring_def Let_def)

interpretation pool: free_list is_ring listInit listAttach listDetach memNew memDel
  by unfold_locales (simp_all add: memNew_empty memNew_first memDel_def del: is_ring_single)

interpretation mgmt: free_list is_ring listInit listAttach listDetach getMem retMem
  by unfold_locales
    (auto simp: getMem_def retMem_def is_ring_def Let_def)

subsection \<open>Initialisation builds the whole pool\<close>

definition block_cell :: "address \<Rightarrow> nat \<Rightarrow> nat \<Rightarrow> nat \<Rightarrow> address" where
  "block_cell pBuffer E off k = pBuffer + 32 + k * E + off"

lemma memInit_loop_ring:
  assumes E: "0 < unat szEach" and fit: "unat szBuffer + unat szEach < 2 ^ 32"
    and sz: "32 \<le> unat szBuffer" and n: "n = (unat szBuffer - 32) div unat szEach"
    and k: "k \<le> n" and i: "unat i = 32 + k * unat szEach"
    and r: "is_ring h (buf # map (block_cell buf (unat szEach) off) [0 ..< k])"
  shows "\<exists>h'. memInit_loop buf szBuffer szEach off i h = Some h'
            \<and> is_ring h' (buf # map (block_cell buf (unat szEach) off) [0 ..< n])"
  using k i r
proof (induction "n - k" arbitrary: k i h)
  case 0
  let ?E = "unat szEach"
  have "k = n" using 0 by simp
  have "\<not> 32 + k * ?E + ?E \<le> unat szBuffer"
  proof
    assume "32 + k * ?E + ?E \<le> unat szBuffer"
    then have "Suc k * ?E \<le> unat szBuffer - 32" by (simp add: algebra_simps)
    then have "Suc k \<le> n" using E by (simp add: n less_eq_div_iff_mult_less_eq)
    with \<open>k = n\<close> show False by simp
  qed
  moreover have "32 + k * ?E \<le> unat szBuffer"
  proof -
    have "k * ?E \<le> unat szBuffer - 32" by (simp add: \<open>k = n\<close> n)
    then show ?thesis using sz by linarith
  qed
  ultimately have "\<not> i + szEach \<le> szBuffer"
    using fit 0 by (simp add: word_le_nat_alt unat_word_ariths)
  with 0 \<open>k = n\<close> show ?case by (simp add: memInit_loop.simps [of buf szBuffer szEach off i])
next
  case (Suc m)
  let ?E = "unat szEach" and ?c = "block_cell buf (unat szEach) off"
  have "k < n" using Suc.hyps(2) by simp
  then have "Suc k \<le> (unat szBuffer - 32) div ?E" unfolding n by (rule Suc_leI)
  then have "Suc k * ?E \<le> unat szBuffer - 32"
    by (simp only: less_eq_div_iff_mult_less_eq [OF E])
  then have le: "32 + k * ?E + ?E \<le> unat szBuffer" using E by (simp add: algebra_simps)
  have "unat i + unat szEach < 2 ^ 32" using le fit Suc.prems(2) by linarith
  then have ui: "unat (i + szEach) = 32 + k * ?E + ?E"
    using Suc.prems(2) by (simp add: unat_plus_no_wrap)
  have cond: "i + szEach \<le> szBuffer" using le unfolding word_le_nat_alt ui .
  let ?h1 = "listInit (?c k) h" and ?h2 = "listAttach buf (?c k) (listInit (?c k) h)"
  have fresh: "?c k \<notin> set (buf # map ?c [0 ..< k])" using E by (auto simp: block_cell_def)
  have "is_ring ?h1 (buf # map ?c [0 ..< k])" using Suc.prems(3) fresh by (rule clist.init_frame)
  from clist.attach_header_first [OF this clist.init_ring fresh]
  have "is_ring ?h2 (buf # map ?c [0 ..< Suc k])" by simp
  moreover have "m = n - Suc k" "Suc k \<le> n" using Suc.hyps(2) \<open>k < n\<close> by simp_all
  ultimately obtain h' where
    "memInit_loop buf szBuffer szEach off (i + szEach) ?h2 = Some h'"
    "is_ring h' (buf # map ?c [0 ..< n])" using Suc.hyps(1) [of "Suc k" "i + szEach" ?h2] ui by auto
  moreover have "buf + unat i + off = ?c k" using Suc.prems(2) by (simp add: block_cell_def)
  ultimately show ?case
    using cond by (simp add: memInit_loop.simps [of buf szBuffer szEach off i] Let_def)
qed

lemma MEM_ALIGN_LIST_T [simp]: "MEM_ALIGN_SIZE LIST_T_size = 32"
  by (simp add: MEM_ALIGN_SIZE_def LIST_T_size_def)

text \<open>A pool over a buffer is initialised by threading all the blocks that fit, in address order.\<close>

theorem memInit_blocks:
  assumes "E = unat (MEM_ALIGN_SIZE szEach)" and "0 < E"
    and "32 \<le> unat szBuffer" and "unat szBuffer + E < 2 ^ 32"
  shows "\<exists>h'. memInit buf szBuffer szEach off h = Some (Some buf, h')
            \<and> is_ring h' (buf # map (block_cell buf E off) [0 ..< (unat szBuffer - 32) div E])"
proof -
  have "\<not> szBuffer < LIST_T_size"
    using assms(3) by (simp add: word_less_nat_alt LIST_T_size_def)
  moreover have "is_ring (listInit buf h) (buf # map (block_cell buf E off) [0 ..< 0])"
    by (simp add: listInit_ring del: is_ring_single)
  ultimately show ?thesis
    using memInit_loop_ring [of "MEM_ALIGN_SIZE szEach" szBuffer _ 0 32 "listInit buf h" buf off] assms
    by (fastforce simp: memInit_def)
qed

theorem memInit_blocks_witness:
  "\<exists>h'. memInit 4096 (MEMORYPOOL_SIZE 40 3) 40 8 \<lparr>pPrev = \<lambda>_. 0, pNext = \<lambda>_. 0\<rparr> = Some (Some 4096, h')
      \<and> is_ring h' [4096, 4136, 4200, 4264]"
proof -
  have E: "64 = unat (MEM_ALIGN_SIZE 40)" by (simp add: MEM_ALIGN_SIZE_def)
  have sz: "MEMORYPOOL_SIZE 40 3 = 224" by (simp add: MEMORYPOOL_SIZE_def MEM_ALIGN_SIZE_def LIST_T_size_def)
  show ?thesis
    using memInit_blocks [OF E, of "MEMORYPOOL_SIZE 40 3" 4096 8 "\<lparr>pPrev = \<lambda>_. 0, pNext = \<lambda>_. 0\<rparr>"]
    by (simp add: sz block_cell_def upt_rec)
qed

subsection \<open>What the allocator promises\<close>

text \<open>
  Seen from outside, a pool is a queue of free blocks and a count of references for every block: \<open>New\<close> takes the first free block, the
  last \<open>DecRef\<close> puts a block at the end of the queue, a \<open>DecRef\<close> of a free block stops the machine.
\<close>

type_synonym pool_spec = "address list \<times> (address \<Rightarrow> int)"

datatype pool_op = New | Shift | AddRef "address option" | DecRef "address option" | GetMemory int | GetFreeBlocksNum

datatype pool_answer = Block "address option" | Number nat | Done

fun spec_apply :: "pool_op \<Rightarrow> pool_spec \<Rightarrow> (pool_answer \<times> pool_spec) checked" where
  "spec_apply New (free, n) = Inr (case free of [] \<Rightarrow> (Block None, [], n) | b # bs \<Rightarrow> (Block (Some b), bs, n(b := 1)))"
| "spec_apply Shift (free, n) = Inr (case free of [] \<Rightarrow> (Block None, [], n) | b # bs \<Rightarrow> (Block (Some b), bs @ [b], n))"
| "spec_apply (AddRef p) (free, n) = Inr (Done, free, case p of None \<Rightarrow> n | Some b \<Rightarrow> n(b := n b + 1))"
| "spec_apply (DecRef p) (free, n) =
     (case p of None \<Rightarrow> Inr (Done, free, n)
      | Some b \<Rightarrow> if n b \<le> 0 then Inl Hang else Inr (Done, if n b = 1 then free @ [b] else free, n(b := n b - 1)))"
| "spec_apply (GetMemory i) (free, n) = Inr (Block (if 0 \<le> i \<and> nat i < length free then Some (free ! nat i) else None), free, n)"
| "spec_apply GetFreeBlocksNum (free, n) = Inr (Number (length free), free, n)"

text \<open>
  A client may only count references of a block it holds, and not past the largest \<open>int\<close>; it may give back any block of the pool.
\<close>

fun spec_allows :: "pool_op \<Rightarrow> pool_spec \<Rightarrow> bool" where
  "spec_allows (AddRef (Some b)) (free, n) = (0 < n b \<and> n b < 2 ^ 31 - 1)"
| "spec_allows (DecRef (Some b)) (free, n) = (b \<in> set free \<or> 0 < n b)"
| "spec_allows _ _ = True"

fun spec_run :: "pool_op list \<Rightarrow> pool_spec \<Rightarrow> (pool_answer list \<times> pool_spec) checked" where
  "spec_run [] p = Inr ([], p)"
| "spec_run (opn # ops) p =
     bnd (spec_apply opn p) (\<lambda>(a, p1). bnd (spec_run ops p1) (\<lambda>(as, p2). Inr (a # as, p2)))"

fun run_allowed :: "pool_op list \<Rightarrow> pool_spec \<Rightarrow> bool" where
  "run_allowed [] p = True"
| "run_allowed (opn # ops) p = (spec_allows opn p \<and> (case spec_apply opn p of Inl _ \<Rightarrow> True | Inr (_, p1) \<Rightarrow> run_allowed ops p1))"

text \<open>The code's operations, with the answers the client sees.\<close>

fun pool_apply :: "pool_op \<Rightarrow> mem_pool \<Rightarrow> (pool_answer \<times> mem_pool) checked" where
  "pool_apply New s = Inr (case pool_New s of (p, s1) \<Rightarrow> (Block p, s1))"
| "pool_apply Shift s = Inr (case pool_Shift s of (p, s1) \<Rightarrow> (Block p, s1))"
| "pool_apply (AddRef p) s = Inr (Done, pool_AddRef p s)"
| "pool_apply (DecRef p) s = bnd (pool_DecRef p s) (\<lambda>s1. Inr (Done, s1))"
| "pool_apply (GetMemory i) s = (case pool_GetMemory i s of None \<Rightarrow> Inl Hang | Some p \<Rightarrow> Inr (Block p, s))"
| "pool_apply GetFreeBlocksNum s = (case pool_GetFreeBlocksNum s of None \<Rightarrow> Inl Hang | Some n \<Rightarrow> Inr (Number n, s))"

fun pool_run :: "pool_op list \<Rightarrow> mem_pool \<Rightarrow> (pool_answer list \<times> mem_pool) checked" where
  "pool_run [] s = Inr ([], s)"
| "pool_run (opn # ops) s =
     bnd (pool_apply opn s) (\<lambda>(a, s1). bnd (pool_run ops s1) (\<lambda>(as, s2). Inr (a # as, s2)))"

subsection \<open>The allocator keeps its promise\<close>

definition held :: "(address \<Rightarrow> int) \<Rightarrow> address set" where
  "held n = {b. 0 < n b}"

definition pool_rel :: "mem_pool \<Rightarrow> pool_spec \<Rightarrow> bool" where
  "pool_rel s p = (case p of (free, n) \<Rightarrow>
     pool.free_inv (cells s) (list_head s) (map (\<lambda>b. b + list_offset s) free) ((\<lambda>b. b + list_offset s) ` held n)
     \<and> (\<forall>b \<in> set free \<union> held n. ref_count s b = n b) \<and> (\<forall>b. 0 \<le> n b \<and> n b < 2 ^ 31))"

lemma pool_rel_ring: "pool_rel s (free, n) \<Longrightarrow> is_ring (cells s) (list_head s # map (\<lambda>b. b + list_offset s) free)"
  by (simp add: pool_rel_def pool.free_inv_def)

lemma pool_rel_free:
  assumes "pool_rel s (free, n)"
  shows "held n \<inter> set free = {} \<and> distinct free"
proof -
  have "distinct (map (\<lambda>b. b + list_offset s) free)" using is_ring_distinct [OF pool_rel_ring [OF assms]] by simp
  moreover have "(\<lambda>b. b + list_offset s) ` held n \<inter> set (map (\<lambda>b. b + list_offset s) free) = {}"
    using assms by (auto simp: pool_rel_def pool.free_inv_def)
  ultimately show ?thesis by (auto simp: distinct_map)
qed

lemma pool_rel_count:
  assumes "pool_rel s (free, n)"
  shows "b \<in> set free \<Longrightarrow> n b = 0" and "b \<in> set free \<or> 0 < n b \<Longrightarrow> ref_count s b = n b" and "0 \<le> n b" and "n b < 2 ^ 31"
proof -
  have c: "0 \<le> n b" for b using assms by (simp add: pool_rel_def)
  show "n b = 0" if "b \<in> set free" using pool_rel_free [OF assms] that c [of b] by (force simp: held_def)
qed (use assms in \<open>auto simp: pool_rel_def held_def\<close>)

lemma held_update: "held (n(b := i)) = (if 0 < i then insert b (held n) else held n - {b})"
  by (auto simp: held_def)

lemma New_refines:
  assumes "pool_rel s (free, n)"
  shows "\<exists>s'. pool_New s = ((case free of [] \<Rightarrow> None | b # _ \<Rightarrow> Some b), s')
     \<and> pool_rel s' (case free of [] \<Rightarrow> ([], n) | b # bs \<Rightarrow> (bs, n(b := 1)))"
proof (cases free)
  case Nil
  from memNew_empty [of "cells s" "list_head s"] pool_rel_ring [OF assms] show ?thesis
    using assms Nil by (simp add: pool_New_def del: is_ring_single)
next
  case (Cons b bs)
  let ?f = "\<lambda>b. b + list_offset s"
  from assms Cons have fi: "pool.free_inv (cells s) (list_head s) (?f b # map ?f bs) (?f ` held n)" by (simp add: pool_rel_def)
  define s1 where "s1 = s\<lparr>cells := listDetach (?f b) (cells s), ref_count := (ref_count s)(b := 1)\<rparr>"
  have "pool_New s = (Some b, s1)" using pool.take_inv(1) [OF fi] by (simp add: pool_New_def s1_def Let_def)
  moreover have "pool_rel s1 (bs, n(b := 1))"
    using pool.take_inv(2) [OF fi] assms Cons pool_rel_free [OF assms] by (auto simp: pool_rel_def s1_def held_update)
  ultimately show ?thesis using Cons by simp
qed

lemma Shift_refines:
  assumes "pool_rel s (free, n)"
  shows "\<exists>s'. pool_Shift s = ((case free of [] \<Rightarrow> None | b # _ \<Rightarrow> Some b), s')
     \<and> pool_rel s' (case free of [] \<Rightarrow> ([], n) | b # bs \<Rightarrow> (bs @ [b], n))"
proof (cases free)
  case Nil
  from memNew_empty [of "cells s" "list_head s"] pool_rel_ring [OF assms] show ?thesis
    using assms Nil by (simp add: pool_Shift_def del: is_ring_single)
next
  case (Cons b bs)
  let ?f = "\<lambda>b. b + list_offset s"
  from assms Cons have fi: "pool.free_inv (cells s) (list_head s) (?f b # map ?f bs) (?f ` held n)" by (simp add: pool_rel_def)
  note t = pool.take_inv [OF fi]
  have "b \<notin> held n" using pool_rel_free [OF assms] Cons by auto
  then have "insert (?f b) (?f ` held n) - {?f b} = ?f ` held n" by auto
  with pool.give_inv [OF t(2), of "?f b"]
  have "pool.free_inv (memDel (list_head s) (?f b) (listDetach (?f b) (cells s))) (list_head s) (map ?f (bs @ [b])) (?f ` held n)" by simp
  with t(1) assms Cons show ?thesis by (auto simp: pool_Shift_def pool_rel_def)
qed

lemma AddRef_refines:
  assumes "pool_rel s (free, n)" and "0 < n b" and "n b < 2 ^ 31 - 1"
  shows "pool_rel (pool_AddRef (Some b) s) (free, n(b := n b + 1))"
proof -
  have "signed_take_bit 31 (ref_count s b + 1) = n b + 1"
    using pool_rel_count(2) [OF assms(1)] assms(2,3) by (simp add: signed_take_bit_int_eq_self)
  moreover have "insert b (held n) = held n" using assms(2) by (auto simp: held_def)
  ultimately show ?thesis using assms by (auto simp: pool_AddRef_def pool_rel_def held_update)
qed

lemma DecRef_refines:
  assumes "pool_rel s (free, n)" and "0 < n b"
  shows "\<exists>s'. pool_DecRef (Some b) s = Inr s' \<and> pool_rel s' (if n b = 1 then free @ [b] else free, n(b := n b - 1))"
proof (cases "n b = 1")
  case True
  let ?f = "\<lambda>b. b + list_offset s"
  from assms have fi: "pool.free_inv (cells s) (list_head s) (map ?f free) (?f ` held n)" by (simp add: pool_rel_def)
  have "?f ` held n - {?f b} = ?f ` (held n - {b})" by auto
  with pool.give_inv [OF fi, of "?f b"] assms(2)
  have "pool.free_inv (memDel (list_head s) (?f b) (cells s)) (list_head s) (map ?f (free @ [b])) (?f ` (held n - {b}))"
    by (simp add: held_def)
  moreover have "ref_count s b = 1" using True pool_rel_count(2) [OF assms(1)] by simp
  ultimately show ?thesis using assms True by (auto simp: pool_DecRef_def Let_def pool_rel_def held_update)
next
  case False
  then have "ref_count s b = n b" "1 < n b" using pool_rel_count(2) [OF assms(1)] assms(2) by auto
  moreover have "held (n(b := n b - 1)) = held n" using \<open>1 < n b\<close> by (auto simp: held_def)
  moreover have "n b - 1 < 2 ^ 31" using pool_rel_count(4) [OF assms(1), of b] by linarith
  then have "\<forall>x. 0 \<le> (n(b := n b - 1)) x \<and> (n(b := n b - 1)) x < 2 ^ 31"
    using pool_rel_count(3,4) [OF assms(1)] \<open>1 < n b\<close> by simp
  ultimately show ?thesis using assms(1) False by (simp add: pool_DecRef_def Let_def pool_rel_def)
qed

lemma pool_refines:
  assumes "pool_rel s p" and "spec_allows opn p"
  shows "case spec_apply opn p of Inl e \<Rightarrow> pool_apply opn s = Inl e | Inr (a, p1) \<Rightarrow> \<exists>s1. pool_apply opn s = Inr (a, s1) \<and> pool_rel s1 p1"
proof -
  obtain free n where p: "p = (free, n)" by (cases p)
  note r = assms(1) [unfolded p]
  show ?thesis
  proof (cases opn)
    case New
    from New_refines [OF r] show ?thesis using New p by (auto split: list.splits)
  next
    case Shift
    from Shift_refines [OF r] show ?thesis using Shift p by (auto split: list.splits)
  next
    case (AddRef q)
    then show ?thesis using AddRef_refines [OF r] assms(2) r p by (cases q) (auto simp: pool_AddRef_def)
  next
    case (DecRef q)
    show ?thesis
    proof (cases q)
      case (Some b)
      then have "0 < n b \<or> n b = 0 \<and> ref_count s b = 0" using assms(2) DecRef p pool_rel_count [OF r, of b] by auto
      then show ?thesis using DecRef_refines [OF r, of b] Some DecRef p by (auto simp: pool_DecRef_def)
    qed (use DecRef p r in \<open>simp add: pool_DecRef_def\<close>)
  next
    case (GetMemory i)
    have "pool_GetMemory i s = Some (if 0 \<le> i \<and> nat i < length free then Some (free ! nat i) else None)"
      using listGetAt_ring [OF pool_rel_ring [OF r], of i] by (auto simp: pool_GetMemory_def memGet_def)
    then show ?thesis using GetMemory p r by simp
  next
    case GetFreeBlocksNum
    have "pool_GetFreeBlocksNum s = Some (length free)"
      using listLength_ring [OF pool_rel_ring [OF r]] by (simp add: pool_GetFreeBlocksNum_def memNum_def)
    then show ?thesis using GetFreeBlocksNum p r by simp
  qed
qed

lemma pool_run_refines:
  "pool_rel s p \<Longrightarrow> run_allowed ops p \<Longrightarrow>
   case spec_run ops p of Inl e \<Rightarrow> pool_run ops s = Inl e | Inr (as, p1) \<Rightarrow> \<exists>s1. pool_run ops s = Inr (as, s1) \<and> pool_rel s1 p1"
proof (induction ops arbitrary: s p)
  case (Cons opn ops)
  then have a: "spec_allows opn p" by simp
  note step = pool_refines [OF Cons.prems(1) a]
  show ?case
  proof (cases "spec_apply opn p")
    case (Inr q)
    then obtain a p1 where q: "spec_apply opn p = Inr (a, p1)" by (cases q) simp
    with step obtain s1 where s1: "pool_apply opn s = Inr (a, s1)" "pool_rel s1 p1" by auto
    from Cons.IH [OF s1(2)] show ?thesis using Cons.prems(2) q s1(1) by (cases "spec_run ops p1") auto
  qed (use step in simp)
qed simp

text \<open>No block is lost or handed out twice: the free ones are those without references, each once in the queue.\<close>

definition spec_inv :: "address list \<Rightarrow> pool_spec \<Rightarrow> bool" where
  "spec_inv blocks p = (case p of (free, n) \<Rightarrow>
     distinct free \<and> set free = {b \<in> set blocks. n b = 0} \<and> (\<forall>b. 0 \<le> n b \<and> (0 < n b \<longrightarrow> b \<in> set blocks)))"

lemma spec_apply_inv:
  assumes "spec_inv blocks p" and "spec_allows opn p" and "spec_apply opn p = Inr (a, p1)"
  shows "spec_inv blocks p1"
proof (cases opn)
  case New
  then show ?thesis using assms(1,3) by (cases p; cases "fst p") (auto simp: spec_inv_def set_eq_iff split: if_splits)
next
  case Shift
  then show ?thesis using assms(1,3) by (cases p; cases "fst p") (auto simp: spec_inv_def)
next
  case (GetMemory i)
  then show ?thesis using assms(1,3) by (cases p) simp
next
  case GetFreeBlocksNum
  then show ?thesis using assms(1,3) by (cases p) simp
next
  case (AddRef q)
  then show ?thesis using assms by (cases q; cases p) (auto simp: spec_inv_def split: if_splits)
next
  case (DecRef q)
  show ?thesis
  proof (cases q)
    case (Some b)
    obtain free n where p: "p = (free, n)" by (cases p)
    then have n: "0 < n b" "p1 = (if n b = 1 then free @ [b] else free, n(b := n b - 1))"
      using assms(3) DecRef Some by (auto split: if_splits)
    then have "b \<in> set blocks" "b \<notin> set free" using assms(1) p by (auto simp: spec_inv_def)
    then show ?thesis using n assms(1) p by (auto simp: spec_inv_def)
  qed (use assms DecRef in \<open>cases p; simp\<close>)
qed

lemma spec_run_inv:
  "spec_inv blocks p \<Longrightarrow> run_allowed ops p \<Longrightarrow> spec_run ops p = Inr (as, p1) \<Longrightarrow> spec_inv blocks p1"
proof (induction ops arbitrary: p as)
  case (Cons opn ops)
  from Cons.prems(3) obtain a p2 as' where s: "spec_apply opn p = Inr (a, p2)" "spec_run ops p2 = Inr (as', p1)"
    by (auto simp: bnd_Inr)
  moreover have "spec_inv blocks p2" using spec_apply_inv [OF Cons.prems(1) _ s(1)] Cons.prems(2) by simp
  ultimately show ?case using Cons.IH Cons.prems(2) by auto
qed simp

text \<open>After \<open>InitMemoryPool\<close>, all the blocks of the buffer are free and without references.\<close>

definition pool_blocks :: "address \<Rightarrow> u32 \<Rightarrow> u32 \<Rightarrow> address list" where
  "pool_blocks buf n szEach = map (\<lambda>k. buf + 32 + k * unat (MEM_ALIGN_SIZE szEach)) [0 ..< unat n]"

lemma pool_starts:
  assumes "E = unat (MEM_ALIGN_SIZE szEach)" and "0 < E" and "32 + unat n * E + E < 2 ^ 32"
  shows "\<exists>s. pool_InitMemoryPool buf n szEach off h = Some s \<and> pool_rel s (pool_blocks buf n szEach, \<lambda>_. 0)"
proof -
  let ?sz = "MEMORYPOOL_SIZE szEach n"
  have "unat (MEM_ALIGN_SIZE szEach * n) = unat n * E"
    using assms(1,3) by (simp add: unat_word_ariths mult.commute)
  then have sz: "unat ?sz = 32 + unat n * E" using assms(3) by (simp add: MEMORYPOOL_SIZE_def unat_word_ariths)
  obtain h' where h': "memInit buf ?sz szEach off h = Some (Some buf, h')"
      "is_ring h' (buf # map (block_cell buf E off) [0 ..< (unat ?sz - 32) div E])"
    using memInit_blocks [OF assms(1,2), of ?sz buf off h] sz assms(3) by auto
  have "(unat ?sz - 32) div E = unat n" using sz assms(2) by simp
  moreover have "map (block_cell buf E off) [0 ..< unat n] = map (\<lambda>b. b + off) (pool_blocks buf n szEach)"
    using assms(1) by (simp add: pool_blocks_def block_cell_def)
  ultimately show ?thesis
    using h' by (simp add: pool_InitMemoryPool_def pool_rel_def pool.free_inv_def held_def)
qed

text \<open>
  C11. A pool is a counted queue: after \<open>InitMemoryPool\<close>, every sequence of operations the client may make gets exactly the answers of the
  queue of free blocks with a count of references -- New the block that has been free longest with the count one, or none
  exactly when no block is free; the numbers of free blocks; a machine that stops at the first DecRef of a free block -- and leaves the counts
  the queue has. Free are then, each once in the queue, exactly the blocks of the buffer without references.
\<close>

theorem pool_is_counted_queue:
  assumes "E = unat (MEM_ALIGN_SIZE szEach)" and "0 < E" and "32 + unat n * E + E < 2 ^ 32"
    and "run_allowed ops (pool_blocks buf n szEach, \<lambda>_. 0)"
  shows "\<exists>s. pool_InitMemoryPool buf n szEach off h = Some s
     \<and> (case spec_run ops (pool_blocks buf n szEach, \<lambda>_. 0) of Inl e \<Rightarrow> pool_run ops s = Inl e
        | Inr (answers, free, refs) \<Rightarrow> \<exists>s'. pool_run ops s = Inr (answers, s')
            \<and> (\<forall>b \<in> set (pool_blocks buf n szEach). ref_count s' b = refs b)
            \<and> distinct free \<and> set free = {b \<in> set (pool_blocks buf n szEach). refs b = 0})"
proof -
  let ?B = "pool_blocks buf n szEach"
  obtain s where s: "pool_InitMemoryPool buf n szEach off h = Some s" "pool_rel s (?B, \<lambda>_. 0)"
    using pool_starts [OF assms(1-3)] by blast
  have start: "spec_inv ?B (?B, \<lambda>_. 0)" using pool_rel_free [OF s(2)] by (simp add: spec_inv_def)
  note run = pool_run_refines [OF s(2) assms(4)]
  show ?thesis
  proof (cases "spec_run ops (?B, \<lambda>_. 0)")
    case (Inr r)
    then obtain as free refs where r: "spec_run ops (?B, \<lambda>_. 0) = Inr (as, free, refs)" by (cases r) auto
    with run obtain s' where s': "pool_run ops s = Inr (as, s')" "pool_rel s' (free, refs)" by auto
    have i: "spec_inv ?B (free, refs)" by (rule spec_run_inv [OF start assms(4) r])
    then have free: "distinct free" "set free = {b \<in> set ?B. refs b = 0}" and pos: "0 \<le> refs b" for b
      by (auto simp: spec_inv_def)
    have "ref_count s' b = refs b" if "b \<in> set ?B" for b
      using pool_rel_count(2) [OF s'(2), of b] free(2) pos [of b] that by force
    with s s'(1) r free show ?thesis by auto
  qed (use s run in auto)
qed

text \<open>Two blocks: the third \<open>New\<close> fails; a block is free again after its second \<open>DecRef\<close>; giving it back once more stops the machine.\<close>

definition example_ops :: "pool_op list" where
  "example_ops = [New, AddRef (Some 4128), New, New, DecRef (Some 4128), GetFreeBlocksNum, DecRef (Some 4128), GetFreeBlocksNum, New]"

lemma example_blocks: "pool_blocks 4096 2 40 = [4128, 4192]"
  by (simp add: pool_blocks_def MEM_ALIGN_SIZE_def upt_rec)

theorem pool_is_counted_queue_witness:
  "\<exists>s s'. pool_InitMemoryPool 4096 2 40 8 \<lparr>pPrev = \<lambda>_. 0, pNext = \<lambda>_. 0\<rparr> = Some s
     \<and> pool_run example_ops s = Inr ([Block (Some 4128), Done, Block (Some 4192), Block None, Done, Number 0, Done, Number 1, Block (Some 4128)], s')
     \<and> ref_count s' 4128 = 1 \<and> ref_count s' 4192 = 1"
proof -
  have E: "64 = unat (MEM_ALIGN_SIZE 40)" by (simp add: MEM_ALIGN_SIZE_def)
  have "run_allowed example_ops (pool_blocks 4096 2 40, \<lambda>_. 0)" by (simp add: example_blocks example_ops_def)
  from pool_is_counted_queue [OF E _ _ this, of 8 "\<lparr>pPrev = \<lambda>_. 0, pNext = \<lambda>_. 0\<rparr>"] show ?thesis
    by (auto simp: example_blocks example_ops_def)
qed

end
