(* ===== verification/SpiFlash.thy ===== *)
theory SpiFlash
  imports Rovio_Prelude
begin

section \<open>The serial flash and its write-back cache (SPI/Src)\<close>

text \<open>
  Two layers. The driver spiflash.c talks to a 16 MB NOR flash by commands: read, write enable,
  page program (which can only clear bits, and wraps inside a 256-byte page) and 64 KB sector
  erase (which sets every bit). The chip is the environment: \<open>nor\<close> is its memory and write-enable latch, and
  the \<open>nor_\<close> functions are the commands as documented; commands are taken to complete, which is what
  \<open>usiCheckBusy\<close> polls for. On top of it myspi.c keeps one sector in a RAM buffer and writes it
  back when another sector is written or on \<open>usiMyFlash\<close>. All addresses are the code's 32-bit words; the
  command carries their low 24 bits.
\<close>

subsection \<open>The chip\<close>

record nor =
  nor_cells :: "nat \<Rightarrow> u8"
  nor_wel :: bool

definition nor_addr :: "u32 \<Rightarrow> nat" where
  "nor_addr a = unat a mod 2 ^ 24"

definition nor_read :: "nat \<Rightarrow> nat \<Rightarrow> nor \<Rightarrow> u8 list" where
  "nor_read a n c = map (\<lambda>i. nor_cells c ((a + i) mod 2 ^ 24)) [0 ..< n]"

definition nor_write_enable :: "nor \<Rightarrow> nor" where
  "nor_write_enable c = c\<lparr>nor_wel := True\<rparr>"

definition nor_page_program :: "nat \<Rightarrow> u8 list \<Rightarrow> nor \<Rightarrow> nor" where
  "nor_page_program a bs c =
     (if nor_wel c
      then c\<lparr>nor_wel := False,
             nor_cells := (\<lambda>x. let k = (x + 256 - a mod 256) mod 256
                              in if x div 256 = a div 256 \<and> k < length bs
                                 then and (nor_cells c x) (bs ! k) else nor_cells c x)\<rparr>
      else c)"

definition nor_sector_erase :: "nat \<Rightarrow> nor \<Rightarrow> nor" where
  "nor_sector_erase a c =
     (if nor_wel c
      then c\<lparr>nor_wel := False,
             nor_cells := (\<lambda>x. if x div 65536 = a div 65536 then 255 else nor_cells c x)\<rparr>
      else c)"

subsection \<open>The driver\<close>

definition usiRead :: "u32 \<Rightarrow> u32 \<Rightarrow> nor \<Rightarrow> u8 list" where
  "usiRead addr len c = nor_read (nor_addr addr) (unat len) c"

definition usiReadFast :: "u32 \<Rightarrow> u32 \<Rightarrow> nor \<Rightarrow> u8 list" where
  "usiReadFast addr len c = nor_read (nor_addr addr) (unat len) c"

definition usiWriteEnable :: "nor \<Rightarrow> nor" where
  "usiWriteEnable c = nor_write_enable c"

definition usiWriteDisable :: "nor \<Rightarrow> nor" where
  "usiWriteDisable c = c\<lparr>nor_wel := False\<rparr>"

text \<open>\<open>usiWrite\<close> splits the data in runs of 256 bytes counted from \<open>addr\<close>, one program command each.\<close>

fun usiWrite_pages :: "nat \<Rightarrow> nat \<Rightarrow> u32 \<Rightarrow> u32 \<Rightarrow> u8 list \<Rightarrow> nor \<Rightarrow> nor" where
  "usiWrite_pages 0 i addr len buf c = c"
| "usiWrite_pages (Suc todo) i addr len buf c =
     (let page = (if len \<ge> 256 then 256 else len);
          len' = (if len \<ge> 256 then len - 256 else len);
          c' = nor_page_program (nor_addr (addr + of_nat i * 256)) (take (unat page) buf) (usiWriteEnable c)
      in usiWrite_pages todo (Suc i) addr len' (drop (unat page) buf) c')"

definition usiWrite :: "u32 \<Rightarrow> u32 \<Rightarrow> u8 list \<Rightarrow> nor \<Rightarrow> nor" where
  "usiWrite addr len buf c =
     (let count = unat (len div 256) + (if len mod 256 \<noteq> 0 then 1 else 0)
      in usiWrite_pages count 0 addr len buf c)"

fun usiEraseSector_loop :: "nat \<Rightarrow> nat \<Rightarrow> u32 \<Rightarrow> nor \<Rightarrow> nor" where
  "usiEraseSector_loop 0 i addr c = c"
| "usiEraseSector_loop (Suc todo) i addr c =
     usiEraseSector_loop todo (Suc i) addr
       (nor_sector_erase (nor_addr (addr + of_nat i * 0x10000)) (usiWriteEnable c))"

definition usiEraseSector :: "u32 \<Rightarrow> u32 \<Rightarrow> nor \<Rightarrow> nor" where
  "usiEraseSector addr secCount c = usiEraseSector_loop (unat secCount) 0 addr c"

definition usiEraseAll :: "nor \<Rightarrow> nor" where
  "usiEraseAll c =
     (let c1 = usiWriteEnable c
      in c1\<lparr>nor_wel := False, nor_cells := (\<lambda>_. 255)\<rparr>)"

subsection \<open>The cache\<close>

definition ERASE_SEC :: u32 where
  "ERASE_SEC = 65536"

record usi =
  usi_chip :: nor
  g_uUSI_BUF :: "u8 list"
  g_uUSICacheAddr :: u32
  g_uTotalSize :: u32

definition block_of :: "u32 \<Rightarrow> u32" where
  "block_of pos = (if pos mod ERASE_SEC = 0 then pos else pos - pos mod ERASE_SEC)"

definition usiMyGetTotalSize :: "usi \<Rightarrow> u32" where
  "usiMyGetTotalSize s = g_uTotalSize s"

text \<open>
  \<open>usiInitDevice\<close> maps the identification code the chip answers to a size in 512-byte sectors;
  \<open>usiMyInitDevice\<close>, on its first call, empties the cache and records that size in bytes.
\<close>

definition USI_ERR_DEVICE :: u32 where
  "USI_ERR_DEVICE = 0xFFFF0184"

definition usiInitDevice :: "u16 \<Rightarrow> u32" where
  "usiInitDevice chip_id =
     (if chip_id = 0xef12 then 1024
      else if chip_id = 0xef13 then 2048
      else if chip_id = 0xef14 then 4096
      else if chip_id = 0xef15 then 8192
      else USI_ERR_DEVICE)"

definition usiMyInitDevice :: "u16 \<Rightarrow> usi \<Rightarrow> u32 \<times> usi" where
  "usiMyInitDevice chip_id s =
     (if g_uTotalSize s = 0
      then let rt = usiInitDevice chip_id;
               s' = s\<lparr>g_uUSICacheAddr := - 1, g_uTotalSize := rt * 512\<rparr>
           in (g_uTotalSize s', s')
      else (g_uTotalSize s, s))"

text \<open>
  The read loop runs on wrapping 32-bit sizes, so it is partial; the result collects what the code
  stores at \<open>buf\<close>.
\<close>

partial_function (option) usiMyRead_loop ::
  "u32 \<Rightarrow> u32 \<Rightarrow> u32 \<Rightarrow> u8 list \<Rightarrow> usi \<Rightarrow> u8 list option" where
  "usiMyRead_loop addr len i buf s =
     (if i < len
      then (let pos = addr + i; block = block_of pos
            in if pos mod 256 = 0
               then (let read_len = (if len - i > 256 then 256 else len - i);
                         got = (if block \<noteq> g_uUSICacheAddr s
                                then usiRead pos read_len (usi_chip s)
                                else take (unat read_len) (drop (unat (pos - block)) (g_uUSI_BUF s)))
                     in usiMyRead_loop addr len (i + read_len) (buf @ got) s)
               else (let read_len = (if len - i + pos mod 256 > 256 then 256 else len - i + pos mod 256);
                         temp = (if block \<noteq> g_uUSICacheAddr s
                                 then usiRead (pos - pos mod 256) read_len (usi_chip s)
                                 else take (unat read_len)
                                        (drop (unat (pos - pos mod 256 - block)) (g_uUSI_BUF s)));
                         read_len' = read_len - pos mod 256;
                         got = take (unat read_len') (drop (unat (pos mod 256)) temp)
                     in usiMyRead_loop addr len (i + read_len') (buf @ got) s))
      else Some buf)"

definition usiMyRead :: "u32 \<Rightarrow> u32 \<Rightarrow> usi \<Rightarrow> u8 list option" where
  "usiMyRead addr len s = usiMyRead_loop addr len 0 [] s"

text \<open>The write-back of \<open>usiMyFlash\<close>, up to the first \<open>n\<close> of its 256 pages.\<close>

definition write_back :: "nat \<Rightarrow> usi \<Rightarrow> nor" where
  "write_back n s =
     fold (\<lambda>k. usiWrite (g_uUSICacheAddr s + of_nat (k * 256)) 256 (drop (k * 256) (g_uUSI_BUF s)))
       [0 ..< n] (usiEraseSector (g_uUSICacheAddr s) 1 (usi_chip s))"

definition usiMyFlash :: "usi \<Rightarrow> usi" where
  "usiMyFlash s =
     (let chip = (if g_uUSICacheAddr s \<noteq> - 1 then write_back 256 s else usi_chip s)
      in s\<lparr>usi_chip := chip, g_uUSICacheAddr := - 1\<rparr>)"

definition load_block :: "u32 \<Rightarrow> usi \<Rightarrow> usi" where
  "load_block block s =
     s\<lparr>g_uUSI_BUF := concat (map (\<lambda>k. usiRead (block + of_nat (k * 256)) 256 (usi_chip s)) [0 ..< 256]),
       g_uUSICacheAddr := block\<rparr>"

partial_function (option) usiMyWrite_loop ::
  "u32 \<Rightarrow> u32 \<Rightarrow> u32 \<Rightarrow> u8 list \<Rightarrow> usi \<Rightarrow> usi option" where
  "usiMyWrite_loop addr len i buf s =
     (if i < len
      then (let pos = addr + i; block = block_of pos;
                s1 = (if block \<noteq> g_uUSICacheAddr s then load_block block (usiMyFlash s) else s);
                copy_len = (if len - i > ERASE_SEC - pos mod ERASE_SEC
                            then ERASE_SEC - pos mod ERASE_SEC else len - i);
                s2 = s1\<lparr>g_uUSI_BUF :=
                       blit (unat (pos mod ERASE_SEC)) (take (unat copy_len) (drop (unat i) buf))
                         (g_uUSI_BUF s1)\<rparr>
            in usiMyWrite_loop addr len (i + copy_len) buf s2)
      else Some s)"

definition usiMyWrite :: "u32 \<Rightarrow> u32 \<Rightarrow> u8 list \<Rightarrow> usi \<Rightarrow> usi option" where
  "usiMyWrite addr len buf s = usiMyWrite_loop addr len 0 buf s"

subsection \<open>What the flash shows\<close>

definition usi_inv :: "usi \<Rightarrow> bool" where
  "usi_inv s =
     (length (g_uUSI_BUF s) = 65536 \<and>
      (g_uUSICacheAddr s = - 1 \<or> unat (g_uUSICacheAddr s) mod 65536 = 0 \<and> unat (g_uUSICacheAddr s) < 2 ^ 24))"

text \<open>The byte at \<open>a\<close> as a reader of myspi.c sees it: the buffer covers the cached sector.\<close>

definition usi_view :: "usi \<Rightarrow> nat \<Rightarrow> u8" where
  "usi_view s a =
     (if g_uUSICacheAddr s \<noteq> - 1 \<and> a div 65536 = unat (g_uUSICacheAddr s) div 65536
      then g_uUSI_BUF s ! (a mod 65536) else nor_cells (usi_chip s) a)"

subsection \<open>Reading\<close>

lemma unat_page: "unat (pos mod 256) = unat (pos :: u32) mod 256"
  by (simp add: unat_mod_distrib)

lemma unat_page_base: "unat ((pos :: u32) - pos mod 256) = unat pos - unat pos mod 256"
  by (subst unat_minus_le) (simp_all add: unat_page)

lemma unat_sector: "unat (pos mod ERASE_SEC) = unat pos mod 65536"
  by (simp add: unat_mod_distrib ERASE_SEC_def)

lemma unat_block_of: "unat (block_of pos) = unat pos div 65536 * 65536"
proof -
  have "unat (pos - pos mod ERASE_SEC) = unat pos - unat pos mod 65536"
    by (subst unat_minus_le) (simp_all add: unat_sector)
  also have "\<dots> = unat pos div 65536 * 65536" by (simp add: minus_mod_eq_div_mult)
  moreover have "pos mod ERASE_SEC = 0 \<Longrightarrow> unat pos div 65536 * 65536 = unat pos"
    using unat_sector [of pos] by (simp add: mod_eq_0_iff_dvd)
  ultimately show ?thesis by (simp add: block_of_def)
qed

lemma div_mod_add_small:
  fixes p d m :: nat
  assumes "p mod m + d < m"
  shows "(p + d) div m = p div m" and "(p + d) mod m = p mod m + d"
proof -
  obtain q r where p: "p = q * m + r" "r < m" "p div m = q" "p mod m = r"
    using assms mod_less_divisor [of m p] by (metis div_mod_decomp add_lessD1 nat_neq_iff not_less_zero)
  then have "r + d < m" using assms by simp
  then have "(q * m + (r + d)) div m = q" "(q * m + (r + d)) mod m = r + d" by simp_all
  then show "(p + d) div m = p div m" and "(p + d) mod m = p mod m + d"
    unfolding p(3,4) unfolding p(1) by (simp_all add: add.assoc)
qed

lemma page_in_sector:
  fixes p n :: nat
  assumes "p mod 256 + n \<le> 256"
  shows "p mod 65536 + n \<le> 65536"
proof -
  have "p mod 65536 mod 256 = p mod 256" by (rule mod_mod_cancel) simp
  then have "p mod 65536 = p mod 65536 div 256 * 256 + p mod 256"
    by (metis div_mult_mod_eq)
  moreover have "p mod 65536 div 256 < 256" by (simp add: less_mult_imp_div_less)
  ultimately show ?thesis using assms by linarith
qed

lemma usiRead_cells:
  assumes "unat pos + unat n \<le> 2 ^ 24"
  shows "usiRead pos n c = map (nor_cells c) [unat pos ..< unat pos + unat n]"
proof -
  have "nor_addr pos mod 2 ^ 24 + i = unat pos + i" if "i < unat n" for i
    using assms that by (simp add: nor_addr_def)
  then have "usiRead pos n c = map (\<lambda>i. nor_cells c (unat pos + i)) [0 ..< unat n]"
    using assms by (auto simp: usiRead_def nor_read_def nor_addr_def)
  then show ?thesis by (simp add: map_upt_shift)
qed

text \<open>A chunk inside one page, from the chip or from the buffer, shows the store's view.\<close>

definition chunk :: "u32 \<Rightarrow> u32 \<Rightarrow> usi \<Rightarrow> u8 list" where
  "chunk pos n s =
     (if block_of pos \<noteq> g_uUSICacheAddr s then usiRead pos n (usi_chip s)
      else take (unat n) (drop (unat (pos - block_of pos)) (g_uUSI_BUF s)))"

lemma cached_block:
  assumes "usi_inv s" and "unat pos < 2 ^ 24"
  shows "block_of pos = g_uUSICacheAddr s
     \<longleftrightarrow> g_uUSICacheAddr s \<noteq> - 1 \<and> unat pos div 65536 = unat (g_uUSICacheAddr s) div 65536"
proof -
  have "unat (block_of pos) < 2 ^ 24" using assms(2) unat_block_of [of pos]
    by (metis div_times_less_eq_dividend le_less_trans)
  moreover have "unat (- 1 :: u32) = 2 ^ 32 - 1" by (simp add: unsigned_minus_1_eq_mask mask_eq_exp_minus_1)
  ultimately have "block_of pos \<noteq> - 1" by force
  moreover have "unat (g_uUSICacheAddr s) = unat (g_uUSICacheAddr s) div 65536 * 65536"
    if "g_uUSICacheAddr s \<noteq> - 1"
    using that assms(1) by (auto simp: usi_inv_def)
  ultimately show ?thesis
    using unat_block_of [of pos] by (metis nonzero_mult_div_cancel_right unsigned_word_eqI zero_neq_numeral)
qed

lemma chunk_view:
  assumes inv: "usi_inv s" and "unat pos + unat n \<le> 2 ^ 24" and "unat pos mod 256 + unat n \<le> 256"
    and "0 < unat n"
  shows "chunk pos n s = map (usi_view s) [unat pos ..< unat pos + unat n]"
proof -
  let ?p = "unat pos"
  have lt: "?p < 2 ^ 24" using assms(2,4) by linarith
  have sec: "x div 65536 = ?p div 65536 \<and> x mod 65536 = ?p mod 65536 + (x - ?p)"
    if "x \<in> {?p ..< ?p + unat n}" for x
  proof -
    have x: "x = ?p + (x - ?p)" "x - ?p < unat n" using that by auto
    then obtain d where x: "x = ?p + d" "d < unat n" by blast
    have "?p mod 65536 + d < 65536" using page_in_sector [OF assms(3)] x(2) by linarith
    then show ?thesis unfolding x(1) using div_mod_add_small [of ?p 65536 d] by simp
  qed
  show ?thesis
  proof (cases "block_of pos = g_uUSICacheAddr s")
    case False
    then have "usi_view s x = nor_cells (usi_chip s) x" if "x \<in> {?p ..< ?p + unat n}" for x
      using sec [OF that] cached_block [OF inv lt] by (auto simp: usi_view_def)
    with False show ?thesis by (simp add: chunk_def usiRead_cells [OF assms(2)])
  next
    case True
    have off: "unat (pos - block_of pos) = ?p mod 65536"
      by (subst unat_minus_le) (simp_all add: unat_block_of minus_div_mult_eq_mod)
    have "?p mod 65536 + unat n \<le> 65536" using page_in_sector [OF assms(3)] .
    then have "take (unat n) (drop (?p mod 65536) (g_uUSI_BUF s))
        = map (\<lambda>i. g_uUSI_BUF s ! (?p mod 65536 + i)) [0 ..< unat n]"
      using inv by (intro nth_equalityI) (auto simp: usi_inv_def)
    also have "\<dots> = map (\<lambda>i. usi_view s (?p + i)) [0 ..< unat n]"
    proof (rule map_cong [OF refl])
      fix i assume "i \<in> set [0 ..< unat n]"
      with sec [of "?p + i"] have "(?p + i) div 65536 = ?p div 65536"
        and "(?p + i) mod 65536 = ?p mod 65536 + i" by simp_all
      with cached_block [OF inv lt] True show "g_uUSI_BUF s ! (?p mod 65536 + i) = usi_view s (?p + i)"
        unfolding usi_view_def by simp
    qed
    finally show ?thesis using True by (simp add: chunk_def off [unfolded True] map_upt_shift)
  qed
qed

lemma block_of_page: "block_of (pos - pos mod 256) = block_of pos"
proof -
  have "(unat pos - unat pos mod 256) div 65536 = unat pos div 65536"
  proof -
    have "(unat pos - unat pos mod 256) div 256 div 256 = unat pos div 256 div 256"
      by (simp add: minus_mod_eq_div_mult)
    then show ?thesis by (simp only: div_mult2_eq [symmetric]) simp
  qed
  then show ?thesis by (intro word_unat_eqI) (simp add: unat_block_of unat_page_base)
qed

text \<open>One turn of the loop appends the view of the rest of the page, or of the request if that ends first.\<close>

lemma usiMyRead_step:
  assumes inv: "usi_inv s" and fit: "unat addr + unat len \<le> 2 ^ 24" and i: "i < len"
    and n: "n = min (unat len - unat i) (256 - unat (addr + i) mod 256)"
  shows "usiMyRead_loop addr len i buf s =
     usiMyRead_loop addr len (i + of_nat n)
       (buf @ map (usi_view s) [unat addr + unat i ..< unat addr + unat i + n]) s"
proof -
  let ?pos = "addr + i" and ?p = "unat addr + unat i"
  have ilt: "unat i < unat len" using i by (simp add: word_less_nat_alt)
  have p: "unat ?pos = ?p" using ilt fit by (intro unat_plus_no_wrap) simp
  have li: "unat (len - i) = unat len - unat i" using ilt by (simp add: unat_minus_le)
  have n0: "0 < n" and n256: "?p mod 256 + n \<le> 256" and nlen: "n \<le> unat len - unat i"
    using ilt by (simp_all add: n p)
  have un: "unat (of_nat n :: u32) = n" using n256 by (simp add: unat_of_nat)
  note gotn = chunk_view [OF inv, of ?pos "of_nat n", unfolded un p]
  show ?thesis
  proof (cases "?pos mod 256 = 0")
    case True
    then have p0: "?p mod 256 = 0" using unat_page [of ?pos] by (simp add: p)
    have rl: "(if len - i > 256 then 256 else len - i) = of_nat n"
      using p0 unfolding word_unat_eq_iff un by (auto simp: li n p word_less_nat_alt)
    show ?thesis
      using gotn n0 n256 nlen fit True i unfolding chunk_def
      by (subst usiMyRead_loop.simps) (simp add: Let_def rl un)
  next
    case False
    let ?b = "?pos - ?pos mod 256" and ?m = "?p mod 256"
    have m: "unat (?pos mod 256) = ?m" by (simp add: unat_page p)
    have b: "unat ?b = ?p - ?m" by (simp add: unat_page_base p)
    have "unat (len - i) + unat (?pos mod 256) < 2 ^ 32" using fit by (simp add: li m)
    then have lim: "unat (len - i + ?pos mod 256) = unat len - unat i + ?m"
      by (simp add: unat_plus_no_wrap li m)
    let ?rl = "if len - i + ?pos mod 256 > 256 then 256 else len - i + ?pos mod 256"
    have unm: "unat (of_nat (n + ?m) :: u32) = n + ?m" using n256 by (subst unat_of_nat) simp
    have rl: "?rl = of_nat (n + ?m)" unfolding word_unat_eq_iff unm
      using n256 by (auto simp: lim n p word_less_nat_alt)
    have rl': "of_nat (n + ?m) - ?pos mod 256 = (of_nat n :: u32)"
      unfolding word_unat_eq_iff by (subst unat_minus_le; simp only: m unm un; simp)
    have bm: "(?p - ?m) mod 256 = 0" by (simp add: minus_mod_eq_div_mult)
    have "chunk ?b (of_nat (n + ?m)) s = map (usi_view s) [?p - ?m ..< ?p - ?m + (n + ?m)]"
      using chunk_view [OF inv, of ?b "of_nat (n + ?m)", unfolded unm b] n0 n256 nlen fit bm
        mod_less_eq_dividend [of ?p 256] by simp
    also have "?p - ?m + (n + ?m) = ?p + n" by simp
    finally have "drop ?m (chunk ?b (of_nat (n + ?m)) s) = map (usi_view s) [?p ..< ?p + n]"
      by (simp add: drop_map)
    then have got: "take n (drop ?m (chunk ?b (of_nat (n + ?m)) s)) = map (usi_view s) [?p ..< ?p + n]"
      by simp
    show ?thesis
      by (subst usiMyRead_loop.simps)
        (simp only: Let_def rl rl' un m i if_True if_False False
           chunk_def [symmetric, of ?b, unfolded block_of_page] got)
  qed
qed

lemma usiMyRead_loop_view:
  assumes inv: "usi_inv s" and fit: "unat addr + unat len \<le> 2 ^ 24" and "i \<le> len"
  shows "usiMyRead_loop addr len i buf s =
     Some (buf @ map (usi_view s) [unat addr + unat i ..< unat addr + unat len])"
  using assms(3)
proof (induction "unat len - unat i" arbitrary: i buf rule: less_induct)
  case less
  show ?case
  proof (cases "i < len")
    case False
    with less.prems have "i = len" by simp
    then show ?thesis by (subst usiMyRead_loop.simps) simp
  next
    case True
    define n where "n = min (unat len - unat i) (256 - unat (addr + i) mod 256)"
    have ilt: "unat i < unat len" using True by (simp add: word_less_nat_alt)
    have n: "0 < n" "n \<le> unat len - unat i" "n \<le> 256" using ilt by (simp_all add: n_def)
    have "unat (of_nat n :: u32) = n" using n(3) by (simp add: unat_of_nat)
    with n(2) ilt fit have ui: "unat (i + of_nat n) = unat i + n"
      by (subst unat_plus_no_wrap) simp_all
    have "i + of_nat n \<le> len" using n(2) ilt by (simp add: word_le_nat_alt ui)
    then have "usiMyRead_loop addr len (i + of_nat n) (buf @ map (usi_view s)
        [unat addr + unat i ..< unat addr + unat i + n]) s
      = Some (buf @ map (usi_view s) [unat addr + unat i ..< unat addr + unat i + n]
            @ map (usi_view s) [unat addr + unat i + n ..< unat addr + unat len])"
      using less.hyps [of "i + of_nat n"] n ilt by (simp add: ui add.assoc)
    moreover have "[unat addr + unat i ..< unat addr + unat len]
        = [unat addr + unat i ..< unat addr + unat i + n] @ [unat addr + unat i + n ..< unat addr + unat len]"
      using n(2) ilt upt_add_eq_append [of "unat addr + unat i" "unat addr + unat i + n"
          "unat len - unat i - n"] by simp
    ultimately show ?thesis using usiMyRead_step [OF inv fit True n_def] by simp
  qed
qed

lemma usiMyRead_spec:
  assumes "usi_inv s" and "unat addr + unat len \<le> 2 ^ 24"
  shows "usiMyRead addr len s = Some (map (usi_view s) [unat addr ..< unat addr + unat len])"
  using usiMyRead_loop_view [OF assms, of 0 "[]"] by (simp add: usiMyRead_def)

text \<open>
  A read of any length and alignment inside the 16 MB address space ends and returns exactly the view, byte
  for byte, whichever parts of the range are in the buffer.
\<close>

theorem usiMyRead_view:
  assumes "usi_inv s" and "unat addr + unat len \<le> 2 ^ 24"
  shows "usiMyRead addr len s = Some (map (usi_view s) [unat addr ..< unat addr + unat len])"
  using assms by (rule usiMyRead_spec)

subsection \<open>Writing back\<close>

lemma usiErase_one:
  assumes "unat a < 2 ^ 24"
  shows "usiEraseSector a 1 c =
     c\<lparr>nor_wel := False,
       nor_cells := (\<lambda>x. if x div 65536 = unat a div 65536 then 255 else nor_cells c x)\<rparr>"
  using assms by (cases c) (simp add: usiEraseSector_def nor_sector_erase_def usiWriteEnable_def
      nor_write_enable_def nor_addr_def cong: if_cong)

lemma page_index: "x div 256 = a div 256 \<Longrightarrow> a mod 256 = 0 \<Longrightarrow> (x + 256 - a mod 256) mod 256 = x mod (256::nat)"
  by simp

lemma usiWrite_page:
  assumes "unat a < 2 ^ 24" and "unat a mod 256 = 0" and "256 \<le> length bs"
  shows "usiWrite a 256 bs c =
     c\<lparr>nor_wel := False,
       nor_cells := (\<lambda>x. if x div 256 = unat a div 256 then and (nor_cells c x) (bs ! (x mod 256))
                         else nor_cells c x)\<rparr>"
proof -
  have "unat (256 div 256 :: u32) = 1" "(256 mod 256 :: u32) = 0"
    by (simp_all add: unat_div_distrib)
  moreover have "x mod 256 < length bs" for x :: nat
    using assms(3) mod_less_divisor [of 256 x] by linarith
  ultimately show ?thesis
    using assms by (cases c) (simp add: usiWrite_def nor_page_program_def usiWriteEnable_def
        nor_write_enable_def nor_addr_def fun_eq_iff Let_def cong: if_cong)
qed

lemma sector_mod_page: "x mod 65536 mod 256 = x mod (256::nat)"
  by (rule mod_mod_cancel) simp

lemma sector_page:
  fixes x A n :: nat
  assumes "n < 256"
  shows "x div 256 = A * 256 + n \<longleftrightarrow> x div 65536 = A \<and> x mod 65536 div 256 = n"
proof -
  have "x div 256 div 256 = x div 65536" by (simp only: div_mult2_eq [symmetric]) simp
  moreover have "x div 256 mod 256 = x mod 65536 div 256"
    using mod_mult2_eq [of x 256 256] by simp
  moreover have "y = A * 256 + n \<longleftrightarrow> y div 256 = A \<and> y mod 256 = n" for y
    using assms by (metis div_mult_mod_eq div_less div_mult_self3 add.left_neutral mod_less mod_mult_self3 add.right_neutral zero_neq_numeral)
  ultimately show ?thesis by simp
qed

lemma pages_below: "y < k * 256 \<longleftrightarrow> y div 256 < (k::nat)"
  by (simp add: div_less_iff_less_mult)

lemma flush_pages:
  assumes a: "unat a mod 65536 = 0" "unat a < 2 ^ 24" and buf: "length buf = 65536"
    and erased: "\<And>x. x div 65536 = unat a div 65536 \<Longrightarrow> nor_cells c x = 255" and n: "n \<le> 256"
  shows "nor_cells (fold (\<lambda>k. usiWrite (a + of_nat (k * 256)) 256 (drop (k * 256) buf)) [0 ..< n] c) x
     = (if x div 65536 = unat a div 65536 \<and> x mod 65536 < n * 256 then buf ! (x mod 65536)
        else nor_cells c x)"
  using n
proof (induction n arbitrary: x)
  case 0
  then show ?case by simp
next
  case (Suc n)
  let ?c = "fold (\<lambda>k. usiWrite (a + of_nat (k * 256)) 256 (drop (k * 256) buf)) [0 ..< n] c"
  let ?a = "a + of_nat (n * 256)"
  have "unat (of_nat (n * 256) :: u32) = n * 256" using Suc.prems by (subst unat_of_nat) simp
  then have ua: "unat ?a = unat a + n * 256" using a(2) Suc.prems by (subst unat_plus_no_wrap) simp_all
  from a obtain A where A: "unat a = A * 65536" by (metis div_mult_mod_eq add.right_neutral)
  have lt: "unat ?a < 2 ^ 24" using a(2) Suc.prems unfolding ua A by simp
  have al: "unat ?a mod 256 = 0" unfolding ua A by simp
  have page: "unat ?a div 256 = A * 256 + n" unfolding ua A by simp
  have len: "256 \<le> length (drop (n * 256) buf)" using Suc.prems buf by simp
  have step: "nor_cells (usiWrite ?a 256 (drop (n * 256) buf) ?c) x
      = (if x div 256 = A * 256 + n then and (nor_cells ?c x) (drop (n * 256) buf ! (x mod 256))
         else nor_cells ?c x)"
    by (simp only: usiWrite_page [OF lt al len] page) simp
  have iff: "x div 256 = A * 256 + n \<longleftrightarrow> x div 65536 = A \<and> x mod 65536 div 256 = n"
    using Suc.prems by (intro sector_page) simp
  have y: "x mod 65536 = x mod 65536 div 256 * 256 + x mod 256"
    by (metis div_mult_mod_eq sector_mod_page)
  have near: "x mod 65536 < Suc n * 256 \<longleftrightarrow> x mod 65536 < n * 256 \<or> x mod 65536 div 256 = n"
    by (simp only: pages_below less_Suc_eq)
  have far: "\<not> x mod 65536 < n * 256" if "x mod 65536 div 256 = n"
    using that by (simp only: pages_below less_irrefl not_False_eq_True)
  have "(255 :: u8) = - 1" by simp
  then have ones: "and 255 b = b" for b :: u8 by (simp only: and.left_neutral)
  have fold: "fold (\<lambda>k. usiWrite (a + of_nat (k * 256)) 256 (drop (k * 256) buf)) [0 ..< Suc n] c
      = usiWrite ?a 256 (drop (n * 256) buf) ?c" by simp
  have IH: "nor_cells ?c x = (if x div 65536 = A \<and> x mod 65536 < n * 256 then buf ! (x mod 65536)
      else nor_cells c x)" using Suc.IH [of x] Suc.prems unfolding A by simp
  have Adiv: "unat a div 65536 = A" unfolding A by simp
  show ?case
  proof (cases "x div 65536 = A \<and> x mod 65536 div 256 = n")
    case True
    have "n * 256 + x mod 256 = x mod 65536" using y True by simp
    then have "drop (n * 256) buf ! (x mod 256) = buf ! (x mod 65536)"
      using buf Suc.prems by (subst nth_drop) simp_all
    moreover have "nor_cells ?c x = 255" using True erased [of x] far unfolding IH Adiv by simp
    ultimately have "nor_cells (usiWrite ?a 256 (drop (n * 256) buf) ?c) x = buf ! (x mod 65536)"
      using True iff unfolding step by (simp only: if_True ones simp_thms)
    with True near show ?thesis unfolding fold Adiv by simp
  next
    case False
    then have "nor_cells (usiWrite ?a 256 (drop (n * 256) buf) ?c) x = nor_cells ?c x"
      using iff unfolding step by (simp only: if_False)
    with False near show ?thesis unfolding fold Adiv IH by (simp only:) auto
  qed
qed

text \<open>What the cells hold after the erase and \<open>n\<close> pages.\<close>

lemma write_back_cells:
  assumes "usi_inv s" and "g_uUSICacheAddr s \<noteq> - 1" and "n \<le> 256"
  shows "nor_cells (write_back n s) x =
     (if x div 65536 = unat (g_uUSICacheAddr s) div 65536
      then if x mod 65536 < n * 256 then g_uUSI_BUF s ! (x mod 65536) else 255 else nor_cells (usi_chip s) x)"
proof -
  let ?a = "g_uUSICacheAddr s"
  have a: "unat ?a mod 65536 = 0" "unat ?a < 2 ^ 24" and buf: "length (g_uUSI_BUF s) = 65536"
    using assms(1,2) by (simp_all add: usi_inv_def)
  have cells: "nor_cells (usiEraseSector ?a 1 (usi_chip s)) y
      = (if y div 65536 = unat ?a div 65536 then 255 else nor_cells (usi_chip s) y)" for y
    by (simp add: usiErase_one [OF a(2)])
  show ?thesis using flush_pages [OF a buf _ assms(3), of "usiEraseSector ?a 1 (usi_chip s)" x]
    by (simp add: write_back_def cells)
qed

lemma usiMyFlash_cells:
  assumes "usi_inv s"
  shows "nor_cells (usi_chip (usiMyFlash s)) = usi_view s"
proof
  fix x :: nat
  have "x mod 65536 < 256 * 256" by simp
  then show "nor_cells (usi_chip (usiMyFlash s)) x = usi_view s x"
    using write_back_cells [OF assms, of 256 x] by (auto simp: usiMyFlash_def usi_view_def)
qed

lemma usiMyFlash_simps [view_simps]:
  assumes "usi_inv s"
  shows "g_uUSICacheAddr (usiMyFlash s) = - 1" and "g_uUSI_BUF (usiMyFlash s) = g_uUSI_BUF s"
    and "g_uTotalSize (usiMyFlash s) = g_uTotalSize s"
    and "usi_view (usiMyFlash s) = usi_view s" and "usi_inv (usiMyFlash s)"
proof -
  show c: "g_uUSICacheAddr (usiMyFlash s) = - 1" and "g_uUSI_BUF (usiMyFlash s) = g_uUSI_BUF s"
    and "g_uTotalSize (usiMyFlash s) = g_uTotalSize s" and "usi_inv (usiMyFlash s)"
    using assms by (simp_all add: usiMyFlash_def usi_inv_def)
  have "usi_view (usiMyFlash s) = nor_cells (usi_chip (usiMyFlash s))"
    by (simp add: usi_view_def c fun_eq_iff)
  then show "usi_view (usiMyFlash s) = usi_view s" by (simp add: usiMyFlash_cells [OF assms])
qed

lemma concat_pages:
  "concat (map (\<lambda>k. map f [b + k * 256 ..< b + k * 256 + 256]) [0 ..< n]) = map f [b ..< b + n * 256]"
proof (induction n)
  case 0
  then show ?case by simp
next
  case (Suc n)
  have "[b ..< b + Suc n * 256] = [b ..< b + n * 256] @ [b + n * 256 ..< b + n * 256 + 256]"
    using upt_add_eq_append [of b "b + n * 256" 256] by (simp add: algebra_simps)
  then show ?case using Suc.IH by simp
qed

lemma load_block_inv:
  assumes "usi_inv s" and c: "g_uUSICacheAddr s = - 1"
    and b: "unat b mod 65536 = 0" "unat b < 2 ^ 24"
  shows "usi_inv (load_block b s)" and "usi_view (load_block b s) = usi_view s"
proof -
  from b obtain B where B: "unat b = B * 65536" by (metis div_mult_mod_eq add.right_neutral)
  have page: "usiRead (b + of_nat (k * 256)) 256 (usi_chip s)
      = map (nor_cells (usi_chip s)) [unat b + k * 256 ..< unat b + k * 256 + 256]" if "k < 256" for k
  proof -
    have "unat (of_nat (k * 256) :: u32) = k * 256" using that by (subst unat_of_nat) simp
    then have u: "unat (b + of_nat (k * 256)) = unat b + k * 256"
      using b that by (subst unat_plus_no_wrap) simp_all
    have "unat b + k * 256 + 256 \<le> 2 ^ 24" using b(2) that unfolding B by simp
    then show ?thesis by (subst usiRead_cells) (simp_all only: u, simp_all)
  qed
  have buf: "g_uUSI_BUF (load_block b s) = map (nor_cells (usi_chip s)) [unat b ..< unat b + 65536]"
  proof -
    have "map (\<lambda>k. usiRead (b + of_nat (k * 256)) 256 (usi_chip s)) [0 ..< 256]
        = map (\<lambda>k. map (nor_cells (usi_chip s)) [unat b + k * 256 ..< unat b + k * 256 + 256]) [0 ..< 256]"
      by (rule map_cong [OF refl], rule page) simp
    then show ?thesis
      using concat_pages [of "nor_cells (usi_chip s)" "unat b" 256]
      by (simp only: load_block_def usi.simps) simp
  qed
  show "usi_inv (load_block b s)"
    using b by (simp add: usi_inv_def buf) (simp add: load_block_def)
  have "usi_view (load_block b s) x = nor_cells (usi_chip s) x" for x
  proof (cases "x div 65536 = B \<and> b \<noteq> - 1")
    case True
    then have "x = unat b + x mod 65536" unfolding B by (metis div_mult_mod_eq)
    moreover have "x mod 65536 < 65536" by simp
    ultimately have "g_uUSI_BUF (load_block b s) ! (x mod 65536) = nor_cells (usi_chip s) x"
      unfolding buf by simp
    with True show ?thesis by (simp add: usi_view_def B) (simp add: load_block_def B)
  next
    case False
    then show ?thesis by (auto simp: usi_view_def load_block_def B)
  qed
  then show "usi_view (load_block b s) = usi_view s" using c by (simp add: usi_view_def fun_eq_iff)
qed

subsection \<open>Writing\<close>

lemma block_of_offset: "unat pos = unat (block_of pos) + unat pos mod 65536"
  unfolding unat_block_of by (metis div_mult_mod_eq)

lemma write_chunk:
  assumes inv: "usi_inv s" and blk: "g_uUSICacheAddr s = block_of pos" and lt: "unat pos < 2 ^ 24"
    and fits: "unat pos mod 65536 + length src \<le> 65536"
  defines "s2 \<equiv> s\<lparr>g_uUSI_BUF := blit (unat pos mod 65536) src (g_uUSI_BUF s)\<rparr>"
  shows "usi_inv s2" and "usi_view s2 = overlay (unat pos) src (usi_view s)"
proof -
  let ?p = "unat pos" and ?o = "unat pos mod 65536"
  have len: "length (g_uUSI_BUF s) = 65536" using inv by (simp add: usi_inv_def)
  show "usi_inv s2" using inv fits by (simp add: s2_def usi_inv_def)
  have cached: "g_uUSICacheAddr s \<noteq> - 1" "unat (g_uUSICacheAddr s) div 65536 = ?p div 65536"
    using cached_block [OF inv lt] blk by auto
  have "usi_view s2 x = overlay ?p src (usi_view s) x" for x
  proof (cases "x div 65536 = ?p div 65536")
    case True
    then obtain q where x: "x = q * 65536 + x mod 65536" and p: "?p = q * 65536 + ?o"
      by (metis div_mult_mod_eq)
    have xlt: "x mod 65536 < 65536" by simp
    have "usi_view s2 x = blit ?o src (g_uUSI_BUF s) ! (x mod 65536)"
      using True cached by (simp add: usi_view_def s2_def)
    also have "\<dots> = (if ?o \<le> x mod 65536 \<and> x mod 65536 < ?o + length src
        then src ! (x mod 65536 - ?o) else g_uUSI_BUF s ! (x mod 65536))"
      using fits xlt by (intro nth_blit) (simp_all add: len)
    also have "g_uUSI_BUF s ! (x mod 65536) = usi_view s x" using True cached by (simp add: usi_view_def)
    also have "(?o \<le> x mod 65536 \<and> x mod 65536 < ?o + length src) = (?p \<le> x \<and> x < ?p + length src)"
      by (subst (1 2) p, subst (3 4) x) simp
    also have "x mod 65536 - ?o = x - ?p" by (subst p, subst (2) x) simp
    finally show ?thesis by (simp add: overlay_def)
  next
    case False
    have "(?p + d) div 65536 = ?p div 65536" if "d < length src" for d
      using div_mod_add_small(1) [of ?p 65536 d] that fits by simp
    with False have "\<not> (?p \<le> x \<and> x < ?p + length src)"
      by (metis add_less_cancel_left le_Suc_ex)
    with False cached show ?thesis by (auto simp: overlay_def usi_view_def s2_def)
  qed
  then show "usi_view s2 = overlay ?p src (usi_view s)" by (simp add: fun_eq_iff)
qed

lemma switch_block:
  assumes inv: "usi_inv s" and lt: "unat pos < 2 ^ 24"
  defines "s1 \<equiv> (if block_of pos \<noteq> g_uUSICacheAddr s then load_block (block_of pos) (usiMyFlash s) else s)"
  shows "usi_inv s1" and "usi_view s1 = usi_view s" and "g_uUSICacheAddr s1 = block_of pos"
proof -
  have b: "unat (block_of pos) mod 65536 = 0" by (simp add: unat_block_of)
  have b24: "unat (block_of pos) < 2 ^ 24" using lt block_of_offset [of pos] by linarith
  note f = usiMyFlash_simps [OF inv]
  show "usi_inv s1" and "usi_view s1 = usi_view s"
    using load_block_inv [OF f(5) f(1) b b24] inv by (simp_all add: s1_def f(4))
  show "g_uUSICacheAddr s1 = block_of pos" by (simp add: s1_def load_block_def)
qed

lemma take_drop_split: "take n (drop i xs) @ drop (i + n) xs = drop i xs"
  by (metis append_take_drop_id drop_drop add.commute)

lemma usiMyWrite_loop_view:
  assumes fit: "unat addr + unat len \<le> 2 ^ 24" and buf: "length buf = unat len"
    and "usi_inv s" and "i \<le> len"
  shows "\<exists>s'. usiMyWrite_loop addr len i buf s = Some s' \<and> usi_inv s'
     \<and> usi_view s' = overlay (unat addr + unat i) (drop (unat i) buf) (usi_view s)"
  using assms(3,4)
proof (induction "unat len - unat i" arbitrary: i s rule: less_induct)
  case less
  show ?case
  proof (cases "i < len")
    case False
    with less.prems have "i = len" by simp
    then show ?thesis using less.prems buf by (subst usiMyWrite_loop.simps) simp
  next
    case True
    let ?pos = "addr + i" and ?p = "unat addr + unat i"
    have ilt: "unat i < unat len" using True by (simp add: word_less_nat_alt)
    have p: "unat ?pos = ?p" using ilt fit by (intro unat_plus_no_wrap) simp
    have lt: "unat ?pos < 2 ^ 24" using ilt fit by (simp add: p)
    let ?s1 = "if block_of ?pos \<noteq> g_uUSICacheAddr s then load_block (block_of ?pos) (usiMyFlash s) else s"
    note s1 = switch_block [OF less.prems(1) lt]
    let ?cl = "if len - i > ERASE_SEC - ?pos mod ERASE_SEC then ERASE_SEC - ?pos mod ERASE_SEC else len - i"
    let ?n = "min (unat len - unat i) (65536 - ?p mod 65536)"
    have "unat (ERASE_SEC - ?pos mod ERASE_SEC) = 65536 - ?p mod 65536"
      by (subst unat_minus_le; simp only: unat_sector p) (simp_all add: ERASE_SEC_def)
    moreover have "unat (len - i) = unat len - unat i" using ilt by (simp add: unat_minus_le)
    ultimately have cl: "unat ?cl = ?n" by (simp add: word_less_nat_alt)
    have n: "0 < ?n" "?n \<le> unat len - unat i" "?p mod 65536 + ?n \<le> 65536" using ilt by simp_all
    let ?src = "take ?n (drop (unat i) buf)"
    have srclen: "length ?src = ?n" using buf by simp
    let ?s2 = "?s1\<lparr>g_uUSI_BUF := blit (?p mod 65536) ?src (g_uUSI_BUF ?s1)\<rparr>"
    have w: "usi_inv ?s2" "usi_view ?s2 = overlay ?p ?src (usi_view s)"
      using write_chunk [OF s1(1) s1(3) lt, of ?src, unfolded p srclen s1(2)] n(3) by simp_all
    have ui: "unat (i + ?cl) = unat i + ?n"
      using n(2) ilt fit by (subst unat_plus_no_wrap) (simp_all add: cl)
    have "i + ?cl \<le> len" using n(2) ilt unfolding word_le_nat_alt ui by linarith
    moreover have "unat len - unat (i + ?cl) < unat len - unat i" using n(1) ilt unfolding ui by linarith
    ultimately obtain s' where s': "usiMyWrite_loop addr len (i + ?cl) buf ?s2 = Some s'" "usi_inv s'"
      "usi_view s' = overlay (unat addr + unat (i + ?cl)) (drop (unat (i + ?cl)) buf) (usi_view ?s2)"
      using less.hyps [OF _ w(1), of "i + ?cl"] by blast
    have "usi_view s' = overlay (?p + length ?src) (drop (unat i + ?n) buf) (overlay ?p ?src (usi_view s))"
      unfolding s'(3) ui w(2) srclen by (simp only: add.assoc)
    also have "\<dots> = overlay ?p (drop (unat i) buf) (usi_view s)"
      unfolding overlay_append by (simp only: take_drop_split)
    finally have view: "usi_view s' = overlay ?p (drop (unat i) buf) (usi_view s)" .
    have "usiMyWrite_loop addr len i buf s = usiMyWrite_loop addr len (i + ?cl) buf ?s2"
      by (subst usiMyWrite_loop.simps) (simp only: Let_def True if_True cl unat_sector p)
    with s'(1,2) view show ?thesis by (simp only:) blast
  qed
qed

lemma usiMyWrite_spec:
  assumes "usi_inv s" and "unat addr + unat len \<le> 2 ^ 24" and "length buf = unat len"
  shows "\<exists>s'. usiMyWrite addr len buf s = Some s' \<and> usi_inv s'
     \<and> usi_view s' = overlay (unat addr) buf (usi_view s)"
  using usiMyWrite_loop_view [OF assms(2,3,1), of 0] by (simp add: usiMyWrite_def)

text \<open>
  C7. A write of any length and alignment inside the address space ends, keeps the cache invariant and
  changes the view at exactly the addressed bytes, across as many sectors as it spans.
\<close>

theorem usiMyWrite_view:
  assumes "usi_inv s" and "unat addr + unat len \<le> 2 ^ 24" and "length buf = unat len"
  shows "\<exists>s'. usiMyWrite addr len buf s = Some s' \<and> usi_inv s'
     \<and> usi_view s' = overlay (unat addr) buf (usi_view s)"
  using assms by (rule usiMyWrite_spec)

lemma usiMyWrite_loop_total:
  "usiMyWrite_loop addr len i buf s = Some s' \<Longrightarrow> g_uTotalSize s' = g_uTotalSize s"
proof (erule usiMyWrite_loop.raw_induct [where P = "\<lambda>addr len i buf s s'. g_uTotalSize s' = g_uTotalSize s", rotated])
  show "g_uTotalSize s' = g_uTotalSize s"
    if "\<And>addr len i buf s s'. rec addr len i buf s = Some s' \<Longrightarrow> g_uTotalSize s' = g_uTotalSize s"
      and "(if i < len
      then (let pos = addr + i; block = block_of pos;
                s1 = (if block \<noteq> g_uUSICacheAddr s then load_block block (usiMyFlash s) else s);
                copy_len = (if len - i > ERASE_SEC - pos mod ERASE_SEC
                            then ERASE_SEC - pos mod ERASE_SEC else len - i);
                s2 = s1\<lparr>g_uUSI_BUF :=
                       blit (unat (pos mod ERASE_SEC)) (take (unat copy_len) (drop (unat i) buf))
                         (g_uUSI_BUF s1)\<rparr>
            in rec addr len (i + copy_len) buf s2)
      else Some s) = Some s'" for "rec" addr len i buf s s'
    using that(2) by (auto simp: Let_def load_block_def usiMyFlash_def dest!: that(1) split: if_splits)
qed

lemma usiMyWrite_total: "usiMyWrite addr len buf s = Some s' \<Longrightarrow> g_uTotalSize s' = g_uTotalSize s"
  unfolding usiMyWrite_def by (rule usiMyWrite_loop_total)

subsection \<open>The store as an interface\<close>

text \<open>
  What the configuration code relies on: bytes written are read back, other bytes stay, and after a flush the
  contents survive the loss of RAM. \<open>cap\<close> is the number of addressable bytes.
\<close>

locale byte_store =
  fixes inv :: "'s \<Rightarrow> bool" and view :: "'s \<Rightarrow> nat \<Rightarrow> u8" and cap :: nat
    and rd :: "u32 \<Rightarrow> u32 \<Rightarrow> 's \<Rightarrow> u8 list option"
    and wr :: "u32 \<Rightarrow> u32 \<Rightarrow> u8 list \<Rightarrow> 's \<Rightarrow> 's option"
    and flush :: "'s \<Rightarrow> 's" and reboot :: "'s \<Rightarrow> 's"
  assumes read_view: "inv s \<Longrightarrow> unat a + unat n \<le> cap \<Longrightarrow>
      rd a n s = Some (map (view s) [unat a ..< unat a + unat n])"
    and write_view: "inv s \<Longrightarrow> unat a + unat n \<le> cap \<Longrightarrow> length bs = unat n \<Longrightarrow>
      \<exists>s'. wr a n bs s = Some s' \<and> inv s' \<and> view s' = overlay (unat a) bs (view s)"
    and flush_inv: "inv s \<Longrightarrow> inv (flush s)" and flush_view: "inv s \<Longrightarrow> view (flush s) = view s"
    and reboot_inv: "inv s \<Longrightarrow> inv (reboot s)"
    and durable: "inv s \<Longrightarrow> view (reboot (flush s)) = view s"
begin

lemma write_read_same:
  assumes "inv s" and "unat a + unat n \<le> cap" and "length bs = unat n"
  shows "\<exists>s'. wr a n bs s = Some s' \<and> inv s' \<and> rd a n s' = Some bs"
proof -
  from write_view [OF assms] obtain s' where
    s': "wr a n bs s = Some s'" "inv s'" "view s' = overlay (unat a) bs (view s)" by blast
  have "rd a n s' = Some bs"
    using read_view [OF s'(2) assms(2)] overlay_inside [of "unat a" bs "view s"] assms(3) by (simp add: s'(3))
  with s' show ?thesis by blast
qed

lemma write_read_other:
  assumes "inv s" and "unat a + unat n \<le> cap" and "length bs = unat n" and "unat b + unat m \<le> cap"
    and "unat b + unat m \<le> unat a \<or> unat a + unat n \<le> unat b" and "wr a n bs s = Some s'"
  shows "rd b m s' = rd b m s"
proof -
  from write_view [OF assms(1-3)] assms(6) have s': "inv s'" "view s' = overlay (unat a) bs (view s)"
    by auto
  show ?thesis
    using read_view [OF s'(1) assms(4)] read_view [OF assms(1) assms(4)] assms(3,5)
      overlay_outside [of "unat b + unat m" "unat a" bs "unat b" "view s"] by (simp add: s'(2))
qed

lemma write_flush_reboot:
  assumes "inv s" and "unat a + unat n \<le> cap" and "length bs = unat n"
  shows "\<exists>s'. wr a n bs s = Some s' \<and> inv (reboot (flush s'))
     \<and> view (reboot (flush s')) = overlay (unat a) bs (view s)"
  using write_view [OF assms] durable flush_inv reboot_inv by metis

end

text \<open>Power loss: the chip keeps its cells, the RAM of myspi.c starts again from its static initialisers.\<close>

definition usi_power_cycle :: "usi \<Rightarrow> usi" where
  "usi_power_cycle s = s\<lparr>g_uUSI_BUF := replicate 65536 0, g_uUSICacheAddr := - 1, g_uTotalSize := 0\<rparr>"

lemma usi_power_cycle_inv: "usi_inv (usi_power_cycle s)"
  by (simp add: usi_inv_def usi_power_cycle_def)

lemma usi_durable:
  assumes "usi_inv s"
  shows "usi_view (usi_power_cycle (usiMyFlash s)) = usi_view s"
proof -
  have "usi_view (usi_power_cycle (usiMyFlash s)) = nor_cells (usi_chip (usiMyFlash s))"
    by (simp add: usi_view_def usi_power_cycle_def fun_eq_iff)
  then show ?thesis by (simp add: usiMyFlash_cells [OF assms])
qed

interpretation flash: byte_store usi_inv usi_view "2 ^ 24" usiMyRead usiMyWrite usiMyFlash usi_power_cycle
  by unfold_locales
    (simp_all only: usiMyRead_spec usiMyWrite_spec usiMyFlash_simps usi_power_cycle_inv usi_durable)

text \<open>A blank 2 MB chip with its third sector in the buffer.\<close>

definition example_usi :: usi where
  "example_usi = \<lparr>usi_chip = \<lparr>nor_cells = (\<lambda>_. 255), nor_wel = False\<rparr>,
     g_uUSI_BUF = replicate 65536 0, g_uUSICacheAddr = 131072, g_uTotalSize = 2097152\<rparr>"

lemma example_usi_inv [simp]: "usi_inv example_usi"
  by (simp add: usi_inv_def example_usi_def)

lemma example_usi_view:
  "usi_view example_usi = (\<lambda>x. if x div 65536 = 2 then 0 else 255)"
  by (simp add: usi_view_def example_usi_def fun_eq_iff)

theorem usiMyRead_view_witness:
  "usiMyRead 131070 4 example_usi = Some [255, 255, 0, 0]"
  by (subst usiMyRead_view) (simp_all add: example_usi_view upt_rec)

theorem usiMyWrite_view_witness:
  "\<exists>s'. usiMyWrite 131070 4 [1, 2, 3, 4] example_usi = Some s' \<and> usi_inv s'
     \<and> usi_view s' 131071 = 2 \<and> usi_view s' 131072 = 3"
  using usiMyWrite_view [of example_usi 131070 4 "[1, 2, 3, 4]"] by (auto simp: overlay_def)

text \<open>
  C8. Durability: what was written and flushed is there after a power loss, and nothing else on the flash has
  changed; the chip itself then holds the data, whatever other sectors were in the buffer before.
\<close>

theorem usiMyWrite_durable:
  assumes "usi_inv s" and "unat addr + unat len \<le> 2 ^ 24" and "length buf = unat len"
  shows "\<exists>s'. usiMyWrite addr len buf s = Some s'
     \<and> nor_cells (usi_chip (usi_power_cycle (usiMyFlash s'))) = overlay (unat addr) buf (usi_view s)
     \<and> usiMyRead addr len (usi_power_cycle (usiMyFlash s')) = Some buf"
proof -
  from flash.write_flush_reboot [OF assms] obtain s' where s': "usiMyWrite addr len buf s = Some s'"
    "usi_inv (usi_power_cycle (usiMyFlash s'))"
    "usi_view (usi_power_cycle (usiMyFlash s')) = overlay (unat addr) buf (usi_view s)" by blast
  moreover have "usi_view (usi_power_cycle t) = nor_cells (usi_chip (usi_power_cycle t))" for t
    by (simp add: usi_view_def usi_power_cycle_def fun_eq_iff)
  moreover have "usiMyRead addr len (usi_power_cycle (usiMyFlash s')) = Some buf"
    using flash.read_view [OF s'(2) assms(2)] overlay_inside [of "unat addr" buf "usi_view s"] assms(3)
    by (simp add: s'(3))
  ultimately show ?thesis by metis
qed

theorem usiMyWrite_durable_witness:
  "\<exists>s'. usiMyWrite 65534 4 [1, 2, 3, 4] example_usi = Some s'
     \<and> usiMyRead 65534 4 (usi_power_cycle (usiMyFlash s')) = Some [1, 2, 3, 4]
     \<and> nor_cells (usi_chip (usi_power_cycle (usiMyFlash s'))) 131072 = 0"
  using usiMyWrite_durable [of example_usi 65534 4 "[1, 2, 3, 4]"]
  by (auto simp: overlay_def example_usi_view)

subsection \<open>Power lost during a write-back\<close>

text \<open>
  The power may go at any moment: while the sector is erased, which leaves anything in its cells, or in the program command of page
  \<open>k\<close>, which leaves anything in the cells of that page (also when it was not yet begun). The chip keeps what it was not writing. With 256, all
  pages are written.
\<close>

datatype cut_at = During_erase | During_page nat

inductive power_cut :: "cut_at \<Rightarrow> usi \<Rightarrow> usi \<Rightarrow> bool" where
  erasing: "g_uUSICacheAddr s \<noteq> - 1 \<Longrightarrow>
     (\<And>x. x div 65536 \<noteq> nor_addr (g_uUSICacheAddr s) div 65536 \<Longrightarrow> nor_cells c x = nor_cells (usi_chip s) x) \<Longrightarrow>
     power_cut During_erase s (usi_power_cycle (s\<lparr>usi_chip := c\<rparr>))"
| programming: "g_uUSICacheAddr s \<noteq> - 1 \<Longrightarrow> k < 256 \<Longrightarrow>
     (\<And>x. x div 256 \<noteq> nor_addr (g_uUSICacheAddr s + of_nat (k * 256)) div 256 \<Longrightarrow> nor_cells c x = nor_cells (write_back k s) x) \<Longrightarrow>
     power_cut (During_page k) s (usi_power_cycle (s\<lparr>usi_chip := c\<rparr>))"
| finished: "g_uUSICacheAddr s \<noteq> - 1 \<Longrightarrow> power_cut (During_page 256) s (usi_power_cycle (usiMyFlash s))"

lemma cycled_view: "usi_view (usi_power_cycle s) x = nor_cells (usi_chip s) x"
  by (simp add: usi_view_def usi_power_cycle_def)

text \<open>
  C9. A torn write-back damages only the sector being written: wherever in the erase or in a page the power goes, every byte outside the
  sector still shows its value; once the erase is over, the pages before the one that was being programmed show the new contents,
  and the pages after it are erased.
\<close>

theorem torn_write_contained:
  assumes "usi_inv s" and "power_cut w s t"
  shows "(\<forall>x. x div 65536 \<noteq> unat (g_uUSICacheAddr s) div 65536 \<longrightarrow> usi_view t x = usi_view s x)
     \<and> (\<forall>k x. w = During_page k \<longrightarrow> x div 65536 = unat (g_uUSICacheAddr s) div 65536 \<longrightarrow>
          (x mod 65536 div 256 < k \<longrightarrow> usi_view t x = usi_view s x) \<and> (k < x mod 65536 div 256 \<longrightarrow> usi_view t x = 255))"
  using assms(2)
proof (cases rule: power_cut.cases)
  case (erasing c)
  then have "unat (g_uUSICacheAddr s) < 2 ^ 24" using assms(1) by (simp add: usi_inv_def)
  moreover have "usi_view s x = nor_cells (usi_chip s) x" if "x div 65536 \<noteq> unat (g_uUSICacheAddr s) div 65536" for x
    using that by (simp add: usi_view_def)
  ultimately show ?thesis using erasing by (simp add: cycled_view nor_addr_def)
next
  case (programming k c)
  let ?a = "g_uUSICacheAddr s"
  have a: "unat ?a mod 65536 = 0" "unat ?a < 2 ^ 24" using assms(1) programming by (simp_all add: usi_inv_def)
  then obtain A where A: "unat ?a = A * 65536" by (metis div_mult_mod_eq add.right_neutral)
  have "unat (of_nat (k * 256) :: u32) = k * 256" using programming by (subst unat_of_nat) simp
  then have ua: "unat (?a + of_nat (k * 256)) = A * 65536 + k * 256"
    using a(2) programming A by (subst unat_plus_no_wrap) simp_all
  then have page: "nor_addr (?a + of_nat (k * 256)) div 256 = A * 256 + k"
    using a(2) A programming by (simp add: nor_addr_def)
  have iff: "x div 256 = A * 256 + k \<longleftrightarrow> x div 65536 = A \<and> x mod 65536 div 256 = k" for x
    using programming by (intro sector_page) simp
  have t: "usi_view t x = nor_cells (write_back k s) x" if "\<not> (x div 65536 = A \<and> x mod 65536 div 256 = k)" for x
    using programming(5) [of x] that unfolding programming(2) cycled_view page iff by simp
  have k: "k \<le> 256" using programming by simp
  have w: "nor_cells (write_back k s) x = (if x div 65536 = A
      then if x mod 65536 div 256 < k then g_uUSI_BUF s ! (x mod 65536) else 255 else nor_cells (usi_chip s) x)" for x
    using write_back_cells [OF assms(1) programming(3) k, of x] unfolding A pages_below by simp
  have v: "usi_view s x = (if x div 65536 = A then g_uUSI_BUF s ! (x mod 65536) else nor_cells (usi_chip s) x)" for x
    using programming(3) A by (simp add: usi_view_def)
  have sec: "unat ?a div 65536 = A" by (simp add: A)
  show ?thesis unfolding programming(1) sec v using t w by simp
next
  case finished
  have "x mod 65536 div 256 < 256" for x :: nat by (simp add: div_less_iff_less_mult)
  then show ?thesis using finished by (simp add: cycled_view usiMyFlash_cells [OF assms(1)] less_not_sym)
qed

text \<open>Power lost in the program command of the fourth page, which holds anything then.\<close>

definition torn_chip :: nor where
  "torn_chip = \<lparr>nor_cells = (\<lambda>x. if x div 256 = 515 then 77 else nor_cells (write_back 3 example_usi) x), nor_wel = False\<rparr>"

lemma torn_example: "power_cut (During_page 3) example_usi (usi_power_cycle (example_usi\<lparr>usi_chip := torn_chip\<rparr>))"
  by (rule power_cut.programming) (simp_all add: example_usi_def torn_chip_def nor_addr_def)

theorem torn_write_contained_witness:
  "let t = usi_power_cycle (example_usi\<lparr>usi_chip := torn_chip\<rparr>)
   in usi_view t 131072 = 0 \<and> usi_view t 131840 = 77 \<and> usi_view t 132096 = 255 \<and> usi_view t 5 = 255"
proof -
  have a: "unat (g_uUSICacheAddr example_usi) = 131072" by (simp add: example_usi_def)
  have "usi_view (usi_power_cycle (example_usi\<lparr>usi_chip := torn_chip\<rparr>)) 131840 = 77" by (simp add: cycled_view torn_chip_def)
  then show ?thesis using torn_write_contained [OF example_usi_inv torn_example] a by (simp add: example_usi_view Let_def)
qed

end
