(* ===== verification/FlashConfig.thy ===== *)
theory FlashConfig
  imports SpiFlash
begin

section \<open>The configuration in flash (LibCamera/Src/CameraConfig.c, boot in LibIPCamera.c)\<close>

text \<open>
  The whole configuration is one C structure, kept in RAM as \<open>g_ConfigParam\<close> and on flash as its raw bytes,
  twice: the main area, written on every change, and the default area, which the vendor or an administrator fills
  once. A checksum inside the structure tells whether an area holds a configuration. Here the
  structure is its byte image; what depends on the compiler's layout (its size, the offset of \<open>ulCheckSum\<close>)
  and on the board (the flash chip) is a \<open>board\<close>, the parameter of every definition. Byte 0 is \<open>ucFailTime\<close>,
  the first member. The mutex \<open>g_ptmConfigParam\<close> makes each write one step.
\<close>

subsection \<open>The image and its checksum\<close>

record board =
  cfg_sizeof :: nat
  cfg_offsetof_sum :: nat
  chip_id :: u16
  default_image :: "u8 list"

definition get_u32 :: "nat \<Rightarrow> u8 list \<Rightarrow> u32" where
  "get_u32 p bs = ucast (bs ! p) + ucast (bs ! (p + 1)) * 256 + ucast (bs ! (p + 2)) * 65536
     + ucast (bs ! (p + 3)) * 16777216"

definition put_u32 :: "nat \<Rightarrow> u32 \<Rightarrow> u8 list \<Rightarrow> u8 list" where
  "put_u32 p w bs = blit p [ucast w, ucast (w div 256), ucast (w div 65536), ucast (w div 16777216)] bs"

definition checksum_step :: "u8 list \<Rightarrow> nat \<Rightarrow> u32 \<Rightarrow> u32" where
  "checksum_step puc i ulCheckSum = ulCheckSum + (ucast (puc ! i) * of_nat i + of_nat i)"

definition GetConfigCheckSum :: "board \<Rightarrow> u8 list \<Rightarrow> u32" where
  "GetConfigCheckSum B puc =
     fold (checksum_step puc) [cfg_offsetof_sum B + 4 ..< cfg_sizeof B]
       (fold (checksum_step puc) [0 ..< cfg_offsetof_sum B] 0) + of_nat (cfg_sizeof B)"

abbreviation ulCheckSum :: "board \<Rightarrow> u8 list \<Rightarrow> u32" where
  "ulCheckSum B img \<equiv> get_u32 (cfg_offsetof_sum B) img"

abbreviation set_ulCheckSum :: "board \<Rightarrow> u32 \<Rightarrow> u8 list \<Rightarrow> u8 list" where
  "set_ulCheckSum B w img \<equiv> put_u32 (cfg_offsetof_sum B) w img"

definition image_ok :: "board \<Rightarrow> u8 list \<Rightarrow> bool" where
  "image_ok B img = (GetConfigCheckSum B img = ulCheckSum B img)"

subsection \<open>Reading and writing the areas\<close>

record flash_config =
  cfg_flash :: usi
  USI_IS_READY :: bool
  s_bNotResetCheckSum :: bool
  g_ConfigParam :: "u8 list"

definition FLASH_CONFIG_SIZE :: "board \<Rightarrow> u32" where
  "FLASH_CONFIG_SIZE B = (of_nat (cfg_sizeof B) + 255) div 256 * 256"

definition FLASH_TOTAL_SIZE :: "flash_config \<Rightarrow> u32" where
  "FLASH_TOTAL_SIZE s = usiMyGetTotalSize (cfg_flash s)"

text \<open>
  \<open>usiMyRead\<close>, \<open>usiMyWrite\<close> and \<open>usiMyFlash\<close> only ever return \<open>USI_NO_ERR\<close>, so the branches for other results
  are not taken. The result of \<open>ReadFlashMemory\<close> is the boolean and what is then in \<open>*pcConfigParam\<close>.
\<close>

definition ReadFlashMemory :: "board \<Rightarrow> flash_config \<Rightarrow> (bool \<times> u8 list) option" where
  "ReadFlashMemory B s =
     (if \<not> USI_IS_READY s then Some (False, g_ConfigParam s)
      else case usiMyRead (FLASH_TOTAL_SIZE s - FLASH_CONFIG_SIZE B * 2) (of_nat (cfg_sizeof B)) (cfg_flash s) of
        None \<Rightarrow> None
      | Some img \<Rightarrow>
          map_option (\<lambda>img'. (GetConfigCheckSum B img' = ulCheckSum B img', img'))
            (if GetConfigCheckSum B img \<noteq> ulCheckSum B img
             then usiMyRead (FLASH_TOTAL_SIZE s - FLASH_CONFIG_SIZE B) (of_nat (cfg_sizeof B)) (cfg_flash s)
             else Some img))"

definition WriteFlashMemory_gen ::
  "board \<Rightarrow> bool \<Rightarrow> bool \<Rightarrow> flash_config \<Rightarrow> (bool \<times> flash_config) option" where
  "WriteFlashMemory_gen B bResetCheckSum bOnDefaultArea s =
     (if bResetCheckSum \<and> s_bNotResetCheckSum s then Some (False, s)
      else let s1 = (if bResetCheckSum
                     then s\<lparr>g_ConfigParam :=
                            set_ulCheckSum B (GetConfigCheckSum B (g_ConfigParam s)) (g_ConfigParam s)\<rparr>
                     else s\<lparr>s_bNotResetCheckSum := True\<rparr>);
               uConfigAddr = (if bOnDefaultArea then FLASH_TOTAL_SIZE s1 - FLASH_CONFIG_SIZE B
                              else FLASH_TOTAL_SIZE s1 - FLASH_CONFIG_SIZE B * 2)
           in if \<not> USI_IS_READY s1 then Some (False, s1)
              else map_option (\<lambda>u. (True, s1\<lparr>cfg_flash := usiMyFlash u\<rparr>))
                     (usiMyWrite uConfigAddr (of_nat (cfg_sizeof B)) (g_ConfigParam s1) (cfg_flash s1)))"

definition WriteFlashMemory :: "board \<Rightarrow> flash_config \<Rightarrow> (bool \<times> flash_config) option" where
  "WriteFlashMemory B s = WriteFlashMemory_gen B True False s"

definition GetFlashCapability :: "board \<Rightarrow> flash_config \<Rightarrow> (u32 \<times> u32 \<times> u32) option" where
  "GetFlashCapability B s =
     map_option (\<lambda>bs. (FLASH_TOTAL_SIZE s, (get_u32 0 bs + 255) div 256 * 256,
                        FLASH_TOTAL_SIZE s - FLASH_CONFIG_SIZE B * 2))
       (usiMyRead 4 4 (cfg_flash s))"

text \<open>The two administrator requests.\<close>

definition Http_SetFactoryDefault :: "board \<Rightarrow> ca_action \<Rightarrow> flash_config \<Rightarrow> (int \<times> flash_config) option" where
  "Http_SetFactoryDefault B iAction s =
     (case iAction of
        CA_AUTH \<Rightarrow> Some (AUTH_ADMIN, s)
      | CA_CONFIG \<Rightarrow>
          let img = set_ulCheckSum B (GetConfigCheckSum B (g_ConfigParam s) + 1) (g_ConfigParam s)
          in map_option (\<lambda>(_, s'). (0, s')) (WriteFlashMemory_gen B False False (s\<lparr>g_ConfigParam := img\<rparr>))
      | CA_other \<Rightarrow> Some (- 1, s))"

definition Http_UpdateFactoryDefault :: "board \<Rightarrow> ca_action \<Rightarrow> flash_config \<Rightarrow> (int \<times> flash_config) option" where
  "Http_UpdateFactoryDefault B iAction s =
     (case iAction of
        CA_AUTH \<Rightarrow> Some (AUTH_ADMIN, s)
      | CA_CONFIG \<Rightarrow> map_option (\<lambda>(_, s'). (0, s')) (WriteFlashMemory_gen B True True s)
      | CA_other \<Rightarrow> Some (- 1, s))"

subsection \<open>Boot\<close>

text \<open>
  \<open>ReadCameraParam\<close> at boot: a configuration that cannot be read, or three starts in a row that did
  not get far enough to clear \<open>ucFailTime\<close>, bring back the built-in defaults (\<open>InitDefaultParam\<close>).
  \<open>prdTask_ResetFlag_FactoryDefault\<close> runs five seconds later and clears the count. The result is the state and
  \<open>g_ResetFlag\<close>.
\<close>

definition ucFailTime :: "u8 list \<Rightarrow> u8" where
  "ucFailTime img = img ! 0"

definition ReadCameraParam :: "board \<Rightarrow> flash_config \<Rightarrow> (bool \<times> flash_config) option" where
  "ReadCameraParam B s =
     (case ReadFlashMemory B s of
        None \<Rightarrow> None
      | Some (good, img) \<Rightarrow>
          let g_ResetFlag = (\<not> good \<or> 3 \<le> ucFailTime img);
              img' = (if g_ResetFlag then default_image B else img[0 := ucFailTime img + 1])
          in map_option (\<lambda>(_, s'). (g_ResetFlag, s')) (WriteFlashMemory B (s\<lparr>g_ConfigParam := img'\<rparr>)))"

definition prdTask_ResetFlag_FactoryDefault :: "board \<Rightarrow> flash_config \<Rightarrow> flash_config option" where
  "prdTask_ResetFlag_FactoryDefault B s =
     map_option snd (WriteFlashMemory B (s\<lparr>g_ConfigParam := (g_ConfigParam s)[0 := 0]\<rparr>))"

text \<open>
  Losing power and starting again: RAM is back at its initial values, \<open>main\<close> initialises the device, decides
  whether there is a flash, and reads the configuration (\<open>ReadCameraParam\<close>).
\<close>

definition power_on :: "board \<Rightarrow> flash_config \<Rightarrow> flash_config" where
  "power_on B s =
     (let (rt, u) = usiMyInitDevice (chip_id B) (usi_power_cycle (cfg_flash s))
      in \<lparr>cfg_flash = u, USI_IS_READY = (rt \<noteq> USI_ERR_DEVICE),
          s_bNotResetCheckSum = False, g_ConfigParam = replicate (cfg_sizeof B) 0\<rparr>)"

subsection \<open>The layout of a board\<close>

definition board_ok :: "board \<Rightarrow> bool" where
  "board_ok B =
     (0 < cfg_offsetof_sum B \<and> cfg_offsetof_sum B + 4 \<le> cfg_sizeof B \<and> cfg_sizeof B \<le> 65536
      \<and> usiInitDevice (chip_id B) \<noteq> USI_ERR_DEVICE
      \<and> length (default_image B) = cfg_sizeof B \<and> ucFailTime (default_image B) = 0)"

definition chip_size :: "board \<Rightarrow> nat" where
  "chip_size B = unat (usiInitDevice (chip_id B)) * 512"

definition area_size :: "board \<Rightarrow> nat" where
  "area_size B = (cfg_sizeof B + 255) div 256 * 256"

definition cfg_inv :: "board \<Rightarrow> flash_config \<Rightarrow> bool" where
  "cfg_inv B s =
     (usi_inv (cfg_flash s) \<and> g_uTotalSize (cfg_flash s) = usiInitDevice (chip_id B) * 512
      \<and> length (g_ConfigParam s) = cfg_sizeof B)"

datatype area = Main | Default

definition area_base :: "board \<Rightarrow> area \<Rightarrow> nat" where
  "area_base B r = (case r of Main \<Rightarrow> chip_size B - 2 * area_size B | Default \<Rightarrow> chip_size B - area_size B)"

text \<open>What an area holds, as the flash driver shows it.\<close>

definition stored :: "board \<Rightarrow> area \<Rightarrow> flash_config \<Rightarrow> u8 list" where
  "stored B r s = map (usi_view (cfg_flash s)) [area_base B r ..< area_base B r + cfg_sizeof B]"

lemma length_stored [simp]: "length (stored B r s) = cfg_sizeof B"
  by (simp add: stored_def)

lemma chip_cases:
  assumes "usiInitDevice i \<noteq> USI_ERR_DEVICE"
  shows "unat (usiInitDevice i) \<in> {1024, 2048, 4096, 8192}"
    and "unat (usiInitDevice i * 512) = unat (usiInitDevice i) * 512"
  using assms by (simp_all add: usiInitDevice_def split: if_splits)

lemma area_bounds:
  assumes "board_ok B"
  shows "cfg_sizeof B \<le> area_size B" and "area_size B \<le> 65536" and "2 * area_size B < chip_size B"
    and "chip_size B \<le> 2 ^ 22"
proof -
  have n: "cfg_sizeof B \<le> 65536" using assms by (simp add: board_ok_def)
  have "unat (usiInitDevice (chip_id B)) \<in> {1024, 2048, 4096, 8192}"
    using assms by (intro chip_cases) (simp add: board_ok_def)
  then have c: "524288 \<le> chip_size B" "chip_size B \<le> 2 ^ 22" by (auto simp: chip_size_def)
  have "(cfg_sizeof B + 255) div 256 \<le> 256" using n by (simp add: div_le_dividend)
  then show "area_size B \<le> 65536" by (simp add: area_size_def)
  then show "2 * area_size B < chip_size B" using c by linarith
  have "cfg_sizeof B + 255 = (cfg_sizeof B + 255) div 256 * 256 + (cfg_sizeof B + 255) mod 256"
    by simp
  moreover have "(cfg_sizeof B + 255) mod 256 \<le> 255" by (simp add: less_Suc_eq_le [symmetric])
  ultimately show "cfg_sizeof B \<le> area_size B" unfolding area_size_def by linarith
  show "chip_size B \<le> 2 ^ 22" by (rule c(2))
qed

lemma unat_sizeof: "board_ok B \<Longrightarrow> unat (of_nat (cfg_sizeof B) :: u32) = cfg_sizeof B"
  by (simp add: board_ok_def unat_of_nat)

lemma unat_FLASH_CONFIG_SIZE:
  assumes "board_ok B"
  shows "unat (FLASH_CONFIG_SIZE B) = area_size B"
proof -
  have "unat (of_nat (cfg_sizeof B) + 255 :: u32) = cfg_sizeof B + 255"
    using assms by (subst unat_plus_no_wrap) (simp_all add: unat_sizeof, simp_all add: board_ok_def)
  then have "unat ((of_nat (cfg_sizeof B) + 255) div 256 :: u32) = (cfg_sizeof B + 255) div 256"
    by (simp add: unat_div_distrib)
  then show ?thesis
    using area_bounds(2) [OF assms]
    by (simp add: FLASH_CONFIG_SIZE_def area_size_def unat_word_ariths)
qed

lemma area_addresses:
  assumes "board_ok B" and "cfg_inv B s"
  shows "unat (FLASH_TOTAL_SIZE s - FLASH_CONFIG_SIZE B) = area_base B Default"
    and "unat (FLASH_TOTAL_SIZE s - FLASH_CONFIG_SIZE B * 2) = area_base B Main"
proof -
  note b = area_bounds [OF assms(1)]
  have t: "unat (FLASH_TOTAL_SIZE s) = chip_size B"
    using assms chip_cases(2) [of "chip_id B"]
    by (simp add: FLASH_TOTAL_SIZE_def usiMyGetTotalSize_def cfg_inv_def board_ok_def chip_size_def)
  have c: "unat (FLASH_CONFIG_SIZE B) = area_size B" by (rule unat_FLASH_CONFIG_SIZE [OF assms(1)])
  then have c2: "unat (FLASH_CONFIG_SIZE B * 2) = 2 * area_size B"
    using b(2) by (simp add: unat_word_ariths)
  show "unat (FLASH_TOTAL_SIZE s - FLASH_CONFIG_SIZE B) = area_base B Default"
    using b(3) by (subst unat_minus_le) (simp_all add: t c area_base_def)
  show "unat (FLASH_TOTAL_SIZE s - FLASH_CONFIG_SIZE B * 2) = area_base B Main"
    using b(3) by (subst unat_minus_le) (simp_all add: t c2 area_base_def)
qed

lemma area_fits:
  assumes "board_ok B"
  shows "area_base B r + cfg_sizeof B \<le> 2 ^ 24"
    and "area_base B Main + cfg_sizeof B \<le> area_base B Default"
  using area_bounds [OF assms] by (cases r; simp add: area_base_def)+

subsection \<open>The checksum\<close>

lemma length_put_u32 [simp]: "p + 4 \<le> length bs \<Longrightarrow> length (put_u32 p w bs) = length bs"
  by (simp add: put_u32_def)

lemma nth_put_u32_other:
  "p + 4 \<le> length bs \<Longrightarrow> i < length bs \<Longrightarrow> \<not> (p \<le> i \<and> i < p + 4) \<Longrightarrow> put_u32 p w bs ! i = bs ! i"
  by (auto simp: put_u32_def nth_blit)

lemma unat_ucast_byte: "unat (ucast (w :: u32) :: u8) = unat w mod 256"
  by (simp add: unsigned_ucast_eq take_bit_eq_mod)

lemma unat_ucast_wide: "unat (ucast (b :: u8) :: u32) = unat b"
proof -
  have "unat b < 2 ^ 8" using unsigned_less [of b] by simp
  then show ?thesis by (simp add: unsigned_ucast_eq take_bit_eq_mod)
qed

lemma bytes_sum:
  fixes n :: nat
  assumes "n < 2 ^ 32"
  shows "n mod 256 + n div 256 mod 256 * 256 + n div 65536 mod 256 * 65536 + n div 16777216 mod 256 * 16777216 = n"
proof -
  have d: "n div 65536 = n div 256 div 256" "n div 16777216 = n div 256 div 256 div 256"
    by (simp_all add: div_mult2_eq [symmetric])
  have "n div 256 div 256 div 256 < 256"
    using assms by (simp add: div_mult2_eq [symmetric] less_mult_imp_div_less)
  then have "n div 256 div 256 div 256 mod 256 = n div 256 div 256 div 256" by simp
  moreover have "n = n div 256 * 256 + n mod 256"
    "n div 256 = n div 256 div 256 * 256 + n div 256 mod 256"
    "n div 256 div 256 = n div 256 div 256 div 256 * 256 + n div 256 div 256 mod 256"
    by simp_all
  ultimately show ?thesis unfolding d by linarith
qed

lemma get_put_u32:
  assumes "p + 4 \<le> length bs"
  shows "get_u32 p (put_u32 p w bs) = w"
proof -
  let ?bs = "put_u32 p w bs" and ?n = "unat w"
  have b: "?bs ! p = ucast w" "?bs ! (p + 1) = ucast (w div 256)" "?bs ! (p + 2) = ucast (w div 65536)"
    "?bs ! (p + 3) = ucast (w div 16777216)"
    using assms by (simp_all add: put_u32_def nth_blit)
  have u: "unat (ucast (ucast w :: u8) :: u32) = ?n mod 256"
    "unat (ucast (ucast (w div 256) :: u8) :: u32) = ?n div 256 mod 256"
    "unat (ucast (ucast (w div 65536) :: u8) :: u32) = ?n div 65536 mod 256"
    "unat (ucast (ucast (w div 16777216) :: u8) :: u32) = ?n div 16777216 mod 256"
    by (simp_all only: unat_ucast_wide unat_ucast_byte unat_div_distrib) simp_all
  have w: "of_nat (?n mod 256) = (ucast (ucast w :: u8) :: u32)"
    "of_nat (?n div 256 mod 256) = (ucast (ucast (w div 256) :: u8) :: u32)"
    "of_nat (?n div 65536 mod 256) = (ucast (ucast (w div 65536) :: u8) :: u32)"
    "of_nat (?n div 16777216 mod 256) = (ucast (ucast (w div 16777216) :: u8) :: u32)"
    by (simp_all only: u [symmetric] of_nat_unat_self)
  have "get_u32 p ?bs = of_nat (?n mod 256 + ?n div 256 mod 256 * 256 + ?n div 65536 mod 256 * 65536
      + ?n div 16777216 mod 256 * 16777216)"
    unfolding get_u32_def b by (simp only: of_nat_add of_nat_mult w of_nat_numeral)
  also have "\<dots> = w" using unsigned_less [of w] by (subst bytes_sum) simp_all
  finally show ?thesis .
qed

lemma checksum_fold_cong:
  "(\<And>i. i \<in> set is \<Longrightarrow> xs ! i = ys ! i) \<Longrightarrow> fold (checksum_step xs) is a = fold (checksum_step ys) is a"
  by (induction "is" arbitrary: a) (simp_all add: checksum_step_def)

lemma checksum_ignores_sum:
  assumes "board_ok B" and "length img = cfg_sizeof B"
  shows "GetConfigCheckSum B (set_ulCheckSum B w img) = GetConfigCheckSum B img"
proof -
  have "set_ulCheckSum B w img ! i = img ! i"
    if "i \<in> set [0 ..< cfg_offsetof_sum B] \<union> set [cfg_offsetof_sum B + 4 ..< cfg_sizeof B]" for i
    using assms that by (intro nth_put_u32_other) (auto simp: board_ok_def)
  then have "fold (checksum_step (set_ulCheckSum B w img)) is a = fold (checksum_step img) is a"
    if "is = [0 ..< cfg_offsetof_sum B] \<or> is = [cfg_offsetof_sum B + 4 ..< cfg_sizeof B]" for "is" a
    using that by (intro checksum_fold_cong) auto
  then show ?thesis by (simp add: GetConfigCheckSum_def)
qed

lemma image_ok_set:
  assumes "board_ok B" and "length img = cfg_sizeof B"
  shows "image_ok B (set_ulCheckSum B w img) = (w = GetConfigCheckSum B img)"
  using assms checksum_ignores_sum [OF assms, of w] get_put_u32 [of "cfg_offsetof_sum B" img w]
  by (auto simp: image_ok_def board_ok_def)

subsection \<open>What a read and a write do\<close>

lemma read_area:
  assumes "board_ok B" and "cfg_inv B s" and "unat a = area_base B r"
  shows "usiMyRead a (of_nat (cfg_sizeof B)) (cfg_flash s) = Some (stored B r s)"
proof -
  have "usi_inv (cfg_flash s)" using assms(2) by (simp add: cfg_inv_def)
  from flash.read_view [OF this, of a "of_nat (cfg_sizeof B)"] show ?thesis
    using area_fits(1) [OF assms(1), of r] by (simp add: stored_def assms(3) unat_sizeof [OF assms(1)])
qed

text \<open>The image a read settles on: the main area if its checksum fits, the default area otherwise.\<close>

definition boot_image :: "board \<Rightarrow> flash_config \<Rightarrow> u8 list" where
  "boot_image B s = (if image_ok B (stored B Main s) then stored B Main s else stored B Default s)"

lemma ReadFlashMemory_stored [cfg_simps]:
  assumes "board_ok B" and "cfg_inv B s" and "USI_IS_READY s"
  shows "ReadFlashMemory B s =
     Some (image_ok B (boot_image B s), boot_image B s)"
  using assms(3) read_area [OF assms(1,2) area_addresses(1) [OF assms(1,2)]]
    read_area [OF assms(1,2) area_addresses(2) [OF assms(1,2)]]
  by (simp add: ReadFlashMemory_def boot_image_def image_ok_def)

definition flushed :: "flash_config \<Rightarrow> bool" where
  "flushed s = (g_uUSICacheAddr (cfg_flash s) = - 1)"

lemma stored_overlay:
  assumes "usi_view (cfg_flash s') = overlay a bs (usi_view (cfg_flash s))" and "length bs = cfg_sizeof B"
  shows "a = area_base B r \<Longrightarrow> stored B r s' = bs"
    and "area_base B r + cfg_sizeof B \<le> a \<or> a + cfg_sizeof B \<le> area_base B r \<Longrightarrow>
      stored B r s' = stored B r s"
  using assms overlay_inside [of a bs "usi_view (cfg_flash s)"]
    overlay_outside [of "area_base B r + cfg_sizeof B" a bs "area_base B r" "usi_view (cfg_flash s)"]
  by (simp_all add: stored_def)

lemma WriteFlashMemory_gen_spec:
  fixes rst d :: bool
  assumes B: "board_ok B" and inv: "cfg_inv B s" and "USI_IS_READY s" and "\<not> (rst \<and> s_bNotResetCheckSum s)"
  defines "r \<equiv> (if d then Default else Main)"
  shows "\<exists>s'. WriteFlashMemory_gen B rst d s = Some (True, s') \<and> cfg_inv B s' \<and> flushed s' \<and> USI_IS_READY s'
     \<and> s_bNotResetCheckSum s' = (\<not> rst)
     \<and> g_ConfigParam s' = (if rst then set_ulCheckSum B (GetConfigCheckSum B (g_ConfigParam s)) (g_ConfigParam s)
                            else g_ConfigParam s)
     \<and> stored B r s' = g_ConfigParam s' \<and> (\<forall>r'. r' \<noteq> r \<longrightarrow> stored B r' s' = stored B r' s)"
proof -
  let ?img = "if rst then set_ulCheckSum B (GetConfigCheckSum B (g_ConfigParam s)) (g_ConfigParam s)
              else g_ConfigParam s"
  let ?s1 = "if rst then s\<lparr>g_ConfigParam := ?img\<rparr> else s\<lparr>s_bNotResetCheckSum := True\<rparr>"
  let ?a = "if d then FLASH_TOTAL_SIZE ?s1 - FLASH_CONFIG_SIZE B else FLASH_TOTAL_SIZE ?s1 - FLASH_CONFIG_SIZE B * 2"
  have len: "length ?img = cfg_sizeof B" using inv B by (simp add: cfg_inv_def board_ok_def)
  have s1: "cfg_inv B ?s1" "cfg_flash ?s1 = cfg_flash s" "g_ConfigParam ?s1 = ?img"
    "USI_IS_READY ?s1" "s_bNotResetCheckSum ?s1 = (\<not> rst)"
    using inv len assms(3,4) by (auto simp: cfg_inv_def)
  have a: "unat ?a = area_base B r" using area_addresses [OF B s1(1)] by (simp add: r_def)
  have "usi_inv (cfg_flash s)" using inv by (simp add: cfg_inv_def)
  from flash.write_view [OF this, of ?a "of_nat (cfg_sizeof B)" ?img] area_fits(1) [OF B, of r]
  obtain u where u: "usiMyWrite ?a (of_nat (cfg_sizeof B)) ?img (cfg_flash s) = Some u" "usi_inv u"
    "usi_view u = overlay (area_base B r) ?img (usi_view (cfg_flash s))"
    unfolding a unat_sizeof [OF B] len by blast
  let ?s' = "?s1\<lparr>cfg_flash := usiMyFlash u\<rparr>"
  have "WriteFlashMemory_gen B rst d s = Some (True, ?s')"
    unfolding WriteFlashMemory_gen_def using u(1) s1 assms(4) by (auto simp: Let_def split: if_splits)
  moreover have "cfg_inv B ?s'" "flushed ?s'"
    using s1(1) usiMyFlash_simps [OF u(2)] usiMyWrite_total [OF u(1)] inv by (simp_all add: cfg_inv_def flushed_def)
  moreover have "stored B r ?s' = ?img" and "\<forall>r'. r' \<noteq> r \<longrightarrow> stored B r' ?s' = stored B r' s"
  proof -
    have v: "usi_view (cfg_flash ?s') = overlay (area_base B r) ?img (usi_view (cfg_flash s))"
      using usiMyFlash_simps(4) [OF u(2)] u(3) by simp
    show "stored B r ?s' = ?img" using stored_overlay(1) [OF v len] by simp
    show "\<forall>r'. r' \<noteq> r \<longrightarrow> stored B r' ?s' = stored B r' s"
    proof (intro allI impI)
      fix r' assume "r' \<noteq> r"
      then have "area_base B r' + cfg_sizeof B \<le> area_base B r \<or> area_base B r + cfg_sizeof B \<le> area_base B r'"
        using area_fits(2) [OF B] by (cases r; cases r') auto
      with stored_overlay(2) [OF v len] show "stored B r' ?s' = stored B r' s" by simp
    qed
  qed
  ultimately show ?thesis using s1 by (intro exI [of _ ?s']) simp
qed

lemma power_on_keeps:
  assumes B: "board_ok B" and "cfg_inv B s" and "flushed s"
  shows "cfg_inv B (power_on B s)" and "stored B r (power_on B s) = stored B r s"
    and "USI_IS_READY (power_on B s)" and "\<not> s_bNotResetCheckSum (power_on B s)" and "flushed (power_on B s)"
proof -
  let ?u = "usi_power_cycle (cfg_flash s)"
  have z: "g_uTotalSize ?u = 0" by (simp add: usi_power_cycle_def)
  have p: "cfg_flash (power_on B s) = ?u\<lparr>g_uTotalSize := usiInitDevice (chip_id B) * 512\<rparr>"
    by (simp add: power_on_def usiMyInitDevice_def z Let_def) (simp add: usi_power_cycle_def)
  show "cfg_inv B (power_on B s)"
    using usi_power_cycle_inv [of "cfg_flash s"] by (simp add: cfg_inv_def p usi_inv_def) (simp add: power_on_def split: prod.split)
  have "usi_view (?u\<lparr>g_uTotalSize := t\<rparr>) = usi_view (cfg_flash s)" for t
    using assms(3) by (simp add: usi_view_def usi_power_cycle_def flushed_def fun_eq_iff)
  then show "stored B r (power_on B s) = stored B r s" by (simp add: stored_def p)
  show "flushed (power_on B s)" by (simp add: flushed_def p) (simp add: usi_power_cycle_def)
  have "usiInitDevice (chip_id B) * 512 \<noteq> USI_ERR_DEVICE"
    using B by (auto simp: board_ok_def usiInitDevice_def USI_ERR_DEVICE_def)
  then show "USI_IS_READY (power_on B s)" and "\<not> s_bNotResetCheckSum (power_on B s)"
    by (simp_all add: power_on_def usiMyInitDevice_def z Let_def)
qed

subsection \<open>Saving, restoring and detecting\<close>

text \<open>An example: an 8-byte structure with its checksum at the end, on a 512 KB chip, both areas valid.\<close>

definition example_board :: board where
  "example_board = \<lparr>cfg_sizeof = 8, cfg_offsetof_sum = 4, chip_id = 0xef12, default_image = replicate 8 0\<rparr>"

definition example_cfg :: flash_config where
  "example_cfg =
     \<lparr>cfg_flash = \<lparr>usi_chip = \<lparr>nor_cells = (\<lambda>x. if x = 523780 \<or> x = 524036 then 14 else 0), nor_wel = False\<rparr>,
        g_uUSI_BUF = replicate 65536 0, g_uUSICacheAddr = - 1, g_uTotalSize = 524288\<rparr>,
      USI_IS_READY = True, s_bNotResetCheckSum = False, g_ConfigParam = [0, 0, 0, 0, 14, 0, 0, 0]\<rparr>"

lemma example_board_ok [simp]: "board_ok example_board"
  by (simp add: board_ok_def example_board_def usiInitDevice_def USI_ERR_DEVICE_def ucFailTime_def)

lemma example_cfg_simps [simp]:
  "cfg_inv example_board example_cfg" "USI_IS_READY example_cfg" "\<not> s_bNotResetCheckSum example_cfg"
  "flushed example_cfg" "g_ConfigParam example_cfg = [0, 0, 0, 0, 14, 0, 0, 0]"
  by (simp_all add: cfg_inv_def example_cfg_def example_board_def usi_inv_def usiInitDevice_def flushed_def)

lemma example_stored:
  "stored example_board r example_cfg = [0, 0, 0, 0, 14, 0, 0, 0]"
proof -
  have base: "area_base example_board Main = 523776" "area_base example_board Default = 524032"
    by (simp_all add: area_base_def chip_size_def area_size_def example_board_def usiInitDevice_def)
  have view: "usi_view (cfg_flash example_cfg) = (\<lambda>x. if x = 523780 \<or> x = 524036 then 14 else 0)"
    by (simp add: usi_view_def example_cfg_def fun_eq_iff)
  have "[0 ..< 8] = [0, 1, 2, 3, 4, 5, 6, 7 :: nat]" by (simp add: upt_rec)
  moreover have "cfg_sizeof example_board = 8" by (simp add: example_board_def)
  ultimately show ?thesis
    by (cases r) (simp_all add: stored_def map_upt_shift base view)
qed

lemma example_image_ok: "image_ok example_board [0, 0, 0, 0, 14, 0, 0, 0]"
proof -
  have "[0 ..< 4] = [0, 1, 2, 3 :: nat]" by (simp add: upt_rec)
  then show ?thesis
    by (simp add: image_ok_def GetConfigCheckSum_def example_board_def checksum_step_def get_u32_def)
qed

text \<open>
  C2. A configuration that was saved is read back, unchanged but for its checksum, after the power was cut.
\<close>

theorem config_survives_reboot:
  assumes "board_ok B" and "cfg_inv B s" and "USI_IS_READY s" and "\<not> s_bNotResetCheckSum s"
  shows "\<exists>s'. WriteFlashMemory B s = Some (True, s')
     \<and> g_ConfigParam s' = set_ulCheckSum B (GetConfigCheckSum B (g_ConfigParam s)) (g_ConfigParam s)
     \<and> ReadFlashMemory B (power_on B s') = Some (True, g_ConfigParam s')"
proof -
  from WriteFlashMemory_gen_spec [OF assms(1-3), of True False] assms(4) obtain s' where
    s': "WriteFlashMemory_gen B True False s = Some (True, s')" "cfg_inv B s'" "flushed s'"
    "g_ConfigParam s' = set_ulCheckSum B (GetConfigCheckSum B (g_ConfigParam s)) (g_ConfigParam s)"
    "stored B Main s' = g_ConfigParam s'" by auto
  have "image_ok B (g_ConfigParam s')"
    using image_ok_set [OF assms(1)] assms(2) by (simp add: s'(4) cfg_inv_def)
  with s' ReadFlashMemory_stored [OF assms(1) power_on_keeps(1) [OF assms(1) s'(2,3)]
      power_on_keeps(3) [OF assms(1) s'(2,3)]]
  show ?thesis by (simp add: WriteFlashMemory_def boot_image_def power_on_keeps(2) [OF assms(1) s'(2,3)])
qed

theorem config_survives_reboot_witness:
  "\<exists>s'. WriteFlashMemory example_board (example_cfg\<lparr>g_ConfigParam := replicate 8 7\<rparr>) = Some (True, s')
     \<and> ReadFlashMemory example_board (power_on example_board s') = Some (True, g_ConfigParam s')
     \<and> g_ConfigParam s' ! 2 = 7"
proof -
  let ?s = "example_cfg\<lparr>g_ConfigParam := replicate 8 7\<rparr>"
  have "cfg_inv example_board ?s"
    using example_cfg_simps(1) by (simp add: cfg_inv_def example_board_def)
  moreover have "set_ulCheckSum example_board w (replicate 8 7) ! 2 = 7" for w
    by (subst nth_put_u32_other) (simp_all add: example_board_def)
  ultimately show ?thesis using config_survives_reboot [of example_board ?s] by fastforce
qed

lemma reset_reads_default:
  assumes "board_ok B" and "cfg_inv B s" and "USI_IS_READY s"
  shows "\<exists>s'. Http_SetFactoryDefault B CA_CONFIG s = Some (0, s')
     \<and> (\<forall>img. WriteFlashMemory B (s'\<lparr>g_ConfigParam := img\<rparr>) = Some (False, s'\<lparr>g_ConfigParam := img\<rparr>))
     \<and> ReadFlashMemory B (power_on B s') = Some (image_ok B (stored B Default s), stored B Default s)"
proof -
  let ?img = "set_ulCheckSum B (GetConfigCheckSum B (g_ConfigParam s) + 1) (g_ConfigParam s)"
  let ?s = "s\<lparr>g_ConfigParam := ?img\<rparr>"
  have len: "length (g_ConfigParam s) = cfg_sizeof B" using assms(2) by (simp add: cfg_inv_def)
  have s: "cfg_inv B ?s" "USI_IS_READY ?s" "stored B r ?s = stored B r s" for r
    using assms len by (simp_all add: cfg_inv_def board_ok_def stored_def)
  from WriteFlashMemory_gen_spec [OF assms(1) s(1,2), of False False] obtain s' where
    s': "WriteFlashMemory_gen B False False ?s = Some (True, s')" "cfg_inv B s'" "flushed s'"
    "s_bNotResetCheckSum s'" "stored B Main s' = ?img" "stored B Default s' = stored B Default s"
    by (auto simp: s(3))
  have "\<not> image_ok B ?img" using image_ok_set [OF assms(1) len] by simp
  then have "ReadFlashMemory B (power_on B s') = Some (image_ok B (stored B Default s), stored B Default s)"
    using s' power_on_keeps [OF assms(1) s'(2,3)]
    by (simp add: ReadFlashMemory_stored [OF assms(1)] boot_image_def)
  moreover have "WriteFlashMemory B (s'\<lparr>g_ConfigParam := img\<rparr>) = Some (False, s'\<lparr>g_ConfigParam := img\<rparr>)" for img
    using s'(4) by (simp add: WriteFlashMemory_def WriteFlashMemory_gen_def)
  ultimately show ?thesis
    using s'(1) by (simp add: Http_SetFactoryDefault_def)
qed

text \<open>
  A factory reset makes the default area the configuration of the next start, whatever was configured, and
  until that start no ordinary save can undo it: \<open>WriteFlashMemory\<close> refuses and changes nothing.
\<close>

theorem factory_reset_restores:
  assumes "board_ok B" and "cfg_inv B s" and "USI_IS_READY s"
  shows "\<exists>s'. Http_SetFactoryDefault B CA_CONFIG s = Some (0, s')
     \<and> (\<forall>img. WriteFlashMemory B (s'\<lparr>g_ConfigParam := img\<rparr>) = Some (False, s'\<lparr>g_ConfigParam := img\<rparr>))
     \<and> ReadFlashMemory B (power_on B s') = Some (image_ok B (stored B Default s), stored B Default s)"
  using assms by (rule reset_reads_default)

theorem factory_reset_restores_witness:
  "\<exists>s'. Http_SetFactoryDefault example_board CA_CONFIG example_cfg = Some (0, s')
     \<and> ReadFlashMemory example_board (power_on example_board s') = Some (True, [0, 0, 0, 0, 14, 0, 0, 0])"
  using factory_reset_restores [of example_board example_cfg] by (auto simp: example_stored example_image_ok)

subsection \<open>Detecting damage\<close>

definition summed :: "board \<Rightarrow> nat list" where
  "summed B = [0 ..< cfg_offsetof_sum B] @ [cfg_offsetof_sum B + 4 ..< cfg_sizeof B]"

lemma GetConfigCheckSum_summed:
  "GetConfigCheckSum B img = fold (checksum_step img) (summed B) 0 + of_nat (cfg_sizeof B)"
  by (simp add: GetConfigCheckSum_def summed_def)

lemma checksum_acc: "fold (checksum_step img) is a = a + fold (checksum_step img) is 0"
proof (induction "is" arbitrary: a)
  case (Cons i "is")
  show ?case
    using Cons.IH [of "checksum_step img i a"] Cons.IH [of "checksum_step img i 0"]
    by (simp add: checksum_step_def)
qed simp

lemma checksum_update:
  assumes "distinct is" and "i \<in> set is" and "i < length img"
  shows "fold (checksum_step (img[i := b])) is 0
     = fold (checksum_step img) is 0 + (ucast b - ucast (img ! i)) * of_nat i"
  using assms(1,2)
proof (induction "is")
  case (Cons j js)
  show ?case
  proof (cases "j = i")
    case True
    with Cons.prems have "fold (checksum_step (img[i := b])) js 0 = fold (checksum_step img) js 0"
      by (intro checksum_fold_cong) (metis nth_list_update_neq distinct.simps(2))
    then have "fold (checksum_step (img[i := b])) (j # js) 0
        = (ucast b * of_nat i + of_nat i) + fold (checksum_step img) js 0"
      using True assms(3) by (simp add: checksum_step_def checksum_acc [of "img[i := b]" js "_ + _"])
    moreover have "fold (checksum_step img) (j # js) 0
        = (ucast (img ! i) * of_nat i + of_nat i) + fold (checksum_step img) js 0"
      using True by (simp add: checksum_step_def checksum_acc [of img js "_ + _"])
    ultimately show ?thesis by (simp only: left_diff_distrib) simp
  next
    case False
    with Cons have "fold (checksum_step (img[i := b])) js 0
        = fold (checksum_step img) js 0 + (ucast b - ucast (img ! i)) * of_nat i" by simp
    moreover have "fold (checksum_step (img[i := b])) (j # js) 0
        = (ucast (img ! j) * of_nat j + of_nat j) + fold (checksum_step (img[i := b])) js 0"
      using False by (simp add: checksum_step_def checksum_acc [of "img[i := b]" js "_ + _"])
    moreover have "fold (checksum_step img) (j # js) 0
        = (ucast (img ! j) * of_nat j + of_nat j) + fold (checksum_step img) js 0"
      by (simp add: checksum_step_def checksum_acc [of img js "_ + _"])
    ultimately show ?thesis by (simp only: add.assoc)
  qed
qed simp

lemma weight_nonzero_less:
  fixes b c :: u8
  assumes "c < b" and "i \<le> 65536"
  shows "(ucast b - ucast c :: u32) * of_nat i = 0 \<longleftrightarrow> i = 0"
proof -
  have lt: "unat c < unat b" "unat b < 256"
    using assms(1) unsigned_less [of b] by (simp_all add: word_less_nat_alt)
  then have d: "unat (ucast b - ucast c :: u32) = unat b - unat c"
    by (subst unat_minus_le) (simp_all add: unat_ucast_wide)
  have "(unat b - unat c) * i \<le> 255 * 65536" using lt assms(2) by (intro mult_le_mono) linarith+
  moreover have "unat (of_nat i :: u32) = i" using assms(2) by (simp add: unat_of_nat)
  ultimately have "unat ((ucast b - ucast c :: u32) * of_nat i) = (unat b - unat c) * i"
    by (simp add: unat_word_ariths(2) d)
  then show ?thesis using lt by (simp add: unat_eq_0 [symmetric])
qed

lemma weight_nonzero:
  fixes b c :: u8
  assumes "b \<noteq> c" and "i \<le> 65536"
  shows "(ucast b - ucast c :: u32) * of_nat i = 0 \<longleftrightarrow> i = 0"
proof (cases "c < b")
  case True
  then show ?thesis using assms(2) by (rule weight_nonzero_less)
next
  case False
  then have "b < c" using assms(1) by simp
  from weight_nonzero_less [OF this assms(2)] show ?thesis
    by (metis minus_diff_eq minus_mult_left neg_equal_0_iff_equal)
qed

lemma unat_get_u32:
  "unat (get_u32 p bs) =
     unat (bs ! p) + unat (bs ! (p + 1)) * 256 + unat (bs ! (p + 2)) * 65536 + unat (bs ! (p + 3)) * 16777216"
proof -
  have b: "unat (x :: u8) \<le> 255" for x using unat_byte [of x] by simp
  have "get_u32 p bs = of_nat (unat (bs ! p) + unat (bs ! (p + 1)) * 256 + unat (bs ! (p + 2)) * 65536
      + unat (bs ! (p + 3)) * 16777216)"
    by (simp add: get_u32_def)
  moreover have "unat (bs ! p) + unat (bs ! (p + 1)) * 256 + unat (bs ! (p + 2)) * 65536
      + unat (bs ! (p + 3)) * 16777216 < 2 ^ 32"
    using b [of "bs ! p"] b [of "bs ! (p + 1)"] b [of "bs ! (p + 2)"] b [of "bs ! (p + 3)"] by simp
  ultimately show ?thesis by (simp only: unat_of_nat) simp
qed

lemma get_u32_update:
  assumes "p \<le> i" and "i < p + 4" and "i < length bs" and "b \<noteq> bs ! i"
  shows "get_u32 p (bs[i := b]) \<noteq> get_u32 p bs"
proof
  assume "get_u32 p (bs[i := b]) = get_u32 p bs"
  then have "unat (get_u32 p (bs[i := b])) = unat (get_u32 p bs)" by simp
  moreover have "unat b \<noteq> unat (bs ! i)" using assms(4) by (simp add: word_unat_eq_iff)
  moreover have "i = p \<or> i = p + 1 \<or> i = p + 2 \<or> i = p + 3" using assms(1,2) by linarith
  ultimately show False using assms(3) unfolding unat_get_u32 by auto
qed

text \<open>
  C10. One damaged byte of a stored configuration is always noticed, except in byte 0 (\<open>ucFailTime\<close>), which the
  checksum weighs with zero: a change there never is.
\<close>

theorem single_byte_damage:
  assumes B: "board_ok B" and len: "length img = cfg_sizeof B" and good: "image_ok B img"
    and i: "i < cfg_sizeof B" and b: "b \<noteq> img ! i"
  shows "image_ok B (img[i := b]) \<longleftrightarrow> i = 0"
proof (cases "i \<in> set (summed B)")
  case True
  then have "\<not> (cfg_offsetof_sum B \<le> i \<and> i < cfg_offsetof_sum B + 4)" by (auto simp: summed_def)
  then have "ulCheckSum B (img[i := b]) = ulCheckSum B img"
    by (auto simp: get_u32_def nth_list_update)
  moreover have "distinct (summed B)" by (auto simp: summed_def)
  then have "GetConfigCheckSum B (img[i := b]) = GetConfigCheckSum B img + (ucast b - ucast (img ! i)) * of_nat i"
    unfolding GetConfigCheckSum_summed using checksum_update [OF _ True] i len by simp
  moreover have "i \<le> 65536" using B i by (simp add: board_ok_def)
  ultimately show ?thesis using good weight_nonzero [OF b] by (auto simp: image_ok_def)
next
  case False
  then have w: "cfg_offsetof_sum B \<le> i" "i < cfg_offsetof_sum B + 4" using i by (auto simp: summed_def)
  then have "fold (checksum_step (img[i := b])) (summed B) 0 = fold (checksum_step img) (summed B) 0"
    using False by (intro checksum_fold_cong) (metis nth_list_update_neq)
  then have "GetConfigCheckSum B (img[i := b]) = GetConfigCheckSum B img"
    by (simp add: GetConfigCheckSum_summed)
  moreover have "i \<noteq> 0" using B w by (auto simp: board_ok_def)
  ultimately show ?thesis
    using good get_u32_update [OF w, of img b] i len b by (auto simp: image_ok_def)
qed

theorem single_byte_damage_witness:
  "\<not> image_ok example_board [0, 0, 9, 0, 14, 0, 0, 0] \<and> image_ok example_board [9, 0, 0, 0, 14, 0, 0, 0]"
  using single_byte_damage [OF example_board_ok _ example_image_ok, of 2 9]
    single_byte_damage [OF example_board_ok _ example_image_ok, of 0 9]
  by (simp add: example_board_def)

subsection \<open>Starting up\<close>

definition signed :: "board \<Rightarrow> u8 list \<Rightarrow> u8 list" where
  "signed B img = set_ulCheckSum B (GetConfigCheckSum B img) img"

text \<open>The state after a successful save: RAM and main area agree and are valid.\<close>

definition saved :: "board \<Rightarrow> flash_config \<Rightarrow> u8 list \<Rightarrow> bool" where
  "saved B s img =
     (cfg_inv B s \<and> flushed s \<and> USI_IS_READY s \<and> \<not> s_bNotResetCheckSum s
      \<and> g_ConfigParam s = img \<and> stored B Main s = img \<and> image_ok B img)"

lemma WriteFlashMemory_saved:
  assumes B: "board_ok B" and "cfg_inv B s" and "USI_IS_READY s" and "\<not> s_bNotResetCheckSum s"
    and len: "length img = cfg_sizeof B"
  shows "\<exists>s'. WriteFlashMemory B (s\<lparr>g_ConfigParam := img\<rparr>) = Some (True, s') \<and> saved B s' (signed B img)
     \<and> stored B Default s' = stored B Default s"
proof -
  let ?s = "s\<lparr>g_ConfigParam := img\<rparr>"
  have s: "cfg_inv B ?s" "USI_IS_READY ?s" "\<not> (True \<and> s_bNotResetCheckSum ?s)" "stored B r ?s = stored B r s" for r
    using assms by (simp_all add: cfg_inv_def stored_def)
  from WriteFlashMemory_gen_spec [OF B s(1-3), of False] image_ok_set [OF B len]
  show ?thesis by (auto simp: WriteFlashMemory_def saved_def signed_def s(4))
qed

definition boot :: "board \<Rightarrow> flash_config \<Rightarrow> (bool \<times> flash_config) option" where
  "boot B s = ReadCameraParam B (power_on B s)"

lemma boot_saved:
  assumes B: "board_ok B" and s: "saved B s img"
  shows "\<exists>s'. boot B s = Some (3 \<le> ucFailTime img, s')
     \<and> saved B s' (signed B (if 3 \<le> ucFailTime img then default_image B else img[0 := ucFailTime img + 1]))
     \<and> stored B Default s' = stored B Default s"
proof -
  let ?img = "if 3 \<le> ucFailTime img then default_image B else img[0 := ucFailTime img + 1]"
  have inv: "cfg_inv B s" "flushed s" using s by (simp_all add: saved_def)
  note p = power_on_keeps [OF B inv]
  have "length ?img = cfg_sizeof B" using B s by (auto simp: saved_def cfg_inv_def board_ok_def)
  from WriteFlashMemory_saved [OF B p(1,3,4) this] obtain s' where
    s': "WriteFlashMemory B (power_on B s\<lparr>g_ConfigParam := ?img\<rparr>) = Some (True, s')"
    "saved B s' (signed B ?img)" "stored B Default s' = stored B Default s" by (auto simp: p(2))
  have "ReadFlashMemory B (power_on B s) = Some (True, img)"
    using s by (simp add: ReadFlashMemory_stored [OF B p(1,3)] boot_image_def p(2) saved_def)
  with s' show ?thesis by (auto simp: boot_def ReadCameraParam_def Let_def)
qed

lemma settle_saved:
  assumes B: "board_ok B" and s: "saved B s img"
  shows "\<exists>s'. prdTask_ResetFlag_FactoryDefault B s = Some s' \<and> saved B s' (signed B (img[0 := 0]))
     \<and> stored B Default s' = stored B Default s"
proof -
  have "length (img[0 := 0]) = cfg_sizeof B" using s by (auto simp: saved_def cfg_inv_def)
  from WriteFlashMemory_saved [OF B _ _ _ this, of s] s show ?thesis
    by (auto simp: prdTask_ResetFlag_FactoryDefault_def saved_def)
qed

text \<open>A series of starts; the list says after which of them the camera stayed up for the five seconds.\<close>

fun boots :: "board \<Rightarrow> bool list \<Rightarrow> flash_config \<Rightarrow> (bool list \<times> flash_config) option" where
  "boots B [] s = Some ([], s)"
| "boots B (settled # rest) s =
     (case boot B s of
        None \<Rightarrow> None
      | Some (reset, s1) \<Rightarrow>
          (case (if settled then prdTask_ResetFlag_FactoryDefault B s1 else Some s1) of
             None \<Rightarrow> None
           | Some s2 \<Rightarrow> map_option (\<lambda>(resets, s'). (reset # resets, s')) (boots B rest s2)))"

text \<open>What the starts are meant to do: count the ones that did not settle, and reset on the fourth.\<close>

fun reset_schedule :: "bool list \<Rightarrow> nat \<Rightarrow> bool list" where
  "reset_schedule [] n = []"
| "reset_schedule (settled # rest) n =
     (3 \<le> n) # reset_schedule rest (if settled \<or> 3 \<le> n then 0 else n + 1)"

text \<open>Two images with the same settings, whatever their fail count and checksum.\<close>

definition same_settings :: "board \<Rightarrow> u8 list \<Rightarrow> u8 list \<Rightarrow> bool" where
  "same_settings B a b =
     (length a = length b \<and>
      (\<forall>i \<in> {1 ..< length a}. \<not> (cfg_offsetof_sum B \<le> i \<and> i < cfg_offsetof_sum B + 4) \<longrightarrow> a ! i = b ! i))"

lemma same_settings_trans: "same_settings B a b \<Longrightarrow> same_settings B b c \<Longrightarrow> same_settings B a c"
  by (auto simp: same_settings_def)

lemma same_settings_signed:
  assumes "board_ok B" and "length img = cfg_sizeof B"
  shows "same_settings B img (signed B (img[0 := b]))" and "ucFailTime (signed B (img[0 := b])) = b"
  using assms by (auto simp: same_settings_def signed_def board_ok_def nth_put_u32_other ucFailTime_def)

lemma ucFailTime_signed:
  "board_ok B \<Longrightarrow> length img = cfg_sizeof B \<Longrightarrow> ucFailTime (signed B img) = ucFailTime img"
  by (auto simp: signed_def board_ok_def nth_put_u32_other ucFailTime_def)

lemma saved_length: "saved B s img \<Longrightarrow> length img = cfg_sizeof B"
  by (auto simp: saved_def cfg_inv_def)

text \<open>One start, settled or not.\<close>

lemma start_saved:
  assumes B: "board_ok B" and s: "saved B s img" and n: "unat (ucFailTime img) = n"
  shows "\<exists>s1 s2 img2. boot B s = Some (3 \<le> n, s1)
     \<and> (if settled then prdTask_ResetFlag_FactoryDefault B s1 else Some s1) = Some s2
     \<and> saved B s2 img2 \<and> unat (ucFailTime img2) = (if settled \<or> 3 \<le> n then 0 else n + 1)
     \<and> (n < 3 \<longrightarrow> same_settings B img img2) \<and> stored B Default s2 = stored B Default s"
proof -
  let ?img = "if 3 \<le> n then default_image B else img[0 := ucFailTime img + 1]"
  have n3: "3 \<le> ucFailTime img \<longleftrightarrow> 3 \<le> n" by (simp add: word_le_nat_alt n)
  from boot_saved [OF B s] obtain s1 where s1: "boot B s = Some (3 \<le> n, s1)" "saved B s1 (signed B ?img)"
    "stored B Default s1 = stored B Default s" unfolding n3 by blast
  have len: "length img = cfg_sizeof B" by (rule saved_length [OF s])
  then have len': "length ?img = cfg_sizeof B" using B by (simp add: board_ok_def)
  have ft: "unat (ucFailTime (signed B ?img)) = (if 3 \<le> n then 0 else n + 1)"
  proof (cases "3 \<le> n")
    case True
    then show ?thesis using B ucFailTime_signed [OF B len'] by (simp add: board_ok_def)
  next
    case False
    then have "unat (ucFailTime img + 1) = n + 1" using n by (subst unat_plus_no_wrap) simp_all
    then show ?thesis using False same_settings_signed(2) [OF B len] by simp
  qed
  have ss: "n < 3 \<longrightarrow> same_settings B img (signed B ?img)" using same_settings_signed(1) [OF B len] by simp
  show ?thesis
  proof (cases settled)
    case False
    with s1 ft ss show ?thesis by auto
  next
    case True
    from settle_saved [OF B s1(2)] obtain s2 where
      s2: "prdTask_ResetFlag_FactoryDefault B s1 = Some s2" "saved B s2 (signed B ((signed B ?img)[0 := 0]))"
      "stored B Default s2 = stored B Default s1" by blast
    have l: "length (signed B ?img) = cfg_sizeof B" by (rule saved_length [OF s1(2)])
    have "n < 3 \<longrightarrow> same_settings B img (signed B ((signed B ?img)[0 := 0]))"
      using ss same_settings_signed(1) [OF B l] same_settings_trans by blast
    moreover have "unat (ucFailTime (signed B ((signed B ?img)[0 := 0]))) = 0"
      using same_settings_signed(2) [OF B l] by simp
    ultimately show ?thesis using True s1 s2 by auto
  qed
qed

text \<open>
  C1. The fail counter works across power cuts: started from a saved configuration whose counter is \<open>n\<close>, the camera
  resets to the built-in defaults exactly when it has been cut off three times in a row within five seconds, and while
  it does not reset no setting changes; the default area is never touched.
\<close>

theorem boots_follow_schedule:
  assumes "board_ok B" and "saved B s img" and "unat (ucFailTime img) = n"
  shows "\<exists>s' img'. boots B ss s = Some (reset_schedule ss n, s') \<and> saved B s' img'
     \<and> (True \<notin> set (reset_schedule ss n) \<longrightarrow> same_settings B img img')
     \<and> stored B Default s' = stored B Default s"
  using assms(2,3)
proof (induction ss arbitrary: s img n)
  case Nil
  then show ?case by (auto simp: same_settings_def)
next
  case (Cons settled rest)
  from start_saved [OF assms(1) Cons.prems, of settled] obtain s1 s2 img2 where
    one: "boot B s = Some (3 \<le> n, s1)"
    "(if settled then prdTask_ResetFlag_FactoryDefault B s1 else Some s1) = Some s2"
    "saved B s2 img2" "unat (ucFailTime img2) = (if settled \<or> 3 \<le> n then 0 else n + 1)"
    "n < 3 \<longrightarrow> same_settings B img img2" "stored B Default s2 = stored B Default s" by blast
  from Cons.IH [OF one(3,4)] obtain s' img' where
    "boots B rest s2 = Some (reset_schedule rest (if settled \<or> 3 \<le> n then 0 else n + 1), s')" "saved B s' img'"
    "True \<notin> set (reset_schedule rest (if settled \<or> 3 \<le> n then 0 else n + 1)) \<longrightarrow> same_settings B img2 img'"
    "stored B Default s' = stored B Default s2" by blast
  with one same_settings_trans show ?case by (intro exI [of _ s'] exI [of _ img']) auto
qed

theorem boots_follow_schedule_witness:
  "\<exists>s' img'. boots example_board [True, False, False, False, True] example_cfg
       = Some ([False, False, False, False, True], s') \<and> saved example_board s' img'"
proof -
  have "saved example_board example_cfg [0, 0, 0, 0, 14, 0, 0, 0]"
    by (simp add: saved_def example_stored example_image_ok)
  from boots_follow_schedule [OF example_board_ok this, of 0 "[True, False, False, False, True]"]
  show ?thesis by (auto simp: ucFailTime_def)
qed

subsection \<open>The default area\<close>

fun save_all :: "board \<Rightarrow> u8 list list \<Rightarrow> flash_config \<Rightarrow> flash_config option" where
  "save_all B [] s = Some s"
| "save_all B (img # imgs) s =
     (case WriteFlashMemory B (s\<lparr>g_ConfigParam := img\<rparr>) of None \<Rightarrow> None | Some (_, s') \<Rightarrow> save_all B imgs s')"

definition usable :: "board \<Rightarrow> flash_config \<Rightarrow> bool" where
  "usable B s = (cfg_inv B s \<and> USI_IS_READY s \<and> \<not> s_bNotResetCheckSum s)"

lemma saved_usable: "saved B s img \<Longrightarrow> usable B s"
  by (simp add: saved_def usable_def)

lemma save_all_default:
  assumes "board_ok B" and "usable B s" and "\<forall>img\<in>set imgs. length img = cfg_sizeof B"
  shows "\<exists>s'. save_all B imgs s = Some s' \<and> usable B s' \<and> stored B Default s' = stored B Default s"
  using assms(2,3)
proof (induction imgs arbitrary: s)
  case (Cons img imgs)
  then have "cfg_inv B s" "USI_IS_READY s" "\<not> s_bNotResetCheckSum s" "length img = cfg_sizeof B"
    by (simp_all add: usable_def)
  from WriteFlashMemory_saved [OF assms(1) this] obtain s1 where
    s1: "WriteFlashMemory B (s\<lparr>g_ConfigParam := img\<rparr>) = Some (True, s1)" "saved B s1 (signed B img)"
    "stored B Default s1 = stored B Default s" by blast
  from Cons.IH [OF saved_usable [OF s1(2)]] Cons.prems(2) s1 show ?case by auto
qed simp

text \<open>
  What an administrator stores as the factory default comes back after a factory reset, whatever is configured and
  saved in between.
\<close>

theorem update_default_then_reset:
  assumes B: "board_ok B" and s: "usable B s" and "\<forall>img\<in>set imgs. length img = cfg_sizeof B"
  shows "\<exists>s1 s2 s3. Http_UpdateFactoryDefault B CA_CONFIG s = Some (0, s1) \<and> save_all B imgs s1 = Some s2
     \<and> Http_SetFactoryDefault B CA_CONFIG s2 = Some (0, s3)
     \<and> ReadFlashMemory B (power_on B s3) = Some (True, signed B (g_ConfigParam s))"
proof -
  have "cfg_inv B s" "USI_IS_READY s" "\<not> (True \<and> s_bNotResetCheckSum s)" using s by (simp_all add: usable_def)
  from WriteFlashMemory_gen_spec [OF B this, of True] obtain s1 where
    s1: "WriteFlashMemory_gen B True True s = Some (True, s1)" "usable B s1"
    "stored B Default s1 = signed B (g_ConfigParam s)" by (auto simp: usable_def signed_def)
  from save_all_default [OF B s1(2) assms(3)] obtain s2 where
    s2: "save_all B imgs s1 = Some s2" "usable B s2" "stored B Default s2 = stored B Default s1" by blast
  from s2(2) have "cfg_inv B s2" "USI_IS_READY s2" by (simp_all add: usable_def)
  from reset_reads_default [OF B this] obtain s3 where
    s3: "Http_SetFactoryDefault B CA_CONFIG s2 = Some (0, s3)"
    "ReadFlashMemory B (power_on B s3) = Some (image_ok B (stored B Default s2), stored B Default s2)" by blast
  have "length (g_ConfigParam s) = cfg_sizeof B" using s by (simp add: usable_def cfg_inv_def)
  then have "image_ok B (signed B (g_ConfigParam s))" using image_ok_set [OF B] by (simp add: signed_def)
  with s1 s2 s3 show ?thesis by (auto simp: Http_UpdateFactoryDefault_def)
qed

theorem update_default_then_reset_witness:
  "\<exists>s1 s2 s3. Http_UpdateFactoryDefault example_board CA_CONFIG example_cfg = Some (0, s1)
     \<and> save_all example_board [replicate 8 3] s1 = Some s2
     \<and> Http_SetFactoryDefault example_board CA_CONFIG s2 = Some (0, s3)
     \<and> ReadFlashMemory example_board (power_on example_board s3)
         = Some (True, signed example_board [0, 0, 0, 0, 14, 0, 0, 0])"
proof -
  have "usable example_board example_cfg" by (simp add: usable_def)
  moreover have "\<forall>img\<in>set [replicate 8 3]. length img = cfg_sizeof example_board" by (simp add: example_board_def)
  ultimately show ?thesis
    using update_default_then_reset [of example_board example_cfg "[replicate 8 3]"] by simp
qed

text \<open>
  The start-up check for a missing flash can never fire: \<open>usiMyInitDevice\<close> multiplies the error code by the
  sector size, so with any chip identification (also an unknown one) \<open>USI_IS_READY\<close> becomes true, and an unknown chip
  is taken for one of \<open>0xFE030800\<close> bytes.
\<close>

theorem missing_flash_not_noticed:
  "USI_IS_READY (power_on B s) = True
   \<and> (chip_id B \<notin> {0xef12, 0xef13, 0xef14, 0xef15} \<longrightarrow> FLASH_TOTAL_SIZE (power_on B s) = 0xFE030800)"
  by (auto simp: power_on_def usiMyInitDevice_def usi_power_cycle_def Let_def usiInitDevice_def
      USI_ERR_DEVICE_def FLASH_TOTAL_SIZE_def usiMyGetTotalSize_def)

theorem missing_flash_not_noticed_witness:
  "FLASH_TOTAL_SIZE (power_on (example_board\<lparr>chip_id := 0x1234\<rparr>) example_cfg) = 0xFE030800"
  using missing_flash_not_noticed [of "example_board\<lparr>chip_id := 0x1234\<rparr>" example_cfg] by simp

end
