(* ===== verification/WebLog.thy ===== *)
theory WebLog
  imports Rovio_Prelude
begin

section \<open>The request log (LibCamera/Src/WebCameraLog.c)\<close>

text \<open>
  A ring of 500 fixed-size items, of which one stays free to tell full from empty. \<open>WebCameraLog\<close> adds an item and drops
  the oldest when the ring is full; \<open>Config_GetLog\<close> prints what the caller may see; \<open>OnRequestBegin\<close>, called by
  the web server for every request, logs clients it has not seen. The mutex makes each call one step. The clock
  (\<open>cyg_current_time\<close>, 64-bit ticks of 10 ms) and what the server knows of a connection are arguments;
  \<open>httpChar2Hex\<close>, in the binary HTTP library, is a parameter.
\<close>

definition MAX_LOG_ITEM :: nat where
  "MAX_LOG_ITEM = 500"

record log_item =
  ucValue :: string
  aucOpMAC :: "u8 list"
  ucPrivilege :: u8
  ucType :: u8
  ulOpIP :: u32
  tTime :: u32

record web_log =
  g_LogTable :: "log_item list"
  g_iLogItemEnd :: nat
  g_iLogItemStart :: nat
  tTimeServerStart :: u32

record http_connection =
  client_addr :: u32
  client_mac :: "u8 list"
  auth_privilege :: int

definition GetPrivilege :: "http_connection \<Rightarrow> int" where
  "GetPrivilege c = (if auth_privilege c \<ge> AUTH_ADMIN then 0 else 1)"

definition CL_PRIVILEGE_ADMIN :: int where
  "CL_PRIVILEGE_ADMIN = 0"

definition CL_NEW_CLIENT :: int where
  "CL_NEW_CLIENT = 27"

definition mytime :: "64 word \<Rightarrow> u32" where
  "mytime cur_time = ucast ((cur_time * 10) div 1000)"

definition next_item :: "nat \<Rightarrow> nat" where
  "next_item i = (if i + 1 \<ge> MAX_LOG_ITEM then 0 else i + 1)"

text \<open>The value is copied up to its end, at most four characters; what was in the slot behind the NUL stays.\<close>

definition copy_value :: "string option \<Rightarrow> string \<Rightarrow> string" where
  "copy_value pcLogValue old =
     (case pcLogValue of None \<Rightarrow> old[0 := CHR 0x00]
      | Some v \<Rightarrow> blit 0 (take 4 (v @ [CHR 0x00])) old)"

definition new_item :: "int \<Rightarrow> int \<Rightarrow> string option \<Rightarrow> http_connection option \<Rightarrow> u32 \<Rightarrow> log_item \<Rightarrow> log_item" where
  "new_item iViewerPrivilege iLogType pcLogValue hConnection t old =
     old\<lparr>ucPrivilege := word_of_int iViewerPrivilege, ucType := word_of_int iLogType, tTime := t,
         ucValue := copy_value pcLogValue (ucValue old),
         ulOpIP := (case hConnection of Some c \<Rightarrow> client_addr c | None \<Rightarrow> 0),
         aucOpMAC := (case hConnection of Some c \<Rightarrow> take 6 (client_mac c) | None \<Rightarrow> replicate 6 0)\<rparr>"

definition WebCameraLog ::
  "int \<Rightarrow> int \<Rightarrow> string option \<Rightarrow> http_connection option \<Rightarrow> 64 word \<Rightarrow> web_log \<Rightarrow> web_log" where
  "WebCameraLog iViewerPrivilege iLogType pcLogValue hConnection now s =
     (let iNewEnd = next_item (g_iLogItemEnd s);
          s1 = (if g_iLogItemStart s = iNewEnd then s\<lparr>g_iLogItemStart := next_item (g_iLogItemStart s)\<rparr> else s);
          i = g_iLogItemEnd s1
      in s1\<lparr>g_LogTable := (g_LogTable s1)
               [i := new_item iViewerPrivilege iLogType pcLogValue hConnection
                       (mytime now - tTimeServerStart s) (g_LogTable s1 ! i)],
            g_iLogItemEnd := iNewEnd\<rparr>)"

definition printable :: "char \<Rightarrow> char" where
  "printable c = (let d = char_of ((of_char c :: nat) mod 128) in if (of_char d :: nat) < 32 then CHR '' '' else d)"

definition item_value :: "string \<Rightarrow> string" where
  "item_value v = (let shown = map printable (takeWhile (\<lambda>c. c \<noteq> CHR 0x00) (take 4 v))
                   in shown @ replicate (4 - length shown) CHR '' '')"

definition log_line :: "(u8 \<Rightarrow> string) \<Rightarrow> log_item \<Rightarrow> string" where
  "log_line httpChar2Hex it =
     pad 2 CHR ''0'' (dec (unat (ucType it))) @ item_value (ucValue it)
     @ concat (map (\<lambda>j. httpChar2Hex (ucast (ulOpIP it div 256 ^ j))) [0 ..< 4])
     @ concat (map (\<lambda>j. httpChar2Hex (aucOpMAC it ! j)) [0 ..< 6])
     @ pad 10 CHR ''0'' (dec (unat (tTime it)))"

text \<open>Both loops run from the oldest item to the end, wrapping; they would not stop if the end were never met.\<close>

partial_function (option) GetLog_loop ::
  "(u8 \<Rightarrow> string) \<Rightarrow> bool \<Rightarrow> web_log \<Rightarrow> nat \<Rightarrow> string list \<Rightarrow> string list option" where
  "GetLog_loop httpChar2Hex bSuperUser s i out =
     (if i \<noteq> g_iLogItemEnd s
      then GetLog_loop httpChar2Hex bSuperUser s (next_item i)
             (if bSuperUser \<or> ucPrivilege (g_LogTable s ! i) \<noteq> 0
              then out @ [log_line httpChar2Hex (g_LogTable s ! i)] else out)
      else Some out)"

definition Config_GetLog ::
  "(u8 \<Rightarrow> string) \<Rightarrow> http_connection \<Rightarrow> ca_action \<Rightarrow> 64 word \<Rightarrow> web_log \<Rightarrow> (int \<times> string \<times> string list) option" where
  "Config_GetLog httpChar2Hex hConnection iAction now s =
     (case iAction of
        CA_AUTH \<Rightarrow> Some (AUTH_USER, [], [])
      | CA_CONFIG \<Rightarrow>
          map_option (\<lambda>out. (0, pad 10 CHR ''0'' (dec (unat (mytime now - tTimeServerStart s))), out))
            (GetLog_loop httpChar2Hex (GetPrivilege hConnection = 0) s (g_iLogItemStart s) [])
      | CA_other \<Rightarrow> Some (- 1, [], []))"

partial_function (option) find_client ::
  "http_connection \<Rightarrow> web_log \<Rightarrow> nat \<Rightarrow> nat option" where
  "find_client c s i =
     (if i \<noteq> g_iLogItemEnd s
      then (if ulOpIP (g_LogTable s ! i) = client_addr c \<and> aucOpMAC (g_LogTable s ! i) = take 6 (client_mac c)
            then Some i else find_client c s (next_item i))
      else Some i)"

definition OnRequestBegin :: "http_connection \<Rightarrow> 64 word \<Rightarrow> web_log \<Rightarrow> (int \<times> web_log) option" where
  "OnRequestBegin c now s =
     map_option (\<lambda>i. (1, if i = g_iLogItemEnd s
                         then WebCameraLog CL_PRIVILEGE_ADMIN CL_NEW_CLIENT None (Some c) now s else s))
       (find_client c s (g_iLogItemStart s))"

subsection \<open>The ring as a sequence\<close>

definition log_inv :: "web_log \<Rightarrow> bool" where
  "log_inv s = (length (g_LogTable s) = MAX_LOG_ITEM \<and> g_iLogItemStart s < MAX_LOG_ITEM \<and> g_iLogItemEnd s < MAX_LOG_ITEM
     \<and> (\<forall>it\<in>set (g_LogTable s). length (ucValue it) = 4 \<and> length (aucOpMAC it) = 6))"

definition log_count :: "web_log \<Rightarrow> nat" where
  "log_count s = (g_iLogItemEnd s + MAX_LOG_ITEM - g_iLogItemStart s) mod MAX_LOG_ITEM"

text \<open>The log as its readers see it, oldest first.\<close>

definition log_items :: "web_log \<Rightarrow> log_item list" where
  "log_items s = map (\<lambda>k. g_LogTable s ! ((g_iLogItemStart s + k) mod MAX_LOG_ITEM)) [0 ..< log_count s]"

lemma next_item_mod: "i < MAX_LOG_ITEM \<Longrightarrow> next_item i = (i + 1) mod MAX_LOG_ITEM"
  by (cases "i = 499") (auto simp: next_item_def MAX_LOG_ITEM_def)

lemma log_count_end:
  assumes "log_inv s"
  shows "(g_iLogItemStart s + log_count s) mod MAX_LOG_ITEM = g_iLogItemEnd s" and "log_count s < MAX_LOG_ITEM"
    and "k < log_count s \<Longrightarrow> (g_iLogItemStart s + k) mod MAX_LOG_ITEM \<noteq> g_iLogItemEnd s"
proof -
  have b: "g_iLogItemStart s < 500" "g_iLogItemEnd s < 500" using assms by (simp_all add: log_inv_def MAX_LOG_ITEM_def)
  have c: "log_count s = (if g_iLogItemStart s \<le> g_iLogItemEnd s then g_iLogItemEnd s - g_iLogItemStart s
      else g_iLogItemEnd s + 500 - g_iLogItemStart s)"
  proof (cases "g_iLogItemStart s \<le> g_iLogItemEnd s")
    case True
    then have "(g_iLogItemEnd s + 500 - g_iLogItemStart s) mod 500 = g_iLogItemEnd s - g_iLogItemStart s"
      using b by (subst le_mod_geq) simp_all
    then show ?thesis using True by (simp add: log_count_def MAX_LOG_ITEM_def)
  next
    case False
    then show ?thesis using b by (simp add: log_count_def MAX_LOG_ITEM_def)
  qed
  show "(g_iLogItemStart s + log_count s) mod MAX_LOG_ITEM = g_iLogItemEnd s"
    using b by (auto simp: c MAX_LOG_ITEM_def)
  show "log_count s < MAX_LOG_ITEM" using b by (auto simp: c MAX_LOG_ITEM_def)
  assume k: "k < log_count s"
  show "(g_iLogItemStart s + k) mod MAX_LOG_ITEM \<noteq> g_iLogItemEnd s"
  proof (cases "g_iLogItemStart s + k < 500")
    case True
    then show ?thesis using k b by (auto simp: c MAX_LOG_ITEM_def split: if_splits)
  next
    case False
    then have "(g_iLogItemStart s + k) mod 500 = g_iLogItemStart s + k - 500"
      using k b by (subst le_mod_geq) (auto simp: c split: if_splits)
    then show ?thesis using False k b by (auto simp: c MAX_LOG_ITEM_def split: if_splits)
  qed
qed

lemma length_log_items [simp]: "length (log_items s) = log_count s"
  by (simp add: log_items_def)

lemma nth_log_items:
  "k < log_count s \<Longrightarrow> log_items s ! k = g_LogTable s ! ((g_iLogItemStart s + k) mod MAX_LOG_ITEM)"
  by (simp add: log_items_def)

lemma drop_log_items:
  assumes "k < log_count s"
  shows "drop k (log_items s) =
     g_LogTable s ! ((g_iLogItemStart s + k) mod MAX_LOG_ITEM) # drop (Suc k) (log_items s)"
  using Cons_nth_drop_Suc [of k "log_items s"] assms by (simp add: nth_log_items)

lemma GetLog_loop_items:
  assumes "log_inv s" and "k \<le> log_count s"
  shows "GetLog_loop h super s ((g_iLogItemStart s + k) mod MAX_LOG_ITEM) out =
     Some (out @ map (log_line h) (filter (\<lambda>it. super \<or> ucPrivilege it \<noteq> 0) (drop k (log_items s))))"
  using assms(2)
proof (induction "log_count s - k" arbitrary: k out)
  case 0
  then have "k = log_count s" by simp
  then show ?case
    using log_count_end(1) [OF assms(1)] by (subst GetLog_loop.simps) (simp add: log_items_def)
next
  case (Suc d)
  then have k: "k < log_count s" by simp
  let ?i = "(g_iLogItemStart s + k) mod MAX_LOG_ITEM"
  have i: "?i \<noteq> g_iLogItemEnd s" by (rule log_count_end(3) [OF assms(1) k])
  have "next_item ?i = (g_iLogItemStart s + Suc k) mod MAX_LOG_ITEM"
    by (subst next_item_mod) (simp_all add: MAX_LOG_ITEM_def mod_Suc_eq)
  moreover have "drop k (log_items s) = g_LogTable s ! ?i # drop (Suc k) (log_items s)"
    by (rule drop_log_items [OF k])
  ultimately show ?case
    using i Suc.hyps(1) [of "Suc k"] Suc.hyps(2) k by (subst GetLog_loop.simps) simp
qed

definition from_client :: "http_connection \<Rightarrow> log_item \<Rightarrow> bool" where
  "from_client c it = (ulOpIP it = client_addr c \<and> aucOpMAC it = take 6 (client_mac c))"

lemma find_client_items:
  assumes "log_inv s" and "k \<le> log_count s"
  shows "\<exists>i. find_client c s ((g_iLogItemStart s + k) mod MAX_LOG_ITEM) = Some i
     \<and> (i = g_iLogItemEnd s \<longleftrightarrow> (\<forall>it\<in>set (drop k (log_items s)). \<not> from_client c it))"
  using assms(2)
proof (induction "log_count s - k" arbitrary: k)
  case 0
  then have "k = log_count s" by simp
  then show ?case
    using log_count_end(1) [OF assms(1)] by (subst find_client.simps) (simp add: log_items_def)
next
  case (Suc d)
  then have k: "k < log_count s" by simp
  let ?i = "(g_iLogItemStart s + k) mod MAX_LOG_ITEM"
  have i: "?i \<noteq> g_iLogItemEnd s" by (rule log_count_end(3) [OF assms(1) k])
  have n: "next_item ?i = (g_iLogItemStart s + Suc k) mod MAX_LOG_ITEM"
    by (subst next_item_mod) (simp_all add: MAX_LOG_ITEM_def mod_Suc_eq)
  have d: "drop k (log_items s) = g_LogTable s ! ?i # drop (Suc k) (log_items s)"
    by (rule drop_log_items [OF k])
  show ?case
  proof (cases "from_client c (g_LogTable s ! ?i)")
    case True
    then show ?thesis using i by (subst find_client.simps) (auto simp: d from_client_def)
  next
    case False
    moreover have "find_client c s ?i = find_client c s ((g_iLogItemStart s + Suc k) mod MAX_LOG_ITEM)"
      using i False unfolding n [symmetric] by (subst find_client.simps) (auto simp: from_client_def)
    ultimately show ?thesis using Suc.hyps(1) [of "Suc k"] Suc.hyps(2) k by (simp add: d)
  qed
qed

subsection \<open>Adding an item\<close>

lemma length_copy_value: "length old = 4 \<Longrightarrow> length (copy_value v old) = 4"
  by (cases v) (simp_all add: copy_value_def)

lemma new_item_wf:
  assumes "length (ucValue old) = 4" and "\<forall>c. hc = Some c \<longrightarrow> 6 \<le> length (client_mac c)"
  shows "length (ucValue (new_item p t v hc tm old)) = 4" and "length (aucOpMAC (new_item p t v hc tm old)) = 6"
  using assms by (auto simp: new_item_def length_copy_value split: option.split)

text \<open>The slot that is written, and the item written to it.\<close>

definition logged :: "int \<Rightarrow> int \<Rightarrow> string option \<Rightarrow> http_connection option \<Rightarrow> 64 word \<Rightarrow> web_log \<Rightarrow> log_item" where
  "logged p t v hc now s = new_item p t v hc (mytime now - tTimeServerStart s) (g_LogTable s ! g_iLogItemEnd s)"

lemma WebCameraLog_fields:
  "g_LogTable (WebCameraLog p t v hc now s) = (g_LogTable s)[g_iLogItemEnd s := logged p t v hc now s]"
  "g_iLogItemEnd (WebCameraLog p t v hc now s) = next_item (g_iLogItemEnd s)"
  "g_iLogItemStart (WebCameraLog p t v hc now s) =
     (if g_iLogItemStart s = next_item (g_iLogItemEnd s) then next_item (g_iLogItemStart s) else g_iLogItemStart s)"
  by (simp_all add: WebCameraLog_def logged_def Let_def)

lemma WebCameraLog_inv:
  assumes "log_inv s" and "\<forall>c. hc = Some c \<longrightarrow> 6 \<le> length (client_mac c)"
  shows "log_inv (WebCameraLog p t v hc now s)"
proof -
  have e: "g_iLogItemEnd s < length (g_LogTable s)" using assms(1) by (simp add: log_inv_def)
  then have "length (ucValue (g_LogTable s ! g_iLogItemEnd s)) = 4" using assms(1) by (simp add: log_inv_def)
  from new_item_wf [OF this assms(2)] have
    "length (ucValue (logged p t v hc now s)) = 4" "length (aucOpMAC (logged p t v hc now s)) = 6"
    by (simp_all add: logged_def)
  moreover have "next_item i < MAX_LOG_ITEM" for i by (simp add: next_item_def MAX_LOG_ITEM_def)
  ultimately show ?thesis
    using assms(1) set_update_subset_insert [of "g_LogTable s"]
    by (fastforce simp: log_inv_def WebCameraLog_fields)
qed

lemma log_count_unique:
  assumes "log_inv s" and "n < MAX_LOG_ITEM" and "(g_iLogItemStart s + n) mod MAX_LOG_ITEM = g_iLogItemEnd s"
  shows "log_count s = n"
proof (rule ccontr)
  assume "log_count s \<noteq> n"
  then have "\<not> n < log_count s" using log_count_end(3) [OF assms(1)] assms(3) by blast
  then have lt: "log_count s < n" using \<open>log_count s \<noteq> n\<close> by simp
  have "(g_iLogItemStart s + n) mod 500 = (g_iLogItemStart s + log_count s) mod 500"
    using assms(3) log_count_end(1) [OF assms(1)] by (simp add: MAX_LOG_ITEM_def)
  then have "500 dvd (g_iLogItemStart s + n) - (g_iLogItemStart s + log_count s)"
    by (rule mod_eq_dvd_iff_nat [THEN iffD1, rotated]) (use lt in simp)
  then have "500 dvd n - log_count s" by simp
  then show False using lt assms(2) by (auto simp: MAX_LOG_ITEM_def dest: dvd_imp_le)
qed

lemma WebCameraLog_items:
  assumes inv: "log_inv s" and mac: "\<forall>c. hc = Some c \<longrightarrow> 6 \<le> length (client_mac c)"
  shows "log_items (WebCameraLog p t v hc now s) =
     (if log_count s = MAX_LOG_ITEM - 1 then drop 1 (log_items s) else log_items s) @ [logged p t v hc now s]"
proof -
  let ?s' = "WebCameraLog p t v hc now s" and ?i = "g_iLogItemStart s" and ?e = "g_iLogItemEnd s"
  let ?it = "logged p t v hc now s"
  note inv' = WebCameraLog_inv [OF inv mac, of p t v now]
  have b: "?i < 500" "?e < 500" "length (g_LogTable s) = 500" using inv by (simp_all add: log_inv_def MAX_LOG_ITEM_def)
  note cnt = log_count_end [OF inv, unfolded MAX_LOG_ITEM_def]
  have ne: "next_item ?e = (?i + (log_count s + 1)) mod 500"
    using b(2) cnt(1) by (subst next_item_mod) (simp_all add: MAX_LOG_ITEM_def, metis mod_Suc_eq add_Suc_right)
  have at_e: "g_LogTable ?s' ! ?e = ?it" using b by (simp add: WebCameraLog_fields)
  have off_e: "g_LogTable ?s' ! ((?i + k) mod 500) = g_LogTable s ! ((?i + k) mod 500)" if "k < log_count s" for k
    using cnt(3) [OF that] by (simp add: WebCameraLog_fields)
  show ?thesis
  proof (cases "log_count s = 499")
    case True
    have full: "?i = next_item ?e" using b(1) unfolding ne True by simp
    then have i': "g_iLogItemStart ?s' = (?i + 1) mod 500"
      using b(1) by (simp add: WebCameraLog_fields next_item_mod MAX_LOG_ITEM_def del: One_nat_def)
    have "(g_iLogItemStart ?s' + 499) mod 500 = ?i" using b(1) unfolding i' by (simp add: mod_add_left_eq)
    then have c': "log_count ?s' = 499"
      using log_count_unique [OF inv', of 499] full by (simp add: MAX_LOG_ITEM_def WebCameraLog_fields)
    have pos: "(g_iLogItemStart ?s' + k) mod 500 = (?i + Suc k) mod 500" for k
      unfolding i' by (simp add: mod_add_left_eq)
    show ?thesis
    proof (rule nth_equalityI)
      show len: "length (log_items ?s') = length ((if log_count s = MAX_LOG_ITEM - 1 then drop 1 (log_items s)
          else log_items s) @ [?it])" using True c' by (simp add: MAX_LOG_ITEM_def)
      fix k assume k: "k < length (log_items ?s')"
      then have "log_items ?s' ! k = g_LogTable ?s' ! ((?i + Suc k) mod 500)"
        by (simp only: length_log_items nth_log_items) (simp only: MAX_LOG_ITEM_def pos)
      moreover have "g_LogTable ?s' ! ((?i + Suc k) mod 500) = log_items s ! Suc k" if "k < 498"
        using off_e [of "Suc k"] that True nth_log_items [of "Suc k" s] by (simp add: MAX_LOG_ITEM_def)
      moreover have "g_LogTable ?s' ! ((?i + Suc k) mod 500) = ?it" if "k = 498" using cnt(1) at_e True that by simp
      moreover have "k < 498 \<or> k = 498" using k c' by auto
      ultimately show "log_items ?s' ! k = ((if log_count s = MAX_LOG_ITEM - 1 then drop 1 (log_items s)
          else log_items s) @ [?it]) ! k"
        using True by (auto simp: MAX_LOG_ITEM_def nth_append add.commute)
    qed
  next
    case False
    then have lt: "log_count s < 499" using cnt(2) by simp
    have "?i \<noteq> next_item ?e"
    proof
      assume "?i = next_item ?e"
      then have "(?i + (log_count s + 1)) mod 500 = ?i" using ne by simp
      then have "500 dvd log_count s + 1" using b(1)
        by (metis add_diff_cancel_left' le_add1 mod_eq_dvd_iff_nat mod_less)
      then show False using lt by (auto dest: dvd_imp_le)
    qed
    then have i': "g_iLogItemStart ?s' = ?i" by (simp add: WebCameraLog_fields)
    have c': "log_count ?s' = log_count s + 1"
    proof (rule log_count_unique [OF inv'])
      show "(g_iLogItemStart ?s' + (log_count s + 1)) mod MAX_LOG_ITEM = g_iLogItemEnd ?s'"
        unfolding i' WebCameraLog_fields(2) ne by (simp only: MAX_LOG_ITEM_def)
    qed (use lt in \<open>simp add: MAX_LOG_ITEM_def\<close>)
    show ?thesis
    proof (rule nth_equalityI)
      show "length (log_items ?s') = length ((if log_count s = MAX_LOG_ITEM - 1 then drop 1 (log_items s)
          else log_items s) @ [?it])" using False c' by (simp add: MAX_LOG_ITEM_def)
      fix k assume k: "k < length (log_items ?s')"
      then have "log_items ?s' ! k = g_LogTable ?s' ! ((?i + k) mod 500)"
        by (simp only: length_log_items nth_log_items) (simp only: MAX_LOG_ITEM_def i')
      moreover have "g_LogTable ?s' ! ((?i + k) mod 500) = log_items s ! k" if "k < log_count s"
        using off_e [OF that] that nth_log_items [of k s] by (simp add: MAX_LOG_ITEM_def)
      moreover have "g_LogTable ?s' ! ((?i + log_count s) mod 500) = ?it" using cnt(1) at_e by simp
      ultimately show "log_items ?s' ! k = ((if log_count s = MAX_LOG_ITEM - 1 then drop 1 (log_items s)
          else log_items s) @ [?it]) ! k"
        using k c' False by (cases "k < log_count s") (auto simp: MAX_LOG_ITEM_def nth_append less_Suc_eq)
    qed
  qed
qed

text \<open>
  C12. The log keeps the last 499 entries in order: adding one keeps the ring well-formed, appends the new entry,
  and drops the oldest exactly when 499 are already there. It never writes outside the table.
\<close>

theorem WebCameraLog_keeps_newest:
  assumes "log_inv s" and "\<forall>c. hc = Some c \<longrightarrow> 6 \<le> length (client_mac c)"
  shows "log_inv (WebCameraLog p t v hc now s)
     \<and> log_items (WebCameraLog p t v hc now s) =
         (if log_count s = 499 then drop 1 (log_items s) else log_items s) @ [logged p t v hc now s]
     \<and> log_count s \<le> 499"
  using WebCameraLog_inv [OF assms] WebCameraLog_items [OF assms] log_count_end(2) [OF assms(1)]
  by (simp add: MAX_LOG_ITEM_def)

definition blank_item :: log_item where
  "blank_item = \<lparr>ucValue = replicate 4 CHR 0x00, aucOpMAC = replicate 6 0, ucPrivilege = 0, ucType = 0, ulOpIP = 0, tTime = 0\<rparr>"

definition example_log :: web_log where
  "example_log = \<lparr>g_LogTable = replicate 500 blank_item, g_iLogItemEnd = 1, g_iLogItemStart = 499, tTimeServerStart = 0\<rparr>"

definition example_client :: http_connection where
  "example_client = \<lparr>client_addr = 0x0100A8C0, client_mac = [1, 2, 3, 4, 5, 6], auth_privilege = 0\<rparr>"

lemma example_log_inv [simp]: "log_inv example_log"
  by (simp add: log_inv_def example_log_def MAX_LOG_ITEM_def blank_item_def)

lemma example_log_count [simp]: "log_count example_log = 2"
  by (simp add: log_count_def example_log_def MAX_LOG_ITEM_def)

lemma example_client_mac [simp]: "length (client_mac example_client) = 6"
  by (simp add: example_client_def)

lemma example_log_items: "log_items example_log = [blank_item, blank_item]"
proof -
  have "[0 ..< 2] = [0, 1 :: nat]" by (simp add: upt_rec)
  then show ?thesis by (simp add: log_items_def) (simp add: example_log_def MAX_LOG_ITEM_def)
qed

theorem WebCameraLog_keeps_newest_witness:
  "log_items (WebCameraLog 0 27 None (Some example_client) 5000 example_log)
     = [blank_item, blank_item, logged 0 27 None (Some example_client) 5000 example_log]"
  using WebCameraLog_keeps_newest [of example_log "Some example_client" 0 27 None 5000]
  by (simp add: example_log_items)

text \<open>
  Reading the log always ends and lists, oldest first, exactly the entries the caller may see: all of them
  for an administrator, those of common privilege otherwise.
\<close>

theorem Config_GetLog_lists:
  assumes "log_inv s"
  shows "\<exists>tm. Config_GetLog h c CA_CONFIG now s = Some (0, tm,
     map (log_line h) (filter (\<lambda>it. AUTH_ADMIN \<le> auth_privilege c \<or> ucPrivilege it \<noteq> 0) (log_items s)))"
  using GetLog_loop_items [OF assms le0, of h "GetPrivilege c = 0" "[]"] assms
  by (simp add: Config_GetLog_def log_inv_def GetPrivilege_def)

theorem Config_GetLog_lists_witness:
  "\<exists>tm. Config_GetLog (\<lambda>_. ''00'') example_client CA_CONFIG 0 example_log = Some (0, tm, [])"
  using Config_GetLog_lists [of example_log "\<lambda>_. ''00''" example_client 0]
  by (simp add: example_log_items blank_item_def example_client_def AUTH_ADMIN_def)

text \<open>
  A line of the log fits the 64-byte buffer it is printed to, whatever the item holds, as long as
  \<open>httpChar2Hex\<close> writes the two characters it documents.
\<close>

theorem log_line_fits:
  assumes "\<And>b. length (h b) = 2"
  shows "length (log_line h it) + 1 \<le> 64"
proof -
  have "length (dec (unat (ucType it))) \<le> 3"
    using unat_byte [of "ucType it"] by (intro length_dec_le) simp_all
  moreover have "length (dec (unat (tTime it))) \<le> 10"
  proof (intro length_dec_le)
    have "unat (tTime it) < 2 ^ 32" by (rule order_less_le_trans [OF unsigned_less]) simp
    then show "unat (tTime it) < 10 ^ 10" by simp
  qed simp
  moreover have "length (item_value v) = 4" for v by (simp add: item_value_def Let_def)
      (metis length_take length_takeWhile_le min.bounded_iff le_add_diff_inverse min.cobounded2 order_trans)
  moreover have "length (concat (map (\<lambda>j. h (f j)) xs)) = 2 * length xs" for f :: "nat \<Rightarrow> u8" and xs
    by (induction xs) (simp_all add: assms)
  ultimately show ?thesis by (simp add: log_line_def)
qed

theorem log_line_fits_witness: "length (log_line (\<lambda>_. ''7f'') blank_item) + 1 \<le> 64"
  by (rule log_line_fits) simp

text \<open>
  Every request ends up with its client in the log: a client already there is not logged again, a new one is
  appended once, and the request is always accepted.
\<close>

theorem OnRequestBegin_logs_new_clients:
  assumes "log_inv s"
  shows "OnRequestBegin c now s = Some (1,
     if \<exists>it\<in>set (log_items s). from_client c it then s
     else WebCameraLog CL_PRIVILEGE_ADMIN CL_NEW_CLIENT None (Some c) now s)"
proof -
  have start: "g_iLogItemStart s mod MAX_LOG_ITEM = g_iLogItemStart s"
    using assms by (simp add: log_inv_def)
  from find_client_items [OF assms le0, of c] obtain i where
    "find_client c s (g_iLogItemStart s) = Some i"
    "i = g_iLogItemEnd s \<longleftrightarrow> (\<forall>it\<in>set (log_items s). \<not> from_client c it)"
    unfolding add_0_right start drop_0 by blast
  then show ?thesis by (auto simp: OnRequestBegin_def)
qed

theorem OnRequestBegin_logs_new_clients_witness:
  "OnRequestBegin example_client 5000 example_log
     = Some (1, WebCameraLog CL_PRIVILEGE_ADMIN CL_NEW_CLIENT None (Some example_client) 5000 example_log)"
  using OnRequestBegin_logs_new_clients [of example_log example_client 5000]
  by (simp add: example_log_items blank_item_def example_client_def from_client_def)

end
