(* ===== verification/ConfigParam.thy ===== *)
theory ConfigParam
  imports Rovio_Prelude
begin

section \<open>The configuration record\<close>

text \<open>
  \<open>CAMERA_CONFIG_PARAM_T\<close> of LibCamera/Inc/IPCamera.h, the one structure every setting lives in, as a record of the
  parts its declaration groups, and the values \<open>InitDefaultParam\<close> of LibCamera/Src/CameraConfig.c gives it (the
  WLAN build with the hardware configurations IP_CAM_VER_1 to 3 and the values of Host/custom_config.h). The
  character arrays are C strings, the fixed byte arrays lists of bytes; \<open>ucFailTime\<close> and \<open>ulCheckSum\<close> are bytes of
  the flash image and belong to \<open>FlashConfig\<close>.
\<close>

record rect =
  iLeft :: u32
  iTop :: u32
  iRight :: u32
  iBottom :: u32

record user_cfg =
  bUserCheck :: bool
  user_table :: "(string \<times> string \<times> int) list"
  acAdminName :: string
  acAdminPass :: string

record cam_cfg =
  bDefaultImg :: bool
  eVideoFormat :: u32
  eAudioFormat :: u32
  ulImgDirection :: u32
  ulImgResolution :: u32
  ulImgQuality :: u32
  ulImgFramerate :: u32
  ulImgBrightness :: u32
  ulImgContrast :: u32
  ulImgHue :: u32
  ulImgSaturation :: u32
  ulImgSharpness :: u32
  ulMotionDetectSensitivity :: u32
  ucMotionDetectWay :: u8
  ulSpeakerVolume :: u32
  ulMicVolume :: u32
  rMoniteRect :: rect

record net_cfg =
  usHttpPort :: "u16 list"
  acCameraName :: string
  aulAsDNS :: "u32 list"
  abAsNetEnable :: "bool list"
  abUseHardwareMac :: "bool list"
  acMAC :: "u8 list list"
  aucIPAssignedWay :: "u8 list"
  ulAsIPAddress :: "u32 list"
  ulAsNetmask :: "u32 list"
  ulAsGateway :: "u32 list"

record wlan_cfg =
  acWlanESSID :: string
  ucWlanOperationMode :: u8
  acWlanKey :: string
  ulWlanChannel :: u32
  acWepAsc :: string
  acWep64 :: string
  acWep128 :: string
  bWep64UseAsc :: bool
  bWep128UseAsc :: bool
  ucWepSet :: u8
  ulWepAuthentication :: u32

record dial_cfg =
  bEnablePPPoE :: bool
  bPPPoEConnectOnBoot :: bool
  acPPPoEUserName :: string
  acPPPoEUserPass :: string
  acPPPoESeviceName :: string
  ulPPPoEDisConnectTime_InSec :: u32
  bEnableModem :: bool
  bEnableModemAutoConnect :: bool
  acModemUserName :: string
  acModemUserPass :: string
  acModemPhone :: string
  ulModemDisConnectTime_InSec :: u32
  bIfMailOnDialed :: bool
  acDial_MailSender :: string
  acDial_MailReceiver :: string
  acDial_MailServer :: string
  acDial_MailUser :: string
  acDial_MailPassword :: string
  acDial_MailSubject :: string
  bDial_MailCheck :: bool

record ftp_cfg =
  acFtpServer :: string
  acFtpUser :: string
  acFtpPass :: string
  acFtpAccount :: string
  acFtpUploadPath :: string
  bFtpEnable :: bool

record mail_cfg =
  acMailSender :: string
  acMailReceiver :: string
  acMailServer :: string
  usMailPort :: u16
  acMailUser :: string
  acMailPassword :: string
  acMailSubject :: string
  acMailBody :: string
  bMailCheck :: bool
  bMailEnable :: bool

record time_cfg =
  acNtpServer :: string
  bUseNtp :: bool
  lTimeZone_InSec :: u32
  ShowString :: "string list"
  ShowPos :: "u32 list"
  ShowTime :: u32

record ddns_cfg =
  bEnableDDNS :: bool
  eDDNSType :: u32
  acDDNSUserName :: string
  acDDNSUserPass :: string
  acDDNSDomainName :: string
  ulDDNSIP :: u32
  acProxyUser :: string
  acProxyPass :: string
  acProxy :: string
  iProxyPort :: u32

record server_cfg =
  bEnableBPS :: bool
  acBPSDomainName :: string
  aiBPSLocalPort :: "u32 list"
  acBPSType :: "u8 list"
  iBPSPort :: u32
  iBPSChannelsNum :: u32
  uDelayTime_InMSec :: u32
  bPPPEnable :: bool
  aacPPPServer :: "string list"
  aiPPPPort :: "u32 list"
  acPPPUser :: string
  acPPPPass :: string
  bEnableUPnP :: bool
  usUPnPPort :: u16

record config =
  cfg_user :: user_cfg
  cfg_cam :: cam_cfg
  cfg_net :: net_cfg
  cfg_wlan :: wlan_cfg
  cfg_dial :: dial_cfg
  cfg_ftp :: ftp_cfg
  cfg_mail :: mail_cfg
  cfg_time :: time_cfg
  cfg_ddns :: ddns_cfg
  cfg_server :: server_cfg

subsection \<open>Constants\<close>

definition IP_ASSIGNMENT_MANUALLY :: u8 where "IP_ASSIGNMENT_MANUALLY = 0"
definition IP_ASSIGNMENT_DHCP :: u8 where "IP_ASSIGNMENT_DHCP = 1"

definition WEP_SET_DISABLE :: u8 where "WEP_SET_DISABLE = 0"
definition WEP_SET_K64 :: u8 where "WEP_SET_K64 = 1"
definition WEP_SET_K128 :: u8 where "WEP_SET_K128 = 2"
definition WEP_SET_ASC :: u8 where "WEP_SET_ASC = 4"

definition CMD_VIDEO_MP4 :: u32 where "CMD_VIDEO_MP4 = 1"
definition CMD_AUDIO_ALAW :: u32 where "CMD_AUDIO_ALAW = 4"

definition IW_MODE_ADHOC :: u8 where "IW_MODE_ADHOC = 1"
definition IW_ENCODE_OPEN :: u32 where "IW_ENCODE_OPEN = 0x2000"

definition DEFAULT_UPNP_FIRST_EXT_PORT :: u16 where "DEFAULT_UPNP_FIRST_EXT_PORT = 8168"

definition MAX_PPP_SERVERS :: nat where "MAX_PPP_SERVERS = 10"

subsection \<open>The zeroed record and the defaults\<close>

definition zero_config :: config where
  "zero_config =
     \<lparr>cfg_user = \<lparr>bUserCheck = False, user_table = [], acAdminName = [], acAdminPass = []\<rparr>,
      cfg_cam = \<lparr>bDefaultImg = False, eVideoFormat = 0, eAudioFormat = 0, ulImgDirection = 0, ulImgResolution = 0,
        ulImgQuality = 0, ulImgFramerate = 0, ulImgBrightness = 0, ulImgContrast = 0, ulImgHue = 0, ulImgSaturation = 0,
        ulImgSharpness = 0, ulMotionDetectSensitivity = 0, ucMotionDetectWay = 0, ulSpeakerVolume = 0, ulMicVolume = 0,
        rMoniteRect = \<lparr>iLeft = 0, iTop = 0, iRight = 0, iBottom = 0\<rparr>\<rparr>,
      cfg_net = \<lparr>usHttpPort = [0, 0], acCameraName = [], aulAsDNS = [0, 0, 0], abAsNetEnable = [False, False],
        abUseHardwareMac = [False, False], acMAC = [replicate 6 0, replicate 6 0], aucIPAssignedWay = [0, 0],
        ulAsIPAddress = [0, 0], ulAsNetmask = [0, 0], ulAsGateway = [0, 0]\<rparr>,
      cfg_wlan = \<lparr>acWlanESSID = [], ucWlanOperationMode = 0, acWlanKey = [], ulWlanChannel = 0, acWepAsc = [],
        acWep64 = replicate 5 (CHR 0x00), acWep128 = replicate 13 (CHR 0x00), bWep64UseAsc = False,
        bWep128UseAsc = False, ucWepSet = 0, ulWepAuthentication = 0\<rparr>,
      cfg_dial = \<lparr>bEnablePPPoE = False, bPPPoEConnectOnBoot = False, acPPPoEUserName = [], acPPPoEUserPass = [],
        acPPPoESeviceName = [], ulPPPoEDisConnectTime_InSec = 0, bEnableModem = False, bEnableModemAutoConnect = False,
        acModemUserName = [], acModemUserPass = [], acModemPhone = [], ulModemDisConnectTime_InSec = 0,
        bIfMailOnDialed = False, acDial_MailSender = [], acDial_MailReceiver = [], acDial_MailServer = [],
        acDial_MailUser = [], acDial_MailPassword = [], acDial_MailSubject = [], bDial_MailCheck = False\<rparr>,
      cfg_ftp = \<lparr>acFtpServer = [], acFtpUser = [], acFtpPass = [], acFtpAccount = [], acFtpUploadPath = [],
        bFtpEnable = False\<rparr>,
      cfg_mail = \<lparr>acMailSender = [], acMailReceiver = [], acMailServer = [], usMailPort = 0, acMailUser = [],
        acMailPassword = [], acMailSubject = [], acMailBody = [], bMailCheck = False, bMailEnable = False\<rparr>,
      cfg_time = \<lparr>acNtpServer = [], bUseNtp = False, lTimeZone_InSec = 0, ShowString = [[], []], ShowPos = [0, 0],
        ShowTime = 0\<rparr>,
      cfg_ddns = \<lparr>bEnableDDNS = False, eDDNSType = 0, acDDNSUserName = [], acDDNSUserPass = [], acDDNSDomainName = [],
        ulDDNSIP = 0, acProxyUser = [], acProxyPass = [], acProxy = [], iProxyPort = 0\<rparr>,
      cfg_server = \<lparr>bEnableBPS = False, acBPSDomainName = [], aiBPSLocalPort = replicate 6 0, acBPSType = replicate 6 0,
        iBPSPort = 0, iBPSChannelsNum = 0, uDelayTime_InMSec = 0, bPPPEnable = False,
        aacPPPServer = replicate MAX_PPP_SERVERS [], aiPPPPort = replicate MAX_PPP_SERVERS 0, acPPPUser = [],
        acPPPPass = [], bEnableUPnP = False, usUPnPPort = 0\<rparr>\<rparr>"

text \<open>
  \<open>InitDefaultParam(&g_ConfigParam)\<close>, as every caller calls it. The C library's \<open>inet_addr\<close> is a parameter; the
  assignments follow the order of the code, grouped as the record is.
\<close>

definition InitDefaultParam :: "(string \<Rightarrow> u32) \<Rightarrow> config" where
  "InitDefaultParam inet_addr = zero_config\<lparr>
     cfg_net := (cfg_net zero_config)\<lparr>
       abAsNetEnable := [False, True],
       abUseHardwareMac := [True, True],
       acMAC := [replicate 6 0, [0x00, 0x01, 0x03, 0x20, 0x70, 0x0a]],
       ulAsIPAddress := [0, inet_addr ''192.168.10.18''],
       ulAsNetmask := [0, inet_addr ''255.255.255.0''],
       ulAsGateway := [0, inet_addr ''192.168.10.1''],
       aucIPAssignedWay := [0, IP_ASSIGNMENT_MANUALLY]\<rparr>,
     cfg_wlan := (cfg_wlan zero_config)\<lparr>
       acWlanESSID := ''ROVIO_WOWWEE'',
       ucWepSet := WEP_SET_DISABLE,
       ulWepAuthentication := IW_ENCODE_OPEN,
       ulWlanChannel := 5,
       ucWlanOperationMode := IW_MODE_ADHOC,
       acWep64 := ''ABCDE'',
       acWep128 := ''ABCDEFGHIJKLM''\<rparr>,
     cfg_dial := (cfg_dial zero_config)\<lparr>acDial_MailSubject := ''IP Camera PPP''\<rparr>,
     cfg_mail := (cfg_mail zero_config)\<lparr>
       acMailSubject := ''Rovio Snapshot'',
       acMailBody := ''Check out this photo from my Rovio.'',
       bMailEnable := False\<rparr>,
     cfg_user := \<lparr>bUserCheck = False, user_table = [(''admin'', ''admin'', AUTH_ADMIN)],
       acAdminName = ''admin'', acAdminPass = ''admin''\<rparr>,
     cfg_cam := (cfg_cam zero_config)\<lparr>
       bDefaultImg := True,
       ulImgResolution := 2,
       ulImgQuality := 1,
       ulImgFramerate := 30,
       ulImgBrightness := 6,
       ulImgContrast := 0,
       ulImgHue := 0,
       ulImgSaturation := 191,
       ulImgSharpness := 0,
       ulSpeakerVolume := 15,
       ulMicVolume := 15,
       ulMotionDetectSensitivity := 0,
       eVideoFormat := CMD_VIDEO_MP4,
       eAudioFormat := CMD_AUDIO_ALAW\<rparr>,
     cfg_time := (cfg_time zero_config)\<lparr>lTimeZone_InSec := 0, bUseNtp := False\<rparr>,
     cfg_ftp := (cfg_ftp zero_config)\<lparr>bFtpEnable := False\<rparr>,
     cfg_ddns := (cfg_ddns zero_config)\<lparr>bEnableDDNS := False\<rparr>,
     cfg_server := (cfg_server zero_config)\<lparr>bEnableBPS := False, iBPSPort := 8888, iBPSChannelsNum := 1,
       bEnableUPnP := True, usUPnPPort := DEFAULT_UPNP_FIRST_EXT_PORT\<rparr>\<rparr>"

text \<open>
  The character arrays of the structure hold their strings with the terminating NUL, and the arrays have the lengths
  they are declared with.
\<close>

definition user_fits :: "user_cfg \<Rightarrow> bool" where
  "user_fits u = (length (user_table u) \<le> 30 \<and> length (acAdminName u) < 24 \<and> length (acAdminPass u) < 24
     \<and> (\<forall>(n, pw, v) \<in> set (user_table u). length n < 24 \<and> length pw < 24))"

definition net_fits :: "net_cfg \<Rightarrow> bool" where
  "net_fits n = (length (usHttpPort n) = 2 \<and> length (acCameraName n) < 19 \<and> length (aulAsDNS n) = 3
     \<and> length (abAsNetEnable n) = 2 \<and> length (abUseHardwareMac n) = 2 \<and> length (acMAC n) = 2
     \<and> (\<forall>m \<in> set (acMAC n). length m = 6) \<and> length (aucIPAssignedWay n) = 2 \<and> length (ulAsIPAddress n) = 2
     \<and> length (ulAsNetmask n) = 2 \<and> length (ulAsGateway n) = 2)"

definition wlan_fits :: "wlan_cfg \<Rightarrow> bool" where
  "wlan_fits w = (length (acWlanESSID w) < 33 \<and> length (acWlanKey w) < 64 \<and> length (acWepAsc w) < 14
     \<and> length (acWep64 w) = 5 \<and> length (acWep128 w) = 13)"

definition dial_fits :: "dial_cfg \<Rightarrow> bool" where
  "dial_fits d = (length (acPPPoEUserName d) < 64 \<and> length (acPPPoEUserPass d) < 64 \<and> length (acPPPoESeviceName d) < 64
     \<and> length (acModemUserName d) < 64 \<and> length (acModemUserPass d) < 64 \<and> length (acModemPhone d) < 64
     \<and> length (acDial_MailSender d) < 64 \<and> length (acDial_MailReceiver d) < 256 \<and> length (acDial_MailServer d) < 64
     \<and> length (acDial_MailUser d) < 64 \<and> length (acDial_MailPassword d) < 64 \<and> length (acDial_MailSubject d) < 64)"

definition ftp_fits :: "ftp_cfg \<Rightarrow> bool" where
  "ftp_fits f = (length (acFtpServer f) < 64 \<and> length (acFtpUser f) < 64 \<and> length (acFtpPass f) < 64
     \<and> length (acFtpAccount f) < 64 \<and> length (acFtpUploadPath f) < 256)"

definition mail_fits :: "mail_cfg \<Rightarrow> bool" where
  "mail_fits m = (length (acMailSender m) < 64 \<and> length (acMailReceiver m) < 256 \<and> length (acMailServer m) < 64
     \<and> length (acMailUser m) < 64 \<and> length (acMailPassword m) < 64 \<and> length (acMailSubject m) < 64 \<and> length (acMailBody m) < 512)"

definition time_fits :: "time_cfg \<Rightarrow> bool" where
  "time_fits t = (length (acNtpServer t) < 64 \<and> length (ShowString t) = 2 \<and> (\<forall>x \<in> set (ShowString t). length x < 128)
     \<and> length (ShowPos t) = 2)"

definition ddns_fits :: "ddns_cfg \<Rightarrow> bool" where
  "ddns_fits d = (length (acDDNSUserName d) < 24 \<and> length (acDDNSUserPass d) < 24 \<and> length (acDDNSDomainName d) < 32
     \<and> length (acProxyUser d) < 24 \<and> length (acProxyPass d) < 24 \<and> length (acProxy d) < 32)"

text \<open>Not more channels of the relay are counted than the arrays describe.\<close>

definition server_fits :: "server_cfg \<Rightarrow> bool" where
  "server_fits c = (length (acBPSDomainName c) < 32 \<and> length (aiBPSLocalPort c) = 6 \<and> length (acBPSType c) = 6
     \<and> unat (iBPSChannelsNum c) \<le> 6 \<and> length (aacPPPServer c) = MAX_PPP_SERVERS \<and> (\<forall>x \<in> set (aacPPPServer c). length x < 64)
     \<and> length (aiPPPPort c) = MAX_PPP_SERVERS \<and> length (acPPPUser c) < 24 \<and> length (acPPPPass c) < 24)"

definition config_fits :: "config \<Rightarrow> bool" where
  "config_fits c = (user_fits (cfg_user c) \<and> net_fits (cfg_net c) \<and> wlan_fits (cfg_wlan c) \<and> dial_fits (cfg_dial c)
     \<and> ftp_fits (cfg_ftp c) \<and> mail_fits (cfg_mail c) \<and> time_fits (cfg_time c) \<and> ddns_fits (cfg_ddns c) \<and> server_fits (cfg_server c))"

lemmas fits_defs = user_fits_def net_fits_def wlan_fits_def dial_fits_def ftp_fits_def mail_fits_def time_fits_def ddns_fits_def
  server_fits_def

lemma InitDefaultParam_fits [simp]: "config_fits (InitDefaultParam f)"
  by (simp add: config_fits_def fits_defs InitDefaultParam_def zero_config_def)

end
