(* ===== verification/Users.thy ===== *)
theory Users
  imports ConfigParam FlashConfig WebLog
begin

section \<open>Users and privileges (LibCamera/Src/User.c, ConfigInterface/configinterface.c)\<close>

text \<open>
  Three copies of the user database must agree: the one of the HTTP library, which authenticates requests, the
  one of the RTSP server, and the table inside the configuration. The two libraries are binary-only: their state
  and functions are parameters (\<open>http_lib\<close>), and what their documentation promises is the predicate
  \<open>auth_laws\<close>. Here are the shared state of the configuration interface, the operations on users and their HTTP handlers.
  \<open>g_rmutex\<close> makes every operation one step.
\<close>

subsection \<open>The linked libraries and the shared state\<close>

type_synonym user_node = "(string option \<times> string option) option"

record ('h, 'r) http_lib =
  httpAuthSetUser :: "string \<Rightarrow> string \<Rightarrow> int \<Rightarrow> 'h \<Rightarrow> int \<times> 'h"
  httpAuthDelUser :: "string \<Rightarrow> 'h \<Rightarrow> int \<times> 'h"
  httpAuthGetUser :: "string \<Rightarrow> 'h \<Rightarrow> (string \<times> int) option"
  httpGetAuthUserList :: "'h \<Rightarrow> (int \<Rightarrow> user_node list option) option"
  httpEnableUserCheck :: "bool \<Rightarrow> 'h \<Rightarrow> 'h"
  httpIsEnableUserCheck :: "'h \<Rightarrow> bool"
  httpMyStrncpy :: "string \<Rightarrow> nat \<Rightarrow> string"
  set_auth_id :: "string \<Rightarrow> string \<Rightarrow> 'r \<Rightarrow> 'r"
  del_auth_id :: "string \<Rightarrow> 'r \<Rightarrow> 'r"
  set_auth_enable :: "'r \<Rightarrow> 'r"
  set_auth_disable :: "'r \<Rightarrow> 'r"

text \<open>
  \<open>image_of\<close> is the compiler's layout of the configuration, the bytes \<open>WriteFlashMemory\<close> is given; \<open>sent_msgs\<close> are the
  messages \<open>SendCameraMsg\<close> has queued for the camera thread, \<open>rmutex_depth\<close> is how often the web server's thread holds the
  recursive mutex \<open>g_rmutex\<close> between calls, and \<open>reboot\<close> tells whether the device restarts, at once or (\<open>RebootOnConnectionOver\<close>) with the end of the connection.
  \<open>ic_ucEmail\<close> is the flag in \<open>g_WebCamState\<close>, the next two are the offsets of the clock, and \<open>overlay_time\<close> what the video engine was last given.
\<close>

record ('h, 'r) ictl_env =
  brd :: board
  image_of :: "config \<Rightarrow> u8 list"
  lib :: "('h, 'r) http_lib"

datatype reboot_state = NoReboot | RebootOnClose | RebootNow

record ('h, 'r) ictl_state =
  ic_cfg :: config
  ic_flash :: flash_config
  ic_http :: 'h
  ic_rtsp :: 'r
  ic_log :: web_log
  ucUserCheck :: u8
  ic_ucEmail :: u8
  g_lTimeDelay1970_InSec :: u32
  g_lTimeDelayZone_InSec :: u32
  overlay_time :: u32
  sent_msgs :: "(int \<times> u32) list"
  rmutex_depth :: nat
  reboot :: reboot_state

definition ICTL_OK :: int where "ICTL_OK = 0"
definition ICTL_ERROR :: int where "ICTL_ERROR = - 1"
definition ICTL_UNAUTHORIZED :: int where "ICTL_UNAUTHORIZED = - 2"
definition ICTL_INVALID_PARAMETERS :: int where "ICTL_INVALID_PARAMETERS = - 3"

lemmas ictl_codes = ICTL_OK_def ICTL_ERROR_def ICTL_UNAUTHORIZED_def ICTL_INVALID_PARAMETERS_def

record ictl_handle =
  Username :: string
  Passwd :: string
  Privilege :: int

text \<open>\<open>pHandle == NULL || pHandle->Privilege < need\<close>, the guard of every operation.\<close>

definition unauthorized :: "int \<Rightarrow> ictl_handle option \<Rightarrow> bool" where
  "unauthorized need pHandle = (case pHandle of None \<Rightarrow> True | Some h \<Rightarrow> Privilege h < need)"

text \<open>\<open>WriteFlashMemory(&g_ConfigParam)\<close>; its result is ignored by the callers.\<close>

definition save_config :: "('h, 'r) ictl_env \<Rightarrow> ('h, 'r) ictl_state \<Rightarrow> ('h, 'r) ictl_state checked" where
  "save_config E s =
     (case WriteFlashMemory (brd E) ((ic_flash s)\<lparr>g_ConfigParam := image_of E (ic_cfg s)\<rparr>) of
        None \<Rightarrow> Inl Hang
      | Some (_, f) \<Rightarrow> Inr (s\<lparr>ic_flash := f\<rparr>))"

subsection \<open>The user table\<close>

definition MAX_USERSET_ENABLE :: nat where
  "MAX_USERSET_ENABLE = 30"

definition text_of :: "string option \<Rightarrow> string" where
  "text_of p = (case p of None \<Rightarrow> [] | Some t \<Rightarrow> t)"

fun rebuild_nodes ::
  "(string \<Rightarrow> nat \<Rightarrow> string) \<Rightarrow> int \<Rightarrow> user_node list \<Rightarrow> (string \<times> string \<times> int) list
     \<Rightarrow> (string \<times> string \<times> int) list checked" where
  "rebuild_nodes cpy i [] tab = Inr tab"
| "rebuild_nodes cpy i (None # ns) tab = rebuild_nodes cpy i ns tab"
| "rebuild_nodes cpy i (Some (nm, pw) # ns) tab =
     (if length tab \<ge> MAX_USERSET_ENABLE then Inl OutOfBounds
      else rebuild_nodes cpy i ns (tab @ [(cpy (text_of nm) 24, cpy (text_of pw) 24, i)]))"

fun rebuild_lists ::
  "(string \<Rightarrow> nat \<Rightarrow> string) \<Rightarrow> (int \<Rightarrow> user_node list option) \<Rightarrow> int list \<Rightarrow> (string \<times> string \<times> int) list
     \<Rightarrow> (string \<times> string \<times> int) list checked" where
  "rebuild_lists cpy ppList [] tab = Inr tab"
| "rebuild_lists cpy ppList (i # is) tab =
     (case ppList i of None \<Rightarrow> rebuild_lists cpy ppList is tab
      | Some ns \<Rightarrow> bnd (rebuild_nodes cpy i ns tab) (rebuild_lists cpy ppList is))"

definition RebuildConfigParam_Auth ::
  "('h, 'r) ictl_env \<Rightarrow> ('h, 'r) ictl_state \<Rightarrow> ('h, 'r) ictl_state checked" where
  "RebuildConfigParam_Auth E s =
     (let set_table = (\<lambda>tab. s\<lparr>ic_cfg := (ic_cfg s)\<lparr>cfg_user := (cfg_user (ic_cfg s))\<lparr>user_table := tab\<rparr>\<rparr>\<rparr>)
      in case httpGetAuthUserList (lib E) (ic_http s) of
           None \<Rightarrow> Inr (set_table [])
         | Some ppList \<Rightarrow>
             bnd (rebuild_lists (httpMyStrncpy (lib E)) ppList [AUTH_USER, AUTH_ADMIN, AUTH_SYSTEM] [])
               (\<lambda>tab. Inr (set_table tab)))"

definition IsMoreThanOneAdmin :: "('h, 'r) ictl_env \<Rightarrow> ('h, 'r) ictl_state \<Rightarrow> bool checked" where
  "IsMoreThanOneAdmin E s =
     (case httpGetAuthUserList (lib E) (ic_http s) of
        None \<Rightarrow> Inl NullDeref
      | Some ppList \<Rightarrow>
          (case ppList AUTH_ADMIN of None \<Rightarrow> Inr False
           | Some [] \<Rightarrow> Inr False
           | Some [_] \<Rightarrow> Inr False
           | Some _ \<Rightarrow> Inr True))"

text \<open>
  The guard both operations share: the user is an administrator (or higher) and there is not a second one. The
  code evaluates \<open>IsMoreThanOneAdmin\<close> only if the first part holds.
\<close>

definition is_last_admin :: "('h, 'r) ictl_env \<Rightarrow> string \<Rightarrow> ('h, 'r) ictl_state \<Rightarrow> bool checked" where
  "is_last_admin E u s =
     (case httpAuthGetUser (lib E) u (ic_http s) of
        None \<Rightarrow> Inr False
      | Some (_, iOldPrivilege) \<Rightarrow>
          if iOldPrivilege \<ge> AUTH_ADMIN then bnd (IsMoreThanOneAdmin E s) (\<lambda>m. Inr (\<not> m)) else Inr False)"

definition old_privilege :: "('h, 'r) ictl_env \<Rightarrow> string \<Rightarrow> ('h, 'r) ictl_state \<Rightarrow> int" where
  "old_privilege E u s = (case httpAuthGetUser (lib E) u (ic_http s) of None \<Rightarrow> 0 | Some (_, v) \<Rightarrow> v)"

subsection \<open>The operations of the configuration interface\<close>

definition ictlGetMyself :: "ictl_handle option \<Rightarrow> ('h, 'r) ictl_state \<Rightarrow> int \<times> string \<times> int" where
  "ictlGetMyself pHandle s =
     (if unauthorized AUTH_USER pHandle then (ICTL_UNAUTHORIZED, [], 0)
      else if bUserCheck (cfg_user (ic_cfg s))
           then (ICTL_OK, Username (the pHandle), Privilege (the pHandle))
           else (ICTL_OK, [], AUTH_ADMIN))"

definition ictlSetUser ::
  "('h, 'r) ictl_env \<Rightarrow> ictl_handle option \<Rightarrow> string option \<Rightarrow> string option \<Rightarrow> int \<Rightarrow> ('h, 'r) ictl_state
     \<Rightarrow> (int \<times> ('h, 'r) ictl_state) checked" where
  "ictlSetUser E pHandle pcUserName pcPassword nPrivilege s =
     (if unauthorized AUTH_ADMIN pHandle then Inr (ICTL_UNAUTHORIZED, s)
      else case (pcUserName, pcPassword) of
        (Some u, Some pw) \<Rightarrow>
          if length pw > 24 \<or> length u > 24 then Inr (ICTL_INVALID_PARAMETERS, s)
          else bnd (if nPrivilege < AUTH_ADMIN then is_last_admin E u s else Inr False) (\<lambda>last.
               let v = (if last then old_privilege E u s else nPrivilege);
                   s1 = s\<lparr>ic_http := snd (httpAuthSetUser (lib E) u pw v (ic_http s)),
                          ic_rtsp := set_auth_id (lib E) u pw (ic_rtsp s)\<rparr>
               in bnd (RebuildConfigParam_Auth E s1) (\<lambda>s2.
                  bnd (save_config E s2) (\<lambda>s3. Inr (ICTL_OK, s3))))
      | _ \<Rightarrow> Inr (ICTL_INVALID_PARAMETERS, s))"

text \<open>
  \<open>ictlAuthUser\<close> fills the caller's handle: fixed arrays of 24 bytes, so a 24-character name or password, which the length
  check admits, would be one too long.
\<close>

definition strcpy24 :: "string \<Rightarrow> string checked" where
  "strcpy24 t = (if length t < 24 then Inr t else Inl OutOfBounds)"

fun find_user :: "string \<Rightarrow> string \<Rightarrow> (string \<times> string \<times> int) list \<Rightarrow> int option" where
  "find_user u pw [] = None"
| "find_user u pw ((n, q, v) # rest) = (if n = u \<and> q = pw then Some v else find_user u pw rest)"

definition ictlAuthUser ::
  "ictl_handle option \<Rightarrow> string option \<Rightarrow> string option \<Rightarrow> ('h, 'r) ictl_state \<Rightarrow> (int \<times> ictl_handle option) checked" where
  "ictlAuthUser pHandle pcUserName pcPassword s =
     (case pHandle of None \<Rightarrow> Inr (ICTL_UNAUTHORIZED, None)
      | Some h \<Rightarrow>
          (case (pcUserName, pcPassword) of
             (Some u, Some pw) \<Rightarrow>
               if length pw > 24 \<or> length u > 24 then Inr (ICTL_INVALID_PARAMETERS, Some h)
               else if \<not> bUserCheck (cfg_user (ic_cfg s))
                    then Inr (ICTL_OK, Some \<lparr>Username = [], Passwd = [], Privilege = AUTH_ADMIN\<rparr>)
                    else (case find_user u pw (user_table (cfg_user (ic_cfg s))) of
                            None \<Rightarrow> Inr (ICTL_UNAUTHORIZED, Some h)
                          | Some v \<Rightarrow>
                              bnd (strcpy24 u) (\<lambda>u'. bnd (strcpy24 pw) (\<lambda>pw'.
                                Inr (ICTL_OK, Some \<lparr>Username = u', Passwd = pw', Privilege = v\<rparr>))))
           | _ \<Rightarrow> Inr (ICTL_INVALID_PARAMETERS, Some h)))"

definition ictlDelUser ::
  "('h, 'r) ictl_env \<Rightarrow> ictl_handle option \<Rightarrow> string option \<Rightarrow> ('h, 'r) ictl_state
     \<Rightarrow> (int \<times> ('h, 'r) ictl_state) checked" where
  "ictlDelUser E pHandle pcUserName s =
     (if unauthorized AUTH_ADMIN pHandle then Inr (ICTL_UNAUTHORIZED, s)
      else case pcUserName of None \<Rightarrow> Inr (ICTL_INVALID_PARAMETERS, s)
        | Some u \<Rightarrow>
            if length u > 24 then Inr (ICTL_INVALID_PARAMETERS, s)
            else bnd (is_last_admin E u s) (\<lambda>last.
                 if last then Inr (ICTL_OK, s)
                 else let s1 = s\<lparr>ic_http := snd (httpAuthDelUser (lib E) u (ic_http s)),
                                 ic_rtsp := del_auth_id (lib E) u (ic_rtsp s)\<rparr>
                      in bnd (RebuildConfigParam_Auth E s1) (\<lambda>s2.
                         bnd (save_config E s2) (\<lambda>s3. Inr (ICTL_OK, s3)))))"

text \<open>
  \<open>ictlGetUser\<close> writes names to consecutive slots of \<open>userlen\<close> bytes and privileges to an array; a name that is
  too long is skipped, its privilege is not. The result lists what is written and the number of users.
\<close>

definition ictlGetUser ::
  "ictl_handle option \<Rightarrow> nat \<Rightarrow> nat \<Rightarrow> ('h, 'r) ictl_state \<Rightarrow> int \<times> string list \<times> int list \<times> nat" where
  "ictlGetUser pHandle userlen maxnum s =
     (if unauthorized AUTH_USER pHandle then (ICTL_UNAUTHORIZED, [], [], 0)
      else let t = take maxnum (user_table (cfg_user (ic_cfg s)))
           in (ICTL_OK, filter (\<lambda>n. length n \<le> userlen) (map fst t), map (\<lambda>(_, _, v). v) t,
               length (user_table (cfg_user (ic_cfg s)))))"

definition ictlSetUserCheck ::
  "('h, 'r) ictl_env \<Rightarrow> ictl_handle option \<Rightarrow> bool \<Rightarrow> ('h, 'r) ictl_state \<Rightarrow> (int \<times> ('h, 'r) ictl_state) checked" where
  "ictlSetUserCheck E pHandle bEnable s =
     (if unauthorized AUTH_ADMIN pHandle then Inr (ICTL_UNAUTHORIZED, s)
      else if bEnable \<noteq> bUserCheck (cfg_user (ic_cfg s))
           then let s1 = s\<lparr>ic_http := httpEnableUserCheck (lib E) bEnable (ic_http s),
                           ic_rtsp := (if bEnable then set_auth_enable (lib E) else set_auth_disable (lib E)) (ic_rtsp s),
                           ic_cfg := (ic_cfg s)\<lparr>cfg_user := (cfg_user (ic_cfg s))\<lparr>bUserCheck := bEnable\<rparr>\<rparr>,
                           ucUserCheck := (if bEnable then 1 else 0)\<rparr>
                in bnd (save_config E s1) (\<lambda>s2. Inr (ICTL_OK, s2))
           else Inr (ICTL_OK, s))"

definition ictlGetUserCheck :: "ictl_handle option \<Rightarrow> ('h, 'r) ictl_state \<Rightarrow> int \<times> bool" where
  "ictlGetUserCheck pHandle s =
     (if unauthorized AUTH_ADMIN pHandle then (ICTL_UNAUTHORIZED, False)
      else (ICTL_OK, bUserCheck (cfg_user (ic_cfg s))))"

subsection \<open>The HTTP handlers\<close>

text \<open>
  What a handler reads of a request: the connection, the authorisation block the server keeps for it (used
  as the handle), the authenticated user, and the parameters.
\<close>

record request =
  rq_conn :: http_connection
  rq_handle :: ictl_handle
  rq_current_user :: string
  rq_User :: "string option"
  rq_Pass :: "string option"
  rq_Privilege :: "int option"
  rq_Check :: bool
  rq_ShowPrivilege :: bool

definition CL_SET_USER :: int where "CL_SET_USER = 11"
definition CL_DEL_USER :: int where "CL_DEL_USER = 12"
definition CL_SET_USER_CHECK :: int where "CL_SET_USER_CHECK = 13"

definition log_event ::
  "int \<Rightarrow> string option \<Rightarrow> request \<Rightarrow> 64 word \<Rightarrow> ('h, 'r) ictl_state \<Rightarrow> ('h, 'r) ictl_state" where
  "log_event kind v rq now s = s\<lparr>ic_log := WebCameraLog CL_PRIVILEGE_ADMIN kind v (Some (rq_conn rq)) now (ic_log s)\<rparr>"

definition Config_GetMyself :: "request \<Rightarrow> ca_action \<Rightarrow> ('h, 'r) ictl_state \<Rightarrow> int \<times> (string \<times> int option) option" where
  "Config_GetMyself rq iAction s =
     (case iAction of
        CA_AUTH \<Rightarrow> (AUTH_USER, None)
      | CA_CONFIG \<Rightarrow>
          (case ictlGetMyself (Some (rq_handle rq)) s of
             (_, name, v) \<Rightarrow> (0, Some (name, if rq_ShowPrivilege rq then Some v else None)))
      | CA_other \<Rightarrow> (- 1, None))"

text \<open>Changing one's own entry is allowed: the handler raises the handle's privilege for the call.\<close>

definition self_handle :: "request \<Rightarrow> string \<Rightarrow> ictl_handle" where
  "self_handle rq u = (if u = rq_current_user rq then (rq_handle rq)\<lparr>Privilege := AUTH_ADMIN\<rparr> else rq_handle rq)"

definition own_entry_auth :: "request \<Rightarrow> int" where
  "own_entry_auth rq = (case rq_User rq of Some u \<Rightarrow> if u = rq_current_user rq then AUTH_USER else AUTH_ADMIN
     | None \<Rightarrow> AUTH_ADMIN)"

definition requested_privilege :: "('h, 'r) ictl_env \<Rightarrow> request \<Rightarrow> ('h, 'r) ictl_state \<Rightarrow> int" where
  "requested_privilege E rq s =
     (case rq_Privilege rq of Some v \<Rightarrow> v
      | None \<Rightarrow> (case rq_User rq of None \<Rightarrow> AUTH_USER
          | Some u \<Rightarrow> (case httpAuthGetUser (lib E) u (ic_http s) of None \<Rightarrow> AUTH_USER | Some (_, v) \<Rightarrow> v)))"

definition call_SetUser :: "('h, 'r) ictl_env \<Rightarrow> request \<Rightarrow> ('h, 'r) ictl_state \<Rightarrow> (int \<times> ('h, 'r) ictl_state) checked" where
  "call_SetUser E rq s =
     (case (rq_User rq, rq_Pass rq) of
        (Some u, Some pw) \<Rightarrow>
          if length u < 24 \<and> length pw < 24
          then ictlSetUser E (Some (self_handle rq u)) (Some u) (Some pw) (requested_privilege E rq s) s
          else Inr (0, s)
      | _ \<Rightarrow> Inr (0, s))"

definition Config_SetUser ::
  "('h, 'r) ictl_env \<Rightarrow> request \<Rightarrow> ca_action \<Rightarrow> 64 word \<Rightarrow> ('h, 'r) ictl_state \<Rightarrow> (int \<times> ('h, 'r) ictl_state) checked" where
  "Config_SetUser E rq iAction now s =
     (case iAction of
        CA_AUTH \<Rightarrow> Inr (own_entry_auth rq, s)
      | CA_CONFIG \<Rightarrow>
          bnd (call_SetUser E rq s)
               (\<lambda>(bIsChange, s1).
                  Inr (0, if bIsChange = ICTL_OK then log_event CL_SET_USER (rq_User rq) rq now s1 else s1))
      | CA_other \<Rightarrow> Inr (- 1, s))"

definition Config_DelUser ::
  "('h, 'r) ictl_env \<Rightarrow> request \<Rightarrow> ca_action \<Rightarrow> 64 word \<Rightarrow> ('h, 'r) ictl_state \<Rightarrow> (int \<times> ('h, 'r) ictl_state) checked" where
  "Config_DelUser E rq iAction now s =
     (case iAction of
        CA_AUTH \<Rightarrow> Inr (own_entry_auth rq, s)
      | CA_CONFIG \<Rightarrow>
          bnd (case rq_User rq of
                 Some u \<Rightarrow> ictlDelUser E (Some (self_handle rq u)) (Some u) s
               | None \<Rightarrow> Inr (0, s))
            (\<lambda>(bIsChange, s1).
               Inr (0, if bIsChange = ICTL_OK then log_event CL_DEL_USER (rq_User rq) rq now s1 else s1))
      | CA_other \<Rightarrow> Inr (- 1, s))"

definition Config_SetUserCheck ::
  "('h, 'r) ictl_env \<Rightarrow> request \<Rightarrow> ca_action \<Rightarrow> 64 word \<Rightarrow> ('h, 'r) ictl_state \<Rightarrow> (int \<times> ('h, 'r) ictl_state) checked" where
  "Config_SetUserCheck E rq iAction now s =
     (case iAction of
        CA_AUTH \<Rightarrow> Inr (AUTH_ADMIN, s)
      | CA_CONFIG \<Rightarrow>
          bnd (if httpIsEnableUserCheck (lib E) (ic_http s) \<noteq> rq_Check rq
               then ictlSetUserCheck E (Some (rq_handle rq)) (rq_Check rq) s else Inr (0, s))
            (\<lambda>(_, s1). Inr (0, log_event CL_SET_USER_CHECK (Some (if rq_Check rq then ''1'' else ''0'')) rq now s1))
      | CA_other \<Rightarrow> Inr (- 1, s))"

text \<open>
  \<open>Config_GetUser\<close> lists up to 30 users; it passes the size of its privilege array in bytes (120) as the number of
  elements, and pairs the written names with the written privileges by position.
\<close>

definition Config_GetUser :: "request \<Rightarrow> ca_action \<Rightarrow> ('h, 'r) ictl_state \<Rightarrow> int \<times> (string \<times> int option) list" where
  "Config_GetUser rq iAction s =
     (case iAction of
        CA_AUTH \<Rightarrow> (AUTH_ADMIN, [])
      | CA_CONFIG \<Rightarrow>
          (case ictlGetUser (Some (rq_handle rq)) 24 120 s of
             (_, names, privs, usernum) \<Rightarrow>
               (0, map (\<lambda>i. (names ! i, if rq_ShowPrivilege rq
                                        then Some (if privs ! i \<ge> AUTH_ADMIN then 0 else 1) else None))
                     [0 ..< min usernum 30]))
      | CA_other \<Rightarrow> (- 1, []))"

subsection \<open>What the HTTP library promises\<close>

text \<open>
  From libhttp/Doc/User.txt: setting adds a user or changes one, deleting removes one, and both answer 0, or -1 if they have failed, in which
  case nothing has changed. The list of each privilege level holds exactly the users of that level with their passwords. \<open>good\<close> is the
  library's own invariant. (The callers do not look at the answers.)
\<close>

definition lists_users :: "('h, 'r) http_lib \<Rightarrow> 'h \<Rightarrow> (int \<Rightarrow> user_node list option) \<Rightarrow> int \<Rightarrow> bool" where
  "lists_users L h ppList v =
     (\<exists>ups. distinct (map fst ups) \<and> (\<forall>u pw. (u, pw) \<in> set ups \<longleftrightarrow> httpAuthGetUser L u h = Some (pw, v))
        \<and> (ppList v = Some (map (\<lambda>(u, pw). Some (Some u, Some pw)) ups) \<or> ups = [] \<and> ppList v = None))"

definition is_level :: "int \<Rightarrow> bool" where
  "is_level v = (v = AUTH_USER \<or> v = AUTH_ADMIN \<or> v = AUTH_SYSTEM)"

definition auth_laws :: "('h, 'r) http_lib \<Rightarrow> ('h \<Rightarrow> bool) \<Rightarrow> bool" where
  "auth_laws L good =
     ((\<forall>h u pw v. good h \<longrightarrow> (case httpAuthSetUser L u pw v h of (rc, h') \<Rightarrow> rc \<in> {0, - 1} \<and> good h'
         \<and> (\<forall>w. httpAuthGetUser L w h' = (if rc = 0 \<and> w = u then Some (pw, v) else httpAuthGetUser L w h))))
      \<and> (\<forall>h u. good h \<longrightarrow> (case httpAuthDelUser L u h of (rc, h') \<Rightarrow> rc \<in> {0, - 1} \<and> good h'
         \<and> (\<forall>w. httpAuthGetUser L w h' = (if rc = 0 \<and> w = u then None else httpAuthGetUser L w h))))
      \<and> (\<forall>h. good h \<longrightarrow> (\<exists>ppList. httpGetAuthUserList L h = Some ppList
            \<and> (\<forall>v. is_level v \<longrightarrow> lists_users L h ppList v)))
      \<and> (\<forall>h b. good h \<longrightarrow> good (httpEnableUserCheck L b h)
         \<and> (\<forall>w. httpAuthGetUser L w (httpEnableUserCheck L b h) = httpAuthGetUser L w h))
      \<and> (\<forall>t n. 0 < n \<longrightarrow> length (httpMyStrncpy L t n) < n \<and> (length t < n \<longrightarrow> httpMyStrncpy L t n = t)))"

definition has_admin :: "('h, 'r) ictl_env \<Rightarrow> ('h, 'r) ictl_state \<Rightarrow> bool" where
  "has_admin E s = (\<exists>u pw v. httpAuthGetUser (lib E) u (ic_http s) = Some (pw, v) \<and> v \<ge> AUTH_ADMIN)"

lemma auth_lawsD:
  assumes "auth_laws L good" and "good h"
  shows "good (snd (httpAuthSetUser L u pw v h))"
    and "httpAuthGetUser L w (snd (httpAuthSetUser L u pw v h))
      = (if fst (httpAuthSetUser L u pw v h) = 0 \<and> w = u then Some (pw, v) else httpAuthGetUser L w h)"
    and "good (snd (httpAuthDelUser L u h))"
    and "httpAuthGetUser L w (snd (httpAuthDelUser L u h))
      = (if fst (httpAuthDelUser L u h) = 0 \<and> w = u then None else httpAuthGetUser L w h)"
    and "\<exists>ppList. httpGetAuthUserList L h = Some ppList
            \<and> (\<forall>v. is_level v \<longrightarrow> lists_users L h ppList v)"
    and "length t < n \<Longrightarrow> httpMyStrncpy L t n = t"
    and "good (httpEnableUserCheck L b h)"
    and "httpAuthGetUser L w (httpEnableUserCheck L b h) = httpAuthGetUser L w h"
    and "0 < n \<Longrightarrow> length (httpMyStrncpy L t n) < n"
proof -
  note laws = assms(1) [unfolded auth_laws_def case_prod_unfold]
  show "good (snd (httpAuthSetUser L u pw v h))"
    and "httpAuthGetUser L w (snd (httpAuthSetUser L u pw v h))
      = (if fst (httpAuthSetUser L u pw v h) = 0 \<and> w = u then Some (pw, v) else httpAuthGetUser L w h)"
    using laws [THEN conjunct1] assms(2) by blast+
  show "good (snd (httpAuthDelUser L u h))"
    and "httpAuthGetUser L w (snd (httpAuthDelUser L u h))
      = (if fst (httpAuthDelUser L u h) = 0 \<and> w = u then None else httpAuthGetUser L w h)"
    using laws [THEN conjunct2, THEN conjunct1] assms(2) by blast+
  note rest = laws [THEN conjunct2, THEN conjunct2]
  show "\<exists>ppList. httpGetAuthUserList L h = Some ppList \<and> (\<forall>v. is_level v \<longrightarrow> lists_users L h ppList v)"
    using rest [THEN conjunct1] assms(2) by blast
  show "good (httpEnableUserCheck L b h)" and "httpAuthGetUser L w (httpEnableUserCheck L b h) = httpAuthGetUser L w h"
    using rest [THEN conjunct2, THEN conjunct1] assms(2) by blast+
  show "0 < n \<Longrightarrow> length (httpMyStrncpy L t n) < n" and "length t < n \<Longrightarrow> httpMyStrncpy L t n = t"
    using rest [THEN conjunct2, THEN conjunct2] by (metis gr_implies_not0 neq0_conv)+
qed

lemma is_level_simps [simp]: "is_level AUTH_USER" "is_level AUTH_ADMIN" "is_level AUTH_SYSTEM"
  by (simp_all add: is_level_def)

subsection \<open>The last administrator\<close>

lemma has_adminI: "httpAuthGetUser (lib E) u (ic_http s) = Some (pw, v) \<Longrightarrow> AUTH_ADMIN \<le> v \<Longrightarrow> has_admin E s"
  by (auto simp: has_admin_def)

lemma two_admins:
  assumes laws: "auth_laws (lib E) good" and good: "good (ic_http s)" and "IsMoreThanOneAdmin E s = Inr True"
  shows "\<exists>u pw. u \<noteq> w \<and> httpAuthGetUser (lib E) u (ic_http s) = Some (pw, AUTH_ADMIN)"
proof -
  from auth_lawsD(5) [OF laws good] obtain ppList where
    pp: "httpGetAuthUserList (lib E) (ic_http s) = Some ppList" "lists_users (lib E) (ic_http s) ppList AUTH_ADMIN"
    by auto
  from pp(2) obtain ups where
    ups: "distinct (map fst ups)" "\<And>u pw. (u, pw) \<in> set ups \<longleftrightarrow> httpAuthGetUser (lib E) u (ic_http s) = Some (pw, AUTH_ADMIN)"
    and l: "ppList AUTH_ADMIN = Some (map (\<lambda>(u, pw). Some (Some u, Some pw)) ups) \<or> ups = [] \<and> ppList AUTH_ADMIN = None"
    unfolding lists_users_def by blast
  obtain nodes where n: "ppList AUTH_ADMIN = Some nodes"
    using assms(3) by (cases "ppList AUTH_ADMIN") (simp_all add: IsMoreThanOneAdmin_def pp(1))
  with l have m: "nodes = map (\<lambda>(u, pw). Some (Some u, Some pw)) ups" by simp
  have "2 \<le> length nodes"
    using assms(3) by (simp add: IsMoreThanOneAdmin_def pp(1) n split: list.splits)
  then obtain a b rest where "ups = a # b # rest"
    unfolding m by (cases ups; cases "tl ups") auto
  then have "fst a \<noteq> fst b" "a \<in> set ups" "b \<in> set ups" using ups(1) by auto
  then show ?thesis using ups(2) by (metis prod.collapse)
qed

lemma not_last_admin:
  assumes laws: "auth_laws (lib E) good" and good: "good (ic_http s)" and "has_admin E s"
    and "is_last_admin E u s = Inr False"
  shows "\<exists>w pw v. w \<noteq> u \<and> httpAuthGetUser (lib E) w (ic_http s) = Some (pw, v) \<and> v \<ge> AUTH_ADMIN"
proof -
  from assms(3) obtain w p x where
    w: "httpAuthGetUser (lib E) w (ic_http s) = Some (p, x)" "x \<ge> AUTH_ADMIN" by (auto simp: has_admin_def)
  show ?thesis
  proof (cases "w = u")
    case False
    with w show ?thesis by blast
  next
    case True
    then have "bnd (IsMoreThanOneAdmin E s) (\<lambda>m. Inr (\<not> m)) = Inr False"
      using assms(4) w by (simp add: is_last_admin_def)
    then have "IsMoreThanOneAdmin E s = Inr True" by (auto simp: bnd_Inr)
    from two_admins [OF laws good this, of u] obtain w' p' where
      "w' \<noteq> u" "httpAuthGetUser (lib E) w' (ic_http s) = Some (p', AUTH_ADMIN)" by blast
    then show ?thesis by blast
  qed
qed

lemma save_http: "save_config E s = Inr s' \<Longrightarrow> ic_http s' = ic_http s \<and> ic_cfg s' = ic_cfg s \<and> ic_log s' = ic_log s"
  by (auto simp: save_config_def split: option.splits)

lemma rebuild_http: "RebuildConfigParam_Auth E s = Inr s' \<Longrightarrow> ic_http s' = ic_http s"
  by (auto simp: RebuildConfigParam_Auth_def Let_def bnd_Inr split: option.splits)

lemma ictlSetUser_admin:
  assumes laws: "auth_laws (lib E) good" and good: "good (ic_http s)" and adm: "has_admin E s"
    and run: "ictlSetUser E h u pw v s = Inr (r, s')"
  shows "good (ic_http s') \<and> has_admin E s'"
proof (cases "\<exists>u0 pw0. u = Some u0 \<and> pw = Some pw0 \<and> \<not> unauthorized AUTH_ADMIN h \<and> \<not> (length pw0 > 24 \<or> length u0 > 24)")
  case False
  then have "s' = s" using run by (auto simp: ictlSetUser_def split: option.splits if_splits)
  then show ?thesis using good adm by simp
next
  case True
  then obtain u0 pw0 where u: "u = Some u0" "pw = Some pw0" "\<not> unauthorized AUTH_ADMIN h"
    "\<not> (length pw0 > 24 \<or> length u0 > 24)" by blast
  from run u obtain last where
    l: "(if v < AUTH_ADMIN then is_last_admin E u0 s else Inr False) = Inr last" and
    h': "ic_http s' = snd (httpAuthSetUser (lib E) u0 pw0 (if last then old_privilege E u0 s else v) (ic_http s))"
    by (auto simp: ictlSetUser_def bnd_Inr Let_def dest!: rebuild_http save_http)
  let ?v = "if last then old_privilege E u0 s else v"
  let ?rc = "fst (httpAuthSetUser (lib E) u0 pw0 ?v (ic_http s))"
  have old: "last \<Longrightarrow> old_privilege E u0 s \<ge> AUTH_ADMIN"
    using l by (auto simp: is_last_admin_def old_privilege_def split: if_splits option.splits)
  note laws' = auth_lawsD [OF laws good]
  have get: "httpAuthGetUser (lib E) w (ic_http s') = (if ?rc = 0 \<and> w = u0 then Some (pw0, ?v) else httpAuthGetUser (lib E) w (ic_http s))" for w
    unfolding h' by (rule laws'(2))
  have "good (ic_http s')" unfolding h' by (rule laws'(1))
  moreover have "has_admin E s'"
  proof (cases "?rc = 0")
    case False
    then have "httpAuthGetUser (lib E) w (ic_http s') = httpAuthGetUser (lib E) w (ic_http s)" for w by (simp only: get) simp
    then show ?thesis using adm by (simp add: has_admin_def)
  next
    case rc: True
    show ?thesis
    proof (cases "?v \<ge> AUTH_ADMIN")
      case True
      have "httpAuthGetUser (lib E) u0 (ic_http s') = Some (pw0, ?v)" using rc by (simp only: get) simp
      then show ?thesis using True by (rule has_adminI)
    next
      case False
      then have "\<not> last" using old by auto
      with False l have "is_last_admin E u0 s = Inr False" by (simp split: if_splits)
      from not_last_admin [OF laws good adm this] obtain w p x where
        "w \<noteq> u0" "httpAuthGetUser (lib E) w (ic_http s) = Some (p, x)" "x \<ge> AUTH_ADMIN" by blast
      then have "httpAuthGetUser (lib E) w (ic_http s') = Some (p, x)" by (simp only: get) simp
      then show ?thesis using \<open>x \<ge> AUTH_ADMIN\<close> by (rule has_adminI)
    qed
  qed
  ultimately show ?thesis by simp
qed

lemma ictlDelUser_admin:
  assumes laws: "auth_laws (lib E) good" and good: "good (ic_http s)" and adm: "has_admin E s"
    and run: "ictlDelUser E h u s = Inr (r, s')"
  shows "good (ic_http s') \<and> has_admin E s'"
proof (cases "s' = s")
  case True
  then show ?thesis using good adm by simp
next
  case False
  then obtain u0 where l: "is_last_admin E u0 s = Inr False"
    and h': "ic_http s' = snd (httpAuthDelUser (lib E) u0 (ic_http s))"
    using run by (auto simp: ictlDelUser_def bnd_Inr Let_def dest!: rebuild_http save_http split: option.splits if_splits)
  from not_last_admin [OF laws good adm l] obtain w p x where
    "w \<noteq> u0" "httpAuthGetUser (lib E) w (ic_http s) = Some (p, x)" "x \<ge> AUTH_ADMIN" by blast
  then have "httpAuthGetUser (lib E) w (ic_http s') = Some (p, x)"
    using auth_lawsD(4) [OF laws good, of w u0] by (simp add: h')
  with \<open>x \<ge> AUTH_ADMIN\<close> show ?thesis using auth_lawsD(3) [OF laws good] has_adminI [of E w s'] by (auto simp: h')
qed

lemma ictlSetUserCheck_admin:
  assumes laws: "auth_laws (lib E) good" and good: "good (ic_http s)" and adm: "has_admin E s"
    and run: "ictlSetUserCheck E h b s = Inr (r, s')"
  shows "good (ic_http s') \<and> has_admin E s'"
proof (cases "s' = s")
  case False
  then have h': "ic_http s' = httpEnableUserCheck (lib E) b (ic_http s)"
    using run by (auto simp: ictlSetUserCheck_def bnd_Inr Let_def dest!: save_http split: if_splits)
  then show ?thesis using adm auth_lawsD(7,8) [OF laws good] by (simp add: has_admin_def)
qed (use good adm in simp)

text \<open>
  Everything that can happen to the users: calls of the interface (by other threads of the firmware) and HTTP
  requests, with any privilege asked for. A step ends normally: after a write past an array nothing is said.
\<close>

inductive user_step :: "('h, 'r) ictl_env \<Rightarrow> ('h, 'r) ictl_state \<Rightarrow> ('h, 'r) ictl_state \<Rightarrow> bool"
  for E :: "('h, 'r) ictl_env" where
  set_user: "ictlSetUser E h u pw v s = Inr (r, s') \<Longrightarrow> user_step E s s'"
| del_user: "ictlDelUser E h u s = Inr (r, s') \<Longrightarrow> user_step E s s'"
| set_check: "ictlSetUserCheck E h b s = Inr (r, s') \<Longrightarrow> user_step E s s'"
| http_set_user: "Config_SetUser E rq a now s = Inr (r, s') \<Longrightarrow> user_step E s s'"
| http_del_user: "Config_DelUser E rq a now s = Inr (r, s') \<Longrightarrow> user_step E s s'"
| http_set_check: "Config_SetUserCheck E rq a now s = Inr (r, s') \<Longrightarrow> user_step E s s'"

lemma log_event_http [simp]: "ic_http (log_event k v rq now s) = ic_http s" "ic_cfg (log_event k v rq now s) = ic_cfg s"
  "has_admin E (log_event k v rq now s) = has_admin E s"
  by (simp_all add: log_event_def has_admin_def)

lemma Config_SetUser_run:
  assumes "Config_SetUser E rq a now s = Inr (r, s')"
  obtains "s' = s" | b t where "call_SetUser E rq s = Inr (b, t)" and "ic_http s' = ic_http t"
proof (cases a)
  case CA_CONFIG
  then obtain b t where c: "call_SetUser E rq s = Inr (b, t)"
    using assms by (auto simp: Config_SetUser_def bnd_Inr)
  with CA_CONFIG assms have "ic_http s' = ic_http t" by (auto simp: Config_SetUser_def)
  with c show ?thesis by (rule that(2))
qed (use assms that(1) in \<open>simp_all add: Config_SetUser_def\<close>)

lemma Config_DelUser_run:
  assumes "Config_DelUser E rq a now s = Inr (r, s')"
  obtains "ic_http s' = ic_http s" | h u b t where "ictlDelUser E h u s = Inr (b, t)" and "ic_http s' = ic_http t"
proof (cases a)
  case CA_CONFIG
  show ?thesis
  proof (cases "rq_User rq")
    case None
    with CA_CONFIG assms have "ic_http s' = ic_http s" by (auto simp: Config_DelUser_def)
    then show ?thesis by (rule that(1))
  next
    case (Some u)
    then obtain b t where c: "ictlDelUser E (Some (self_handle rq u)) (Some u) s = Inr (b, t)"
      using CA_CONFIG assms by (auto simp: Config_DelUser_def bnd_Inr)
    with Some CA_CONFIG assms have "ic_http s' = ic_http t" by (auto simp: Config_DelUser_def)
    with c show ?thesis by (rule that(2))
  qed
qed (use assms that(1) in \<open>simp_all add: Config_DelUser_def\<close>)

lemma Config_SetUserCheck_run:
  assumes "Config_SetUserCheck E rq a now s = Inr (r, s')"
  obtains "ic_http s' = ic_http s" | h c b t where "ictlSetUserCheck E h c s = Inr (b, t)" and "ic_http s' = ic_http t"
proof (cases a)
  case CA_CONFIG
  show ?thesis
  proof (cases "httpIsEnableUserCheck (lib E) (ic_http s) = rq_Check rq")
    case True
    with CA_CONFIG assms have "ic_http s' = ic_http s" by (auto simp: Config_SetUserCheck_def)
    then show ?thesis by (rule that(1))
  next
    case False
    then obtain b t where c: "ictlSetUserCheck E (Some (rq_handle rq)) (rq_Check rq) s = Inr (b, t)"
      using CA_CONFIG assms by (auto simp: Config_SetUserCheck_def bnd_Inr)
    with False CA_CONFIG assms have "ic_http s' = ic_http t" by (auto simp: Config_SetUserCheck_def)
    with c show ?thesis by (rule that(2))
  qed
qed (use assms that(1) in \<open>simp_all add: Config_SetUserCheck_def\<close>)

lemma has_admin_cong: "ic_http s = ic_http t \<Longrightarrow> has_admin E s = has_admin E t"
  by (simp add: has_admin_def)

lemma call_SetUser_admin:
  assumes laws: "auth_laws (lib E) good" and good: "good (ic_http s)" and adm: "has_admin E s"
    and run: "call_SetUser E rq s = Inr (b, t)"
  shows "good (ic_http t) \<and> has_admin E t"
proof (cases "t = s")
  case False
  then obtain u pw where "ictlSetUser E (Some (self_handle rq u)) (Some u) (Some pw) (requested_privilege E rq s) s = Inr (b, t)"
    using run by (auto simp: call_SetUser_def split: option.splits if_splits)
  then show ?thesis using ictlSetUser_admin [OF laws good adm] by blast
qed (use good adm in simp)

lemma user_step_admin:
  assumes laws: "auth_laws (lib E) good" and "user_step E s s'" and good: "good (ic_http s)" and adm: "has_admin E s"
  shows "good (ic_http s') \<and> has_admin E s'"
  using assms(2)
proof cases
  case (set_user h u pw v r)
  from ictlSetUser_admin [OF laws good adm this] show ?thesis .
next
  case (del_user h u r)
  from ictlDelUser_admin [OF laws good adm this] show ?thesis .
next
  case (set_check h b r)
  from ictlSetUserCheck_admin [OF laws good adm this] show ?thesis .
next
  case (http_set_user rq a now r)
  from http_set_user show ?thesis
  proof (cases rule: Config_SetUser_run)
    case (2 b t)
    from call_SetUser_admin [OF laws good adm 2(1)] 2(2) show ?thesis
      using has_admin_cong [OF 2(2), of E] by simp
  qed (use good adm in simp)
next
  case (http_del_user rq a now r)
  then show ?thesis
  proof (cases rule: Config_DelUser_run)
    case 1
    then show ?thesis using good adm has_admin_cong [OF 1, of E] by simp
  next
    case (2 h u b t)
    from ictlDelUser_admin [OF laws good adm 2(1)] 2(2) show ?thesis using has_admin_cong [OF 2(2), of E] by simp
  qed
next
  case (http_set_check rq a now r)
  then show ?thesis
  proof (cases rule: Config_SetUserCheck_run)
    case 1
    then show ?thesis using good adm has_admin_cong [OF 1, of E] by simp
  next
    case (2 h c b t)
    from ictlSetUserCheck_admin [OF laws good adm 2(1)] 2(2) show ?thesis using has_admin_cong [OF 2(2), of E] by simp
  qed
qed

subsection \<open>The table mirrors the library\<close>

abbreviation users_of :: "('h, 'r) ictl_state \<Rightarrow> (string \<times> string \<times> int) list" where
  "users_of s \<equiv> user_table (cfg_user (ic_cfg s))"

lemma rebuild_nodes_users:
  "length tab \<le> MAX_USERSET_ENABLE \<Longrightarrow>
   rebuild_nodes cpy i (map (\<lambda>(u, pw). Some (Some u, Some pw)) ups) tab =
     (if length tab + length ups \<le> MAX_USERSET_ENABLE
      then Inr (tab @ map (\<lambda>(u, pw). (cpy u 24, cpy pw 24, i)) ups) else Inl OutOfBounds)"
proof (induction ups arbitrary: tab)
  case (Cons x ups)
  obtain u pw where "x = (u, pw)" by (cases x)
  then show ?case using Cons by (simp add: text_of_def)
qed simp

definition level_users :: "('h, 'r) http_lib \<Rightarrow> 'h \<Rightarrow> int \<Rightarrow> (string \<times> string) list \<Rightarrow> bool" where
  "level_users L h i ups =
     (distinct (map fst ups) \<and> (\<forall>u pw. (u, pw) \<in> set ups \<longleftrightarrow> httpAuthGetUser L u h = Some (pw, i)))"

definition rows :: "('h, 'r) http_lib \<Rightarrow> int \<Rightarrow> (string \<times> string) list \<Rightarrow> (string \<times> string \<times> int) list" where
  "rows L i ups = map (\<lambda>(u, pw). (httpMyStrncpy L u 24, httpMyStrncpy L pw 24, i)) ups"

lemma length_rows [simp]: "length (rows L i ups) = length ups"
  by (simp add: rows_def)

lemma rows_mem:
  assumes "level_users L h i ups"
  shows "(n, q, v) \<in> set (rows L i ups) \<longleftrightarrow> v = i \<and>
     (\<exists>u pw. httpAuthGetUser L u h = Some (pw, v) \<and> n = httpMyStrncpy L u 24 \<and> q = httpMyStrncpy L pw 24)"
proof -
  have "(n, q, v) \<in> set (rows L i ups) \<longleftrightarrow>
      (\<exists>u pw. (u, pw) \<in> set ups \<and> n = httpMyStrncpy L u 24 \<and> q = httpMyStrncpy L pw 24 \<and> v = i)"
    by (force simp: rows_def)
  then show ?thesis using assms by (auto simp: level_users_def)
qed

lemma rebuild_level:
  assumes "lists_users L h ppList i"
  shows "\<exists>ups. level_users L h i ups
     \<and> (\<forall>is tab. length tab \<le> MAX_USERSET_ENABLE \<longrightarrow> rebuild_lists (httpMyStrncpy L) ppList (i # is) tab =
          (if length tab + length ups \<le> MAX_USERSET_ENABLE
           then rebuild_lists (httpMyStrncpy L) ppList is (tab @ rows L i ups) else Inl OutOfBounds))"
proof -
  from assms obtain ups where
    ups: "level_users L h i ups"
    and l: "ppList i = Some (map (\<lambda>(u, pw). Some (Some u, Some pw)) ups) \<or> ups = [] \<and> ppList i = None"
    unfolding lists_users_def level_users_def by blast
  have "rebuild_lists (httpMyStrncpy L) ppList (i # is) tab =
      (if length tab + length ups \<le> MAX_USERSET_ENABLE
       then rebuild_lists (httpMyStrncpy L) ppList is (tab @ rows L i ups)
       else Inl OutOfBounds)" if "length tab \<le> MAX_USERSET_ENABLE" for tab "is"
    using that l by (auto simp: rebuild_nodes_users rows_def)
  with ups show ?thesis by blast
qed

lemma level_users_disjoint:
  "level_users L h i a \<Longrightarrow> level_users L h j b \<Longrightarrow> i \<noteq> j \<Longrightarrow> fst ` set a \<inter> fst ` set b = {}"
  by (fastforce simp: level_users_def)

text \<open>The users the lists show: those whose privilege is one of the levels.\<close>

definition registered :: "('h, 'r) http_lib \<Rightarrow> 'h \<Rightarrow> string set" where
  "registered L h = {u. \<exists>pw v. httpAuthGetUser L u h = Some (pw, v) \<and> is_level v}"

text \<open>
  Rebuilding the table writes past its 30 entries exactly when there are more users; otherwise the table lists the users
  of the library, level by level.
\<close>

lemma rebuild_users:
  assumes laws: "auth_laws (lib E) good" and good: "good (ic_http s)"
  shows "finite (registered (lib E) (ic_http s)) \<and>
    (if card (registered (lib E) (ic_http s)) \<le> MAX_USERSET_ENABLE
     then \<exists>tab. RebuildConfigParam_Auth E s =
            Inr (s\<lparr>ic_cfg := (ic_cfg s)\<lparr>cfg_user := (cfg_user (ic_cfg s))\<lparr>user_table := tab\<rparr>\<rparr>\<rparr>)
          \<and> (\<forall>n q v. (n, q, v) \<in> set tab \<longleftrightarrow> is_level v \<and> (\<exists>u pw. httpAuthGetUser (lib E) u (ic_http s) = Some (pw, v)
                \<and> n = httpMyStrncpy (lib E) u 24 \<and> q = httpMyStrncpy (lib E) pw 24))
     else RebuildConfigParam_Auth E s = Inl OutOfBounds)"
proof -
  let ?h = "ic_http s" and ?cpy = "httpMyStrncpy (lib E)" and ?L = "lib E"
  from auth_lawsD(5) [OF laws good] obtain pp where
    pp: "httpGetAuthUserList ?L ?h = Some pp" "\<forall>v. is_level v \<longrightarrow> lists_users ?L ?h pp v" by blast
  from rebuild_level pp(2) obtain a where a: "level_users ?L ?h AUTH_USER a"
    "\<And>is tab. length tab \<le> MAX_USERSET_ENABLE \<Longrightarrow> rebuild_lists ?cpy pp (AUTH_USER # is) tab =
       (if length tab + length a \<le> MAX_USERSET_ENABLE then rebuild_lists ?cpy pp is (tab @ rows ?L AUTH_USER a)
        else Inl OutOfBounds)" by (meson is_level_simps(1))
  from rebuild_level pp(2) obtain b where b: "level_users ?L ?h AUTH_ADMIN b"
    "\<And>is tab. length tab \<le> MAX_USERSET_ENABLE \<Longrightarrow> rebuild_lists ?cpy pp (AUTH_ADMIN # is) tab =
       (if length tab + length b \<le> MAX_USERSET_ENABLE then rebuild_lists ?cpy pp is (tab @ rows ?L AUTH_ADMIN b)
        else Inl OutOfBounds)" by (meson is_level_simps(2))
  from rebuild_level pp(2) obtain c where c: "level_users ?L ?h AUTH_SYSTEM c"
    "\<And>is tab. length tab \<le> MAX_USERSET_ENABLE \<Longrightarrow> rebuild_lists ?cpy pp (AUTH_SYSTEM # is) tab =
       (if length tab + length c \<le> MAX_USERSET_ENABLE then rebuild_lists ?cpy pp is (tab @ rows ?L AUTH_SYSTEM c)
        else Inl OutOfBounds)" by (meson is_level_simps(3))
  let ?all = "rows ?L AUTH_USER a @ rows ?L AUTH_ADMIN b @ rows ?L AUTH_SYSTEM c"
  have run: "rebuild_lists ?cpy pp [AUTH_USER, AUTH_ADMIN, AUTH_SYSTEM] [] =
      (if length a + length b + length c \<le> MAX_USERSET_ENABLE then Inr ?all else Inl OutOfBounds)"
    by (auto simp: a(2) b(2) c(2) add.assoc simp del: rebuild_lists.simps(2))
  have reg: "registered ?L ?h = fst ` set (a @ b @ c)"
  proof -
    have "u \<in> registered ?L ?h \<longleftrightarrow> u \<in> fst ` set (a @ b @ c)" for u
    proof
      assume "u \<in> registered ?L ?h"
      then obtain pw v where "httpAuthGetUser ?L u ?h = Some (pw, v)" "is_level v" by (auto simp: registered_def)
      with a(1) b(1) c(1) have "(u, pw) \<in> set (a @ b @ c)" by (auto simp: is_level_def level_users_def)
      then show "u \<in> fst ` set (a @ b @ c)" by force
    next
      assume "u \<in> fst ` set (a @ b @ c)"
      then show "u \<in> registered ?L ?h" 
        using a(1) b(1) c(1) is_level_simps unfolding registered_def level_users_def by fastforce
    qed
    then show ?thesis by blast
  qed
  have "distinct (map fst (a @ b @ c))"
    using a(1) b(1) c(1) level_users_disjoint [OF a(1) b(1)] level_users_disjoint [OF a(1) c(1)]
      level_users_disjoint [OF b(1) c(1)] by (auto simp: level_users_def auth_defs)
  then have card: "card (registered ?L ?h) = length a + length b + length c"
    using distinct_card [of "map fst (a @ b @ c)"] unfolding reg by (simp add: add.assoc image_Un)
  have tab: "(n, q, v) \<in> set ?all \<longleftrightarrow> is_level v \<and>
        (\<exists>u pw. httpAuthGetUser ?L u ?h = Some (pw, v) \<and> n = ?cpy u 24 \<and> q = ?cpy pw 24)" for n q v
    unfolding set_append Un_iff rows_mem [OF a(1)] rows_mem [OF b(1)] rows_mem [OF c(1)] is_level_def by blast
  have fin: "finite (registered ?L ?h)" unfolding reg by simp
  show ?thesis
  proof (cases "card (registered ?L ?h) \<le> MAX_USERSET_ENABLE")
    case True
    then have "RebuildConfigParam_Auth E s =
        Inr (s\<lparr>ic_cfg := (ic_cfg s)\<lparr>cfg_user := (cfg_user (ic_cfg s))\<lparr>user_table := ?all\<rparr>\<rparr>\<rparr>)"
      by (simp add: RebuildConfigParam_Auth_def pp(1) run card del: rebuild_lists.simps)
    with True fin tab show ?thesis by (simp only: if_True) blast
  next
    case False
    then have "RebuildConfigParam_Auth E s = Inl OutOfBounds"
      by (simp add: RebuildConfigParam_Auth_def pp(1) run card del: rebuild_lists.simps)
    with False fin show ?thesis by simp
  qed
qed

subsection \<open>Setting and authenticating\<close>

definition ictl_ok :: "('h, 'r) ictl_env \<Rightarrow> ('h, 'r) ictl_state \<Rightarrow> bool" where
  "ictl_ok E s = (board_ok (brd E) \<and> usable (brd E) (ic_flash s) \<and> (\<forall>c. length (image_of E c) = cfg_sizeof (brd E)))"

text \<open>The flash holds the configuration that is in RAM.\<close>

definition config_saved :: "('h, 'r) ictl_env \<Rightarrow> ('h, 'r) ictl_state \<Rightarrow> bool" where
  "config_saved E s = (ictl_ok E s \<and> saved (brd E) (ic_flash s) (signed (brd E) (image_of E (ic_cfg s))))"

lemma save_config_ok:
  assumes "ictl_ok E s"
  shows "\<exists>f. save_config E s = Inr (s\<lparr>ic_flash := f\<rparr>) \<and> config_saved E (s\<lparr>ic_flash := f\<rparr>)"
proof -
  from assms have "cfg_inv (brd E) (ic_flash s)" "USI_IS_READY (ic_flash s)" "\<not> s_bNotResetCheckSum (ic_flash s)"
    and B: "board_ok (brd E)" and len: "length (image_of E (ic_cfg s)) = cfg_sizeof (brd E)"
    by (simp_all add: ictl_ok_def usable_def)
  from WriteFlashMemory_saved [OF B this(1-3) len] obtain f where
    "WriteFlashMemory (brd E) ((ic_flash s)\<lparr>g_ConfigParam := image_of E (ic_cfg s)\<rparr>) = Some (True, f)"
    "saved (brd E) f (signed (brd E) (image_of E (ic_cfg s)))" by blast
  then show ?thesis
    using assms saved_usable by (intro exI [of _ f]) (auto simp: save_config_def config_saved_def ictl_ok_def)
qed

lemma is_last_admin_ok:
  assumes "auth_laws (lib E) good" and "good (ic_http s)"
  shows "\<exists>b. is_last_admin E u s = Inr b"
proof -
  from auth_lawsD(5) [OF assms] obtain pp where "httpGetAuthUserList (lib E) (ic_http s) = Some pp" by blast
  then have "\<exists>m. IsMoreThanOneAdmin E s = Inr m"
    by (cases "pp AUTH_ADMIN") (auto simp: IsMoreThanOneAdmin_def split: list.split)
  then show ?thesis by (auto simp: is_last_admin_def split: option.split)
qed

text \<open>The privilege a set operation really gives: the last administrator is not demoted.\<close>

definition given_privilege :: "('h, 'r) ictl_env \<Rightarrow> string \<Rightarrow> int \<Rightarrow> ('h, 'r) ictl_state \<Rightarrow> int" where
  "given_privilege E u v s =
     (if v < AUTH_ADMIN \<and> is_last_admin E u s = Inr True then old_privilege E u s else v)"

lemma ictlSetUser_cases:
  fixes v :: int
  assumes laws: "auth_laws (lib E) good" and good: "good (ic_http s)" and ok: "ictl_ok E s"
    and auth: "\<not> unauthorized AUTH_ADMIN h" and len: "length u \<le> 24" "length pw \<le> 24"
  defines "http \<equiv> snd (httpAuthSetUser (lib E) u pw (given_privilege E u v s) (ic_http s))"
  shows "if card (registered (lib E) http) \<le> MAX_USERSET_ENABLE
     then \<exists>s'. ictlSetUser E h (Some u) (Some pw) v s = Inr (ICTL_OK, s') \<and> ic_http s' = http \<and> config_saved E s'
        \<and> bUserCheck (cfg_user (ic_cfg s')) = bUserCheck (cfg_user (ic_cfg s))
        \<and> (\<forall>n q w. (n, q, w) \<in> set (users_of s') \<longleftrightarrow> is_level w \<and> (\<exists>u pw. httpAuthGetUser (lib E) u http = Some (pw, w)
                \<and> n = httpMyStrncpy (lib E) u 24 \<and> q = httpMyStrncpy (lib E) pw 24))
     else ictlSetUser E h (Some u) (Some pw) v s = Inl OutOfBounds"
proof -
  from is_last_admin_ok [OF laws good] obtain b where b: "is_last_admin E u s = Inr b" by blast
  let ?s1 = "s\<lparr>ic_http := http, ic_rtsp := set_auth_id (lib E) u pw (ic_rtsp s)\<rparr>"
  have run: "ictlSetUser E h (Some u) (Some pw) v s =
      bnd (RebuildConfigParam_Auth E ?s1) (\<lambda>s2. bnd (save_config E s2) (\<lambda>s3. Inr (ICTL_OK, s3)))"
    using auth len by (simp add: ictlSetUser_def b Let_def http_def given_privilege_def)
  have g: "good (ic_http ?s1)"
    using auth_lawsD(1) [OF laws good] by (simp add: http_def)
  note r = rebuild_users [OF laws g]
  show ?thesis
  proof (cases "card (registered (lib E) http) \<le> MAX_USERSET_ENABLE")
    case False
    then show ?thesis using r by (simp add: run)
  next
    case True
    with r obtain tab where
      tab: "RebuildConfigParam_Auth E ?s1 =
            Inr (?s1\<lparr>ic_cfg := (ic_cfg ?s1)\<lparr>cfg_user := (cfg_user (ic_cfg ?s1))\<lparr>user_table := tab\<rparr>\<rparr>\<rparr>)"
      "\<forall>n q w. (n, q, w) \<in> set tab \<longleftrightarrow> is_level w \<and> (\<exists>u pw. httpAuthGetUser (lib E) u http = Some (pw, w)
                \<and> n = httpMyStrncpy (lib E) u 24 \<and> q = httpMyStrncpy (lib E) pw 24)" by auto
    let ?s2 = "?s1\<lparr>ic_cfg := (ic_cfg ?s1)\<lparr>cfg_user := (cfg_user (ic_cfg ?s1))\<lparr>user_table := tab\<rparr>\<rparr>\<rparr>"
    have "ictl_ok E ?s2" using ok by (simp add: ictl_ok_def)
    from save_config_ok [OF this] obtain f where
      f: "save_config E ?s2 = Inr (?s2\<lparr>ic_flash := f\<rparr>)" "config_saved E (?s2\<lparr>ic_flash := f\<rparr>)" by blast
    have "ictlSetUser E h (Some u) (Some pw) v s = Inr (ICTL_OK, ?s2\<lparr>ic_flash := f\<rparr>)"
      unfolding run tab(1) by (simp add: f(1) [simplified])
    then show ?thesis using True f(2) tab(2) by (intro if_P [THEN iffD2] exI [of _ "?s2\<lparr>ic_flash := f\<rparr>"]) simp_all
  qed
qed

subsection \<open>An example library and camera\<close>

type_synonym example_users = "(string \<times> string \<times> int) list \<times> bool"

definition example_set :: "string \<Rightarrow> string \<Rightarrow> int \<Rightarrow> example_users \<Rightarrow> example_users" where
  "example_set u pw v h = ((u, pw, v) # filter (\<lambda>e. fst e \<noteq> u) (fst h), snd h)"

definition example_get :: "string \<Rightarrow> example_users \<Rightarrow> (string \<times> int) option" where
  "example_get u h = map_of (fst h) u"

definition example_list :: "example_users \<Rightarrow> (int \<Rightarrow> user_node list option) option" where
  "example_list h = Some (\<lambda>i. Some (map (\<lambda>(u, pw, v). Some (Some u, Some pw)) (filter (\<lambda>e. snd (snd e) = i) (fst h))))"

definition example_lib :: "(example_users, unit) http_lib" where
  "example_lib =
     \<lparr>httpAuthSetUser = (\<lambda>u pw v h. if is_level v then (0, example_set u pw v h) else (- 1, h)),
      httpAuthDelUser = (\<lambda>u h. (0, filter (\<lambda>e. fst e \<noteq> u) (fst h), snd h)),
      httpAuthGetUser = example_get,
      httpGetAuthUserList = example_list,
      httpEnableUserCheck = (\<lambda>b h. (fst h, b)),
      httpIsEnableUserCheck = snd,
      httpMyStrncpy = (\<lambda>t n. take (n - 1) t),
      set_auth_id = (\<lambda>_ _ r. r), del_auth_id = (\<lambda>_ r. r),
      set_auth_enable = (\<lambda>r. r), set_auth_disable = (\<lambda>r. r)\<rparr>"

lemma example_lib_sel [simp]:
  "httpAuthSetUser example_lib = (\<lambda>u pw v h. if is_level v then (0, example_set u pw v h) else (- 1, h))"
  "httpAuthDelUser example_lib = (\<lambda>u h. (0, filter (\<lambda>e. fst e \<noteq> u) (fst h), snd h))"
  "httpAuthGetUser example_lib = example_get" "httpGetAuthUserList example_lib = example_list"
  "httpEnableUserCheck example_lib = (\<lambda>b h. (fst h, b))" "httpIsEnableUserCheck example_lib = snd"
  "httpMyStrncpy example_lib = (\<lambda>t n. take (n - 1) t)" "set_auth_id example_lib = (\<lambda>_ _ r. r)"
  "del_auth_id example_lib = (\<lambda>_ r. r)"
  by (simp_all add: example_lib_def)

definition example_good :: "example_users \<Rightarrow> bool" where
  "example_good h = (distinct (map fst (fst h)) \<and> (\<forall>e\<in>set (fst h). is_level (snd (snd e))))"

lemma map_of_filter_ne: "map_of (filter (\<lambda>e. fst e \<noteq> u) es) w = (if w = u then None else map_of es w)"
  by (induction es) auto

lemma distinct_filter_fst: "distinct (map fst es) \<Longrightarrow> distinct (map fst (filter P es))"
  by (induction es) (auto simp: image_iff)

lemma example_lists:
  assumes "example_good h" and "example_list h = Some pp"
  shows "lists_users example_lib h pp i"
proof -
  let ?ups = "map (\<lambda>(u, pw, v). (u, pw)) (filter (\<lambda>e. snd (snd e) = i) (fst h))"
  have eq: "map fst ?ups = map fst (filter (\<lambda>e. snd (snd e) = i) (fst h))" by (simp add: case_prod_unfold)
  have "distinct (map fst ?ups)"
    unfolding eq using assms(1) by (intro distinct_filter_fst) (simp add: example_good_def)
  moreover have "(u, pw) \<in> set ?ups \<longleftrightarrow> example_get u h = Some (pw, i)" for u pw
  proof -
    have "(u, pw) \<in> set ?ups \<longleftrightarrow> (u, pw, i) \<in> set (fst h)" by force
    then show ?thesis
      using assms(1) by (simp add: example_get_def example_good_def map_of_eq_Some_iff)
  qed
  moreover have "pp i = Some (map (\<lambda>(u, pw). Some (Some u, Some pw)) ?ups)"
    using assms(2) by (auto simp: example_list_def case_prod_unfold)
  ultimately show ?thesis unfolding lists_users_def by (intro exI [of _ ?ups]) (simp add: example_lib_def)
qed

lemma example_laws: "auth_laws example_lib example_good"
proof -
  have set: "example_good (example_set u pw v h)
      \<and> (\<forall>w. example_get w (example_set u pw v h) = (if w = u then Some (pw, v) else example_get w h))"
    if "example_good h" "is_level v" for u pw v h
    using that distinct_filter_fst [of "fst h"]
    by (auto simp: example_good_def example_set_def example_get_def map_of_filter_ne)
  have del: "example_good (filter (\<lambda>e. fst e \<noteq> u) (fst h), snd h)
      \<and> (\<forall>w. example_get w (filter (\<lambda>e. fst e \<noteq> u) (fst h), snd h) = (if w = u then None else example_get w h))"
    if "example_good h" for u h
    using that distinct_filter_fst [of "fst h"] by (auto simp: example_good_def example_get_def map_of_filter_ne)
  have lst: "\<exists>pp. example_list h = Some pp \<and> (\<forall>v. is_level v \<longrightarrow> lists_users example_lib h pp v)"
    if "example_good h" for h
    using example_lists [OF that] by (auto simp: example_list_def)
  have chk: "example_good (fst h, b) \<and> (\<forall>w. example_get w (fst h, b) = example_get w h)" if "example_good h" for h b
    using that by (simp add: example_good_def example_get_def)
  have cpy: "length (take (n - 1) t) < n \<and> (length t < n \<longrightarrow> take (n - 1) t = t)" if "0 < n" for t :: string and n
    using that by (auto simp: min_def)
  show ?thesis
    unfolding auth_laws_def example_lib_sel
  proof (intro conjI allI impI, goal_cases)
    case (1 h u pw v)
    then show ?case using set [of h v u pw] by simp
  next
    case (2 h u)
    then show ?case using del [of h u] by simp
  next
    case (3 h)
    then show ?case by (rule lst)
  next
    case (4 h b)
    then show ?case using chk by simp
  next
    case (5 h b w)
    then show ?case using chk by simp
  next
    case (6 t n)
    then show ?case using cpy by blast
  next
    case (7 t n)
    then show ?case using cpy by blast
  qed
qed

definition example_config :: config where
  "example_config = (InitDefaultParam (\<lambda>_. 0))\<lparr>
     cfg_user := \<lparr>bUserCheck = True, user_table = [(''admin'', ''pw'', 1)], acAdminName = ''admin'', acAdminPass = ''admin''\<rparr>\<rparr>"

definition example_env :: "(example_users, unit) ictl_env" where
  "example_env = \<lparr>brd = example_board, image_of = (\<lambda>_. replicate 8 0), lib = example_lib\<rparr>"

definition example_state :: "(example_users, unit) ictl_state" where
  "example_state = \<lparr>ic_cfg = example_config, ic_flash = example_cfg,
     ic_http = ([(''bob'', ''pw2'', 0), (''admin'', ''pw'', 1)], True), ic_rtsp = (), ic_log = example_log,
     ucUserCheck = 1, ic_ucEmail = 0, g_lTimeDelay1970_InSec = 1199145600, g_lTimeDelayZone_InSec = - 28800, overlay_time = 0,
     sent_msgs = [], rmutex_depth = 0, reboot = NoReboot\<rparr>"

lemma example_env_sel [simp]: "lib example_env = example_lib" "brd example_env = example_board"
  "image_of example_env c = replicate 8 0"
  by (simp_all add: example_env_def)

lemma example_ictl_ok [simp]: "ictl_ok example_env example_state"
  by (simp add: ictl_ok_def example_state_def usable_def) (simp add: example_board_def)

lemma example_state_http [simp]: "ic_http example_state = ([(''bob'', ''pw2'', 0), (''admin'', ''pw'', 1)], True)"
  "ic_cfg example_state = example_config"
  by (simp_all add: example_state_def)

lemma example_state_good [simp]: "example_good ([(''bob'', ''pw2'', 0), (''admin'', ''pw'', 1)], True)"
  by (simp add: example_good_def is_level_def auth_defs)

definition admin_handle :: "ictl_handle option" where
  "admin_handle = Some \<lparr>Username = ''admin'', Passwd = ''pw'', Privilege = 1\<rparr>"

text \<open>
  C13. The camera can never be left without an administrator: after any sequence of user operations and requests, by
  callers of any privilege and with any privilege asked for, whether the library succeeds or fails, there still is a user of that
  privilege or a higher one if there was one, as long as no operation writes past the table of users.
\<close>

theorem last_admin_kept:
  assumes "auth_laws (lib E) good" and "(user_step E)\<^sup>*\<^sup>* s s'" and "good (ic_http s)" and "has_admin E s"
  shows "has_admin E s'"
proof -
  from assms(2) have "good (ic_http s') \<and> has_admin E s'"
  proof (induction rule: rtranclp_induct)
    case (step t s')
    then show ?case using user_step_admin [OF assms(1) step(2)] by blast
  qed (use assms(3,4) in simp)
  then show ?thesis ..
qed

theorem last_admin_kept_witness:
  "\<exists>s'. Config_DelUser example_env
      \<lparr>rq_conn = example_client, rq_handle = the admin_handle, rq_current_user = ''admin'', rq_User = Some ''admin'',
       rq_Pass = None, rq_Privilege = None, rq_Check = False, rq_ShowPrivilege = False\<rparr> CA_CONFIG 0 example_state = Inr (0, s')
    \<and> has_admin example_env s'"
proof -
  let ?rq = "\<lparr>rq_conn = example_client, rq_handle = the admin_handle, rq_current_user = ''admin'', rq_User = Some ''admin'',
       rq_Pass = None, rq_Privilege = None, rq_Check = False, rq_ShowPrivilege = False\<rparr>"
  obtain s' where s': "Config_DelUser example_env ?rq CA_CONFIG 0 example_state = Inr (0, s')"
    by (simp add: Config_DelUser_def self_handle_def ictlDelUser_def unauthorized_def is_last_admin_def example_get_def
        IsMoreThanOneAdmin_def example_list_def auth_defs)
  have "has_admin example_env example_state" by (auto simp: has_admin_def example_get_def auth_defs intro!: exI [of _ "''admin''"])
  with last_admin_kept [OF _ r_into_rtranclp [of "user_step example_env", OF user_step.http_del_user [OF s']], of example_good]
    example_laws s' show ?thesis by auto
qed

lemma find_user_Some: "find_user u pw tab = Some v \<Longrightarrow> (u, pw, v) \<in> set tab"
  by (induction u pw tab rule: find_user.induct) (auto split: if_splits)

lemma find_user_None: "find_user u pw tab = None \<longleftrightarrow> (\<forall>v. (u, pw, v) \<notin> set tab)"
  by (induction u pw tab rule: find_user.induct) auto

text \<open>How names and passwords are stored: cut to what the table has room for.\<close>

abbreviation stored_name :: "('h, 'r) ictl_env \<Rightarrow> string \<Rightarrow> string" where
  "stored_name E t \<equiv> httpMyStrncpy (lib E) t 24"

text \<open>What a login with a pair gets, by the users of the library.\<close>

definition login_result :: "('h, 'r) ictl_env \<Rightarrow> ictl_handle \<Rightarrow> string \<Rightarrow> string \<Rightarrow> ('h, 'r) ictl_state \<Rightarrow> int \<times> ictl_handle option" where
  "login_result E h0 u p s =
     (case httpAuthGetUser (lib E) u (ic_http s) of
        None \<Rightarrow> (ICTL_UNAUTHORIZED, Some h0)
      | Some (q, x) \<Rightarrow> if is_level x \<and> stored_name E u = u \<and> stored_name E q = p
                      then (ICTL_OK, Some \<lparr>Username = u, Passwd = p, Privilege = x\<rparr>) else (ICTL_UNAUTHORIZED, Some h0))"

lemma ictlAuthUser_login:
  assumes laws: "auth_laws (lib E) good" and good: "good (ic_http s)" and chk: "bUserCheck (cfg_user (ic_cfg s))"
    and tab: "\<forall>n q w. (n, q, w) \<in> set (users_of s) \<longleftrightarrow> is_level w \<and> (\<exists>u pw. httpAuthGetUser (lib E) u (ic_http s) = Some (pw, w)
                \<and> n = stored_name E u \<and> q = stored_name E pw)"
    and alone: "\<forall>w p x. w \<noteq> u \<and> httpAuthGetUser (lib E) w (ic_http s) = Some (p, x) \<longrightarrow> stored_name E w \<noteq> u"
    and len: "length u \<le> 24" "length p \<le> 24"
  shows "ictlAuthUser (Some h0) (Some u) (Some p) s = Inr (login_result E h0 u p s)"
proof -
  have mem: "(u, p, x) \<in> set (users_of s) \<longleftrightarrow> is_level x \<and> stored_name E u = u
      \<and> (\<exists>q. httpAuthGetUser (lib E) u (ic_http s) = Some (q, x) \<and> stored_name E q = p)" for x
  proof -
    have "(\<exists>w q. httpAuthGetUser (lib E) w (ic_http s) = Some (q, x) \<and> u = stored_name E w \<and> p = stored_name E q)
        \<longleftrightarrow> stored_name E u = u \<and> (\<exists>q. httpAuthGetUser (lib E) u (ic_http s) = Some (q, x) \<and> stored_name E q = p)"
    proof
      assume "\<exists>w q. httpAuthGetUser (lib E) w (ic_http s) = Some (q, x) \<and> u = stored_name E w \<and> p = stored_name E q"
      then obtain w q where w: "httpAuthGetUser (lib E) w (ic_http s) = Some (q, x)" "u = stored_name E w" "p = stored_name E q" by blast
      then have "w = u" using alone by blast
      with w show "stored_name E u = u \<and> (\<exists>q. httpAuthGetUser (lib E) u (ic_http s) = Some (q, x) \<and> stored_name E q = p)" by metis
    qed metis
    then show ?thesis by (simp only: tab [THEN spec, THEN spec, THEN spec, of u p x])
  qed
  note cut = auth_lawsD(9) [OF laws good, of 24]
  show ?thesis
  proof (cases "find_user u p (users_of s)")
    case None
    then have "login_result E h0 u p s = (ICTL_UNAUTHORIZED, Some h0)"
      using mem by (auto simp: find_user_None login_result_def split: option.split)
    then show ?thesis using None chk len by (simp add: ictlAuthUser_def)
  next
    case (Some x)
    then have m: "is_level x" "stored_name E u = u" "\<exists>q. httpAuthGetUser (lib E) u (ic_http s) = Some (q, x) \<and> stored_name E q = p"
      using find_user_Some [OF Some] mem by simp_all
    then have "length u < 24" "length p < 24" using cut [of u] cut by auto
    moreover have "login_result E h0 u p s = (ICTL_OK, Some \<lparr>Username = u, Passwd = p, Privilege = x\<rparr>)"
      using m by (auto simp: login_result_def)
    ultimately show ?thesis using Some chk len by (simp add: ictlAuthUser_def strcpy24_def)
  qed
qed

text \<open>
  C14. Setting a user and logging in. For a name and a password the operation accepts (up to 24 characters) it answers \<open>ICTL_OK\<close> and the
  configuration is saved. If the library has accepted the user, with one of its privileges, and both are shorter than 24, the user can
  log in with exactly that password, with the privilege given; with a name or a password of 24 characters the login is refused all
  the same. If the library has failed, its users are as before. In every case a login succeeds exactly for a user of the library whose
  stored name and password these are. (No other user has a name that is cut to this one.)
\<close>

theorem set_user_then_auth:
  assumes "auth_laws (lib E) good" and "good (ic_http s)" and "ictl_ok E s" and "\<not> unauthorized AUTH_ADMIN h"
    and "length u \<le> 24" and "length pw \<le> 24" and "bUserCheck (cfg_user (ic_cfg s))"
    and "\<forall>w p x. w \<noteq> u \<and> httpAuthGetUser (lib E) w (ic_http s) = Some (p, x) \<longrightarrow> stored_name E w \<noteq> u"
    and "httpAuthSetUser (lib E) u pw (given_privilege E u v s) (ic_http s) = (rc, http)" and "card (registered (lib E) http) \<le> 30"
  shows "\<exists>s'. ictlSetUser E h (Some u) (Some pw) v s = Inr (ICTL_OK, s') \<and> config_saved E s' \<and> ic_http s' = http
     \<and> (rc = 0 \<and> is_level (given_privilege E u v s) \<and> length u < 24 \<and> length pw < 24 \<longrightarrow>
          (\<forall>p. length p \<le> 24 \<longrightarrow> ictlAuthUser (Some h0) (Some u) (Some p) s' = Inr (if p = pw
             then (ICTL_OK, Some \<lparr>Username = u, Passwd = pw, Privilege = given_privilege E u v s\<rparr>) else (ICTL_UNAUTHORIZED, Some h0))))
     \<and> (length u = 24 \<or> length pw = 24 \<longrightarrow> ictlAuthUser (Some h0) (Some u) (Some pw) s' = Inr (ICTL_UNAUTHORIZED, Some h0))
     \<and> (rc \<noteq> 0 \<longrightarrow> (\<forall>w. httpAuthGetUser (lib E) w http = httpAuthGetUser (lib E) w (ic_http s)))
     \<and> (\<forall>p. length p \<le> 24 \<longrightarrow> ictlAuthUser (Some h0) (Some u) (Some p) s' = Inr (login_result E h0 u p s'))"
proof -
  let ?v = "given_privilege E u v s"
  have http: "http = snd (httpAuthSetUser (lib E) u pw ?v (ic_http s))" "rc = fst (httpAuthSetUser (lib E) u pw ?v (ic_http s))"
    using assms(9) by simp_all
  have get: "httpAuthGetUser (lib E) w http = (if rc = 0 \<and> w = u then Some (pw, ?v) else httpAuthGetUser (lib E) w (ic_http s))" for w
    unfolding http by (rule auth_lawsD(2) [OF assms(1,2)])
  have good: "good http" unfolding http by (rule auth_lawsD(1) [OF assms(1,2)])
  from ictlSetUser_cases [OF assms(1-6), of v, folded http(1)] assms(10) obtain s' where
    s': "ictlSetUser E h (Some u) (Some pw) v s = Inr (ICTL_OK, s')" "ic_http s' = http" "config_saved E s'" "bUserCheck (cfg_user (ic_cfg s'))"
    and tab: "\<forall>n q w. (n, q, w) \<in> set (users_of s') \<longleftrightarrow> is_level w \<and> (\<exists>u pw. httpAuthGetUser (lib E) u (ic_http s') = Some (pw, w)
                \<and> n = stored_name E u \<and> q = stored_name E pw)"
    using assms(7) by (auto simp: MAX_USERSET_ENABLE_def)
  have "\<forall>w p x. w \<noteq> u \<and> httpAuthGetUser (lib E) w (ic_http s') = Some (p, x) \<longrightarrow> stored_name E w \<noteq> u"
    using assms(8) by (simp add: s'(2) get)
  from ictlAuthUser_login [OF assms(1) _ s'(4) tab this assms(5)] have login:
    "ictlAuthUser (Some h0) (Some u) (Some p) s' = Inr (login_result E h0 u p s')" if "length p \<le> 24" for p
    using that good s'(2) by simp
  note cut = auth_lawsD(9) [OF assms(1,2), of 24] and keep = auth_lawsD(6) [OF assms(1,2), of _ 24]
  have "login_result E h0 u p s' = (if p = pw then (ICTL_OK, Some \<lparr>Username = u, Passwd = pw, Privilege = ?v\<rparr>) else (ICTL_UNAUTHORIZED, Some h0))"
    if "rc = 0" "is_level ?v" "length u < 24" "length pw < 24" for p
    using that by (simp add: login_result_def s'(2) get keep)
  moreover have "login_result E h0 u pw s' = (ICTL_UNAUTHORIZED, Some h0)" if "length u = 24 \<or> length pw = 24"
  proof -
    have "\<not> (stored_name E u = u \<and> stored_name E q = pw)" for q using cut [of u] cut [of q] that by auto
    then show ?thesis by (auto simp: login_result_def split: option.split)
  qed
  ultimately show ?thesis using s'(1-3) login get assms(6) by (intro exI [of _ s']) auto
qed

theorem set_user_then_auth_witness:
  "\<exists>s'. ictlSetUser example_env admin_handle (Some ''eve'') (Some ''x'') 0 example_state = Inr (ICTL_OK, s')
     \<and> ictlAuthUser admin_handle (Some ''eve'') (Some ''x'') s' =
         Inr (ICTL_OK, Some \<lparr>Username = ''eve'', Passwd = ''x'', Privilege = 0\<rparr>)
     \<and> ictlAuthUser admin_handle (Some ''eve'') (Some ''y'') s' = Inr (ICTL_UNAUTHORIZED, admin_handle)"
proof -
  have g: "given_privilege example_env ''eve'' 0 example_state = 0"
    by (simp add: given_privilege_def is_last_admin_def example_get_def)
  have lv: "is_level 0" by (simp add: is_level_def AUTH_USER_def)
  let ?h = "example_set ''eve'' ''x'' 0 (ic_http example_state)"
  have "registered example_lib ?h = {''eve'', ''bob'', ''admin''}"
    by (auto simp: registered_def example_get_def example_set_def is_level_def auth_defs split: if_splits)
  then have c: "card (registered (lib example_env) ?h) \<le> 30" by simp
  have set: "httpAuthSetUser (lib example_env) ''eve'' ''x'' (given_privilege example_env ''eve'' 0 example_state) (ic_http example_state)
      = (0, ?h)" by (simp add: g lv)
  have "\<not> unauthorized AUTH_ADMIN admin_handle" by (simp add: unauthorized_def admin_handle_def AUTH_ADMIN_def)
  moreover have "bUserCheck (cfg_user (ic_cfg example_state))" by (simp add: example_config_def)
  moreover have "\<forall>w p x. w \<noteq> ''eve'' \<and> httpAuthGetUser (lib example_env) w (ic_http example_state) = Some (p, x)
      \<longrightarrow> stored_name example_env w \<noteq> ''eve''"
    by (auto simp: example_get_def split: if_splits)
  ultimately obtain s' where s':
    "ictlSetUser example_env admin_handle (Some ''eve'') (Some ''x'') 0 example_state = Inr (ICTL_OK, s')"
    "\<forall>p. length p \<le> 24 \<longrightarrow> ictlAuthUser (Some (the admin_handle)) (Some ''eve'') (Some p) s' = Inr (if p = ''x''
       then (ICTL_OK, Some \<lparr>Username = ''eve'', Passwd = ''x'', Privilege = 0\<rparr>) else (ICTL_UNAUTHORIZED, Some (the admin_handle)))"
    using set_user_then_auth [of example_env example_good example_state admin_handle "''eve''" "''x''" 0 0 ?h "the admin_handle", OF _ _ _ _ _ _ _ _ set c]
      example_laws lv unfolding g by auto
  have a: "Some (the admin_handle) = admin_handle" by (simp add: admin_handle_def)
  show ?thesis
    using s'(1) s'(2) [rule_format, of "''x''"] s'(2) [rule_format, of "''y''"] unfolding a by (intro exI [of _ s']) simp
qed

text \<open>A password of 24 characters cannot be used, its first 23 characters can.\<close>

lemma long_password_cut:
  assumes "httpAuthGetUser (lib E) u (ic_http s) = Some (pw, x)" and "is_level x" and "stored_name E u = u"
  shows "fst (login_result E h0 u (stored_name E pw) s) = ICTL_OK"
  using assms by (simp add: login_result_def)

text \<open>
  C37. The user table has 30 entries and no operation checks for room: setting a user writes past the end of the configuration's arrays
  exactly when the library then has more than 30 users with a privilege.
\<close>

theorem user_table_overflow:
  assumes "auth_laws (lib E) good" and "good (ic_http s)" and "ictl_ok E s" and "\<not> unauthorized AUTH_ADMIN h"
    and "length u \<le> 24" and "length pw \<le> 24"
  shows "ictlSetUser E h (Some u) (Some pw) v s = Inl OutOfBounds
     \<longleftrightarrow> 30 < card (registered (lib E) (snd (httpAuthSetUser (lib E) u pw (given_privilege E u v s) (ic_http s))))"
  using ictlSetUser_cases [OF assms, of v] by (auto simp: MAX_USERSET_ENABLE_def not_le split: if_splits)

definition crowded :: "example_users" where
  "crowded = (map (\<lambda>n. (replicate n CHR ''u'', ''pw'', 1)) [0 ..< 30], True)"

lemma crowded_good: "example_good crowded"
  by (auto simp: example_good_def crowded_def is_level_def auth_defs distinct_map inj_on_def)

theorem user_table_overflow_witness:
  "ictlSetUser example_env admin_handle (Some ''eve'') (Some ''x'') 1 (example_state\<lparr>ic_http := crowded\<rparr>) = Inl OutOfBounds"
proof -
  let ?s = "example_state\<lparr>ic_http := crowded\<rparr>"
  have g: "given_privilege example_env ''eve'' 1 ?s = 1" by (simp add: given_privilege_def AUTH_ADMIN_def)
  let ?h = "example_set ''eve'' ''x'' 1 crowded"
  have "CHR ''e'' \<notin> set n" if "n \<in> set (map fst (fst crowded))" for n using that by (auto simp: crowded_def)
  then have eve: "''eve'' \<notin> set (map fst (fst crowded))" by fastforce
  from eve have h: "fst ?h = (''eve'', ''x'', 1) # fst crowded"
    by (auto simp: example_set_def filter_id_conv image_iff)
  have gh: "example_good ?h" using crowded_good eve by (simp add: h example_good_def is_level_def AUTH_ADMIN_def)
  have reg: "registered example_lib k = set (map fst (fst k))" if "example_good k" for k :: example_users
  proof -
    have "u \<in> registered example_lib k \<longleftrightarrow> map_of (fst k) u \<noteq> None" for u
    proof (cases "map_of (fst k) u")
      case (Some y)
      then have "is_level (snd y)" using map_of_SomeD [OF Some] that by (auto simp: example_good_def)
      with Some show ?thesis by (cases y) (simp add: registered_def example_get_def)
    qed (simp add: registered_def example_get_def)
    then show ?thesis by (simp only: set_eq_iff map_of_eq_None_iff list.set_map simp_thms)
  qed
  have "distinct (map fst (fst ?h))" using gh by (simp add: example_good_def)
  then have "card (registered example_lib ?h) = length (fst ?h)" unfolding reg [OF gh] using distinct_card by fastforce
  also have "\<dots> = 31" unfolding h by (simp add: crowded_def)
  finally have "30 < card (registered example_lib ?h)" by simp
  moreover have "ictl_ok example_env ?s" using example_ictl_ok by (simp add: ictl_ok_def)
  moreover have "\<not> unauthorized AUTH_ADMIN admin_handle" by (simp add: unauthorized_def admin_handle_def AUTH_ADMIN_def)
  moreover have "is_level 1" by (simp add: is_level_def AUTH_ADMIN_def)
  ultimately show ?thesis
    using user_table_overflow [of example_env example_good ?s admin_handle "''eve''" "''x''" 1] example_laws crowded_good g by simp
qed

text \<open>
  Any user can make himself an administrator: a request to set his own entry needs only the privilege of a
  user, and the privilege it asks for is then granted.
\<close>

theorem user_promotes_himself:
  assumes "auth_laws (lib E) good" and "good (ic_http s)" and "ictl_ok E s"
    and "rq_User rq = Some (rq_current_user rq)" and "rq_Pass rq = Some pw" and "rq_Privilege rq = Some AUTH_ADMIN"
    and "length (rq_current_user rq) < 24" and "length pw < 24"
    and "card (registered (lib E) (snd (httpAuthSetUser (lib E) (rq_current_user rq) pw AUTH_ADMIN (ic_http s)))) \<le> 30"
    and "fst (httpAuthSetUser (lib E) (rq_current_user rq) pw AUTH_ADMIN (ic_http s)) = 0"
  shows "Config_SetUser E rq CA_AUTH now s = Inr (AUTH_USER, s)
     \<and> (\<exists>s'. Config_SetUser E rq CA_CONFIG now s = Inr (0, s')
          \<and> httpAuthGetUser (lib E) (rq_current_user rq) (ic_http s') = Some (pw, AUTH_ADMIN))"
proof -
  let ?u = "rq_current_user rq"
  have g: "given_privilege E ?u AUTH_ADMIN s = AUTH_ADMIN" by (simp add: given_privilege_def)
  have "\<not> unauthorized AUTH_ADMIN (Some (self_handle rq ?u))" by (simp add: unauthorized_def self_handle_def)
  from ictlSetUser_cases [OF assms(1-3) this, of ?u pw AUTH_ADMIN] assms(7-9) obtain s' where
    s': "ictlSetUser E (Some (self_handle rq ?u)) (Some ?u) (Some pw) AUTH_ADMIN s = Inr (ICTL_OK, s')"
    "ic_http s' = snd (httpAuthSetUser (lib E) ?u pw AUTH_ADMIN (ic_http s))"
    by (auto simp: g MAX_USERSET_ENABLE_def)
  have "httpAuthGetUser (lib E) ?u (ic_http s') = Some (pw, AUTH_ADMIN)"
    using auth_lawsD(2) [OF assms(1,2), of ?u ?u pw AUTH_ADMIN] assms(10) by (simp add: s'(2))
  with s'(1) show ?thesis
    using assms(4-8) by (simp add: Config_SetUser_def own_entry_auth_def call_SetUser_def requested_privilege_def)
qed

definition bob_request :: request where
  "bob_request = \<lparr>rq_conn = example_client, rq_handle = \<lparr>Username = ''bob'', Passwd = ''pw2'', Privilege = 0\<rparr>,
     rq_current_user = ''bob'', rq_User = Some ''bob'', rq_Pass = Some ''pw2'', rq_Privilege = Some 1,
     rq_Check = False, rq_ShowPrivilege = False\<rparr>"

theorem user_promotes_himself_witness:
  "\<exists>s'. Config_SetUser example_env bob_request CA_CONFIG 0 example_state = Inr (0, s')
     \<and> example_get ''bob'' (ic_http s') = Some (''pw2'', 1)"
proof -
  have "registered example_lib (example_set ''bob'' ''pw2'' 1 (ic_http example_state)) = {''bob'', ''admin''}"
    by (auto simp: registered_def example_get_def example_set_def is_level_def auth_defs split: if_splits)
  then have "card (registered example_lib (example_set ''bob'' ''pw2'' 1 (ic_http example_state))) \<le> 30" by simp
  then show ?thesis
    using user_promotes_himself [of example_env example_good example_state bob_request "''pw2''" 0] example_laws
    by (simp add: bob_request_def AUTH_ADMIN_def is_level_def)
qed

text \<open>
  A request to set a user that is not carried out, because a parameter is missing or too long, is logged as if
  it had been: the flag it tests starts as \<open>FALSE\<close>, which is \<open>ICTL_OK\<close>.
\<close>

theorem failed_set_user_is_logged:
  assumes "\<not> (\<exists>u pw. rq_User rq = Some u \<and> rq_Pass rq = Some pw \<and> length u < 24 \<and> length pw < 24)"
  shows "Config_SetUser E rq CA_CONFIG now s = Inr (0, log_event CL_SET_USER (rq_User rq) rq now s)"
  using assms
  by (auto simp: Config_SetUser_def call_SetUser_def ICTL_OK_def split: option.split)

theorem failed_set_user_is_logged_witness:
  "Config_SetUser example_env (bob_request\<lparr>rq_Pass := None\<rparr>) CA_CONFIG 0 example_state
     = Inr (0, log_event CL_SET_USER (Some ''bob'') (bob_request\<lparr>rq_Pass := None\<rparr>) 0 example_state)"
  using failed_set_user_is_logged [of "bob_request\<lparr>rq_Pass := None\<rparr>" example_env 0 example_state]
  by (simp add: bob_request_def)

end
