(* ===== verification/Dispatch.thy ===== *)
theory Dispatch
  imports Rovio_Prelude
begin

section \<open>Command dispatch and replies (LibCamera/Src/Register.c)\<close>

text \<open>
  The web interface runs commands: one per URL (\<open>Http_SubCmdRun\<close>) or several in one request (\<open>Http_CommonCmdRun\<close>),
  each a handler registered under a name. A handler is called with \<open>CA_AUTH\<close> to ask for the privilege it needs and
  with \<open>CA_CONFIG\<close> to run; what it answers is collected in a tree that is printed as text, script or XML.

  The HTTP library (binary only) is the parameter \<open>text_lib\<close>: parsing of parameters, splitting at a separator,
  quoting and number conversion. Allocation failures are not modelled.
\<close>

type_synonym params = "(string \<times> string) list"

record text_lib =
  httpParseString :: "string \<Rightarrow> params"
  httpSplitBuffer :: "string \<Rightarrow> string \<Rightarrow> string list"
  httpGetCStyleString :: "string \<Rightarrow> string option"
  httpString2Bool :: "string \<Rightarrow> bool"
  httpString2Long :: "string \<Rightarrow> u32"
  httpLong2String :: "u32 \<Rightarrow> string"

definition httpGetString :: "params \<Rightarrow> string \<Rightarrow> string" where
  "httpGetString ps n = (case map_of ps n of None \<Rightarrow> [] | Some v \<Rightarrow> v)"

definition httpIsExistParam :: "params \<Rightarrow> string \<Rightarrow> bool" where
  "httpIsExistParam ps n = (map_of ps n \<noteq> None)"

definition httpGetBool :: "text_lib \<Rightarrow> params \<Rightarrow> string \<Rightarrow> bool" where
  "httpGetBool T ps n = (case map_of ps n of None \<Rightarrow> False | Some v \<Rightarrow> httpString2Bool T v)"

definition httpGetLong :: "text_lib \<Rightarrow> params \<Rightarrow> string \<Rightarrow> u32" where
  "httpGetLong T ps n = (case map_of ps n of None \<Rightarrow> 0 | Some v \<Rightarrow> httpString2Long T v)"

subsection \<open>The reply tree\<close>

datatype xml = XmlText string | XmlElem string params "xml list"

fun xml_name :: "xml \<Rightarrow> string" where
  "xml_name (XmlText t) = t"
| "xml_name (XmlElem n _ _) = n"

fun xml_attr :: "xml \<Rightarrow> string \<Rightarrow> string" where
  "xml_attr (XmlText _) a = []"
| "xml_attr (XmlElem _ as _) a = httpGetString as a"

fun add_sub :: "xml \<Rightarrow> xml \<Rightarrow> xml" where
  "add_sub (XmlText t) x = XmlText t"
| "add_sub (XmlElem n as xs) x = XmlElem n as (xs @ [x])"

text \<open>
  \<open>AppendXMLArray\<close>: the first element of a name stands alone, the second turns both into an array at the end of the
  list, later ones join the array.
\<close>

fun append_array :: "string \<Rightarrow> xml \<Rightarrow> xml list \<Rightarrow> xml list" where
  "append_array n new [] = [new]"
| "append_array n new (x # xs) =
     (if xml_attr x ''Array'' = n then add_sub x new # xs
      else if xml_name x = n then xs @ [XmlElem ''Array'' [(''Array'', n)] [x, new]]
      else x # append_array n new xs)"

text \<open>\<open>AddHttpValue\<close> for every value a handler answers, in order.\<close>

fun AddHttpValues :: "params \<Rightarrow> xml list \<Rightarrow> xml list" where
  "AddHttpValues [] xs = xs"
| "AddHttpValues ((n, v) # ps) xs = AddHttpValues ps (append_array n (XmlElem n [] [XmlText v]) xs)"

definition ReturnTypeBegin :: "params \<Rightarrow> string \<times> string" where
  "ReturnTypeBegin q =
     (if httpGetString q ''JsVar'' \<noteq> [] then (''JsVar'', httpGetString q ''JsVar'')
      else if httpGetString q ''JsObj'' \<noteq> [] then (''JsObj'', httpGetString q ''JsObj'')
      else if httpGetString q ''XML'' \<noteq> [] then (''XML'', httpGetString q ''XML'')
      else (''Txt'', []))"

subsection \<open>Printing the reply\<close>

text \<open>The newline characters the two output forms use: an escaped one inside a script string, a real one otherwise.\<close>

definition newline :: "bool \<Rightarrow> string" where
  "newline bJS = (if bJS then [CHR 0x5C, CHR ''n''] else [CHR 0x0A])"

definition quoted :: "text_lib \<Rightarrow> bool \<Rightarrow> string \<Rightarrow> string" where
  "quoted T bJS t = (if bJS then (case httpGetCStyleString T t of None \<Rightarrow> [] | Some q \<Rightarrow> q) else t)"

fun DumpJsVar :: "text_lib \<Rightarrow> bool \<Rightarrow> bool \<Rightarrow> string \<Rightarrow> xml \<Rightarrow> string" where
  "DumpJsVar T bJS bCmdParent parent (XmlText t) =
     (if bCmdParent then [] else quoted T bJS parent @ '' = '')
     @ quoted T bJS t @ (if bCmdParent then [] else newline bJS)"
| "DumpJsVar T bJS bCmdParent parent (XmlElem n as xs) =
     (let bCmd = httpGetBool T as ''Cmd''
      in (if bCmd then ''Cmd = '' @ n @ newline bJS else [])
         @ concat (map (\<lambda>x. DumpJsVar T bJS bCmd n x) xs))"

definition is_ident_start :: "char \<Rightarrow> bool" where
  "is_ident_start c = (let k = of_char c :: nat in 97 \<le> k \<and> k \<le> 122 \<or> 65 \<le> k \<and> k \<le> 90 \<or> k = 95)"

definition is_ident_char :: "char \<Rightarrow> bool" where
  "is_ident_char c = (is_ident_start c \<or> (let k = of_char c :: nat in 48 \<le> k \<and> k \<le> 57))"

definition GetCleanVariableName :: "string \<Rightarrow> string option" where
  "GetCleanVariableName t =
     (case t of [] \<Rightarrow> None
      | c # cs \<Rightarrow> Some (takeWhile is_ident_char ((if is_ident_start c then c else CHR ''V'') # cs)))"

definition HTN :: "nat \<Rightarrow> string" where
  "HTN n = replicate n (CHR 0x09)"

definition lf :: string where
  "lf = [CHR 0x0A]"

definition or_else :: "string option \<Rightarrow> string \<Rightarrow> string" where
  "or_else p d = (case p of None \<Rightarrow> d | Some t \<Rightarrow> t)"

text \<open>
  \<open>DumpJsObj\<close> of a node that is, or is not, the last of its siblings. An element with attributes and a non-empty
  \<open>Array\<close> attribute is an array; any other is a structure, its braces present when a child has children.
\<close>

fun is_elem :: "xml \<Rightarrow> bool" where
  "is_elem (XmlText _) = False"
| "is_elem (XmlElem _ _ _) = True"

fun DumpJsObj :: "text_lib \<Rightarrow> nat \<Rightarrow> bool \<Rightarrow> bool \<Rightarrow> xml \<Rightarrow> string"
  and DumpJsObjs :: "text_lib \<Rightarrow> nat \<Rightarrow> bool \<Rightarrow> xml list \<Rightarrow> string" where
  "DumpJsObj T iTabs bInArray is_last (XmlText t) =
     HTN iTabs @ [CHR 0x22] @ or_else (httpGetCStyleString T t) [] @ [CHR 0x22]"
| "DumpJsObj T iTabs bInArray is_last (XmlElem n as xs) =
     (if as \<noteq> [] \<and> httpGetString as ''Array'' \<noteq> []
      then HTN iTabs @ or_else (GetCleanVariableName (httpGetString as ''Array'')) ''VName'' @ '' :'' @ lf
           @ HTN iTabs @ ''['' @ lf
           @ DumpJsObjs T (iTabs + 1) True xs
           @ HTN iTabs @ (if is_last then '']'' else ''],'') @ lf
      else let bStruct = (\<exists>x\<in>set xs. is_elem x)
           in (if bInArray then [] else HTN iTabs @ or_else (GetCleanVariableName n) n @ '':'' @ lf)
              @ (if bStruct then HTN iTabs @ ''{'' @ lf else [])
              @ DumpJsObjs T (iTabs + 1) False xs
              @ (if bStruct then HTN iTabs @ (if is_last then ''}'' else ''},'') @ lf
                 else (if is_last then lf else '','' @ lf)))"
| "DumpJsObjs T iTabs bInArray [] = []"
| "DumpJsObjs T iTabs bInArray (x # xs) =
     DumpJsObj T iTabs bInArray (xs = []) x @ DumpJsObjs T iTabs bInArray xs"

text \<open>The body and the MIME type of the answer; \<open>q\<close> are the parameters of the whole request.\<close>

definition on_js :: "params \<Rightarrow> string" where
  "on_js q = (if httpGetString q ''OnJs'' \<noteq> [] then httpGetString q ''OnJs'' @ ''(this);'' @ lf else [])"

definition ReturnTypeEnd :: "text_lib \<Rightarrow> (string \<Rightarrow> string \<Rightarrow> xml list \<Rightarrow> string) \<Rightarrow> params \<Rightarrow> string \<times> string \<Rightarrow> xml list
     \<Rightarrow> string \<times> string" where
  "ReturnTypeEnd T httpDumpXML q rt xs =
     (case rt of (ty, nm) \<Rightarrow>
        if ty = ''Txt'' then (''text/plain'', concat (map (DumpJsVar T False False ty) xs))
        else if ty = ''JsVar'' then
          (''text/plain'', nm @ [CHR ''='', CHR 0x22] @ concat (map (DumpJsVar T True True ty) xs)
             @ [CHR 0x22, CHR '';''] @ lf @ on_js q)
        else if ty = ''JsObj'' then
          (''text/plain'', nm @ ''='' @ lf @ ''{'' @ lf @ DumpJsObjs T 1 False xs @ ''};'' @ lf @ on_js q)
        else (''text/xml'', httpDumpXML ty nm xs))"

subsection \<open>Running commands\<close>

text \<open>
  A handler gets the parameters, the action and the state; it answers a code, the values it added to the reply
  and the new state.
\<close>

type_synonym 's handler = "params \<Rightarrow> ca_action \<Rightarrow> 's \<Rightarrow> (int \<times> params \<times> 's) checked"

datatype response = AuthRequired int | Reply string string | Redirect string

record 's web_server =
  wtext :: text_lib
  whttpDumpXML :: "string \<Rightarrow> string \<Rightarrow> xml list \<Rightarrow> string"
  registered_cmd :: "string \<Rightarrow> 's handler option"

text \<open>\<open>sprintf(acExtraHeader, "Location: %s\r\n", pcUrl)\<close> into a buffer of 256 characters.\<close>

definition Http_SendRedirectRequest :: "params \<Rightarrow> response option checked" where
  "Http_SendRedirectRequest q =
     (let pcUrl = httpGetString q ''RedirectUrl''
      in if pcUrl = [] then Inr None
         else if length (''Location: '' @ pcUrl) + 2 + 1 > 256 then Inl OutOfBounds
         else Inr (Some (Redirect pcUrl)))"

definition Http_SubCmdRun ::
  "'s web_server \<Rightarrow> 's handler \<Rightarrow> int \<Rightarrow> string \<Rightarrow> 's \<Rightarrow> (int \<times> response \<times> 's) checked" where
  "Http_SubCmdRun S funConfig iPrivilege pcCmdParam s =
     (let pList = httpParseString (wtext S) pcCmdParam
      in bnd (funConfig pList CA_AUTH s) (\<lambda>(iAuthRequired, _, s1).
           if iPrivilege < iAuthRequired then Inr (0, AuthRequired iAuthRequired, s1)
           else let rt = ReturnTypeBegin pList
                in bnd (funConfig pList CA_CONFIG s1) (\<lambda>(r, vals, s2).
                   let answer = case_prod Reply
                         (ReturnTypeEnd (wtext S) (whttpDumpXML S) pList rt (AddHttpValues vals []))
                   in bnd (Http_SendRedirectRequest pList) (\<lambda>red.
                        Inr (r, (case red of None \<Rightarrow> answer | Some d \<Rightarrow> d), s2)))))"

text \<open>The commands of a request: the text is cut at \<open>&Cmd=\<close>, and every piece but the first gets its \<open>Cmd=\<close> back.\<close>

definition sub_commands :: "text_lib \<Rightarrow> string \<Rightarrow> params list" where
  "sub_commands T pcCmdParam =
     (case httpSplitBuffer T pcCmdParam ''&Cmd='' of [] \<Rightarrow> []
      | seg # segs \<Rightarrow> httpParseString T seg # map (\<lambda>p. httpParseString T (''Cmd='' @ p)) segs)"

definition CreateSubCmdRunStruct :: "'s web_server \<Rightarrow> params \<Rightarrow> 's handler option" where
  "CreateSubCmdRunStruct S ps = registered_cmd S (httpGetString ps ''Cmd'')"

fun Config_SubNotFound :: "params \<Rightarrow> ca_action \<Rightarrow> 's \<Rightarrow> (int \<times> params \<times> 's) checked" where
  "Config_SubNotFound ps CA_AUTH s = Inr (AUTH_USER, [], s)"
| "Config_SubNotFound ps _ s = Inr (0, [], s)"

definition handler_of :: "'s web_server \<Rightarrow> params \<Rightarrow> 's handler" where
  "handler_of S ps = (case CreateSubCmdRunStruct S ps of None \<Rightarrow> Config_SubNotFound | Some f \<Rightarrow> f)"

text \<open>First pass: the highest privilege any command needs.\<close>

fun auth_loop :: "'s web_server \<Rightarrow> params list \<Rightarrow> int \<Rightarrow> 's \<Rightarrow> (int \<times> 's) checked" where
  "auth_loop S [] need s = Inr (need, s)"
| "auth_loop S (ps # cmds) need s =
     bnd (handler_of S ps ps CA_AUTH s) (\<lambda>(need', _, s').
       auth_loop S cmds (if need' > need then need' else need) s')"

text \<open>Second pass: every command that exists runs, each with its own element in the reply.\<close>

fun config_loop :: "'s web_server \<Rightarrow> params list \<Rightarrow> xml list \<Rightarrow> 's \<Rightarrow> (xml list \<times> 's) checked" where
  "config_loop S [] xs s = Inr (xs, s)"
| "config_loop S (ps # cmds) xs s =
     (case CreateSubCmdRunStruct S ps of
        None \<Rightarrow> config_loop S cmds xs s
      | Some f \<Rightarrow>
          bnd (f ps CA_CONFIG s) (\<lambda>(_, vals, s').
            config_loop S cmds
              (append_array (httpGetString ps ''Cmd'')
                 (XmlElem (httpGetString ps ''Cmd'') [(''Cmd'', ''1'')] (AddHttpValues vals [])) xs) s'))"

fun redirect_loop :: "params list \<Rightarrow> response option checked" where
  "redirect_loop [] = Inr None"
| "redirect_loop (ps # cmds) =
     bnd (Http_SendRedirectRequest ps) (\<lambda>r. case r of Some d \<Rightarrow> Inr (Some d) | None \<Rightarrow> redirect_loop cmds)"

definition Http_CommonCmdRun :: "'s web_server \<Rightarrow> int \<Rightarrow> string \<Rightarrow> 's \<Rightarrow> (response \<times> 's) checked" where
  "Http_CommonCmdRun S iPrivilege pcCmdParam s =
     (let pList = httpParseString (wtext S) pcCmdParam;
          cmds = sub_commands (wtext S) pcCmdParam;
          rt = ReturnTypeBegin pList;
          finish = (\<lambda>xs. case_prod Reply (ReturnTypeEnd (wtext S) (whttpDumpXML S) pList rt xs))
      in if cmds = []
         then bnd (Http_SendRedirectRequest pList) (\<lambda>red.
                Inr (case red of Some d \<Rightarrow> d | None \<Rightarrow> finish [], s))
         else bnd (auth_loop S cmds AUTH_ANY s) (\<lambda>(iAuthRequired, s1).
                if iPrivilege < iAuthRequired then Inr (AuthRequired iAuthRequired, s1)
                else bnd (config_loop S cmds [] s1) (\<lambda>(xs, s2).
                     bnd (redirect_loop cmds) (\<lambda>red.
                       Inr (case red of Some d \<Rightarrow> d | None \<Rightarrow> finish xs, s2)))))"

subsection \<open>Collecting posted data\<close>

text \<open>
  \<open>Http_PostDataGet\<close> is called for every piece of a POST body. The state is what the server keeps for it: the size it
  asked for, the block (absent if it was too large) and the number of bytes in it. The result of the last call is
  the text the command runner gets, or the refusal.
\<close>

record post_state =
  iPostBufLen :: nat
  pcPostBuf :: "char list option"
  iPostDataLen :: nat

datatype post_result = More | Refused | Run string

definition MAX_POST_LENGTH :: nat where
  "MAX_POST_LENGTH = 10 * 1024"

definition post_start :: post_state where
  "post_start = \<lparr>iPostBufLen = 0, pcPostBuf = None, iPostDataLen = 0\<rparr>"

text \<open>A signed 32-bit sum: a content length near the maximum makes it negative, and it becomes 8.\<close>

definition wanted_length :: "u32 \<Rightarrow> nat" where
  "wanted_length len = (let n = sint (len + 8) in if n < 8 then 8 else nat n)"

text \<open>What the block holds when it is complete: a final line feed, and a carriage return before it, are dropped.\<close>

definition chop :: "string \<Rightarrow> string" where
  "chop t = (if t \<noteq> [] \<and> last t = CHR 0x0A
     then (if butlast t \<noteq> [] \<and> last (butlast t) = CHR 0x0D then butlast (butlast t) else butlast t)
     else t)"

definition Http_PostDataGet :: "u32 \<Rightarrow> string \<Rightarrow> bool \<Rightarrow> post_state \<Rightarrow> (post_result \<times> post_state) checked" where
  "Http_PostDataGet content_length fill more_data p =
     (let p = (if iPostBufLen p = 0
               then let n = wanted_length content_length
                    in if n < MAX_POST_LENGTH
                       then p\<lparr>iPostBufLen := n, pcPostBuf := Some (replicate n (CHR 0x00)), iPostDataLen := 0\<rparr>
                       else p\<lparr>iPostBufLen := n\<rparr>
               else p)
      in case pcPostBuf p of
           None \<Rightarrow> Inr (if more_data then More else Refused, p)
         | Some buf \<Rightarrow>
             let p = (if iPostDataLen p + length fill < iPostBufLen p
                      then p\<lparr>pcPostBuf := Some (blit (iPostDataLen p) fill buf),
                             iPostDataLen := iPostDataLen p + length fill\<rparr>
                      else p)
             in if more_data then Inr (More, p)
                else if iPostDataLen p \<ge> length buf then Inl OutOfBounds
                else Inr (Run (chop (take (iPostDataLen p) (the (pcPostBuf p)))),
                          p\<lparr>iPostBufLen := 0, pcPostBuf := None, iPostDataLen := 0\<rparr>))"

subsection \<open>What a request may do\<close>

text \<open>
  The interface the dispatcher relies on: asking a handler for the privilege it needs succeeds, gives the same answer in
  every state, and leaves the state as it was, up to what the relation R allows. Under it, a request either is
  refused, or the caller has the privilege every single one of its commands needs and all of them run, in order.
\<close>

definition needed :: "'s handler \<Rightarrow> params \<Rightarrow> 's \<Rightarrow> int" where
  "needed f ps s = (case f ps CA_AUTH s of Inl _ \<Rightarrow> AUTH_ANY | Inr (n, _, _) \<Rightarrow> n)"

fun run_commands :: "'s web_server \<Rightarrow> params list \<Rightarrow> 's \<Rightarrow> 's checked" where
  "run_commands S [] s = Inr s"
| "run_commands S (ps # cmds) s =
     (case CreateSubCmdRunStruct S ps of None \<Rightarrow> run_commands S cmds s
      | Some f \<Rightarrow> bnd (f ps CA_CONFIG s) (\<lambda>(_, _, s'). run_commands S cmds s'))"

lemma config_loop_runs: "config_loop S cmds xs s = Inr (ys, s') \<Longrightarrow> run_commands S cmds s = Inr s'"
proof (induction cmds arbitrary: xs s)
  case (Cons ps cmds)
  then show ?case
    by (cases "CreateSubCmdRunStruct S ps") (auto simp: bnd_Inr split: prod.splits)
qed simp

lemma fold_max_le: "(fold (\<lambda>x m. if f x > m then f x else m) xs (a::int) \<le> b) \<longleftrightarrow> a \<le> b \<and> (\<forall>x\<in>set xs. f x \<le> b)"
  by (induction xs arbitrary: a) auto

locale auth_server =
  fixes S :: "'s web_server" and R :: "'s \<Rightarrow> 's \<Rightarrow> bool"
  assumes R_refl: "R s s" and R_trans: "R s t \<Longrightarrow> R t u \<Longrightarrow> R s u"
    and asks: "registered_cmd S n = Some f \<Longrightarrow> \<exists>need. \<forall>s. \<exists>vals s'. f ps CA_AUTH s = Inr (need, vals, s') \<and> R s s'"
begin

lemma asked: "\<exists>vals t'. handler_of S ps ps CA_AUTH t = Inr (needed (handler_of S ps) ps s, vals, t') \<and> R t t'"
proof (cases "CreateSubCmdRunStruct S ps")
  case None
  then show ?thesis by (simp add: handler_of_def needed_def R_refl)
next
  case (Some f)
  then obtain need where "\<forall>s. \<exists>vals s'. f ps CA_AUTH s = Inr (need, vals, s') \<and> R s s'"
    using asks [of "httpGetString ps ''Cmd''" f ps] unfolding CreateSubCmdRunStruct_def by blast
  then obtain vals s' vals2 t' where "f ps CA_AUTH s = Inr (need, vals, s')" "f ps CA_AUTH t = Inr (need, vals2, t')" "R t t'"
    by blast
  with Some show ?thesis by (simp add: handler_of_def needed_def)
qed

lemma auth_loop_max:
  "\<exists>t'. auth_loop S cmds m t =
     Inr (fold (\<lambda>ps m. if needed (handler_of S ps) ps s > m then needed (handler_of S ps) ps s else m) cmds m, t') \<and> R t t'"
proof (induction cmds arbitrary: m t)
  case (Cons ps cmds)
  obtain vals t1 where t1: "handler_of S ps ps CA_AUTH t = Inr (needed (handler_of S ps) ps s, vals, t1)" "R t t1"
    using asked by blast
  then show ?case using Cons [of _ t1] R_trans [OF t1(2)] by auto
qed (simp add: R_refl)

lemma common_cmd:
  assumes run: "Http_CommonCmdRun S priv txt s = Inr (r, s')" and priv: "AUTH_ANY \<le> priv"
  shows "if \<forall>ps\<in>set (sub_commands (wtext S) txt). needed (handler_of S ps) ps s \<le> priv
    then (\<exists>s1. R s s1 \<and> run_commands S (sub_commands (wtext S) txt) s1 = Inr s') \<and> (\<forall>m. r \<noteq> AuthRequired m)
    else R s s' \<and> (\<exists>m. r = AuthRequired m \<and> priv < m)"
proof -
  let ?cmds = "sub_commands (wtext S) txt"
  obtain m s1 where m: "auth_loop S ?cmds AUTH_ANY s = Inr (m, s1)" and R: "R s s1"
    and le: "m \<le> priv \<longleftrightarrow> (\<forall>ps\<in>set ?cmds. needed (handler_of S ps) ps s \<le> priv)"
    using auth_loop_max [of ?cmds AUTH_ANY s s] priv by (auto simp: fold_max_le)
  have reds: "redirect_loop cs \<noteq> Inr (Some (AuthRequired m))" for cs m
    by (induction cs) (auto simp: bnd_Inr Http_SendRedirectRequest_def Let_def split: option.splits if_splits)
  have red: "Http_SendRedirectRequest q \<noteq> Inr (Some (AuthRequired m))" for q m
    by (auto simp: Http_SendRedirectRequest_def Let_def)
  have rep: "case_prod Reply z \<noteq> AuthRequired m" "AuthRequired m \<noteq> case_prod Reply z" for z m by (cases z, simp)+
  show ?thesis
  proof (cases "?cmds = []")
    case True
    with run R_refl show ?thesis
      by (auto simp: Http_CommonCmdRun_def Let_def bnd_Inr rep red split: option.splits)
  next
    case False
    show ?thesis
    proof (cases "m \<le> priv")
      case True
      with run False obtain xs s2 where c: "config_loop S ?cmds [] s1 = Inr (xs, s2)"
        and d: "\<exists>red. redirect_loop ?cmds = Inr red
          \<and> r = (case red of Some d \<Rightarrow> d | None \<Rightarrow> case_prod Reply (ReturnTypeEnd (wtext S) (whttpDumpXML S)
                  (httpParseString (wtext S) txt) (ReturnTypeBegin (httpParseString (wtext S) txt)) xs)) \<and> s' = s2"
        by (auto simp: Http_CommonCmdRun_def Let_def m bnd_Inr)
      from d have "\<forall>m. r \<noteq> AuthRequired m" by (auto simp: rep reds split: option.splits)
      with c d config_loop_runs [OF c] True le R show ?thesis by auto
    next
      case over: False
      then have "\<not> (\<forall>ps\<in>set ?cmds. needed (handler_of S ps) ps s \<le> priv)" using le by blast
      moreover have "r = AuthRequired m \<and> s' = s1"
        using run over \<open>?cmds \<noteq> []\<close> by (simp add: Http_CommonCmdRun_def Let_def m not_le)
      ultimately show ?thesis using over R by auto
    qed
  qed
qed

lemma sub_cmd:
  assumes "Http_SubCmdRun S f priv txt s = Inr (rc, r, s')" and "registered_cmd S n = Some f"
  shows "if needed f (httpParseString (wtext S) txt) s \<le> priv
    then \<exists>s1 vals. R s s1 \<and> f (httpParseString (wtext S) txt) CA_CONFIG s1 = Inr (rc, vals, s')
    else R s s' \<and> r = AuthRequired (needed f (httpParseString (wtext S) txt) s)"
proof -
  obtain need vals s1 where a: "f (httpParseString (wtext S) txt) CA_AUTH s = Inr (need, vals, s1)" "R s s1"
    using asks [OF assms(2)] by blast
  then have n: "needed f (httpParseString (wtext S) txt) s = need" by (simp add: needed_def)
  show ?thesis
    using assms(1) a by (auto simp: n Http_SubCmdRun_def Let_def bnd_Inr split: if_splits)
qed

end

subsection \<open>The reply as a table\<close>

text \<open>What a client reads under a name: the texts of the elements of that name, in order.\<close>

fun leaf :: "xml \<Rightarrow> string list" where
  "leaf (XmlElem _ _ [XmlText v]) = [v]"
| "leaf _ = []"

definition values_in :: "string \<Rightarrow> xml \<Rightarrow> string list" where
  "values_in n x = (case x of XmlText _ \<Rightarrow> []
     | XmlElem m as xs \<Rightarrow> if httpGetString as ''Array'' = n then concat (map leaf xs)
                         else if m = n then leaf x else [])"

definition reply_values :: "string \<Rightarrow> xml list \<Rightarrow> string list" where
  "reply_values n xs = concat (map (values_in n) xs)"

definition plain :: "string \<Rightarrow> bool" where
  "plain n = (n \<noteq> [] \<and> n \<noteq> ''Array'')"

text \<open>The shape \<open>AddHttpValue\<close> maintains: one entry per name, alone or an array of such entries.\<close>

inductive entry :: "string \<Rightarrow> xml \<Rightarrow> bool" where
  single: "plain n \<Longrightarrow> entry n (XmlElem n [] [XmlText v])"
| array: "plain n \<Longrightarrow> \<forall>x\<in>set xs. \<exists>v. x = XmlElem n [] [XmlText v] \<Longrightarrow> entry n (XmlElem ''Array'' [(''Array'', n)] xs)"

inductive_cases entryE: "entry n x"

definition reply_ok :: "xml list \<Rightarrow> bool" where
  "reply_ok xs = (\<exists>ns. list_all2 entry ns xs \<and> distinct ns)"

lemma entry_tests:
  assumes "entry m x" and "plain n"
  shows "xml_attr x ''Array'' = n \<or> xml_name x = n \<longleftrightarrow> n = m"
  using assms by (auto elim!: entryE simp: plain_def httpGetString_def)

lemma entry_other: "entry m x \<Longrightarrow> plain n \<Longrightarrow> n \<noteq> m \<Longrightarrow> values_in n x = []"
  by (auto elim!: entryE simp: values_in_def plain_def httpGetString_def)

lemma entries_other: "list_all2 entry ns xs \<Longrightarrow> plain n \<Longrightarrow> n \<notin> set ns \<Longrightarrow> reply_values n xs = []"
  by (induction rule: list_all2_induct) (auto simp: reply_values_def entry_other)

abbreviation text_elem :: "string \<Rightarrow> string \<Rightarrow> xml" where
  "text_elem n v \<equiv> XmlElem n [] [XmlText v]"

lemma values_in_simps:
  assumes "plain k"
  shows "values_in k (text_elem n v) = (if n = k then [v] else [])"
    and "values_in k (XmlElem ''Array'' [(''Array'', n)] ys) = (if n = k then concat (map leaf ys) else [])"
  using assms by (auto simp: values_in_def plain_def httpGetString_def)

lemma append_array_step:
  assumes "list_all2 entry ns xs" and "distinct ns" and "plain n"
  shows "\<exists>ns'. list_all2 entry ns' (append_array n (text_elem n v) xs) \<and> distinct ns' \<and> set ns' = insert n (set ns)
     \<and> (\<forall>m. plain m \<longrightarrow> reply_values m (append_array n (text_elem n v) xs) = reply_values m xs @ (if m = n then [v] else []))"
  using assms
proof (induction rule: list_all2_induct)
  case Nil
  then show ?case
    by (intro exI [of _ "[n]"]) (auto simp: reply_values_def values_in_def plain_def httpGetString_def intro: entry.intros)
next
  case (Cons m ns x xs)
  consider (arr) ys where "m = n" "x = XmlElem ''Array'' [(''Array'', n)] ys" "\<forall>y\<in>set ys. \<exists>v. y = text_elem n v"
    | (sing) w where "m = n" "x = text_elem n w"
    | (other) "m \<noteq> n"
    using Cons.hyps(1) by (auto elim!: entryE)
  moreover have z: "concat (map (values_in n) xs) = []" if "m = n"
    using that entries_other [OF Cons.hyps(2), of n] Cons.prems by (simp add: reply_values_def)
  ultimately show ?case
  proof cases
    case arr
    have "list_all2 entry (n # ns) (append_array n (text_elem n v) (x # xs))"
      using arr Cons.hyps(2) Cons.prems by (auto simp: httpGetString_def intro!: entry.array)
    moreover have "reply_values k (append_array n (text_elem n v) (x # xs)) = reply_values k (x # xs) @ (if k = n then [v] else [])"
      if "plain k" for k
      using arr that Cons.prems z
      by (auto simp: reply_values_def values_in_simps httpGetString_def simp del: concat_eq_Nil_conv)
    ultimately show ?thesis using arr(1) Cons.prems by (intro exI [of _ "n # ns"]) auto
  next
    case sing
    have e: "append_array n (text_elem n v) (x # xs) = xs @ [XmlElem ''Array'' [(''Array'', n)] [x, text_elem n v]]"
      using sing Cons.prems by (auto simp: httpGetString_def plain_def)
    have "list_all2 entry (ns @ [n]) (append_array n (text_elem n v) (x # xs))"
      unfolding e using sing Cons.hyps(2) Cons.prems by (auto intro!: list_all2_appendI entry.array)
    moreover have "reply_values k (append_array n (text_elem n v) (x # xs)) = reply_values k (x # xs) @ (if k = n then [v] else [])"
      if "plain k" for k
      unfolding e using sing that Cons.prems z
      by (auto simp: reply_values_def values_in_simps simp del: concat_eq_Nil_conv)
    ultimately show ?thesis using sing(1) Cons.prems by (intro exI [of _ "ns @ [n]"]) auto
  next
    case other
    then have e: "append_array n (text_elem n v) (x # xs) = x # append_array n (text_elem n v) xs"
      using entry_tests [OF Cons.hyps(1) Cons.prems(2)] by auto
    from Cons.IH Cons.prems obtain ns' where ns': "list_all2 entry ns' (append_array n (text_elem n v) xs)" "distinct ns'"
      "set ns' = insert n (set ns)"
      "\<forall>k. plain k \<longrightarrow> reply_values k (append_array n (text_elem n v) xs) = reply_values k xs @ (if k = n then [v] else [])" by auto
    then show ?thesis
      unfolding e using Cons.hyps(1) Cons.prems other by (intro exI [of _ "m # ns'"]) (auto simp: reply_values_def)
  qed
qed

lemma AddHttpValues_values:
  assumes "reply_ok xs" and "\<forall>(n, v)\<in>set ps. plain n" and "plain n"
  shows "reply_values n (AddHttpValues ps xs) = reply_values n xs @ map snd (filter (\<lambda>p. fst p = n) ps)"
  using assms(1,2)
proof (induction ps xs rule: AddHttpValues.induct)
  case (2 m v ps xs)
  then obtain ns where ns: "list_all2 entry ns xs" "distinct ns" by (auto simp: reply_ok_def)
  from append_array_step [OF this, of m v] 2(3) have
    "reply_ok (append_array m (text_elem m v) xs)"
    "reply_values n (append_array m (text_elem m v) xs) = reply_values n xs @ (if n = m then [v] else [])"
    using assms(3) by (auto simp: reply_ok_def)
  with 2(1) 2(3) show ?case by auto
qed simp

text \<open>
  Whatever a handler answers can be read back: under every name the reply tree holds exactly the values that
  were added for it, in order, although elements are moved into arrays on the way.
\<close>

theorem reply_lists_values:
  assumes "\<forall>(n, v)\<in>set ps. plain n" and "plain n"
  shows "reply_values n (AddHttpValues ps []) = map snd (filter (\<lambda>p. fst p = n) ps)"
  using AddHttpValues_values [OF _ assms, of "[]"] by (simp add: reply_values_def reply_ok_def)

theorem reply_lists_values_witness:
  "reply_values ''User'' (AddHttpValues [(''User'', ''bob''), (''Priv'', ''1''), (''User'', ''eve''), (''User'', ''al'')] [])
     = [''bob'', ''eve'', ''al'']"
  by (subst reply_lists_values) (simp_all add: plain_def)

text \<open>
  The redirect header is formatted into 256 characters, whoever sends the request: a target of more than 243 characters
  overflows it, a shorter one is sent on unchanged.
\<close>

theorem redirect_overflow:
  "(Http_SendRedirectRequest q = Inl OutOfBounds \<longleftrightarrow> 243 < length (httpGetString q ''RedirectUrl''))
    \<and> (length (httpGetString q ''RedirectUrl'') \<le> 243 \<longrightarrow> httpGetString q ''RedirectUrl'' \<noteq> [] \<longrightarrow>
      Http_SendRedirectRequest q = Inr (Some (Redirect (httpGetString q ''RedirectUrl''))))"
  by (auto simp: Http_SendRedirectRequest_def Let_def)

theorem redirect_overflow_witness:
  "Http_SendRedirectRequest [(''RedirectUrl'', ''/a.htm'')] = Inr (Some (Redirect ''/a.htm''))"
  using redirect_overflow [of "[(''RedirectUrl'', ''/a.htm'')]"] by (simp add: httpGetString_def)

text \<open>
  The names in the generated script are identifiers: a non-empty name becomes one, and a name that is one already is
  kept.
\<close>

theorem GetCleanVariableName_identifier:
  "GetCleanVariableName t = (if t = [] then None else Some (the (GetCleanVariableName t)))
     \<and> (t \<noteq> [] \<longrightarrow> the (GetCleanVariableName t) \<noteq> [] \<and> is_ident_start (hd (the (GetCleanVariableName t)))
          \<and> (\<forall>c\<in>set (the (GetCleanVariableName t)). is_ident_char c))
     \<and> (t \<noteq> [] \<longrightarrow> is_ident_start (hd t) \<longrightarrow> (\<forall>c\<in>set t. is_ident_char c) \<longrightarrow> GetCleanVariableName t = Some t)"
proof -
  have V: "is_ident_start CHR ''V''" by (simp add: is_ident_start_def)
  have sub: "is_ident_start c \<Longrightarrow> is_ident_char c" for c by (simp add: is_ident_char_def)
  show ?thesis
    using V by (cases t) (auto simp: GetCleanVariableName_def sub dest: set_takeWhileD)
qed

theorem GetCleanVariableName_identifier_witness:
  "GetCleanVariableName ''Cmd_1'' = Some ''Cmd_1''"
  using GetCleanVariableName_identifier [of "''Cmd_1''"]
  by (auto simp: is_ident_char_def is_ident_start_def)

fun post_pieces :: "u32 \<Rightarrow> string list \<Rightarrow> post_state \<Rightarrow> (post_result \<times> post_state) checked" where
  "post_pieces len [] p = Inr (More, p)"
| "post_pieces len (f # fs) p =
     (if fs = [] then Http_PostDataGet len f False p
      else bnd (Http_PostDataGet len f True p) (\<lambda>(_, p'). post_pieces len fs p'))"

text \<open>What is kept: pieces for which there is no room are dropped, later ones may fit again.\<close>

fun fitting :: "nat \<Rightarrow> string \<Rightarrow> string list \<Rightarrow> string" where
  "fitting n acc [] = acc"
| "fitting n acc (f # fs) = fitting n (if length acc + length f < n then acc @ f else acc) fs"

lemma fitting_all: "length acc + length (concat fs) < n \<Longrightarrow> fitting n acc fs = acc @ concat fs"
  by (induction fs arbitrary: acc) auto

definition holds :: "nat \<Rightarrow> string \<Rightarrow> post_state \<Rightarrow> bool" where
  "holds n acc p = (iPostBufLen p = n \<and> 0 < n \<and> length acc < n \<and> iPostDataLen p = length acc
     \<and> (\<exists>buf. pcPostBuf p = Some buf \<and> length buf = n \<and> take (length acc) buf = acc))"

lemma post_step:
  fixes f :: string
  assumes "holds n acc p"
  defines "acc' \<equiv> if length acc + length f < n then acc @ f else acc"
  shows "\<exists>p'. Http_PostDataGet len f True p = Inr (More, p') \<and> holds n acc' p'"
    and "Http_PostDataGet len f False p = Inr (Run (chop acc'), post_start)"
proof -
  from assms(1) obtain buf where p: "iPostBufLen p = n" "0 < n" "length acc < n" "iPostDataLen p = length acc"
    "pcPostBuf p = Some buf" "length buf = n" "take (length acc) buf = acc" by (auto simp: holds_def)
  have t: "take (length acc + length f) (blit (length acc) f buf) = acc @ f"
    using p by (simp add: blit_def)
  show "\<exists>p'. Http_PostDataGet len f True p = Inr (More, p') \<and> holds n acc' p'"
    using p t by (auto simp: Http_PostDataGet_def holds_def acc'_def Let_def)
  show "Http_PostDataGet len f False p = Inr (Run (chop acc'), post_start)"
    using p t by (auto simp: Http_PostDataGet_def acc'_def Let_def post_start_def)
qed

lemma post_pieces_holds:
  assumes "holds n acc p" and "fs \<noteq> []"
  shows "post_pieces len fs p = Inr (Run (chop (fitting n acc fs)), post_start)"
  using assms
proof (induction fs arbitrary: acc p)
  case (Cons f fs)
  note st = post_step [OF Cons.prems(1), of len f]
  show ?case
  proof (cases "fs = []")
    case False
    from st(1) obtain p' where p': "Http_PostDataGet len f True p = Inr (More, p')"
      "holds n (if length acc + length f < n then acc @ f else acc) p'" by blast
    then show ?thesis using Cons.IH [OF p'(2) False] False by simp
  qed (use st(2) in simp)
qed simp

lemma wanted_pos: "0 < wanted_length len"
  by (simp add: wanted_length_def Let_def)

lemma post_first:
  "Http_PostDataGet len f m post_start =
     (if wanted_length len < MAX_POST_LENGTH
      then Http_PostDataGet len f m \<lparr>iPostBufLen = wanted_length len,
             pcPostBuf = Some (replicate (wanted_length len) (CHR 0x00)), iPostDataLen = 0\<rparr>
      else Inr (if m then More else Refused, \<lparr>iPostBufLen = wanted_length len, pcPostBuf = None, iPostDataLen = 0\<rparr>))"
  using wanted_pos [of len] by (simp add: Http_PostDataGet_def Let_def post_start_def)

text \<open>
  A posted request is collected without ever writing outside the block: if the announced length is accepted, the
  command runner gets the concatenation of the pieces that fit, which is all of them if they are not longer than announced,
  without its final line break; otherwise the request is refused.
\<close>

theorem post_data_collected:
  assumes "fs \<noteq> []"
  shows "if wanted_length len < MAX_POST_LENGTH
     then post_pieces len fs post_start = Inr (Run (chop (fitting (wanted_length len) [] fs)), post_start)
       \<and> (length (concat fs) < wanted_length len \<longrightarrow>
            post_pieces len fs post_start = Inr (Run (chop (concat fs)), post_start))
     else \<exists>p. post_pieces len fs post_start = Inr (Refused, p)"
proof -
  let ?p = "\<lparr>iPostBufLen = wanted_length len, pcPostBuf = Some (replicate (wanted_length len) (CHR 0x00)), iPostDataLen = 0\<rparr>"
  have h: "holds (wanted_length len) [] ?p" using wanted_pos [of len] by (simp add: holds_def)
  have "post_pieces len fs post_start = post_pieces len fs ?p" if "wanted_length len < MAX_POST_LENGTH"
    using assms that by (cases fs) (auto simp: post_first)
  then have fit: "post_pieces len fs post_start = Inr (Run (chop (fitting (wanted_length len) [] fs)), post_start)"
    if "wanted_length len < MAX_POST_LENGTH"
    using post_pieces_holds [OF h assms, of len] that by simp
  moreover have "post_pieces len fs post_start = Inr (Run (chop (concat fs)), post_start)"
    if "wanted_length len < MAX_POST_LENGTH" "length (concat fs) < wanted_length len"
    using fit [OF that(1)] fitting_all [of "[]" fs "wanted_length len"] that(2) by simp
  moreover have "\<exists>p. post_pieces len fs post_start = Inr (Refused, p)" if "MAX_POST_LENGTH \<le> wanted_length len"
  proof -
    have r: "post_pieces len gs \<lparr>iPostBufLen = wanted_length len, pcPostBuf = None, iPostDataLen = 0\<rparr>
      = Inr (Refused, \<lparr>iPostBufLen = wanted_length len, pcPostBuf = None, iPostDataLen = 0\<rparr>)" if "gs \<noteq> []" for gs
      using that wanted_pos [of len] by (induction gs) (auto simp: Http_PostDataGet_def Let_def)
    show ?thesis using assms that r [of "tl fs"] by (cases fs) (auto simp: post_first)
  qed
  ultimately show ?thesis by simp
qed

theorem post_data_collected_witness:
  "post_pieces 12 [''Cmd=GetVe'', ''r'', [CHR 0x0D, CHR 0x0A]] post_start = Inr (Run ''Cmd=GetVer'', post_start)"
proof -
  have w: "wanted_length 12 = 20" by (simp add: wanted_length_def)
  show ?thesis
    using post_data_collected [of "[''Cmd=GetVe'', ''r'', [CHR 0x0D, CHR 0x0A]]" 12]
    by (simp add: w MAX_POST_LENGTH_def chop_def)
qed

end
