(* ===== verification/CameraSettings.thy ===== *)
theory CameraSettings
  imports Users Dispatch
begin

section \<open>Camera settings (ConfigInterface/configinterface.c, Camera/CameraCtl.c)\<close>

text \<open>
  The settings of picture and sound: the operations of the configuration interface, which tell the camera thread
  by a message and save the configuration, and the web commands that call them. Numbers are 32-bit words: the C
  code compares its \<open>int\<close> arguments with the \<open>unsigned long\<close> fields. Only \<open>ictlSetQuality\<close> reads them as signed.
\<close>

definition MSG_CAMERA_RES :: int where "MSG_CAMERA_RES = 3"
definition MSG_CAMERA_QUALITY :: int where "MSG_CAMERA_QUALITY = 4"
definition MSG_CAMERA_BRIGHTNESS :: int where "MSG_CAMERA_BRIGHTNESS = 10"
definition MSG_CAMERA_MOTION :: int where "MSG_CAMERA_MOTION = 19"
definition MSG_CAMERA_FRAMERATE :: int where "MSG_CAMERA_FRAMERATE = 20"
definition MSG_SPEAKER_VOLUME :: int where "MSG_SPEAKER_VOLUME = 22"
definition MSG_MIC_VOLUME :: int where "MSG_MIC_VOLUME = 23"

definition CL_CHANGE_RESOLUTION :: int where "CL_CHANGE_RESOLUTION = 16"
definition CL_CHANGE_QUALITY :: int where "CL_CHANGE_QUALITY = 17"
definition CL_CHANGE_BRIGHTNESS :: int where "CL_CHANGE_BRIGHTNESS = 18"
definition CL_SET_MOTION_DETECT :: int where "CL_SET_MOTION_DETECT = 28"
definition CL_CHANGE_FRAMERATE :: int where "CL_CHANGE_FRAMERATE = 35"
definition CL_CHANGE_SPEAKERVOLUME :: int where "CL_CHANGE_SPEAKERVOLUME = 37"
definition CL_CHANGE_MICVOLUME :: int where "CL_CHANGE_MICVOLUME = 38"

definition CL_PRIVILEGE_COMMON :: int where "CL_PRIVILEGE_COMMON = 1"

definition MOTION_DETECT_NONE :: u8 where "MOTION_DETECT_NONE = 0"
definition MOTION_DETECT_SOFT :: u8 where "MOTION_DETECT_SOFT = 1"
definition MOTION_DETECT_HARD :: u8 where "MOTION_DETECT_HARD = 2"

subsection \<open>Operations of the configuration interface\<close>

definition SendCameraMsg :: "int \<Rightarrow> u32 \<Rightarrow> ('h, 'r) ictl_state \<Rightarrow> ('h, 'r) ictl_state" where
  "SendCameraMsg lMsg lData s = s\<lparr>sent_msgs := sent_msgs s @ [(lMsg, lData)]\<rparr>"

definition upd_cam :: "(cam_cfg \<Rightarrow> cam_cfg) \<Rightarrow> ('h, 'r) ictl_state \<Rightarrow> ('h, 'r) ictl_state" where
  "upd_cam f s = s\<lparr>ic_cfg := (ic_cfg s)\<lparr>cfg_cam := f (cfg_cam (ic_cfg s))\<rparr>\<rparr>"

abbreviation cam_of :: "('h, 'r) ictl_state \<Rightarrow> cam_cfg" where
  "cam_of s \<equiv> cfg_cam (ic_cfg s)"

text \<open>
  The body the setters share: send the message; if the value differs from the configured one, change it, leave the
  default picture and save.
\<close>

definition set_camera_value ::
  "('h, 'r) ictl_env \<Rightarrow> int \<Rightarrow> (cam_cfg \<Rightarrow> u32) \<Rightarrow> (u32 \<Rightarrow> cam_cfg \<Rightarrow> cam_cfg) \<Rightarrow> u32 \<Rightarrow> ('h, 'r) ictl_state
     \<Rightarrow> (int \<times> ('h, 'r) ictl_state) checked" where
  "set_camera_value E msg get put v s =
     (let s1 = SendCameraMsg msg v s
      in if v \<noteq> get (cam_of s1)
         then bnd (save_config E (upd_cam (\<lambda>c. put v (c\<lparr>bDefaultImg := False\<rparr>)) s1)) (\<lambda>s2. Inr (ICTL_OK, s2))
         else Inr (ICTL_OK, s1))"

definition ictlSetResolution ::
  "('h, 'r) ictl_env \<Rightarrow> ictl_handle option \<Rightarrow> u32 \<Rightarrow> ('h, 'r) ictl_state \<Rightarrow> (int \<times> ('h, 'r) ictl_state) checked" where
  "ictlSetResolution E pHandle pSize s =
     (if unauthorized AUTH_ADMIN pHandle then Inr (ICTL_UNAUTHORIZED, s)
      else set_camera_value E MSG_CAMERA_RES ulImgResolution (\<lambda>v c. c\<lparr>ulImgResolution := v\<rparr>) pSize s)"

definition ictlSetQuality ::
  "('h, 'r) ictl_env \<Rightarrow> ictl_handle option \<Rightarrow> u32 \<Rightarrow> ('h, 'r) ictl_state \<Rightarrow> (int \<times> ('h, 'r) ictl_state) checked" where
  "ictlSetQuality E pHandle nQualityLevel s =
     (if unauthorized AUTH_ADMIN pHandle then Inr (ICTL_UNAUTHORIZED, s)
      else if sint nQualityLevel < 0 \<or> sint nQualityLevel > 2 then Inr (ICTL_INVALID_PARAMETERS, s)
      else set_camera_value E MSG_CAMERA_QUALITY ulImgQuality (\<lambda>v c. c\<lparr>ulImgQuality := v\<rparr>) nQualityLevel s)"

definition ictlSetFramerate ::
  "('h, 'r) ictl_env \<Rightarrow> ictl_handle option \<Rightarrow> u32 \<Rightarrow> ('h, 'r) ictl_state \<Rightarrow> (int \<times> ('h, 'r) ictl_state) checked" where
  "ictlSetFramerate E pHandle nFramerate s =
     (if unauthorized AUTH_ADMIN pHandle then Inr (ICTL_UNAUTHORIZED, s)
      else set_camera_value E MSG_CAMERA_FRAMERATE ulImgFramerate (\<lambda>v c. c\<lparr>ulImgFramerate := v\<rparr>) nFramerate s)"

definition ictlSetBrightness ::
  "('h, 'r) ictl_env \<Rightarrow> ictl_handle option \<Rightarrow> u32 \<Rightarrow> ('h, 'r) ictl_state \<Rightarrow> (int \<times> ('h, 'r) ictl_state) checked" where
  "ictlSetBrightness E pHandle nBright s =
     (if unauthorized AUTH_ADMIN pHandle then Inr (ICTL_UNAUTHORIZED, s)
      else set_camera_value E MSG_CAMERA_BRIGHTNESS ulImgBrightness (\<lambda>v c. c\<lparr>ulImgBrightness := v\<rparr>) nBright s)"

definition ictlSetSpeakerVolume ::
  "('h, 'r) ictl_env \<Rightarrow> ictl_handle option \<Rightarrow> u32 \<Rightarrow> ('h, 'r) ictl_state \<Rightarrow> (int \<times> ('h, 'r) ictl_state) checked" where
  "ictlSetSpeakerVolume E pHandle nVolume s =
     (if unauthorized AUTH_ADMIN pHandle then Inr (ICTL_UNAUTHORIZED, s)
      else set_camera_value E MSG_SPEAKER_VOLUME ulSpeakerVolume (\<lambda>v c. c\<lparr>ulSpeakerVolume := v\<rparr>) nVolume s)"

definition ictlSetMicVolume ::
  "('h, 'r) ictl_env \<Rightarrow> ictl_handle option \<Rightarrow> u32 \<Rightarrow> ('h, 'r) ictl_state \<Rightarrow> (int \<times> ('h, 'r) ictl_state) checked" where
  "ictlSetMicVolume E pHandle nVolume s =
     (if unauthorized AUTH_ADMIN pHandle then Inr (ICTL_UNAUTHORIZED, s)
      else set_camera_value E MSG_MIC_VOLUME ulMicVolume (\<lambda>v c. c\<lparr>ulMicVolume := v\<rparr>) nVolume s)"

text \<open>The getters; the pointers they are given are not null.\<close>

definition get_camera_value :: "(cam_cfg \<Rightarrow> u32) \<Rightarrow> ictl_handle option \<Rightarrow> ('h, 'r) ictl_state \<Rightarrow> int \<times> u32" where
  "get_camera_value get pHandle s =
     (if unauthorized AUTH_ADMIN pHandle then (ICTL_UNAUTHORIZED, 0) else (ICTL_OK, get (cam_of s)))"

definition ictlGetResolution :: "ictl_handle option \<Rightarrow> ('h, 'r) ictl_state \<Rightarrow> int \<times> u32" where
  "ictlGetResolution = get_camera_value ulImgResolution"

definition ictlGetQuality :: "ictl_handle option \<Rightarrow> ('h, 'r) ictl_state \<Rightarrow> int \<times> u32" where
  "ictlGetQuality = get_camera_value ulImgQuality"

definition ictlGetFraemrate :: "ictl_handle option \<Rightarrow> ('h, 'r) ictl_state \<Rightarrow> int \<times> u32" where
  "ictlGetFraemrate = get_camera_value ulImgFramerate"

definition ictlGetBrightness :: "ictl_handle option \<Rightarrow> ('h, 'r) ictl_state \<Rightarrow> int \<times> u32" where
  "ictlGetBrightness = get_camera_value ulImgBrightness"

definition ictlGetSpeakerVolume :: "ictl_handle option \<Rightarrow> ('h, 'r) ictl_state \<Rightarrow> int \<times> u32" where
  "ictlGetSpeakerVolume = get_camera_value ulSpeakerVolume"

definition ictlGetMicVolume :: "ictl_handle option \<Rightarrow> ('h, 'r) ictl_state \<Rightarrow> int \<times> u32" where
  "ictlGetMicVolume = get_camera_value ulMicVolume"

definition ictlGetQualityCapability :: "ictl_handle option \<Rightarrow> int \<times> u32 \<times> u32" where
  "ictlGetQualityCapability pHandle =
     (if unauthorized AUTH_ADMIN pHandle then (ICTL_UNAUTHORIZED, 0, 0) else (ICTL_OK, 0, 3))"

definition ictlGetFramerateCapalibity :: "ictl_handle option \<Rightarrow> int \<times> u32 \<times> u32" where
  "ictlGetFramerateCapalibity pHandle =
     (if unauthorized AUTH_ADMIN pHandle then (ICTL_UNAUTHORIZED, 0, 0) else (ICTL_OK, 31, 1))"

definition ictlSetMediaFormat ::
  "('h, 'r) ictl_env \<Rightarrow> ictl_handle option \<Rightarrow> u32 \<Rightarrow> u32 \<Rightarrow> ('h, 'r) ictl_state \<Rightarrow> (int \<times> ('h, 'r) ictl_state) checked" where
  "ictlSetMediaFormat E pHandle eAudio eVideo s =
     (if unauthorized AUTH_ADMIN pHandle then Inr (ICTL_UNAUTHORIZED, s)
      else if eAudio \<noteq> eAudioFormat (cam_of s) \<or> eVideo \<noteq> eVideoFormat (cam_of s)
           then bnd (save_config E (upd_cam (\<lambda>c. c\<lparr>eAudioFormat := eAudio, eVideoFormat := eVideo\<rparr>) s))
                  (\<lambda>s1. Inr (ICTL_OK, s1))
           else Inr (ICTL_OK, s))"

definition ictlGetMediaFoamat :: "ictl_handle option \<Rightarrow> ('h, 'r) ictl_state \<Rightarrow> int \<times> u32 \<times> u32" where
  "ictlGetMediaFoamat pHandle s =
     (if unauthorized AUTH_ADMIN pHandle then (ICTL_UNAUTHORIZED, 0, 0)
      else (ICTL_OK, eAudioFormat (cam_of s), eVideoFormat (cam_of s)))"

definition ictlIsMotionDetectEnabled ::
  "ictl_handle option \<Rightarrow> ('h, 'r) ictl_state \<Rightarrow> int \<times> bool \<times> bool \<times> bool \<times> bool" where
  "ictlIsMotionDetectEnabled pHandle s =
     (if unauthorized AUTH_ADMIN pHandle then (ICTL_UNAUTHORIZED, False, False, False, False)
      else (ICTL_OK, ucMotionDetectWay (cam_of s) = MOTION_DETECT_SOFT, bFtpEnable (cfg_ftp (ic_cfg s)),
            bMailEnable (cfg_mail (ic_cfg s)), False))"

definition ictlEnableMotionDetect ::
  "ictl_handle option \<Rightarrow> bool \<Rightarrow> bool \<Rightarrow> bool \<Rightarrow> ('h, 'r) ictl_state \<Rightarrow> int \<times> ('h, 'r) ictl_state" where
  "ictlEnableMotionDetect pHandle bEnable bFtp bMail s =
     (if unauthorized AUTH_ADMIN pHandle then (ICTL_UNAUTHORIZED, s)
      else (ICTL_OK, s\<lparr>ic_cfg := (ic_cfg s)\<lparr>
              cfg_cam := (cam_of s)\<lparr>ucMotionDetectWay := (if bEnable then 1 else 0)\<rparr>,
              cfg_mail := (cfg_mail (ic_cfg s))\<lparr>bMailEnable := bMail\<rparr>,
              cfg_ftp := (cfg_ftp (ic_cfg s))\<lparr>bFtpEnable := bFtp\<rparr>\<rparr>\<rparr>))"

subsection \<open>The web commands\<close>

definition log_common ::
  "int \<Rightarrow> string \<Rightarrow> request \<Rightarrow> 64 word \<Rightarrow> ('h, 'r) ictl_state \<Rightarrow> ('h, 'r) ictl_state" where
  "log_common kind v rq now s =
     s\<lparr>ic_log := WebCameraLog CL_PRIVILEGE_COMMON kind (Some v) (Some (rq_conn rq)) now (ic_log s)\<rparr>"

text \<open>
  The handlers of one numeric setting: if the parameter is given, the change is logged and the operation called;
  its result is ignored.
\<close>

definition change_command ::
  "text_lib \<Rightarrow> string \<Rightarrow> int
     \<Rightarrow> (ictl_handle option \<Rightarrow> u32 \<Rightarrow> ('h, 'r) ictl_state \<Rightarrow> (int \<times> ('h, 'r) ictl_state) checked)
     \<Rightarrow> request \<Rightarrow> 64 word \<Rightarrow> ('h, 'r) ictl_state handler" where
  "change_command T pcCommand kind ictl rq now pParamList iAction s =
     (case iAction of
        CA_AUTH \<Rightarrow> Inr (AUTH_USER, [], s)
      | CA_CONFIG \<Rightarrow>
          if httpGetString pParamList pcCommand \<noteq> []
          then let lVal = httpGetLong T pParamList pcCommand
               in bnd (ictl (Some (rq_handle rq)) lVal (log_common kind (httpLong2String T lVal) rq now s))
                    (\<lambda>(_, s1). Inr (0, [], s1))
          else Inr (0, [], s)
      | CA_other \<Rightarrow> Inr (- 1, [], s))"

definition Config_ChResolution :: "('h, 'r) ictl_env \<Rightarrow> text_lib \<Rightarrow> request \<Rightarrow> 64 word \<Rightarrow> ('h, 'r) ictl_state handler" where
  "Config_ChResolution E T = change_command T ''ResType'' CL_CHANGE_RESOLUTION (ictlSetResolution E)"

definition Config_ChFramerate :: "('h, 'r) ictl_env \<Rightarrow> text_lib \<Rightarrow> request \<Rightarrow> 64 word \<Rightarrow> ('h, 'r) ictl_state handler" where
  "Config_ChFramerate E T = change_command T ''Framerate'' CL_CHANGE_FRAMERATE (ictlSetFramerate E)"

definition Config_ChCompressRatio :: "('h, 'r) ictl_env \<Rightarrow> text_lib \<Rightarrow> request \<Rightarrow> 64 word \<Rightarrow> ('h, 'r) ictl_state handler" where
  "Config_ChCompressRatio E T = change_command T ''Ratio'' CL_CHANGE_QUALITY (ictlSetQuality E)"

definition Config_ChBrightness :: "('h, 'r) ictl_env \<Rightarrow> text_lib \<Rightarrow> request \<Rightarrow> 64 word \<Rightarrow> ('h, 'r) ictl_state handler" where
  "Config_ChBrightness E T = change_command T ''Brightness'' CL_CHANGE_BRIGHTNESS (ictlSetBrightness E)"

definition Config_ChSpeakerVolume :: "('h, 'r) ictl_env \<Rightarrow> text_lib \<Rightarrow> request \<Rightarrow> 64 word \<Rightarrow> ('h, 'r) ictl_state handler" where
  "Config_ChSpeakerVolume E T = change_command T ''SpeakerVolume'' CL_CHANGE_SPEAKERVOLUME (ictlSetSpeakerVolume E)"

definition Config_ChMicVolume :: "('h, 'r) ictl_env \<Rightarrow> text_lib \<Rightarrow> request \<Rightarrow> 64 word \<Rightarrow> ('h, 'r) ictl_state handler" where
  "Config_ChMicVolume E T = change_command T ''MicVolume'' CL_CHANGE_MICVOLUME (ictlSetMicVolume E)"

definition Config_SetMediaFormat :: "('h, 'r) ictl_env \<Rightarrow> text_lib \<Rightarrow> request \<Rightarrow> ('h, 'r) ictl_state handler" where
  "Config_SetMediaFormat E T rq pParamList iAction s =
     (case iAction of
        CA_AUTH \<Rightarrow> Inr (AUTH_ADMIN, [], s)
      | CA_CONFIG \<Rightarrow>
          let lAudio = (if httpIsExistParam pParamList ''Audio'' then httpGetLong T pParamList ''Audio''
                        else eAudioFormat (cam_of s));
              lVideo = (if httpIsExistParam pParamList ''Video'' then httpGetLong T pParamList ''Video''
                        else eVideoFormat (cam_of s))
          in if lAudio \<noteq> eAudioFormat (cam_of s) \<or> lVideo \<noteq> eVideoFormat (cam_of s)
             then bnd (ictlSetMediaFormat E (Some (rq_handle rq)) lAudio lVideo s)
                    (\<lambda>(_, s1). Inr (0, [], s1\<lparr>reboot := RebootOnClose\<rparr>))
             else Inr (0, [], s)
      | CA_other \<Rightarrow> Inr (- 1, [], s))"

definition Config_GetMediaFormat :: "text_lib \<Rightarrow> ('h, 'r) ictl_state handler" where
  "Config_GetMediaFormat T pParamList iAction s =
     (case iAction of
        CA_AUTH \<Rightarrow> Inr (AUTH_USER, [], s)
      | CA_CONFIG \<Rightarrow> Inr (0, [(''Audio'', httpLong2String T (eAudioFormat (cam_of s))),
                            (''Video'', httpLong2String T (eVideoFormat (cam_of s)))], s)
      | CA_other \<Rightarrow> Inr (- 1, [], s))"

text \<open>\<open>strcasecmp\<close> of the C library: equality up to the case of the ASCII letters.\<close>

definition lower :: "char \<Rightarrow> char" where
  "lower c = (let k = of_char c :: nat in if 65 \<le> k \<and> k \<le> 90 then char_of (k + 32) else c)"

definition caseless_eq :: "string \<Rightarrow> string \<Rightarrow> bool" where
  "caseless_eq s t = (map lower s = map lower t)"

definition motion_sensitivity :: "text_lib \<Rightarrow> params \<Rightarrow> u32 \<Rightarrow> u32" where
  "motion_sensitivity T pParamList before =
     (if httpIsExistParam pParamList ''Sensitivity''
      then let pc = httpGetString pParamList ''Sensitivity'';
               v = (if caseless_eq pc ''high'' then 0 else if caseless_eq pc ''middle'' then 1
                    else if caseless_eq pc ''low'' then 2 else httpString2Long T pc)
           in if 0 \<le> sint v \<and> sint v \<le> 2 then v else before
      else before)"

definition Config_SetMotionDetect ::
  "('h, 'r) ictl_env \<Rightarrow> text_lib \<Rightarrow> bool \<Rightarrow> request \<Rightarrow> 64 word \<Rightarrow> ('h, 'r) ictl_state handler" where
  "Config_SetMotionDetect E T g_pExternalDetector rq now pParamList iAction s =
     (case iAction of
        CA_AUTH \<Rightarrow> Inr (AUTH_ADMIN, [], s)
      | CA_CONFIG \<Rightarrow>
          let sens = motion_sensitivity T pParamList (ulMotionDetectSensitivity (cam_of s));
              way = (if httpGetBool T pParamList ''Enable''
                     then if g_pExternalDetector then MOTION_DETECT_HARD else MOTION_DETECT_SOFT
                     else MOTION_DETECT_NONE);
              s1 = log_common CL_SET_MOTION_DETECT (dec (unat way)) rq now
                     (upd_cam (\<lambda>c. c\<lparr>ulMotionDetectSensitivity := sens, ucMotionDetectWay := way\<rparr>) s)
          in if ucMotionDetectWay (cam_of s) \<noteq> way \<or> ulMotionDetectSensitivity (cam_of s) \<noteq> sens
             then bnd (save_config E (SendCameraMsg MSG_CAMERA_MOTION 0 s1)) (\<lambda>s2. Inr (0, [], s2))
             else Inr (0, [], s1)
      | CA_other \<Rightarrow> Inr (- 1, [], s))"

definition Config_GetMotionDetect :: "text_lib \<Rightarrow> ('h, 'r) ictl_state handler" where
  "Config_GetMotionDetect T pParamList iAction s =
     (case iAction of
        CA_AUTH \<Rightarrow> Inr (AUTH_ADMIN, [], s)
      | CA_CONFIG \<Rightarrow>
          Inr (0, [(''Enable'', httpLong2String T (if ucMotionDetectWay (cam_of s) = MOTION_DETECT_NONE then 0 else 1)),
                   (''Sensitivity'', httpLong2String T (ulMotionDetectSensitivity (cam_of s)))], s)
      | CA_other \<Rightarrow> Inr (- 1, [], s))"

subsection \<open>Settings persist\<close>

text \<open>The settings as one interface: the operation, the message and the field of each.\<close>

datatype camera_setting = Resolution | Quality | Framerate | Brightness | SpeakerVolume | MicVolume

fun set_setting ::
  "('h, 'r) ictl_env \<Rightarrow> camera_setting \<Rightarrow> ictl_handle option \<Rightarrow> u32 \<Rightarrow> ('h, 'r) ictl_state
     \<Rightarrow> (int \<times> ('h, 'r) ictl_state) checked" where
  "set_setting E Resolution = ictlSetResolution E"
| "set_setting E Quality = ictlSetQuality E"
| "set_setting E Framerate = ictlSetFramerate E"
| "set_setting E Brightness = ictlSetBrightness E"
| "set_setting E SpeakerVolume = ictlSetSpeakerVolume E"
| "set_setting E MicVolume = ictlSetMicVolume E"

fun get_setting :: "camera_setting \<Rightarrow> ictl_handle option \<Rightarrow> ('h, 'r) ictl_state \<Rightarrow> int \<times> u32" where
  "get_setting Resolution = ictlGetResolution"
| "get_setting Quality = ictlGetQuality"
| "get_setting Framerate = ictlGetFraemrate"
| "get_setting Brightness = ictlGetBrightness"
| "get_setting SpeakerVolume = ictlGetSpeakerVolume"
| "get_setting MicVolume = ictlGetMicVolume"

fun setting_msg :: "camera_setting \<Rightarrow> int" where
  "setting_msg Resolution = MSG_CAMERA_RES"
| "setting_msg Quality = MSG_CAMERA_QUALITY"
| "setting_msg Framerate = MSG_CAMERA_FRAMERATE"
| "setting_msg Brightness = MSG_CAMERA_BRIGHTNESS"
| "setting_msg SpeakerVolume = MSG_SPEAKER_VOLUME"
| "setting_msg MicVolume = MSG_MIC_VOLUME"

lemmas ictl_camera_defs = ictlSetResolution_def ictlSetQuality_def ictlSetFramerate_def ictlSetBrightness_def
  ictlSetSpeakerVolume_def ictlSetMicVolume_def

lemmas ictl_camera_gets = ictlGetResolution_def ictlGetQuality_def ictlGetFraemrate_def ictlGetBrightness_def
  ictlGetSpeakerVolume_def ictlGetMicVolume_def get_camera_value_def

definition same_accounts :: "('h, 'r) ictl_state \<Rightarrow> ('h, 'r) ictl_state \<Rightarrow> bool" where
  "same_accounts s t = (ic_http s = ic_http t \<and> ic_rtsp s = ic_rtsp t \<and> cfg_user (ic_cfg s) = cfg_user (ic_cfg t))"

text \<open>A field the setter does not touch.\<close>

definition untouched :: "(u32 \<Rightarrow> cam_cfg \<Rightarrow> cam_cfg) \<Rightarrow> (cam_cfg \<Rightarrow> u32) \<Rightarrow> bool" where
  "untouched put g = (\<forall>v c. g (put v (c\<lparr>bDefaultImg := False\<rparr>)) = g c)"

lemma set_camera_value_run:
  assumes "config_saved E s" and "\<And>v c. get (put v c) = v"
  shows "\<exists>s'. set_camera_value E msg get put v s = Inr (ICTL_OK, s') \<and> config_saved E s'
     \<and> get (cam_of s') = v \<and> (\<forall>g. untouched put g \<longrightarrow> g (cam_of s') = g (cam_of s))
     \<and> sent_msgs s' = sent_msgs s @ [(msg, v)] \<and> same_accounts s' s"
proof (cases "v = get (cam_of s)")
  case True
  then show ?thesis
    using assms(1)
    by (simp add: set_camera_value_def SendCameraMsg_def Let_def config_saved_def ictl_ok_def same_accounts_def)
next
  case False
  let ?c = "put v ((cam_of s)\<lparr>bDefaultImg := False\<rparr>)"
  let ?s = "s\<lparr>sent_msgs := sent_msgs s @ [(msg, v)], ic_cfg := (ic_cfg s)\<lparr>cfg_cam := ?c\<rparr>\<rparr>"
  have "ictl_ok E ?s" using assms(1) by (simp add: config_saved_def ictl_ok_def)
  from save_config_ok [OF this] obtain f where
    f: "save_config E ?s = Inr (?s\<lparr>ic_flash := f\<rparr>)" "config_saved E (?s\<lparr>ic_flash := f\<rparr>)" by blast
  have "set_camera_value E msg get put v s = Inr (ICTL_OK, ?s\<lparr>ic_flash := f\<rparr>)"
    using False f(1) by (simp add: set_camera_value_def SendCameraMsg_def upd_cam_def Let_def)
  then show ?thesis
    using f(2) assms(2) by (intro exI [of _ "?s\<lparr>ic_flash := f\<rparr>"]) (simp add: untouched_def same_accounts_def)
qed

lemma set_setting_run:
  assumes "config_saved E s" and "\<not> unauthorized AUTH_ADMIN h" and "k = Quality \<Longrightarrow> v \<in> {0, 1, 2}"
  shows "\<exists>s'. set_setting E k h v s = Inr (ICTL_OK, s') \<and> config_saved E s'
     \<and> get_setting k h s' = (ICTL_OK, v) \<and> (\<forall>j. j \<noteq> k \<longrightarrow> get_setting j h s' = get_setting j h s)
     \<and> sent_msgs s' = sent_msgs s @ [(setting_msg k, v)] \<and> same_accounts s' s"
proof -
  define get :: "camera_setting \<Rightarrow> cam_cfg \<Rightarrow> u32" where "get = (\<lambda>k. case k of Resolution \<Rightarrow> ulImgResolution | Quality \<Rightarrow> ulImgQuality | Framerate \<Rightarrow> ulImgFramerate
    | Brightness \<Rightarrow> ulImgBrightness | SpeakerVolume \<Rightarrow> ulSpeakerVolume | MicVolume \<Rightarrow> ulMicVolume)"
  define put :: "u32 \<Rightarrow> cam_cfg \<Rightarrow> cam_cfg" where "put = (case k of Resolution \<Rightarrow> (\<lambda>v c. c\<lparr>ulImgResolution := v\<rparr>)
    | Quality \<Rightarrow> (\<lambda>v c. c\<lparr>ulImgQuality := v\<rparr>) | Framerate \<Rightarrow> (\<lambda>v c. c\<lparr>ulImgFramerate := v\<rparr>)
    | Brightness \<Rightarrow> (\<lambda>v c. c\<lparr>ulImgBrightness := v\<rparr>) | SpeakerVolume \<Rightarrow> (\<lambda>v c. c\<lparr>ulSpeakerVolume := v\<rparr>)
    | MicVolume \<Rightarrow> (\<lambda>v c. c\<lparr>ulMicVolume := v\<rparr>))"
  have g: "get_setting j h t = (ICTL_OK, get j (cam_of t))" for j t
    using assms(2) by (cases j) (simp_all add: get_def ictl_camera_gets)
  have "sint v \<in> {0, 1, 2}" if "k = Quality" using assms(3) [OF that] by auto
  then have s: "set_setting E k h v s = set_camera_value E (setting_msg k) (get k) put v s"
    using assms(2) by (cases k) (auto simp: get_def put_def ictl_camera_defs)
  have gp: "get k (put v c) = v" for v c by (cases k) (simp_all add: get_def put_def)
  have un: "untouched put (get j)" if "j \<noteq> k" for j
    using that by (cases k; cases j) (simp_all add: get_def put_def untouched_def)
  from set_camera_value_run [OF assms(1), of "get k" put "setting_msg k" v, OF gp] obtain s' where
    "set_camera_value E (setting_msg k) (get k) put v s = Inr (ICTL_OK, s')" "config_saved E s'"
    "get k (cam_of s') = v" "\<forall>g. untouched put g \<longrightarrow> g (cam_of s') = g (cam_of s)"
    "sent_msgs s' = sent_msgs s @ [(setting_msg k, v)]" "same_accounts s' s" by blast
  then show ?thesis using un by (intro exI [of _ s']) (simp add: s g)
qed

text \<open>
  A setting an administrator makes takes effect and lasts: the camera thread gets its message, the getter
  returns the new value, every other setting keeps its own, the accounts are untouched, and the flash holds the
  configuration that is in memory, as it did before.
\<close>

theorem setting_persists:
  assumes "config_saved E s" and "\<not> unauthorized AUTH_ADMIN h" and "k = Quality \<Longrightarrow> v \<in> {0, 1, 2}"
  shows "\<exists>s'. set_setting E k h v s = Inr (ICTL_OK, s') \<and> config_saved E s'
     \<and> get_setting k h s' = (ICTL_OK, v) \<and> (\<forall>j. j \<noteq> k \<longrightarrow> get_setting j h s' = get_setting j h s)
     \<and> sent_msgs s' = sent_msgs s @ [(setting_msg k, v)] \<and> same_accounts s' s"
  using assms by (rule set_setting_run)

theorem setting_persists_witness:
  "\<exists>t s'. config_saved example_env t
     \<and> set_setting example_env Brightness admin_handle 9 t = Inr (ICTL_OK, s') \<and> config_saved example_env s'
     \<and> get_setting Brightness admin_handle s' = (ICTL_OK, 9)"
proof -
  from save_config_ok [OF example_ictl_ok] obtain f where "config_saved example_env (example_state\<lparr>ic_flash := f\<rparr>)" by blast
  moreover have "\<not> unauthorized AUTH_ADMIN admin_handle" by (simp add: unauthorized_def admin_handle_def AUTH_ADMIN_def)
  ultimately show ?thesis
    using setting_persists [of example_env "example_state\<lparr>ic_flash := f\<rparr>" admin_handle Brightness 9] by auto
qed

text \<open>
  The web commands for these settings ask for the privilege of a user, the operations they call for that of an
  administrator: a user's request is answered and logged as a change, and changes nothing.
\<close>

fun change_setting :: "('h, 'r) ictl_env \<Rightarrow> text_lib \<Rightarrow> camera_setting \<Rightarrow> request \<Rightarrow> 64 word \<Rightarrow> ('h, 'r) ictl_state handler" where
  "change_setting E T Resolution = Config_ChResolution E T"
| "change_setting E T Quality = Config_ChCompressRatio E T"
| "change_setting E T Framerate = Config_ChFramerate E T"
| "change_setting E T Brightness = Config_ChBrightness E T"
| "change_setting E T SpeakerVolume = Config_ChSpeakerVolume E T"
| "change_setting E T MicVolume = Config_ChMicVolume E T"

lemmas change_defs = Config_ChResolution_def Config_ChCompressRatio_def Config_ChFramerate_def Config_ChBrightness_def
  Config_ChSpeakerVolume_def Config_ChMicVolume_def change_command_def

fun setting_param :: "camera_setting \<Rightarrow> string" where
  "setting_param Resolution = ''ResType''"
| "setting_param Quality = ''Ratio''"
| "setting_param Framerate = ''Framerate''"
| "setting_param Brightness = ''Brightness''"
| "setting_param SpeakerVolume = ''SpeakerVolume''"
| "setting_param MicVolume = ''MicVolume''"

theorem user_change_only_logged:
  assumes "Privilege (rq_handle rq) = AUTH_USER" and "httpGetString ps (setting_param k) \<noteq> []"
  shows "change_setting E T k rq now ps CA_AUTH s = Inr (AUTH_USER, [], s)
     \<and> (\<exists>kind. change_setting E T k rq now ps CA_CONFIG s =
          Inr (0, [], log_common kind (httpLong2String T (httpGetLong T ps (setting_param k))) rq now s))"
proof -
  have "unauthorized AUTH_ADMIN (Some (rq_handle rq))" using assms(1) by (simp add: unauthorized_def auth_defs)
  then show ?thesis using assms(2) by (cases k) (auto simp: change_defs ictl_camera_defs Let_def)
qed

definition example_text :: text_lib where
  "example_text = \<lparr>httpParseString = (\<lambda>t. if t = ''Enable=1&IP=a'' then [(''Enable'', ''1''), (''IP'', ''a'')] else []),
     httpSplitBuffer = (\<lambda>t _. [t]), httpGetCStyleString = Some, httpString2Bool = (\<lambda>t. t = ''1''),
     httpString2Long = (\<lambda>_. 0), httpLong2String = (\<lambda>w. dec (unat w))\<rparr>"

theorem user_change_only_logged_witness:
  "\<exists>kind. change_setting example_env example_text Brightness bob_request 0 [(''Brightness'', ''9'')] CA_CONFIG example_state =
     Inr (0, [], log_common kind (dec 0) bob_request 0 example_state)"
  using user_change_only_logged [of bob_request "[(''Brightness'', ''9'')]" Brightness example_env example_text 0 example_state]
  by (simp add: bob_request_def httpGetString_def httpGetLong_def AUTH_USER_def example_text_def)

text \<open>
  The quality levels announced and accepted differ: the capability is 0 to 3, but level 3 is refused, like every
  level that is not 0, 1 or 2.
\<close>

theorem quality_capability_refused:
  assumes "\<not> unauthorized AUTH_ADMIN h"
  shows "ictlGetQualityCapability h = (ICTL_OK, 0, 3)
     \<and> (v \<notin> {0, 1, 2} \<longrightarrow> ictlSetQuality E h v s = Inr (ICTL_INVALID_PARAMETERS, s))"
proof -
  have "v \<in> {0, 1, 2}" if "0 \<le> sint v" "sint v \<le> 2"
  proof -
    from that have "sint v = 0 \<or> sint v = 1 \<or> sint v = 2" by linarith
    moreover have "v = word_of_int (sint v)" by simp
    ultimately show ?thesis by (elim disjE) (simp_all only: word_of_int_0 word_of_int_1 word_of_int_numeral insert_iff simp_thms)
  qed
  then show ?thesis using assms by (auto simp: ictlGetQualityCapability_def ictlSetQuality_def not_le not_less)
qed

theorem quality_capability_refused_witness:
  "ictlSetQuality example_env admin_handle 3 example_state = Inr (ICTL_INVALID_PARAMETERS, example_state)"
  using quality_capability_refused [of admin_handle 3 example_env example_state]
  by (simp add: unauthorized_def admin_handle_def AUTH_ADMIN_def)

end
