(* ===== verification/NetSettings.thy ===== *)
theory NetSettings
  imports CameraSettings
begin

section \<open>Network settings (ConfigInterface/configinterface.c, System.c, Wireless/wlan0.c)\<close>

text \<open>
  Addresses, wireless parameters, hardware addresses, server ports and the factory defaults: the operations of the
  configuration interface and the web commands for them. The interfaces are \<open>eth1\<close> (0) and \<open>wlan0\<close> (1). What the
  operating system and the libraries contribute is \<open>net_lib\<close>: conversions, the driver's answers, and the contents of
  stack memory where the code reads it before writing it.
\<close>

record net_lib =
  httpString2IP :: "string \<Rightarrow> u32"
  httpIP2String :: "u32 \<Rightarrow> string"
  httpHex2Char :: "string \<Rightarrow> char"
  httpChar2Hex :: "char \<Rightarrow> string"
  driver_mode :: "u32 option"
  current_ip :: "u32 \<times> u32"
  bootp_gateway :: u32
  dhcp_bound :: bool
  dhcp_finished :: bool
  random_ip :: u32
  ip_state :: string
  wifi_state :: string
  hw_mac :: "char list"
  stack_bytes :: "u8 list"

definition g_apcNetworkInterface :: "string list" where
  "g_apcNetworkInterface = [''eth1'', ''wlan0'']"

definition g_apcWlanOperationMode :: "string list" where
  "g_apcWlanOperationMode = [''Auto'', ''Ad-Hoc'', ''Managed'', ''Master'', ''Repeater'', ''Secondary'']"

text \<open>The search loops over those tables: the first entry equal up to case.\<close>

fun caseless_index :: "string \<Rightarrow> string list \<Rightarrow> nat option" where
  "caseless_index t [] = None"
| "caseless_index t (x # xs) = (if caseless_eq x t then Some 0 else map_option Suc (caseless_index t xs))"

definition upd_net :: "(net_cfg \<Rightarrow> net_cfg) \<Rightarrow> ('h, 'r) ictl_state \<Rightarrow> ('h, 'r) ictl_state" where
  "upd_net f s = s\<lparr>ic_cfg := (ic_cfg s)\<lparr>cfg_net := f (cfg_net (ic_cfg s))\<rparr>\<rparr>"

abbreviation net_of :: "('h, 'r) ictl_state \<Rightarrow> net_cfg" where
  "net_of s \<equiv> cfg_net (ic_cfg s)"

abbreviation wlan_of :: "('h, 'r) ictl_state \<Rightarrow> wlan_cfg" where
  "wlan_of s \<equiv> cfg_wlan (ic_cfg s)"

definition httpGetIP :: "net_lib \<Rightarrow> params \<Rightarrow> string \<Rightarrow> u32" where
  "httpGetIP N ps n = (case map_of ps n of None \<Rightarrow> 0 | Some v \<Rightarrow> httpString2IP N v)"

subsection \<open>Addresses\<close>

text \<open>
  \<open>GetPubIPInfo\<close>: address and mask from the driver; gateway and name servers from the configuration when they are
  assigned manually, else from DHCP (its gateway serves as name server); while DHCP has no lease, a random
  address once it has given up and zeros before.
\<close>

definition GetPubIPInfo :: "net_lib \<Rightarrow> ('h, 'r) ictl_state \<Rightarrow> u32 \<times> u32 \<times> u32 \<times> u32 list" where
  "GetPubIPInfo N s =
     (let manual = (aucIPAssignedWay (net_of s) ! 1 = IP_ASSIGNMENT_MANUALLY) in
      case current_ip N of (ip, nmask) \<Rightarrow>
        if aucIPAssignedWay (net_of s) ! 1 = IP_ASSIGNMENT_DHCP \<and> \<not> dhcp_bound N
        then if dhcp_finished N then (random_ip N, 0x0000FFFF, random_ip N, [0, 0, 0])
             else (0, 0xFFFFFFFF, 0, [0, 0, 0])
        else if manual then (ip, nmask, ulAsGateway (net_of s) ! 1, aulAsDNS (net_of s))
        else (ip, nmask, bootp_gateway N, [bootp_gateway N, 0, 0]))"

definition ictlGetIP ::
  "net_lib \<Rightarrow> ictl_handle option \<Rightarrow> nat \<Rightarrow> ('h, 'r) ictl_state \<Rightarrow> int \<times> string \<times> (u32 \<times> u32 \<times> u32) \<times> u32 list" where
  "ictlGetIP N pHandle maxnum s =
     (if unauthorized AUTH_USER pHandle then (ICTL_UNAUTHORIZED, [], (0, 0, 0), [])
      else case GetPubIPInfo N s of (ip, nmask, gw, dns) \<Rightarrow>
        (ICTL_OK, if aucIPAssignedWay (net_of s) ! 1 = IP_ASSIGNMENT_MANUALLY then ''manually'' else ''dchp'',
         (ip, nmask, gw), take maxnum dns))"

definition ip_way :: "string \<Rightarrow> u8 \<Rightarrow> u8" where
  "ip_way t before = (if caseless_eq t ''manually'' then IP_ASSIGNMENT_MANUALLY
     else if caseless_eq t ''dhcp'' then IP_ASSIGNMENT_DHCP else before)"

definition ictlSetIP ::
  "('h, 'r) ictl_env \<Rightarrow> ictl_handle option \<Rightarrow> string \<Rightarrow> u32 \<Rightarrow> u32 \<Rightarrow> u32 \<Rightarrow> u32 list \<Rightarrow> ('h, 'r) ictl_state
     \<Rightarrow> (int \<times> ('h, 'r) ictl_state) checked" where
  "ictlSetIP E pHandle way ipadd gw netmask dns s =
     (if unauthorized AUTH_ADMIN pHandle then Inr (ICTL_UNAUTHORIZED, s)
      else bnd (save_config E (upd_net (\<lambda>n. n\<lparr>
                  aucIPAssignedWay := (aucIPAssignedWay n)[1 := ip_way way (aucIPAssignedWay n ! 1)],
                  ulAsIPAddress := (ulAsIPAddress n)[1 := ipadd],
                  ulAsGateway := (ulAsGateway n)[1 := gw],
                  ulAsNetmask := (ulAsNetmask n)[1 := netmask],
                  aulAsDNS := blit 0 (take 3 dns) (aulAsDNS n)\<rparr>) s))
             (\<lambda>s1. Inr (ICTL_OK, s1)))"

definition CL_SET_IP :: int where "CL_SET_IP = 31"
definition CL_SET_HTTPPORT :: int where "CL_SET_HTTPPORT = 32"
definition CL_SET_NAME :: int where "CL_SET_NAME = 33"
definition CL_SET_WLAN :: int where "CL_SET_WLAN = 34"

text \<open>
  The client's address, with which a request from the device itself (127.0.0.1) is recognised.
\<close>

definition local_or :: "int \<Rightarrow> u32 \<Rightarrow> int" where
  "local_or need ulClientIP = (if ulClientIP = 0x0100007f then AUTH_ANY else need)"

text \<open>
  \<open>Config_SetIP\<close>, in the order of the code. Asked for the privilege it needs, it locks \<open>g_rmutex\<close> and leaves it
  locked. \<open>pcIPAssignedWay\<close> is only set for a known interface, but logged for any change.
\<close>

definition dns_name :: "nat \<Rightarrow> string" where
  "dns_name i = ''DNS'' @ dec i"

definition set_dns :: "net_lib \<Rightarrow> params \<Rightarrow> u32 list \<Rightarrow> u32 list" where
  "set_dns N ps old = map (\<lambda>i. if httpIsExistParam ps (dns_name i) then httpGetIP N ps (dns_name i) else old ! i) [0 ..< 3]"

definition set_interface :: "net_lib \<Rightarrow> text_lib \<Rightarrow> params \<Rightarrow> nat \<Rightarrow> net_cfg \<Rightarrow> net_cfg" where
  "set_interface N T ps i n =
     n\<lparr>abAsNetEnable := (abAsNetEnable n)[i := httpGetBool T ps ''Enable''],
       aucIPAssignedWay := (aucIPAssignedWay n)[i := ip_way (httpGetString ps ''IPWay'') (aucIPAssignedWay n ! i)],
       ulAsIPAddress := (if httpIsExistParam ps ''IP'' then (ulAsIPAddress n)[i := httpGetIP N ps ''IP'']
                         else ulAsIPAddress n),
       ulAsNetmask := (if httpIsExistParam ps ''Netmask'' then (ulAsNetmask n)[i := httpGetIP N ps ''Netmask'']
                       else ulAsNetmask n),
       ulAsGateway := (if httpIsExistParam ps ''Gateway'' then (ulAsGateway n)[i := httpGetIP N ps ''Gateway'']
                       else ulAsGateway n)\<rparr>"

definition interface_changed :: "params \<Rightarrow> nat \<Rightarrow> net_cfg \<Rightarrow> net_cfg \<Rightarrow> bool" where
  "interface_changed ps i n n' =
     (abAsNetEnable n' ! i \<noteq> abAsNetEnable n ! i \<or> aucIPAssignedWay n' ! i \<noteq> aucIPAssignedWay n ! i
      \<or> httpIsExistParam ps ''IP'' \<or> httpIsExistParam ps ''Netmask'' \<or> httpIsExistParam ps ''Gateway'')"

definition interface_param :: "params \<Rightarrow> nat option" where
  "interface_param ps = caseless_index
     (if httpIsExistParam ps ''Interface'' then httpGetString ps ''Interface'' else ''wlan0'') g_apcNetworkInterface"

definition Config_SetIP ::
  "('h, 'r) ictl_env \<Rightarrow> net_lib \<Rightarrow> text_lib \<Rightarrow> u32 \<Rightarrow> request \<Rightarrow> 64 word \<Rightarrow> ('h, 'r) ictl_state handler" where
  "Config_SetIP E N T ulClientIP rq now ps iAction s =
     (case iAction of
        CA_AUTH \<Rightarrow> Inr (local_or AUTH_ADMIN ulClientIP, [], s\<lparr>rmutex_depth := rmutex_depth s + 1\<rparr>)
      | CA_CONFIG \<Rightarrow>
          let named = httpIsExistParam ps ''CameraName'';
              s1 = upd_net (\<lambda>n. if named
                    then n\<lparr>acCameraName := httpMyStrncpy (lib E) (httpGetString ps ''CameraName'') 19\<rparr> else n) s;
              iInterface = interface_param ps;
              s2 = (case iInterface of None \<Rightarrow> s1 | Some i \<Rightarrow> upd_net (set_interface N T ps i) s1);
              ifch = (case iInterface of None \<Rightarrow> False | Some i \<Rightarrow> interface_changed ps i (net_of s1) (net_of s2));
              s3 = upd_net (\<lambda>n. n\<lparr>aulAsDNS := set_dns N ps (aulAsDNS n)\<rparr>) s2;
              bIsChange = (named \<or> ifch \<or> (\<exists>i\<in>{0, 1, 2}. httpIsExistParam ps (dns_name i)));
              unlock = (\<lambda>t. t\<lparr>rmutex_depth := rmutex_depth t - 1\<rparr>)
          in if bIsChange
             then (case iInterface of
                     None \<Rightarrow> Inl Uninitialised
                   | Some _ \<Rightarrow> bnd (save_config E (log_common CL_SET_IP (httpGetString ps ''IPWay'') rq now s3))
                                (\<lambda>s4. Inr (0, [], unlock s4)))
             else Inr (0, [], unlock s3)
      | CA_other \<Rightarrow> Inr (- 1, [], s))"

definition Config_GetIP :: "net_lib \<Rightarrow> text_lib \<Rightarrow> u32 \<Rightarrow> ('h, 'r) ictl_state handler" where
  "Config_GetIP N T ulClientIP ps iAction s =
     (case iAction of
        CA_AUTH \<Rightarrow> Inr (local_or AUTH_USER ulClientIP, [], s)
      | CA_CONFIG \<Rightarrow>
          let n = net_of s;
              dns = map (\<lambda>i. (dns_name i, httpIP2String N (aulAsDNS n ! i))) [0 ..< 3];
              ifc = (case interface_param ps of None \<Rightarrow> []
                | Some i \<Rightarrow> [(''Enable'', httpLong2String T (if abAsNetEnable n ! i then 1 else 0)),
                     (''IPWay'', if aucIPAssignedWay n ! i = IP_ASSIGNMENT_MANUALLY then ''manually'' else ''dhcp''),
                     (''IP'', httpIP2String N (ulAsIPAddress n ! i)),
                     (''Netmask'', httpIP2String N (ulAsNetmask n ! i)),
                     (''Gateway'', httpIP2String N (ulAsGateway n ! i))])
          in case GetPubIPInfo N s of (ip, nmask, gw, cdns) \<Rightarrow>
               Inr (0, (''CameraName'', acCameraName n) # dns @ ifc
                    @ [(''CurrentIP'', httpIP2String N ip), (''CurrentNetmask'', httpIP2String N nmask),
                       (''CurrentGateway'', httpIP2String N gw)]
                    @ map (\<lambda>i. (''CurrentDNS'' @ dec i, httpIP2String N (cdns ! i))) [0 ..< 3]
                    @ [(''CurrentIPState'', ip_state N)], s)
      | CA_other \<Rightarrow> Inr (- 1, [], s))"

subsection \<open>Name and ports\<close>

definition Config_SetName :: "('h, 'r) ictl_env \<Rightarrow> request \<Rightarrow> 64 word \<Rightarrow> ('h, 'r) ictl_state handler" where
  "Config_SetName E rq now ps iAction s =
     (case iAction of
        CA_AUTH \<Rightarrow> Inr (AUTH_ADMIN, [], s)
      | CA_CONFIG \<Rightarrow>
          if httpIsExistParam ps ''CameraName''
          then let s1 = upd_net (\<lambda>n. n\<lparr>acCameraName := httpMyStrncpy (lib E) (httpGetString ps ''CameraName'') 19\<rparr>) s
               in bnd (save_config E (log_common CL_SET_NAME (acCameraName (net_of s1)) rq now s1)) (\<lambda>s2. Inr (0, [], s2))
          else Inr (0, [], s)
      | CA_other \<Rightarrow> Inr (- 1, [], s))"

definition Config_GetName :: "('h, 'r) ictl_state handler" where
  "Config_GetName ps iAction s =
     (case iAction of
        CA_AUTH \<Rightarrow> Inr (AUTH_USER, [], s)
      | CA_CONFIG \<Rightarrow> Inr (0, [(''CameraName'', acCameraName (net_of s))], s)
      | CA_other \<Rightarrow> Inr (- 1, [], s))"

text \<open>
  \<open>Config_SetHttp\<close>: \<open>Port\<close> sets both ports, \<open>Port0\<close> and \<open>Port1\<close> then one each; the device restarts in any case.
\<close>

definition set_ports :: "text_lib \<Rightarrow> params \<Rightarrow> u16 list \<Rightarrow> u16 list" where
  "set_ports T ps old =
     (let base = (if httpIsExistParam ps ''Port'' then [ucast (httpGetLong T ps ''Port''), 0] else old)
      in map (\<lambda>i. if httpIsExistParam ps (''Port'' @ dec i) then ucast (httpGetLong T ps (''Port'' @ dec i)) else base ! i)
           [0 ..< 2])"

definition Config_SetHttp ::
  "('h, 'r) ictl_env \<Rightarrow> text_lib \<Rightarrow> u32 \<Rightarrow> request \<Rightarrow> 64 word \<Rightarrow> ('h, 'r) ictl_state handler" where
  "Config_SetHttp E T ulClientIP rq now ps iAction s =
     (case iAction of
        CA_AUTH \<Rightarrow> Inr (local_or AUTH_ADMIN ulClientIP, [], s)
      | CA_CONFIG \<Rightarrow>
          let bIsChange = (httpIsExistParam ps ''Port'' \<or> (\<exists>i\<in>{0, 1}. httpIsExistParam ps (''Port'' @ dec i)));
              s1 = upd_net (\<lambda>n. n\<lparr>usHttpPort := set_ports T ps (usHttpPort n)\<rparr>) s
          in bnd (if bIsChange then save_config E (log_common CL_SET_HTTPPORT (httpGetString ps ''Port'') rq now s1)
                  else Inr s1)
               (\<lambda>s2. Inr (0, [], s2\<lparr>reboot := RebootNow\<rparr>))
      | CA_other \<Rightarrow> Inr (- 1, [], s))"

definition Config_GetHttp :: "text_lib \<Rightarrow> ('h, 'r) ictl_state handler" where
  "Config_GetHttp T ps iAction s =
     (case iAction of
        CA_AUTH \<Rightarrow> Inr (AUTH_USER, [], s)
      | CA_CONFIG \<Rightarrow>
          Inr (0, map (\<lambda>i. (''Port'' @ dec i, httpLong2String T (ucast (usHttpPort (net_of s) ! i)))) [0 ..< 2], s)
      | CA_other \<Rightarrow> Inr (- 1, [], s))"

definition Config_Reboot :: "u32 \<Rightarrow> ('h, 'r) ictl_state handler" where
  "Config_Reboot ulClientIP ps iAction s =
     (case iAction of
        CA_AUTH \<Rightarrow> Inr (local_or AUTH_ADMIN ulClientIP, [], s)
      | CA_CONFIG \<Rightarrow> Inr (0, [(''Return'', ''OK'')], s\<lparr>reboot := RebootOnClose\<rparr>)
      | CA_other \<Rightarrow> Inr (- 1, [], s))"

definition ictlReboot :: "ictl_handle option \<Rightarrow> ('h, 'r) ictl_state \<Rightarrow> int \<times> ('h, 'r) ictl_state" where
  "ictlReboot pHandle s =
     (if unauthorized AUTH_ADMIN pHandle then (ICTL_UNAUTHORIZED, s) else (ICTL_OK, s\<lparr>reboot := RebootNow\<rparr>))"

subsection \<open>Factory defaults\<close>

text \<open>
  \<open>__WriteFlashMemory(&g_ConfigParam, bResetCheckSum, bOnDefaultArea)\<close>, and the same with the checksum spoiled
  first, which makes the next start fall back to the defaults.
\<close>

definition write_area ::
  "('h, 'r) ictl_env \<Rightarrow> bool \<Rightarrow> bool \<Rightarrow> ('h, 'r) ictl_state \<Rightarrow> ('h, 'r) ictl_state checked" where
  "write_area E bReset bDefault s =
     (case WriteFlashMemory_gen (brd E) bReset bDefault ((ic_flash s)\<lparr>g_ConfigParam := image_of E (ic_cfg s)\<rparr>) of
        None \<Rightarrow> Inl Hang
      | Some (_, f) \<Rightarrow> Inr (s\<lparr>ic_flash := f\<rparr>))"

definition spoil_config :: "('h, 'r) ictl_env \<Rightarrow> ('h, 'r) ictl_state \<Rightarrow> ('h, 'r) ictl_state checked" where
  "spoil_config E s =
     (let img = image_of E (ic_cfg s);
          bad = set_ulCheckSum (brd E) (GetConfigCheckSum (brd E) img + 1) img
      in case WriteFlashMemory_gen (brd E) False False ((ic_flash s)\<lparr>g_ConfigParam := bad\<rparr>) of
           None \<Rightarrow> Inl Hang
         | Some (_, f) \<Rightarrow> Inr (s\<lparr>ic_flash := f\<rparr>))"

definition ictlSetFactoryDefault ::
  "('h, 'r) ictl_env \<Rightarrow> ictl_handle option \<Rightarrow> ('h, 'r) ictl_state \<Rightarrow> (int \<times> ('h, 'r) ictl_state) checked" where
  "ictlSetFactoryDefault E pHandle s =
     (if unauthorized AUTH_ADMIN pHandle then Inr (ICTL_UNAUTHORIZED, s)
      else bnd (spoil_config E s) (\<lambda>s1. Inr (ICTL_OK, s1)))"

definition ictlUpdateFactoryDefault ::
  "('h, 'r) ictl_env \<Rightarrow> ictl_handle option \<Rightarrow> ('h, 'r) ictl_state \<Rightarrow> (int \<times> ('h, 'r) ictl_state) checked" where
  "ictlUpdateFactoryDefault E pHandle s =
     (if unauthorized AUTH_ADMIN pHandle then Inr (ICTL_UNAUTHORIZED, s)
      else bnd (write_area E True True s) (\<lambda>s1. Inr (ICTL_OK, s1)))"

subsection \<open>The hardware address\<close>

definition ictlSetMac ::
  "('h, 'r) ictl_env \<Rightarrow> ictl_handle option \<Rightarrow> u8 list \<Rightarrow> ('h, 'r) ictl_state \<Rightarrow> (int \<times> ('h, 'r) ictl_state) checked" where
  "ictlSetMac E pHandle Mac s =
     (if unauthorized AUTH_ADMIN pHandle then Inr (ICTL_UNAUTHORIZED, s)
      else bnd (save_config E (upd_net (\<lambda>n. n\<lparr>acMAC := (acMAC n)[1 := take 6 Mac],
                                              abUseHardwareMac := (abUseHardwareMac n)[1 := False]\<rparr>) s))
             (\<lambda>s1. Inr (ICTL_OK, s1)))"

definition ictlSetDefaultMac ::
  "('h, 'r) ictl_env \<Rightarrow> net_lib \<Rightarrow> ictl_handle option \<Rightarrow> ('h, 'r) ictl_state \<Rightarrow> (int \<times> ('h, 'r) ictl_state) checked" where
  "ictlSetDefaultMac E N pHandle s =
     (if unauthorized AUTH_ADMIN pHandle then Inr (ICTL_UNAUTHORIZED, s)
      else bnd (write_area E True True
                 (upd_net (\<lambda>n. n\<lparr>abUseHardwareMac := (abUseHardwareMac n)[1 := True]\<rparr>)
                    (s\<lparr>ic_cfg := InitDefaultParam (httpString2IP N)\<rparr>)))
             (\<lambda>s1. bnd (spoil_config E s1) (\<lambda>s2. Inr (ICTL_OK, s2))))"

text \<open>\<open>strtol(t, NULL, 16)\<close> of the C library.\<close>

definition hex_val :: "char \<Rightarrow> nat option" where
  "hex_val c = (let k = of_char c :: nat in
     if 48 \<le> k \<and> k \<le> 57 then Some (k - 48)
     else if 97 \<le> k \<and> k \<le> 102 then Some (k - 87)
     else if 65 \<le> k \<and> k \<le> 70 then Some (k - 55) else None)"

definition is_space :: "char \<Rightarrow> bool" where
  "is_space c = (let k = of_char c :: nat in k = 32 \<or> 9 \<le> k \<and> k \<le> 13)"

definition hex_digits :: "string \<Rightarrow> nat list" where
  "hex_digits t = map (\<lambda>c. the (hex_val c)) (takeWhile (\<lambda>c. hex_val c \<noteq> None) t)"

definition skip_0x :: "string \<Rightarrow> string" where
  "skip_0x t = (case t of a # b # c # r \<Rightarrow>
       if a = CHR ''0'' \<and> (b = CHR ''x'' \<or> b = CHR ''X'') \<and> hex_val c \<noteq> None then c # r else t
     | _ \<Rightarrow> t)"

definition strtol16 :: "string \<Rightarrow> int" where
  "strtol16 t =
     (let u = dropWhile is_space t;
          neg = (u \<noteq> [] \<and> hd u = CHR ''-'');
          v = skip_0x (if u \<noteq> [] \<and> (hd u = CHR ''-'' \<or> hd u = CHR ''+'') then tl u else u);
          n = int (foldl (\<lambda>a d. 16 * a + d) 0 (hex_digits v))
      in if neg then max (- (2 ^ 31)) (- n) else min (2 ^ 31 - 1) n)"

text \<open>
  \<open>Config_SetMac\<close> parses up to six numbers separated by colons into an array on its stack that is not initialised
  before; without a \<open>mac\<close> parameter nothing is written to it at all.
\<close>

fun mac_bytes :: "nat \<Rightarrow> string \<Rightarrow> u8 list" where
  "mac_bytes 0 t = [word_of_int (strtol16 t)]"
| "mac_bytes (Suc n) t =
     (if CHR '':'' \<in> set t
      then word_of_int (strtol16 (takeWhile (\<lambda>c. c \<noteq> CHR '':'') t)) # mac_bytes n (tl (dropWhile (\<lambda>c. c \<noteq> CHR '':'') t))
      else [word_of_int (strtol16 t)])"

definition requested_mac :: "net_lib \<Rightarrow> params \<Rightarrow> u8 list" where
  "requested_mac N ps =
     (if httpIsExistParam ps ''mac'' then blit 0 (mac_bytes 5 (httpGetString ps ''mac'')) (stack_bytes N) else stack_bytes N)"

definition Config_SetMac :: "('h, 'r) ictl_env \<Rightarrow> net_lib \<Rightarrow> request \<Rightarrow> ('h, 'r) ictl_state handler" where
  "Config_SetMac E N rq ps iAction s =
     (case iAction of
        CA_AUTH \<Rightarrow> Inr (AUTH_ADMIN, [], s)
      | CA_CONFIG \<Rightarrow>
          if acMAC (net_of s) ! 1 \<noteq> requested_mac N ps
          then bnd (ictlSetMac E (Some (rq_handle rq)) (requested_mac N ps) s)
                 (\<lambda>(_, s1). Inr (0, [], s1\<lparr>reboot := RebootOnClose\<rparr>))
          else Inr (0, [], s)
      | CA_other \<Rightarrow> Inr (- 1, [], s))"

text \<open>
  \<open>ictlGetMac\<close> answers the address of the device; \<open>Config_GetMac\<close> prints it in place, from the last byte to the
  first, so that no byte is overwritten before it is read.
\<close>

definition ictlGetMac :: "net_lib \<Rightarrow> ictl_handle option \<Rightarrow> nat \<Rightarrow> int \<times> char list" where
  "ictlGetMac N pHandle MacSize =
     (if unauthorized AUTH_ANY pHandle then (ICTL_UNAUTHORIZED, [])
      else if MacSize < 18 then (ICTL_INVALID_PARAMETERS, [])
      else (ICTL_OK, take 6 (hw_mac N)))"

definition print_byte :: "net_lib \<Rightarrow> nat \<Rightarrow> char list \<Rightarrow> char list" where
  "print_byte N i ac = (blit (i * 3) (httpChar2Hex N (ac ! i)) ac)[i * 3 + 2 := (if i \<noteq> 5 then CHR '':'' else CHR 0x00)]"

definition Config_GetMac :: "net_lib \<Rightarrow> request \<Rightarrow> ('h, 'r) ictl_state handler" where
  "Config_GetMac N rq ps iAction s =
     (case iAction of
        CA_AUTH \<Rightarrow> Inr (AUTH_USER, [], s)
      | CA_CONFIG \<Rightarrow>
          let ac = blit 0 (snd (ictlGetMac N (Some (rq_handle rq)) 20)) (replicate 20 (CHR 0x00));
              ac' = fold (print_byte N) [5, 4, 3, 2, 1, 0] ac
          in Inr (0, [(''MAC'', takeWhile (\<lambda>c. c \<noteq> CHR 0x00) ac')], s)
      | CA_other \<Rightarrow> Inr (- 1, [], s))"

subsection \<open>Port forwarding and proxy servers\<close>

definition upd_server :: "(server_cfg \<Rightarrow> server_cfg) \<Rightarrow> ('h, 'r) ictl_state \<Rightarrow> ('h, 'r) ictl_state" where
  "upd_server f s = s\<lparr>ic_cfg := (ic_cfg s)\<lparr>cfg_server := f (cfg_server (ic_cfg s))\<rparr>\<rparr>"

abbreviation server_of :: "('h, 'r) ictl_state \<Rightarrow> server_cfg" where
  "server_of s \<equiv> cfg_server (ic_cfg s)"

definition Config_SetUPnP :: "('h, 'r) ictl_env \<Rightarrow> text_lib \<Rightarrow> ('h, 'r) ictl_state handler" where
  "Config_SetUPnP E T ps iAction s =
     (case iAction of
        CA_AUTH \<Rightarrow> Inr (AUTH_ADMIN, [], s)
      | CA_CONFIG \<Rightarrow>
          let en = (if httpIsExistParam ps ''Enable'' then httpGetBool T ps ''Enable'' else bEnableUPnP (server_of s));
              port = (if httpIsExistParam ps ''Port'' then ucast (httpGetLong T ps ''Port'') else usUPnPPort (server_of s))
          in if en \<noteq> bEnableUPnP (server_of s) \<or> port \<noteq> usUPnPPort (server_of s)
             then bnd (save_config E (upd_server (\<lambda>c. c\<lparr>bEnableUPnP := en, usUPnPPort := port\<rparr>) s))
                    (\<lambda>s1. Inr (0, [], s1\<lparr>reboot := RebootOnClose\<rparr>))
             else Inr (0, [], s)
      | CA_other \<Rightarrow> Inr (- 1, [], s))"

text \<open>A list parameter: \<open>Name<i>\<close> sets entry i, and \<open>Name\<close> alone entry 0.\<close>

definition indexed_changed :: "(params \<Rightarrow> string \<Rightarrow> 'a) \<Rightarrow> params \<Rightarrow> string \<Rightarrow> 'a list \<Rightarrow> bool" where
  "indexed_changed get ps name old =
     (list_ex (\<lambda>i. httpIsExistParam ps (name @ dec i) \<and> get ps (name @ dec i) \<noteq> old ! i) [0 ..< length old]
      \<or> httpIsExistParam ps name \<and> get ps name \<noteq> old ! 0)"

definition indexed_params :: "(params \<Rightarrow> string \<Rightarrow> 'a) \<Rightarrow> params \<Rightarrow> string \<Rightarrow> 'a list \<Rightarrow> 'a list" where
  "indexed_params get ps name old =
     (let new = map (\<lambda>i. if httpIsExistParam ps (name @ dec i) then get ps (name @ dec i) else old ! i) [0 ..< length old]
      in if httpIsExistParam ps name then new[0 := get ps name] else new)"

text \<open>The connection \<open>Config_SetPPP\<close> opens or closes with the tunnel library.\<close>

datatype ppp_event = PPP_connect "string list" "u32 list" string string | PPP_disconnect

definition Config_SetPPP ::
  "('h, 'r) ictl_env \<Rightarrow> text_lib \<Rightarrow> params \<Rightarrow> ca_action \<Rightarrow> ('h, 'r) ictl_state
     \<Rightarrow> (int \<times> ppp_event list \<times> ('h, 'r) ictl_state) checked" where
  "Config_SetPPP E T ps iAction s =
     (case iAction of
        CA_AUTH \<Rightarrow> Inr (AUTH_ADMIN, [], s)
      | CA_CONFIG \<Rightarrow>
          let c = server_of s;
              en = (if httpIsExistParam ps ''Enable'' then httpGetBool T ps ''Enable'' else bPPPEnable c);
              servers = indexed_params httpGetString ps ''Server'' (aacPPPServer c);
              ports = indexed_params (httpGetLong T) ps ''Port'' (aiPPPPort c);
              user = (if httpIsExistParam ps ''User'' then httpGetString ps ''User'' else acPPPUser c);
              pass = (if httpIsExistParam ps ''Pass'' then httpGetString ps ''Pass'' else acPPPPass c);
              bConfigChanged = (en \<noteq> bPPPEnable c \<or> indexed_changed httpGetString ps ''Server'' (aacPPPServer c)
                \<or> indexed_changed (httpGetLong T) ps ''Port'' (aiPPPPort c)
                \<or> user \<noteq> acPPPUser c \<or> pass \<noteq> acPPPPass c);
              cpy = httpMyStrncpy (lib E);
              s1 = upd_server (\<lambda>c. c\<lparr>bPPPEnable := en, aacPPPServer := map (\<lambda>t. cpy t 64) servers, aiPPPPort := ports,
                     acPPPUser := cpy user 24, acPPPPass := cpy pass 24\<rparr>) s
          in bnd (if bConfigChanged then save_config E s1 else Inr s)
               (\<lambda>s2. Inr (0, (if \<not> en then [PPP_disconnect] else [])
                            @ (if en \<and> bConfigChanged then [PPP_connect servers ports user pass] else []), s2))
      | CA_other \<Rightarrow> Inr (- 1, [], s))"

definition Config_GetPPP :: "text_lib \<Rightarrow> bool \<Rightarrow> ('h, 'r) ictl_state handler" where
  "Config_GetPPP T ppot_is_online ps iAction s =
     (case iAction of
        CA_AUTH \<Rightarrow> Inr (AUTH_USER, [], s)
      | CA_CONFIG \<Rightarrow>
          let c = server_of s
          in Inr (0, (''Enable'', httpLong2String T (if bPPPEnable c then 1 else 0))
               # map (\<lambda>i. (''Server'' @ dec i, aacPPPServer c ! i)) [0 ..< MAX_PPP_SERVERS]
               @ map (\<lambda>i. (''Port'' @ dec i, httpLong2String T (aiPPPPort c ! i))) [0 ..< MAX_PPP_SERVERS]
               @ [(''User'', acPPPUser c), (''Pass'', acPPPPass c),
                  (''Status'', if ppot_is_online then ''online'' else ''offline'')], s)
      | CA_other \<Rightarrow> Inr (- 1, [], s))"

subsection \<open>The lock of SetIP\<close>

text \<open>
  A request to set the address that is refused leaves the configuration mutex locked for good: asking the
  handler for the privilege it needs takes the lock, only running it gives the lock back. Every refused request adds one.
\<close>

theorem SetIP_refused_keeps_lock:
  assumes "ulClientIP \<noteq> 0x0100007f" and "priv < AUTH_ADMIN"
  shows "Http_SubCmdRun S (Config_SetIP E N T ulClientIP rq now) priv txt s
     = Inr (0, AuthRequired AUTH_ADMIN, s\<lparr>rmutex_depth := rmutex_depth s + 1\<rparr>)"
  using assms by (simp add: Http_SubCmdRun_def Let_def Config_SetIP_def local_or_def)

definition example_net :: net_lib where
  "example_net = \<lparr>httpString2IP = (\<lambda>t. if t = ''a'' then 7 else 0), httpIP2String = (\<lambda>w. dec (unat w)),
     httpHex2Char = (\<lambda>_. CHR ''A''), httpChar2Hex = (\<lambda>c. [digit (of_char c div 16), digit (of_char c mod 16)]),
     driver_mode = None, current_ip = (1, 2), bootp_gateway = 3, dhcp_bound = True, dhcp_finished = True, random_ip = 4,
     ip_state = ''DHCP_OK'', wifi_state = ''OK'', hw_mac = ''ABCDEF'', stack_bytes = [9, 9, 9, 9, 9, 9]\<rparr>"

definition example_server :: "(example_users, unit) ictl_state web_server" where
  "example_server = \<lparr>wtext = example_text, whttpDumpXML = (\<lambda>_ _ _. []), registered_cmd = (\<lambda>_. None)\<rparr>"

theorem SetIP_refused_keeps_lock_witness:
  "Http_SubCmdRun example_server (Config_SetIP example_env example_net example_text 5 bob_request 0) 0 [] example_state
     = Inr (0, AuthRequired 1, example_state\<lparr>rmutex_depth := 1\<rparr>)"
  using SetIP_refused_keeps_lock [of 5 0 example_server example_env example_net example_text bob_request 0 "[]" example_state]
  by (simp add: AUTH_ADMIN_def example_state_def)

lemma SetIP_run:
  assumes "config_saved E s" and "interface_param ps = Some i" and "i < 2" and "net_fits (net_of s)"
    and "httpIsExistParam ps ''IP''"
  shows "\<exists>s'. Config_SetIP E N T ulClientIP rq now ps CA_CONFIG s = Inr (0, [], s') \<and> config_saved E s'
     \<and> rmutex_depth s' = rmutex_depth s - 1 \<and> same_accounts s' s
     \<and> ulAsIPAddress (net_of s') = (ulAsIPAddress (net_of s))[i := httpGetIP N ps ''IP'']
     \<and> abAsNetEnable (net_of s') ! i = httpGetBool T ps ''Enable''"
proof -
  let ?n1 = "if httpIsExistParam ps ''CameraName''
    then (net_of s)\<lparr>acCameraName := httpMyStrncpy (lib E) (httpGetString ps ''CameraName'') 19\<rparr> else net_of s"
  let ?n2 = "set_interface N T ps i ?n1"
  let ?n = "?n2\<lparr>aulAsDNS := set_dns N ps (aulAsDNS ?n2)\<rparr>"
  let ?s = "log_common CL_SET_IP (httpGetString ps ''IPWay'') rq now (s\<lparr>ic_cfg := (ic_cfg s)\<lparr>cfg_net := ?n\<rparr>\<rparr>)"
  have "ictl_ok E ?s" using assms(1) by (simp add: config_saved_def ictl_ok_def log_common_def)
  from save_config_ok [OF this] obtain f where
    f: "save_config E ?s = Inr (?s\<lparr>ic_flash := f\<rparr>)" "config_saved E (?s\<lparr>ic_flash := f\<rparr>)" by blast
  let ?t = "(?s\<lparr>ic_flash := f\<rparr>)\<lparr>rmutex_depth := rmutex_depth s - 1\<rparr>"
  have ch: "interface_changed ps i n n'" for n n' using assms(5) by (simp add: interface_changed_def)
  have "Config_SetIP E N T ulClientIP rq now ps CA_CONFIG s = Inr (0, [], ?t)"
    using f(1) assms(2) ch by (simp add: Config_SetIP_def upd_net_def Let_def log_common_def cong: if_cong)
  moreover have "config_saved E ?t" using f(2) by (simp add: config_saved_def ictl_ok_def)
  moreover have "same_accounts ?t s" by (simp add: same_accounts_def log_common_def)
  moreover have "ulAsIPAddress (net_of ?t) = (ulAsIPAddress (net_of s))[i := httpGetIP N ps ''IP'']"
    "abAsNetEnable (net_of ?t) ! i = httpGetBool T ps ''Enable''"
    using assms(3-5) by (auto simp: log_common_def set_interface_def net_fits_def)
  ultimately show ?thesis by (intro exI [of _ ?t]) simp
qed

text \<open>
  An authorised request that sets the address of an interface takes effect and lasts: the address is the one given,
  the flash holds the new configuration, the accounts are untouched and the mutex is released.
\<close>

theorem SetIP_persists:
  assumes "config_saved E s" and "interface_param (httpParseString (wtext S) txt) = Some i" and "i < 2"
    and "net_fits (net_of s)" and "httpIsExistParam (httpParseString (wtext S) txt) ''IP''" and "AUTH_ADMIN \<le> priv"
    and "httpGetString (httpParseString (wtext S) txt) ''RedirectUrl'' = []"
  shows "\<exists>r s'. Http_SubCmdRun S (Config_SetIP E N T ulClientIP rq now) priv txt s = Inr (0, r, s')
     \<and> config_saved E s' \<and> rmutex_depth s' = rmutex_depth s \<and> same_accounts s' s
     \<and> ulAsIPAddress (net_of s') = (ulAsIPAddress (net_of s))[i := httpGetIP N (httpParseString (wtext S) txt) ''IP'']"
proof -
  let ?ps = "httpParseString (wtext S) txt" and ?s1 = "s\<lparr>rmutex_depth := rmutex_depth s + 1\<rparr>"
  have "config_saved E ?s1" using assms(1) by (simp add: config_saved_def ictl_ok_def)
  from SetIP_run [OF this assms(2,3) _ assms(5), of N T ulClientIP rq now] assms(4) obtain s' where
    s': "Config_SetIP E N T ulClientIP rq now ?ps CA_CONFIG ?s1 = Inr (0, [], s')" "config_saved E s'"
    "rmutex_depth s' = rmutex_depth s" "same_accounts s' s"
    "ulAsIPAddress (net_of s') = (ulAsIPAddress (net_of s))[i := httpGetIP N ?ps ''IP'']"
    by (auto simp: same_accounts_def)
  have auth: "Config_SetIP E N T ulClientIP rq now ?ps CA_AUTH s = Inr (local_or AUTH_ADMIN ulClientIP, [], ?s1)"
    by (simp add: Config_SetIP_def)
  have "\<not> priv < local_or AUTH_ADMIN ulClientIP" using assms(6) by (auto simp: local_or_def auth_defs)
  then show ?thesis
    using s' assms(7) by (auto simp: Http_SubCmdRun_def Let_def auth Http_SendRedirectRequest_def)
qed

theorem SetIP_persists_witness:
  "\<exists>t r s'. config_saved example_env t
     \<and> Http_SubCmdRun example_server (Config_SetIP example_env example_net example_text 5 bob_request 0) 1
         ''Enable=1&IP=a'' t = Inr (0, r, s')
     \<and> config_saved example_env s' \<and> ulAsIPAddress (net_of s') = [0, 7]"
proof -
  from save_config_ok [OF example_ictl_ok] obtain f where
    "config_saved example_env (example_state\<lparr>ic_flash := f\<rparr>)" by blast
  moreover have "interface_param [(''Enable'', ''1''), (''IP'', ''a'')] = Some 1"
    by (simp add: interface_param_def httpIsExistParam_def g_apcNetworkInterface_def caseless_eq_def lower_def)
  moreover have "net_fits (cfg_net example_config)" "ulAsIPAddress (cfg_net example_config) = [0, 0]"
    by (simp_all add: net_fits_def example_config_def InitDefaultParam_def zero_config_def)
  ultimately show ?thesis
    using SetIP_persists [of example_env "example_state\<lparr>ic_flash := f\<rparr>" example_server "''Enable=1&IP=a''" 1 1
        example_net example_text 5 bob_request 0]
    by (auto simp: example_server_def example_text_def httpIsExistParam_def httpGetString_def httpGetIP_def example_net_def
        AUTH_ADMIN_def)
qed

text \<open>
  A request that changes the name or a name server but names an interface the device does not have reads a
  pointer that was never set.
\<close>

theorem SetIP_unknown_interface:
  assumes "interface_param ps = None" and "httpIsExistParam ps ''CameraName'' \<or> httpIsExistParam ps ''DNS1''"
  shows "Config_SetIP E N T ulClientIP rq now ps CA_CONFIG s = Inl Uninitialised"
proof -
  have "dns_name 1 = ''DNS1''" by (simp add: dns_name_def dec.simps digit_def, code_simp)
  then show ?thesis using assms by (auto simp: Config_SetIP_def Let_def)
qed

theorem SetIP_unknown_interface_witness:
  "Config_SetIP example_env example_net example_text 5 bob_request 0 [(''Interface'', ''ppp0''), (''CameraName'', ''c'')]
     CA_CONFIG example_state = Inl Uninitialised"
  by (rule SetIP_unknown_interface)
    (simp_all add: interface_param_def httpIsExistParam_def httpGetString_def g_apcNetworkInterface_def caseless_eq_def lower_def)

subsection \<open>Printing and parsing hardware addresses\<close>

text \<open>What \<open>httpChar2Hex\<close> promises: two digits, whose values are the two halves of the byte.\<close>

definition hex_law :: "net_lib \<Rightarrow> bool" where
  "hex_law N = (\<forall>c. \<exists>a b. httpChar2Hex N c = [a, b] \<and> hex_val a = Some (of_char c div 16) \<and> hex_val b = Some (of_char c mod 16))"

lemma hex_val_other: "hex_val CHR '':'' = None" "hex_val CHR 0x00 = None" "hex_val CHR ''-'' = None" "hex_val CHR ''+'' = None"
  "hex_val CHR ''x'' = None" "hex_val CHR ''X'' = None" "hex_val CHR 0x20 = None"
  by (simp_all add: hex_val_def)

lemma hex_not_space: "hex_val a \<noteq> None \<Longrightarrow> \<not> is_space a"
  by (auto simp: hex_val_def is_space_def Let_def split: if_splits)

lemma strtol16_two:
  assumes "hex_val a = Some x" and "hex_val b = Some y" and "x < 16" and "y < 16"
  shows "strtol16 (a # b # r) = (case r of c # _ \<Rightarrow> if hex_val c = None then int (16 * x + y) else strtol16 (a # b # r)
     | [] \<Rightarrow> int (16 * x + y))"
proof -
  have ne: "a \<noteq> CHR ''-''" "a \<noteq> CHR ''+''" "b \<noteq> CHR ''x''" "b \<noteq> CHR ''X''"
    using assms(1,2) by (auto simp: hex_val_other)
  have "\<not> is_space a" using assms(1) by (intro hex_not_space) simp
  moreover have "skip_0x (a # b # r) = a # b # r" using ne by (simp add: skip_0x_def split: list.split)
  moreover have "int (16 * x + y) \<le> 255" using assms(3,4) by simp
  ultimately show ?thesis
    using ne assms(1,2) by (auto simp: strtol16_def hex_digits_def Let_def split: list.split)
qed

definition mac_text :: "net_lib \<Rightarrow> char list \<Rightarrow> string" where
  "mac_text N m = concat (map (\<lambda>i. httpChar2Hex N (m ! i) @ (if i \<noteq> 5 then '':'' else [])) [0 ..< 6])"

definition six :: "char list \<Rightarrow> bool" where
  "six m = (\<exists>a b c d e f. m = [a, b, c, d, e, f])"

lemma six_length: "length m = 6 \<Longrightarrow> six m"
  by (auto simp: six_def length_Suc_conv numeral_eq_Suc)

lemma upt_6: "[0 ..< 6] = [0, 1, 2, 3, 4, 5 :: nat]"
  by (simp add: upt_rec)

lemma GetMac_text:
  assumes "hex_law N" and "length m = 6"
  shows "takeWhile (\<lambda>c. c \<noteq> CHR 0x00) (fold (print_byte N) [5, 4, 3, 2, 1, 0] (blit 0 m (replicate 20 (CHR 0x00)))) = mac_text N m"
proof -
  from six_length [OF assms(2)] obtain a b c d e f where m: "m = [a, b, c, d, e, f]" by (auto simp: six_def)
  have "\<exists>h l. httpChar2Hex N c = [h, l] \<and> h \<noteq> CHR 0x00 \<and> l \<noteq> CHR 0x00" for c
  proof -
    from assms(1) obtain h l where "httpChar2Hex N c = [h, l]" "hex_val h = Some (of_char c div 16)"
      "hex_val l = Some (of_char c mod 16)" unfolding hex_law_def by blast
    then show ?thesis by (auto simp: hex_val_other)
  qed
  then obtain h l where hl: "\<And>c. httpChar2Hex N c = [h c, l c]" "\<And>c. h c \<noteq> CHR 0x00" "\<And>c. l c \<noteq> CHR 0x00" by metis
  have "replicate 20 (CHR 0x00) = [CHR 0x00, CHR 0x00, CHR 0x00, CHR 0x00, CHR 0x00, CHR 0x00, CHR 0x00, CHR 0x00, CHR 0x00,
      CHR 0x00, CHR 0x00, CHR 0x00, CHR 0x00, CHR 0x00, CHR 0x00, CHR 0x00, CHR 0x00, CHR 0x00, CHR 0x00, CHR 0x00]"
    by (simp add: numeral_eq_Suc)
  then show ?thesis
    by (simp add: m print_byte_def blit_def hl mac_text_def upt_6)
qed

definition byte_of :: "char \<Rightarrow> u8" where
  "byte_of c = of_nat (of_char c)"

lemma mac_bytes_text:
  assumes "hex_law N" and "length m = 6"
  shows "mac_bytes 5 (mac_text N m) = map byte_of m"
proof -
  from six_length [OF assms(2)] obtain a b c d e f where m: "m = [a, b, c, d, e, f]" by (auto simp: six_def)
  from assms(1) obtain h l where hl: "\<And>c. httpChar2Hex N c = [h c, l c]" "\<And>c. hex_val (h c) = Some (of_char c div 16)"
    "\<And>c. hex_val (l c) = Some (of_char c mod 16)" unfolding hex_law_def by metis
  have ne: "h c \<noteq> CHR '':''" "l c \<noteq> CHR '':''" for c using hl(2,3) [of c] by (auto simp: hex_val_other)
  have num: "of_char c div 16 < (16 :: nat)" "of_char c mod 16 < (16 :: nat)" for c :: char
    using nat_of_char_less_256 [of c] by (simp_all add: less_mult_imp_div_less)
  have "strtol16 [h c, l c] = int (16 * (of_char c div 16) + of_char c mod 16)" for c
    using strtol16_two [OF hl(2,3) num, of c c "[]"] by simp
  then have val: "strtol16 [h c, l c] = int (of_char c)" for c by simp
  show ?thesis
    by (simp add: m mac_text_def upt_6 hl(1) ne ne [symmetric] val byte_of_def numeral_eq_Suc)
qed

text \<open>
  The address the device prints is one it reads back: \<open>Config_GetMac\<close>, which expands the six bytes in place, answers
  six pairs of digits separated by colons, and a request that sets the printed text asks for exactly those bytes.
\<close>

theorem mac_text_roundtrip:
  assumes "hex_law N" and "length (hw_mac N) = 6" and "length (stack_bytes N) = 6" and "AUTH_ANY \<le> Privilege (rq_handle rq)"
  shows "\<exists>t. Config_GetMac N rq ps CA_CONFIG s = Inr (0, [(''MAC'', t)], s) \<and> t = mac_text N (hw_mac N)
     \<and> requested_mac N [(''mac'', t)] = map byte_of (hw_mac N)"
proof -
  have "ictlGetMac N (Some (rq_handle rq)) 20 = (ICTL_OK, hw_mac N)"
    using assms(2,4) by (simp add: ictlGetMac_def unauthorized_def)
  then have "Config_GetMac N rq ps CA_CONFIG s = Inr (0, [(''MAC'', mac_text N (hw_mac N))], s)"
    using GetMac_text [OF assms(1,2)] by (simp add: Config_GetMac_def Let_def)
  moreover have "requested_mac N [(''mac'', mac_text N (hw_mac N))] = map byte_of (hw_mac N)"
    using mac_bytes_text [OF assms(1,2)] assms(2,3)
    by (simp add: requested_mac_def httpIsExistParam_def httpGetString_def blit_def)
  ultimately show ?thesis by blast
qed

definition hex_digit :: "nat \<Rightarrow> char" where
  "hex_digit n = (if n < 10 then char_of (48 + n) else char_of (87 + n))"

definition hex_net :: net_lib where
  "hex_net = example_net\<lparr>httpChar2Hex := (\<lambda>c. [hex_digit (of_char c div 16), hex_digit (of_char c mod 16)])\<rparr>"

lemma hex_val_digit: "n < 16 \<Longrightarrow> hex_val (hex_digit n) = Some n"
  by (simp add: hex_val_def hex_digit_def Let_def)

lemma hex_net_law: "hex_law hex_net"
proof -
  have "of_char c div 16 < (16 :: nat)" "of_char c mod 16 < (16 :: nat)" for c :: char
    using nat_of_char_less_256 [of c] by (simp_all add: less_mult_imp_div_less)
  then show ?thesis by (simp add: hex_law_def hex_net_def hex_val_digit)
qed

theorem mac_text_roundtrip_witness:
  "\<exists>t. Config_GetMac hex_net bob_request [] CA_CONFIG example_state = Inr (0, [(''MAC'', t)], example_state)
     \<and> t = mac_text hex_net ''ABCDEF'' \<and> requested_mac hex_net [(''mac'', t)] = [65, 66, 67, 68, 69, 70]"
  using mac_text_roundtrip [OF hex_net_law, of bob_request "[]" example_state]
  by (simp add: hex_net_def example_net_def bob_request_def AUTH_ANY_def byte_of_def)

text \<open>
  A request to set the hardware address without naming one sets it to whatever six bytes the stack held, saves
  them and schedules a restart.
\<close>

theorem SetMac_from_stack:
  assumes "config_saved E s" and "\<not> httpIsExistParam ps ''mac''" and "stack_bytes N \<noteq> acMAC (net_of s) ! 1"
    and "length (stack_bytes N) = 6" and "net_fits (net_of s)" and "AUTH_ADMIN \<le> Privilege (rq_handle rq)"
  shows "\<exists>s'. Config_SetMac E N rq ps CA_CONFIG s = Inr (0, [], s') \<and> config_saved E s' \<and> reboot s' = RebootOnClose
     \<and> acMAC (net_of s') ! 1 = stack_bytes N \<and> \<not> abUseHardwareMac (net_of s') ! 1"
proof -
  let ?s = "upd_net (\<lambda>n. n\<lparr>acMAC := (acMAC n)[1 := stack_bytes N], abUseHardwareMac := (abUseHardwareMac n)[1 := False]\<rparr>) s"
  have "ictl_ok E ?s" using assms(1) by (simp add: config_saved_def ictl_ok_def upd_net_def)
  from save_config_ok [OF this] obtain f where
    f: "save_config E ?s = Inr (?s\<lparr>ic_flash := f\<rparr>)" "config_saved E (?s\<lparr>ic_flash := f\<rparr>)" by blast
  have "\<not> unauthorized AUTH_ADMIN (Some (rq_handle rq))" using assms(6) by (simp add: unauthorized_def)
  then have "Config_SetMac E N rq ps CA_CONFIG s = Inr (0, [], (?s\<lparr>ic_flash := f\<rparr>)\<lparr>reboot := RebootOnClose\<rparr>)"
    using f(1) assms(2-4) by (simp add: Config_SetMac_def requested_mac_def ictlSetMac_def)
  moreover have "config_saved E ((?s\<lparr>ic_flash := f\<rparr>)\<lparr>reboot := RebootOnClose\<rparr>)"
    using f(2) by (simp add: config_saved_def ictl_ok_def)
  ultimately show ?thesis
    using assms(5) by (intro exI [of _ "(?s\<lparr>ic_flash := f\<rparr>)\<lparr>reboot := RebootOnClose\<rparr>"]) (simp add: upd_net_def net_fits_def)
qed

theorem SetMac_from_stack_witness:
  "\<exists>t s'. config_saved example_env t
     \<and> Config_SetMac example_env example_net (bob_request\<lparr>rq_handle := the admin_handle\<rparr>) [] CA_CONFIG t = Inr (0, [], s')
     \<and> acMAC (net_of s') ! 1 = [9, 9, 9, 9, 9, 9]"
proof -
  from save_config_ok [OF example_ictl_ok] obtain f where
    "config_saved example_env (example_state\<lparr>ic_flash := f\<rparr>)" by blast
  moreover have "net_fits (cfg_net example_config)" "acMAC (cfg_net example_config) ! 1 = [0x00, 0x01, 0x03, 0x20, 0x70, 0x0a]"
    by (simp_all add: net_fits_def example_config_def InitDefaultParam_def zero_config_def)
  ultimately show ?thesis
    using SetMac_from_stack [of example_env "example_state\<lparr>ic_flash := f\<rparr>" "[]" example_net
        "bob_request\<lparr>rq_handle := the admin_handle\<rparr>"]
    by (auto simp: httpIsExistParam_def example_net_def admin_handle_def AUTH_ADMIN_def)
qed

end
