(* ===== verification/WlanSettings.thy ===== *)
theory WlanSettings
  imports NetSettings
begin

section \<open>Wireless settings (ConfigInterface/configinterface.c, Wireless/wlan0.c)\<close>

text \<open>
  Operation mode, network name and keys. \<open>ictlSetWlan\<close> takes a dozen optional C strings; an absent one is the null
  pointer (\<open>None\<close>), and the length tests of the WEP keys really dereference it. The scan for access points walks a
  table of driver events.
\<close>

record wlan_args =
  wa_key :: "string option"
  wa_mode :: "string option"
  wa_channel :: u32
  wa_wepset :: "string option"
  wa_wepasc :: "string option"
  wa_wep64type :: "string option"
  wa_wep128type :: "string option"
  wa_wep64 :: "string option"
  wa_wep128 :: "string option"
  wa_essid :: "string option"

text \<open>Every step maps the wireless part of the configuration and says whether it changed something.\<close>

type_synonym wlan_step = "wlan_cfg \<Rightarrow> wlan_cfg \<times> bool"

definition mode_number :: "text_lib \<Rightarrow> string \<Rightarrow> u32" where
  "mode_number T m = (case caseless_index m g_apcWlanOperationMode of
     Some i \<Rightarrow> of_nat i | None \<Rightarrow> httpString2Long T m)"

definition set_mode :: "net_lib \<Rightarrow> text_lib \<Rightarrow> string option \<Rightarrow> wlan_step" where
  "set_mode N T pcMode w =
     (case pcMode of None \<Rightarrow> (w, False)
      | Some m \<Rightarrow>
          let i = mode_number T m
          in if unat i < length g_apcWlanOperationMode
                \<and> (driver_mode N = None \<or> the (driver_mode N) \<noteq> i \<or> ucWlanOperationMode w \<noteq> ucast i)
             then (w\<lparr>ucWlanOperationMode := ucast i\<rparr>, True)
             else (w, False))"

definition set_essid :: "(string \<Rightarrow> nat \<Rightarrow> string) \<Rightarrow> string option \<Rightarrow> wlan_step" where
  "set_essid cpy pcESSID w =
     (case pcESSID of None \<Rightarrow> (w, False)
      | Some e \<Rightarrow> if acWlanESSID w \<noteq> e then (w\<lparr>acWlanESSID := cpy e 33\<rparr>, True) else (w, False))"

definition wep_set_code :: "string option \<Rightarrow> u8 \<Rightarrow> u8" where
  "wep_set_code pcWepSet before =
     (case pcWepSet of None \<Rightarrow> before
      | Some t \<Rightarrow> if t = ''Disable'' then WEP_SET_DISABLE else if t = ''K64'' then WEP_SET_K64
                  else if t = ''K128'' then WEP_SET_K128 else if t = ''Asc'' then WEP_SET_ASC else before)"

text \<open>\<open>a && b && c && strlen(wep) == short || strlen(wep) == long\<close>, as C evaluates it.\<close>

definition takes_wep_key :: "string option \<Rightarrow> string option \<Rightarrow> bool \<Rightarrow> nat \<Rightarrow> nat \<Rightarrow> bool checked" where
  "takes_wep_key pcWlanKey wep code_ok short long =
     (if pcWlanKey = None \<and> wep \<noteq> None \<and> code_ok \<and> length (the wep) = short then Inr True
      else case wep of None \<Rightarrow> Inl NullDeref | Some t \<Rightarrow> Inr (length t = long))"

definition chosen_key :: "wlan_args \<Rightarrow> u8 \<Rightarrow> string option checked" where
  "chosen_key a code =
     (let key0 = (if wa_wepset a = Some ''Disable'' \<and> wa_key a = None then Some [] else wa_key a)
      in bnd (takes_wep_key key0 (wa_wep64 a) (code = WEP_SET_K64) 5 10) (\<lambda>t64.
         let key1 = (if t64 then wa_wep64 a else key0)
         in bnd (takes_wep_key key1 (wa_wep128 a) (code = WEP_SET_K128) 13 26) (\<lambda>t128.
            let key2 = (if t128 then wa_wep128 a else key1)
            in Inr (if key2 = None \<and> wa_wepasc a \<noteq> None \<and> code = WEP_SET_ASC then wa_wepasc a else key2))))"

definition set_key :: "(string \<Rightarrow> nat \<Rightarrow> string) \<Rightarrow> string option \<Rightarrow> wlan_step" where
  "set_key cpy key w =
     (case key of None \<Rightarrow> (w, False)
      | Some k \<Rightarrow> if acWlanKey w \<noteq> k then (w\<lparr>acWlanKey := cpy k 64\<rparr>, True) else (w, False))"

definition set_channel :: "u32 \<Rightarrow> wlan_step" where
  "set_channel ch w = (if ch \<noteq> 0 \<and> ulWlanChannel w \<noteq> ch then (w\<lparr>ulWlanChannel := ch\<rparr>, True) else (w, False))"

definition set_wep64type :: "string option \<Rightarrow> wlan_step" where
  "set_wep64type ty w =
     (case ty of None \<Rightarrow> (w, False)
      | Some t \<Rightarrow> let b = (if t = ''Wep64ASC'' then True else if t = ''Wep64HEX'' then False else bWep64UseAsc w)
                  in if bWep64UseAsc w \<noteq> b then (w\<lparr>bWep64UseAsc := b\<rparr>, True) else (w, False))"

definition set_wep128type :: "string option \<Rightarrow> wlan_step" where
  "set_wep128type ty w =
     (case ty of None \<Rightarrow> (w, False)
      | Some t \<Rightarrow> let b = (if t = ''Wep128ASC'' then True else if t = ''Wep128HEX'' then False else bWep128UseAsc w)
                  in if bWep128UseAsc w \<noteq> b then (w\<lparr>bWep128UseAsc := b\<rparr>, True) else (w, False))"

definition hex_string :: "net_lib \<Rightarrow> nat \<Rightarrow> string \<Rightarrow> string" where
  "hex_string N k t = map (\<lambda>j. httpHex2Char N (drop (2 * j) t)) [0 ..< k]"

definition set_wep64 :: "net_lib \<Rightarrow> string option \<Rightarrow> wlan_step" where
  "set_wep64 N wep w =
     (let k = (case wep of None \<Rightarrow> acWep64 w
        | Some t \<Rightarrow> if bWep64UseAsc w \<and> length t = 5 then t
                    else if \<not> bWep64UseAsc w \<and> length t = 10 then hex_string N 5 t else acWep64 w)
      in if acWep64 w \<noteq> k then (w\<lparr>acWep64 := k\<rparr>, True) else (w, False))"

definition set_wep128 :: "net_lib \<Rightarrow> string option \<Rightarrow> wlan_step" where
  "set_wep128 N wep w =
     (let hex = (\<exists>t\<in>set_option wep. \<not> bWep128UseAsc w \<and> length t = 26);
          k = (case wep of None \<Rightarrow> acWep128 w
        | Some t \<Rightarrow> if bWep128UseAsc w \<and> length t = 13 then t
                    else if hex then hex_string N 13 t else acWep128 w)
      in (w\<lparr>acWep128 := k\<rparr>, hex \<or> acWep128 w \<noteq> k))"

definition set_wepasc :: "(string \<Rightarrow> nat \<Rightarrow> string) \<Rightarrow> string option \<Rightarrow> wlan_step" where
  "set_wepasc cpy asc w =
     (case asc of None \<Rightarrow> (w, False)
      | Some t \<Rightarrow> if acWepAsc w \<noteq> t then (w\<lparr>acWepAsc := cpy t 14\<rparr>, True) else (w, False))"

definition set_wepset :: "u8 \<Rightarrow> wlan_step" where
  "set_wepset code w = (if ucWepSet w \<noteq> code then (w\<lparr>ucWepSet := code\<rparr>, True) else (w, False))"

fun run_steps :: "wlan_step list \<Rightarrow> wlan_step" where
  "run_steps [] w = (w, False)"
| "run_steps (f # fs) w = (case f w of (w1, c1) \<Rightarrow> case run_steps fs w1 of (w2, c2) \<Rightarrow> (w2, c1 \<or> c2))"

definition wlan_steps :: "(string \<Rightarrow> nat \<Rightarrow> string) \<Rightarrow> net_lib \<Rightarrow> text_lib \<Rightarrow> wlan_args \<Rightarrow> u8 \<Rightarrow> string option \<Rightarrow> wlan_step list" where
  "wlan_steps cpy N T a code key =
     [set_mode N T (wa_mode a), set_essid cpy (wa_essid a), set_wepset code, set_key cpy key, set_channel (wa_channel a),
      set_wep64type (wa_wep64type a), set_wep64 N (wa_wep64 a), set_wep128type (wa_wep128type a),
      set_wep128 N (wa_wep128 a), set_wepasc cpy (wa_wepasc a)]"

definition ictlSetWlan ::
  "('h, 'r) ictl_env \<Rightarrow> net_lib \<Rightarrow> text_lib \<Rightarrow> ictl_handle option \<Rightarrow> wlan_args \<Rightarrow> ('h, 'r) ictl_state
     \<Rightarrow> (int \<times> ('h, 'r) ictl_state) checked" where
  "ictlSetWlan E N T pHandle a s =
     (if unauthorized AUTH_ADMIN pHandle then Inr (ICTL_UNAUTHORIZED, s)
      else let code = wep_set_code (wa_wepset a) (ucWepSet (wlan_of s))
           in bnd (chosen_key a code) (\<lambda>key.
              case run_steps (wlan_steps (httpMyStrncpy (lib E)) N T a code key) (wlan_of s) of (w, bIsChange) \<Rightarrow>
                let s1 = s\<lparr>ic_cfg := (ic_cfg s)\<lparr>cfg_wlan := w\<rparr>\<rparr>
                in bnd (if bIsChange then save_config E s1 else Inr s1) (\<lambda>s2. Inr (ICTL_OK, s2))))"

subsection \<open>Reading back\<close>

text \<open>\<open>"%02x"\<close> of each byte.\<close>

definition hex2 :: "char \<Rightarrow> string" where
  "hex2 c = [hex_digit (of_char c div 16), hex_digit (of_char c mod 16)]"

definition wlan_mode_name :: "u8 \<Rightarrow> string" where
  "wlan_mode_name m = (if unat m < length g_apcWlanOperationMode then g_apcWlanOperationMode ! unat m
     else g_apcWlanOperationMode ! 0)"

definition wep_set_name :: "u8 \<Rightarrow> string" where
  "wep_set_name code = (if code = WEP_SET_K64 then ''K64'' else if code = WEP_SET_K128 then ''K128''
     else if code = WEP_SET_ASC then ''Asc'' else ''Disable'')"

text \<open>The text of a key; a binary key is cut at its first NUL by the reader, which is not modelled.\<close>

definition wep_text :: "bool \<Rightarrow> string \<Rightarrow> string" where
  "wep_text asc k = (if asc then k else concat (map hex2 k))"

record wlan_report =
  wr_key :: string
  wr_mode :: string
  wr_channel :: u32
  wr_essid :: string
  wr_wepset :: string
  wr_wepasc :: string
  wr_wep64 :: "string \<times> string"
  wr_wep128 :: "string \<times> string"

definition ictlGetWlan :: "ictl_handle option \<Rightarrow> ('h, 'r) ictl_state \<Rightarrow> wlan_report option" where
  "ictlGetWlan pHandle s =
     (if unauthorized AUTH_USER pHandle then None
      else let w = wlan_of s in Some \<lparr>
        wr_key = acWlanKey w, wr_mode = wlan_mode_name (ucWlanOperationMode w), wr_channel = ulWlanChannel w,
        wr_essid = acWlanESSID w, wr_wepset = wep_set_name (ucWepSet w), wr_wepasc = acWepAsc w,
        wr_wep64 = (if bWep64UseAsc w then ''Wep64ASC'' else ''Wep64HEX'', wep_text (bWep64UseAsc w) (acWep64 w)),
        wr_wep128 = (if bWep128UseAsc w then ''Wep128ASC'' else ''Wep128HEX'', wep_text (bWep128UseAsc w) (acWep128 w))\<rparr>)"

definition optional :: "params \<Rightarrow> string \<Rightarrow> string option" where
  "optional ps n = (if httpIsExistParam ps n then Some (httpGetString ps n) else None)"

definition wlan_request :: "text_lib \<Rightarrow> u32 \<Rightarrow> params \<Rightarrow> wlan_args" where
  "wlan_request T channel ps =
     \<lparr>wa_key = optional ps ''Key'', wa_mode = optional ps ''Mode'',
      wa_channel = (if httpIsExistParam ps ''Channel'' then httpGetLong T ps ''Channel'' else channel),
      wa_wepset = Some (httpGetString ps ''WepSet''), wa_wepasc = optional ps ''WepAsc'',
      wa_wep64type = optional ps ''Wep64type'', wa_wep128type = optional ps ''Wep128type'',
      wa_wep64 = Some (httpGetString ps ''Wep64''), wa_wep128 = Some (httpGetString ps ''Wep128''),
      wa_essid = optional ps ''ESSID''\<rparr>"

definition Config_SetWlan ::
  "('h, 'r) ictl_env \<Rightarrow> net_lib \<Rightarrow> text_lib \<Rightarrow> request \<Rightarrow> 64 word \<Rightarrow> ('h, 'r) ictl_state handler" where
  "Config_SetWlan E N T rq now ps iAction s =
     (case iAction of
        CA_AUTH \<Rightarrow> Inr (AUTH_ADMIN, [], s)
      | CA_CONFIG \<Rightarrow>
          bnd (ictlSetWlan E N T (Some (rq_handle rq)) (wlan_request T (ulWlanChannel (wlan_of s)) ps) s)
            (\<lambda>(rt, s1). Inr (0, [], if rt = ICTL_OK
               then s1\<lparr>ic_log := WebCameraLog CL_PRIVILEGE_COMMON CL_SET_WLAN None (Some (rq_conn rq)) now (ic_log s1)\<rparr>
               else s1))
      | CA_other \<Rightarrow> Inr (- 1, [], s))"

definition starred :: "string \<Rightarrow> string" where
  "starred t = (if t = [] then [] else ''*'')"

definition Config_GetWlan :: "net_lib \<Rightarrow> text_lib \<Rightarrow> ('h, 'r) ictl_state handler" where
  "Config_GetWlan N T ps iAction s =
     (case iAction of
        CA_AUTH \<Rightarrow> Inr (AUTH_ADMIN, [], s)
      | CA_CONFIG \<Rightarrow>
          let w = wlan_of s
          in Inr (0, [(''ESSID'', acWlanESSID w), (''Mode'', wlan_mode_name (ucWlanOperationMode w)),
               (''Key'', starred (acWlanKey w)), (''Channel'', httpLong2String T (ulWlanChannel w)),
               (''WepSet'', wep_set_name (ucWepSet w)), (''WepAsc'', starred (acWepAsc w)),
               (''WepGroup'', httpLong2String T 0),
               (''Wep64type'', if bWep64UseAsc w then ''Wep64ASC'' else ''Wep64HEX''),
               (''Wep128type'', if bWep128UseAsc w then ''Wep128ASC'' else ''Wep128HEX''),
               (''CurrentWiFiState'', wifi_state N)], s)
      | CA_other \<Rightarrow> Inr (- 1, [], s))"

subsection \<open>A setting lasts\<close>

text \<open>Every step leaves alone what it does not set, and one that reports no change has made none.\<close>

lemmas wlan_step_defs = set_mode_def set_essid_def set_wepset_def set_key_def set_channel_def set_wep64type_def
  set_wep64_def set_wep128type_def set_wep128_def set_wepasc_def Let_def

lemma quiet_step: "f \<in> set (wlan_steps cpy N T a code key) \<Longrightarrow> \<not> snd (f w) \<Longrightarrow> fst (f w) = w"
  unfolding wlan_steps_def set_simps insert_iff empty_iff
  by (elim disjE) (auto simp: wlan_step_defs split: option.splits if_splits)

lemma quiet_steps: "(\<And>f w. f \<in> set fs \<Longrightarrow> \<not> snd (f w) \<Longrightarrow> fst (f w) = w) \<Longrightarrow> \<not> snd (run_steps fs w) \<Longrightarrow> fst (run_steps fs w) = w"
proof (induction fs arbitrary: w)
  case (Cons f fs)
  obtain w1 c1 where f: "f w = (w1, c1)" by fastforce
  obtain w2 c2 where r: "run_steps fs w1 = (w2, c2)" by fastforce
  from Cons.prems(2) have c: "\<not> c1" "\<not> c2" by (simp_all add: f r)
  have "w1 = w" using Cons.prems(1) [of f w] c by (simp add: f)
  moreover have "w2 = w1" using Cons.IH [of w1] Cons.prems(1) c by (simp add: r)
  ultimately show ?case using r by (simp add: f)
qed simp

lemma run_steps_fold: "fst (run_steps fs w) = fold (\<lambda>f w. fst (f w)) fs w"
  by (induction fs arbitrary: w) (simp_all add: case_prod_unfold)

lemma wlan_step_keeps:
  "acWlanESSID (fst (set_mode N T m w)) = acWlanESSID w" "acWlanKey (fst (set_mode N T m w)) = acWlanKey w"
  "ucWepSet (fst (set_mode N T m w)) = ucWepSet w"
  "acWlanKey (fst (set_essid cpy e w)) = acWlanKey w" "ucWlanOperationMode (fst (set_essid cpy e w)) = ucWlanOperationMode w"
  "ucWepSet (fst (set_essid cpy e w)) = ucWepSet w"
  "acWlanESSID (fst (set_wepset c w)) = acWlanESSID w" "acWlanKey (fst (set_wepset c w)) = acWlanKey w"
  "ucWlanOperationMode (fst (set_wepset c w)) = ucWlanOperationMode w"
  "acWlanESSID (fst (set_key cpy k w)) = acWlanESSID w" "ucWlanOperationMode (fst (set_key cpy k w)) = ucWlanOperationMode w"
  "ucWepSet (fst (set_key cpy k w)) = ucWepSet w"
  by (simp_all add: wlan_step_defs split: option.splits)

definition wlan_identity :: "wlan_cfg \<Rightarrow> string \<times> string \<times> u8 \<times> u8" where
  "wlan_identity w = (acWlanESSID w, acWlanKey w, ucWlanOperationMode w, ucWepSet w)"

lemma wlan_step_rest:
  "wlan_identity (fst (set_channel ch w)) = wlan_identity w" "wlan_identity (fst (set_wep64type ty w)) = wlan_identity w"
  "wlan_identity (fst (set_wep64 N x w)) = wlan_identity w" "wlan_identity (fst (set_wep128type ty w)) = wlan_identity w"
  "wlan_identity (fst (set_wep128 N x w)) = wlan_identity w" "wlan_identity (fst (set_wepasc cpy x w)) = wlan_identity w"
  by (simp_all add: wlan_identity_def wlan_step_defs split: option.splits)

definition copies :: "('h, 'r) ictl_env \<Rightarrow> bool" where
  "copies E = (\<forall>t n. length t < n \<longrightarrow> httpMyStrncpy (lib E) t n = t)"

lemma wlan_step_sets:
  "copies E \<Longrightarrow> length e < 33 \<Longrightarrow> acWlanESSID (fst (set_essid (httpMyStrncpy (lib E)) (Some e) w)) = e"
  "copies E \<Longrightarrow> length k < 64 \<Longrightarrow> acWlanKey (fst (set_key (httpMyStrncpy (lib E)) (Some k) w)) = k"
  "ucWepSet (fst (set_wepset c w)) = c"
  "unat (mode_number T m) < length g_apcWlanOperationMode \<Longrightarrow>
    ucWlanOperationMode (fst (set_mode N T (Some m) w)) = ucast (mode_number T m)"
  by (simp_all add: copies_def wlan_step_defs)

lemma wlan_identity_run:
  assumes "copies E" and "wa_essid a = Some e" and "length e < 33" and "length k < 64"
    and "wa_mode a = Some m" and "unat (mode_number T m) < length g_apcWlanOperationMode"
  shows "wlan_identity (fst (run_steps (wlan_steps (httpMyStrncpy (lib E)) N T a code (Some k)) w))
    = (e, k, ucast (mode_number T m), code)"
  by (simp only: run_steps_fold wlan_steps_def list.map fold_simps wlan_step_rest assms(2,5))
    (simp add: wlan_identity_def wlan_step_keeps wlan_step_sets assms)

text \<open>The key that is used when one is given and no WEP key has the length of a hexadecimal one.\<close>

lemma given_key:
  assumes "wa_key a = Some k" and "wa_wep64 a = Some t64" and "length t64 \<noteq> 10" and "wa_wep128 a = Some t128"
    and "length t128 \<noteq> 26"
  shows "chosen_key a code = Inr (Some k)"
  using assms by (simp add: chosen_key_def takes_wep_key_def Let_def)

lemma wep_set_name_code: "wep_set_name (wep_set_code (Some t) c) = t" if "t \<in> {''Disable'', ''K64'', ''K128'', ''Asc''}"
  using that by (auto simp: wep_set_name_def wep_set_code_def WEP_SET_DISABLE_def WEP_SET_K64_def WEP_SET_K128_def WEP_SET_ASC_def)

lemma wlan_mode_name_number:
  assumes "unat (i :: u32) < length g_apcWlanOperationMode"
  shows "wlan_mode_name (ucast i) = g_apcWlanOperationMode ! unat i"
proof -
  have "unat (ucast i :: u8) = unat i" using assms by (simp add: unsigned_ucast_eq g_apcWlanOperationMode_def take_bit_eq_mod)
  with assms show ?thesis by (simp add: wlan_mode_name_def)
qed

text \<open>
  An administrator who sets network name, key, mode and kind of encryption gets exactly these back, whether or not
  anything had to be changed, and they last: the flash holds the new configuration; the accounts are untouched. This needs a
  name of at most 32 characters, a key of at most 63, a mode the device knows, and WEP keys that are present (if only
  empty) and not of the length of a hexadecimal key.
\<close>

theorem wlan_roundtrip:
  assumes "config_saved E s" and "copies E" and "\<not> unauthorized AUTH_ADMIN h"
    and "wa_essid a = Some e" and "length e < 33" and "wa_key a = Some k" and "length k < 64"
    and "wa_mode a = Some m" and "unat (mode_number T m) < length g_apcWlanOperationMode"
    and "wa_wepset a = Some t" and "t \<in> {''Disable'', ''K64'', ''K128'', ''Asc''}"
    and "wa_wep64 a = Some t64" and "length t64 \<noteq> 10" and "wa_wep128 a = Some t128" and "length t128 \<noteq> 26"
  shows "\<exists>s' r. ictlSetWlan E N T h a s = Inr (ICTL_OK, s') \<and> config_saved E s' \<and> same_accounts s' s
     \<and> ictlGetWlan h s' = Some r \<and> wr_essid r = e \<and> wr_key r = k \<and> wr_wepset r = t
     \<and> wr_mode r = g_apcWlanOperationMode ! unat (mode_number T m)"
proof -
  let ?code = "wep_set_code (wa_wepset a) (ucWepSet (wlan_of s))"
  let ?fs = "wlan_steps (httpMyStrncpy (lib E)) N T a ?code (Some k)"
  obtain w c where run: "run_steps ?fs (wlan_of s) = (w, c)" by fastforce
  have w: "wlan_identity w = (e, k, ucast (mode_number T m), ?code)"
    using wlan_identity_run [OF assms(2,4,5,7,8,9), of N ?code "wlan_of s"] by (simp add: run)
  let ?s1 = "s\<lparr>ic_cfg := (ic_cfg s)\<lparr>cfg_wlan := w\<rparr>\<rparr>"
  have ok: "ictl_ok E ?s1" using assms(1) by (simp add: config_saved_def ictl_ok_def)
  have "\<exists>s'. (if c then save_config E ?s1 else Inr ?s1) = Inr s' \<and> config_saved E s' \<and> same_accounts s' s \<and> wlan_of s' = w"
  proof (cases c)
    case True
    from save_config_ok [OF ok] obtain f where "save_config E ?s1 = Inr (?s1\<lparr>ic_flash := f\<rparr>)" "config_saved E (?s1\<lparr>ic_flash := f\<rparr>)" by blast
    then show ?thesis using True by (intro exI [of _ "?s1\<lparr>ic_flash := f\<rparr>"]) (simp add: same_accounts_def)
  next
    case False
    then have "w = wlan_of s" using quiet_steps [of ?fs "wlan_of s"] quiet_step by (simp add: run)
    then show ?thesis using False assms(1) by (simp add: same_accounts_def)
  qed
  then obtain s' where s': "(if c then save_config E ?s1 else Inr ?s1) = Inr s'" "config_saved E s'" "same_accounts s' s" "wlan_of s' = w"
    by blast
  have "ictlSetWlan E N T h a s = Inr (ICTL_OK, s')"
    unfolding ictlSetWlan_def Let_def given_key [OF assms(6,12,13,14,15)]
    using s'(1) assms(3) by (simp add: run)
  moreover have "\<not> unauthorized AUTH_USER h" using assms(3) by (auto simp: unauthorized_def auth_defs split: option.splits)
  ultimately show ?thesis
    using s'(2,3,4) w wlan_mode_name_number [OF assms(9)] wep_set_name_code [OF assms(11)] assms(10)
    by (auto simp: ictlGetWlan_def Let_def wlan_identity_def)
qed

definition example_wlan :: wlan_args where
  "example_wlan = \<lparr>wa_key = Some ''secret'', wa_mode = Some ''managed'', wa_channel = 0, wa_wepset = Some ''K64'', wa_wepasc = None,
     wa_wep64type = None, wa_wep128type = None, wa_wep64 = Some [], wa_wep128 = Some [], wa_essid = Some ''home''\<rparr>"

theorem wlan_roundtrip_witness:
  "\<exists>t s' r. ictlSetWlan example_env example_net example_text admin_handle example_wlan t = Inr (ICTL_OK, s')
     \<and> config_saved example_env s' \<and> ictlGetWlan admin_handle s' = Some r \<and> wr_essid r = ''home'' \<and> wr_key r = ''secret''
     \<and> wr_wepset r = ''K64'' \<and> wr_mode r = ''Managed''"
proof -
  from save_config_ok [OF example_ictl_ok] obtain f where saved: "config_saved example_env (example_state\<lparr>ic_flash := f\<rparr>)" by blast
  have c: "copies example_env" by (simp add: copies_def)
  have h: "\<not> unauthorized AUTH_ADMIN admin_handle" by (simp add: unauthorized_def admin_handle_def AUTH_ADMIN_def)
  have "caseless_index ''managed'' g_apcWlanOperationMode = Some 2" by code_simp
  then have m: "mode_number example_text ''managed'' = 2" by (simp add: mode_number_def)
  have l: "unat (mode_number example_text ''managed'') < length g_apcWlanOperationMode" by (simp add: m g_apcWlanOperationMode_def)
  have a: "wa_essid example_wlan = Some ''home''" "wa_key example_wlan = Some ''secret''" "wa_mode example_wlan = Some ''managed''"
    "wa_wepset example_wlan = Some ''K64''" "wa_wep64 example_wlan = Some []" "wa_wep128 example_wlan = Some []"
    by (simp_all add: example_wlan_def)
  have n: "g_apcWlanOperationMode ! unat (mode_number example_text ''managed'') = ''Managed''" unfolding m by (simp add: g_apcWlanOperationMode_def)
  from wlan_roundtrip [OF saved c h a(1) _ a(2) _ a(3) l a(4) _ a(5) _ a(6), where N = example_net] n show ?thesis by auto
qed

end
