(* ===== verification/MsgQueue.thy ===== *)
theory MsgQueue
  imports Rovio_Prelude
begin

section \<open>Message queues between threads (LibCamera/Src/Msg.c)\<close>

text \<open>
  The threads of the firmware (camera, select loop, flash) get their orders through message queues: a list under a
  mutex, a semaphore that counts messages, for bounded queues a semaphore that counts free places, and for queues that a
  \<open>select\<close> waits on a pipe with one byte per message. \<open>SendMsg\<close> and \<open>GetMsg\<close> block, \<open>TrySendMsg\<close> and \<open>TryGetMsg\<close> do not.

  First the operations as they run undisturbed, then what really happens: each thread is between two synchronisation
  points of its operation and any thread may be next. Mutex-protected sections are one step. Allocation may fail
  (\<open>mem\<close>), and so may the write to the pipe (\<open>wr\<close>). Pointers are not null. The semaphores are eCos's (the emulation under
  \<open>EMU_SEMAPHORE\<close> is not compiled).
\<close>

record msg =
  lMsg :: u32
  lData :: u32

record msg_queue =
  plMsgList :: "msg list"
  iMaxMsgLimit :: int
  bFDEvent :: bool
  fd_bytes :: nat
  sMsgSemProducer :: nat
  sMsgSemConsumer :: nat

subsection \<open>The operations\<close>

definition CreateMsgQueue :: "int \<Rightarrow> bool \<Rightarrow> bool \<Rightarrow> bool \<Rightarrow> msg_queue option" where
  "CreateMsgQueue limit fd pipe_ok mem =
     (if \<not> mem then None else if fd \<and> \<not> pipe_ok then None
      else Some \<lparr>plMsgList = [], iMaxMsgLimit = limit, bFDEvent = fd, fd_bytes = 0,
                 sMsgSemProducer = (if limit > 0 then nat limit else 0), sMsgSemConsumer = 0\<rparr>)"

definition PushMsgNode :: "bool \<Rightarrow> bool \<Rightarrow> msg \<Rightarrow> msg_queue \<Rightarrow> bool \<times> msg_queue" where
  "PushMsgNode mem wr m q =
     (if \<not> mem then (False, q)
      else (True, q\<lparr>plMsgList := plMsgList q @ [m],
                    fd_bytes := (if bFDEvent q \<and> wr then fd_bytes q + 1 else fd_bytes q)\<rparr>))"

definition PopMsgNode :: "msg_queue \<Rightarrow> msg option \<times> msg_queue" where
  "PopMsgNode q =
     (case plMsgList q of
        [] \<Rightarrow> (None, q)
      | m # ms \<Rightarrow> (Some m, q\<lparr>plMsgList := ms,
                    fd_bytes := (if bFDEvent q \<and> 0 < fd_bytes q then fd_bytes q - 1 else fd_bytes q)\<rparr>))"

definition IsMsgExist :: "msg \<Rightarrow> msg_queue \<Rightarrow> bool" where
  "IsMsgExist m q = list_ex (\<lambda>x. x = m) (plMsgList q)"

text \<open>Waiting for a place and for a message; \<open>None\<close> where the thread would have to wait.\<close>

definition acquire_place :: "msg_queue \<Rightarrow> msg_queue option" where
  "acquire_place q =
     (if iMaxMsgLimit q > 0
      then if sMsgSemProducer q = 0 then None else Some (q\<lparr>sMsgSemProducer := sMsgSemProducer q - 1\<rparr>)
      else Some q)"

definition release_place :: "msg_queue \<Rightarrow> msg_queue" where
  "release_place q = (if iMaxMsgLimit q > 0 then q\<lparr>sMsgSemProducer := sMsgSemProducer q + 1\<rparr> else q)"

definition acquire_msg :: "msg_queue \<Rightarrow> msg_queue option" where
  "acquire_msg q =
     (if sMsgSemConsumer q = 0 then None else Some (q\<lparr>sMsgSemConsumer := sMsgSemConsumer q - 1\<rparr>))"

definition announce_msg :: "msg_queue \<Rightarrow> msg_queue" where
  "announce_msg q = q\<lparr>sMsgSemConsumer := sMsgSemConsumer q + 1\<rparr>"

definition SendMsg :: "bool \<Rightarrow> bool \<Rightarrow> msg \<Rightarrow> msg_queue \<Rightarrow> (bool \<times> msg_queue) option" where
  "SendMsg mem wr m q =
     (case acquire_place q of None \<Rightarrow> None
      | Some q1 \<Rightarrow> (case PushMsgNode mem wr m q1 of (bPush, q2) \<Rightarrow> Some (bPush, announce_msg q2)))"

definition GetMsg :: "msg_queue \<Rightarrow> (msg option \<times> msg_queue) option" where
  "GetMsg q =
     (case acquire_msg q of None \<Rightarrow> None
      | Some q1 \<Rightarrow> (case PopMsgNode q1 of (r, q2) \<Rightarrow> Some (r, release_place q2)))"

definition TrySendMsg :: "bool \<Rightarrow> bool \<Rightarrow> msg \<Rightarrow> msg_queue \<Rightarrow> bool \<times> msg_queue" where
  "TrySendMsg mem wr m q =
     (case acquire_place q of None \<Rightarrow> (False, q)
      | Some q1 \<Rightarrow> (case PushMsgNode mem wr m q1 of (bPush, q2) \<Rightarrow> (bPush, announce_msg q2)))"

definition TryGetMsg :: "msg_queue \<Rightarrow> msg option \<times> msg_queue" where
  "TryGetMsg q =
     (case acquire_msg q of None \<Rightarrow> (None, q)
      | Some q1 \<Rightarrow> (case PopMsgNode q1 of (r, q2) \<Rightarrow> (r, release_place q2)))"

subsection \<open>Threads\<close>

text \<open>
  Where a thread is: before the first semaphore, inside (it holds a place or a message count), before the second
  semaphore, or back with its result.
\<close>

datatype outcome = Sent bool | Got "msg option"

datatype phase =
  Idle | AtSend msg | AtTrySend msg | Pushing msg | Pushed bool
  | AtGet | AtTryGet | Popping | Popped "msg option" | Done outcome

datatype label = Tau | Enq msg | Deq msg

text \<open>The next step of a thread; \<open>None\<close> if it waits or has nothing to do.\<close>

fun advance :: "bool \<Rightarrow> bool \<Rightarrow> msg_queue \<Rightarrow> phase \<Rightarrow> (label \<times> msg_queue \<times> phase) option" where
  "advance mem wr q (AtSend m) = map_option (\<lambda>q1. (Tau, q1, Pushing m)) (acquire_place q)"
| "advance mem wr q (AtTrySend m) =
     Some (case acquire_place q of None \<Rightarrow> (Tau, q, Done (Sent False)) | Some q1 \<Rightarrow> (Tau, q1, Pushing m))"
| "advance mem wr q (Pushing m) =
     (case PushMsgNode mem wr m q of (b, q1) \<Rightarrow> Some (if b then Enq m else Tau, q1, Pushed b))"
| "advance mem wr q (Pushed b) = Some (Tau, announce_msg q, Done (Sent b))"
| "advance mem wr q AtGet = map_option (\<lambda>q1. (Tau, q1, Popping)) (acquire_msg q)"
| "advance mem wr q AtTryGet =
     Some (case acquire_msg q of None \<Rightarrow> (Tau, q, Done (Got None)) | Some q1 \<Rightarrow> (Tau, q1, Popping))"
| "advance mem wr q Popping =
     (case PopMsgNode q of (r, q1) \<Rightarrow> Some (case r of None \<Rightarrow> Tau | Some m \<Rightarrow> Deq m, q1, Popped r))"
| "advance mem wr q (Popped r) = Some (Tau, release_place q, Done (Got r))"
| "advance mem wr q _ = None"

text \<open>Undisturbed, the steps of a thread are its operation.\<close>

fun alone :: "nat \<Rightarrow> bool \<Rightarrow> bool \<Rightarrow> msg_queue \<Rightarrow> phase \<Rightarrow> msg_queue \<times> phase" where
  "alone 0 mem wr q p = (q, p)"
| "alone (Suc n) mem wr q p = (case advance mem wr q p of None \<Rightarrow> (q, p) | Some (_, q1, p1) \<Rightarrow> alone n mem wr q1 p1)"

lemma alone_is_operation:
  "alone 3 mem wr q (AtSend m) = (case SendMsg mem wr m q of None \<Rightarrow> (q, AtSend m) | Some (b, q1) \<Rightarrow> (q1, Done (Sent b)))"
  "alone 3 mem wr q AtGet = (case GetMsg q of None \<Rightarrow> (q, AtGet) | Some (r, q1) \<Rightarrow> (q1, Done (Got r)))"
  "alone 3 mem wr q (AtTrySend m) = (case TrySendMsg mem wr m q of (b, q1) \<Rightarrow> (q1, Done (Sent b)))"
  "alone 3 mem wr q AtTryGet = (case TryGetMsg q of (r, q1) \<Rightarrow> (q1, Done (Got r)))"
  by (auto simp: SendMsg_def GetMsg_def TrySendMsg_def TryGetMsg_def eval_nat_numeral split: option.split prod.split)

subsection \<open>The system\<close>

type_synonym system = "msg_queue \<times> phase list"

fun at_entry :: "phase \<Rightarrow> bool" where
  "at_entry (AtSend m) = True"
| "at_entry (AtTrySend m) = True"
| "at_entry AtGet = True"
| "at_entry AtTryGet = True"
| "at_entry _ = False"

fun resting :: "phase \<Rightarrow> bool" where
  "resting Idle = True"
| "resting (Done r) = True"
| "resting _ = False"

text \<open>A step of a thread that is inside an operation, and the call of one; nothing fails if \<open>g\<close> is true.\<close>

inductive op_step :: "bool \<Rightarrow> system \<Rightarrow> label \<Rightarrow> system \<Rightarrow> bool" for g where
  op: "i < length ps \<Longrightarrow> (g \<Longrightarrow> mem \<and> wr) \<Longrightarrow> advance mem wr q (ps ! i) = Some (l, q', p')
     \<Longrightarrow> op_step g (q, ps) l (q', ps[i := p'])"

inductive sys_step :: "bool \<Rightarrow> system \<Rightarrow> label \<Rightarrow> system \<Rightarrow> bool" for g where
  run: "op_step g s l s' \<Longrightarrow> sys_step g s l s'"
| call: "i < length ps \<Longrightarrow> resting (ps ! i) \<Longrightarrow> at_entry p \<Longrightarrow> sys_step g (q, ps) Tau (q, ps[i := p])"

inductive_cases op_stepE: "op_step g s l s'"
inductive_cases sys_stepE: "sys_step g s l s'"

inductive sys_run :: "bool \<Rightarrow> system \<Rightarrow> label list \<Rightarrow> system \<Rightarrow> bool" for g s where
  stay: "sys_run g s [] s"
| step: "sys_run g s ls s' \<Longrightarrow> sys_step g s' l s'' \<Longrightarrow> sys_run g s (ls @ [l]) s''"

fun accepted :: "label list \<Rightarrow> msg list" where
  "accepted [] = []"
| "accepted (Enq m # ls) = m # accepted ls"
| "accepted (_ # ls) = accepted ls"

fun delivered :: "label list \<Rightarrow> msg list" where
  "delivered [] = []"
| "delivered (Deq m # ls) = m # delivered ls"
| "delivered (_ # ls) = delivered ls"

lemma accepted_append [simp]: "accepted (xs @ ys) = accepted xs @ accepted ys"
  by (induction xs rule: accepted.induct) auto

lemma delivered_append [simp]: "delivered (xs @ ys) = delivered xs @ delivered ys"
  by (induction xs rule: delivered.induct) auto

subsection \<open>The contract of a queue\<close>

locale fifo =
  fixes put :: "'m \<Rightarrow> 'q \<Rightarrow> bool \<times> 'q" and take_out :: "'q \<Rightarrow> 'm option \<times> 'q" and content :: "'q \<Rightarrow> 'm list"
  assumes put_content: "content (snd (put m q)) = content q @ (if fst (put m q) then [m] else [])"
    and take_content: "take_out q = (r, q') \<Longrightarrow> content q = (case r of None \<Rightarrow> [] | Some m \<Rightarrow> [m]) @ content q'"
    and take_something: "content q \<noteq> [] \<Longrightarrow> fst (take_out q) \<noteq> None"
begin

lemma put_accounted:
  "acc = del @ content q \<Longrightarrow> put m q = (b, q') \<Longrightarrow> acc @ (if b then [m] else []) = del @ content q'"
  using put_content [of m q] by simp

lemma take_accounted:
  "acc = del @ content q \<Longrightarrow> take_out q = (r, q') \<Longrightarrow> acc = (del @ (case r of None \<Rightarrow> [] | Some m \<Rightarrow> [m])) @ content q'"
  using take_content [of q r q'] by simp

lemma take_length: "take_out q = (r, q') \<Longrightarrow> length (content q') = length (content q) - 1"
  using take_content [of q r q'] take_something [of q] by (cases "content q = []"; cases r) auto

end

interpretation mq: fifo "PushMsgNode mem wr" PopMsgNode plMsgList
  by unfold_locales (auto simp: PushMsgNode_def PopMsgNode_def split: list.splits)

lemma acquire_placeD:
  "acquire_place q = Some q' \<Longrightarrow> q' = (if 0 < iMaxMsgLimit q then q\<lparr>sMsgSemProducer := sMsgSemProducer q - 1\<rparr> else q)
     \<and> (0 < iMaxMsgLimit q \<longrightarrow> 0 < sMsgSemProducer q)"
  by (auto simp: acquire_place_def split: if_splits)

lemma acquire_msgD:
  "acquire_msg q = Some q' \<Longrightarrow> q' = q\<lparr>sMsgSemConsumer := sMsgSemConsumer q - 1\<rparr> \<and> 0 < sMsgSemConsumer q"
  by (auto simp: acquire_msg_def split: if_splits)

lemma place_msgs:
  "acquire_place q = Some q' \<Longrightarrow> plMsgList q' = plMsgList q" "acquire_msg q = Some q' \<Longrightarrow> plMsgList q' = plMsgList q"
  by (auto dest: acquire_placeD acquire_msgD)

lemma release_msgs [simp]: "plMsgList (release_place q) = plMsgList q" "plMsgList (announce_msg q) = plMsgList q"
  by (simp_all add: release_place_def announce_msg_def)

lemma advance_accounted:
  assumes "advance mem wr q p = Some (l, q', p')" and "acc = del @ plMsgList q"
  shows "acc @ accepted [l] = (del @ delivered [l]) @ plMsgList q'"
proof (cases p)
  case (Pushing m)
  then show ?thesis
    using assms(1) mq.put_accounted [OF assms(2), of mem wr m] by (auto split: prod.splits if_splits)
next
  case Popping
  then show ?thesis
    using assms(1) mq.take_accounted [OF assms(2)] by (auto split: prod.splits option.splits)
qed (use assms in \<open>auto simp: place_msgs split: option.splits\<close>)

subsection \<open>Semaphores and messages agree\<close>

text \<open>A thread between its semaphores holds a place; some of them hold the count of a message.\<close>

fun holds_place :: "phase \<Rightarrow> nat" where
  "holds_place (Pushing m) = 1"
| "holds_place (Pushed b) = 1"
| "holds_place Popping = 1"
| "holds_place (Popped r) = 1"
| "holds_place _ = 0"

fun holds_msg :: "phase \<Rightarrow> nat" where
  "holds_msg (Pushed b) = 1"
| "holds_msg Popping = 1"
| "holds_msg _ = 0"

definition total :: "('a \<Rightarrow> nat) \<Rightarrow> 'a list \<Rightarrow> nat" where
  "total f xs = sum_list (map f xs)"

lemma total_upd: "i < length xs \<Longrightarrow> total f (xs[i := x]) + f (xs ! i) = total f xs + f x"
  by (induction xs arbitrary: i) (auto simp: total_def nth_Cons split: nat.splits)

lemma total_ge: "i < length xs \<Longrightarrow> f (xs ! i) \<le> total f xs"
  by (simp add: total_def member_le_sum_list)

lemma total_mono: "(\<And>x. f x \<le> h x) \<Longrightarrow> total f xs \<le> total h xs"
  unfolding total_def by (rule sum_list_mono)

definition queue_ok :: "bool \<Rightarrow> int \<Rightarrow> system \<Rightarrow> bool" where
  "queue_ok g limit s = (case s of (q, ps) \<Rightarrow>
     iMaxMsgLimit q = limit
     \<and> (0 < limit \<longrightarrow> int (sMsgSemProducer q + sMsgSemConsumer q + total holds_place ps) = limit)
     \<and> length (plMsgList q) \<le> sMsgSemConsumer q + total holds_msg ps
     \<and> (g \<longrightarrow> length (plMsgList q) = sMsgSemConsumer q + total holds_msg ps)
     \<and> fd_bytes q \<le> length (plMsgList q) \<and> (bFDEvent q \<or> fd_bytes q = 0)
     \<and> (g \<longrightarrow> bFDEvent q \<longrightarrow> fd_bytes q = length (plMsgList q)))"

lemma queue_ok_call:
  assumes "queue_ok g limit (q, ps)" and "i < length ps" and "resting (ps ! i)" and "at_entry p"
  shows "queue_ok g limit (q, ps[i := p])"
proof -
  have "holds_place p = 0" "holds_msg p = 0" using assms(4) by (cases p; simp)+
  moreover have "holds_place (ps ! i) = 0" "holds_msg (ps ! i) = 0" using assms(3) by (cases "ps ! i"; simp)+
  ultimately show ?thesis
    using assms(1) total_upd [OF assms(2), of holds_place p] total_upd [OF assms(2), of holds_msg p] by (simp add: queue_ok_def)
qed

lemmas queue_op_defs = acquire_place_def acquire_msg_def release_place_def announce_msg_def PushMsgNode_def PopMsgNode_def

lemma queue_ok_upd:
  assumes "queue_ok g limit (q, ps)" and "i < length ps"
    and "iMaxMsgLimit q' = iMaxMsgLimit q" and "bFDEvent q' = bFDEvent q"
    and "0 < limit \<Longrightarrow> sMsgSemProducer q' + sMsgSemConsumer q' + holds_place p'
      = sMsgSemProducer q + sMsgSemConsumer q + holds_place (ps ! i)"
    and "plMsgList q' = [] \<or> length (plMsgList q') + (sMsgSemConsumer q + holds_msg (ps ! i))
      \<le> length (plMsgList q) + (sMsgSemConsumer q' + holds_msg p')"
    and "g \<Longrightarrow> length (plMsgList q') + (sMsgSemConsumer q + holds_msg (ps ! i))
      = length (plMsgList q) + (sMsgSemConsumer q' + holds_msg p')"
    and "fd_bytes q' \<le> length (plMsgList q')" and "bFDEvent q \<or> fd_bytes q' = 0"
    and "g \<Longrightarrow> bFDEvent q \<Longrightarrow> fd_bytes q' = length (plMsgList q')"
  shows "queue_ok g limit (q', ps[i := p'])"
proof -
  define P M P' M' where "P = total holds_place ps" and "M = total holds_msg ps"
    and "P' = total holds_place (ps[i := p'])" and "M' = total holds_msg (ps[i := p'])"
  have P: "P' + holds_place (ps ! i) = P + holds_place p'" and M: "M' + holds_msg (ps ! i) = M + holds_msg p'"
    using total_upd [OF assms(2)] by (simp_all add: P_def M_def P'_def M'_def)
  have inv: "iMaxMsgLimit q = limit" "0 < limit \<longrightarrow> int (sMsgSemProducer q + sMsgSemConsumer q + P) = limit"
    "length (plMsgList q) \<le> sMsgSemConsumer q + M" "g \<longrightarrow> length (plMsgList q) = sMsgSemConsumer q + M"
    using assms(1) by (simp_all add: queue_ok_def P_def M_def)
  have "length (plMsgList q') \<le> sMsgSemConsumer q' + M'"
    using assms(6) inv(3) M by auto
  moreover have "g \<longrightarrow> length (plMsgList q') = sMsgSemConsumer q' + M'"
    using assms(7) inv(4) M by auto
  moreover have "0 < limit \<longrightarrow> int (sMsgSemProducer q' + sMsgSemConsumer q' + P') = limit"
    using assms(5) inv(2) P by auto
  ultimately show ?thesis
    using assms(3,4,8-10) inv(1) by (simp add: queue_ok_def P'_def M'_def)
qed

lemma queue_okD:
  assumes "queue_ok g limit (q, ps)"
  shows "iMaxMsgLimit q = limit" and "fd_bytes q \<le> length (plMsgList q)" and "bFDEvent q \<or> fd_bytes q = 0"
    and "g \<Longrightarrow> bFDEvent q \<Longrightarrow> fd_bytes q = length (plMsgList q)"
  using assms by (simp_all add: queue_ok_def)

lemma queue_ok_same:
  assumes "queue_ok g limit (q, ps)" and "i < length ps"
    and "holds_place p' = holds_place (ps ! i)" and "holds_msg p' = holds_msg (ps ! i)"
  shows "queue_ok g limit (q, ps[i := p'])"
  by (rule queue_ok_upd [OF assms(1,2)]) (use assms(3,4) queue_okD [OF assms(1)] in simp_all)

lemma queue_ok_place:
  assumes "queue_ok g limit (q, ps)" and "i < length ps" and "acquire_place q = Some q'"
    and "holds_place p' = 1" and "holds_place (ps ! i) = 0" and "holds_msg p' = holds_msg (ps ! i)"
  shows "queue_ok g limit (q', ps[i := p'])"
proof -
  note e = conjunct1 [OF acquire_placeD [OF assms(3)]] conjunct2 [OF acquire_placeD [OF assms(3)]]
  show ?thesis
    by (rule queue_ok_upd [OF assms(1,2)]) (use assms(4-6) queue_okD [OF assms(1)] e(2) in \<open>simp_all add: e(1)\<close>)
qed

lemma queue_ok_msg:
  assumes "queue_ok g limit (q, ps)" and "i < length ps" and "acquire_msg q = Some q'"
    and "holds_place p' = Suc (holds_place (ps ! i))" and "holds_msg p' = Suc (holds_msg (ps ! i))"
  shows "queue_ok g limit (q', ps[i := p'])"
proof -
  note e = conjunct1 [OF acquire_msgD [OF assms(3)]] conjunct2 [OF acquire_msgD [OF assms(3)]]
  show ?thesis
    by (rule queue_ok_upd [OF assms(1,2)]) (use assms(4,5) queue_okD [OF assms(1)] e(2) in \<open>simp_all add: e(1)\<close>)
qed

lemma queue_ok_advance:
  assumes "queue_ok g limit (q, ps)" and "i < length ps" and "g \<Longrightarrow> mem \<and> wr"
    and "advance mem wr q (ps ! i) = Some (l, q', p')"
  shows "queue_ok g limit (q', ps[i := p'])"
proof -
  note inv = queue_okD [OF assms(1)]
  show ?thesis
  proof (cases "ps ! i")
    case Popping
    have "0 < length (plMsgList q)" if g
      using assms(1) that total_ge [OF assms(2), of holds_msg] Popping by (simp add: queue_ok_def)
    with Popping show ?thesis
      using assms(4) inv by (intro queue_ok_upd [OF assms(1,2)]) (auto simp: PopMsgNode_def le_diff_conv split: list.splits if_splits)
  next
    case (Pushing m)
    with assms(3,4) inv show ?thesis
      by (intro queue_ok_upd [OF assms(1,2)]) (auto simp: PushMsgNode_def split: if_splits)
  next
    case (AtSend m)
    then have "acquire_place q = Some q'" "p' = Pushing m" using assms(4) by auto
    then show ?thesis using queue_ok_place [OF assms(1,2)] AtSend by simp
  next
    case (AtTrySend m)
    then have "acquire_place q = Some q' \<and> p' = Pushing m \<or> q' = q \<and> p' = Done (Sent False)"
      using assms(4) by (auto split: option.splits)
    then show ?thesis using queue_ok_place [OF assms(1,2)] queue_ok_same [OF assms(1,2)] AtTrySend by auto
  next
    case AtGet
    then have "acquire_msg q = Some q'" "p' = Popping" using assms(4) by auto
    then show ?thesis using queue_ok_msg [OF assms(1,2)] AtGet by simp
  next
    case AtTryGet
    then have "acquire_msg q = Some q' \<and> p' = Popping \<or> q' = q \<and> p' = Done (Got None)"
      using assms(4) by (auto split: option.splits)
    then show ?thesis using queue_ok_msg [OF assms(1,2)] queue_ok_same [OF assms(1,2)] AtTryGet by auto
  next
    case (Popped r)
    then have e: "q' = release_place q" "p' = Done (Got r)" using assms(4) by auto
    show ?thesis by (rule queue_ok_upd [OF assms(1,2)]) (use inv Popped in \<open>simp_all add: e release_place_def\<close>)
  next
    case (Pushed b)
    then have e: "q' = announce_msg q" "p' = Done (Sent b)" using assms(4) by auto
    show ?thesis by (rule queue_ok_upd [OF assms(1,2)]) (use inv Pushed in \<open>simp_all add: e announce_msg_def\<close>)
  qed (use assms(4) in simp_all)
qed

lemma queue_ok_step:
  assumes "queue_ok g limit s" and "sys_step g s l s'"
  shows "queue_ok g limit s'"
  using assms(2)
proof (cases rule: sys_step.cases)
  case run
  then show ?thesis using assms(1) by (auto elim!: op_stepE intro: queue_ok_advance)
qed (use assms(1) in \<open>auto intro: queue_ok_call\<close>)

text \<open>A freshly created queue and threads that have not called anything.\<close>

definition fresh :: "int \<Rightarrow> bool \<Rightarrow> system \<Rightarrow> bool" where
  "fresh limit fd s = (CreateMsgQueue limit fd True True = Some (fst s) \<and> (\<forall>p\<in>set (snd s). p = Idle))"

lemma fresh_ok: "fresh limit fd s \<Longrightarrow> queue_ok g limit s"
proof -
  assume f: "fresh limit fd s"
  then have "total holds_place (snd s) = 0" "total holds_msg (snd s) = 0"
    by (auto simp: fresh_def total_def)
  with f show ?thesis by (cases s) (auto simp: fresh_def CreateMsgQueue_def queue_ok_def)
qed

lemma run_ok: "sys_run g s ls s' \<Longrightarrow> queue_ok g limit s \<Longrightarrow> queue_ok g limit s'"
  by (induction rule: sys_run.induct) (auto intro: queue_ok_step)

lemma step_accounted:
  assumes "sys_step g s l s'" and "acc = del @ plMsgList (fst s)"
  shows "acc @ accepted [l] = (del @ delivered [l]) @ plMsgList (fst s')"
  using assms(1)
proof (cases rule: sys_step.cases)
  case run
  then show ?thesis using assms(2) advance_accounted by (fastforce elim!: op_stepE)
qed (use assms(2) in simp)

lemma run_accounted: "sys_run g s ls s' \<Longrightarrow> plMsgList (fst s) = [] \<Longrightarrow> accepted ls = delivered ls @ plMsgList (fst s')"
proof (induction rule: sys_run.induct)
  case (step ls s' l s'')
  then show ?case using step_accounted [OF step.hyps(2), of "accepted ls" "delivered ls"] by simp
qed simp

lemma ok_bound:
  assumes "queue_ok g limit (q, ps)" and "0 < limit"
  shows "int (length (plMsgList q)) \<le> limit"
proof -
  have "total holds_msg ps \<le> total holds_place ps"
  proof (rule total_mono)
    show "holds_msg p \<le> holds_place p" for p by (cases p) auto
  qed
  then show ?thesis using assms by (simp add: queue_ok_def)
qed

text \<open>
  C19. A queue is a first-in first-out channel, however the threads that use it interleave: the messages delivered so
  far followed by those in the queue are exactly the messages accepted, in order, so none is lost, doubled or reordered;
  a bounded queue never holds more than its limit; and unless an allocation or a write failed, the pipe of a
  queue that is waited on holds one byte per message.
\<close>

theorem queue_is_fifo:
  assumes "fresh limit fd s" and "sys_run g s ls (q, ps)"
  shows "accepted ls = delivered ls @ plMsgList q \<and> (0 < limit \<longrightarrow> int (length (plMsgList q)) \<le> limit)
     \<and> (g \<longrightarrow> bFDEvent q \<longrightarrow> fd_bytes q = length (plMsgList q))"
proof -
  have "queue_ok g limit (q, ps)" using run_ok [OF assms(2) fresh_ok [OF assms(1)]] .
  moreover have "plMsgList (fst s) = []" using assms(1) by (cases s) (auto simp: fresh_def CreateMsgQueue_def)
  ultimately show ?thesis using run_accounted [OF assms(2)] ok_bound by (auto simp: queue_ok_def)
qed


theorem queue_is_fifo_witness:
  "\<exists>q ps ls. sys_run True (the (CreateMsgQueue 1 True True True), [Idle, Idle]) ls (q, ps)
     \<and> accepted ls = [\<lparr>lMsg = 5, lData = 6\<rparr>] \<and> accepted ls = delivered ls @ plMsgList q \<and> fd_bytes q = 1"
proof -
  define m where "m = \<lparr>lMsg = 5, lData = 6\<rparr>"
  define q0 where "q0 = \<lparr>plMsgList = [], iMaxMsgLimit = 1, bFDEvent = True, fd_bytes = 0, sMsgSemProducer = 1, sMsgSemConsumer = 0\<rparr>"
  define q1 where "q1 = q0\<lparr>sMsgSemProducer := 0\<rparr>"
  define q2 where "q2 = q1\<lparr>plMsgList := [m], fd_bytes := 1\<rparr>"
  have e: "the (CreateMsgQueue 1 True True True) = q0" "CreateMsgQueue 1 True True True = Some q0" "acquire_place q0 = Some q1"
    "PushMsgNode True True m q1 = (True, q2)"
    by (simp_all add: CreateMsgQueue_def q0_def q1_def q2_def acquire_place_def PushMsgNode_def)
  have a: "sys_step True (q0, [Idle, Idle]) Tau (q0, [Idle, Idle][0 := AtSend m])" by (rule sys_step.call) simp_all
  have b: "sys_step True (q0, [AtSend m, Idle]) Tau (q1, [AtSend m, Idle][0 := Pushing m])"
    by (rule sys_step.run, rule op_step.op [where mem = True and wr = True]) (simp_all add: e)
  have c: "sys_step True (q1, [Pushing m, Idle]) (Enq m) (q2, [Pushing m, Idle][0 := Pushed True])"
    by (rule sys_step.run, rule op_step.op [where mem = True and wr = True]) (simp_all add: e)
  let ?ls = "(([] @ [Tau]) @ [Tau]) @ [Enq m]"
  have r: "sys_run True (q0, [Idle, Idle]) ?ls (q2, [Pushed True, Idle])"
    using a b c by (intro sys_run.step [OF sys_run.step [OF sys_run.step [OF sys_run.stay]]]) simp_all
  have "fresh 1 True (q0, [Idle, Idle])" by (simp add: fresh_def e)
  note f = queue_is_fifo [OF this r]
  have "bFDEvent q2" "plMsgList q2 = [m]" by (simp_all add: q0_def q1_def q2_def)
  with f r show ?thesis
    unfolding e(1) m_def [symmetric] by (intro exI [of _ q2] exI [of _ "[Pushed True, Idle]"] exI [of _ ?ls]) simp
qed

subsection \<open>Nobody waits in vain\<close>

text \<open>How many steps a thread has before it.\<close>

fun steps_left :: "phase \<Rightarrow> nat" where
  "steps_left Idle = 0"
| "steps_left (Done r) = 0"
| "steps_left (Pushed b) = 1"
| "steps_left (Popped r) = 1"
| "steps_left (Pushing m) = 2"
| "steps_left Popping = 2"
| "steps_left _ = 3"

lemma advance_decreases: "advance mem wr q p = Some (l, q', p') \<Longrightarrow> steps_left p' < steps_left p"
  by (cases p) (auto split: option.splits prod.splits)

lemma op_step_decreases: "op_step g s l s' \<Longrightarrow> total steps_left (snd s') < total steps_left (snd s)"
proof (induction rule: op_step.induct)
  case (op i ps mem wr q l q' p')
  then show ?case using total_upd [OF op(1), of steps_left p'] advance_decreases [OF op(3)] by simp
qed

lemma ops_bounded: "((\<lambda>a b. \<exists>l. op_step g a l b) ^^ n) s s' \<Longrightarrow> n + total steps_left (snd s') \<le> total steps_left (snd s)"
proof (induction n arbitrary: s')
  case (Suc n)
  from Suc.prems obtain t l where "((\<lambda>a b. \<exists>l. op_step g a l b) ^^ n) s t" "op_step g t l s'" by auto
  with Suc.IH [of t] op_step_decreases [of g t l s'] show ?case by simp
qed simp

lemma total_le: "(\<And>x. f x \<le> c) \<Longrightarrow> total f xs \<le> c * length xs"
  by (induction xs) (auto simp: total_def add_mono)

lemma total_zero: "(\<And>x. x \<in> set xs \<Longrightarrow> f x = 0) \<Longrightarrow> total f xs = 0"
  by (simp add: total_def)

lemma blocked_phase:
  assumes "\<not> (\<exists>l s'. op_step g (q, ps) l s')" and "p \<in> set ps"
  shows "resting p \<or> p = AtGet \<and> acquire_msg q = None \<or> (\<exists>m. p = AtSend m) \<and> acquire_place q = None"
proof -
  from assms(2) obtain i where i: "i < length ps" "ps ! i = p" by (auto simp: in_set_conv_nth)
  have "advance True True q p = None"
  proof (rule ccontr)
    assume "advance True True q p \<noteq> None"
    then obtain l q' p' where "advance True True q p = Some (l, q', p')" by (cases "advance True True q p") auto
    then have "op_step g (q, ps) l (q', ps[i := p'])" using i by (intro op_step.op) auto
    with assms(1) show False by blast
  qed
  then show ?thesis by (cases p) (auto split: prod.splits)
qed

text \<open>
  C20. Nobody waits in vain. The operations under way finish after at most three steps each, in whatever order the
  threads run; and when no thread can move, each has returned, or waits for a message while the queue is empty, or waits
  for a place while the queue is full (holds as many messages as its limit, or counts of messages that could not be
  allocated); so a sender and a receiver never wait at the same time.
\<close>

theorem nobody_waits_in_vain:
  assumes "fresh limit fd s0" and "sys_run g s0 ls (q, ps)"
  shows "(\<forall>n s'. ((\<lambda>a b. \<exists>l. op_step g a l b) ^^ n) (q, ps) s' \<longrightarrow> n \<le> 3 * length ps)
     \<and> (\<not> (\<exists>l s'. op_step g (q, ps) l s') \<longrightarrow>
         (\<forall>p\<in>set ps. resting p \<or> p = AtGet \<and> plMsgList q = [] \<and> sMsgSemConsumer q = 0
            \<or> (\<exists>m. p = AtSend m) \<and> 0 < limit \<and> int (sMsgSemConsumer q) = limit
               \<and> (g \<longrightarrow> int (length (plMsgList q)) = limit)))"
proof -
  have ok: "queue_ok g limit (q, ps)" using run_ok [OF assms(2) fresh_ok [OF assms(1)]] .
  have "steps_left p \<le> 3" for p by (cases p) auto
  then have "total steps_left ps \<le> 3 * length ps" by (rule total_le)
  then have bound: "n \<le> 3 * length ps" if "((\<lambda>a b. \<exists>l. op_step g a l b) ^^ n) (q, ps) s'" for n s'
    using ops_bounded [OF that] by simp
  have rest: "resting p \<or> p = AtGet \<and> plMsgList q = [] \<and> sMsgSemConsumer q = 0
            \<or> (\<exists>m. p = AtSend m) \<and> 0 < limit \<and> int (sMsgSemConsumer q) = limit
               \<and> (g \<longrightarrow> int (length (plMsgList q)) = limit)"
    if "\<not> (\<exists>l s'. op_step g (q, ps) l s')" "p \<in> set ps" for p
  proof -
    have "holds_place x = 0 \<and> holds_msg x = 0" if "x \<in> set ps" for x
      using blocked_phase [OF \<open>\<not> (\<exists>l s'. op_step g (q, ps) l s')\<close> that] by (cases x) auto
    then have z: "total holds_place ps = 0" "total holds_msg ps = 0" by (auto intro!: total_zero)
    note b = blocked_phase [OF that]
    consider "resting p" | "p = AtGet" "acquire_msg q = None" | m where "p = AtSend m" "acquire_place q = None"
      using b by (elim disjE exE conjE)
    then show ?thesis
    proof cases
      case 2
      then have "sMsgSemConsumer q = 0" by (simp add: acquire_msg_def split: if_splits)
      then show ?thesis using ok z 2(1) by (simp add: queue_ok_def)
    next
      case 3
      then have "0 < iMaxMsgLimit q" "sMsgSemProducer q = 0" by (simp_all add: acquire_place_def split: if_splits)
      then show ?thesis using ok z 3(1) by (simp add: queue_ok_def)
    qed simp
  qed
  show ?thesis using bound rest by blast
qed

theorem nobody_waits_in_vain_witness:
  "\<exists>q. sys_run True (the (CreateMsgQueue 1 False True True), [Idle]) [Tau] (q, [AtGet])
     \<and> \<not> (\<exists>l s'. op_step True (q, [AtGet]) l s') \<and> plMsgList q = [] \<and> sMsgSemConsumer q = 0"
proof -
  define q where "q = \<lparr>plMsgList = [], iMaxMsgLimit = 1, bFDEvent = False, fd_bytes = 0, sMsgSemProducer = 1, sMsgSemConsumer = 0\<rparr>"
  have e: "CreateMsgQueue 1 False True True = Some q" by (simp add: CreateMsgQueue_def q_def)
  have "sys_step True (q, [Idle]) Tau (q, [Idle][0 := AtGet])" by (rule sys_step.call) simp_all
  from sys_run.step [OF sys_run.stay this] have r: "sys_run True (q, [Idle]) [Tau] (q, [AtGet])" by simp
  have b: "\<not> (\<exists>l s'. op_step True (q, [AtGet]) l s')" by (auto elim!: op_stepE simp: acquire_msg_def q_def)
  have "fresh 1 False (q, [Idle])" by (simp add: fresh_def e)
  from nobody_waits_in_vain [OF this r] b r show ?thesis unfolding e by (intro exI [of _ q]) simp
qed

end
