(* ===== verification/McuLink.thy ===== *)
theory McuLink
  imports NetSettings
begin

section \<open>The link to the motor controller (LibCamera/Src/MCU.c, ictlCtrlMCU, Config_ControlMCU)\<close>

text \<open>
  Drive commands and battery reports go over a serial line to a second processor. A frame is \<open>0x55\<close>, the length n,
  n bytes, their checksum (16 bits, low byte first, over length and bytes) and \<open>0xAA\<close>; each command is answered by
  one frame. The line is what will arrive: a byte, or a second of silence (\<open>None\<close>), after which a read gives up; the
  controller is the parameter \<open>M\<close>, what it sends after a command. Every function runs under \<open>g_rmutex_MCU\<close>, so each is
  one step. The copy of ignored responses (\<open>g_acMCU_Response\<close>) is never read and not modelled.
\<close>

unbundle bit_operations_syntax

subsection \<open>The serial line (uart_wrapper.c)\<close>

type_synonym uart_line = "u8 option list"

fun hi_uart_read :: "nat \<Rightarrow> uart_line \<Rightarrow> u8 list \<times> uart_line" where
  "hi_uart_read 0 l = ([], l)"
| "hi_uart_read (Suc n) [] = ([], [])"
| "hi_uart_read (Suc n) (None # l) = ([], l)"
| "hi_uart_read (Suc n) (Some b # l) = (case hi_uart_read n l of (bs, r) \<Rightarrow> (b # bs, r))"

text \<open>The value it returns: the number of bytes, or -1 if there were none.\<close>

definition read_code :: "u8 list \<Rightarrow> int" where
  "read_code bs = (if bs = [] then - 1 else int (length bs))"

record mcu_link =
  line :: uart_line
  sent_frames :: "u8 list list"
  g_bSendMCU :: bool
  g_nMCU_Command_Count :: u32
  g_nMCU_Debug_Count :: u32
  g_bCrashedLock :: bool
  g_uCmdNo :: u32
  g_uCmdSend :: u32
  led_error_mcu :: bool
  s_ucBattery :: u8
  s_ucStatus :: u8
  s_aucBattery :: "u8 list"

definition mcuInit :: "mcu_link \<Rightarrow> mcu_link" where
  "mcuInit s = s\<lparr>g_bSendMCU := False, g_nMCU_Debug_Count := 0, g_nMCU_Command_Count := 0\<rparr>"

definition mcuReportError :: "u32 \<Rightarrow> bool \<Rightarrow> mcu_link \<Rightarrow> mcu_link" where
  "mcuReportError uCmdNo bCrashedLock s =
     s\<lparr>g_uCmdNo := (if g_uCmdNo s = 0 \<and> uCmdNo \<noteq> 0 then uCmdNo else g_uCmdNo s),
       g_bCrashedLock := (g_bCrashedLock s \<or> bCrashedLock)\<rparr>"

definition mcuSendCommand_Error :: "mcu_link \<Rightarrow> mcu_link" where
  "mcuSendCommand_Error s = (mcuReportError (g_uCmdSend s) False s)\<lparr>led_error_mcu := True\<rparr>"

definition MCU_MAX_CMD_LEN :: nat where
  "MCU_MAX_CMD_LEN = 256 + 4"

text \<open>
  \<open>_mcuSend\<close> writes the first \<open>szCmdLen\<close> bytes of a buffer. For the debug record it reads byte 15, whatever the length.
\<close>

definition mcuSend :: "(u8 list \<Rightarrow> uart_line) \<Rightarrow> u8 list \<Rightarrow> nat \<Rightarrow> mcu_link \<Rightarrow> mcu_link checked" where
  "mcuSend M pCmd szCmdLen s =
     (if length pCmd \<le> 15 \<or> length pCmd < szCmdLen then Inl OutOfBounds
      else let s1 = s\<lparr>g_nMCU_Command_Count := g_nMCU_Command_Count s + 1, g_nMCU_Debug_Count := g_nMCU_Debug_Count s + 1\<rparr>;
               s2 = (if g_nMCU_Debug_Count s1 \<noteq> 1 then mcuReportError 0 True s1 else s1)\<lparr>g_uCmdSend := ucast (pCmd ! 15)\<rparr>;
               s3 = (if szCmdLen > MCU_MAX_CMD_LEN then mcuSendCommand_Error s2 else s2);
               f = take szCmdLen pCmd
           in Inr (s3\<lparr>sent_frames := sent_frames s3 @ [f], line := line s3 @ M f\<rparr>))"

text \<open>
  \<open>_mcuRecv\<close>: two bytes of header; then as much of the frame as fits into the buffer, and what does not fit is read and
  dropped.
\<close>

fun drain :: "nat \<Rightarrow> uart_line \<Rightarrow> bool \<times> uart_line" where
  "drain 0 l = (True, l)"
| "drain (Suc n) l = (case hi_uart_read 1 l of (bs, r) \<Rightarrow> if length bs \<noteq> 1 then (False, r) else drain n r)"

definition recv_body :: "u8 list \<Rightarrow> nat \<Rightarrow> mcu_link \<Rightarrow> bool \<times> nat \<times> u8 list \<times> mcu_link" where
  "recv_body buf to_read_len s =
     (let read_len = min to_read_len (length buf - 2);
          (bNoError, got, buf1, s1) =
            (if read_len > 0
             then case hi_uart_read read_len (line s) of (bs, r) \<Rightarrow>
                    if bs = [] then (False, 0, buf[1 := 0], mcuSendCommand_Error (s\<lparr>line := r\<rparr>))
                    else (length bs = read_len, length bs, blit 2 bs buf,
                          if length bs \<noteq> read_len then mcuSendCommand_Error (s\<lparr>line := r\<rparr>) else s\<lparr>line := r\<rparr>)
             else (True, 0, buf, s));
          (rest_ok, r) = drain (to_read_len - read_len) (line s1);
          s2 = s1\<lparr>line := r\<rparr>
      in (bNoError \<and> rest_ok, got, buf1, if rest_ok then s2 else mcuSendCommand_Error s2))"

definition recv_end :: "bool \<Rightarrow> mcu_link \<Rightarrow> mcu_link" where
  "recv_end bNoError s =
     (let s1 = s\<lparr>g_nMCU_Debug_Count := g_nMCU_Debug_Count s - 1\<rparr>;
          s2 = (if g_nMCU_Debug_Count s1 \<noteq> 0 then mcuReportError 0 True s1 else s1)
      in if bNoError then s2\<lparr>led_error_mcu := False\<rparr> else s2)"

definition mcuRecv :: "u8 list \<Rightarrow> mcu_link \<Rightarrow> nat \<times> u8 list \<times> mcu_link" where
  "mcuRecv buf s =
     (if length buf < 2 then (0, buf, s)
      else case hi_uart_read 2 (line s) of (head, r) \<Rightarrow>
        let buf1 = blit 0 head buf;
            s1 = s\<lparr>line := r\<rparr>;
            s2 = (if head = [] then mcuSendCommand_Error s1 else s1)
        in if length head = 2 \<and> buf1 ! 0 = 0x55
           then case recv_body buf1 (unat (buf1 ! 1) + 3) s2 of
                  (bNoError, got, buf2, s3) \<Rightarrow> (length head + got, buf2, recv_end bNoError s3)
           else (length head, buf1[1 := 0], recv_end False (mcuSendCommand_Error s2)))"

text \<open>A response that is still due is read first; \<open>ignored\<close> is the buffer for it, of \<open>MCU_MAX_CMD_LEN\<close> bytes.\<close>

definition ignored :: "u8 list" where
  "ignored = replicate MCU_MAX_CMD_LEN 0"

definition read_pending :: "mcu_link \<Rightarrow> mcu_link" where
  "read_pending s = (if g_bSendMCU s then (snd (snd (mcuRecv ignored s)))\<lparr>g_bSendMCU := False\<rparr> else s)"

definition mcuSendCommand ::
  "(u8 list \<Rightarrow> uart_line) \<Rightarrow> u8 list \<Rightarrow> nat \<Rightarrow> u8 list \<Rightarrow> mcu_link \<Rightarrow> (nat \<times> u8 list \<times> mcu_link) checked" where
  "mcuSendCommand M pCmd szCmdLen pResponse s =
     bnd (mcuSend M pCmd szCmdLen (read_pending s)) (\<lambda>s1. Inr (mcuRecv pResponse s1))"

definition mcuSendCommand_NoResponse :: "(u8 list \<Rightarrow> uart_line) \<Rightarrow> u8 list \<Rightarrow> nat \<Rightarrow> mcu_link \<Rightarrow> mcu_link checked" where
  "mcuSendCommand_NoResponse M pCmd szCmdLen s =
     bnd (mcuSend M pCmd szCmdLen (read_pending s)) (\<lambda>s1. Inr (s1\<lparr>g_bSendMCU := True\<rparr>))"

definition prdTask_ReadMCU :: "mcu_link \<Rightarrow> mcu_link" where
  "prdTask_ReadMCU = read_pending"

subsection \<open>Reports\<close>

definition report_cmd :: "u8 list" where
  "report_cmd = [0x55, 0x11, 0x4D, 0x4D, 0x00, 0x01, 0xFF, 0x53, 0x48, 0x52, 0x54,
     0x00, 0x01, 0x00, 0x01, 0x0B, 0x00, 0x00, 0x00, 0xF9, 0x02, 0xAA]"

text \<open>\<open>stack\<close> is what the response buffer holds before; the result is battery level and status.\<close>

definition mcuGetReport ::
  "(u8 list \<Rightarrow> uart_line) \<Rightarrow> u8 list \<Rightarrow> bool \<Rightarrow> mcu_link \<Rightarrow> ((u8 \<times> u8) option \<times> mcu_link) checked" where
  "mcuGetReport M stack bUseCache s =
     (if bUseCache \<and> s_ucBattery s \<noteq> 0 then Inr (Some (s_ucBattery s, s_ucStatus s), s)
      else bnd (mcuSendCommand M report_cmd (length report_cmd) stack s) (\<lambda>(nRet, acResponse, s1).
             if nRet \<ge> 16
             then let s2 = s1\<lparr>s_ucBattery := acResponse ! 14, s_ucStatus := acResponse ! 15\<rparr>
                  in Inr (Some (s_ucBattery s2, s_ucStatus s2), s2)
             else Inr (None, s1)))"

definition max_n :: "u8 list \<Rightarrow> u8" where
  "max_n pc = foldl (\<lambda>ret c. if c > ret then c else ret) 0 pc"

text \<open>
  The battery level is the highest of the last five reports; \<open>want_charge\<close> says whether the caller asks whether the
  battery is being charged. \<open>s_bOnCharge\<close> is a local variable, so the cached answer to that is not initialised.
\<close>

definition mcuGetBattery ::
  "(u8 list \<Rightarrow> uart_line) \<Rightarrow> u8 list \<Rightarrow> bool \<Rightarrow> bool \<Rightarrow> mcu_link \<Rightarrow> (u8 \<times> bool option \<times> mcu_link) checked" where
  "mcuGetBattery M stack bUsbCache want_charge s =
     (if bUsbCache \<and> want_charge then Inl Uninitialised
      else if bUsbCache \<and> max_n (s_aucBattery s) \<noteq> 0 then Inr (max_n (s_aucBattery s), None, s)
      else bnd (mcuGetReport M stack False s) (\<lambda>(r, s1).
             case r of None \<Rightarrow> Inr (0, None, s1)
             | Some (ucBattery, ucStatus) \<Rightarrow>
                 let bats = ucBattery # butlast (s_aucBattery s1)
                 in Inr (max_n bats, Some (\<not> (ucStatus AND 0x50 = 0 \<and> ucStatus AND 0x40 = 0)),
                         s1\<lparr>s_aucBattery := bats\<rparr>)))"

definition suspend_cmd :: "u8 list" where
  "suspend_cmd = [0x55, 0x11, 0x4D, 0x4D, 0x00, 0x01, 0x00, 0x53, 0x48, 0x52, 0x54,
     0x00, 0x01, 0x00, 0x01, 0xFF, 0x00, 0x00, 0x00, 0xEE, 0x02, 0xAA]"

definition mcuSuspend :: "(u8 list \<Rightarrow> uart_line) \<Rightarrow> u8 list \<Rightarrow> mcu_link \<Rightarrow> mcu_link checked" where
  "mcuSuspend M stack s =
     bnd (mcuSendCommand M suspend_cmd (length suspend_cmd) (take 3 stack) s) (\<lambda>(_, _, s1). Inr s1)"

definition mcuIsSuspendAllowed :: "(u8 list \<Rightarrow> uart_line) \<Rightarrow> u8 list \<Rightarrow> mcu_link \<Rightarrow> (bool \<times> mcu_link) checked" where
  "mcuIsSuspendAllowed M stack s =
     bnd (mcuGetReport M stack False s) (\<lambda>(r, s1).
       Inr (case r of None \<Rightarrow> False | Some (_, ucStatus) \<Rightarrow> ucStatus AND 0x40 = 0, s1))"

subsection \<open>Commands from the network\<close>

definition MPC_MAX_REV_BUFFER_SIZE :: nat where
  "MPC_MAX_REV_BUFFER_SIZE = 1 + 1 + 256 + 2 + 1"

text \<open>\<open>int mpcBuf[(MPC_MAX_REV_BUFFER_SIZE + sizeof(int) - 1) / sizeof(int)]\<close>, in bytes.\<close>

definition mpcBuf_size :: nat where
  "mpcBuf_size = (MPC_MAX_REV_BUFFER_SIZE + 4 - 1) div 4 * 4"

definition byte_sum :: "u8 list \<Rightarrow> u16" where
  "byte_sum bs = sum_list (map ucast bs)"

fun parse_command :: "net_lib \<Rightarrow> nat \<Rightarrow> string \<Rightarrow> u8 list option" where
  "parse_command N 0 t = Some []"
| "parse_command N (Suc n) t =
     (case t of a # b # r \<Rightarrow> map_option (Cons (byte_of (httpHex2Char N t))) (parse_command N n r) | _ \<Rightarrow> None)"

text \<open>
  The command in its buffer. The data have their own length, but checksum (offset 19) and suffix (offset 21) are fields of
  \<open>MPU_CMD_T\<close>, which has 17 bytes of data. The suffix is written before the checksum is formed.
\<close>

definition ctrl_buffer :: "u8 list \<Rightarrow> u8 list \<Rightarrow> u8 list" where
  "ctrl_buffer stack bytes =
     (let b = (blit 2 bytes stack)[0 := 0x55, 1 := of_nat (length bytes), 21 := 0xAA];
          ck = byte_sum (take (length bytes + 1) (drop 1 b))
      in b[19 := ucast ck, 20 := ucast (drop_bit 8 ck)])"

definition ctrl_length :: "nat \<Rightarrow> nat" where
  "ctrl_length n = 22 - 17 + n"

text \<open>
  The answer as text, two digits a byte. The room is tested as if each byte took one character, so a small buffer
  would overflow.
\<close>

definition reply_text :: "net_lib \<Rightarrow> nat \<Rightarrow> u8 list \<Rightarrow> string checked" where
  "reply_text N szMaxResponse bytes =
     (if \<exists>i<length bytes. i + 3 < szMaxResponse \<and> szMaxResponse \<le> 2 * i + 2 then Inl OutOfBounds
      else Inr (concat (map (\<lambda>b. httpChar2Hex N (char_of (unat b))) (take (szMaxResponse - 3) bytes))))"

definition ictlCtrlMCU ::
  "net_lib \<Rightarrow> (u8 list \<Rightarrow> uart_line) \<Rightarrow> u8 list \<Rightarrow> ictl_handle option \<Rightarrow> string option \<Rightarrow> nat \<Rightarrow> mcu_link
     \<Rightarrow> (int \<times> string \<times> mcu_link) checked" where
  "ictlCtrlMCU N M stack pHandle pcCommand szMaxResponse s =
     (if unauthorized AUTH_USER pHandle then Inr (ICTL_UNAUTHORIZED, [], s)
      else case pcCommand of None \<Rightarrow> Inr (ICTL_OK, [], s)
        | Some t \<Rightarrow>
            (case parse_command N (length t div 2 mod 256) t of
               None \<Rightarrow> Inr (ICTL_INVALID_PARAMETERS, [], s)
             | Some bytes \<Rightarrow>
                 let cmd = ctrl_buffer stack bytes
                 in bnd (mcuSendCommand M cmd (ctrl_length (length bytes)) cmd s) (\<lambda>(_, buf, s1).
                      if szMaxResponse = 0 then Inr (ICTL_OK, [], s1)
                      else bnd (reply_text N szMaxResponse (take (unat (buf ! 1)) (drop 2 buf))) (\<lambda>r.
                             Inr (ICTL_OK, r, s1)))))"

text \<open>\<open>"parameters"\<close> holds the number of bytes and the bytes, in hexadecimal; so does the answer.\<close>

definition Config_ControlMCU ::
  "net_lib \<Rightarrow> (u8 list \<Rightarrow> uart_line) \<Rightarrow> u8 list \<Rightarrow> request \<Rightarrow> mcu_link handler" where
  "Config_ControlMCU N M stack rq ps iAction s =
     (case iAction of
        CA_AUTH \<Rightarrow> Inr (AUTH_USER, [], s)
      | CA_CONFIG \<Rightarrow>
          if \<not> httpIsExistParam ps ''parameters'' then Inr (0, [(''responses'', ''error'')], s)
          else let pcMCU = httpGetString ps ''parameters''
               in if length pcMCU \<noteq> (unat (byte_of (httpHex2Char N pcMCU)) + 1) * 2
                  then Inr (0, [(''responses'', ''error_length'')], s)
                  else bnd (ictlCtrlMCU N M stack (Some (rq_handle rq)) (Some (drop 2 pcMCU)) 513 s) (\<lambda>(rt, r, s1).
                         if rt \<noteq> ICTL_OK then Inr (0, [(''responses'', ''error_response'')], s1)
                         else Inr (0, [(''responses'', httpChar2Hex N (char_of (length r div 2)) @ r)], s1))
      | CA_other \<Rightarrow> Inr (- 1, [], s))"

subsection \<open>The line stays in step\<close>

definition frame_with :: "u8 list \<Rightarrow> u8 list \<Rightarrow> u8 list" where
  "frame_with p tail = 0x55 # of_nat (length p) # p @ tail"

lemma length_frame [simp]: "length (frame_with p tail) = 2 + length p + length tail"
  by (simp add: frame_with_def)

lemma hi_uart_read_enough:
  "n \<le> length bs \<Longrightarrow> hi_uart_read n (map Some bs @ l) = (take n bs, map Some (drop n bs) @ l)"
proof (induction n arbitrary: bs)
  case (Suc n)
  then show ?case by (cases bs) auto
qed simp

lemma drain_enough: "n \<le> length bs \<Longrightarrow> drain n (map Some bs @ l) = (True, map Some (drop n bs) @ l)"
proof (induction n arbitrary: bs)
  case (Suc n)
  then show ?case using hi_uart_read_enough [of 1 bs l] by (cases bs) auto
qed simp

lemma recv_body_frame:
  assumes "line s = map Some bs @ l" and "length bs = n" and "3 \<le> n" and "2 \<le> length buf"
  shows "recv_body buf n s = (True, min n (length buf - 2), blit 2 (take (length buf - 2) bs) buf, s\<lparr>line := l\<rparr>)"
proof (cases "2 < length buf")
  case True
  define k where "k = min n (length buf - 2)"
  have k: "0 < k" "k \<le> length bs" "take k bs \<noteq> []" using assms True by (auto simp: k_def)
  have t: "take (length buf - 2) bs = take k bs" using assms(2) by (simp add: k_def min_def)
  have h: "hi_uart_read k (line s) = (take k bs, map Some (drop k bs) @ l)"
    unfolding assms(1) by (rule hi_uart_read_enough [OF k(2)])
  have d: "drain (n - k) (map Some (drop k bs) @ l) = (True, l)"
    using drain_enough [of "n - k" "drop k bs" l] assms(2) by simp
  have len: "length (take k bs) = k" using k by simp
  show ?thesis
    unfolding recv_body_def Let_def k_def [symmetric] t using k by (simp add: h d len min_absorb2)
next
  case False
  then have "length buf = 2" using assms(4) by simp
  moreover have "drain n (line s) = (True, l)" using drain_enough [of n bs l] assms(1,2) by simp
  ultimately show ?thesis by (simp add: recv_body_def Let_def blit_def)
qed

lemma blit_0: "length src \<le> length dst \<Longrightarrow> blit 0 src dst = src @ drop (length src) dst"
  by (simp add: blit_def)

lemma mcuRecv_frame:
  assumes "line s = map Some (frame_with p tail) @ l" and "length p < 256" and "length tail = 3" and "2 \<le> length buf"
  shows "mcuRecv buf s = (min (length buf) (length p + 5), blit 0 (take (length buf) (frame_with p tail)) buf,
     recv_end True (s\<lparr>line := l\<rparr>))"
proof -
  let ?n = "of_nat (length p) :: u8"
  have u: "unat ?n = length p" using assms(2) by (simp add: unat_of_nat)
  have h: "hi_uart_read 2 (line s) = ([0x55, ?n], map Some (p @ tail) @ l)"
    using hi_uart_read_enough [of 2 "frame_with p tail" l] by (simp add: assms(1) frame_with_def)
  obtain x y r where buf: "buf = x # y # r"
    using assms(4) by (cases buf; cases "tl buf") auto
  then have b1: "blit 0 [0x55, ?n] buf = 0x55 # ?n # r" by (simp add: blit_def)
  let ?s = "s\<lparr>line := map Some (p @ tail) @ l\<rparr>"
  from recv_body_frame [of ?s "p @ tail" l "length p + 3" "0x55 # ?n # r"] assms(3)
  have "recv_body (0x55 # ?n # r) (length p + 3) ?s
    = (True, min (length p + 3) (length r), blit 2 (take (length r) (p @ tail)) (0x55 # ?n # r), s\<lparr>line := l\<rparr>)" by simp
  then have "mcuRecv buf s = (2 + min (length p + 3) (length r), blit 2 (take (length r) (p @ tail)) (0x55 # ?n # r),
      recv_end True (s\<lparr>line := l\<rparr>))"
    using assms(4) by (simp add: mcuRecv_def h b1 u Let_def)
  moreover have "blit 2 (take (length r) (p @ tail)) (0x55 # ?n # r) = blit 0 (take (length buf) (frame_with p tail)) buf"
    by (simp add: blit_def buf frame_with_def)
  ultimately show ?thesis by (simp add: buf min_def)
qed

text \<open>
  The controller answers every command with one frame; between operations the line is silent, except for the
  answer that \<open>mcuSendCommand_NoResponse\<close> has left to be read.
\<close>

definition framed :: "uart_line \<Rightarrow> bool" where
  "framed l = (\<exists>p tail. l = map Some (frame_with p tail) \<and> length p < 256 \<and> length tail = 3)"

definition answer :: "(u8 list \<Rightarrow> uart_line) \<Rightarrow> u8 list \<Rightarrow> u8 list" where
  "answer M cmd = map the (M cmd)"

definition link_ok :: "(u8 list \<Rightarrow> uart_line) \<Rightarrow> mcu_link \<Rightarrow> bool" where
  "link_ok M s = ((if g_bSendMCU s then framed (line s) else line s = [])
     \<and> g_nMCU_Debug_Count s = (if g_bSendMCU s then 1 else 0) \<and> \<not> g_bCrashedLock s)"

inductive link_step :: "(u8 list \<Rightarrow> uart_line) \<Rightarrow> mcu_link \<Rightarrow> mcu_link \<Rightarrow> bool" for M where
  send: "mcuSendCommand M c n buf s = Inr (rt, buf', s') \<Longrightarrow> 2 \<le> length buf \<Longrightarrow> link_step M s s'"
| no_response: "mcuSendCommand_NoResponse M c n s = Inr s' \<Longrightarrow> link_step M s s'"
| period: "link_step M s (prdTask_ReadMCU s)"

lemma recv_end_sel [simp]:
  "line (recv_end b s) = line s" "g_bSendMCU (recv_end b s) = g_bSendMCU s"
  "g_nMCU_Debug_Count (recv_end b s) = g_nMCU_Debug_Count s - 1"
  "g_nMCU_Debug_Count s = 1 \<Longrightarrow> g_bCrashedLock (recv_end b s) = g_bCrashedLock s"
  "led_error_mcu (recv_end True s) = False"
  by (simp_all add: recv_end_def mcuReportError_def Let_def)

lemma error_sent [simp]: "sent_frames (mcuSendCommand_Error s) = sent_frames s" "sent_frames (recv_end b s) = sent_frames s"
  by (simp_all add: mcuSendCommand_Error_def mcuReportError_def recv_end_def Let_def)

lemma read_pending_ok:
  assumes "link_ok M s"
  shows "line (read_pending s) = [] \<and> \<not> g_bSendMCU (read_pending s) \<and> g_nMCU_Debug_Count (read_pending s) = 0
     \<and> \<not> g_bCrashedLock (read_pending s) \<and> sent_frames (read_pending s) = sent_frames s"
proof (cases "g_bSendMCU s")
  case True
  then obtain p tail where "line s = map Some (frame_with p tail) @ []" "length p < 256" "length tail = 3"
    using assms by (auto simp: link_ok_def framed_def)
  from mcuRecv_frame [OF this, of ignored] True show ?thesis
    using assms by (simp add: read_pending_def ignored_def MCU_MAX_CMD_LEN_def link_ok_def)
qed (use assms in \<open>simp add: read_pending_def link_ok_def\<close>)

lemma mcuSend_ok:
  assumes "mcuSend M c n s = Inr s'" and "g_nMCU_Debug_Count s = 0"
  shows "line s' = line s @ M (take n c) \<and> g_bSendMCU s' = g_bSendMCU s \<and> g_nMCU_Debug_Count s' = 1
     \<and> g_bCrashedLock s' = g_bCrashedLock s \<and> sent_frames s' = sent_frames s @ [take n c]"
  using assms by (auto simp: mcuSend_def mcuSendCommand_Error_def mcuReportError_def Let_def split: if_splits)

lemma mcuSendCommand_ok:
  assumes "link_ok M s" and "\<forall>c. framed (M c)" and "2 \<le> length buf" and "mcuSendCommand M c n buf s = Inr (rt, buf', s')"
  shows "rt = min (length buf) (length (answer M (take n c))) \<and> buf' = blit 0 (take (length buf) (answer M (take n c))) buf
     \<and> link_ok M s' \<and> \<not> g_bSendMCU s' \<and> \<not> led_error_mcu s' \<and> sent_frames s' = sent_frames s @ [take n c]"
proof -
  from assms(4) obtain s1 where s1: "mcuSend M c n (read_pending s) = Inr s1" "mcuRecv buf s1 = (rt, buf', s')"
    by (auto simp: mcuSendCommand_def bnd_Inr)
  note rp = read_pending_ok [OF assms(1)]
  note st = mcuSend_ok [OF s1(1)]
  from assms(2) obtain p tail where f: "M (take n c) = map Some (frame_with p tail)" "length p < 256" "length tail = 3"
    unfolding framed_def by blast
  have "line s1 = map Some (frame_with p tail) @ []" using st rp f by simp
  note r = mcuRecv_frame [OF this f(2,3) assms(3)]
  have "map the (map Some (frame_with p tail)) = frame_with p tail" by simp
  then have a: "answer M (take n c) = frame_with p tail" by (simp only: answer_def f(1))
  show ?thesis
    using r s1(2) st rp f(3) by (auto simp: a link_ok_def)
qed

lemma link_step_ok:
  assumes "link_step M s s'" and "\<forall>c. framed (M c)" and "link_ok M s"
  shows "link_ok M s'"
  using assms(1)
proof (cases rule: link_step.cases)
  case (send c n buf rt buf')
  then show ?thesis using mcuSendCommand_ok [OF assms(3,2)] by blast
next
  case (no_response c n)
  then obtain s1 where s1: "mcuSend M c n (read_pending s) = Inr s1" "s' = s1\<lparr>g_bSendMCU := True\<rparr>"
    by (auto simp: mcuSendCommand_NoResponse_def bnd_Inr)
  with mcuSend_ok [OF s1(1)] read_pending_ok [OF assms(3)] assms(2) show ?thesis by (simp add: link_ok_def)
next
  case period
  then show ?thesis using read_pending_ok [OF assms(3)] by (simp add: prdTask_ReadMCU_def link_ok_def)
qed

lemma mcuSendCommand_defined:
  assumes "15 < length c" and "n \<le> length c"
  shows "\<exists>rt buf' s'. mcuSendCommand M c n buf s = Inr (rt, buf', s')"
proof -
  obtain s1 where "mcuSend M c n (read_pending s) = Inr s1" using assms by (simp add: mcuSend_def Let_def)
  then show ?thesis by (cases "mcuRecv buf s1") (simp add: mcuSendCommand_def)
qed

text \<open>
  C22. Commands and answers stay paired: if the controller answers each command with one frame, then after any sequence of
  commands with and without interest in the answer and of runs of the period task, the next command gets its own answer,
  cut to the size of its buffer, with the length of what it got; the line is empty again, no error is shown, and the
  debug count of commands under way is back to zero.
\<close>

theorem own_answer:
  assumes "\<forall>c. framed (M c)" and "link_ok M s0" and "(link_step M)\<^sup>*\<^sup>* s0 s" and "2 \<le> length buf"
    and "15 < length c" and "n \<le> length c"
  shows "\<exists>s'. mcuSendCommand M c n buf s = Inr (min (length buf) (length (answer M (take n c))),
       blit 0 (take (length buf) (answer M (take n c))) buf, s')
     \<and> line s' = [] \<and> \<not> led_error_mcu s' \<and> g_nMCU_Debug_Count s' = 0 \<and> \<not> g_bCrashedLock s'"
proof -
  from assms(3) have ok: "link_ok M s"
    by (induction rule: rtranclp_induct) (use assms(1,2) link_step_ok in blast)+
  obtain rt buf' s' where r: "mcuSendCommand M c n buf s = Inr (rt, buf', s')"
    using mcuSendCommand_defined [OF assms(5,6)] by blast
  from mcuSendCommand_ok [OF ok assms(1,4) r] show ?thesis using r by (simp add: link_ok_def)
qed

definition idle_link :: mcu_link where
  "idle_link = \<lparr>line = [], sent_frames = [], g_bSendMCU = False, g_nMCU_Command_Count = 0, g_nMCU_Debug_Count = 0,
     g_bCrashedLock = False, g_uCmdNo = 0, g_uCmdSend = 0, led_error_mcu = True, s_ucBattery = 0, s_ucStatus = 0,
     s_aucBattery = [0, 0, 0, 0, 0]\<rparr>"

text \<open>A controller that answers with its command number and a status.\<close>

definition example_mcu :: "u8 list \<Rightarrow> uart_line" where
  "example_mcu c = map Some (frame_with [c ! 15, 7] [0, 0, 0xAA])"

lemma example_mcu_framed: "framed (example_mcu c)"
  unfolding example_mcu_def framed_def
  by (intro exI [of _ "[c ! 15, 7]"] exI [of _ "[0, 0, 0xAA :: u8]"]) simp

lemma idle_link_ok: "link_ok M idle_link"
  by (simp add: link_ok_def idle_link_def)

theorem own_answer_witness:
  "\<exists>s s'. mcuSendCommand_NoResponse example_mcu suspend_cmd 22 idle_link = Inr s
     \<and> mcuSendCommand example_mcu report_cmd 22 [9, 9, 9, 9] s = Inr (4, [0x55, 2, 0x0B, 7], s') \<and> line s' = []"
proof -
  obtain s where s: "mcuSendCommand_NoResponse example_mcu suspend_cmd 22 idle_link = Inr s"
    by (simp add: mcuSendCommand_NoResponse_def mcuSend_def suspend_cmd_def Let_def)
  have "(link_step example_mcu)\<^sup>*\<^sup>* idle_link s" using link_step.no_response [OF s] by (rule r_into_rtranclp)
  moreover have "answer example_mcu (take 22 report_cmd) = [0x55, 2, 0x0B, 7, 0, 0, 0xAA]"
    by (simp add: answer_def example_mcu_def frame_with_def report_cmd_def)
  ultimately show ?thesis
    using own_answer [of example_mcu idle_link s "[9, 9, 9, 9]" report_cmd 22] s example_mcu_framed idle_link_ok
    by (auto simp: report_cmd_def blit_def)
qed

subsection \<open>Framing\<close>

text \<open>The frame of the protocol, as the controller and the built-in commands have it.\<close>

definition mcu_frame :: "u8 list \<Rightarrow> u8 list" where
  "mcu_frame p = (let ck = byte_sum (of_nat (length p) # p) in frame_with p [ucast ck, ucast (drop_bit 8 ck), 0xAA])"

lemma three_more: "length xs = n + 3 \<Longrightarrow> \<exists>a b c r. xs = a # b # c # r \<and> length r = n"
  by (cases xs; cases "tl xs"; cases "tl (tl xs)") auto

lemma ctrl_buffer_split:
  assumes "length bytes = 17" and "length stack = mpcBuf_size"
  shows "\<exists>r. ctrl_buffer stack bytes = mcu_frame bytes @ r \<and> length r = 242"
proof -
  have "blit 2 bytes stack = take 2 stack @ bytes @ drop 19 stack" using assms by (simp add: blit_def)
  moreover obtain a b where "take 2 stack = [a, b]"
    using assms(2) by (cases stack; cases "tl stack") (auto simp: mpcBuf_size_def MPC_MAX_REV_BUFFER_SIZE_def)
  moreover obtain u v w r where d: "drop 19 stack = u # v # w # r" "length r = 242"
    using three_more [of "drop 19 stack" 242] assms(2) by (auto simp: mpcBuf_size_def MPC_MAX_REV_BUFFER_SIZE_def)
  ultimately have b: "(blit 2 bytes stack)[0 := 0x55, 1 := of_nat (length bytes), 21 := 0xAA]
      = 0x55 # of_nat (length bytes) # bytes @ u # v # 0xAA # r"
    using assms(1) by (simp add: list_update_append)
  show ?thesis
    unfolding ctrl_buffer_def b Let_def
    using assms(1) d(2) by (intro exI [of _ r]) (simp add: mcu_frame_def Let_def frame_with_def list_update_append)
qed

text \<open>
  A command of 17 bytes is framed as the protocol demands, whatever was on the stack: the bytes that are sent are the
  reference frame, with the same checksum the commands built into the firmware carry.
\<close>

theorem ctrl_frame_is_reference:
  assumes "length bytes = 17" and "length stack = mpcBuf_size"
  shows "take (ctrl_length (length bytes)) (ctrl_buffer stack bytes) = mcu_frame bytes
     \<and> report_cmd = mcu_frame (take 17 (drop 2 report_cmd)) \<and> suspend_cmd = mcu_frame (take 17 (drop 2 suspend_cmd))"
proof -
  from ctrl_buffer_split [OF assms] obtain r where "ctrl_buffer stack bytes = mcu_frame bytes @ r" by blast
  moreover have "length (mcu_frame bytes) = 22" using assms(1) by (simp add: mcu_frame_def Let_def)
  ultimately show ?thesis
    using assms(1) by (simp add: ctrl_length_def report_cmd_def suspend_cmd_def mcu_frame_def frame_with_def byte_sum_def Let_def)
qed

theorem ctrl_frame_is_reference_witness:
  "take 22 (ctrl_buffer (replicate 264 9) [1, 1, 1, 1, 1, 1, 1, 1, 1, 1, 1, 1, 1, 1, 1, 1, 1])
     = [0x55, 17, 1, 1, 1, 1, 1, 1, 1, 1, 1, 1, 1, 1, 1, 1, 1, 1, 1, 34, 0, 0xAA]"
  using ctrl_frame_is_reference [of "[1, 1, 1, 1, 1, 1, 1, 1, 1, 1, 1, 1, 1, 1, 1, 1, 1]" "replicate 264 9"]
  by (simp add: ctrl_length_def mpcBuf_size_def MPC_MAX_REV_BUFFER_SIZE_def mcu_frame_def frame_with_def byte_sum_def Let_def)

text \<open>
  Only commands of 17 bytes are framed like that. Of a shorter one (up to 14 bytes) the three bytes behind the data
  are whatever was on the stack, sent in place of checksum and suffix; of a longer one (from 20 bytes) bytes 17 to 19 are
  overwritten, so commands that differ in those send the same frame.
\<close>

theorem other_lengths_misframed:
  assumes "length stack = mpcBuf_size"
  shows "(length bytes \<le> 14 \<longrightarrow> drop (2 + length bytes) (take (ctrl_length (length bytes)) (ctrl_buffer stack bytes))
            = take 3 (drop (2 + length bytes) stack))
     \<and> (20 \<le> length bytes \<longrightarrow> length bytes < 256 \<longrightarrow> ctrl_buffer stack (bytes[19 := x]) = ctrl_buffer stack bytes)"
proof -
  let ?L = "blit 2 bytes stack"
  have short: "drop (2 + length bytes) (take (5 + length bytes) (?L[0 := a, 1 := b, 21 := c, 19 := d, 20 := e]))
      = take 3 (drop (2 + length bytes) stack)" if "length bytes \<le> 14" for a b c d e
    using that assms
    by (simp add: drop_take drop_update_swap take_update_swap blit_def mpcBuf_size_def MPC_MAX_REV_BUFFER_SIZE_def list_update_beyond)
  have long: "(blit 2 (bytes[19 := x]) stack)[0 := a, 1 := b, 21 := c] = ?L[0 := a, 1 := b, 21 := c]" if "20 \<le> length bytes" for a b c
  proof -
    have "blit 2 (bytes[19 := x]) stack = ?L[21 := x]"
      using that assms by (simp add: blit_def list_update_append mpcBuf_size_def MPC_MAX_REV_BUFFER_SIZE_def)
    then show ?thesis by (simp add: list_update_swap [of 21 0] list_update_swap [of 21 "Suc 0"])
  qed
  show ?thesis using short long by (auto simp: ctrl_buffer_def ctrl_length_def Let_def)
qed

theorem other_lengths_misframed_witness:
  "drop 4 (take 7 (ctrl_buffer (replicate 264 9) [1, 2])) = [9, 9, 9]"
proof -
  have "replicate 3 (9 :: u8) = [9, 9, 9]" by (simp add: numeral_3_eq_3)
  then show ?thesis
    using other_lengths_misframed [of "replicate 264 9" "[1, 2]"]
    by (simp add: mpcBuf_size_def MPC_MAX_REV_BUFFER_SIZE_def ctrl_length_def)
qed

subsection \<open>Commands as text\<close>

definition hex_text :: "net_lib \<Rightarrow> u8 list \<Rightarrow> string" where
  "hex_text N bs = concat (map (\<lambda>b. httpChar2Hex N (char_of (unat b))) bs)"

text \<open>What \<open>httpHex2Char\<close> promises: the value of the two digits a text begins with.\<close>

definition hex_parse_law :: "net_lib \<Rightarrow> bool" where
  "hex_parse_law N = (\<forall>a b x y r. hex_val a = Some x \<longrightarrow> hex_val b = Some y \<longrightarrow> httpHex2Char N (a # b # r) = char_of (16 * x + y))"

lemma byte_of_char [simp]: "byte_of (char_of (unat b)) = b"
proof -
  have "unat b < 256" by (rule unat_byte)
  then show ?thesis by (simp add: byte_of_def)
qed

lemma hex_pair:
  assumes "hex_law N" and "hex_parse_law N"
  shows "\<exists>a c. httpChar2Hex N (char_of (unat b)) = [a, c] \<and> (\<forall>r. byte_of (httpHex2Char N (a # c # r)) = b)"
proof -
  let ?c = "char_of (unat b)"
  from assms(1) obtain h l where hl: "httpChar2Hex N ?c = [h, l]" "hex_val h = Some (of_char ?c div 16)"
    "hex_val l = Some (of_char ?c mod 16)" unfolding hex_law_def by blast
  then have "httpHex2Char N (h # l # r) = char_of (16 * (of_char ?c div 16) + of_char ?c mod (16 :: nat))" for r
    using assms(2) unfolding hex_parse_law_def by blast
  then have "httpHex2Char N (h # l # r) = ?c" for r by simp
  with hl(1) show ?thesis by simp
qed

lemma hex_text_parse:
  assumes "hex_law N" and "hex_parse_law N"
  shows "parse_command N (length bs) (hex_text N bs) = Some bs \<and> length (hex_text N bs) = 2 * length bs"
proof (induction bs)
  case (Cons b bs)
  obtain a c where "httpChar2Hex N (char_of (unat b)) = [a, c]" "\<And>r. byte_of (httpHex2Char N (a # c # r)) = b"
    using hex_pair [OF assms, of b] by blast
  with Cons show ?case by (simp add: hex_text_def)
qed (simp add: hex_text_def)

text \<open>
  C23. A drive command sent as text reaches the controller unchanged and its answer comes back as text: for a command of
  17 bytes the web command sends exactly the protocol's frame and answers the length and the bytes of the controller's
  frame in hexadecimal, whatever was on the stack.
\<close>

theorem mcu_command_answered:
  assumes "hex_law N" and "hex_parse_law N" and "\<forall>c. framed (M c)" and "link_ok M s" and "length stack = mpcBuf_size"
    and "AUTH_USER \<le> Privilege (rq_handle rq)" and "length bytes = 17"
    and "httpIsExistParam ps ''parameters''" and "httpGetString ps ''parameters'' = hex_text N (of_nat 17 # bytes)"
    and "answer M (mcu_frame bytes) = frame_with p tail" and "length p < 256" and "length tail = 3"
  shows "\<exists>s'. Config_ControlMCU N M stack rq ps CA_CONFIG s = Inr (0, [(''responses'', hex_text N (of_nat (length p) # p))], s')
     \<and> sent_frames s' = sent_frames s @ [mcu_frame bytes] \<and> line s' = [] \<and> link_ok M s'"
proof -
  obtain a c where ac: "httpChar2Hex N (char_of (unat (17 :: u8))) = [a, c]" "\<And>r. byte_of (httpHex2Char N (a # c # r)) = 17"
    using hex_pair [OF assms(1,2), of 17] by blast
  have t: "httpGetString ps ''parameters'' = a # c # hex_text N bytes" using assms(9) ac(1) by (simp add: hex_text_def)
  note pc = hex_text_parse [OF assms(1,2), of bytes]
  obtain r where r: "ctrl_buffer stack bytes = mcu_frame bytes @ r" "length r = 242"
    using ctrl_buffer_split [OF assms(7,5)] by blast
  have lf: "length (mcu_frame bytes) = 22" using assms(7) by (simp add: mcu_frame_def Let_def)
  let ?cmd = "ctrl_buffer stack bytes" and ?n = "ctrl_length (length bytes)"
  have n: "?n = 22" using assms(7) by (simp add: ctrl_length_def)
  have len: "length ?cmd = 264" "take ?n ?cmd = mcu_frame bytes" unfolding n using r lf by simp_all
  obtain rt buf' s' where m: "mcuSendCommand M ?cmd ?n ?cmd s = Inr (rt, buf', s')"
    using mcuSendCommand_defined [of ?cmd ?n M ?cmd s] len(1) n by auto
  from mcuSendCommand_ok [OF assms(4,3) _ m] len assms(10-12)
  have b: "buf' = frame_with p tail @ drop (5 + length p) ?cmd" and s': "link_ok M s'" "\<not> g_bSendMCU s'"
    "sent_frames s' = sent_frames s @ [mcu_frame bytes]" by (simp_all add: blit_0)
  have "unat (of_nat (length p) :: u8) = length p" using assms(11) by (simp add: unat_of_nat)
  then have d: "take (unat (buf' ! Suc 0)) (drop 2 buf') = p" by (simp add: b frame_with_def)
  have rep: "reply_text N 513 p = Inr (hex_text N p)"
    using assms(11) by (auto simp: reply_text_def hex_text_def)
  have "\<not> unauthorized AUTH_USER (Some (rq_handle rq))" using assms(6) by (simp add: unauthorized_def)
  then have "ictlCtrlMCU N M stack (Some (rq_handle rq)) (Some (hex_text N bytes)) 513 s = Inr (ICTL_OK, hex_text N p, s')"
    using pc assms(7) m by (simp add: ictlCtrlMCU_def Let_def d rep)
  then have "Config_ControlMCU N M stack rq ps CA_CONFIG s = Inr (0, [(''responses'', hex_text N (of_nat (length p) # p))], s')"
    using assms(7,8,11) pc ac(2) hex_text_parse [OF assms(1,2), of p]
    by (simp add: Config_ControlMCU_def t hex_text_def unat_of_nat)
  then show ?thesis using s' by (simp add: link_ok_def)
qed

definition mcu_net :: net_lib where
  "mcu_net = hex_net\<lparr>httpHex2Char := (\<lambda>t. case t of a # b # r \<Rightarrow>
     char_of (16 * the (hex_val a) + the (hex_val b)) | _ \<Rightarrow> CHR 0x00)\<rparr>"

lemma mcu_net_laws: "hex_law mcu_net" "hex_parse_law mcu_net"
  using hex_net_law by (simp_all add: mcu_net_def hex_law_def hex_parse_law_def)

theorem mcu_command_answered_witness:
  "\<exists>s'. Config_ControlMCU mcu_net example_mcu (replicate 264 9) bob_request
       [(''parameters'', ''114d4d0001ff53485254000100010b000000'')] CA_CONFIG idle_link = Inr (0, [(''responses'', ''020b07'')], s')"
proof -
  let ?b = "[0x4d, 0x4d, 0, 1, 0xff, 0x53, 0x48, 0x52, 0x54, 0, 1, 0, 1, 0x0b, 0, 0, 0] :: u8 list"
  have t: "hex_text mcu_net (17 # ?b) = ''114d4d0001ff53485254000100010b000000''"
    by (simp add: hex_text_def mcu_net_def hex_net_def hex_digit_def) (simp add: char_of_def bit_0)
  have r: "hex_text mcu_net [2, 0x0b, 7] = ''020b07''"
    by (simp add: hex_text_def mcu_net_def hex_net_def hex_digit_def) (simp add: char_of_def bit_0)
  have "answer example_mcu (mcu_frame ?b) = frame_with [0x0b, 7] [0, 0, 0xAA]"
    by (simp add: answer_def example_mcu_def mcu_frame_def frame_with_def Let_def)
  then show ?thesis
    using mcu_command_answered [OF mcu_net_laws, of example_mcu idle_link "replicate 264 9" bob_request ?b
        "[(''parameters'', ''114d4d0001ff53485254000100010b000000'')]" "[0x0b, 7]" "[0, 0, 0xAA]"]
      example_mcu_framed idle_link_ok
    by (auto simp: t r mpcBuf_size_def MPC_MAX_REV_BUFFER_SIZE_def bob_request_def AUTH_USER_def httpIsExistParam_def httpGetString_def)
qed

end
