(* ===== verification/PeriodTask.thy ===== *)
theory PeriodTask
  imports IntrusiveList
begin

section \<open>Periodic tasks (LibCamera/Src/PeriodTask.c)\<close>

text \<open>
  One thread runs all periodic work of the firmware: LEDs, battery and network checks, deferred reading of the motor
  controller. A task is a record the caller owns, linked into the list of tasks (or, until the thread has seen it, into the
  list of added ones). In each round the thread counts the remaining times down, waits for the earliest, then
  passes over the list and runs what is due, with the lock released, so that tasks may add and delete tasks.

  The lists are the rings of \<open>list.h\<close>, seen as sequences (\<open>add_is_attach\<close>, \<open>del_is_detach\<close>); during the pass the tasks
  that were seen are in a third, local list. Times are clock ticks, of a clock that does not run backwards (the 64-bit
  count does not wrap in practice). A task is identified by its handle, the address of its record.

  A record must not be added while it is linked: \<open>prdAddTask\<close> then takes its links for unused and overwrites them, the neighbours
  of the record still point to it, and a walk over their ring enters the other ring and does not come back (a pass of the thread
  never ends). No caller in the firmware does this: each adds its record once, or deletes it first. The model notes it in \<open>relinked\<close>;
  the lists as sequences describe the rings as long as that is false.
\<close>

record prd_task =
  handle :: nat
  tTimeout :: nat
  tRemain :: nat

definition tick_max :: nat where
  "tick_max = 2 ^ 64 - 1"

record prd =
  g_lPrdTaskHeader :: "prd_task list"
  prd_local :: "prd_task list"
  g_lPrdTaskAdd :: "prd_task list"
  tLastCheck :: nat
  relinked :: bool

definition prdInit :: "nat \<Rightarrow> prd" where
  "prdInit now = \<lparr>g_lPrdTaskHeader = [], prd_local = [], g_lPrdTaskAdd = [], tLastCheck = now, relinked = False\<rparr>"

abbreviation everywhere :: "prd \<Rightarrow> prd_task list" where
  "everywhere p \<equiv> g_lPrdTaskHeader p @ prd_local p @ g_lPrdTaskAdd p"

definition prdAddTask :: "nat \<Rightarrow> nat \<Rightarrow> prd \<Rightarrow> prd" where
  "prdAddTask h timeout p =
     p\<lparr>g_lPrdTaskAdd := g_lPrdTaskAdd p @ [\<lparr>handle = h, tTimeout = timeout, tRemain = tick_max\<rparr>],
       relinked := relinked p \<or> h \<in> set (map handle (everywhere p))\<rparr>"

abbreviation other_than :: "nat \<Rightarrow> prd_task \<Rightarrow> bool" where
  "other_than h t \<equiv> handle t \<noteq> h"

definition prdDelTask :: "nat \<Rightarrow> prd \<Rightarrow> prd" where
  "prdDelTask h p =
     p\<lparr>g_lPrdTaskHeader := filter (other_than h) (g_lPrdTaskHeader p),
       prd_local := filter (other_than h) (prd_local p),
       g_lPrdTaskAdd := filter (other_than h) (g_lPrdTaskAdd p)\<rparr>"

text \<open>What all callers that add a record again do: deleting it first.\<close>

lemma readd_not_relinked: "relinked (prdAddTask h n (prdDelTask h p)) = relinked p"
  by (auto simp: prdAddTask_def prdDelTask_def)

text \<open>What tasks and other threads do whenever the lock is free.\<close>

datatype prd_op = AddTask nat nat | DelTask nat

fun prd_op_run :: "prd_op \<Rightarrow> prd \<Rightarrow> prd" where
  "prd_op_run (AddTask h timeout) = prdAddTask h timeout"
| "prd_op_run (DelTask h) = prdDelTask h"

definition prd_ops :: "prd_op list \<Rightarrow> prd \<Rightarrow> prd" where
  "prd_ops ops p = fold prd_op_run ops p"

subsection \<open>A round\<close>

definition clamp :: "prd_task \<Rightarrow> prd_task" where
  "clamp t = (if tRemain t > tTimeout t then t\<lparr>tRemain := tTimeout t\<rparr> else t)"

definition count_down :: "nat \<Rightarrow> prd_task \<Rightarrow> prd_task" where
  "count_down tPeriod t =
     (let t = clamp t in if tRemain t \<le> tPeriod then t\<lparr>tRemain := 0\<rparr> else t\<lparr>tRemain := tRemain t - tPeriod\<rparr>)"

text \<open>The first half: count down, and decide how long to wait, at most 10000 ticks.\<close>

definition min_remain :: "prd_task list \<Rightarrow> nat" where
  "min_remain ts =
     (let m = foldl (\<lambda>m t. if m > tRemain t then tRemain t else m) tick_max ts
      in if m > 10000 then 10000 else m)"

definition check_tasks :: "nat \<Rightarrow> prd \<Rightarrow> nat \<times> prd" where
  "check_tasks tCurrent p =
     (let ts = map (count_down (tCurrent - tLastCheck p)) (g_lPrdTaskHeader p)
      in (min_remain ts + tCurrent, p\<lparr>g_lPrdTaskHeader := ts, tLastCheck := tCurrent\<rparr>))"

text \<open>The second half. A task that was run gets its full time again, wherever its record is linked now.\<close>

definition restart :: "nat \<Rightarrow> prd_task \<Rightarrow> prd_task" where
  "restart h t = (if handle t = h then t\<lparr>tRemain := tTimeout t\<rparr> else t)"

definition restart_task :: "nat \<Rightarrow> prd \<Rightarrow> prd" where
  "restart_task h p =
     p\<lparr>g_lPrdTaskHeader := map (restart h) (g_lPrdTaskHeader p), prd_local := map (restart h) (prd_local p),
       g_lPrdTaskAdd := map (restart h) (g_lPrdTaskAdd p)\<rparr>"

lemma prd_op_header_le: "length (g_lPrdTaskHeader (prd_op_run a p)) \<le> length (g_lPrdTaskHeader p)"
  by (cases a) (simp_all add: prdAddTask_def prdDelTask_def)

lemma prd_ops_header_le: "length (g_lPrdTaskHeader (prd_ops ops p)) \<le> length (g_lPrdTaskHeader p)"
proof (induction ops arbitrary: p)
  case (Cons a ops)
  show ?case using Cons [of "prd_op_run a p"] prd_op_header_le [of a p] by (simp add: prd_ops_def)
qed (simp add: prd_ops_def)

definition start_task :: "(nat \<Rightarrow> prd_op list) \<Rightarrow> prd_task \<Rightarrow> prd_task list \<Rightarrow> prd \<Rightarrow> prd" where
  "start_task ops t ts p = restart_task (handle t)
     (prd_ops (ops (handle t)) (p\<lparr>g_lPrdTaskHeader := ts, prd_local := prd_local p @ [clamp t]\<rparr>))"

definition skip_task :: "nat \<Rightarrow> prd_task \<Rightarrow> prd_task list \<Rightarrow> prd \<Rightarrow> prd" where
  "skip_task tPeriod t ts p =
     p\<lparr>g_lPrdTaskHeader := ts, prd_local := prd_local p @ [(clamp t)\<lparr>tRemain := tRemain (clamp t) - tPeriod\<rparr>]\<rparr>"

lemma start_task_le: "length (g_lPrdTaskHeader (start_task ops t ts p)) \<le> length ts"
  using prd_ops_header_le [of "ops (handle t)" "p\<lparr>g_lPrdTaskHeader := ts, prd_local := prd_local p @ [clamp t]\<rparr>"]
  by (simp add: start_task_def restart_task_def)

text \<open>
  The pass over the tasks, as the loop of the code: it ends because a task is moved to the local list before it runs, and what
  the tasks add goes to the list of added ones.
\<close>

function run_tasks :: "(nat \<Rightarrow> prd_op list) \<Rightarrow> nat \<Rightarrow> prd \<Rightarrow> nat list \<times> prd" where
  "run_tasks ops tPeriod p =
     (case g_lPrdTaskHeader p of
        [] \<Rightarrow> ([], p)
      | t # ts \<Rightarrow>
          if tRemain (clamp t) \<le> tPeriod
          then case run_tasks ops tPeriod (start_task ops t ts p) of (hs, q) \<Rightarrow> (handle t # hs, q)
          else run_tasks ops tPeriod (skip_task tPeriod t ts p))"
  by pat_completeness auto

termination
  by (relation "measure (\<lambda>(_, _, p). length (g_lPrdTaskHeader p))")
    (auto simp: skip_task_def le_imp_less_Suc [OF start_task_le])

declare run_tasks.simps [simp del]

lemma run_tasks_unfold:
  "g_lPrdTaskHeader p = [] \<Longrightarrow> run_tasks ops n p = ([], p)"
  "g_lPrdTaskHeader p = t # ts \<Longrightarrow> tRemain (clamp t) \<le> n \<Longrightarrow> run_tasks ops n p =
     (handle t # fst (run_tasks ops n (start_task ops t ts p)), snd (run_tasks ops n (start_task ops t ts p)))"
  "g_lPrdTaskHeader p = t # ts \<Longrightarrow> \<not> tRemain (clamp t) \<le> n \<Longrightarrow> run_tasks ops n p = run_tasks ops n (skip_task n t ts p)"
  by (subst run_tasks.simps; simp split: prod.split)+

lemma run_tasks_induct [case_names none due later]:
  assumes "\<And>p. g_lPrdTaskHeader p = [] \<Longrightarrow> P p"
    and "\<And>p t ts. g_lPrdTaskHeader p = t # ts \<Longrightarrow> tRemain (clamp t) \<le> n \<Longrightarrow> P (start_task ops t ts p) \<Longrightarrow> P p"
    and "\<And>p t ts. g_lPrdTaskHeader p = t # ts \<Longrightarrow> \<not> tRemain (clamp t) \<le> n \<Longrightarrow> P (skip_task n t ts p) \<Longrightarrow> P p"
  shows "P p"
proof (induction "length (g_lPrdTaskHeader p)" arbitrary: p rule: less_induct)
  case less
  show ?case
  proof (cases "g_lPrdTaskHeader p")
    case (Cons t ts)
    have "P (start_task ops t ts p)" "P (skip_task n t ts p)"
      using less start_task_le [of ops t ts p] Cons by (simp_all add: skip_task_def)
    then show ?thesis using assms(2,3) [OF Cons] by blast
  qed (rule assms(1))
qed

record prd_round =
  t_check :: nat
  t_wake :: nat
  while_waiting :: "prd_op list"
  while_running :: "nat \<Rightarrow> prd_op list"

definition prdRun_round :: "prd_round \<Rightarrow> prd \<Rightarrow> nat list \<times> prd" where
  "prdRun_round r p =
     (case check_tasks (t_check r) p of
        (tWait, p1) \<Rightarrow>
          let p2 = prd_ops (while_waiting r) p1
          in case run_tasks (while_running r) (t_wake r - tLastCheck p2) (p2\<lparr>tLastCheck := t_wake r, prd_local := []\<rparr>) of
               (hs, p3) \<Rightarrow>
                 (hs, p3\<lparr>g_lPrdTaskHeader := g_lPrdTaskHeader p3 @ prd_local p3 @ g_lPrdTaskAdd p3,
                         prd_local := [], g_lPrdTaskAdd := []\<rparr>))"

text \<open>When which task runs, round after round.\<close>

fun prdRun :: "prd_round list \<Rightarrow> prd \<Rightarrow> (nat \<times> nat) list \<times> prd" where
  "prdRun [] p = ([], p)"
| "prdRun (r # rs) p =
     (case prdRun_round r p of (hs, p1) \<Rightarrow>
        case prdRun rs p1 of (runs, p2) \<Rightarrow> (map (Pair (t_wake r)) hs @ runs, p2))"

subsection \<open>The lock\<close>

text \<open>
  A recursive lock around a plain mutex; a thread is a number. Locking waits (\<open>None\<close>) while another thread
  holds it. Unlocking what is not locked stops the device on purpose.
\<close>

record prd_lock =
  g_nPrdLockCount :: int
  g_hPrdLockThread :: "nat option"
  g_mPrdLock :: "nat option"

definition prdLock :: "nat \<Rightarrow> prd_lock \<Rightarrow> prd_lock option" where
  "prdLock self l =
     (if g_hPrdLockThread l \<noteq> Some self
      then if g_mPrdLock l \<noteq> None then None
           else Some (l\<lparr>g_mPrdLock := Some self, g_hPrdLockThread := Some self, g_nPrdLockCount := g_nPrdLockCount l + 1\<rparr>)
      else Some (l\<lparr>g_nPrdLockCount := g_nPrdLockCount l + 1\<rparr>))"

definition prdUnlock :: "prd_lock \<Rightarrow> prd_lock checked" where
  "prdUnlock l =
     (if g_nPrdLockCount l > 0
      then let n = g_nPrdLockCount l - 1
           in Inr (if n = 0 then l\<lparr>g_nPrdLockCount := n, g_hPrdLockThread := None, g_mPrdLock := None\<rparr>
                   else l\<lparr>g_nPrdLockCount := n\<rparr>)
      else Inl Hang)"

text \<open>Waiting on the condition releases the mutex and takes it again; the two hooks keep the recursive lock in step.\<close>

definition prdBeforeCondWait :: "prd_lock \<Rightarrow> prd_lock" where
  "prdBeforeCondWait l = l\<lparr>g_nPrdLockCount := 0, g_hPrdLockThread := None\<rparr>"

definition prdAfterCondWait :: "nat \<Rightarrow> prd_lock \<Rightarrow> prd_lock" where
  "prdAfterCondWait self l = l\<lparr>g_nPrdLockCount := 1, g_hPrdLockThread := Some self\<rparr>"

definition lock_ok :: "prd_lock \<Rightarrow> bool" where
  "lock_ok l = (g_mPrdLock l = g_hPrdLockThread l
     \<and> (if g_hPrdLockThread l = None then g_nPrdLockCount l = 0 else g_nPrdLockCount l > 0))"

lemma lock_ok_ops:
  assumes "lock_ok l"
  shows "prdLock t l = Some l' \<Longrightarrow> lock_ok l' \<and> g_hPrdLockThread l' = Some t"
    and "g_hPrdLockThread l = Some t \<Longrightarrow> \<exists>l'. prdUnlock l = Inr l' \<and> lock_ok l'"
    and "prdLock t l = Some l' \<Longrightarrow> prdUnlock l' = Inr l"
    and "lock_ok ((prdBeforeCondWait l)\<lparr>g_mPrdLock := None\<rparr>)"
    and "g_mPrdLock m = Some t \<Longrightarrow> lock_ok (prdAfterCondWait t m)"
  using assms
  by (auto simp: lock_ok_def prdLock_def prdUnlock_def prdBeforeCondWait_def prdAfterCondWait_def Let_def split: if_splits)

subsection \<open>Each task keeps its own time\<close>

abbreviation here :: "nat \<Rightarrow> prd_task list \<Rightarrow> prd_task list" where
  "here h xs \<equiv> filter (\<lambda>t. handle t = h) xs"

fun spares :: "nat \<Rightarrow> prd_op \<Rightarrow> bool" where
  "spares h (AddTask h' _) = (h' \<noteq> h)"
| "spares h (DelTask h') = (h' \<noteq> h)"

definition same_task :: "nat \<Rightarrow> prd \<Rightarrow> prd \<Rightarrow> bool" where
  "same_task h p q =
     (here h (g_lPrdTaskHeader q) = here h (g_lPrdTaskHeader p) \<and> here h (prd_local q) = here h (prd_local p)
      \<and> here h (g_lPrdTaskAdd q) = here h (g_lPrdTaskAdd p) \<and> tLastCheck q = tLastCheck p)"

lemma here_others: "h' \<noteq> h \<Longrightarrow> filter (\<lambda>t. other_than h' t \<and> handle t = h) xs = here h xs"
  by (induction xs) auto

lemma prd_ops_same: "\<forall>a\<in>set ops. spares h a \<Longrightarrow> same_task h p (prd_ops ops p)"
proof (induction ops arbitrary: p)
  case (Cons a ops)
  then have "same_task h (prd_op_run a p) (prd_ops ops (prd_op_run a p))" by simp
  moreover have "same_task h p (prd_op_run a p)"
    using Cons.prems by (cases a) (simp_all add: same_task_def prdAddTask_def prdDelTask_def here_others)
  ultimately show ?case by (simp add: same_task_def prd_ops_def)
qed (simp add: same_task_def prd_ops_def)

lemma here_restart_other: "h' \<noteq> h \<Longrightarrow> here h (map (restart h') xs) = here h xs"
  by (induction xs) (auto simp: restart_def)

lemma restart_other: "h' \<noteq> h \<Longrightarrow> same_task h p (restart_task h' p)"
  by (simp add: same_task_def restart_task_def here_restart_other)

lemma here_restart: "here h (map (restart h) xs) = map (restart h) (here h xs)"
  by (induction xs) (auto simp: restart_def)

lemma clamp_sel [simp]: "handle (clamp t) = handle t" "tTimeout (clamp t) = tTimeout t" "tRemain (clamp t) = min (tRemain t) (tTimeout t)"
  by (simp_all add: clamp_def)

lemma count_down_sel [simp]:
  "handle (count_down n t) = handle t" "tTimeout (count_down n t) = tTimeout t"
  "tRemain (count_down n t) = min (tRemain t) (tTimeout t) - n"
  by (simp_all add: count_down_def Let_def)

lemma run_tasks_header [simp]: "g_lPrdTaskHeader (snd (run_tasks ops n p)) = []"
  by (induction p rule: run_tasks_induct [of _ n ops]) (simp_all add: run_tasks_unfold)

lemma start_task_same:
  assumes "g_lPrdTaskHeader p = t # ts" and "handle t \<noteq> h" and "\<forall>a\<in>set (ops (handle t)). spares h a"
  shows "same_task h p (start_task ops t ts p)"
proof -
  let ?p = "p\<lparr>g_lPrdTaskHeader := ts, prd_local := prd_local p @ [clamp t]\<rparr>"
  have "same_task h ?p (prd_ops (ops (handle t)) ?p)" by (rule prd_ops_same [OF assms(3)])
  with restart_other [OF assms(2), of "prd_ops (ops (handle t)) ?p"] assms(1,2) show ?thesis
    by (simp add: same_task_def start_task_def)
qed

lemma skip_task_same: "g_lPrdTaskHeader p = t # ts \<Longrightarrow> handle t \<noteq> h \<Longrightarrow> same_task h p (skip_task n t ts p)"
  by (simp add: same_task_def skip_task_def)

lemma run_tasks_other:
  assumes "\<forall>h'. h' \<noteq> h \<longrightarrow> (\<forall>a\<in>set (ops h'). spares h a)"
  shows "here h (g_lPrdTaskHeader p) = [] \<Longrightarrow> h \<notin> set (fst (run_tasks ops n p)) \<and> same_task h p (snd (run_tasks ops n p))"
proof (induction p rule: run_tasks_induct [of _ n ops])
  case (none p)
  then show ?case by (simp add: run_tasks_unfold same_task_def)
next
  case (due p t ts)
  then have t: "handle t \<noteq> h" by (auto split: if_splits)
  with start_task_same [OF due(1) t] assms have "same_task h p (start_task ops t ts p)" by blast
  with due t show ?case by (simp add: run_tasks_unfold same_task_def)
next
  case (later p t ts)
  then have t: "handle t \<noteq> h" by (auto split: if_splits)
  from skip_task_same [OF later(1) t, of n] later t show ?case by (simp add: run_tasks_unfold same_task_def)
qed

text \<open>
  What a task may do to itself while it runs: nothing, or delete itself and add itself again with another timeout. The
  operations on other tasks in between do not matter.
\<close>

definition own_ops :: "nat \<Rightarrow> prd_op list \<Rightarrow> prd_op list" where
  "own_ops h ops = filter (\<lambda>a. \<not> spares h a) ops"

definition reschedules :: "nat \<Rightarrow> prd_op list \<Rightarrow> bool" where
  "reschedules h ops = (own_ops h ops = [] \<or> (\<exists>n. own_ops h ops = [DelTask h, AddTask h n]))"

fun retimed :: "nat \<Rightarrow> prd_op list \<Rightarrow> nat" where
  "retimed T [] = T"
| "retimed T (AddTask h n # ops) = retimed n ops"
| "retimed T (DelTask h # ops) = retimed T ops"

definition next_timeout :: "nat \<Rightarrow> nat \<Rightarrow> prd_op list \<Rightarrow> nat" where
  "next_timeout h T ops = retimed T (own_ops h ops)"

lemma own_ops_spared: "\<forall>a\<in>set ops. spares h a \<Longrightarrow> own_ops h ops = []"
  by (simp add: own_ops_def)

lemma prd_op_cong: "same_task h p q \<Longrightarrow> same_task h (prd_op_run a p) (prd_op_run a q)"
proof -
  have f: "filter (\<lambda>t. other_than h' t \<and> handle t = h) xs = (if h' = h then [] else here h xs)" for h' xs
    using here_others [of h' h xs] by (auto simp: filter_empty_conv)
  show "same_task h p q \<Longrightarrow> same_task h (prd_op_run a p) (prd_op_run a q)"
    by (cases a) (simp_all add: same_task_def prdAddTask_def prdDelTask_def f)
qed

lemma prd_ops_own: "same_task h p q \<Longrightarrow> same_task h (prd_ops (own_ops h ops) p) (prd_ops ops q)"
proof (induction ops arbitrary: p q)
  case (Cons a ops)
  show ?case
  proof (cases "spares h a")
    case True
    then have "same_task h q (prd_op_run a q)" using prd_ops_same [of "[a]" h q] by (simp add: prd_ops_def)
    with Cons.prems have "same_task h p (prd_op_run a q)" by (simp add: same_task_def)
    from Cons.IH [OF this] True show ?thesis by (simp add: own_ops_def prd_ops_def)
  next
    case False
    from Cons.IH [OF prd_op_cong [OF Cons.prems]] False show ?thesis by (simp add: own_ops_def prd_ops_def)
  qed
qed (simp add: own_ops_def prd_ops_def)

lemma start_task_self:
  assumes "here h (t # ts) = [u]" and "handle t = h" and "here h (prd_local p) = []" and "here h (g_lPrdTaskAdd p) = []"
    and "reschedules h (ops h)"
  shows "u = t \<and> here h (g_lPrdTaskHeader (start_task ops t ts p)) = []
     \<and> (\<exists>t'. here h (everywhere (start_task ops t ts p)) = [t'] \<and> tTimeout t' = next_timeout h (tTimeout t) (ops h) \<and> tRemain t' = tTimeout t')
     \<and> tLastCheck (start_task ops t ts p) = tLastCheck p"
proof -
  let ?p = "p\<lparr>g_lPrdTaskHeader := ts, prd_local := prd_local p @ [clamp t]\<rparr>"
  have "same_task h (prd_ops (own_ops h (ops h)) ?p) (prd_ops (ops h) ?p)" by (rule prd_ops_own) (simp add: same_task_def)
  moreover have "u = t" "here h ts = []" using assms(1,2) by auto
  moreover note assms(2-5)
  ultimately show ?thesis
    by (auto simp: reschedules_def next_timeout_def same_task_def start_task_def restart_task_def here_restart prd_ops_def
        prdAddTask_def prdDelTask_def here_others) (simp_all add: restart_def)
qed

lemma run_tasks_present:
  assumes "\<forall>h'. h' \<noteq> h \<longrightarrow> (\<forall>a\<in>set (ops h'). spares h a)" and "reschedules h (ops h)"
  shows "here h (g_lPrdTaskHeader p) = [t] \<Longrightarrow> here h (prd_local p) = [] \<Longrightarrow> here h (g_lPrdTaskAdd p) = [] \<Longrightarrow>
     count_list (fst (run_tasks ops n p)) h = (if tRemain (clamp t) \<le> n then 1 else 0)
     \<and> (\<exists>t'. here h (everywhere (snd (run_tasks ops n p))) = [t']
          \<and> tTimeout t' = (if tRemain (clamp t) \<le> n then next_timeout h (tTimeout t) (ops h) else tTimeout t)
          \<and> tRemain t' = (if tRemain (clamp t) \<le> n then tTimeout t' else tRemain (clamp t) - n))
     \<and> tLastCheck (snd (run_tasks ops n p)) = tLastCheck p"
proof (induction p rule: run_tasks_induct [of _ n ops])
  case (none p)
  then show ?case by simp
next
  case (due p u us)
  show ?case
  proof (cases "handle u = h")
    case True
    from start_task_self [of h u us t p ops, OF _ True due(5,6) assms(2)] due(1,4) obtain t' where
      s: "t = u" "here h (g_lPrdTaskHeader (start_task ops u us p)) = []" "here h (everywhere (start_task ops u us p)) = [t']"
      "tTimeout t' = next_timeout h (tTimeout u) (ops h)" "tRemain t' = tTimeout t'" "tLastCheck (start_task ops u us p) = tLastCheck p" by auto
    from run_tasks_other [OF assms(1) s(2), of n] s due(1,2) True show ?thesis
      by (simp add: run_tasks_unfold(2) same_task_def count_notin)
  next
    case False
    from start_task_same [OF due(1) False] assms(1) False have "same_task h p (start_task ops u us p)" by blast
    with due False show ?thesis by (simp add: run_tasks_unfold(2) same_task_def)
  qed
next
  case (later p u us)
  show ?case
  proof (cases "handle u = h")
    case True
    let ?q = "skip_task n u us p"
    from later(1,4-6) True have s: "t = u" "here h (g_lPrdTaskHeader ?q) = []" "here h (g_lPrdTaskAdd ?q) = []"
      "here h (prd_local ?q) = [(clamp u)\<lparr>tRemain := tRemain (clamp u) - n\<rparr>]" "tLastCheck ?q = tLastCheck p"
      by (auto simp: skip_task_def)
    from run_tasks_other [OF assms(1) s(2), of n] s later(1,2) True show ?thesis
      by (simp add: run_tasks_unfold(3) same_task_def count_notin)
  next
    case False
    from skip_task_same [OF later(1) False, of n] later False show ?thesis
      by (simp add: run_tasks_unfold(3) same_task_def)
  qed
qed

text \<open>A task of the list that is due at a time; between rounds no task is anywhere else.\<close>

definition due_at :: "nat \<Rightarrow> nat \<Rightarrow> nat \<Rightarrow> prd \<Rightarrow> bool" where
  "due_at h T D p =
     (\<exists>t. here h (g_lPrdTaskHeader p) = [t] \<and> tTimeout t = T \<and> tLastCheck p + min (tRemain t) T = D
        \<and> here h (prd_local p) = [] \<and> here h (g_lPrdTaskAdd p) = [])"

definition round_spares :: "nat \<Rightarrow> prd_round \<Rightarrow> bool" where
  "round_spares h r = ((\<forall>a\<in>set (while_waiting r). spares h a) \<and> (\<forall>h'. \<forall>a\<in>set (while_running r h'). spares h a))"

text \<open>Only the task itself touches its record, and only as above.\<close>

definition round_leaves :: "nat \<Rightarrow> prd_round \<Rightarrow> bool" where
  "round_leaves h r = ((\<forall>a\<in>set (while_waiting r). spares h a) \<and> (\<forall>h'. h' \<noteq> h \<longrightarrow> (\<forall>a\<in>set (while_running r h'). spares h a))
     \<and> reschedules h (while_running r h))"

lemma round_spares_leaves: "round_spares h r \<Longrightarrow> round_leaves h r \<and> next_timeout h T (while_running r h) = T"
  by (auto simp: round_spares_def round_leaves_def reschedules_def next_timeout_def own_ops_spared)

lemma here_count_down: "here h (map (count_down n) xs) = map (count_down n) (here h xs)"
  by (induction xs) auto

lemma due_arith: "\<not> (l :: nat) + min R T \<le> w \<Longrightarrow> l \<le> w \<Longrightarrow> w + min (min R T + l - w) T = l + min R T"
  by (cases "R \<le> T") (auto simp: min_absorb1 min_absorb2)

lemma round_retimed:
  assumes "due_at h T D p" and "round_leaves h r" and "tLastCheck p \<le> t_check r" and "t_check r \<le> t_wake r"
  shows "count_list (fst (prdRun_round r p)) h = (if D \<le> t_wake r then 1 else 0)
     \<and> (if D \<le> t_wake r
        then due_at h (next_timeout h T (while_running r h)) (t_wake r + next_timeout h T (while_running r h)) (snd (prdRun_round r p))
        else due_at h T D (snd (prdRun_round r p)))
     \<and> tLastCheck (snd (prdRun_round r p)) = t_wake r"
proof -
  from assms(1) obtain t where t: "here h (g_lPrdTaskHeader p) = [t]" "tTimeout t = T" "tLastCheck p + min (tRemain t) T = D"
    "here h (prd_local p) = []" "here h (g_lPrdTaskAdd p) = []" by (auto simp: due_at_def)
  define p1 where "p1 = snd (check_tasks (t_check r) p)"
  define p2 where "p2 = prd_ops (while_waiting r) p1"
  define p2' where "p2' = p2\<lparr>tLastCheck := t_wake r, prd_local := []\<rparr>"
  let ?u = "count_down (t_check r - tLastCheck p) t"
  have p1: "here h (g_lPrdTaskHeader p1) = [?u]" "here h (g_lPrdTaskAdd p1) = []" "tLastCheck p1 = t_check r"
    using t by (simp_all add: p1_def check_tasks_def Let_def here_count_down)
  have "same_task h p1 p2" unfolding p2_def using assms(2) by (intro prd_ops_same) (simp add: round_leaves_def)
  with p1 have p2: "here h (g_lPrdTaskHeader p2') = [?u]" "here h (g_lPrdTaskAdd p2') = []" "here h (prd_local p2') = []"
    "tLastCheck p2 = t_check r" "tLastCheck p2' = t_wake r"
    by (simp_all add: same_task_def p2'_def)
  let ?n = "t_wake r - t_check r"
  have sp: "\<forall>h'. h' \<noteq> h \<longrightarrow> (\<forall>a\<in>set (while_running r h'). spares h a)" "reschedules h (while_running r h)"
    using assms(2) by (simp_all add: round_leaves_def)
  have eq: "prdRun_round r p = (fst (run_tasks (while_running r) ?n p2'), (snd (run_tasks (while_running r) ?n p2'))
      \<lparr>g_lPrdTaskHeader := everywhere (snd (run_tasks (while_running r) ?n p2')), prd_local := [], g_lPrdTaskAdd := []\<rparr>)"
    unfolding prdRun_round_def case_prod_beta Let_def p1_def [symmetric] p2_def [symmetric] p2'_def [symmetric] p2(4) by simp
  have "tRemain (clamp ?u) \<le> ?n \<longleftrightarrow> D \<le> t_wake r" using t(2,3) assms(3,4) by auto
  moreover have "tLastCheck p \<le> t_wake r" using assms(3,4) by simp
  ultimately show ?thesis
    using run_tasks_present [OF sp p2(1,3,2), of ?n] t(2,3) assms(3,4) p2(5)
    unfolding eq by (auto simp: due_at_def due_arith)
qed

lemma round_due:
  assumes "due_at h T D p" and "round_spares h r" and "tLastCheck p \<le> t_check r" and "t_check r \<le> t_wake r"
  shows "count_list (fst (prdRun_round r p)) h = (if D \<le> t_wake r then 1 else 0)
     \<and> due_at h T (if D \<le> t_wake r then t_wake r + T else D) (snd (prdRun_round r p))
     \<and> tLastCheck (snd (prdRun_round r p)) = t_wake r"
  using round_retimed [OF assms(1) _ assms(3,4)] round_spares_leaves [OF assms(2)] by (simp split: if_splits)

subsection \<open>Every task runs in time\<close>

text \<open>
  Rounds that follow each other, none longer than G from one wake-up to the next, and the times at which a task due at D,
  every T ticks, may run: each time when it is due or less than G later, and then T ticks on; W is the last wake-up.
\<close>

fun rounds_ok :: "nat \<Rightarrow> nat \<Rightarrow> prd_round list \<Rightarrow> bool" where
  "rounds_ok G l [] = True"
| "rounds_ok G l (r # rs) = (l \<le> t_check r \<and> t_check r \<le> t_wake r \<and> t_wake r \<le> l + G \<and> rounds_ok G (t_wake r) rs)"

fun last_wake :: "nat \<Rightarrow> prd_round list \<Rightarrow> nat" where
  "last_wake l [] = l"
| "last_wake l (r # rs) = last_wake (t_wake r) rs"

fun paced :: "nat \<Rightarrow> nat \<Rightarrow> nat \<Rightarrow> nat list \<Rightarrow> nat \<Rightarrow> bool" where
  "paced T G D [] W = (W < D)"
| "paced T G D (a # as) W = (D \<le> a \<and> a < D + G \<and> paced T G (a + T) as W)"

definition run_times :: "nat \<Rightarrow> (nat \<times> nat) list \<Rightarrow> nat list" where
  "run_times h runs = map fst (filter (\<lambda>x. snd x = h) runs)"

lemma run_times_round: "run_times h (map (Pair w) hs @ runs) = replicate (count_list hs h) w @ run_times h runs"
  by (induction hs) (auto simp: run_times_def)

lemma prdRun_paced:
  assumes "due_at h T D p" and "tLastCheck p < D" and "0 < T" and "rounds_ok G (tLastCheck p) rs"
    and "\<forall>r\<in>set rs. round_spares h r"
  shows "paced T G D (run_times h (fst (prdRun rs p))) (last_wake (tLastCheck p) rs)"
  using assms
proof (induction rs arbitrary: p D)
  case Nil
  then show ?case by (simp add: run_times_def)
next
  case (Cons r rs)
  let ?q = "snd (prdRun_round r p)"
  have le: "tLastCheck p \<le> t_check r" "t_check r \<le> t_wake r" "t_wake r \<le> tLastCheck p + G" and sp: "round_spares h r"
    using Cons.prems by auto
  note rd = round_due [OF Cons.prems(1) sp le(1,2)]
  have e: "run_times h (fst (prdRun (r # rs) p))
      = replicate (count_list (fst (prdRun_round r p)) h) (t_wake r) @ run_times h (fst (prdRun rs ?q))"
    by (simp add: case_prod_beta run_times_round)
  have ok: "rounds_ok G (tLastCheck ?q) rs" using Cons.prems(4) rd by simp
  show ?case
  proof (cases "D \<le> t_wake r")
    case True
    have "paced T G (t_wake r + T) (run_times h (fst (prdRun rs ?q))) (last_wake (tLastCheck ?q) rs)"
      using Cons.IH [OF _ _ Cons.prems(3) ok] rd True Cons.prems(3,5) by simp
    then show ?thesis using e rd True le Cons.prems(2) by simp
  next
    case False
    have "paced T G D (run_times h (fst (prdRun rs ?q))) (last_wake (tLastCheck ?q) rs)"
      using Cons.IH [OF _ _ Cons.prems(3) ok] rd False Cons.prems(5) by simp
    then show ?thesis using e rd False by simp
  qed
qed

lemma fold_min_le:
  "foldl (\<lambda>m t. if m > tRemain t then tRemain t else m) a ts \<le> a
   \<and> (\<forall>t\<in>set ts. foldl (\<lambda>m t. if m > tRemain t then tRemain t else m) a ts \<le> tRemain t)"
proof (induction ts arbitrary: a)
  case (Cons t ts)
  show ?case using Cons [of "if a > tRemain t then tRemain t else a"] by auto
qed simp

lemma min_remain_le: "t \<in> set ts \<Longrightarrow> min_remain ts \<le> tRemain t" "min_remain ts \<le> 10000"
  using fold_min_le [of tick_max ts] by (auto simp: min_remain_def Let_def intro: order_trans)

lemma wait_in_time:
  assumes "due_at h T D p" and "tLastCheck p \<le> now"
  shows "fst (check_tasks now p) \<le> max now D"
proof -
  from assms(1) obtain t where t: "here h (g_lPrdTaskHeader p) = [t]" "tTimeout t = T" "tLastCheck p + min (tRemain t) T = D"
    by (auto simp: due_at_def)
  then have "t \<in> set (here h (g_lPrdTaskHeader p))" by simp
  then have "count_down (now - tLastCheck p) t \<in> set (map (count_down (now - tLastCheck p)) (g_lPrdTaskHeader p))" by simp
  from min_remain_le(1) [OF this] t(2,3) assms(2) show ?thesis by (simp add: check_tasks_def Let_def)
qed

text \<open>
  C21. Every task keeps its own time, whatever the others do. As long as nobody deletes or adds it again (and nobody adds any
  record that is already linked), a task with timeout T runs when it is due or less than one round later, never earlier, and is then
  due T ticks after that run; at the end it is not overdue. And the thread never asks to sleep longer than until the task is due.
\<close>

theorem tasks_run_in_time:
  assumes "due_at h T D p" and "tLastCheck p < D" and "0 < T" and "rounds_ok G (tLastCheck p) rs"
    and "\<forall>r\<in>set rs. round_spares h r" and "\<not> relinked (snd (prdRun rs p))"
  shows "paced T G D (run_times h (fst (prdRun rs p))) (last_wake (tLastCheck p) rs)
     \<and> (tLastCheck p \<le> now \<longrightarrow> fst (check_tasks now p) \<le> max now D)"
  using prdRun_paced [OF assms(1-5)] wait_in_time [OF assms(1)] by simp

definition two_tasks :: prd where
  "two_tasks = \<lparr>g_lPrdTaskHeader = [\<lparr>handle = 7, tTimeout = 200, tRemain = 200\<rparr>, \<lparr>handle = 8, tTimeout = 50, tRemain = tick_max\<rparr>],
     prd_local = [], g_lPrdTaskAdd = [], tLastCheck = 0, relinked = False\<rparr>"

theorem tasks_run_in_time_witness:
  "paced 50 40 50 (run_times 8 (fst (prdRun
      [\<lparr>t_check = 3, t_wake = 40, while_waiting = [AddTask 9 1], while_running = (\<lambda>_. [])\<rparr>,
       \<lparr>t_check = 45, t_wake = 53, while_waiting = [DelTask 7], while_running = (\<lambda>h. if h = 8 then [AddTask 10 5] else [])\<rparr>] two_tasks))) 53"
proof -
  let ?rs = "[\<lparr>t_check = 3, t_wake = 40, while_waiting = [AddTask 9 1], while_running = (\<lambda>_. [])\<rparr>,
      \<lparr>t_check = 45, t_wake = 53, while_waiting = [DelTask 7], while_running = (\<lambda>h. if h = 8 then [AddTask 10 5] else [])\<rparr>]"
  have "due_at 8 50 50 two_tasks" by (simp add: due_at_def two_tasks_def tick_max_def)
  moreover have "tLastCheck two_tasks = 0" by (simp add: two_tasks_def)
  moreover have "\<not> relinked (snd (prdRun ?rs two_tasks))"
    by (simp add: prdRun_round_def check_tasks_def run_tasks.simps two_tasks_def prd_ops_def prdAddTask_def prdDelTask_def start_task_def
        skip_task_def restart_task_def restart_def clamp_def count_down_def tick_max_def Let_def)
  ultimately show ?thesis
    using tasks_run_in_time [of 8 50 50 two_tasks 40 ?rs] by (simp add: round_spares_def)
qed

text \<open>Adding and deleting on the rings of \<open>list.h\<close>.\<close>

lemma add_is_attach:
  assumes "is_ring hp (q # ts)" and "n \<notin> set (q # ts)"
  shows "is_ring (listAttach n q (listInit n hp)) (q # ts @ [n])"
  using clist.attach_header_second [OF listInit_frame [OF assms] listInit_ring assms(2)] .

lemma del_is_detach:
  assumes "is_ring hp (q # us @ n # vs)"
  shows "is_ring (listDetach n hp) (q # us @ vs)"
  by (rule clist.detach_member(1) [OF assms])

end
