(* ===== verification/CameraThread.thy ===== *)
theory CameraThread
  imports CameraSettings
begin

unbundle bit_operations_syntax

section \<open>The camera thread and the video engine (Camera/CameraCtl.c, Camera/W99702Camera.c, VideoPhone)\<close>

text \<open>
  The settings of picture and sound reach the hardware by messages: the configuration interface sends one, the camera thread takes
  it from its queue and calls the video engine (VideoPhone/Src), whose own state is what the drivers are programmed with. What the
  thread believes the engine to be set to is kept in \<open>g_WebCamState\<close>, and a setting equal to that is not passed on. The audio codec's
  driver is a binary library (\<open>audio_lib\<close>); encoders are restarted and interrupts masked around the changes, which is not modelled.
\<close>

subsection \<open>The engine\<close>

record engine =
  sPlanarSize :: "u16 \<times> u16"
  capture_rotate :: u32
  enable_mp4 :: bool
  enable_audio :: bool
  bIsEnableJPEG :: bool
  eEncFormat :: u32
  eEncodeFormat :: u32
  uEncFrameRateStatic :: u32
  uEncBitRate :: u32
  nJPEGQua :: u32
  nContrast :: int
  nBrightness :: int
  bPlayEnabled :: bool
  bRecordEnabled :: bool
  play_volume :: "int \<times> int"
  record_volume :: "int \<times> int"
  bDrawTitle :: bool
  info_content :: "(string \<times> int \<times> int \<times> bool) list"

record audio_lib =
  audioSetPlayVolume :: "int \<Rightarrow> int \<Rightarrow> int"
  audioSetRecordVolume :: "int \<Rightarrow> int \<Rightarrow> int"

definition CMD_ROTATE_NORMAL :: u32 where "CMD_ROTATE_NORMAL = 0"
definition CMD_ROTATE_MIRROR :: u32 where "CMD_ROTATE_MIRROR = 3"
definition CMD_ROTATE_FLIP :: u32 where "CMD_ROTATE_FLIP = 4"
definition CMD_ROTATE_R180 :: u32 where "CMD_ROTATE_R180 = 5"
definition CMD_VIDEO_H263 :: u32 where "CMD_VIDEO_H263 = 0"

definition MAX_MP4_WIDTHxHEIGHT :: nat where "MAX_MP4_WIDTHxHEIGHT = 640 * 480"

definition vcptSetWindow :: "u16 \<Rightarrow> u16 \<Rightarrow> u32 \<Rightarrow> engine \<Rightarrow> bool \<times> engine" where
  "vcptSetWindow usWidth usHeight rot e =
     (if unat usWidth * unat usHeight > MAX_MP4_WIDTHxHEIGHT \<or> usWidth = 0 \<or> usHeight = 0 then (False, e)
      else (True, e\<lparr>sPlanarSize := (usWidth, usHeight), capture_rotate := rot\<rparr>))"

definition wb702SetLocalVideoSource :: "u16 \<Rightarrow> u16 \<Rightarrow> u32 \<Rightarrow> engine \<Rightarrow> int \<times> engine" where
  "wb702SetLocalVideoSource w h rot e = (case vcptSetWindow w h rot e of (fits, e1) \<Rightarrow> (if fits then 0 else - 1, e1))"

definition vmp4encSetQuality :: "u32 \<Rightarrow> u32 \<Rightarrow> engine \<Rightarrow> int \<times> engine" where
  "vmp4encSetQuality uFrameRate uBitRate e =
     (if uFrameRate = 0 \<or> uFrameRate \<ge> 100 then (- 1, e)
      else (0, e\<lparr>uEncFrameRateStatic := uFrameRate, uEncBitRate := uBitRate\<rparr>))"

definition wb702SetVideoBitRate :: "u32 \<Rightarrow> engine \<Rightarrow> int \<times> engine" where
  "wb702SetVideoBitRate bitrate e =
     (case vmp4encSetQuality (uEncFrameRateStatic e) bitrate e of (ret, e1) \<Rightarrow> (if ret = 0 then 0 else - 1, e1))"

definition wb702SetVideoFramerate :: "u32 \<Rightarrow> engine \<Rightarrow> int \<times> engine" where
  "wb702SetVideoFramerate framerate e =
     (case vmp4encSetQuality framerate (uEncBitRate e) e of (ret, e1) \<Rightarrow> (if ret = 0 then 1 else 0, e1))"

definition wb702SetJPEGQuality :: "u32 \<Rightarrow> engine \<Rightarrow> engine" where
  "wb702SetJPEGQuality quality e = e\<lparr>nJPEGQua := (let var = (if sint quality > 2 then 1 else quality) in 3 - var)\<rparr>"

definition clamp_volume :: "int \<Rightarrow> int" where
  "clamp_volume v = (if v < 0 then 0 else if v > 31 then 31 else v)"

definition vauSetPlayVolume :: "audio_lib \<Rightarrow> int \<Rightarrow> int \<Rightarrow> engine \<Rightarrow> int \<times> engine" where
  "vauSetPlayVolume A l r e =
     (let l' = clamp_volume l; r' = clamp_volume r
      in if bPlayEnabled e then (audioSetPlayVolume A l' r', e\<lparr>play_volume := (l', r')\<rparr>) else (- 1, e))"

definition vauSetRecordVolume :: "audio_lib \<Rightarrow> int \<Rightarrow> int \<Rightarrow> engine \<Rightarrow> int \<times> engine" where
  "vauSetRecordVolume A l r e =
     (let l' = clamp_volume l; r' = clamp_volume r
      in if bRecordEnabled e then (audioSetRecordVolume A l' r', e\<lparr>record_volume := (l', r')\<rparr>) else (- 1, e))"

text \<open>\<open>wb702_ioctl\<close> turns every answer but -1 into \<open>true\<close>, which is 1.\<close>

definition wb702SetAudioPlayVolume :: "audio_lib \<Rightarrow> int \<Rightarrow> int \<Rightarrow> engine \<Rightarrow> int \<times> engine" where
  "wb702SetAudioPlayVolume A l r e = (case vauSetPlayVolume A l r e of (ret, e1) \<Rightarrow> (if ret \<noteq> - 1 then 1 else - 1, e1))"

definition wb702SetAudioRecordVolume :: "audio_lib \<Rightarrow> int \<Rightarrow> int \<Rightarrow> engine \<Rightarrow> int \<times> engine" where
  "wb702SetAudioRecordVolume A l r e = (case vauSetRecordVolume A l r e of (ret, e1) \<Rightarrow> (if ret \<noteq> - 1 then 1 else - 1, e1))"

definition vcptSetContrastBright :: "int \<Rightarrow> int \<Rightarrow> engine \<Rightarrow> engine" where
  "vcptSetContrastBright c b e =
     (let b' = (if b < 0 then 0 else if b > 6 then 6 else b) in e\<lparr>nContrast := c, nBrightness := b'\<rparr>)"

definition wb702SetVideoContrastBright :: "int \<Rightarrow> int \<Rightarrow> engine \<Rightarrow> int \<times> engine" where
  "wb702SetVideoContrastBright c b e = (1, vcptSetContrastBright c b e)"

definition wb702EnableMP4Encoder :: "bool \<Rightarrow> engine \<Rightarrow> engine" where
  "wb702EnableMP4Encoder b e = e\<lparr>enable_mp4 := b\<rparr>"

definition wb702SetJPEG :: "bool \<Rightarrow> engine \<Rightarrow> engine" where
  "wb702SetJPEG b e = e\<lparr>bIsEnableJPEG := b\<rparr>"

text \<open>A line of text drawn into the picture; near the border it is moved inwards.\<close>

definition from_border :: "int \<Rightarrow> int" where
  "from_border x = (if 0 \<le> x \<and> x < 2 then 2 else if x < 0 \<and> x > - 2 then - 2 else x)"

definition vinfoSetContent :: "nat \<Rightarrow> string \<Rightarrow> int \<Rightarrow> int \<Rightarrow> engine \<Rightarrow> engine" where
  "vinfoSetContent i pcContent x y e =
     (if i \<ge> 3 then e
      else case info_content e ! i of (old, ox, oy, _) \<Rightarrow>
        if pcContent = [] then e\<lparr>info_content := (info_content e)[i := (old, ox, oy, False)]\<rparr>
        else e\<lparr>info_content := (info_content e)[i := (take 127 pcContent, from_border x, from_border y, True)]\<rparr>)"

definition engine_ready :: "engine \<Rightarrow> bool" where
  "engine_ready e = (length (info_content e) = 3 \<and> 0 < uEncFrameRateStatic e \<and> uEncFrameRateStatic e < 100)"

subsection \<open>The state of the camera\<close>

text \<open>\<open>g_WebCamState\<close>, without the picture buffers.\<close>

record webcam =
  ucCamera :: u8
  ucModem :: u8
  ucPPPoE :: u8
  ucX_Direction :: u8
  ucY_Direction :: u8
  eRotate :: u32
  ucBright :: u8
  ucContrast :: u8
  ucResolution :: u8
  ucSaturation :: u8
  ucHue :: u8
  ucSharpness :: u8
  ucCompressionRatio :: u8
  ucFramerate :: u8
  ucSpeakerVolume :: u8
  ucMicVolume :: u8
  ucFtp :: u8
  ucEmail :: u8
  ucPrivilege :: u8
  st_ucUserCheck :: u8
  st_ucMotionDetectWay :: u8
  usFocus :: u16
  uiPicIndex :: u32
  uiPicMotionDetectedIndex :: u32
  uiPicSize :: u32
  st_rMoniteRect :: rect
  iDDNSState :: u32
  iMP4HeaderLen :: int
  bAsfMP4Header :: bool
  bShowTime :: bool
  WiFiStrength :: u8
  BatteryLevel :: u8

definition CAMERA_OFF :: u8 where "CAMERA_OFF = 0"
definition CAMERA_ON :: u8 where "CAMERA_ON = 1"
definition INVALID_PICTURE :: u32 where "INVALID_PICTURE = 999999"

text \<open>The state after \<open>memset\<close> and what \<open>ResetCameraParam\<close> sets.\<close>

definition zero_webcam :: webcam where
  "zero_webcam = \<lparr>ucCamera = 0, ucModem = 0, ucPPPoE = 0, ucX_Direction = 0, ucY_Direction = 0, eRotate = 0, ucBright = 0,
     ucContrast = 0, ucResolution = 0, ucSaturation = 0, ucHue = 0, ucSharpness = 0, ucCompressionRatio = 0, ucFramerate = 0,
     ucSpeakerVolume = 0, ucMicVolume = 0, ucFtp = 0, ucEmail = 0, ucPrivilege = 0, st_ucUserCheck = 0, st_ucMotionDetectWay = 0,
     usFocus = 0, uiPicIndex = 0, uiPicMotionDetectedIndex = 0, uiPicSize = 0,
     st_rMoniteRect = \<lparr>iLeft = 0, iTop = 0, iRight = 0, iBottom = 0\<rparr>, iDDNSState = 0, iMP4HeaderLen = 0,
     bAsfMP4Header = False, bShowTime = False, WiFiStrength = 0, BatteryLevel = 0\<rparr>"

definition reset_webcam :: "config \<Rightarrow> bool \<Rightarrow> webcam" where
  "reset_webcam c check = zero_webcam\<lparr>uiPicIndex := INVALID_PICTURE, ucCamera := CAMERA_OFF,
     uiPicMotionDetectedIndex := INVALID_PICTURE, ucFtp := (if bFtpEnable (cfg_ftp c) then 1 else 0),
     ucEmail := (if bMailEnable (cfg_mail c) then 1 else 0), st_ucUserCheck := (if check then 1 else 0)\<rparr>"

subsection \<open>Applying a setting (W99702Camera.c)\<close>

definition W99702_GetImageResolution :: "webcam \<Rightarrow> (int \<times> int) option" where
  "W99702_GetImageResolution w =
     (if ucResolution w = 0 then Some (176, 144) else if ucResolution w = 1 then Some (320, 240)
      else if ucResolution w = 2 then Some (352, 288) else if ucResolution w = 3 then Some (640, 480) else None)"

definition aaBitrateTable :: "u32 list list" where
  "aaBitrateTable = [[64 * 1024, 128 * 1024, 192 * 1024], [256 * 1024, 512 * 1024, 768 * 1024],
     [256 * 1024, 512 * 1024, 768 * 1024], [512 * 1024, 1024 * 1024, 2304 * 1024]]"

definition bitrate_row :: "int \<Rightarrow> nat" where
  "bitrate_row iResX = (if iResX \<le> 176 then 0 else if iResX \<le> 320 then 1 else if iResX \<le> 352 then 2 else 3)"

definition set_image_quality :: "int \<Rightarrow> int \<Rightarrow> engine \<Rightarrow> (bool \<times> engine) checked" where
  "set_image_quality iQuality iResX e =
     (if iQuality \<ge> 3 then Inr (False, e)
      else let e1 = wb702SetJPEGQuality (word_of_int iQuality) e
           in if iQuality < 0 then Inl OutOfBounds
              else Inr (True, snd (wb702SetVideoBitRate (aaBitrateTable ! bitrate_row iResX ! nat iQuality) e1)))"

definition W99702_SetImageQuality :: "int \<Rightarrow> webcam \<Rightarrow> engine \<Rightarrow> (bool \<times> engine) checked" where
  "W99702_SetImageQuality iQuality w e =
     (if iQuality \<noteq> uint (ucCompressionRatio w)
      then case W99702_GetImageResolution w of
             None \<Rightarrow> Inl Uninitialised
           | Some (iResX, iResY) \<Rightarrow> set_image_quality iQuality iResX e
      else Inr (True, e))"

definition W99702_SetImageResolution :: "int \<Rightarrow> int \<Rightarrow> webcam \<Rightarrow> engine \<Rightarrow> (bool \<times> engine) checked" where
  "W99702_SetImageResolution iResX iResY w e =
     (case W99702_GetImageResolution w of
        None \<Rightarrow> Inl Uninitialised
      | Some old \<Rightarrow>
          if (iResX, iResY) \<noteq> old
          then let e1 = wb702EnableMP4Encoder False (wb702SetJPEG False e);
                   e2 = snd (wb702SetLocalVideoSource (word_of_int iResX) (word_of_int iResY) CMD_ROTATE_NORMAL e1)
               in bnd (set_image_quality (uint (ucCompressionRatio w)) iResX e2) (\<lambda>(bRt, e3).
                    Inr (bRt, wb702SetJPEG True (wb702EnableMP4Encoder True e3)))
          else Inr (False, e))"

definition W99702_SetFramerate :: "int \<Rightarrow> webcam \<Rightarrow> engine \<Rightarrow> bool \<times> engine" where
  "W99702_SetFramerate iFramerate w e =
     (if iFramerate \<noteq> uint (ucFramerate w)
      then if iFramerate > 0
           then (case wb702SetVideoFramerate (word_of_int iFramerate) e of (ret, e1) \<Rightarrow> (ret \<noteq> 0, e1))
           else (False, e)
      else (True, e))"

text \<open>The callers of the next three compare the answer with \<open>TRUE\<close>.\<close>

definition W99702_SetImageBrightness :: "int \<Rightarrow> webcam \<Rightarrow> engine \<Rightarrow> bool \<times> engine" where
  "W99702_SetImageBrightness iBright w e =
     (if iBright \<noteq> uint (ucBright w)
      then (case wb702SetVideoContrastBright 0 iBright e of (ret, e1) \<Rightarrow> (ret = 1, e1)) else (True, e))"

definition W99702_SetSpeakerVolume :: "audio_lib \<Rightarrow> int \<Rightarrow> webcam \<Rightarrow> engine \<Rightarrow> bool \<times> engine" where
  "W99702_SetSpeakerVolume A iVolume w e =
     (if iVolume \<noteq> uint (ucSpeakerVolume w)
      then (case wb702SetAudioPlayVolume A iVolume iVolume e of (ret, e1) \<Rightarrow> (ret = 1, e1)) else (True, e))"

definition W99702_SetMicVolume :: "audio_lib \<Rightarrow> int \<Rightarrow> webcam \<Rightarrow> engine \<Rightarrow> bool \<times> engine" where
  "W99702_SetMicVolume A iVolume w e =
     (if iVolume \<noteq> uint (ucMicVolume w)
      then (case wb702SetAudioRecordVolume A iVolume iVolume e of (ret, e1) \<Rightarrow> (ret = 1, e1)) else (True, e))"

subsection \<open>Messages (CameraThread)\<close>

definition MSG_CUSTOM_PROC :: int where "MSG_CUSTOM_PROC = 0"
definition MSG_CAMERA_MONITOR_RECT :: int where "MSG_CAMERA_MONITOR_RECT = 5"
definition MSG_QUIT :: int where "MSG_QUIT = 6"
definition MSG_CAMERA_DIRECTION :: int where "MSG_CAMERA_DIRECTION = 21"
definition MSG_SET_LOGO :: int where "MSG_SET_LOGO = 24"

lemmas msg_defs = MSG_CUSTOM_PROC_def MSG_CAMERA_MONITOR_RECT_def MSG_QUIT_def MSG_CAMERA_DIRECTION_def MSG_SET_LOGO_def
  MSG_CAMERA_RES_def MSG_CAMERA_QUALITY_def MSG_CAMERA_BRIGHTNESS_def MSG_CAMERA_MOTION_def MSG_CAMERA_FRAMERATE_def
  MSG_SPEAKER_VOLUME_def MSG_MIC_VOLUME_def

definition on_direction :: "u32 \<Rightarrow> webcam \<Rightarrow> engine \<Rightarrow> (webcam \<times> engine) checked" where
  "on_direction lData w e =
     (if lData \<ge> 4 then Inr (w, e)
      else case W99702_GetImageResolution w of
        None \<Rightarrow> Inl Uninitialised
      | Some (iResX, iResY) \<Rightarrow>
          let rot = [CMD_ROTATE_NORMAL, CMD_ROTATE_FLIP, CMD_ROTATE_MIRROR, CMD_ROTATE_R180] ! unat lData;
              e1 = snd (wb702SetLocalVideoSource (word_of_int iResX) (word_of_int iResY) rot e)
          in Inr (w\<lparr>eRotate := rot, ucX_Direction := ucast (drop_bit 1 (lData AND 2)), ucY_Direction := ucast (lData AND 1)\<rparr>, e1))"

definition on_resolution :: "u32 \<Rightarrow> u32 \<Rightarrow> webcam \<Rightarrow> engine \<Rightarrow> (webcam \<times> engine) checked" where
  "on_resolution eVideo lData w e =
     (let lData' = (if (lData = 1 \<or> lData = 3) \<and> eVideo = CMD_VIDEO_H263 then 2 else lData);
          set = (\<lambda>x y. bnd (W99702_SetImageResolution x y w e) (\<lambda>(bRt, e1).
                  Inr (if bRt then w\<lparr>ucResolution := ucast lData'\<rparr> else w, e1)))
      in if lData' = 0 then set 176 144 else if lData' = 1 then set 320 240
         else if lData' = 2 then set 352 288 else if lData' = 3 then set 640 480 else Inr (w, e))"

definition draw_logo :: "nat \<Rightarrow> time_cfg \<Rightarrow> engine \<Rightarrow> engine" where
  "draw_logo i t e =
     (let p = ShowPos t ! i; txt = ShowString t ! i
      in if p = 0 then vinfoSetContent i txt 0 0 e else if p = 1 then vinfoSetContent i txt (- 1) 0 e
         else if p = 2 then vinfoSetContent i txt 0 (- 1) e else if p = 3 then vinfoSetContent i txt (- 1) (- 1) e else e)"

definition on_message :: "audio_lib \<Rightarrow> config \<Rightarrow> int \<times> u32 \<Rightarrow> webcam \<times> engine \<Rightarrow> (webcam \<times> engine) checked" where
  "on_message A c = (\<lambda>(lMsg, lData) (w, e).
     if lMsg = MSG_CAMERA_DIRECTION then on_direction lData w e
     else if lMsg = MSG_CAMERA_RES then on_resolution (eVideoFormat (cfg_cam c)) lData w e
     else if lMsg = MSG_CAMERA_QUALITY
       then bnd (W99702_SetImageQuality (sint lData) w e) (\<lambda>(bRt, e1).
              Inr (if bRt then w\<lparr>ucCompressionRatio := ucast lData\<rparr> else w, e1))
     else if lMsg = MSG_CAMERA_FRAMERATE
       then case W99702_SetFramerate (sint lData) w e of (bRt, e1) \<Rightarrow> Inr (if bRt then w\<lparr>ucFramerate := ucast lData\<rparr> else w, e1)
     else if lMsg = MSG_CAMERA_BRIGHTNESS
       then case W99702_SetImageBrightness (sint lData) w e of (bRt, e1) \<Rightarrow> Inr (if bRt then w\<lparr>ucBright := ucast lData\<rparr> else w, e1)
     else if lMsg = MSG_SPEAKER_VOLUME
       then case W99702_SetSpeakerVolume A (sint lData) w e of (bRt, e1) \<Rightarrow> Inr (if bRt then w\<lparr>ucSpeakerVolume := ucast lData\<rparr> else w, e1)
     else if lMsg = MSG_MIC_VOLUME
       then case W99702_SetMicVolume A (sint lData) w e of (bRt, e1) \<Rightarrow> Inr (if bRt then w\<lparr>ucMicVolume := ucast lData\<rparr> else w, e1)
     else if lMsg = MSG_SET_LOGO
       then Inr (w, draw_logo 1 (cfg_time c) (draw_logo 0 (cfg_time c) (e\<lparr>bDrawTitle := False\<rparr>)))
     else Inr (w, e))"

fun on_messages :: "audio_lib \<Rightarrow> config \<Rightarrow> (int \<times> u32) list \<Rightarrow> webcam \<times> engine \<Rightarrow> (webcam \<times> engine) checked" where
  "on_messages A c [] we = Inr we"
| "on_messages A c (m # ms) we = bnd (on_message A c m we) (on_messages A c ms)"

definition SetCameraInitState :: "config \<Rightarrow> (int \<times> u32) list" where
  "SetCameraInitState c =
     (let p = cfg_cam c
      in [(MSG_CAMERA_RES, ulImgResolution p), (MSG_CAMERA_QUALITY, ulImgQuality p), (MSG_CAMERA_MOTION, 0),
          (MSG_CAMERA_FRAMERATE, ulImgFramerate p), (MSG_CAMERA_BRIGHTNESS, ulImgBrightness p),
          (MSG_SPEAKER_VOLUME, ulSpeakerVolume p), (MSG_MIC_VOLUME, ulMicVolume p), (MSG_SET_LOGO, ShowTime (cfg_time c))])"

definition W99702_InitParam :: "config \<Rightarrow> engine \<Rightarrow> engine" where
  "W99702_InitParam c e =
     (let e1 = snd (wb702SetVideoBitRate (32 * 1024) e);
          e2 = snd (wb702SetLocalVideoSource 176 144 CMD_ROTATE_NORMAL e1);
          e3 = e2\<lparr>eEncFormat := (if eVideoFormat (cfg_cam c) = CMD_VIDEO_MP4 then CMD_VIDEO_MP4 else CMD_VIDEO_H263),
                  eEncodeFormat := eAudioFormat (cfg_cam c)\<rparr>
      in wb702SetJPEG True ((wb702EnableMP4Encoder True e3)\<lparr>enable_audio := True\<rparr>))"

definition W99702_OpenCamera :: "config \<Rightarrow> webcam \<times> engine \<Rightarrow> webcam \<times> engine" where
  "W99702_OpenCamera c = (\<lambda>(w, e). (w\<lparr>iMP4HeaderLen := 0, bAsfMP4Header := False\<rparr>, W99702_InitParam c e))"

text \<open>
  The two loops of the thread, one round at a time; a round of the inner loop without a message fetches a picture (Pictures).
\<close>

datatype camera_phase = Outer | Inner | Ended

record camera_thread =
  ct_phase :: camera_phase
  ct_state :: "webcam \<times> engine"
  ct_queue :: "(int \<times> u32) list"

definition camera_round :: "audio_lib \<Rightarrow> config \<Rightarrow> camera_thread \<Rightarrow> camera_thread checked" where
  "camera_round A c T =
     (case (ct_phase T, ct_queue T) of
        (Outer, []) \<Rightarrow> let (w, e) = W99702_OpenCamera c (ct_state T)
                       in Inr (T\<lparr>ct_phase := Inner, ct_state := (w\<lparr>ucCamera := CAMERA_ON\<rparr>, e), ct_queue := SetCameraInitState c\<rparr>)
      | (Outer, m # q) \<Rightarrow> Inr (if fst m = MSG_QUIT then T\<lparr>ct_phase := Ended, ct_queue := q\<rparr> else T\<lparr>ct_queue := q\<rparr>)
      | (Inner, []) \<Rightarrow> Inr T
      | (Inner, m # q) \<Rightarrow>
          if fst m = MSG_QUIT
          then Inr (T\<lparr>ct_phase := Ended, ct_state := ((fst (ct_state T))\<lparr>ucCamera := CAMERA_OFF\<rparr>, snd (ct_state T)), ct_queue := q\<rparr>)
          else bnd (on_message A c m (ct_state T)) (\<lambda>we. Inr (T\<lparr>ct_state := we, ct_queue := q\<rparr>))
      | (Ended, _) \<Rightarrow> Inr T)"

subsection \<open>What is shown is what is set\<close>

fun status_of :: "camera_setting \<Rightarrow> webcam \<Rightarrow> u8" where
  "status_of Resolution = ucResolution"
| "status_of Quality = ucCompressionRatio"
| "status_of Framerate = ucFramerate"
| "status_of Brightness = ucBright"
| "status_of SpeakerVolume = ucSpeakerVolume"
| "status_of MicVolume = ucMicVolume"

definition image_size :: "u32 \<Rightarrow> u16 \<times> u16" where
  "image_size v = (if v = 0 then (176, 144) else if v = 1 then (320, 240) else if v = 2 then (352, 288) else (640, 480))"

fun engine_has :: "camera_setting \<Rightarrow> u32 \<Rightarrow> engine \<Rightarrow> bool" where
  "engine_has Resolution v e = (sPlanarSize e = image_size v)"
| "engine_has Quality v e = (nJPEGQua e = 3 - v)"
| "engine_has Framerate v e = (uEncFrameRateStatic e = v)"
| "engine_has Brightness v e = (nBrightness e = uint v)"
| "engine_has SpeakerVolume v e = (play_volume e = (uint v, uint v))"
| "engine_has MicVolume v e = (record_volume e = (uint v, uint v))"

fun settable :: "camera_setting \<Rightarrow> u32 \<Rightarrow> bool" where
  "settable Resolution v = (v < 4)"
| "settable Quality v = (v < 3)"
| "settable Framerate v = (0 < v \<and> v < 100)"
| "settable Brightness v = (v \<le> 6)"
| "settable SpeakerVolume v = (v \<le> 31)"
| "settable MicVolume v = (v \<le> 31)"


text \<open>A setting of 0 that was never changed is not known to be in the engine, except for the size of the picture.\<close>

definition agrees :: "webcam \<Rightarrow> engine \<Rightarrow> bool" where
  "agrees w e = (ucResolution w < 4 \<and> ucCompressionRatio w < 3 \<and> engine_ready e \<and> bPlayEnabled e \<and> bRecordEnabled e
     \<and> engine_has Resolution (ucast (ucResolution w)) e
     \<and> (\<forall>k. status_of k w \<noteq> 0 \<longrightarrow> engine_has k (ucast (status_of k w)) e))"

lemma byte_value:
  assumes "v < (256 :: u32)"
  shows "sint v = uint v" and "uint (ucast v :: u8) = uint v" and "ucast (ucast v :: u8) = v" and "word_of_int (uint v) = v"
proof -
  have u: "uint v < 256" using assms by (simp add: word_less_def)
  then have "signed_take_bit 31 (uint v) = uint v"
    by (intro signed_take_bit_int_eq_self order_trans [OF _ uint_ge_0]) simp_all
  then show "sint v = uint v" by (simp add: sint_uint)
  show "uint (ucast v :: u8) = uint v" using u by (simp add: unsigned_ucast_eq take_bit_int_eq_self)
  show "ucast (ucast v :: u8) = v" using u by (simp add: word_uint_eq_iff unsigned_ucast_eq unsigned_take_bit_eq take_bit_int_eq_self)
qed simp


lemma byte_back [simp]: "ucast (ucast (b :: u8) :: u32) = b"
proof -
  have "uint b < 256" using uint_bounded [of b] by simp
  then show ?thesis using byte_value(2) [of "ucast b"] take_bit_int_eq_self [of "uint b" 32]
    by (simp add: word_uint_eq_iff unsigned_ucast_eq word_less_def)
qed

lemma settable_byte: "settable k v \<Longrightarrow> v < 256"
  by (cases k) (auto elim: order_less_trans order_le_less_trans)


lemmas engine_defs = wb702SetVideoBitRate_def wb702SetVideoFramerate_def vmp4encSetQuality_def wb702SetJPEGQuality_def
  wb702SetAudioPlayVolume_def wb702SetAudioRecordVolume_def vauSetPlayVolume_def vauSetRecordVolume_def
  wb702SetVideoContrastBright_def vcptSetContrastBright_def wb702EnableMP4Encoder_def wb702SetJPEG_def
  wb702SetLocalVideoSource_def vcptSetWindow_def MAX_MP4_WIDTHxHEIGHT_def

lemma agrees_has: "agrees w e \<Longrightarrow> status_of k w \<noteq> 0 \<Longrightarrow> engine_has k (ucast (status_of k w)) e"
  by (simp add: agrees_def)

lemma set_image_quality_run:
  assumes "v < 3" and "engine_ready e"
  shows "\<exists>b. set_image_quality (uint v) x e = Inr (True, e\<lparr>nJPEGQua := 3 - v, uEncBitRate := b\<rparr>)"
proof -
  have u: "uint v < 3" and b: "v < 256" using assms(1) by (auto simp: word_less_def)
  have "sint v = uint v" using byte_value(1) [OF b] .
  then show ?thesis using u assms(2)
    by (auto simp: set_image_quality_def engine_defs engine_ready_def Let_def not_le [symmetric])
qed


lemma resolution_cases:
  fixes r :: u8
  assumes "r < 4"
  obtains "r = 0" | "r = 1" | "r = 2" | "r = 3"
proof -
  have "uint r < 4" using assms by (simp add: word_less_def)
  then have "uint r = 0 \<or> uint r = 1 \<or> uint r = 2 \<or> uint r = 3" using uint_ge_0 [of r] by linarith
  then show thesis using that by (auto simp: word_uint_eq_iff)
qed

lemma shown_resolution:
  assumes "ucResolution w < 4"
  shows "\<exists>x y. W99702_GetImageResolution w = Some (x, y) \<and> image_size (ucast (ucResolution w)) = (word_of_int x, word_of_int y)"
  using assms by (rule resolution_cases) (simp_all add: W99702_GetImageResolution_def image_size_def)

text \<open>The other settings stay as they are, or (the quality, when the size of the picture changes) are set to what is known of them.\<close>

definition fields_but :: "camera_setting \<Rightarrow> webcam \<Rightarrow> engine \<Rightarrow> webcam \<Rightarrow> engine \<Rightarrow> bool" where
  "fields_but k w e w' e' = (\<forall>j. j \<noteq> k \<longrightarrow> status_of j w' = status_of j w
     \<and> ((\<forall>x. engine_has j x e' = engine_has j x e) \<or> engine_has j (ucast (status_of j w)) e'))"

lemma fields_but_refl: "fields_but k w e w e"
  by (simp add: fields_but_def)

definition running :: "engine \<Rightarrow> bool" where
  "running e = (engine_ready e \<and> bPlayEnabled e \<and> bRecordEnabled e)"

lemma agrees_changed:
  assumes "agrees w e" and "settable k v" and "status_of k w' = ucast v" and "engine_has k v e'"
    and "fields_but k w e w' e'" and "running e'"
  shows "agrees w' e'"
proof -
  have v: "v < 256" using settable_byte [OF assms(2)] .
  have f: "status_of j w' = status_of j w" "engine_has j (ucast (status_of j w)) e \<Longrightarrow> engine_has j (ucast (status_of j w)) e'"
    if "j \<noteq> k" for j using assms(5) that by (auto simp: fields_but_def)
  have k: "engine_has k (ucast (status_of k w')) e'" using assms(3,4) byte_value(3) [OF v] by simp
  have other: "engine_has j (ucast (status_of j w')) e'" if "status_of j w' \<noteq> 0 \<or> j = Resolution" for j
  proof (cases "j = k")
    case False
    have "engine_has j (ucast (status_of j w)) e" using that f(1) [OF False] assms(1) by (cases "j = Resolution") (auto simp: agrees_def)
    then show ?thesis using f [OF False] by simp
  qed (use k in simp)
  have "ucResolution w' < 4"
    using assms(1,2,3) f(1) [of Resolution] byte_value(2) [OF v]
    by (cases "k = Resolution") (auto simp: agrees_def word_less_def)
  moreover have "ucCompressionRatio w' < 3"
    using assms(1,2,3) f(1) [of Quality] byte_value(2) [OF v]
    by (cases "k = Quality") (auto simp: agrees_def word_less_def)
  ultimately show ?thesis using other other [of Resolution] assms(6) by (simp add: agrees_def running_def)
qed

text \<open>A message with a settable value is carried out, or nothing is done because the value is taken for already set.\<close>

definition carries_out :: "audio_lib \<Rightarrow> config \<Rightarrow> camera_setting \<Rightarrow> u32 \<Rightarrow> webcam \<Rightarrow> engine \<Rightarrow> bool" where
  "carries_out A d k v w e = (\<exists>w' e'. on_message A d (setting_msg k, v) (w, e) = Inr (w', e') \<and> agrees w' e'
     \<and> status_of k w' = ucast v \<and> fields_but k w e w' e' \<and> (engine_has k v e' \<or> w' = w \<and> e' = e))"

lemma carries_out_same:
  "on_message A d (setting_msg k, v) (w, e) = Inr (w, e) \<Longrightarrow> agrees w e \<Longrightarrow> status_of k w = ucast v \<Longrightarrow> carries_out A d k v w e"
  by (auto simp: carries_out_def fields_but_refl)

lemma carries_out_new:
  assumes "on_message A d (setting_msg k, v) (w, e) = Inr (w', e')" and "agrees w e" and "settable k v" and "status_of k w' = ucast v"
    and "engine_has k v e'" and "fields_but k w e w' e'" and "running e'"
  shows "carries_out A d k v w e"
  using assms(1,4,5,6) agrees_changed [OF assms(2,3,4,5,6,7)] by (auto simp: carries_out_def)






lemma agrees_running: "agrees w e \<Longrightarrow> running e"
  by (simp add: agrees_def running_def)






definition size_of :: "u32 \<Rightarrow> int \<times> int" where
  "size_of v = (if v = 0 then (176, 144) else if v = 1 then (320, 240) else if v = 2 then (352, 288) else (640, 480))"

lemma source_set:
  "snd (wb702SetLocalVideoSource (word_of_int (fst (size_of v))) (word_of_int (snd (size_of v))) rot e)
     = e\<lparr>sPlanarSize := image_size v, capture_rotate := rot\<rparr>"
  by (simp add: size_of_def image_size_def engine_defs)

lemma set_resolution_run:
  assumes "agrees w e" and "W99702_GetImageResolution w \<noteq> Some (size_of v)"
  shows "\<exists>b. W99702_SetImageResolution (fst (size_of v)) (snd (size_of v)) w e =
    Inr (True, e\<lparr>sPlanarSize := image_size v, capture_rotate := CMD_ROTATE_NORMAL, enable_mp4 := True, bIsEnableJPEG := True,
      nJPEGQua := 3 - ucast (ucCompressionRatio w), uEncBitRate := b\<rparr>)"
proof -
  have a: "ucResolution w < 4" "ucCompressionRatio w < 3" "engine_ready e" using assms(1) by (simp_all add: agrees_def)
  obtain x y where x: "W99702_GetImageResolution w = Some (x, y)" using shown_resolution [OF a(1)] by blast
  have q: "ucast (ucCompressionRatio w) < (3 :: u32)" "uint (ucast (ucCompressionRatio w) :: u32) = uint (ucCompressionRatio w)"
    using a(2) take_bit_int_eq_self [of "uint (ucCompressionRatio w)" 32] by (simp_all add: word_less_def unsigned_ucast_eq)
  let ?e = "e\<lparr>enable_mp4 := False, bIsEnableJPEG := False, sPlanarSize := image_size v, capture_rotate := CMD_ROTATE_NORMAL\<rparr>"
  have "engine_ready ?e" using a(3) by (simp add: engine_ready_def)
  from set_image_quality_run [OF q(1) this, of "fst (size_of v)"] obtain b where
    b: "set_image_quality (uint (ucCompressionRatio w)) (fst (size_of v)) ?e =
        Inr (True, ?e\<lparr>nJPEGQua := 3 - ucast (ucCompressionRatio w), uEncBitRate := b\<rparr>)" unfolding q(2) by blast
  have "(x, y) \<noteq> size_of v" using assms(2) x by auto
  then have ne: "(fst (size_of v), snd (size_of v)) \<noteq> (x, y)" by (metis prod.collapse)
  have e: "snd (wb702SetLocalVideoSource (word_of_int (fst (size_of v))) (word_of_int (snd (size_of v))) CMD_ROTATE_NORMAL
       (wb702EnableMP4Encoder False (wb702SetJPEG False e))) = ?e"
    unfolding source_set by (simp add: wb702EnableMP4Encoder_def wb702SetJPEG_def)
  have "W99702_SetImageResolution (fst (size_of v)) (snd (size_of v)) w e =
      Inr (True, wb702SetJPEG True (wb702EnableMP4Encoder True (?e\<lparr>nJPEGQua := 3 - ucast (ucCompressionRatio w), uEncBitRate := b\<rparr>)))"
    unfolding W99702_SetImageResolution_def x using ne by (simp add: e b Let_def)
  also have "wb702SetJPEG True (wb702EnableMP4Encoder True (?e\<lparr>nJPEGQua := 3 - ucast (ucCompressionRatio w), uEncBitRate := b\<rparr>)) =
      e\<lparr>sPlanarSize := image_size v, capture_rotate := CMD_ROTATE_NORMAL, enable_mp4 := True, bIsEnableJPEG := True,
        nJPEGQua := 3 - ucast (ucCompressionRatio w), uEncBitRate := b\<rparr>"
    by (cases e) (simp add: wb702EnableMP4Encoder_def wb702SetJPEG_def)
  finally show ?thesis by blast
qed

lemma shown_size: "ucResolution w < 4 \<Longrightarrow> W99702_GetImageResolution w = Some (size_of (ucast (ucResolution w)))"
  by (erule resolution_cases) (simp_all add: W99702_GetImageResolution_def size_of_def)

lemma size_of_inj: "size_of u = size_of v \<Longrightarrow> u < 4 \<Longrightarrow> v < 4 \<Longrightarrow> u = v"
proof -
  assume a: "size_of u = size_of v" "u < 4" "v < 4"
  have "z = 3" if "z < 4" "z \<noteq> 0" "z \<noteq> 1" "z \<noteq> 2" for z :: u32
  proof -
    have "uint z < 4" "uint z \<noteq> 0" "uint z \<noteq> 1" "uint z \<noteq> 2" using that by (simp_all add: word_less_def word_uint_eq_iff)
    then have "uint z = 3" using uint_ge_0 [of z] by linarith
    then show ?thesis by (simp add: word_uint_eq_iff)
  qed
  then show "u = v" using a by (auto simp: size_of_def split: if_splits)
qed

text \<open>The sizes a setting stands for: H.263 has no 320x240 and no 640x480, and the thread takes 352x288 for both.\<close>

definition shown_value :: "config \<Rightarrow> camera_setting \<Rightarrow> u32 \<Rightarrow> u32" where
  "shown_value d k v = (if k = Resolution \<and> (v = 1 \<or> v = 3) \<and> eVideoFormat (cfg_cam d) = CMD_VIDEO_H263 then 2 else v)"

lemma shown_value_twice [simp]: "shown_value d k (shown_value d k v) = shown_value d k v"
  by (auto simp: shown_value_def)

lemma shown_value_other [simp]: "k \<noteq> Resolution \<Longrightarrow> shown_value d k v = v"
  by (simp add: shown_value_def)



lemma on_resolution_message:
  assumes "v < 4" and "shown_value d Resolution v = v"
  shows "on_message A d (MSG_CAMERA_RES, v) (w, e) =
    bnd (W99702_SetImageResolution (fst (size_of v)) (snd (size_of v)) w e) (\<lambda>(bRt, e1).
      Inr (if bRt then w\<lparr>ucResolution := ucast v\<rparr> else w, e1))"
proof -
  have "uint v < 4" using assms(1) by (simp add: word_less_def)
  then have "uint v = 0 \<or> uint v = 1 \<or> uint v = 2 \<or> uint v = 3" using uint_ge_0 [of v] by linarith
  then have "v = 0 \<or> v = 1 \<or> v = 2 \<or> v = 3" by (auto simp: word_uint_eq_iff)
  then show ?thesis using assms(2)
    by (elim disjE; hypsubst; simp add: on_message_def msg_defs on_resolution_def size_of_def shown_value_def Let_def split: if_splits)
qed


lemma on_resolution:
  assumes "settable Resolution v" and "agrees w e" and "shown_value d Resolution v = v"
  shows "carries_out A d Resolution v w e"
proof -
  have v: "v < 4" "v < 256" using assms(1) settable_byte [OF assms(1)] by simp_all
  have a: "ucResolution w < 4" "running e" using assms(2) agrees_running [OF assms(2)] by (simp_all add: agrees_def)
  have old: "ucast (ucResolution w) < (4 :: u32)"
    using a(1) take_bit_int_eq_self [of "uint (ucResolution w)" 32] by (simp add: word_less_def unsigned_ucast_eq)
  have m: "on_message A d (setting_msg Resolution, v) (w, e) = bnd (W99702_SetImageResolution (fst (size_of v)) (snd (size_of v)) w e)
      (\<lambda>(bRt, e1). Inr (if bRt then w\<lparr>ucResolution := ucast v\<rparr> else w, e1))"
    using on_resolution_message [OF v(1) assms(3)] by simp
  show ?thesis
  proof (cases "W99702_GetImageResolution w = Some (size_of v)")
    case True
    then have "ucast (ucResolution w) = v" using shown_size [OF a(1)] size_of_inj [OF _ old v(1)] by simp
    then have "uint v = uint (ucResolution w)"
      using a(1) take_bit_int_eq_self [of "uint (ucResolution w)" 32] by (auto simp: word_less_def unsigned_ucast_eq)
    then have st: "ucResolution w = ucast v" using byte_value(2) [OF v(2)] by (simp add: word_uint_eq_iff)
    have "on_message A d (setting_msg Resolution, v) (w, e) = Inr (w, e)"
      unfolding m W99702_SetImageResolution_def True by simp
    then show ?thesis by (rule carries_out_same [OF _ assms(2)]) (simp add: st)
  next
    case False
    from set_resolution_run [OF assms(2) False] obtain b where
      b: "W99702_SetImageResolution (fst (size_of v)) (snd (size_of v)) w e =
        Inr (True, e\<lparr>sPlanarSize := image_size v, capture_rotate := CMD_ROTATE_NORMAL, enable_mp4 := True, bIsEnableJPEG := True,
          nJPEGQua := 3 - ucast (ucCompressionRatio w), uEncBitRate := b\<rparr>)" (is "_ = Inr (True, ?e)") by blast
    show ?thesis
    proof (rule carries_out_new [OF _ assms(2,1)])
      show "on_message A d (setting_msg Resolution, v) (w, e) = Inr (w\<lparr>ucResolution := ucast v\<rparr>, ?e)" unfolding m b by simp
      show "fields_but Resolution w e (w\<lparr>ucResolution := ucast v\<rparr>) ?e"
        unfolding fields_but_def
      proof (intro allI impI conjI)
        fix j assume "j \<noteq> Resolution"
        then show "status_of j (w\<lparr>ucResolution := ucast v\<rparr>) = status_of j w" by (cases j) simp_all
        show "(\<forall>x. engine_has j x ?e = engine_has j x e) \<or> engine_has j (ucast (status_of j w)) ?e"
          using \<open>j \<noteq> Resolution\<close> by (cases j) simp_all
      qed
      show "running ?e" using a(2) by (simp add: running_def engine_ready_def)
    qed simp_all
  qed
qed




lemma on_messages_append: "on_messages A d (xs @ ys) we = bnd (on_messages A d xs we) (on_messages A d ys)"
  by (induction xs arbitrary: we) (auto simp: bnd_def split: sum.splits)


definition touched :: "(camera_setting \<times> u32) list \<Rightarrow> camera_setting set" where
  "touched cs = {k. \<exists>v. (k, v) \<in> set cs \<and> v \<noteq> 0}"

lemma touched_simps [simp]: "touched [] = {}" "touched (xs @ ys) = touched xs \<union> touched ys"
  "touched ((k, v) # cs) = (if v = 0 then touched cs else insert k (touched cs))"
  by (auto simp: touched_def)



definition shown_values :: "config \<Rightarrow> (camera_setting \<times> u32) list \<Rightarrow> (camera_setting \<times> u32) list" where
  "shown_values d = map (\<lambda>(k, v). (k, shown_value d k v))"

lemma shown_values_simps [simp]: "shown_values d [] = []" "shown_values d ((k, v) # cs) = (k, shown_value d k v) # shown_values d cs"
  by (simp_all add: shown_values_def)



lemma shown_value_0 [simp]: "shown_value d k v = 0 \<longleftrightarrow> v = 0"
  by (auto simp: shown_value_def)




lemma content_only:
  "\<exists>xs. length xs = length (info_content e) \<and> vinfoSetContent i t x y e = e\<lparr>info_content := xs\<rparr>"
  by (cases "info_content e ! i") (auto simp: vinfoSetContent_def
      intro: exI [of _ "info_content e"] exI [where x = "(info_content e)[i := z]" for z])

lemma logo_only:
  "\<exists>xs. length xs = length (info_content e) \<and> draw_logo i t e = e\<lparr>info_content := xs\<rparr>"
  using content_only [of e i "ShowString t ! i"] by (auto simp: draw_logo_def Let_def intro: exI [of _ "info_content e"])


subsection \<open>From the request to the engine\<close>








definition never_set :: "camera_setting \<Rightarrow> u32 \<Rightarrow> (camera_setting \<times> u32) list \<Rightarrow> bool" where
  "never_set k v cs = (v = 0 \<and> k \<notin> touched cs)"


lemma never_set_iff: "never_set k v cs \<longleftrightarrow> v = 0 \<and> (\<forall>x. (k, x) \<in> set cs \<longrightarrow> x = 0)"
  by (auto simp: never_set_def touched_def)


definition example_audio :: audio_lib where
  "example_audio = \<lparr>audioSetPlayVolume = (\<lambda>_ _. 0), audioSetRecordVolume = (\<lambda>_ _. 0)\<rparr>"

definition example_engine :: engine where
  "example_engine = \<lparr>sPlanarSize = (0, 0), capture_rotate = 0, enable_mp4 = False, enable_audio = False, bIsEnableJPEG = False,
     eEncFormat = 0, eEncodeFormat = 0, uEncFrameRateStatic = 30, uEncBitRate = 64 * 1024, nJPEGQua = 0, nContrast = 0, nBrightness = 0,
     bPlayEnabled = True, bRecordEnabled = True, play_volume = (20, 20), record_volume = (0, 0), bDrawTitle = False,
     info_content = [([], 0, 0, False), ([], 0, 0, False), ([], 0, 0, False)]\<rparr>"


subsection \<open>A volume of 0\<close>

lemma other_message_keeps_volume:
  assumes "fst m \<noteq> MSG_SPEAKER_VOLUME" and "on_message A d m (w, e) = Inr (w', e')"
  shows "ucSpeakerVolume w' = ucSpeakerVolume w \<and> play_volume e' = play_volume e"
proof -
  have v: "play_volume (draw_logo i t x) = play_volume x" for i t x using logo_only [of x i t] by auto
  have q: "play_volume y = play_volume x" if "set_image_quality iQuality iResX x = Inr (b, y)" for iQuality iResX x b y
    using that by (auto simp: set_image_quality_def engine_defs Let_def split: if_splits)
  have r: "play_volume y = play_volume x" if "W99702_SetImageResolution X Y u x = Inr (b, y)" for X Y u x b y
    using that by (auto simp: W99702_SetImageResolution_def bnd_Inr engine_defs Let_def split: option.splits if_splits dest!: q)
  have i: "play_volume y = play_volume x" if "W99702_SetImageQuality z u x = Inr (b, y)" for z u x b y
    using that by (auto simp: W99702_SetImageQuality_def split: option.splits if_splits dest!: q)
  obtain k u where m: "m = (k, u)" by (cases m)
  show ?thesis using assms unfolding m on_message_def
    by (auto simp: on_direction_def on_resolution_def bnd_Inr W99702_SetFramerate_def W99702_SetImageBrightness_def W99702_SetMicVolume_def
      engine_defs Let_def v split: if_splits option.splits dest!: r i)
qed


lemma other_messages_keep_volume:
  assumes "on_messages A d ms (w, e) = Inr (w', e')" and "\<forall>m \<in> set ms. fst m \<noteq> MSG_SPEAKER_VOLUME"
  shows "ucSpeakerVolume w' = ucSpeakerVolume w \<and> play_volume e' = play_volume e"
  using assms
proof (induction ms arbitrary: w e)
  case (Cons m ms)
  then obtain w1 e1 where "on_message A d m (w, e) = Inr (w1, e1)" "on_messages A d ms (w1, e1) = Inr (w', e')"
    by (auto simp: bnd_Inr)
  then show ?case using Cons.IH [of w1 e1] Cons.prems(2) other_message_keeps_volume [of m A d w e w1 e1] by simp
qed simp

text \<open>
  A speaker volume of 0 does not survive a restart: the camera thread, whose own state starts at 0, takes it for already set, and
  the codec keeps the volume its driver starts with (20, vauStartPlay), while the status line shows 0.
\<close>

theorem silence_is_forgotten:
  assumes "ulSpeakerVolume (cfg_cam c) = 0"
    and "on_messages A d (SetCameraInitState c) (W99702_OpenCamera d (reset_webcam c check, e)) = Inr (w', e')"
  shows "ucSpeakerVolume w' = 0 \<and> play_volume e' = play_volume e"
proof -
  let ?ms = "SetCameraInitState c"
  have ms: "?ms = take 5 ?ms @ (MSG_SPEAKER_VOLUME, 0) # drop 6 ?ms"
    using assms(1) by (simp add: SetCameraInitState_def Let_def)
  obtain w0 e0 where 0: "W99702_OpenCamera d (reset_webcam c check, e) = (w0, e0)" by (cases "W99702_OpenCamera d (reset_webcam c check, e)")
  have start: "ucSpeakerVolume w0 = 0" "play_volume e0 = play_volume e"
    using 0 by (auto simp: W99702_OpenCamera_def W99702_InitParam_def reset_webcam_def zero_webcam_def engine_defs Let_def)
  have "on_messages A d (take 5 ?ms @ (MSG_SPEAKER_VOLUME, 0) # drop 6 ?ms) (w0, e0) = Inr (w', e')"
    using assms(2) ms by (simp add: 0)
  then obtain w1 e1 w2 e2 where s: "on_messages A d (take 5 ?ms) (w0, e0) = Inr (w1, e1)"
    "on_message A d (MSG_SPEAKER_VOLUME, 0) (w1, e1) = Inr (w2, e2)" "on_messages A d (drop 6 ?ms) (w2, e2) = Inr (w', e')"
    by (auto simp: on_messages_append bnd_Inr)
  have 1: "ucSpeakerVolume w1 = 0 \<and> play_volume e1 = play_volume e"
    using other_messages_keep_volume [OF s(1)] start by (simp add: SetCameraInitState_def Let_def msg_defs)
  then have "ucSpeakerVolume w2 = 0 \<and> play_volume e2 = play_volume e"
    using s(2) by (auto simp: on_message_def msg_defs W99702_SetSpeakerVolume_def)
  then show ?thesis using other_messages_keep_volume [OF s(3)] by (simp add: SetCameraInitState_def Let_def msg_defs)
qed

theorem silence_is_forgotten_witness:
  "\<exists>w' e'. on_messages example_audio (InitDefaultParam (\<lambda>_. 0)) (SetCameraInitState zero_config)
      (W99702_OpenCamera (InitDefaultParam (\<lambda>_. 0)) (reset_webcam zero_config False, example_engine)) = Inr (w', e')
     \<and> ucSpeakerVolume w' = 0 \<and> play_volume e' = (20, 20)"
proof -
  let ?d = "InitDefaultParam (\<lambda>_. 0)"
  have "ok (on_messages example_audio ?d (SetCameraInitState zero_config)
      (W99702_OpenCamera ?d (reset_webcam zero_config False, example_engine)))"
    by (simp add: SetCameraInitState_def zero_config_def InitDefaultParam_def W99702_OpenCamera_def W99702_InitParam_def reset_webcam_def
      zero_webcam_def example_engine_def engine_defs on_message_def msg_defs on_resolution_def W99702_SetImageResolution_def
      W99702_GetImageResolution_def W99702_SetImageQuality_def W99702_SetFramerate_def W99702_SetImageBrightness_def
      W99702_SetSpeakerVolume_def W99702_SetMicVolume_def draw_logo_def vinfoSetContent_def CMD_VIDEO_MP4_def CMD_VIDEO_H263_def Let_def)
  then obtain we where we: "on_messages example_audio ?d (SetCameraInitState zero_config)
      (W99702_OpenCamera ?d (reset_webcam zero_config False, example_engine)) = Inr we"
    by (cases "on_messages example_audio ?d (SetCameraInitState zero_config)
      (W99702_OpenCamera ?d (reset_webcam zero_config False, example_engine))") simp_all
  obtain w' e' where "we = (w', e')" by (cases we)
  then show ?thesis
    using we silence_is_forgotten [of zero_config example_audio ?d False example_engine w' e'] by (simp add: zero_config_def example_engine_def)
qed

end
