(* ===== verification/MultipartBuffer.thy ===== *)
theory MultipartBuffer
  imports Rovio_Prelude
begin

section \<open>The buffer of the upload parser (LibCamera/Src/Upload/Upload.c)\<close>

text \<open>
  A posted form is parsed through a circular buffer of 32 KB. Pointers into it are offsets here; \<open>pcBufEnd\<close> is the end of
  the array. \<open>MPClean\<close> turns the array so that the data starts at its beginning, in place, following the
  cycles of the permutation, as many as the greatest common divisor says.
\<close>

datatype mp_state = MPST_IGNORE | MPST_HEADER | MPST_ONE_CR | MPST_TWO_LF | MPST_TWO_CR | MPST_BODYFILE | MPST_BODYPARAM

record mpart =
  iState :: mp_state
  iBoundaryLen :: nat
  pfFlashTmpFile :: u32
  pParamList :: "(string \<times> string) list"
  pcInnerPartName :: "string option"
  pcBufDataHeader :: nat
  pcBufDataEnd :: nat
  acBoundary :: "u8 list"
  acBuf :: "u8 list"

definition pcBufEnd :: "mpart \<Rightarrow> nat" where
  "pcBufEnd p = length (acBuf p)"

definition MPAddChar :: "mpart \<Rightarrow> u8 \<Rightarrow> mpart" where
  "MPAddChar p ch =
     (let e1 = pcBufDataEnd p + 1;
          e = (if e1 = pcBufEnd p then 0 else e1);
          h = (if e = pcBufDataHeader p
               then (if pcBufDataHeader p + 1 = pcBufEnd p then 0 else pcBufDataHeader p + 1)
               else pcBufDataHeader p)
      in p\<lparr>pcBufDataHeader := h, acBuf := (acBuf p)[pcBufDataEnd p := ch], pcBufDataEnd := e\<rparr>)"

function gcd_loop :: "nat \<Rightarrow> nat \<Rightarrow> nat" where
  "gcd_loop x y = (if x = 0 then y else if y = 0 then x else if x > y then gcd_loop (x mod y) y else gcd_loop x (y mod x))"
  by pat_completeness auto

termination
proof (relation "measure (\<lambda>(x, y). x + y)", goal_cases)
  case (2 x y)
  then show ?case by (auto intro: less_trans [of "x mod y" y x])
next
  case (3 x y)
  then show ?case by (auto intro: order_less_le_trans [of "y mod x" x y])
qed simp

declare gcd_loop.simps [simp del]

text \<open>One cycle: \<open>iEachMove\<close> moves from the next position to this one, then the saved first byte to the last.\<close>

definition MPClean_move :: "nat \<Rightarrow> nat \<times> nat \<times> u8 list \<Rightarrow> nat \<times> nat \<times> u8 list" where
  "MPClean_move iMove st =
     (case st of (_, iPosPre, pcBuf) \<Rightarrow>
        let nx = (if iPosPre + iMove \<ge> length pcBuf then iPosPre + iMove - length pcBuf else iPosPre + iMove)
        in (iPosPre, nx, pcBuf[iPosPre := pcBuf ! nx]))"

fun MPClean_moves :: "nat \<Rightarrow> nat \<Rightarrow> nat \<times> nat \<times> u8 list \<Rightarrow> nat \<times> nat \<times> u8 list" where
  "MPClean_moves 0 iMove st = st"
| "MPClean_moves (Suc n) iMove st = MPClean_moves n iMove (MPClean_move iMove st)"

definition MPClean_cycle :: "nat \<Rightarrow> nat \<Rightarrow> nat \<Rightarrow> u8 list \<Rightarrow> u8 list" where
  "MPClean_cycle iMove iEachMove i pcBuf =
     (case MPClean_moves iEachMove iMove (i, i, pcBuf) of (iPos, _, buf) \<Rightarrow> buf[iPos := pcBuf ! i])"

definition MPClean :: "mpart \<Rightarrow> mpart" where
  "MPClean p =
     (let iBufLen = length (acBuf p);
          v = pcBufDataEnd p + iBufLen - pcBufDataHeader p;
          iValidLen = (if v > iBufLen then v - iBufLen else v);
          iMove = ((iBufLen - pcBufDataHeader p) mod iBufLen + iBufLen) mod iBufLen
      in if iMove = 0 then p
         else let iComDiv = gcd_loop iMove iBufLen;
                  iEachMove = iBufLen div iComDiv
              in p\<lparr>acBuf := fold (MPClean_cycle (iBufLen - iMove) iEachMove) [0 ..< iComDiv] (acBuf p),
                   pcBufDataHeader := 0, pcBufDataEnd := iValidLen\<rparr>)"

definition MPClear :: "mpart \<Rightarrow> mpart" where
  "MPClear p = p\<lparr>pcBufDataHeader := 0, pcBufDataEnd := 0\<rparr>"

subsection \<open>The greatest common divisor\<close>

lemma gcd_loop_gcd: "gcd_loop x y = gcd x y"
proof (induction x y rule: gcd_loop.induct)
  case (1 x y)
  consider "x = 0" | "y = 0" | "x > y" "x \<noteq> 0" "y \<noteq> 0" | "\<not> x > y" "x \<noteq> 0" "y \<noteq> 0" by blast
  then show ?case
  proof cases
    case 3
    then show ?thesis using 1(1) by (subst gcd_loop.simps) (simp add: gcd_red_nat [of x y] gcd.commute)
  next
    case 4
    then show ?thesis using 1(2) by (subst gcd_loop.simps) (simp add: gcd_red_nat [of y x] gcd.commute [of x y])
  qed (simp_all add: gcd_loop.simps)
qed

subsection \<open>The cycles\<close>

text \<open>Position k of the cycle that starts at i, in a buffer of n bytes turned by h.\<close>

definition pos_at :: "nat \<Rightarrow> nat \<Rightarrow> nat \<Rightarrow> nat \<Rightarrow> nat" where
  "pos_at n h i k = (i + k * h) mod n"

lemma pos_at_Suc: "pos_at n h i (Suc k) = (pos_at n h i k + h) mod n"
  using mod_add_left_eq [of "i + k * h" n h] by (simp add: pos_at_def add_ac)

lemma pos_at_inj:
  assumes "0 < n" and "k < n div gcd h n" and "l < n div gcd h n" and "pos_at n h i k = pos_at n h i l"
  shows "k = l"
proof -
  have *: "k = l" if "k \<le> l" "l < n div gcd h n" "pos_at n h i k = pos_at n h i l" for k l
  proof (rule ccontr)
    assume "k \<noteq> l"
    let ?g = "gcd h n"
    have "(i + l * h) mod n = (i + k * h) mod n" using that(3) by (simp add: pos_at_def)
    then have "n dvd (i + l * h) - (i + k * h)" using mod_eq_dvd_iff_nat [of "i + k * h" "i + l * h" n] that(1) by simp
    then have d: "n dvd (l - k) * h" by (simp add: diff_mult_distrib)
    have "?g * (n div ?g) dvd ?g * ((l - k) * (h div ?g))"
      using d by (metis dvd_mult_div_cancel gcd_dvd1 gcd_dvd2 mult.left_commute)
    then have "n div ?g dvd (l - k) * (h div ?g)" using assms(1) by (simp only: nat_mult_dvd_cancel_disj) simp
    moreover have "coprime (n div ?g) (h div ?g)" using div_gcd_coprime [of h n] assms(1) by (simp add: coprime_commute)
    ultimately have "n div ?g dvd l - k" by (simp add: coprime_dvd_mult_left_iff)
    then have "n div ?g \<le> l - k" using \<open>k \<noteq> l\<close> that(1) by (simp add: dvd_imp_le)
    then show False using that(2) by simp
  qed
  show ?thesis using *[of k l] *[of l k] assms by (cases "k \<le> l") auto
qed

lemma pos_at_class:
  assumes "0 < n" and "i < gcd h n"
  shows "pos_at n h i ` {..<n div gcd h n} = {x. x < n \<and> x mod gcd h n = i}"
proof (rule card_subset_eq)
  let ?g = "gcd h n" and ?C = "{x. x < n \<and> x mod gcd h n = i}"
  show "finite ?C" by simp
  show "pos_at n h i ` {..<n div ?g} \<subseteq> ?C"
  proof
    fix x assume "x \<in> pos_at n h i ` {..<n div ?g}"
    then obtain k where "x = (i + k * h) mod n" by (auto simp: pos_at_def)
    moreover have "(i + k * h) mod n mod ?g = (i + k * h) mod ?g" by (simp add: mod_mod_cancel)
    moreover have "k * h mod ?g = 0" by simp
    then have "(i + k * h) mod ?g = i" using assms(2) mod_add_right_eq [of i "k * h" ?g] by simp
    ultimately show "x \<in> ?C" using assms(1) by simp
  qed
  have "?C \<subseteq> (\<lambda>q. q * ?g + i) ` {..<n div ?g}"
  proof
    fix x assume x: "x \<in> ?C"
    then have "x = x div ?g * ?g + i" using div_mult_mod_eq [of x ?g] by simp
    moreover have "x div ?g < n div ?g"
      using x less_mult_imp_div_less [of x "n div ?g" ?g] by simp
    ultimately show "x \<in> (\<lambda>q. q * ?g + i) ` {..<n div ?g}" by blast
  qed
  then have "card ?C \<le> n div ?g" using surj_card_le [of "{..<n div ?g}" ?C] by simp
  moreover have "card (pos_at n h i ` {..<n div ?g}) = n div ?g"
    using pos_at_inj [OF assms(1)] by (subst card_image) (auto simp: inj_on_def)
  ultimately show "card (pos_at n h i ` {..<n div ?g}) = card ?C"
    using card_mono [OF \<open>finite ?C\<close> \<open>pos_at n h i ` {..<n div ?g} \<subseteq> ?C\<close>] by simp
qed

text \<open>The moves of one cycle, counted: after n of them the first n positions hold their successors' bytes.\<close>

lemma MPClean_moves_Suc: "MPClean_moves (Suc n) h st = MPClean_move h (MPClean_moves n h st)"
  by (induction n arbitrary: st) simp_all

lemma below_gcd: "i < gcd h n \<Longrightarrow> 0 < n \<Longrightarrow> i < (n :: nat)"
  using gcd_le2_nat [of n h] by linarith

lemma next_position:
  assumes "(x :: nat) < n" and "h < n"
  shows "(if x + h \<ge> n then x + h - n else x + h) = (x + h) mod n"
  using assms by (auto simp: le_mod_geq)

lemma MPClean_move_eq:
  assumes "length buf = n" and "x < n" and "h < n"
  shows "MPClean_move h (p, x, buf) = (x, (x + h) mod n, buf[x := buf ! ((x + h) mod n)])"
  unfolding MPClean_move_def prod.case Let_def assms(1) next_position [OF assms(2,3)] by (rule refl)

lemma MPClean_moves_run:
  assumes "i < gcd h n" and "h < n" and "length b = n" and "k < n div gcd h n"
  shows "\<exists>p buf. MPClean_moves k h (i, i, b) = (p, pos_at n h i k, buf) \<and> length buf = n
    \<and> (0 < k \<longrightarrow> p = pos_at n h i (k - 1))
    \<and> (\<forall>x<n. buf ! x = (if x \<in> pos_at n h i ` {..<k} then b ! ((x + h) mod n) else b ! x))"
  using assms(4)
proof (induction k)
  case 0
  have "i < n" using below_gcd [OF assms(1)] assms(2) by simp
  then show ?case using assms(3) by (simp add: pos_at_def)
next
  case (Suc k)
  then obtain p buf where m: "MPClean_moves k h (i, i, b) = (p, pos_at n h i k, buf)" "length buf = n"
    "\<forall>x<n. buf ! x = (if x \<in> pos_at n h i ` {..<k} then b ! ((x + h) mod n) else b ! x)" by auto
  let ?a = "pos_at n h i k" and ?a' = "pos_at n h i (Suc k)"
  have n: "0 < n" using assms(2) by simp
  then have lt: "?a < n" "?a' < n" by (simp_all add: pos_at_def)
  have new: "?a' \<notin> pos_at n h i ` {..<k}" 
  proof
    assume "?a' \<in> pos_at n h i ` {..<k}"
    then obtain l where "l < k" "?a' = pos_at n h i l" by blast
    then show False using pos_at_inj [OF n Suc.prems, of l i] Suc.prems by simp
  qed
  have "MPClean_moves (Suc k) h (i, i, b) = (?a, ?a', buf[?a := buf ! ?a'])"
    unfolding MPClean_moves_Suc m pos_at_Suc using MPClean_move_eq [OF m(2) lt(1) assms(2)] .
  moreover have "buf[?a := buf ! ?a'] ! x = (if x \<in> pos_at n h i ` {..<Suc k} then b ! ((x + h) mod n) else b ! x)" if "x < n" for x
  proof (cases "x = ?a")
    case True
    then show ?thesis using m(2,3) lt new by (simp add: pos_at_Suc)
  next
    case False
    then show ?thesis using m(3) that by (simp add: lessThan_Suc)
  qed
  ultimately show ?case using m(2) by simp
qed

lemma pos_at_round: "i < n \<Longrightarrow> pos_at n h i (n div gcd h n) = i"
proof -
  assume "i < n"
  have "n div gcd h n * h = n * (h div gcd h n)" by (simp add: div_mult_swap mult.commute)
  with \<open>i < n\<close> show ?thesis by (simp add: pos_at_def)
qed

lemma MPClean_cycle_nth:
  assumes "i < gcd h n" and "h < n" and "length b = n" and "x < n"
  shows "MPClean_cycle h (n div gcd h n) i b ! x = (if x mod gcd h n = i then b ! ((x + h) mod n) else b ! x)"
    and "length (MPClean_cycle h (n div gcd h n) i b) = n"
proof -
  let ?e = "n div gcd h n"
  have n: "0 < n" using assms(2) by simp
  then have "0 < ?e" using gcd_le2_nat [of n h] assms(1) by (simp add: div_greater_zero_iff)
  then obtain k where k: "?e = Suc k" by (cases ?e) auto
  then have "k < ?e" by simp
  from MPClean_moves_run [OF assms(1-3) this] obtain p buf where m: "MPClean_moves k h (i, i, b) = (p, pos_at n h i k, buf)"
    "length buf = n" "\<forall>x<n. buf ! x = (if x \<in> pos_at n h i ` {..<k} then b ! ((x + h) mod n) else b ! x)" by blast
  let ?a = "pos_at n h i k"
  have a: "?a < n" using n by (simp add: pos_at_def)
  have i: "i < n" using below_gcd [OF assms(1) n] .
  have last: "(?a + h) mod n = i" using pos_at_round [OF i, of h] unfolding k pos_at_Suc .
  have run: "MPClean_cycle h ?e i b = buf[?a := b ! i]"
    unfolding MPClean_cycle_def k MPClean_moves_Suc m MPClean_move_eq [OF m(2) a assms(2)] by simp
  then show "length (MPClean_cycle h ?e i b) = n" using m(2) by simp
  have "x \<in> pos_at n h i ` {..<?e} \<longleftrightarrow> x mod gcd h n = i" using pos_at_class [OF n assms(1)] assms(4) by auto
  moreover have "x \<in> pos_at n h i ` {..<?e} \<longleftrightarrow> x = ?a \<or> x \<in> pos_at n h i ` {..<k}" by (simp add: k lessThan_Suc)
  ultimately show "MPClean_cycle h ?e i b ! x = (if x mod gcd h n = i then b ! ((x + h) mod n) else b ! x)"
    unfolding run using m(2,3) a last assms(4) by (cases "x = ?a") auto
qed

lemma MPClean_cycles_nth:
  assumes "h < n" and "length b = n" and "j \<le> gcd h n"
  shows "length (fold (MPClean_cycle h (n div gcd h n)) [0 ..< j] b) = n
    \<and> (\<forall>x<n. fold (MPClean_cycle h (n div gcd h n)) [0 ..< j] b ! x = (if x mod gcd h n < j then b ! ((x + h) mod n) else b ! x))"
  using assms(3)
proof (induction j)
  case (Suc j)
  let ?b = "fold (MPClean_cycle h (n div gcd h n)) [0 ..< j] b" and ?g = "gcd h n"
  from Suc have IH: "length ?b = n" "\<forall>x<n. ?b ! x = (if x mod ?g < j then b ! ((x + h) mod n) else b ! x)" by simp_all
  have "j < ?g" using Suc.prems by simp
  note c = MPClean_cycle_nth [OF this assms(1) IH(1)]
  have "((x + h) mod n) mod ?g = x mod ?g" for x
    using mod_add_right_eq [of x h ?g] by (simp add: mod_mod_cancel)
  then show ?case using c IH(2) assms(1) by (auto simp: less_Suc_eq)
qed (use assms in simp)

lemma MPClean_cycles_rotate:
  assumes "h < length b"
  shows "fold (MPClean_cycle h (length b div gcd h (length b))) [0 ..< gcd h (length b)] b = rotate h b"
proof (rule nth_equalityI)
  have "0 < gcd h (length b)" using assms by auto
  then show "fold (MPClean_cycle h (length b div gcd h (length b))) [0 ..< gcd h (length b)] b ! x = rotate h b ! x"
    if "x < length (fold (MPClean_cycle h (length b div gcd h (length b))) [0 ..< gcd h (length b)] b)" for x
    using MPClean_cycles_nth [OF assms refl order.refl] that by (simp add: nth_rotate add.commute)
qed (use MPClean_cycles_nth [OF assms refl order.refl] in simp)

subsection \<open>What the buffer holds\<close>

definition mp_ok :: "mpart \<Rightarrow> bool" where
  "mp_ok p = (1 < length (acBuf p) \<and> pcBufDataHeader p < length (acBuf p) \<and> pcBufDataEnd p < length (acBuf p))"

definition mp_len :: "mpart \<Rightarrow> nat" where
  "mp_len p = (if pcBufDataHeader p \<le> pcBufDataEnd p then pcBufDataEnd p - pcBufDataHeader p
               else pcBufDataEnd p + length (acBuf p) - pcBufDataHeader p)"

definition mp_data :: "mpart \<Rightarrow> u8 list" where
  "mp_data p = map (\<lambda>i. acBuf p ! ((pcBufDataHeader p + i) mod length (acBuf p))) [0 ..< mp_len p]"

lemma mod_once: "(a :: nat) < 2 * n \<Longrightarrow> a mod n = (if a < n then a else a - n)"
  by (simp add: mod_if [of a n])

lemma length_mp_data [simp]: "length (mp_data p) = mp_len p"
  by (simp add: mp_data_def)

lemma nth_mp_data: "i < mp_len p \<Longrightarrow> mp_data p ! i = acBuf p ! ((pcBufDataHeader p + i) mod length (acBuf p))"
  by (simp add: mp_data_def)

lemma mp_len_less: "mp_ok p \<Longrightarrow> mp_len p < length (acBuf p)"
  by (auto simp: mp_ok_def mp_len_def)

lemma MPAddChar_ok: "mp_ok p \<Longrightarrow> mp_ok (MPAddChar p ch)"
  by (auto simp: mp_ok_def MPAddChar_def pcBufEnd_def Let_def)

lemma MPAddChar_len:
  "mp_ok p \<Longrightarrow> mp_len (MPAddChar p ch) = (if Suc (mp_len p) = length (acBuf p) then mp_len p else Suc (mp_len p))"
  by (auto simp: mp_ok_def mp_len_def MPAddChar_def pcBufEnd_def Let_def)

lemma MPAddChar_data:
  assumes "mp_ok p"
  shows "mp_data (MPAddChar p ch) = (if Suc (mp_len p) = length (acBuf p) then tl (mp_data p) else mp_data p) @ [ch]"
proof (rule nth_equalityI)
  show "length (mp_data (MPAddChar p ch)) = length ((if Suc (mp_len p) = length (acBuf p) then tl (mp_data p) else mp_data p) @ [ch])"
    using MPAddChar_len [OF assms, of ch] assms by (auto simp: mp_ok_def)
  fix i assume "i < length (mp_data (MPAddChar p ch))"
  then have i: "i < mp_len (MPAddChar p ch)" by simp
  let ?n = "length (acBuf p)" and ?h = "pcBufDataHeader p" and ?e = "pcBufDataEnd p"
  have n: "1 < ?n" "?h < ?n" "?e < ?n" using assms by (simp_all add: mp_ok_def)
  have sel: "acBuf (MPAddChar p ch) = (acBuf p)[?e := ch]"
    "pcBufDataHeader (MPAddChar p ch) = (if Suc (mp_len p) = ?n then if Suc ?h = ?n then 0 else Suc ?h else ?h)"
    using n by (auto simp: MPAddChar_def pcBufEnd_def Let_def mp_len_def)
  have l: "mp_len (MPAddChar p ch) = (if Suc (mp_len p) = ?n then mp_len p else Suc (mp_len p))"
    by (rule MPAddChar_len [OF assms])
  have pos: "(?h + k) mod ?n = ?e \<longleftrightarrow> k = mp_len p" if "k \<le> mp_len p" for k
    using that n by (auto simp: mp_len_def mod_once split: if_splits)
  show "mp_data (MPAddChar p ch) ! i = ((if Suc (mp_len p) = ?n then tl (mp_data p) else mp_data p) @ [ch]) ! i"
  proof (cases "Suc (mp_len p) = ?n")
    case True
    have at: "(pcBufDataHeader (MPAddChar p ch) + i) mod ?n = (?h + Suc i) mod ?n"
    proof (cases "Suc ?h = ?n")
      case wrap: True
      then have "(?h + Suc i) mod ?n = i mod ?n" by (metis add_Suc_shift mod_add_self1)
      then show ?thesis using True wrap by (simp add: sel)
    qed (use True in \<open>simp add: sel\<close>)
    have v: "mp_data (MPAddChar p ch) ! i = (acBuf p)[?e := ch] ! ((?h + Suc i) mod ?n)"
      using nth_mp_data [OF i] unfolding sel(1) length_list_update at .
    have "Suc i \<le> mp_len p" using i l True by simp
    then consider "Suc i = mp_len p" | "Suc i < mp_len p" by linarith
    then show ?thesis
    proof cases
      case 1
      then have "mp_len p - Suc 0 = i" "(?h + Suc i) mod ?n = ?e" using pos [of "Suc i"] by simp_all
      then show ?thesis unfolding v using 1 True n by (simp add: nth_append)
    next
      case 2
      then have "i < mp_len p - Suc 0" "(?h + Suc i) mod ?n \<noteq> ?e" using pos [of "Suc i"] by simp_all
      then show ?thesis unfolding v using 2 True by (simp add: nth_append nth_tl nth_mp_data)
    qed
  next
    case False
    have at: "pcBufDataHeader (MPAddChar p ch) = ?h" using False by (simp add: sel(2))
    have v: "mp_data (MPAddChar p ch) ! i = (acBuf p)[?e := ch] ! ((?h + i) mod ?n)"
      using nth_mp_data [OF i] unfolding sel(1) length_list_update at .
    have "i \<le> mp_len p" using i l False by simp
    then consider "i = mp_len p" | "i < mp_len p" by linarith
    then show ?thesis
    proof cases
      case 1
      then have "(?h + i) mod ?n = ?e" using pos [of i] by simp
      then show ?thesis unfolding v using 1 False n by (simp add: nth_append)
    next
      case 2
      then have "(?h + i) mod ?n \<noteq> ?e" using pos [of i] by simp
      then show ?thesis unfolding v using 2 False by (simp add: nth_append nth_mp_data)
    qed
  qed
qed

lemma MPClean_turned:
  assumes "mp_ok p" and "pcBufDataHeader p \<noteq> pcBufDataEnd p"
  shows "acBuf (MPClean p) = rotate (pcBufDataHeader p) (acBuf p)" and "pcBufDataHeader (MPClean p) = 0"
    and "pcBufDataEnd (MPClean p) = mp_len p"
proof -
  let ?n = "length (acBuf p)" and ?h = "pcBufDataHeader p" and ?e = "pcBufDataEnd p"
  have n: "?h < ?n" "?e < ?n" using assms by (simp_all add: mp_ok_def)
  show "acBuf (MPClean p) = rotate ?h (acBuf p)" "pcBufDataHeader (MPClean p) = 0" "pcBufDataEnd (MPClean p) = mp_len p"
  proof (atomize (full), cases "?h = 0")
    case True
    then show "acBuf (MPClean p) = rotate ?h (acBuf p) \<and> pcBufDataHeader (MPClean p) = 0 \<and> pcBufDataEnd (MPClean p) = mp_len p"
      by (simp add: MPClean_def Let_def mp_len_def)
  next
    case False
    then have "(?n - ?h) mod ?n = ?n - ?h" using n by simp
    then have m: "((?n - ?h) mod ?n + ?n) mod ?n = ?n - ?h" "?n - (?n - ?h) = ?h" using n by (simp_all only: mod_add_self2)
    have "gcd (?n - ?h) ?h = gcd ?n ?h" "gcd (?n - (?n - ?h)) (?n - ?h) = gcd ?n (?n - ?h)"
      by (rule gcd_diff1_nat, use n in simp)+
    then have g: "gcd (?n - ?h) ?n = gcd ?h ?n" using n by (simp add: gcd.commute)
    show "acBuf (MPClean p) = rotate ?h (acBuf p) \<and> pcBufDataHeader (MPClean p) = 0 \<and> pcBufDataEnd (MPClean p) = mp_len p"
      unfolding MPClean_def Let_def m gcd_loop_gcd g
      using n False assms(2) MPClean_cycles_rotate [OF n(1)] by (simp add: mp_len_def)
  qed
qed

lemma MPClean_data:
  assumes "mp_ok p" and "pcBufDataHeader p \<noteq> pcBufDataEnd p"
  shows "mp_data (MPClean p) = mp_data p" and "take (pcBufDataEnd (MPClean p)) (acBuf (MPClean p)) = mp_data p"
    and "mp_ok (MPClean p)"
proof -
  note t = MPClean_turned [OF assms]
  have l: "mp_len (MPClean p) = mp_len p" by (simp add: mp_len_def [of "MPClean p"] t)
  show ok: "mp_ok (MPClean p)" using assms(1) mp_len_less [OF assms(1)] by (auto simp: mp_ok_def t)
  show "mp_data (MPClean p) = mp_data p"
    using mp_len_less [OF assms(1)] by (intro nth_equalityI) (simp_all add: l nth_mp_data t nth_rotate)
  show "take (pcBufDataEnd (MPClean p)) (acBuf (MPClean p)) = mp_data p"
    using mp_len_less [OF assms(1)] by (intro nth_equalityI) (simp_all add: nth_mp_data t nth_rotate)
qed

text \<open>
  The parser's buffer is a window on the posted data: whatever was added to an empty buffer, after the in-place turn the
  array begins with the newest characters, in order: all of them, or as many as the array has bytes less one.
  (The turn, a loop over as many cycles as the greatest common divisor says, is a rotation of the array.)
\<close>

theorem buffer_is_window:
  assumes "1 < length (acBuf p)" and "cs \<noteq> []"
  shows "let q = foldl MPAddChar (MPClear p) cs; r = MPClean q
    in acBuf r = rotate (pcBufDataHeader q) (acBuf q)
     \<and> take (pcBufDataEnd r) (acBuf r) = drop (Suc (length cs) - length (acBuf p)) cs"
proof -
  let ?q = "\<lambda>cs. foldl MPAddChar (MPClear p) cs"
  have q: "length (acBuf (?q cs)) = length (acBuf p) \<and> mp_ok (?q cs) \<and> mp_data (?q cs) = drop (Suc (length cs) - length (acBuf p)) cs" for cs
  proof (induction cs rule: rev_induct)
    case Nil
    then show ?case using assms(1) by (auto simp: MPClear_def mp_ok_def mp_data_def mp_len_def)
  next
    case (snoc c cs)
    then have l: "mp_len (?q cs) = length cs - (Suc (length cs) - length (acBuf p))" by (metis length_drop length_mp_data)
    have "length (acBuf (MPAddChar q c)) = length (acBuf q)" for q by (simp add: MPAddChar_def Let_def)
    moreover have "mp_data (?q (cs @ [c])) = drop (Suc (length (cs @ [c])) - length (acBuf p)) (cs @ [c])"
      using snoc l assms(1)
      by (cases "Suc (length cs) < length (acBuf p)") (auto simp: MPAddChar_data tl_drop drop_Suc Suc_diff_le)
    ultimately show ?case using snoc MPAddChar_ok by simp
  qed
  have "mp_len (?q cs) \<noteq> 0"
    using q [of cs] assms by (cases cs rule: rev_cases) (auto simp flip: length_mp_data)
  then have ne: "pcBufDataHeader (?q cs) \<noteq> pcBufDataEnd (?q cs)" by (auto simp: mp_len_def)
  have ok: "mp_ok (?q cs)" using q by blast
  show ?thesis using MPClean_turned(1) [OF ok ne] MPClean_data(2) [OF ok ne] q [of cs] by (simp add: Let_def)
qed

definition example_mpart :: mpart where
  "example_mpart = \<lparr>iState = MPST_IGNORE, iBoundaryLen = 0, pfFlashTmpFile = 16, pParamList = [], pcInnerPartName = None,
     pcBufDataHeader = 0, pcBufDataEnd = 0, acBoundary = [], acBuf = [0, 0, 0, 0, 0, 0]\<rparr>"

theorem buffer_is_window_witness:
  "\<exists>p r. r = MPClean (foldl MPAddChar (MPClear p) [1, 2, 3, 4, 5, 6, 7, 8]) \<and> acBuf r = [4, 5, 6, 7, 8, 3]
     \<and> take (pcBufDataEnd r) (acBuf r) = [4, 5, 6, 7, 8]"
proof -
  let ?cs = "[1, 2, 3, 4, 5, 6, 7, 8]" and ?r = "MPClean (foldl MPAddChar (MPClear example_mpart) [1, 2, 3, 4, 5, 6, 7, 8])"
  have q: "acBuf (foldl MPAddChar (MPClear example_mpart) ?cs) = [7, 8, 3, 4, 5, 6]"
    "pcBufDataHeader (foldl MPAddChar (MPClear example_mpart) ?cs) = 3"
    by (simp_all add: example_mpart_def MPClear_def MPAddChar_def pcBufEnd_def)
  have l: "1 < length (acBuf example_mpart)" "Suc (length ?cs) - length (acBuf example_mpart) = 3" "?cs \<noteq> []"
    by (simp_all add: example_mpart_def)
  have "acBuf ?r = rotate 3 [7, 8, 3, 4, 5, 6] \<and> take (pcBufDataEnd ?r) (acBuf ?r) = drop 3 ?cs"
    using buffer_is_window [OF l(1,3)] unfolding Let_def q l(2) .
  moreover have "rotate 3 [7, 8, 3, 4, 5, 6] = [4, 5, 6, 7, 8, 3 :: u8]" "drop 3 ?cs = [4, 5, 6, 7, 8]"
    by (simp_all add: rotate_drop_take)
  ultimately show ?thesis by metis
qed

end
