(* ===== verification/ChunkedReply.thy ===== *)
theory ChunkedReply
  imports Rovio_Prelude
begin

section \<open>Replies sent in pieces\<close>

text \<open>
  Large replies, the firmware and the built-in pages, are not built in memory. The handler registers a function with the web
  server (\<open>httpSetSendDataOverFun\<close>) that adds one piece to the reply and registers itself for the next position, or registers
  nothing at the end; the server calls it whenever the last piece is sent. The locale says what such a function promises,
  and its lemma that the client receives exactly the bytes from the first position to the last.
\<close>

partial_function (option) send_chunks ::
  "(u32 \<Rightarrow> (u8 list \<times> u32) option checked) \<Rightarrow> u32 \<Rightarrow> u8 list \<Rightarrow> u8 list checked option" where
  "send_chunks emit a out =
     (case emit a of
        Inl e \<Rightarrow> Some (Inl e)
      | Inr None \<Rightarrow> Some (Inr out)
      | Inr (Some (bs, a')) \<Rightarrow> send_chunks emit a' (out @ bs))"

locale chunked_reply =
  fixes emit :: "u32 \<Rightarrow> (u8 list \<times> u32) option checked" and content :: "nat \<Rightarrow> u8" and stop :: nat and valid :: bool
  assumes emit_piece: "valid \<Longrightarrow> unat a < stop \<Longrightarrow>
      \<exists>a'. emit a = Inr (Some (map content [unat a ..< unat a'], a')) \<and> unat a < unat a' \<and> unat a' \<le> stop"
    and emit_end: "valid \<Longrightarrow> stop \<le> unat a \<Longrightarrow> emit a = Inr None"
begin

lemma sends_all:
  assumes "valid"
  shows "send_chunks emit a out = Some (Inr (out @ map content [unat a ..< stop]))"
proof (induction "stop - unat a" arbitrary: a out rule: less_induct)
  case less
  show ?case
  proof (cases "unat a < stop")
    case True
    from emit_piece [OF assms True] obtain a' where
      f: "emit a = Inr (Some (map content [unat a ..< unat a'], a'))" "unat a < unat a'" "unat a' \<le> stop" by blast
    have "[unat a ..< stop] = [unat a ..< unat a'] @ [unat a' ..< stop]"
      using f(2,3) upt_add_eq_append [of "unat a" "unat a'" "stop - unat a'"] by simp
    moreover have "stop - unat a' < stop - unat a" using f(2,3) True by simp
    ultimately show ?thesis using less [of a'] f(1) by (subst send_chunks.simps) simp
  next
    case False
    then show ?thesis using emit_end [OF assms] by (subst send_chunks.simps) (simp add: not_less)
  qed
qed

end

end
