(* ===== verification/FirmwareUpload.thy ===== *)
theory FirmwareUpload
  imports MultipartBuffer ChunkedReply FlashConfig Dispatch "HOL-Library.Sublist"
begin

section \<open>Firmware update (LibCamera/Src/Upload/Upload.c)\<close>

text \<open>
  An administrator posts a form with the new firmware. \<open>ProcessUpdate\<close> is a character-driven automaton that finds the
  parts of the form and streams the part named \<open>SourceFile\<close> to the flash from address 16, 32 KB at a time; at the end of the
  request the first 8 bytes of the flash get a mark and the length. \<open>Http_GetFirmware\<close> sends the firmware back. Parsing
  of a part's header, the value of the boundary and the copying of strings belong to the HTTP library and are parameters;
  \<open>None\<close> stands for a null pointer. A firmware file system (FILESYSTEM) is not compiled.
\<close>

record upload_lib =
  inner_part_name :: "u8 list \<Rightarrow> string option"
  lib_httpSetString :: "params \<Rightarrow> string option \<Rightarrow> string \<Rightarrow> params"
  lib_httpMyStrncpy :: "u8 list \<Rightarrow> nat \<Rightarrow> u8 list"

abbreviation LF :: u8 where "LF \<equiv> 10"
abbreviation CR :: u8 where "CR \<equiv> 13"
abbreviation DASH :: u8 where "DASH \<equiv> 45"

text \<open>The text of a C string in a byte buffer.\<close>

definition c_string :: "u8 list \<Rightarrow> string" where
  "c_string bs = map (\<lambda>b. char_of (unat b)) (takeWhile (\<lambda>b. b \<noteq> 0) bs)"

subsection \<open>The automaton\<close>

text \<open>
  \<open>MPTestBoundary\<close>: does the data end with the boundary and a line end or a dash? The answer is where its two leading dashes
  begin. \<open>q\<close> is one more than the pointer \<open>pc\<close> of the code, so \<open>q = 0\<close> is a pointer before the buffer.
\<close>

definition boundary_at :: "mpart \<Rightarrow> nat \<Rightarrow> nat option" where
  "boundary_at p q =
     (if q < iBoundaryLen p then None
      else let s = q - iBoundaryLen p
           in if take (iBoundaryLen p) (drop s (acBuf p)) = take (iBoundaryLen p) (acBoundary p)
              then if s = 0 then None else if acBuf p ! (s - 1) \<noteq> DASH then None
                   else if s = 1 then None else if acBuf p ! (s - 2) \<noteq> DASH then None
                   else Some (s - 2)
              else None)"

definition MPTestBoundary :: "mpart \<Rightarrow> nat option" where
  "MPTestBoundary p =
     (let q = pcBufDataEnd p
      in if q = 0 then None
         else if acBuf p ! (q - 1) \<noteq> LF \<and> acBuf p ! (q - 1) \<noteq> DASH then None
         else if q = 1 then None
         else if acBuf p ! (q - 2) = CR then (if q = 2 then None else boundary_at p (q - 2))
         else boundary_at p (q - 1))"

text \<open>The end of line before a boundary does not belong to the part.\<close>

definition before_crlf :: "u8 list \<Rightarrow> nat \<Rightarrow> nat" where
  "before_crlf b pc =
     (if 0 < pc \<and> b ! (pc - 1) = LF
      then if 0 < pc - 1 \<and> b ! (pc - 2) = CR then pc - 2 else pc - 1
      else pc)"

definition flash_write :: "u32 \<Rightarrow> u8 list \<Rightarrow> usi \<Rightarrow> usi checked" where
  "flash_write addr bs s = (case usiMyWrite addr (of_nat (length bs)) bs s of None \<Rightarrow> Inl Hang | Some s' \<Rightarrow> Inr s')"

text \<open>The first \<open>n\<close> bytes of the buffer go to the flash, and the position advances.\<close>

definition write_out :: "nat \<Rightarrow> mpart \<Rightarrow> usi \<Rightarrow> (mpart \<times> usi) checked" where
  "write_out n p s =
     bnd (flash_write (pfFlashTmpFile p) (take n (acBuf p)) s) (\<lambda>s'.
       Inr (p\<lparr>pfFlashTmpFile := pfFlashTmpFile p + of_nat n\<rparr>, s'))"

text \<open>
  When the buffer is full all of it is written but the last bytes, in which a boundary might begin; the number is a multiple
  of 4. (It is not negative: a boundary has at most 127 characters.)
\<close>

definition MPTestWriteFlash :: "mpart \<Rightarrow> usi \<Rightarrow> (mpart \<times> usi) checked" where
  "MPTestWriteFlash p s =
     (if pcBufDataEnd p + 1 = pcBufEnd p
      then let iLen = (pcBufDataEnd p - pcBufDataHeader p - iBoundaryLen p - 2) div 4 * 4
           in bnd (write_out iLen p s) (\<lambda>(p', s'). Inr (MPClean (p'\<lparr>pcBufDataHeader := iLen\<rparr>), s'))
      else Inr (p, s))"

text \<open>The states \<open>MPST_ONE_CR\<close> and \<open>MPST_TWO_LF\<close> share the code for an empty line: the part's header is complete.\<close>

definition end_of_header :: "upload_lib \<Rightarrow> u8 \<Rightarrow> mpart \<Rightarrow> mpart" where
  "end_of_header L ch p =
     (if ch = LF
      then let q = MPClean p;
               pcName = inner_part_name L (take (pcBufDataEnd q - pcBufDataHeader q) (drop (pcBufDataHeader q) (acBuf q)));
               r = MPClear q
           in case pcName of
                None \<Rightarrow> r\<lparr>iState := MPST_IGNORE\<rparr>
              | Some n \<Rightarrow> if n = ''SourceFile'' then r\<lparr>iState := MPST_BODYFILE\<rparr>
                          else r\<lparr>pcInnerPartName := Some n, iState := MPST_BODYPARAM\<rparr>
      else p\<lparr>iState := MPST_HEADER\<rparr>)"

definition body_param :: "upload_lib \<Rightarrow> mpart \<Rightarrow> mpart" where
  "body_param L p =
     (let q = MPClean p
      in case MPTestBoundary q of
           None \<Rightarrow> q
         | Some pc \<Rightarrow>
             let pc = before_crlf (acBuf q) pc
             in (MPClear (q\<lparr>acBuf := (acBuf q)[pc := 0],
                            pParamList := lib_httpSetString L (pParamList q) (pcInnerPartName q) (c_string (take pc (acBuf q))),
                            pcInnerPartName := None\<rparr>))\<lparr>iState := MPST_HEADER\<rparr>)"

definition body_file :: "mpart \<Rightarrow> usi \<Rightarrow> (mpart \<times> usi) checked" where
  "body_file p s =
     (case MPTestBoundary p of
        None \<Rightarrow> MPTestWriteFlash p s
      | Some pc \<Rightarrow> bnd (write_out (before_crlf (acBuf p) pc) p s) (\<lambda>(p', s'). Inr ((MPClear p')\<lparr>iState := MPST_HEADER\<rparr>, s')))"

definition process_char :: "upload_lib \<Rightarrow> u8 \<Rightarrow> mpart \<times> usi \<Rightarrow> (mpart \<times> usi) checked" where
  "process_char L ch st =
     (case st of (p0, s) \<Rightarrow>
      let p = MPAddChar p0 ch
      in case iState p of
           MPST_IGNORE \<Rightarrow>
             Inr (if ch = LF
                  then let q = MPClean p
                       in if MPTestBoundary q \<noteq> None then (MPClear q)\<lparr>iState := MPST_HEADER\<rparr> else q
                  else p, s)
         | MPST_HEADER \<Rightarrow>
             Inr (if ch = LF
                  then let q = MPClean p in if MPTestBoundary q = None then q\<lparr>iState := MPST_ONE_CR\<rparr> else q
                  else p, s)
         | MPST_ONE_CR \<Rightarrow> Inr (if ch = CR then p\<lparr>iState := MPST_TWO_LF\<rparr> else end_of_header L ch p, s)
         | MPST_TWO_LF \<Rightarrow> Inr (end_of_header L ch p, s)
         | MPST_TWO_CR \<Rightarrow> Inr (p, s)
         | MPST_BODYFILE \<Rightarrow> body_file p s
         | MPST_BODYPARAM \<Rightarrow> Inr (body_param L p, s))"

fun ProcessUpdate :: "upload_lib \<Rightarrow> u8 list \<Rightarrow> mpart \<times> usi \<Rightarrow> (mpart \<times> usi) checked" where
  "ProcessUpdate L [] st = Inr st"
| "ProcessUpdate L (ch # pcFillData) st = bnd (process_char L ch st) (ProcessUpdate L pcFillData)"

subsection \<open>The request\<close>

datatype upload_state = POST_INIT | POST_OK | POST_ERROR | POST_NO_MEM | POST_NO_PRIVILEGE | POST_SHARE_FLASHING
  | POST_SHARE_UPLOADING | POST_ERROR_FILE

datatype flash_update_state = FIRMWARE_STOP | FIRMWARE_UPLOADING | FIRMWARE_FLASHING

definition FIRMWARE_UPDATE_LIMIT_SIZE :: int where
  "FIRMWARE_UPDATE_LIMIT_SIZE = (1024 + 512) * 1024"

text \<open>What the server tells of a request: the caller's privilege, the content length, the boundary, and whether the heap
  has room.\<close>

record upload_request =
  up_privilege :: int
  up_ContentLength :: int
  up_boundary :: "u8 list option"
  up_memory :: bool

record upload_slot =
  piPostState :: upload_state
  ppcPostBuf :: "mpart option"

record update =
  upd_flash :: flash_config
  iFlashUpdateState :: flash_update_state

definition new_upload :: "upload_lib \<Rightarrow> u8 list \<Rightarrow> mpart" where
  "new_upload L pcBoundary =
     (let b = lib_httpMyStrncpy L pcBoundary 128
      in \<lparr>iState = MPST_IGNORE, iBoundaryLen = length b, pfFlashTmpFile = 16, pParamList = [], pcInnerPartName = None,
          pcBufDataHeader = 0, pcBufDataEnd = 0, acBoundary = b, acBuf = replicate (32 * 1024) 0\<rparr>)"

definition feed :: "upload_lib \<Rightarrow> u8 list \<Rightarrow> mpart \<Rightarrow> update \<Rightarrow> (upload_slot \<times> update) checked" where
  "feed L pcFillData p u =
     bnd (ProcessUpdate L pcFillData (p, cfg_flash (upd_flash u))) (\<lambda>(p', s).
       Inr (\<lparr>piPostState = POST_OK, ppcPostBuf = Some p'\<rparr>, u\<lparr>upd_flash := (upd_flash u)\<lparr>cfg_flash := s\<rparr>\<rparr>))"

definition start_upload :: "upload_lib \<Rightarrow> upload_request \<Rightarrow> u8 list \<Rightarrow> update \<Rightarrow> (upload_slot \<times> update) checked" where
  "start_upload L rq pcFillData u =
     (let refuse = (\<lambda>st. Inr (\<lparr>piPostState = st, ppcPostBuf = None\<rparr>, u));
          len = up_ContentLength rq + 8
      in if up_privilege rq < AUTH_ADMIN then refuse POST_NO_PRIVILEGE
         else if iFlashUpdateState u = FIRMWARE_UPLOADING then refuse POST_SHARE_UPLOADING
         else if iFlashUpdateState u = FIRMWARE_FLASHING then refuse POST_SHARE_FLASHING
         else if len < 256 \<or> len \<ge> FIRMWARE_UPDATE_LIMIT_SIZE then refuse POST_ERROR_FILE
         else case up_boundary rq of
                None \<Rightarrow> refuse POST_ERROR
              | Some b \<Rightarrow> if \<not> up_memory rq then refuse POST_NO_MEM
                          else feed L pcFillData (new_upload L b) (u\<lparr>iFlashUpdateState := FIRMWARE_UPLOADING\<rparr>))"

definition response_text :: "upload_state \<Rightarrow> string checked" where
  "response_text st =
     (case st of POST_OK \<Rightarrow> Inr ''OK'' | POST_ERROR \<Rightarrow> Inr ''Error'' | POST_NO_MEM \<Rightarrow> Inr ''Low Memory''
      | POST_SHARE_FLASHING \<Rightarrow> Inr ''Firmware Writing'' | POST_SHARE_UPLOADING \<Rightarrow> Inr ''Firmware Uploading''
      | POST_ERROR_FILE \<Rightarrow> Inr ''File Error'' | _ \<Rightarrow> Inl Uninitialised)"

definition upload_reply :: "upload_slot \<Rightarrow> response checked" where
  "upload_reply sl =
     (if piPostState sl = POST_NO_PRIVILEGE then Inr (AuthRequired AUTH_ADMIN)
      else bnd (response_text (piPostState sl)) (\<lambda>t.
        let pcUrl = (case ppcPostBuf sl of None \<Rightarrow> [] | Some p \<Rightarrow> httpGetString (pParamList p) ''RedirectUrl'')
        in if pcUrl = [] then Inr (Reply ''text/plain'' t)
           else if length (''Location: '' @ pcUrl @ ''?'' @ t) + 2 + 1 > 256 then Inl OutOfBounds
           else Inr (Redirect (pcUrl @ ''?'' @ t))))"

definition firmware_mark :: "u8 list" where
  "firmware_mark = [87, 66, 0x5A, 0xA5]"

text \<open>The mark and the length, in the byte order of the machine.\<close>

definition write_header :: "mpart \<Rightarrow> usi \<Rightarrow> usi checked" where
  "write_header p s =
     bnd (flash_write 0 (put_u32 4 (pfFlashTmpFile p) (firmware_mark @ [0, 0, 0, 0])) s) (\<lambda>s'. Inr (usiMyFlash s'))"

definition finish_upload :: "upload_slot \<Rightarrow> update \<Rightarrow> (response \<times> update) checked" where
  "finish_upload sl u =
     (let u1 = (if piPostState sl \<in> {POST_OK, POST_ERROR, POST_NO_MEM} then u\<lparr>iFlashUpdateState := FIRMWARE_STOP\<rparr> else u)
      in bnd (upload_reply sl) (\<lambda>r.
         case ppcPostBuf sl of
           None \<Rightarrow> Inr (r, u1)
         | Some p \<Rightarrow> bnd (write_header p (cfg_flash (upd_flash u1))) (\<lambda>s.
             Inr (r, u1\<lparr>upd_flash := (upd_flash u1)\<lparr>cfg_flash := s\<rparr>\<rparr>))))"

definition take_piece :: "upload_lib \<Rightarrow> upload_request \<Rightarrow> u8 list \<Rightarrow> upload_slot \<Rightarrow> update \<Rightarrow> (upload_slot \<times> update) checked" where
  "take_piece L rq pcFillData sl u =
     (case piPostState sl of
        POST_INIT \<Rightarrow> start_upload L rq pcFillData u
      | POST_OK \<Rightarrow> (case ppcPostBuf sl of None \<Rightarrow> Inl NullDeref | Some p \<Rightarrow> feed L pcFillData p u)
      | _ \<Rightarrow> Inr (sl, u))"

text \<open>One call per piece of posted data. Result 0 (no flash) ends the request; otherwise the last piece has an answer.\<close>

definition Http_Post_FMUpload ::
  "upload_lib \<Rightarrow> upload_request \<Rightarrow> u8 list \<Rightarrow> bool \<Rightarrow> upload_slot \<Rightarrow> update
     \<Rightarrow> (int \<times> response option \<times> upload_slot \<times> update) checked" where
  "Http_Post_FMUpload L rq pcFillData iIsMoreData sl u =
     (if \<not> USI_IS_READY (upd_flash u) then Inr (0, None, sl, u)
      else bnd (take_piece L rq pcFillData sl u) (\<lambda>(sl1, u1).
           if iIsMoreData then Inr (1, None, sl1, u1)
           else bnd (finish_upload sl1 u1) (\<lambda>(r, u2). Inr (1, Some r, sl1, u2))))"

definition first_slot :: upload_slot where
  "first_slot = \<lparr>piPostState = POST_INIT, ppcPostBuf = None\<rparr>"

text \<open>The server hands a request over in pieces, the last of them marked.\<close>

fun upload_pieces :: "upload_lib \<Rightarrow> upload_request \<Rightarrow> u8 list list \<Rightarrow> upload_slot \<Rightarrow> update \<Rightarrow> (response option \<times> update) checked" where
  "upload_pieces L rq [] sl u = Inr (None, u)"
| "upload_pieces L rq (d # ds) sl u =
     bnd (Http_Post_FMUpload L rq d (ds \<noteq> []) sl u) (\<lambda>(rt, r, sl', u').
       if rt = 0 \<or> ds = [] then Inr (r, u') else upload_pieces L rq ds sl' u')"

subsection \<open>Sending the firmware\<close>

text \<open>
  \<open>FillFirmwareData\<close> sends one block and registers itself for the next address, or unregisters (\<open>None\<close>).
\<close>

definition FillFirmwareData :: "flash_config \<Rightarrow> u32 \<Rightarrow> (u8 list \<times> u32) option checked" where
  "FillFirmwareData s uAddr =
     (if \<not> USI_IS_READY s then Inr None
      else case usiMyRead 4 4 (cfg_flash s) of
             None \<Rightarrow> Inl Hang
           | Some bs \<Rightarrow>
               let uLength = get_u32 0 bs
               in if uAddr \<ge> uLength then Inr None
                  else let uBlock = (if uAddr mod 128 \<noteq> 0 then 128 - uAddr mod 128 else 128);
                           uThisLength = (if uLength - uAddr \<ge> uBlock then uBlock else uLength - uAddr)
                       in case usiMyRead uAddr uThisLength (cfg_flash s) of
                            None \<Rightarrow> Inl Hang
                          | Some bytes \<Rightarrow> Inr (Some (bytes, uAddr + uThisLength)))"

text \<open>The announced \<open>Content-Length\<close> and the body.\<close>

definition Http_GetFirmware :: "flash_config \<Rightarrow> (u32 \<times> u8 list) checked option" where
  "Http_GetFirmware s =
     (let uContentLength = (if \<not> USI_IS_READY s then Inr 0
            else case usiMyRead 4 4 (cfg_flash s) of None \<Rightarrow> Inl Hang | Some bs \<Rightarrow> Inr (get_u32 0 bs))
      in map_option (\<lambda>body. bnd uContentLength (\<lambda>n. bnd body (\<lambda>bs. Inr (n, bs)))) (send_chunks (FillFirmwareData s) 16 []))"

subsection \<open>Every byte is accounted for\<close>

lemma MPAddChar_nonempty: "mp_ok p \<Longrightarrow> pcBufDataHeader (MPAddChar p ch) \<noteq> pcBufDataEnd (MPAddChar p ch)"
  using MPAddChar_len [of p ch] by (auto simp: mp_len_def mp_ok_def split: if_splits)

lemma MPAddChar_sel [simp]:
  "length (acBuf (MPAddChar p ch)) = length (acBuf p)" "iState (MPAddChar p ch) = iState p"
  "iBoundaryLen (MPAddChar p ch) = iBoundaryLen p" "pfFlashTmpFile (MPAddChar p ch) = pfFlashTmpFile p"
  "pParamList (MPAddChar p ch) = pParamList p" "acBoundary (MPAddChar p ch) = acBoundary p"
  by (simp_all add: MPAddChar_def Let_def)

lemma MPClean_sel [simp]:
  "iState (MPClean p) = iState p" "iBoundaryLen (MPClean p) = iBoundaryLen p" "pfFlashTmpFile (MPClean p) = pfFlashTmpFile p"
  "pParamList (MPClean p) = pParamList p" "acBoundary (MPClean p) = acBoundary p"
  by (simp_all add: MPClean_def Let_def)

lemma MPClear_sel [simp]:
  "iState (MPClear p) = iState p" "iBoundaryLen (MPClear p) = iBoundaryLen p" "pfFlashTmpFile (MPClear p) = pfFlashTmpFile p"
  "pParamList (MPClear p) = pParamList p" "acBoundary (MPClear p) = acBoundary p" "acBuf (MPClear p) = acBuf p"
  "pcBufDataHeader (MPClear p) = 0" "pcBufDataEnd (MPClear p) = 0"
  by (simp_all add: MPClear_def)

lemma MPClean_added:
  assumes "mp_ok p"
  shows "mp_ok (MPClean (MPAddChar p ch))" and "length (acBuf (MPClean (MPAddChar p ch))) = length (acBuf p)"
    and "mp_data (MPClean (MPAddChar p ch)) = mp_data (MPAddChar p ch)"
  using MPClean_data [OF MPAddChar_ok [OF assms] MPAddChar_nonempty [OF assms]]
    MPClean_turned(1) [OF MPAddChar_ok [OF assms] MPAddChar_nonempty [OF assms]] by simp_all

lemma MPClear_ok [simp]: "mp_ok p \<Longrightarrow> mp_ok (MPClear p)"
  by (auto simp: mp_ok_def)

lemma MPClear_data [simp]: "mp_data (MPClear p) = []"
  by (simp add: mp_data_def mp_len_def)

lemma mp_ok_iState [simp]: "mp_ok (p\<lparr>iState := st\<rparr>) = mp_ok p" "mp_ok (p\<lparr>pcInnerPartName := nm\<rparr>) = mp_ok p"
  "mp_ok (p\<lparr>pParamList := ps\<rparr>) = mp_ok p" "mp_ok (p\<lparr>pfFlashTmpFile := a\<rparr>) = mp_ok p"
  "mp_ok (p\<lparr>acBuf := (acBuf p)[i := c]\<rparr>) = mp_ok p"
  by (simp_all add: mp_ok_def)

text \<open>
  After the characters \<open>cs\<close>: the buffer holds the newest of them, and what has been written and what is waiting to be written
  is at most what has been posted.
\<close>

definition up_inv :: "u8 list \<Rightarrow> mpart \<Rightarrow> bool" where
  "up_inv cs p =
     (mp_ok p \<and> suffix (mp_data p) cs \<and> length (acBuf p) = 32768 \<and> iBoundaryLen p \<le> 127 \<and> 16 \<le> unat (pfFlashTmpFile p)
      \<and> unat (pfFlashTmpFile p) + (if iState p = MPST_BODYFILE then pcBufDataEnd p else 0) \<le> 16 + length cs
      \<and> (iState p = MPST_BODYFILE \<longrightarrow> pcBufDataHeader p = 0 \<and> pcBufDataEnd p < 32767))"

definition flash_inside :: "nat \<Rightarrow> usi \<Rightarrow> usi \<Rightarrow> bool" where
  "flash_inside n s s' =
     (usi_inv s' \<and> g_uTotalSize s' = g_uTotalSize s \<and> (\<forall>x. x < 16 \<or> 16 + n \<le> x \<longrightarrow> usi_view s' x = usi_view s x))"

lemma flash_inside_refl [simp]: "flash_inside n s s = usi_inv s"
  by (simp add: flash_inside_def)

lemma flash_inside_trans: "flash_inside m s t \<Longrightarrow> flash_inside n t u \<Longrightarrow> m \<le> n \<Longrightarrow> flash_inside n s u"
  by (auto simp: flash_inside_def)

lemma flash_write_ok:
  assumes "usi_inv s" and "unat addr + length bs \<le> 2 ^ 24"
  shows "\<exists>s'. flash_write addr bs s = Inr s' \<and> usi_inv s' \<and> g_uTotalSize s' = g_uTotalSize s
    \<and> usi_view s' = overlay (unat addr) bs (usi_view s)"
proof -
  have l: "unat (of_nat (length bs) :: u32) = length bs" using assms(2) by (simp add: unat_of_nat)
  from flash.write_view [of s addr "of_nat (length bs)" bs] assms obtain s' where
    "usiMyWrite addr (of_nat (length bs)) bs s = Some s'" "usi_inv s'" "usi_view s' = overlay (unat addr) bs (usi_view s)"
    unfolding l by blast
  then show ?thesis using usiMyWrite_total by (auto simp: flash_write_def)
qed

lemma write_out_ok:
  assumes "usi_inv s" and "unat (pfFlashTmpFile p) + n \<le> 2 ^ 24" and "n \<le> length (acBuf p)"
  shows "\<exists>s'. write_out n p s = Inr (p\<lparr>pfFlashTmpFile := pfFlashTmpFile p + of_nat n\<rparr>, s') \<and> usi_inv s'
    \<and> g_uTotalSize s' = g_uTotalSize s
    \<and> usi_view s' = overlay (unat (pfFlashTmpFile p)) (take n (acBuf p)) (usi_view s)
    \<and> unat (pfFlashTmpFile p + of_nat n) = unat (pfFlashTmpFile p) + n"
proof -
  from flash_write_ok [OF assms(1), of "pfFlashTmpFile p" "take n (acBuf p)"] assms obtain s' where
    s': "flash_write (pfFlashTmpFile p) (take n (acBuf p)) s = Inr s'" "usi_inv s'" "g_uTotalSize s' = g_uTotalSize s"
    "usi_view s' = overlay (unat (pfFlashTmpFile p)) (take n (acBuf p)) (usi_view s)" by (auto simp: min_absorb2)
  have "unat (of_nat n :: u32) = n" using assms(2) by (simp add: unat_of_nat)
  then have "unat (pfFlashTmpFile p + of_nat n) = unat (pfFlashTmpFile p) + n"
    using assms(2) by (subst unat_plus_no_wrap) simp_all
  with s' show ?thesis by (simp add: write_out_def)
qed

lemma boundary_pos: "MPTestBoundary p = Some pc \<Longrightarrow> pc + iBoundaryLen p + 3 \<le> pcBufDataEnd p"
  by (auto simp: MPTestBoundary_def boundary_at_def Let_def split: if_splits)

lemma before_crlf_le: "before_crlf b pc \<le> pc"
  by (simp add: before_crlf_def)

text \<open>A part that is collected, whatever its state is set to next, unless it begins or continues the file.\<close>

lemma up_inv_next:
  assumes "up_inv cs p" and "iState p \<noteq> MPST_BODYFILE" and "mp_ok q" and "length (acBuf q) = 32768"
    and "iBoundaryLen q = iBoundaryLen p" and "pfFlashTmpFile q = pfFlashTmpFile p" and "suffix (mp_data q) (cs @ [ch])"
    and "iState q \<noteq> MPST_BODYFILE \<or> pcBufDataHeader q = 0 \<and> pcBufDataEnd q = 0"
  shows "up_inv (cs @ [ch]) q"
  using assms by (auto simp: up_inv_def)

lemma MPAddChar_suffix:
  assumes "mp_ok p" and "suffix (mp_data p) cs"
  shows "suffix (mp_data (MPAddChar p ch)) (cs @ [ch])"
proof -
  have "suffix (tl (mp_data p)) cs" using assms(2) by (meson suffix_order.trans suffix_tl)
  then show ?thesis using assms by (simp add: MPAddChar_data)
qed

lemma mp_data_sel [simp]: "mp_data (p\<lparr>iState := st\<rparr>) = mp_data p" "mp_data (p\<lparr>pcInnerPartName := nm\<rparr>) = mp_data p"
  by (simp_all add: mp_data_def mp_len_def)

lemma end_of_header_inv:
  assumes "up_inv cs p" and "iState p \<noteq> MPST_BODYFILE"
  shows "up_inv (cs @ [ch]) (end_of_header L ch (MPAddChar p ch))"
proof -
  have ok: "mp_ok p" "suffix (mp_data p) cs" "length (acBuf p) = 32768" using assms(1) by (simp_all add: up_inv_def)
  note c = MPClean_added [OF ok(1), of ch] MPAddChar_suffix [OF ok(1,2), of ch] MPAddChar_ok [OF ok(1), of ch]
  show ?thesis
    using ok c assms(2) by (intro up_inv_next [OF assms]) (auto simp: end_of_header_def Let_def split: option.splits)
qed

lemma body_param_inv:
  assumes "up_inv cs p" and "iState p = MPST_BODYPARAM"
  shows "up_inv (cs @ [ch]) (body_param L (MPAddChar p ch))"
proof -
  have ok: "mp_ok p" "suffix (mp_data p) cs" "length (acBuf p) = 32768" using assms(1) by (simp_all add: up_inv_def)
  note c = MPClean_added [OF ok(1), of ch] MPAddChar_suffix [OF ok(1,2), of ch]
  have "iState p \<noteq> MPST_BODYFILE" using assms(2) by simp
  from up_inv_next [OF assms(1) this] show ?thesis
    using ok c assms(2) by (auto simp: body_param_def Let_def split: option.split intro!: up_inv_next [OF assms(1)])
qed

text \<open>How many bytes a full buffer gives away.\<close>

definition flush_len :: "nat \<Rightarrow> nat" where
  "flush_len l = (32767 - l - 2) div 4 * 4"

lemma flush_len_bounds: "l \<le> 127 \<Longrightarrow> 0 < flush_len l \<and> flush_len l + l + 2 \<le> 32767 \<and> 32767 \<le> flush_len l + l + 5"
  unfolding flush_len_def by linarith

lemma mp_data_plain: "pcBufDataHeader p = 0 \<Longrightarrow> pcBufDataEnd p < length (acBuf p) \<Longrightarrow> mp_data p = take (pcBufDataEnd p) (acBuf p)"
  by (intro nth_equalityI) (simp_all add: mp_data_def mp_len_def)

lemma MPTestWriteFlash_flush:
  assumes "mp_ok p" and "length (acBuf p) = 32768" and "pcBufDataHeader p = 0" and "pcBufDataEnd p = 32767"
    and "iBoundaryLen p \<le> 127" and "usi_inv s" and "unat (pfFlashTmpFile p) + flush_len (iBoundaryLen p) \<le> 2 ^ 24"
  shows "\<exists>p' s'. MPTestWriteFlash p s = Inr (p', s') \<and> usi_inv s' \<and> g_uTotalSize s' = g_uTotalSize s
    \<and> usi_view s' = overlay (unat (pfFlashTmpFile p)) (take (flush_len (iBoundaryLen p)) (acBuf p)) (usi_view s)
    \<and> unat (pfFlashTmpFile p') = unat (pfFlashTmpFile p) + flush_len (iBoundaryLen p)
    \<and> mp_ok p' \<and> length (acBuf p') = 32768 \<and> pcBufDataHeader p' = 0 \<and> pcBufDataEnd p' = 32767 - flush_len (iBoundaryLen p)
    \<and> mp_data p' = drop (flush_len (iBoundaryLen p)) (mp_data p)
    \<and> iState p' = iState p \<and> iBoundaryLen p' = iBoundaryLen p \<and> acBoundary p' = acBoundary p \<and> pParamList p' = pParamList p"
proof -
  let ?k = "flush_len (iBoundaryLen p)"
  note k = flush_len_bounds [OF assms(5)]
  from write_out_ok [OF assms(6,7)] k assms(2) obtain s' where
    w: "write_out ?k p s = Inr (p\<lparr>pfFlashTmpFile := pfFlashTmpFile p + of_nat ?k\<rparr>, s')" "usi_inv s'" "g_uTotalSize s' = g_uTotalSize s"
    "usi_view s' = overlay (unat (pfFlashTmpFile p)) (take ?k (acBuf p)) (usi_view s)"
    "unat (pfFlashTmpFile p + of_nat ?k) = unat (pfFlashTmpFile p) + ?k" by auto
  let ?q = "p\<lparr>pfFlashTmpFile := pfFlashTmpFile p + of_nat ?k, pcBufDataHeader := ?k\<rparr>"
  have q: "mp_ok ?q" "pcBufDataHeader ?q \<noteq> pcBufDataEnd ?q" using assms(1,2,4) k by (auto simp: mp_ok_def)
  have l: "mp_len ?q = 32767 - ?k" using assms(4) k by (simp add: mp_len_def)
  have "mp_data ?q = drop ?k (mp_data p)"
    using assms(2-4) k by (intro nth_equalityI) (simp_all add: nth_mp_data l, simp_all add: mp_data_plain mp_len_def)
  moreover have "MPTestWriteFlash p s = Inr (MPClean ?q, s')"
    using assms(2-4) w(1) by (simp add: MPTestWriteFlash_def pcBufEnd_def flush_len_def Let_def)
  ultimately show ?thesis
    using w MPClean_data(1,3) [OF q] MPClean_turned [OF q] assms(2) l by auto
qed

lemma MPAddChar_plain:
  assumes "pcBufDataHeader p = 0" and "pcBufDataEnd p + 1 < length (acBuf p)"
  shows "pcBufDataHeader (MPAddChar p ch) = 0" and "pcBufDataEnd (MPAddChar p ch) = pcBufDataEnd p + 1"
    and "acBuf (MPAddChar p ch) = (acBuf p)[pcBufDataEnd p := ch]"
  using assms by (simp_all add: MPAddChar_def pcBufEnd_def Let_def)

lemma flash_inside_overlay:
  assumes "usi_inv s'" and "g_uTotalSize s' = g_uTotalSize s" and "usi_view s' = overlay a bs (usi_view s)"
    and "16 \<le> a" and "a + length bs \<le> 16 + n"
  shows "flash_inside n s s'"
  using assms by (auto simp: flash_inside_def overlay_def)

lemma body_file_inv:
  assumes "up_inv cs p" and "iState p = MPST_BODYFILE" and "usi_inv s" and "17 + length cs \<le> 2 ^ 24"
  shows "\<exists>p' s'. body_file (MPAddChar p ch) s = Inr (p', s') \<and> up_inv (cs @ [ch]) p' \<and> flash_inside (Suc (length cs)) s s'"
proof -
  let ?p = "MPAddChar p ch"
  from assms(1,2) have u: "mp_ok p" "suffix (mp_data p) cs" "length (acBuf p) = 32768" "iBoundaryLen p \<le> 127"
    "16 \<le> unat (pfFlashTmpFile p)" "unat (pfFlashTmpFile p) + pcBufDataEnd p \<le> 16 + length cs"
    "pcBufDataHeader p = 0" "pcBufDataEnd p < 32767" by (simp_all add: up_inv_def)
  have e: "pcBufDataHeader ?p = 0" "pcBufDataEnd ?p = pcBufDataEnd p + 1" using MPAddChar_plain [of p ch] u by simp_all
  note ok = MPAddChar_ok [OF u(1), of ch] MPAddChar_suffix [OF u(1,2), of ch]
  show ?thesis
  proof (cases "MPTestBoundary ?p")
    case (Some pc)
    let ?n = "before_crlf (acBuf ?p) pc"
    have n: "?n + 3 \<le> pcBufDataEnd p + 1" using boundary_pos [OF Some] before_crlf_le [of "acBuf ?p" pc] e(2) by simp
    with write_out_ok [OF assms(3), of ?p ?n] u assms(4) obtain s' where
      w: "write_out ?n ?p s = Inr (?p\<lparr>pfFlashTmpFile := pfFlashTmpFile ?p + of_nat ?n\<rparr>, s')" "usi_inv s'"
      "g_uTotalSize s' = g_uTotalSize s" "usi_view s' = overlay (unat (pfFlashTmpFile p)) (take ?n (acBuf ?p)) (usi_view s)"
      "unat (pfFlashTmpFile p + of_nat ?n) = unat (pfFlashTmpFile p) + ?n" by auto
    let ?q = "(MPClear (?p\<lparr>pfFlashTmpFile := pfFlashTmpFile ?p + of_nat ?n\<rparr>))\<lparr>iState := MPST_HEADER\<rparr>"
    have "body_file ?p s = Inr (?q, s')" using Some w(1) by (simp add: body_file_def Let_def)
    moreover have "up_inv (cs @ [ch]) ?q" using u n ok w(5) by (simp add: up_inv_def)
    moreover have "flash_inside (Suc (length cs)) s s'"
      using flash_inside_overlay [OF w(2-4)] u n by simp
    ultimately show ?thesis by blast
  next
    case None
    show ?thesis
    proof (cases "pcBufDataEnd ?p = 32767")
      case True
      note k = flush_len_bounds [OF u(4)]
      have "unat (pfFlashTmpFile ?p) + flush_len (iBoundaryLen ?p) \<le> 2 ^ 24" using u(6) assms(4) k True e(2) by simp
      from MPTestWriteFlash_flush [OF ok(1) _ e(1) True _ assms(3) this] u obtain p' s' where
        w: "MPTestWriteFlash ?p s = Inr (p', s')" "usi_inv s'" "g_uTotalSize s' = g_uTotalSize s"
        "usi_view s' = overlay (unat (pfFlashTmpFile p)) (take (flush_len (iBoundaryLen p)) (acBuf ?p)) (usi_view s)"
        "unat (pfFlashTmpFile p') = unat (pfFlashTmpFile p) + flush_len (iBoundaryLen p)"
        "mp_ok p'" "length (acBuf p') = 32768" "pcBufDataHeader p' = 0" "pcBufDataEnd p' = 32767 - flush_len (iBoundaryLen p)"
        "mp_data p' = drop (flush_len (iBoundaryLen p)) (mp_data ?p)"
        "iState p' = iState p" "iBoundaryLen p' = iBoundaryLen p" by auto
      have "suffix (mp_data p') (cs @ [ch])" unfolding w(10) using ok(2) suffix_drop suffix_order.trans by blast
      then have "up_inv (cs @ [ch]) p'" using w u True e(2) k by (auto simp: up_inv_def)
      moreover have "flash_inside (Suc (length cs)) s s'"
        using flash_inside_overlay [OF w(2-4)] u k True e(2) by simp
      ultimately show ?thesis using w(1) None by (simp add: body_file_def)
    next
      case False
      then have "body_file ?p s = Inr (?p, s)" using None u by (simp add: body_file_def MPTestWriteFlash_def pcBufEnd_def)
      moreover have "up_inv (cs @ [ch]) ?p" using u ok e False by (simp add: up_inv_def)
      ultimately show ?thesis using assms(3) by simp
    qed
  qed
qed

lemma process_char_inv:
  assumes "up_inv cs p" and "usi_inv s" and "17 + length cs \<le> 2 ^ 24"
  shows "\<exists>p' s'. process_char L ch (p, s) = Inr (p', s') \<and> up_inv (cs @ [ch]) p' \<and> flash_inside (Suc (length cs)) s s'"
proof (cases "iState p = MPST_BODYFILE")
  case True
  with body_file_inv [OF assms(1) True assms(2,3)] show ?thesis by (simp add: process_char_def)
next
  case False
  have ok: "mp_ok p" "suffix (mp_data p) cs" "length (acBuf p) = 32768" using assms(1) by (simp_all add: up_inv_def)
  note c = MPClean_added [OF ok(1), of ch] MPAddChar_suffix [OF ok(1,2), of ch] MPAddChar_ok [OF ok(1), of ch]
  have "\<exists>q. process_char L ch (p, s) = Inr (q, s) \<and> up_inv (cs @ [ch]) q"
    using False ok c end_of_header_inv [OF assms(1) False, of ch L] body_param_inv [OF assms(1), of ch L]
    by (cases "iState p") (auto simp: process_char_def Let_def intro!: up_inv_next [OF assms(1)])
  then show ?thesis using assms(2) by auto
qed

lemma ProcessUpdate_inv:
  assumes "up_inv cs p" and "usi_inv s" and "16 + length cs + length ds \<le> 2 ^ 24"
  shows "\<exists>p' s'. ProcessUpdate L ds (p, s) = Inr (p', s') \<and> up_inv (cs @ ds) p' \<and> flash_inside (length cs + length ds) s s'"
  using assms
proof (induction ds arbitrary: cs p s)
  case Nil
  then show ?case by simp
next
  case (Cons ch ds)
  then obtain p1 s1 where 1: "process_char L ch (p, s) = Inr (p1, s1)" "up_inv (cs @ [ch]) p1" "flash_inside (Suc (length cs)) s s1"
    using process_char_inv [of cs p s L ch] by auto
  then have "usi_inv s1" by (simp add: flash_inside_def)
  with Cons.IH [OF 1(2)] Cons.prems(3) have "\<exists>p2 s2. ProcessUpdate L ds (p1, s1) = Inr (p2, s2) \<and> up_inv ((cs @ [ch]) @ ds) p2
      \<and> flash_inside (length (cs @ [ch]) + length ds) s1 s2" by simp
  then obtain p2 s2 where 2: "ProcessUpdate L ds (p1, s1) = Inr (p2, s2)" "up_inv ((cs @ [ch]) @ ds) p2"
    "flash_inside (length (cs @ [ch]) + length ds) s1 s2" by blast
  from flash_inside_trans [OF 1(3) 2(3)] 1(1) 2(1,2) show ?case by simp
qed

subsection \<open>The pieces of a request\<close>

lemma bnd_assoc: "bnd (bnd r f) g = bnd r (\<lambda>x. bnd (f x) g)"
  by (cases r) simp_all

lemma bnd_cong: "(\<And>x. f x = g x) \<Longrightarrow> bnd r f = bnd r g"
  by (cases r) simp_all

lemma ProcessUpdate_append: "ProcessUpdate L (a @ b) st = bnd (ProcessUpdate L a st) (ProcessUpdate L b)"
  by (induction a arbitrary: st) (auto simp: bnd_assoc intro!: bnd_cong)

lemma run_then: "ProcessUpdate L a st = Inr st' \<Longrightarrow> ProcessUpdate L (a @ b) st = ProcessUpdate L b st'"
  by (simp add: ProcessUpdate_append)

lemma run_one: "process_char L c st = Inr st' \<Longrightarrow> ProcessUpdate L (c # cs) st = ProcessUpdate L cs st'"
  by simp

lemma feed_append:
  "feed L (a @ b) p u = bnd (feed L a p u) (\<lambda>(sl, u'). take_piece L rq b sl u')"
  by (cases "ProcessUpdate L a (p, cfg_flash (upd_flash u))")
    (auto simp: feed_def ProcessUpdate_append take_piece_def)

lemma take_piece_append:
  "take_piece L rq (a @ b) sl u = bnd (take_piece L rq a sl u) (\<lambda>(sl', u'). take_piece L rq b sl' u')"
proof (cases "piPostState sl")
  case POST_INIT
  have "start_upload L rq (a @ b) u = bnd (start_upload L rq a u) (\<lambda>(sl', u'). take_piece L rq b sl' u')"
    by (auto simp: start_upload_def Let_def feed_append [of L a b _ _ rq] take_piece_def split: option.split)
  then show ?thesis using POST_INIT by (simp add: take_piece_def [of L rq _ sl])
next
  case POST_OK
  then show ?thesis
    by (cases "ppcPostBuf sl") (simp_all add: take_piece_def [of L rq _ sl] feed_append [of L a b _ _ rq])
qed (simp_all add: take_piece_def)

lemma feed_ready: "feed L d p u = Inr (sl, u') \<Longrightarrow> USI_IS_READY (upd_flash u') = USI_IS_READY (upd_flash u)"
  by (auto simp: feed_def bnd_Inr)

lemma take_piece_ready:
  "take_piece L rq d sl u = Inr (sl', u') \<Longrightarrow> USI_IS_READY (upd_flash u') = USI_IS_READY (upd_flash u)"
  by (auto simp: take_piece_def start_upload_def Let_def dest: feed_ready split: upload_state.splits option.splits if_splits)

text \<open>How the server cuts the data makes no difference.\<close>

lemma pieces_whole:
  assumes "ds \<noteq> []" and "USI_IS_READY (upd_flash u)"
  shows "upload_pieces L rq ds sl u =
    bnd (take_piece L rq (concat ds) sl u) (\<lambda>(sl1, u1). bnd (finish_upload sl1 u1) (\<lambda>(r, u2). Inr (Some r, u2)))"
  using assms
proof (induction ds arbitrary: sl u)
  case (Cons d ds)
  show ?case
  proof (cases ds)
    case Nil
    then show ?thesis
      using Cons.prems by (simp add: Http_Post_FMUpload_def bnd_assoc case_prod_unfold cong: if_cong)
  next
    case c: (Cons d' ds')
    have "upload_pieces L rq (d # ds) sl u = bnd (take_piece L rq d sl u) (\<lambda>(sl1, u1). upload_pieces L rq ds sl1 u1)"
      using Cons.prems c by (simp add: Http_Post_FMUpload_def bnd_assoc case_prod_unfold del: upload_pieces.simps(2) add: upload_pieces.simps(2) [of L rq d])
    also have "\<dots> = bnd (take_piece L rq d sl u) (\<lambda>(sl1, u1).
        bnd (take_piece L rq (concat ds) sl1 u1) (\<lambda>(sl1, u1). bnd (finish_upload sl1 u1) (\<lambda>(r, u2). Inr (Some r, u2))))"
      using Cons.IH c Cons.prems take_piece_ready [of L rq d sl u] by (cases "take_piece L rq d sl u") auto
    finally show ?thesis by (simp add: take_piece_append bnd_assoc case_prod_unfold)
  qed
qed simp

subsection \<open>What an upload can touch\<close>

definition header_bytes :: "u32 \<Rightarrow> u8 list" where
  "header_bytes n = put_u32 4 n (firmware_mark @ [0, 0, 0, 0])"

lemma length_header [simp]: "length (header_bytes n) = 8"
  by (simp add: header_bytes_def firmware_mark_def)

lemma write_header_ok:
  assumes "usi_inv s"
  shows "\<exists>s'. write_header p s = Inr s' \<and> usi_inv s' \<and> g_uTotalSize s' = g_uTotalSize s
    \<and> usi_view s' = overlay 0 (header_bytes (pfFlashTmpFile p)) (usi_view s) \<and> usi_view (usi_power_cycle s') = usi_view s'"
proof -
  from flash_write_ok [OF assms, of 0 "header_bytes (pfFlashTmpFile p)"] obtain t where
    t: "flash_write 0 (header_bytes (pfFlashTmpFile p)) s = Inr t" "usi_inv t" "g_uTotalSize t = g_uTotalSize s"
    "usi_view t = overlay 0 (header_bytes (pfFlashTmpFile p)) (usi_view s)" by auto
  then show ?thesis
    using usiMyFlash_simps [OF t(2)] flash.durable [OF t(2)] by (simp add: write_header_def header_bytes_def [symmetric])
qed

lemma new_upload_inv:
  assumes "length (lib_httpMyStrncpy L b 128) < 128"
  shows "up_inv [] (new_upload L b)"
  using assms by (simp add: up_inv_def new_upload_def mp_ok_def mp_data_def mp_len_def Let_def)

lemma feed_inv:
  assumes "up_inv cs p" and "usi_inv (cfg_flash (upd_flash u))" and "16 + length cs + length ds \<le> 2 ^ 24"
  shows "\<exists>p' s'. feed L ds p u = Inr (\<lparr>piPostState = POST_OK, ppcPostBuf = Some p'\<rparr>, u\<lparr>upd_flash := (upd_flash u)\<lparr>cfg_flash := s'\<rparr>\<rparr>)
    \<and> ProcessUpdate L ds (p, cfg_flash (upd_flash u)) = Inr (p', s') \<and> up_inv (cs @ ds) p'
    \<and> flash_inside (length cs + length ds) (cfg_flash (upd_flash u)) s'"
  using ProcessUpdate_inv [OF assms, of L] by (elim exE conjE) (simp add: feed_def)

lemma start_cases:
  "(\<exists>st. start_upload L rq d u = Inr (\<lparr>piPostState = st, ppcPostBuf = None\<rparr>, u) \<and> st \<notin> {POST_INIT, POST_OK})
   \<or> (\<exists>b. up_boundary rq = Some b \<and> up_ContentLength rq + 8 < FIRMWARE_UPDATE_LIMIT_SIZE
        \<and> start_upload L rq d u = feed L d (new_upload L b) (u\<lparr>iFlashUpdateState := FIRMWARE_UPLOADING\<rparr>))"
  by (cases "up_boundary rq") (simp_all add: start_upload_def Let_def)

text \<open>What an accepted request may write ends below the configuration on the chips of 2 MB and more.\<close>

definition large_chip :: "board \<Rightarrow> bool" where
  "large_chip B = (chip_id B = 0xef14 \<or> chip_id B = 0xef15)"

lemma limit_below_areas:
  assumes "board_ok B" and "large_chip B"
  shows "nat FIRMWARE_UPDATE_LIMIT_SIZE + 8 \<le> area_base B a" and "area_base B a \<le> 2 ^ 24"
proof -
  have "area_base B Main \<le> area_base B a" by (cases a) (simp_all add: area_base_def)
  moreover have "2097152 \<le> chip_size B" using assms(2) by (auto simp: large_chip_def chip_size_def usiInitDevice_def)
  ultimately show "nat FIRMWARE_UPDATE_LIMIT_SIZE + 8 \<le> area_base B a"
    using area_bounds(2) [OF assms(1)] by (simp add: area_base_def FIRMWARE_UPDATE_LIMIT_SIZE_def)
  show "area_base B a \<le> 2 ^ 24" using area_fits(1) [OF assms(1), of a] by simp
qed

text \<open>The data of a request is turned away, or all of it goes through the parser.\<close>

lemma data_taken:
  assumes "board_ok B" and "large_chip B" and "cfg_inv B (upd_flash u)" and "\<forall>b. length (lib_httpMyStrncpy L b 128) < 128"
    and "int (length d) \<le> up_ContentLength rq"
  shows "\<exists>sl u'. start_upload L rq d u = Inr (sl, u') \<and> cfg_inv B (upd_flash u')
    \<and> (\<forall>a x. area_base B a \<le> x \<longrightarrow> usi_view (cfg_flash (upd_flash u')) x = usi_view (cfg_flash (upd_flash u)) x)
    \<and> (piPostState sl \<notin> {POST_INIT, POST_OK} \<and> ppcPostBuf sl = None \<or> piPostState sl = POST_OK \<and> ppcPostBuf sl \<noteq> None)"
proof -
  consider (refused) st where "start_upload L rq d u = Inr (\<lparr>piPostState = st, ppcPostBuf = None\<rparr>, u)" "st \<notin> {POST_INIT, POST_OK}"
    | (fed) b where "up_ContentLength rq + 8 < FIRMWARE_UPDATE_LIMIT_SIZE"
        "start_upload L rq d u = feed L d (new_upload L b) (u\<lparr>iFlashUpdateState := FIRMWARE_UPLOADING\<rparr>)"
    using start_cases [of L rq d u] by blast
  then show ?thesis
  proof cases
    case refused
    then show ?thesis using assms(3) by simp
  next
    case (fed b)
    let ?u = "u\<lparr>iFlashUpdateState := FIRMWARE_UPLOADING\<rparr>"
    have inv: "usi_inv (cfg_flash (upd_flash ?u))" using assms(3) by (simp add: cfg_inv_def)
    have small: "16 + length d \<le> nat FIRMWARE_UPDATE_LIMIT_SIZE + 8" using fed(1) assms(5) by linarith
    have below: "16 + length d \<le> area_base B a" for a using small limit_below_areas(1) [OF assms(1,2), of a] by linarith
    have "16 + length ([] :: u8 list) + length d \<le> 2 ^ 24"
      using below [of Main] limit_below_areas(2) [OF assms(1,2), of Main] by simp
    from feed_inv [OF new_upload_inv inv this, of L b L] assms(4) obtain p s where
      p: "feed L d (new_upload L b) ?u = Inr (\<lparr>piPostState = POST_OK, ppcPostBuf = Some p\<rparr>, ?u\<lparr>upd_flash := (upd_flash u)\<lparr>cfg_flash := s\<rparr>\<rparr>)"
      "flash_inside (length d) (cfg_flash (upd_flash u)) s" by auto
    have "usi_view s x = usi_view (cfg_flash (upd_flash u)) x" if "area_base B a \<le> x" for a x
      using p(2) below [of a] that by (auto simp: flash_inside_def)
    moreover have "cfg_inv B ((upd_flash u)\<lparr>cfg_flash := s\<rparr>)" using p(2) assms(3) by (simp add: cfg_inv_def flash_inside_def)
    ultimately show ?thesis using fed(2) p(1) by simp
  qed
qed

lemma reply_too_long:
  assumes "upload_reply sl = Inl e" and "piPostState sl = POST_OK"
  shows "e = OutOfBounds \<and> (\<exists>p. ppcPostBuf sl = Some p \<and> 240 < length (httpGetString (pParamList p) ''RedirectUrl''))"
  using assms by (cases "ppcPostBuf sl") (auto simp: upload_reply_def response_text_def Let_def split: if_splits)

text \<open>
  C5. Whatever an administrator (or anyone else) posts as a firmware update, in whatever pieces, both configuration areas keep every byte,
  on the chips of 2 MB and more: what the server hands over is at most the content length it has announced, and the limit of the
  code for that length keeps the data below the configuration. The one thing that can go wrong is a redirect target of more than 240
  characters in the form, which overflows its buffer when the answer is made; all the data has been taken then, and the areas are as
  they were.
\<close>

theorem upload_keeps_configuration:
  assumes "board_ok B" and "large_chip B" and "cfg_inv B (upd_flash u)" and "\<forall>b. length (lib_httpMyStrncpy L b 128) < 128"
    and "int (length (concat ds)) \<le> up_ContentLength rq"
  shows "case upload_pieces L rq ds first_slot u of
      Inl e \<Rightarrow> e = OutOfBounds \<and> (\<exists>sl u' p. take_piece L rq (concat ds) first_slot u = Inr (sl, u') \<and> upload_reply sl = Inl e
          \<and> ppcPostBuf sl = Some p \<and> 240 < length (httpGetString (pParamList p) ''RedirectUrl'')
          \<and> cfg_inv B (upd_flash u') \<and> (\<forall>a. stored B a (upd_flash u') = stored B a (upd_flash u)))
    | Inr (r, u') \<Rightarrow> cfg_inv B (upd_flash u') \<and> (\<forall>a. stored B a (upd_flash u') = stored B a (upd_flash u))"
proof (cases "ds \<noteq> [] \<and> USI_IS_READY (upd_flash u)")
  case False
  then show ?thesis using assms(3) by (cases ds) (auto simp: Http_Post_FMUpload_def)
next
  case True
  obtain sl u1 where u1: "start_upload L rq (concat ds) u = Inr (sl, u1)" "cfg_inv B (upd_flash u1)"
    "\<forall>a x. area_base B a \<le> x \<longrightarrow> usi_view (cfg_flash (upd_flash u1)) x = usi_view (cfg_flash (upd_flash u)) x"
    and sl: "piPostState sl \<notin> {POST_INIT, POST_OK} \<and> ppcPostBuf sl = None \<or> piPostState sl = POST_OK \<and> ppcPostBuf sl \<noteq> None"
    using data_taken [OF assms] by blast
  have t: "take_piece L rq (concat ds) first_slot u = Inr (sl, u1)" using u1(1) by (simp add: first_slot_def take_piece_def)
  have same1: "stored B a (upd_flash u1) = stored B a (upd_flash u)" for a using u1(3) by (auto simp: stored_def)
  have run: "upload_pieces L rq ds first_slot u = bnd (finish_upload sl u1) (\<lambda>(r, u2). Inr (Some r, u2))"
    using pieces_whole [of ds u L rq first_slot] True t by simp
  show ?thesis
  proof (cases "upload_reply sl")
    case (Inl e)
    then have "piPostState sl = POST_OK" using sl by (cases "piPostState sl") (auto simp: upload_reply_def response_text_def Let_def)
    from reply_too_long [OF Inl this] obtain p where
      p: "e = OutOfBounds" "ppcPostBuf sl = Some p" "240 < length (httpGetString (pParamList p) ''RedirectUrl'')" by blast
    have "upload_pieces L rq ds first_slot u = Inl e" using Inl by (simp add: run finish_upload_def)
    then show ?thesis using t Inl p u1(2) same1 by simp
  next
    case (Inr r)
    show ?thesis
    proof (cases "ppcPostBuf sl")
      case None
      then show ?thesis using Inr u1(2) same1 by (simp add: run finish_upload_def Let_def)
    next
      case (Some p)
      have "usi_inv (cfg_flash (upd_flash u1))" using u1(2) by (simp add: cfg_inv_def)
      from write_header_ok [OF this, of p] obtain s' where s': "write_header p (cfg_flash (upd_flash u1)) = Inr s'" "usi_inv s'"
        "g_uTotalSize s' = g_uTotalSize (cfg_flash (upd_flash u1))"
        "usi_view s' = overlay 0 (header_bytes (pfFlashTmpFile p)) (usi_view (cfg_flash (upd_flash u1)))" by blast
      have "8 \<le> area_base B a" for a using limit_below_areas(1) [OF assms(1,2), of a] by simp
      then have "usi_view s' x = usi_view (cfg_flash (upd_flash u1)) x" if "area_base B a \<le> x" for a x
        using that order.trans [of 8 "area_base B a" x] by (simp add: s'(4) overlay_def)
      then have "stored B a ((upd_flash u1)\<lparr>cfg_flash := s'\<rparr>) = stored B a (upd_flash u)" for a
        unfolding same1 [symmetric] by (auto simp: stored_def)
      moreover have "cfg_inv B ((upd_flash u1)\<lparr>cfg_flash := s'\<rparr>)" using s' u1(2) by (simp add: cfg_inv_def)
      ultimately show ?thesis using Inr Some s'(1) by (simp add: run finish_upload_def Let_def)
    qed
  qed
qed

subsection \<open>Following the automaton through a form\<close>

text \<open>The buffer holds exactly \<open>D\<close>, from its start.\<close>

definition reading :: "mpart \<Rightarrow> mp_state \<Rightarrow> u8 list \<Rightarrow> u8 list \<Rightarrow> nat \<Rightarrow> bool" where
  "reading p st D b w =
     (length (acBuf p) = 32768 \<and> length D < 32768 \<and> pcBufDataHeader p = 0 \<and> pcBufDataEnd p = length D
      \<and> take (length D) (acBuf p) = D \<and> iState p = st \<and> iBoundaryLen p = length b \<and> acBoundary p = b
      \<and> pParamList p = [] \<and> unat (pfFlashTmpFile p) = 16 + w)"

lemma reading_ok: "reading p st D b w \<Longrightarrow> mp_ok p"
  by (auto simp: reading_def mp_ok_def)

lemma reading_add:
  assumes "reading p st D b w" and "length D < 32767"
  shows "reading (MPAddChar p ch) st (D @ [ch]) b w"
  using assms MPAddChar_plain [of p ch] by (auto simp: reading_def take_Suc_conv_app_nth)

lemma MPClean_plain: "pcBufDataHeader p = 0 \<Longrightarrow> acBuf p \<noteq> [] \<Longrightarrow> MPClean p = p"
  by (simp add: MPClean_def)

lemma reading_data: "reading p st D b w \<Longrightarrow> mp_data p = D"
  by (simp add: reading_def mp_data_plain)

lemma reading_clean: "reading p st D b w \<Longrightarrow> MPClean p = p"
  by (rule MPClean_plain) (auto simp: reading_def)

lemma reading_clear: "reading p st D b w \<Longrightarrow> reading ((MPClear p)\<lparr>iState := st'\<rparr>) st' [] b w"
  by (simp add: reading_def)

lemma reading_state: "reading p st D b w \<Longrightarrow> reading (p\<lparr>iState := st'\<rparr>) st' D b w"
  by (simp add: reading_def)

lemma reading_buf:
  assumes "reading p st D b w"
  shows "\<exists>R. acBuf p = D @ R"
  using assms append_take_drop_id [of "length D" "acBuf p"] unfolding reading_def by metis

definition marker :: "u8 list \<Rightarrow> u8 list" where
  "marker b = DASH # DASH # b"

lemma length_marker [simp]: "length (marker b) = length b + 2"
  by (simp add: marker_def)

definition boundary_ok :: "u8 list \<Rightarrow> bool" where
  "boundary_ok b = (length b < 128 \<and> CR \<notin> set b \<and> LF \<notin> set b)"

lemma boundary_found:
  assumes "reading p st (E @ marker b @ t) b w" and "boundary_ok b" and "t \<in> {[DASH], [LF], [CR, LF]}"
  shows "MPTestBoundary p = Some (length E)"
proof -
  obtain R where R: "acBuf p = (E @ marker b @ t) @ R" using reading_buf [OF assms(1)] ..
  have r: "pcBufDataEnd p = length E + length b + 2 + length t" "iBoundaryLen p = length b" "acBoundary p = b"
    using assms(1) by (simp_all add: reading_def)
  have m: "marker b ! Suc (length b) \<noteq> CR"
  proof (cases b rule: rev_cases)
    case (snoc ys y)
    then show ?thesis using assms(2) by (simp add: marker_def boundary_ok_def nth_append)
  qed (simp add: marker_def)
  have at: "boundary_at p (length E + length b + 2) = Some (length E)"
    unfolding boundary_at_def r R by (simp add: marker_def nth_append)
  consider "t = [DASH]" | "t = [LF]" | "t = [CR, LF]" using assms(3) by blast
  then show ?thesis
    by cases (use at m in \<open>simp_all add: MPTestBoundary_def Let_def r(1) R nth_append\<close>)
qed

lemma boundary_real:
  assumes "reading p st D b w" and "MPTestBoundary p = Some k"
  shows "\<exists>E t. D = E @ marker b @ t \<and> t \<in> {[DASH], [LF], [CR, LF], [CR, DASH]} \<and> k = length E"
proof -
  obtain R where R: "acBuf p = D @ R" using reading_buf [OF assms(1)] ..
  have r: "pcBufDataEnd p = length D" "iBoundaryLen p = length b" "acBoundary p = b" using assms(1) by (simp_all add: reading_def)
  have at: "take (length b + 2) (drop k D) = marker b" "q = k + length b + 2"
    if "boundary_at p q = Some k" "q \<le> length D" for q
  proof -
    from that(1) have q1: "q = k + length b + 2" by (auto simp: boundary_at_def r Let_def split: if_splits)
    with that(1) have "take (length b) (drop (k + 2) (D @ R)) = b" "(D @ R) ! (k + 1) = DASH" "(D @ R) ! k = DASH"
      unfolding boundary_at_def r R by (simp_all add: Let_def split: if_splits)
    note q = q1 this
    show "q = k + length b + 2" by (rule q(1))
    have "drop k D = D ! k # D ! Suc k # drop (k + 2) D" using that(2) q(1) by (simp add: Cons_nth_drop_Suc)
    then show "take (length b + 2) (drop k D) = marker b" using q that(2) by (simp add: nth_append marker_def)
  qed
  have split: "D = take k D @ marker b @ drop (k + length b + 2) D" if "take (length b + 2) (drop k D) = marker b"
    using that append_take_drop_id [of k D] append_take_drop_id [of "length b + 2" "drop k D"] by (simp add: add_ac)
  let ?q = "length D"
  have l: "?q \<noteq> 0" "?q \<noteq> 1" "D ! (?q - 1) = LF \<or> D ! (?q - 1) = DASH"
    using assms(2) by (auto simp: MPTestBoundary_def Let_def r R nth_append split: if_splits)
  consider (cr) "D ! (?q - 2) = CR" "boundary_at p (?q - 2) = Some k" | (no) "boundary_at p (?q - 1) = Some k"
    using assms(2) l by (auto simp: MPTestBoundary_def Let_def r R nth_append split: if_splits)
  then show ?thesis
  proof cases
    case cr
    from at [OF cr(2)] have k: "take (length b + 2) (drop k D) = marker b" "?q = k + length b + 4" using l(1,2) by simp_all
    have "drop (k + length b + 2) D = [D ! (?q - 2), D ! (?q - 1)]" using k(2) by (simp add: Cons_nth_drop_Suc [symmetric] numeral_3_eq_3)
    with split [OF k(1)] cr(1) l(3) k(2) show ?thesis by (intro exI [of _ "take k D"] exI [of _ "drop (k + length b + 2) D"]) auto
  next
    case no
    from at [OF no] have k: "take (length b + 2) (drop k D) = marker b" "?q = k + length b + 3" using l(1,2) by simp_all
    have "drop (k + length b + 2) D = [D ! (?q - 1)]" using k(2) by (simp add: Cons_nth_drop_Suc [symmetric])
    with split [OF k(1)] l(3) k(2) show ?thesis by (intro exI [of _ "take k D"] exI [of _ "drop (k + length b + 2) D"]) auto
  qed
qed

lemma quiet_run:
  assumes "reading p st D b w" and "st = MPST_IGNORE \<or> st = MPST_HEADER" and "LF \<notin> set cs" and "length D + length cs < 32768"
  shows "\<exists>p'. ProcessUpdate L cs (p, s) = Inr (p', s) \<and> reading p' st (D @ cs) b w"
  using assms
proof (induction cs arbitrary: p D)
  case Nil
  then show ?case by simp
next
  case (Cons c cs)
  have r: "reading (MPAddChar p c) st (D @ [c]) b w" using reading_add [OF Cons.prems(1)] Cons.prems(4) by simp
  have "process_char L c (p, s) = Inr (MPAddChar p c, s)"
    using Cons.prems(1-3) by (auto simp: process_char_def reading_def)
  with Cons.IH [OF r Cons.prems(2)] Cons.prems(3,4) show ?case by auto
qed

text \<open>The form begins with a boundary line.\<close>

lemma preamble_run:
  assumes "reading p MPST_IGNORE [] b w" and "boundary_ok b"
  shows "\<exists>p'. ProcessUpdate L (marker b @ [CR, LF]) (p, s) = Inr (p', s) \<and> reading p' MPST_HEADER [] b w"
proof -
  have b: "length b < 128" "LF \<notin> set (marker b @ [CR])" using assms(2) by (simp_all add: boundary_ok_def marker_def)
  from quiet_run [OF assms(1) _ b(2), of L s] b(1) obtain q where
    q: "ProcessUpdate L (marker b @ [CR]) (p, s) = Inr (q, s)" "reading q MPST_IGNORE (marker b @ [CR]) b w" by auto
  have r: "reading (MPAddChar q LF) MPST_IGNORE ([] @ marker b @ [CR, LF]) b w" using reading_add [OF q(2), of LF] b(1) by simp
  have "process_char L LF (q, s) = Inr ((MPClear (MPAddChar q LF))\<lparr>iState := MPST_HEADER\<rparr>, s)"
    using boundary_found [OF r assms(2)] reading_clean [OF r] q(2) by (simp add: process_char_def reading_def)
  moreover have "ProcessUpdate L ((marker b @ [CR]) @ [LF]) (p, s) = ProcessUpdate L [LF] (q, s)" by (rule run_then [OF q(1)])
  ultimately show ?thesis using reading_clear [OF r] by auto
qed

text \<open>Header lines: not empty, without line feeds, and not ending like a boundary.\<close>

definition line_ok :: "u8 list \<Rightarrow> u8 list \<Rightarrow> bool" where
  "line_ok b l = (l \<noteq> [] \<and> hd l \<noteq> CR \<and> LF \<notin> set l \<and> \<not> suffix (marker b) l)"

definition header_block :: "u8 list list \<Rightarrow> u8 list" where
  "header_block ls = concat (map (\<lambda>l. l @ [CR, LF]) ls) @ [CR, LF]"

lemma no_boundary_line:
  assumes "reading p st (D @ l @ [CR, LF]) b w" and "boundary_ok b" and "line_ok b l" and "D = [] \<or> List.last D = LF"
  shows "MPTestBoundary p = None"
proof (rule ccontr)
  have no: "CR \<notin> set (marker b)" "LF \<notin> set (marker b)" using assms(2) by (simp_all add: boundary_ok_def marker_def)
  assume "MPTestBoundary p \<noteq> None"
  then obtain E t where e: "D @ l @ [CR, LF] = E @ marker b @ t" "t \<in> {[DASH], [LF], [CR, LF], [CR, DASH]}"
    using boundary_real [OF assms(1)] by blast
  then consider "D @ l @ [CR] = E @ marker b" | "D @ l = E @ marker b" by auto
  then show False
  proof cases
    case 1
    then have "CR = List.last (marker b)" by (metis append_assoc last_appendR last_snoc marker_def list.distinct(1))
    then show False using no(1) by (metis last_in_set marker_def list.distinct(1))
  next
    case 2
    then consider D2 where "D = E @ D2" "D2 @ l = marker b" | E2 where "l = E2 @ marker b" by (auto simp: append_eq_append_conv2)
    then show False
    proof cases
      case (1 D2)
      show False
      proof (cases "D2 = []")
        case True
        then show False using 1 assms(3) by (simp add: line_ok_def)
      next
        case False
        then have "List.last D = List.last D2" "List.last D2 \<in> set (marker b)" using 1 by (simp_all add: 1(2) [symmetric])
        then show False using no(2) assms(4) False 1(1) by auto
      qed
    next
      case (2 E2)
      then show False using assms(3) by (simp add: line_ok_def suffix_def)
    qed
  qed
qed

lemma header_line_run:
  assumes "reading p st D b w" and "st = MPST_HEADER \<or> st = MPST_ONE_CR" and "boundary_ok b" and "line_ok b l"
    and "D = [] \<or> List.last D = LF" and "length D + length l + 2 < 32768"
  shows "\<exists>p'. ProcessUpdate L (l @ [CR, LF]) (p, s) = Inr (p', s) \<and> reading p' MPST_ONE_CR (D @ l @ [CR, LF]) b w"
proof -
  obtain c cs where l: "l = c # cs" using assms(4) by (cases l) (auto simp: line_ok_def)
  have c: "c \<noteq> CR" "c \<noteq> LF" "LF \<notin> set (cs @ [CR])" using assms(4) by (auto simp: l line_ok_def)
  have r1: "reading (MPAddChar p c) st (D @ [c]) b w" using reading_add [OF assms(1)] assms(6) by (simp add: l)
  have "\<exists>q. process_char L c (p, s) = Inr (q, s) \<and> reading q MPST_HEADER (D @ [c]) b w"
    using assms(1,2) r1 reading_state [OF r1, of MPST_HEADER] c by (auto simp: process_char_def end_of_header_def reading_def)
  then obtain q where q: "process_char L c (p, s) = Inr (q, s)" "reading q MPST_HEADER (D @ [c]) b w" by blast
  from quiet_run [OF q(2) _ c(3), of L s] assms(6) l obtain q2 where
    q2: "ProcessUpdate L (cs @ [CR]) (q, s) = Inr (q2, s)" "reading q2 MPST_HEADER ((D @ [c]) @ cs @ [CR]) b w" by auto
  have r: "reading (MPAddChar q2 LF) MPST_HEADER (D @ l @ [CR, LF]) b w"
    using reading_add [OF q2(2), of LF] assms(6) by (simp add: l)
  have "process_char L LF (q2, s) = Inr ((MPAddChar q2 LF)\<lparr>iState := MPST_ONE_CR\<rparr>, s)"
    using no_boundary_line [OF r assms(3-5)] reading_clean [OF r] q2(2) by (simp add: process_char_def reading_def)
  moreover have "ProcessUpdate L (c # (cs @ [CR]) @ [LF]) (p, s) = ProcessUpdate L [LF] (q2, s)"
    unfolding run_one [OF q(1)] by (rule run_then [OF q2(1)])
  ultimately show ?thesis using reading_state [OF r] by (auto simp: l)
qed

lemma header_lines_run:
  assumes "reading p st D b w" and "st = MPST_HEADER \<or> st = MPST_ONE_CR" and "boundary_ok b" and "\<forall>l\<in>set ls. line_ok b l"
    and "D = [] \<or> List.last D = LF" and "length D + length (concat (map (\<lambda>l. l @ [CR, LF]) ls)) < 32768" and "ls \<noteq> []"
  shows "\<exists>p'. ProcessUpdate L (concat (map (\<lambda>l. l @ [CR, LF]) ls)) (p, s) = Inr (p', s)
    \<and> reading p' MPST_ONE_CR (D @ concat (map (\<lambda>l. l @ [CR, LF]) ls)) b w"
  using assms
proof (induction ls arbitrary: p st D)
  case (Cons l ls)
  from header_line_run [OF Cons.prems(1-3) _ Cons.prems(5), of l L s] Cons.prems(4,6) obtain q where
    q: "ProcessUpdate L (l @ [CR, LF]) (p, s) = Inr (q, s)" "reading q MPST_ONE_CR (D @ l @ [CR, LF]) b w" by auto
  show ?case
  proof (cases "ls = []")
    case True
    then show ?thesis using q by (intro exI [of _ q]) simp
  next
    case False
    have "\<exists>p'. ProcessUpdate L (concat (map (\<lambda>l. l @ [CR, LF]) ls)) (q, s) = Inr (p', s)
        \<and> reading p' MPST_ONE_CR ((D @ l @ [CR, LF]) @ concat (map (\<lambda>l. l @ [CR, LF]) ls)) b w"
      using Cons.prems(4,6) False by (intro Cons.IH [OF q(2) _ Cons.prems(3)]) auto
    moreover have "ProcessUpdate L (concat (map (\<lambda>l. l @ [CR, LF]) (l # ls))) (p, s)
        = ProcessUpdate L (concat (map (\<lambda>l. l @ [CR, LF]) ls)) (q, s)"
      using run_then [OF q(1)] by simp
    ultimately show ?thesis by simp
  qed
qed simp

lemma header_run:
  assumes "reading p MPST_HEADER [] b w" and "boundary_ok b" and "\<forall>l\<in>set ls. line_ok b l" and "ls \<noteq> []"
    and "length (header_block ls) < 32768" and "inner_part_name L (header_block ls) = Some ''SourceFile''"
  shows "\<exists>p'. ProcessUpdate L (header_block ls) (p, s) = Inr (p', s) \<and> reading p' MPST_BODYFILE [] b w"
proof -
  let ?D = "concat (map (\<lambda>l. l @ [CR, LF]) ls)"
  from header_lines_run [OF assms(1) _ assms(2,3) _ _ assms(4), of L s] assms(5) obtain q where
    q: "ProcessUpdate L ?D (p, s) = Inr (q, s)" "reading q MPST_ONE_CR ?D b w" by (auto simp: header_block_def)
  have r1: "reading (MPAddChar q CR) MPST_ONE_CR (?D @ [CR]) b w"
    using reading_add [OF q(2)] assms(5) by (simp add: header_block_def)
  let ?q1 = "(MPAddChar q CR)\<lparr>iState := MPST_TWO_LF\<rparr>"
  have s1: "process_char L CR (q, s) = Inr (?q1, s)" using q(2) by (simp add: process_char_def reading_def)
  have r2: "reading (MPAddChar ?q1 LF) MPST_TWO_LF (header_block ls) b w"
    using reading_add [OF reading_state [OF r1, of MPST_TWO_LF], of LF] assms(5) by (simp add: header_block_def)
  have "process_char L LF (?q1, s) = Inr ((MPClear (MPAddChar ?q1 LF))\<lparr>iState := MPST_BODYFILE\<rparr>, s)"
    using reading_clean [OF r2] r2 assms(6) by (simp add: process_char_def end_of_header_def reading_def Let_def)
  moreover have "ProcessUpdate L (?D @ [CR, LF]) (p, s) = ProcessUpdate L [CR, LF] (q, s)"
    by (rule run_then [OF q(1)])
  ultimately show ?thesis using s1 reading_clear [OF r2] by (auto simp: header_block_def)
qed

subsection \<open>Following the file\<close>

text \<open>How much of the first i bytes has been written out, and what the parser sees of a file until its end is recognised.\<close>

fun written :: "nat \<Rightarrow> nat \<Rightarrow> nat" where
  "written l 0 = 0"
| "written l (Suc i) = (let w = written l i in if Suc i - w = 32767 then w + flush_len l else w)"

definition tail :: "u8 list \<Rightarrow> u8 list \<Rightarrow> u8 list" where
  "tail b F = F @ [CR, LF] @ marker b"

text \<open>The boundary occurs for the first time at the end.\<close>

definition no_marker :: "u8 list \<Rightarrow> u8 list \<Rightarrow> bool" where
  "no_marker b F = (\<forall>k<length F + 2. take (length b + 2) (drop k (tail b F)) \<noteq> marker b)"

lemma length_tail [simp]: "length (tail b F) = length F + length b + 4"
  by (simp add: tail_def)

lemma written_bounds:
  assumes "l \<le> 127"
  shows "written l i \<le> i \<and> i - written l i < 32767 \<and> (written l i = 0 \<or> written l i + l + 2 \<le> i)"
proof (induction i)
  case (Suc i)
  then show ?case using flush_len_bounds [OF assms] by (auto simp: Let_def)
qed simp

lemma written_small: "i < 32767 \<Longrightarrow> written l i = 0"
  by (induction i) (simp_all add: Let_def)

declare written.simps(2) [simp del]

text \<open>Has the file been read so far: the first part is in the flash, the rest in the buffer.\<close>

definition streaming :: "u8 list \<Rightarrow> u8 list \<Rightarrow> usi \<Rightarrow> nat \<Rightarrow> mpart \<Rightarrow> usi \<Rightarrow> bool" where
  "streaming b W s0 i p s =
     (reading p MPST_BODYFILE (drop (written (length b) i) (take i W)) b (written (length b) i)
      \<and> usi_inv s \<and> g_uTotalSize s = g_uTotalSize s0
      \<and> usi_view s = overlay 16 (take (written (length b) i) W) (usi_view s0))"

lemma streaming_step:
  assumes "streaming b (tail b F) s0 i p s" and "i < length (tail b F)" and "boundary_ok b" and "no_marker b F"
    and "16 + length (tail b F) \<le> 2 ^ 24"
  shows "\<exists>p' s'. process_char L (tail b F ! i) (p, s) = Inr (p', s') \<and> streaming b (tail b F) s0 (Suc i) p' s'"
proof -
  let ?W = "tail b F" and ?w = "written (length b) i" and ?p = "MPAddChar p (tail b F ! i)"
  let ?D = "drop ?w (take (Suc i) ?W)"
  have l: "length b \<le> 127" using assms(3) by (simp add: boundary_ok_def)
  note w = written_bounds [OF l, of i] and k = flush_len_bounds [OF l]
  from assms(1) have r0: "reading p MPST_BODYFILE (drop ?w (take i ?W)) b ?w" and s: "usi_inv s" "g_uTotalSize s = g_uTotalSize s0"
    "usi_view s = overlay 16 (take ?w ?W) (usi_view s0)" by (simp_all add: streaming_def)
  have D: "?D = drop ?w (take i ?W) @ [?W ! i]" using assms(2) w by (simp add: take_Suc_conv_app_nth)
  have len: "length ?D = Suc i - ?w" using assms(2) by simp
  have r: "reading ?p MPST_BODYFILE ?D b ?w" unfolding D using assms(2) w by (intro reading_add [OF r0]) auto
  have none: "MPTestBoundary ?p = None"
  proof (rule ccontr)
    assume "MPTestBoundary ?p \<noteq> None"
    then obtain E t where e: "?D = E @ marker b @ t" "t \<noteq> []" using boundary_real [OF r] by blast
    let ?k = "?w + length E"
    have "length ?D = length E + length b + 2 + length t" using e(1) by simp
    moreover have "0 < length t" using e(2) by simp
    ultimately have "?k + length b + 2 \<le> i" using len w by linarith
    then have "take (length b + 2) (drop ?k (take (Suc i) ?W)) = take (length b + 2) (drop ?k ?W)" "?k < length F + 2"
      using assms(2) by (simp_all add: drop_take min_absorb2)
    moreover have "drop ?k (take (Suc i) ?W) = marker b @ t" using e(1) by (simp add: add.commute flip: drop_drop)
    ultimately show False using assms(4) by (auto simp: no_marker_def)
  qed
  have step: "process_char L (?W ! i) (p, s) = MPTestWriteFlash ?p s"
    using r0 none by (simp add: process_char_def body_file_def reading_def)
  show ?thesis
  proof (cases "Suc i - ?w = 32767")
    case False
    then have "MPTestWriteFlash ?p s = Inr (?p, s)" using r len by (simp add: MPTestWriteFlash_def pcBufEnd_def reading_def)
    moreover have "streaming b ?W s0 (Suc i) ?p s" using False r s by (simp add: streaming_def written.simps(2) Let_def)
    ultimately show ?thesis using step by simp
  next
    case True
    have wi: "written (length b) (Suc i) = ?w + flush_len (length b)" using True by (simp add: written.simps(2) Let_def)
    have f: "length (acBuf ?p) = 32768" "pcBufDataHeader ?p = 0" "pcBufDataEnd ?p = 32767" "iBoundaryLen ?p = length b"
      "unat (pfFlashTmpFile ?p) = 16 + ?w" using r len True by (simp_all add: reading_def)
    have bound: "unat (pfFlashTmpFile ?p) + flush_len (iBoundaryLen ?p) \<le> 2 ^ 24"
    proof -
      have "Suc i = ?w + 32767" using True w by linarith
      moreover have "flush_len (length b) \<le> 32765" using k by linarith
      ultimately have "16 + ?w + flush_len (length b) \<le> 2 ^ 24" using assms(2,5) by linarith
      then show ?thesis by (simp only: f(4,5))
    qed
    from MPTestWriteFlash_flush [OF reading_ok [OF r] f(1-3) _ s(1) bound] l f(4) obtain p' s' where
      p': "MPTestWriteFlash ?p s = Inr (p', s')" "usi_inv s'" "g_uTotalSize s' = g_uTotalSize s"
      "usi_view s' = overlay (16 + ?w) (take (flush_len (length b)) (acBuf ?p)) (usi_view s)"
      "unat (pfFlashTmpFile p') = 16 + ?w + flush_len (length b)" "mp_ok p'" "length (acBuf p') = 32768"
      "pcBufDataHeader p' = 0" "pcBufDataEnd p' = 32767 - flush_len (length b)"
      "mp_data p' = drop (flush_len (length b)) (mp_data ?p)" "iState p' = iState ?p" "iBoundaryLen p' = length b"
      "acBoundary p' = acBoundary ?p" "pParamList p' = pParamList ?p" unfolding f(4,5) by auto
    have "mp_data ?p = ?D" by (rule reading_data [OF r])
    then have "take (pcBufDataEnd p') (acBuf p') = drop (flush_len (length b)) ?D"
      using mp_data_plain [of p'] p'(7-10) by simp
    moreover have "length (drop (flush_len (length b)) ?D) = pcBufDataEnd p'" using len True p'(9) by simp
    ultimately have "reading p' MPST_BODYFILE (drop (flush_len (length b)) ?D) b (?w + flush_len (length b))"
      using p' r k by (simp add: reading_def)
    moreover have "drop (flush_len (length b)) ?D = drop (written (length b) (Suc i)) (take (Suc i) ?W)"
      unfolding wi by (simp add: add.commute)
    ultimately have "reading p' MPST_BODYFILE (drop (written (length b) (Suc i)) (take (Suc i) ?W)) b (written (length b) (Suc i))"
      by (simp only: wi)
    moreover have "usi_view s' = overlay 16 (take (written (length b) (Suc i)) ?W) (usi_view s0)"
    proof -
      have "flush_len (length b) \<le> length ?D" using len True k by simp
      moreover obtain R where "acBuf ?p = ?D @ R" using reading_buf [OF r] ..
      ultimately have "take (flush_len (length b)) (acBuf ?p) = take (flush_len (length b)) ?D" by simp
      also have "\<dots> = take (flush_len (length b)) (drop ?w ?W)" using len True k assms(2) by (simp add: drop_take)
      finally have t: "take (flush_len (length b)) (acBuf ?p) = take (flush_len (length b)) (drop ?w ?W)" .
      have "length (take ?w ?W) = ?w" using w assms(2) by simp
      then show ?thesis
        using overlay_append [of 16 "take ?w ?W" "take (flush_len (length b)) (drop ?w ?W)" "usi_view s0"]
        by (simp add: p'(4) s(3) t wi take_add)
    qed
    ultimately show ?thesis using step p'(1-3) s(2) by (auto simp: streaming_def)
  qed
qed

lemma streaming_run:
  assumes "streaming b (tail b F) s0 0 p s" and "i \<le> length (tail b F)" and "boundary_ok b" and "no_marker b F"
    and "16 + length (tail b F) \<le> 2 ^ 24"
  shows "\<exists>p' s'. ProcessUpdate L (take i (tail b F)) (p, s) = Inr (p', s') \<and> streaming b (tail b F) s0 i p' s'"
  using assms(2)
proof (induction i)
  case 0
  then show ?case using assms(1) by auto
next
  case (Suc i)
  then obtain p1 s1 where 1: "ProcessUpdate L (take i (tail b F)) (p, s) = Inr (p1, s1)" "streaming b (tail b F) s0 i p1 s1" by auto
  from streaming_step [OF 1(2) _ assms(3-5), of L] Suc.prems obtain p2 s2 where
    2: "process_char L (tail b F ! i) (p1, s1) = Inr (p2, s2)" "streaming b (tail b F) s0 (Suc i) p2 s2" by auto
  have "ProcessUpdate L (take (Suc i) (tail b F)) (p, s) = Inr (p2, s2)"
    using run_then [OF 1(1), of "[tail b F ! i]"] 2(1) Suc.prems by (simp add: take_Suc_conv_app_nth)
  with 2(2) show ?case by blast
qed

text \<open>
  The buffer of 32 KB is written out when 32767 bytes are in it, and each time \<open>flush_len\<close> bytes leave it: so many of the first \<open>i\<close>
  bytes are in the flash.
\<close>

definition flushed_bytes :: "nat \<Rightarrow> nat \<Rightarrow> nat" where
  "flushed_bytes l i = (if i < 32767 then 0 else ((i - 32767) div flush_len l + 1) * flush_len l)"

lemma written_flushed:
  assumes "l \<le> 127"
  shows "written l i = flushed_bytes l i"
proof (induction i)
  case (Suc i)
  let ?K = "flush_len l"
  have K: "0 < ?K" "?K \<le> 32767" using flush_len_bounds [OF assms] by linarith+
  show ?case
  proof (cases "i < 32767")
    case True
    then have "written l i = 0" by (rule written_small)
    then show ?thesis using True by (auto simp: written.simps(2) flushed_bytes_def)
  next
    case False
    then obtain m where m: "i = 32767 + m" using le_Suc_ex [of 32767 i] by auto
    have w: "written l i = (m div ?K + 1) * ?K" using Suc.IH m by (simp add: flushed_bytes_def)
    have "(m div ?K + 1) * ?K = m - m mod ?K + ?K" "m mod ?K \<le> m" by (simp_all add: minus_mod_eq_div_mult)
    then have "Suc i - written l i = 32767 \<longleftrightarrow> Suc (m mod ?K) = ?K"
      unfolding w using m K mod_less_divisor [OF K(1), of m] by linarith
    also have "\<dots> \<longleftrightarrow> Suc m mod ?K = 0" using K(1) mod_less_divisor [OF K(1), of m] by (simp add: mod_Suc)
    finally have "written l (Suc i) = (Suc m div ?K + 1) * ?K" by (simp add: written.simps(2) Let_def w div_Suc)
    then show ?thesis using m by (simp add: flushed_bytes_def)
  qed
qed (simp add: flushed_bytes_def)

text \<open>
  What ends up in the flash: the file, and if the buffer was written out while the end of line before the boundary was already
  in it, that end of line or its first byte too.
\<close>

definition received :: "u8 list \<Rightarrow> u8 list \<Rightarrow> u8 list" where
  "received b F = F @ take (flushed_bytes (length b) (length F + length b + 4) - length F) [CR, LF]"

lemma received_written: "length b \<le> 127 \<Longrightarrow> received b F = F @ take (written (length b) (length (tail b F)) - length F) [CR, LF]"
  by (simp add: received_def written_flushed)

lemma file_end:
  assumes "streaming b (tail b F) s0 (length (tail b F)) p s" and "boundary_ok b" and "16 + length (tail b F) \<le> 2 ^ 24"
  shows "\<exists>p' s'. process_char L DASH (p, s) = Inr (p', s') \<and> reading p' MPST_HEADER [] b (length (received b F))
    \<and> usi_inv s' \<and> g_uTotalSize s' = g_uTotalSize s0 \<and> usi_view s' = overlay 16 (received b F) (usi_view s0)"
proof -
  let ?W = "tail b F" and ?w = "written (length b) (length (tail b F))" and ?p = "MPAddChar p DASH" and ?l = "length F"
  have l: "length b \<le> 127" using assms(2) by (simp add: boundary_ok_def)
  from assms(1) have r0: "reading p MPST_BODYFILE (drop ?w ?W) b ?w" and s: "usi_inv s" "g_uTotalSize s = g_uTotalSize s0"
    "usi_view s = overlay 16 (take ?w ?W) (usi_view s0)" by (simp_all add: streaming_def)
  note wb = written_bounds [OF l, of "length ?W"]
  have w: "?w \<le> ?l + 2" using wb by auto
  let ?E = "drop ?w (F @ [CR, LF])"
  have W: "?W = (F @ [CR, LF]) @ marker b" by (simp add: tail_def)
  have "drop ?w ((F @ [CR, LF]) @ marker b) = ?E @ drop (?w - length (F @ [CR, LF])) (marker b)" by (rule drop_append)
  moreover have "?w - length (F @ [CR, LF]) = 0" using w by simp
  ultimately have E: "drop ?w ?W = ?E @ marker b" by (simp only: W [symmetric] drop_0)
  have "length (drop ?w ?W) < 32767" using wb by simp
  from reading_add [OF r0 this, of DASH] have r: "reading ?p MPST_BODYFILE (?E @ marker b @ [DASH]) b ?w" unfolding E by simp
  have found: "MPTestBoundary ?p = Some (length ?E)" by (rule boundary_found [OF r assms(2)]) simp
  obtain R where R: "acBuf ?p = (?E @ marker b @ [DASH]) @ R" using reading_buf [OF r] ..
  have n: "before_crlf (acBuf ?p) (length ?E) = ?l - ?w"
  proof -
    consider "?w \<le> ?l" | "?w = ?l + 1" | "?w = ?l + 2" using w by linarith
    then show ?thesis
    proof cases
      case 1
      then have "?E = drop ?w F @ [CR, LF]" by simp
      then show ?thesis unfolding R using 1 by (simp add: before_crlf_def nth_append)
    qed (simp_all add: before_crlf_def R nth_append)
  qed
  have t: "take (?l - ?w) (acBuf ?p) = drop ?w F" using w by (simp add: R)
  have f: "length (acBuf ?p) = 32768" "unat (pfFlashTmpFile ?p) = 16 + ?w" using r by (simp_all add: reading_def)
  have bd: "unat (pfFlashTmpFile ?p) + (?l - ?w) \<le> 2 ^ 24" using assms(3) w unfolding f(2) by simp
  have "?l - ?w \<le> length (acBuf ?p)" using wb by (simp only: f(1) length_tail) linarith
  from write_out_ok [OF s(1) bd this] obtain s' where
    o: "write_out (?l - ?w) ?p s = Inr (?p\<lparr>pfFlashTmpFile := pfFlashTmpFile ?p + of_nat (?l - ?w)\<rparr>, s')" "usi_inv s'"
    "g_uTotalSize s' = g_uTotalSize s" "usi_view s' = overlay (16 + ?w) (drop ?w F) (usi_view s)"
    "unat (pfFlashTmpFile ?p + of_nat (?l - ?w)) = 16 + ?w + (?l - ?w)" unfolding f(2) t by blast
  let ?q = "?p\<lparr>pfFlashTmpFile := pfFlashTmpFile ?p + of_nat (?l - ?w)\<rparr>"
  have len: "length (received b F) = ?w + (?l - ?w)" using w by (simp add: received_written [OF l])
  have "reading ?q MPST_BODYFILE (?E @ marker b @ [DASH]) b (?w + (?l - ?w))" using r o(5) by (simp add: reading_def)
  from reading_clear [OF this, of MPST_HEADER] have "reading ((MPClear ?q)\<lparr>iState := MPST_HEADER\<rparr>) MPST_HEADER [] b (length (received b F))"
    by (simp only: len)
  moreover have "process_char L DASH (p, s) = Inr ((MPClear ?q)\<lparr>iState := MPST_HEADER\<rparr>, s')"
    using r0 found o(1) n by (simp add: process_char_def body_file_def reading_def Let_def)
  moreover have "take ?w ?W @ drop ?w F = received b F"
  proof -
    have z: "?w - length (F @ [CR, LF]) = 0" using w by simp
    have "take ?w ((F @ [CR, LF]) @ marker b) = take ?w (F @ [CR, LF]) @ take (?w - length (F @ [CR, LF])) (marker b)"
      by (rule take_append)
    then have "take ?w ?W = take ?w (F @ [CR, LF])" by (simp only: W [symmetric] z take_0 append_Nil2)
    then show ?thesis by (cases "?w \<le> ?l") (simp_all add: received_written [OF l])
  qed
  then have "usi_view s' = overlay 16 (received b F) (usi_view s0)"
    using overlay_append [of 16 "take ?w ?W" "drop ?w F" "usi_view s0"] wb unfolding o(4) s(3) by simp
  ultimately show ?thesis using o(2,3) s(2) by metis
qed

lemma reading_rest:
  assumes "reading p MPST_HEADER [] b w"
  shows "\<exists>p'. ProcessUpdate L [DASH, CR, LF] (p, s) = Inr (p', s) \<and> unat (pfFlashTmpFile p') = 16 + w \<and> pParamList p' = []"
proof -
  have q: "LF \<notin> set [DASH, CR]" by simp
  from quiet_run [OF assms _ q, of L s] obtain p1 where
    p1: "ProcessUpdate L [DASH, CR] (p, s) = Inr (p1, s)" "reading p1 MPST_HEADER [DASH, CR] b w" by auto
  have r: "reading (MPAddChar p1 LF) MPST_HEADER [DASH, CR, LF] b w" using reading_add [OF p1(2), of LF] by simp
  have "\<exists>p'. process_char L LF (p1, s) = Inr (p', s) \<and> unat (pfFlashTmpFile p') = 16 + w \<and> pParamList p' = []"
    using reading_clean [OF r] r p1(2) by (auto simp: process_char_def reading_def Let_def)
  then show ?thesis using run_then [OF p1(1), of "[LF]"] by auto
qed

text \<open>A form with one part, the file.\<close>

definition upload_form :: "u8 list \<Rightarrow> u8 list list \<Rightarrow> u8 list \<Rightarrow> u8 list" where
  "upload_form b ls F = marker b @ [CR, LF] @ header_block ls @ tail b F @ [DASH, DASH, CR, LF]"

definition form_ok :: "upload_lib \<Rightarrow> u8 list \<Rightarrow> u8 list list \<Rightarrow> u8 list \<Rightarrow> bool" where
  "form_ok L b ls F =
     (boundary_ok b \<and> ls \<noteq> [] \<and> (\<forall>l\<in>set ls. line_ok b l) \<and> length (header_block ls) < 32768
      \<and> inner_part_name L (header_block ls) = Some ''SourceFile'' \<and> no_marker b F)"

lemma form_run:
  assumes "form_ok L b ls F" and "lib_httpMyStrncpy L b 128 = b" and "usi_inv s" and "16 + length (upload_form b ls F) \<le> 2 ^ 24"
  shows "\<exists>p' s'. ProcessUpdate L (upload_form b ls F) (new_upload L b, s) = Inr (p', s')
    \<and> unat (pfFlashTmpFile p') = 16 + length (received b F) \<and> pParamList p' = []
    \<and> usi_inv s' \<and> g_uTotalSize s' = g_uTotalSize s \<and> usi_view s' = overlay 16 (received b F) (usi_view s)"
proof -
  from assms(1) have ok: "boundary_ok b" "ls \<noteq> []" "\<forall>l\<in>set ls. line_ok b l" "length (header_block ls) < 32768"
    "inner_part_name L (header_block ls) = Some ''SourceFile''" "no_marker b F" by (simp_all add: form_ok_def)
  have "reading (new_upload L b) MPST_IGNORE [] b 0" by (simp add: reading_def new_upload_def assms(2) Let_def)
  from preamble_run [OF this ok(1)] obtain p1 where
    p1: "ProcessUpdate L (marker b @ [CR, LF]) (new_upload L b, s) = Inr (p1, s)" "reading p1 MPST_HEADER [] b 0" by blast
  from header_run [OF p1(2) ok(1,3,2,4,5)] obtain p2 where
    p2: "ProcessUpdate L (header_block ls) (p1, s) = Inr (p2, s)" "reading p2 MPST_BODYFILE [] b 0" by blast
  have st: "streaming b (tail b F) s 0 p2 s" using p2(2) assms(3) by (simp add: streaming_def)
  have sz: "16 + length (tail b F) \<le> 2 ^ 24" using assms(4) by (simp add: upload_form_def)
  from streaming_run [OF st order.refl ok(1,6) sz, of L] obtain p3 s3 where
    p3: "ProcessUpdate L (tail b F) (p2, s) = Inr (p3, s3)" "streaming b (tail b F) s (length (tail b F)) p3 s3" by auto
  from file_end [OF p3(2) ok(1) sz, of L] obtain p4 s4 where
    p4: "process_char L DASH (p3, s3) = Inr (p4, s4)" "reading p4 MPST_HEADER [] b (length (received b F))"
    "usi_inv s4" "g_uTotalSize s4 = g_uTotalSize s" "usi_view s4 = overlay 16 (received b F) (usi_view s)" by blast
  from reading_rest [OF p4(2), of L s4] obtain p5 where
    p5: "ProcessUpdate L [DASH, CR, LF] (p4, s4) = Inr (p5, s4)" "unat (pfFlashTmpFile p5) = 16 + length (received b F)"
    "pParamList p5 = []" by blast
  have "ProcessUpdate L ((marker b @ [CR, LF]) @ header_block ls @ tail b F @ DASH # [DASH, CR, LF]) (new_upload L b, s) = Inr (p5, s4)"
    unfolding run_then [OF p1(1)] run_then [OF p2(1)] run_then [OF p3(1)] run_one [OF p4(1)] by (rule p5(1))
  then show ?thesis using p4(3-5) p5(2,3) by (auto simp: upload_form_def)
qed

lemma received_exact:
  assumes "length b \<le> 127" and "length b mod 4 \<in> {2, 3} \<or> length F + length b + 4 < 32767"
  shows "received b F = F"
proof -
  let ?l = "length b"
  have kept: "written ?l i = 0 \<or> written ?l i + 32767 \<le> i + flush_len ?l" for i
    by (induction i) (auto simp: written.simps(2) Let_def)
  have "written ?l (length F + ?l + 4) \<le> length F"
  proof (cases "length F + ?l + 4 < 32767")
    case True
    then show ?thesis using written_small by simp
  next
    case False
    then have "?l mod 4 = 2 \<or> ?l mod 4 = 3" using assms(2) by blast
    then have "(32767 - ?l - 2) div 4 * 4 + ?l + 4 \<le> 32767" using assms(1) by presburger
    then have "flush_len ?l + ?l + 4 \<le> 32767" by (simp only: flush_len_def)
    then show ?thesis using kept [of "length F + ?l + 4"] by linarith
  qed
  then show ?thesis by (simp add: received_written [OF assms(1)])
qed

definition may_upload :: "upload_request \<Rightarrow> u8 list \<Rightarrow> update \<Rightarrow> bool" where
  "may_upload rq b u =
     (USI_IS_READY (upd_flash u) \<and> AUTH_ADMIN \<le> up_privilege rq \<and> iFlashUpdateState u = FIRMWARE_STOP
      \<and> 248 \<le> up_ContentLength rq \<and> up_ContentLength rq + 8 < FIRMWARE_UPDATE_LIMIT_SIZE \<and> up_boundary rq = Some b \<and> up_memory rq)"

lemma may_upload_start:
  "may_upload rq b u \<Longrightarrow> start_upload L rq d u = feed L d (new_upload L b) (u\<lparr>iFlashUpdateState := FIRMWARE_UPLOADING\<rparr>)"
  by (simp add: may_upload_def start_upload_def Let_def)

lemma upload_form_run:
  assumes "form_ok L b ls F" and "lib_httpMyStrncpy L b 128 = b" and "usi_inv (cfg_flash (upd_flash u))"
    and "16 + length (upload_form b ls F) \<le> 2 ^ 24" and "may_upload rq b u" and "concat ds = upload_form b ls F"
  shows "\<exists>s. upload_pieces L rq ds first_slot u =
      Inr (Some (Reply ''text/plain'' ''OK''), u\<lparr>iFlashUpdateState := FIRMWARE_STOP, upd_flash := (upd_flash u)\<lparr>cfg_flash := s\<rparr>\<rparr>)
    \<and> usi_inv s \<and> usi_view (usi_power_cycle s)
        = overlay 0 (header_bytes (of_nat (16 + length (received b F)))) (overlay 16 (received b F) (usi_view (cfg_flash (upd_flash u))))"
proof -
  from form_run [OF assms(1-4)] obtain p s where
    p: "ProcessUpdate L (upload_form b ls F) (new_upload L b, cfg_flash (upd_flash u)) = Inr (p, s)"
    "unat (pfFlashTmpFile p) = 16 + length (received b F)" "pParamList p = []" "usi_inv s"
    "usi_view s = overlay 16 (received b F) (usi_view (cfg_flash (upd_flash u)))" by blast
  have n: "pfFlashTmpFile p = of_nat (16 + length (received b F))" by (simp only: p(2) [symmetric] of_nat_unat_self)
  from write_header_ok [OF p(4), of p] obtain s' where s': "write_header p s = Inr s'" "usi_inv s'"
    "usi_view s' = overlay 0 (header_bytes (pfFlashTmpFile p)) (usi_view s)" "usi_view (usi_power_cycle s') = usi_view s'" by blast
  have "ds \<noteq> []" using assms(6) by (auto simp: upload_form_def marker_def)
  then have "upload_pieces L rq ds first_slot u
      = bnd (start_upload L rq (upload_form b ls F) u) (\<lambda>(sl1, u1). bnd (finish_upload sl1 u1) (\<lambda>(r, u2). Inr (Some r, u2)))"
    using pieces_whole [of ds u L rq first_slot] assms(5,6) by (simp add: first_slot_def take_piece_def may_upload_def)
  also have "start_upload L rq (upload_form b ls F) u = Inr (\<lparr>piPostState = POST_OK, ppcPostBuf = Some p\<rparr>,
      u\<lparr>iFlashUpdateState := FIRMWARE_UPLOADING, upd_flash := (upd_flash u)\<lparr>cfg_flash := s\<rparr>\<rparr>)"
    using p(1) by (simp add: may_upload_start [OF assms(5)] feed_def)
  finally have "upload_pieces L rq ds first_slot u =
      Inr (Some (Reply ''text/plain'' ''OK''), u\<lparr>iFlashUpdateState := FIRMWARE_STOP, upd_flash := (upd_flash u)\<lparr>cfg_flash := s'\<rparr>\<rparr>)"
    using p(3) s'(1) by (simp add: finish_upload_def upload_reply_def response_text_def httpGetString_def)
  then show ?thesis using s'(2-4) p(5) n by auto
qed

text \<open>
  C4. A firmware update arrives: however the server cuts the posted form into pieces, and after a power loss, the flash holds
  the mark, the length of what was received and that itself, and every other byte is as it was. What was received is
  the file posted, followed by as many bytes of the line end before the closing boundary as the parser had already written out: \<open>received\<close>
  says how many. None are, if the form fits into the buffer or the length of the boundary leaves remainder 2 or 3 by 4. (The chip is taken to
  have the 2^24 bytes that can be addressed; on a smaller one the form has to fit.)
\<close>

theorem upload_writes_firmware:
  assumes "form_ok L b ls F" and "lib_httpMyStrncpy L b 128 = b" and "usi_inv (cfg_flash (upd_flash u))"
    and "16 + length (upload_form b ls F) \<le> 2 ^ 24" and "may_upload rq b u" and "concat ds = upload_form b ls F"
  shows "\<exists>u'. upload_pieces L rq ds first_slot u = Inr (Some (Reply ''text/plain'' ''OK''), u')
    \<and> iFlashUpdateState u' = FIRMWARE_STOP
    \<and> usi_view (usi_power_cycle (cfg_flash (upd_flash u')))
        = overlay 0 (header_bytes (of_nat (16 + length (received b F)))) (overlay 16 (received b F) (usi_view (cfg_flash (upd_flash u))))
    \<and> received b F \<in> {F, F @ [CR], F @ [CR, LF]}
    \<and> (length b mod 4 \<in> {2, 3} \<or> length F + length b + 4 < 32767 \<longrightarrow> received b F = F)"
proof -
  have l: "length b \<le> 127" using assms(1) by (simp add: form_ok_def boundary_ok_def)
  have "take n [CR, LF] \<in> {[], [CR], [CR, LF]}" for n
    by (cases n rule: nat.exhaust; cases "n - 1") auto
  from this [of "flushed_bytes (length b) (length F + length b + 4) - length F"] have "received b F \<in> {F, F @ [CR], F @ [CR, LF]}"
    unfolding received_def by (elim insertE emptyE) simp_all
  with upload_form_run [OF assms] received_exact [OF l] show ?thesis
    by (elim exE conjE) (intro exI conjI, assumption, simp_all)
qed

text \<open>
  With a boundary of 40 characters a file of 32723 bytes gets the first byte of the line end, with one of 41 characters
  a file of 32722 bytes both.
\<close>

lemma line_end_stored:
  "length b = 40 \<Longrightarrow> length F = 32723 \<Longrightarrow> received b F = F @ [CR]"
  "length b = 41 \<Longrightarrow> length F = 32722 \<Longrightarrow> received b F = F @ [CR, LF]"
  by (simp_all add: received_def flushed_bytes_def flush_len_def)

text \<open>An example: a file of three bytes, the boundary "xy", one header line; the parser takes every part for the file.\<close>

definition example_upload_lib :: upload_lib where
  "example_upload_lib = \<lparr>inner_part_name = (\<lambda>bs. if bs = header_block [[65]] then Some ''SourceFile'' else None),
     lib_httpSetString = (\<lambda>ps _ _. ps), lib_httpMyStrncpy = (\<lambda>t n. take (n - 1) t)\<rparr>"

definition example_upload :: upload_request where
  "example_upload = \<lparr>up_privilege = 1, up_ContentLength = 300, up_boundary = Some [120, 121], up_memory = True\<rparr>"

definition example_update :: update where
  "example_update = \<lparr>upd_flash = example_cfg, iFlashUpdateState = FIRMWARE_STOP\<rparr>"

lemma example_form_ok: "form_ok example_upload_lib [120, 121] [[65]] [1, 2, 3]"
proof -
  have "take 4 (drop k (tail [120, 121] [1, 2, 3])) \<noteq> marker [120, 121]" if k: "k < 5" for k :: nat
  proof -
    consider "k = 0" | "k = 1" | "k = 2" | "k = 3" | "k = 4" using k by linarith
    then show ?thesis by cases (simp_all add: tail_def marker_def)
  qed
  then have "no_marker [120, 121] [1, 2, 3]" by (simp add: no_marker_def eval_nat_numeral)
  moreover have "line_ok [120, 121] [65]" by (auto simp: line_ok_def marker_def suffix_def Cons_eq_append_conv)
  ultimately show ?thesis
    by (simp add: form_ok_def boundary_ok_def example_upload_lib_def header_block_def)
qed

lemma example_upload_simps:
  "lib_httpMyStrncpy example_upload_lib [120, 121] 128 = [120, 121]" "usi_inv (cfg_flash (upd_flash example_update))"
  "16 + length (upload_form [120, 121] [[65]] [1, 2, 3]) \<le> 2 ^ 24" "may_upload example_upload [120, 121] example_update"
  using example_cfg_simps(1)
  by (simp_all add: example_upload_lib_def example_update_def cfg_inv_def upload_form_def header_block_def may_upload_def
      example_upload_def FIRMWARE_UPDATE_LIMIT_SIZE_def AUTH_ADMIN_def)

theorem upload_writes_firmware_witness:
  "\<exists>u'. upload_pieces example_upload_lib example_upload
        [take 9 (upload_form [120, 121] [[65]] [1, 2, 3]), drop 9 (upload_form [120, 121] [[65]] [1, 2, 3])] first_slot example_update
      = Inr (Some (Reply ''text/plain'' ''OK''), u')
    \<and> usi_view (usi_power_cycle (cfg_flash (upd_flash u')))
        = overlay 0 (header_bytes 19) (overlay 16 [1, 2, 3] (usi_view (cfg_flash (upd_flash example_update))))"
proof -
  let ?D = "upload_form [120, 121] [[65]] [1, 2, 3]"
  have c: "concat [take 9 ?D, drop 9 ?D] = ?D" by simp
  have R: "received [120, 121] [1, 2, 3] = [1, 2, 3]" by (simp add: received_def flushed_bytes_def)
  have n: "(of_nat (16 + length [1, 2, 3 :: u8]) :: u32) = 19" by simp
  show ?thesis using upload_writes_firmware [OF example_form_ok example_upload_simps c] unfolding R n by blast
qed

text \<open>The same on a chip of 4 MB.\<close>

definition large_board :: board where
  "large_board = example_board\<lparr>chip_id := 0xef15\<rparr>"

definition large_update :: update where
  "large_update = example_update\<lparr>upd_flash := example_cfg\<lparr>cfg_flash := (cfg_flash example_cfg)\<lparr>g_uTotalSize := 4194304\<rparr>\<rparr>\<rparr>"

theorem upload_keeps_configuration_witness:
  "\<exists>r u'. upload_pieces example_upload_lib example_upload [upload_form [120, 121] [[65]] [1, 2, 3]] first_slot large_update = Inr (r, u')
     \<and> stored large_board Main (upd_flash u') = stored large_board Main (upd_flash large_update)"
proof -
  let ?ds = "[upload_form [120, 121] [[65]] [1, 2, 3]]"
  have c: "concat ?ds = upload_form [120, 121] [[65]] [1, 2, 3]" by simp
  have ok: "board_ok large_board" "large_chip large_board"
    by (simp_all add: board_ok_def large_board_def large_chip_def example_board_def usiInitDevice_def USI_ERR_DEVICE_def ucFailTime_def)
  have inv: "cfg_inv large_board (upd_flash large_update)"
    by (simp add: cfg_inv_def large_update_def large_board_def example_cfg_def example_board_def usi_inv_def usiInitDevice_def)
  then have "usi_inv (cfg_flash (upd_flash large_update))" by (simp add: cfg_inv_def)
  moreover have "may_upload example_upload [120, 121] large_update"
    using example_upload_simps(4) by (simp add: may_upload_def large_update_def example_update_def)
  ultimately obtain r u' where u': "upload_pieces example_upload_lib example_upload ?ds first_slot large_update = Inr (r, u')"
    using upload_form_run [OF example_form_ok example_upload_simps(1) _ example_upload_simps(3) _ c] by blast
  have "\<forall>b. length (lib_httpMyStrncpy example_upload_lib b 128) < 128" by (simp add: example_upload_lib_def min_less_iff_disj)
  moreover have "int (length (concat ?ds)) \<le> up_ContentLength example_upload"
    by (simp add: example_upload_def upload_form_def header_block_def)
  ultimately show ?thesis
    using upload_keeps_configuration [OF ok inv, of example_upload_lib ?ds example_upload] unfolding u' by auto
qed

subsection \<open>Sending it back\<close>

lemma FillFirmwareData_step:
  assumes "usi_inv (cfg_flash s)" and "USI_IS_READY s" and "get_u32 0 (map (usi_view (cfg_flash s)) [4 ..< 8]) = len"
    and "unat len \<le> 2 ^ 24" and "a < len"
  shows "\<exists>a'. FillFirmwareData s a = Inr (Some (map (usi_view (cfg_flash s)) [unat a ..< unat a'], a')) \<and> unat a < unat a' \<and> unat a' \<le> unat len"
proof -
  let ?v = "usi_view (cfg_flash s)"
  let ?blk = "if a mod 128 \<noteq> 0 then 128 - a mod 128 else 128"
  let ?cnt = "if len - a \<ge> ?blk then ?blk else len - a"
  have l: "unat a < unat len" using assms(5) by (simp add: word_less_nat_alt)
  have m: "unat (a mod 128) < 128" by (simp add: unat_mod_distrib)
  then have "unat ?blk \<noteq> 0" by (auto simp: unat_minus_le word_le_nat_alt)
  moreover have "unat (len - a) = unat len - unat a" using l by (intro unat_minus_le) simp
  ultimately have t: "0 < unat ?cnt" "unat ?cnt \<le> unat len - unat a"
    using l by (auto simp: word_le_nat_alt not_le split: if_splits)
  have n: "unat (a + ?cnt) = unat a + unat ?cnt"
    using t(2) l assms(4) by (intro unat_plus_no_wrap) (simp only: len_num1 len_bit0, simp)
  have r4: "usiMyRead 4 4 (cfg_flash s) = Some (map ?v [4 ..< 8])" using flash.read_view [OF assms(1), of 4 4] by simp
  have "usiMyRead a ?cnt (cfg_flash s) = Some (map ?v [unat a ..< unat a + unat ?cnt])"
    using t(2) l assms(4) by (intro flash.read_view [OF assms(1)]) linarith
  then have "FillFirmwareData s a = Inr (Some (map ?v [unat a ..< unat (a + ?cnt)], a + ?cnt))"
    unfolding FillFirmwareData_def r4 n using assms(2,3,5) by (simp only: Let_def option.case not_le [symmetric] simp_thms if_False)
  with n t l show ?thesis by (intro exI [of _ "a + ?cnt"]) simp
qed

lemma FillFirmwareData_end:
  assumes "usi_inv (cfg_flash s)" and "get_u32 0 (map (usi_view (cfg_flash s)) [4 ..< 8]) = len" and "len \<le> a"
  shows "FillFirmwareData s a = Inr None"
  using flash.read_view [OF assms(1), of 4 4] assms(2,3) by (simp add: FillFirmwareData_def Let_def)

interpretation firmware: chunked_reply "FillFirmwareData s" "usi_view (cfg_flash s)" "unat (get_u32 0 (map (usi_view (cfg_flash s)) [4 ..< 8]))"
  "usi_inv (cfg_flash s) \<and> USI_IS_READY s \<and> unat (get_u32 0 (map (usi_view (cfg_flash s)) [4 ..< 8])) \<le> 2 ^ 24" for s
proof (unfold_locales, goal_cases)
  case (1 a)
  then show ?case using FillFirmwareData_step [OF _ _ refl, of s a] by (simp add: word_less_nat_alt)
next
  case (2 a)
  then show ?case using FillFirmwareData_end [OF _ refl, of s a] by (simp add: word_le_nat_alt)
qed

lemma Http_GetFirmware_run:
  assumes "usi_inv (cfg_flash s)" and "USI_IS_READY s" and "get_u32 0 (map (usi_view (cfg_flash s)) [4 ..< 8]) = len"
    and "unat len \<le> 2 ^ 24"
  shows "Http_GetFirmware s = Some (Inr (len, map (usi_view (cfg_flash s)) [16 ..< unat len]))"
  using firmware.sends_all [of s 16 "[]"] flash.read_view [OF assms(1), of 4 4] assms
  by (simp add: Http_GetFirmware_def)

lemma get_u32_header: "get_u32 0 (map (overlay 0 (header_bytes n) f) [4 ..< 8]) = n"
proof -
  have "[4 ..< 8] = [4, 5, 6, 7 :: nat]" by (simp add: upt_rec)
  moreover have "get_u32 4 (header_bytes n) = n" unfolding header_bytes_def by (rule get_put_u32) (simp add: firmware_mark_def)
  ultimately show ?thesis by (simp add: get_u32_def overlay_def)
qed

text \<open>
  C38. The firmware comes back: what an update has received (the file, and the bytes of the line end before the boundary that were
  stored with it, if any) is what \<open>bin/ipcam.bin\<close> then sends, also after a restart. The announced length is 16 too large, the length
  of the header which is not sent.
\<close>

theorem firmware_comes_back:
  assumes "form_ok L b ls F" and "lib_httpMyStrncpy L b 128 = b" and "usi_inv (cfg_flash (upd_flash u))"
    and "16 + length (upload_form b ls F) \<le> 2 ^ 24" and "may_upload rq b u" and "concat ds = upload_form b ls F"
  shows "\<exists>u'. upload_pieces L rq ds first_slot u = Inr (Some (Reply ''text/plain'' ''OK''), u')
    \<and> Http_GetFirmware ((upd_flash u')\<lparr>cfg_flash := usi_power_cycle (cfg_flash (upd_flash u'))\<rparr>)
        = Some (Inr (of_nat (16 + length (received b F)), received b F))"
proof -
  let ?R = "received b F"
  from upload_form_run [OF assms(1-6)] obtain s where
    s: "upload_pieces L rq ds first_slot u =
      Inr (Some (Reply ''text/plain'' ''OK''), u\<lparr>iFlashUpdateState := FIRMWARE_STOP, upd_flash := (upd_flash u)\<lparr>cfg_flash := s\<rparr>\<rparr>)"
    "usi_view (usi_power_cycle s) = overlay 0 (header_bytes (of_nat (16 + length ?R))) (overlay 16 ?R (usi_view (cfg_flash (upd_flash u))))"
    by auto
  let ?n = "of_nat (16 + length ?R) :: u32" and ?f = "(upd_flash u)\<lparr>cfg_flash := usi_power_cycle s\<rparr>"
  have len: "16 + length ?R \<le> 2 ^ 24" using assms(4) by (simp add: upload_form_def received_def)
  then have n: "unat ?n = 16 + length ?R" by (subst unat_of_nat) simp
  have "get_u32 0 (map (usi_view (cfg_flash ?f)) [4 ..< 8]) = ?n" using get_u32_header by (simp add: s(2))
  from Http_GetFirmware_run [OF _ _ this] usi_power_cycle_inv assms(5) len
  have "Http_GetFirmware ?f = Some (Inr (?n, map (usi_view (cfg_flash ?f)) [16 ..< 16 + length ?R]))"
    unfolding n by (simp add: may_upload_def)
  moreover have "map (usi_view (cfg_flash ?f)) [16 ..< 16 + length ?R] = ?R"
    using overlay_inside [of 16 ?R "usi_view (cfg_flash (upd_flash u))"]
      overlay_outside [of "16 + length ?R" 0 "header_bytes ?n" 16 "overlay 16 ?R (usi_view (cfg_flash (upd_flash u)))"]
    by (simp add: s(2))
  ultimately show ?thesis using s(1) by simp
qed

theorem firmware_comes_back_witness:
  "\<exists>u'. upload_pieces example_upload_lib example_upload [upload_form [120, 121] [[65]] [1, 2, 3]] first_slot example_update
      = Inr (Some (Reply ''text/plain'' ''OK''), u')
    \<and> Http_GetFirmware ((upd_flash u')\<lparr>cfg_flash := usi_power_cycle (cfg_flash (upd_flash u'))\<rparr>) = Some (Inr (19, [1, 2, 3]))"
proof -
  have c: "concat [upload_form [120, 121] [[65]] [1, 2, 3]] = upload_form [120, 121] [[65]] [1, 2, 3]" by simp
  have n: "(of_nat (16 + length [1, 2, 3 :: u8]) :: u32) = 19" by simp
  have R: "received [120, 121] [1, 2, 3] = [1, 2, 3]" by (simp add: received_def flushed_bytes_def)
  show ?thesis using firmware_comes_back [OF example_form_ok example_upload_simps c] unfolding R n by simp
qed

subsection \<open>What goes wrong\<close>

text \<open>As long as no part of the form is called \<open>SourceFile\<close>, nothing is written.\<close>

definition no_file :: "upload_lib \<Rightarrow> u8 list \<Rightarrow> bool" where
  "no_file L cs = (\<forall>bs. sublist bs cs \<longrightarrow> inner_part_name L bs \<noteq> Some ''SourceFile'')"

lemma no_file_char:
  assumes "up_inv cs p" and "iState p \<noteq> MPST_BODYFILE" and "no_file L (cs @ [ch])"
  shows "\<exists>p'. process_char L ch (p, s) = Inr (p', s) \<and> up_inv (cs @ [ch]) p' \<and> iState p' \<noteq> MPST_BODYFILE
    \<and> pfFlashTmpFile p' = pfFlashTmpFile p"
proof -
  have ok: "mp_ok p" "suffix (mp_data p) cs" "length (acBuf p) = 32768" using assms(1) by (simp_all add: up_inv_def)
  note c = MPClean_added [OF ok(1), of ch] MPAddChar_suffix [OF ok(1,2), of ch] MPAddChar_ok [OF ok(1), of ch]
  let ?q = "MPClean (MPAddChar p ch)"
  have "take (pcBufDataEnd ?q - pcBufDataHeader ?q) (drop (pcBufDataHeader ?q) (acBuf ?q)) = mp_data (MPAddChar p ch)"
    using MPClean_data(2) [OF c(5) MPAddChar_nonempty [OF ok(1)]] MPClean_turned(2) [OF c(5) MPAddChar_nonempty [OF ok(1)]] by simp
  then have "inner_part_name L (take (pcBufDataEnd ?q - pcBufDataHeader ?q) (drop (pcBufDataHeader ?q) (acBuf ?q))) \<noteq> Some ''SourceFile''"
    using assms(3) c(4) by (simp add: no_file_def suffix_imp_sublist)
  then have h: "iState (end_of_header L ch (MPAddChar p ch)) \<noteq> MPST_BODYFILE" "pfFlashTmpFile (end_of_header L ch (MPAddChar p ch)) = pfFlashTmpFile p"
    by (auto simp: end_of_header_def Let_def split: option.split)
  have b: "pfFlashTmpFile (body_param L (MPAddChar p ch)) = pfFlashTmpFile p"
    "iState p = MPST_BODYPARAM \<Longrightarrow> iState (body_param L (MPAddChar p ch)) \<noteq> MPST_BODYFILE"
    by (simp_all add: body_param_def Let_def split: option.split)
  show ?thesis
    using assms(2) ok c h b end_of_header_inv [OF assms(1,2), of ch L] body_param_inv [OF assms(1), of ch L]
    by (cases "iState p") (auto simp: process_char_def Let_def intro!: up_inv_next [OF assms(1)])
qed

lemma no_file_run:
  assumes "up_inv cs p" and "iState p \<noteq> MPST_BODYFILE" and "no_file L (cs @ ds)"
  shows "\<exists>p'. ProcessUpdate L ds (p, s) = Inr (p', s) \<and> pfFlashTmpFile p' = pfFlashTmpFile p"
  using assms
proof (induction ds arbitrary: cs p)
  case (Cons ch ds)
  have "sublist bs (cs @ ch # ds)" if sub: "sublist bs (cs @ [ch])" for bs
  proof -
    obtain ps ss where "cs @ [ch] = ps @ bs @ ss" using sub by (auto simp: sublist_def)
    moreover have "cs @ ch # ds = (cs @ [ch]) @ ds" by simp
    ultimately have "cs @ ch # ds = ps @ bs @ (ss @ ds)" by (simp only: append_assoc)
    then show ?thesis unfolding sublist_def by blast
  qed
  then have "no_file L (cs @ [ch])" using Cons.prems(3) by (auto simp: no_file_def)
  from no_file_char [OF Cons.prems(1,2) this, of s] obtain p1 where
    p1: "process_char L ch (p, s) = Inr (p1, s)" "up_inv (cs @ [ch]) p1" "iState p1 \<noteq> MPST_BODYFILE" "pfFlashTmpFile p1 = pfFlashTmpFile p"
    by blast
  with Cons.IH [OF p1(2,3)] Cons.prems(3) show ?case by simp
qed simp

text \<open>
  A form without the file ruins the firmware: the request is accepted, nothing is written but the header, and that says
  that the firmware is empty; after a restart there is no firmware to send.
\<close>

theorem upload_without_file:
  assumes "no_file L (concat ds)" and "\<forall>b. length (lib_httpMyStrncpy L b 128) < 128" and "usi_inv (cfg_flash (upd_flash u))"
    and "16 + length (concat ds) \<le> 2 ^ 24" and "may_upload rq b u" and "ds \<noteq> []"
    and "upload_pieces L rq ds first_slot u = Inr (r, u')"
  shows "usi_view (cfg_flash (upd_flash u')) = overlay 0 (header_bytes 16) (usi_view (cfg_flash (upd_flash u)))
    \<and> Http_GetFirmware ((upd_flash u')\<lparr>cfg_flash := usi_power_cycle (cfg_flash (upd_flash u'))\<rparr>) = Some (Inr (16, []))"
proof -
  let ?s = "cfg_flash (upd_flash u)"
  have inv: "up_inv [] (new_upload L b)" using new_upload_inv assms(2) by blast
  have p0: "iState (new_upload L b) \<noteq> MPST_BODYFILE" "pfFlashTmpFile (new_upload L b) = 16" by (simp_all add: new_upload_def Let_def)
  from no_file_run [OF inv p0(1), of L "concat ds" ?s] assms(1) p0(2) obtain p where
    p: "ProcessUpdate L (concat ds) (new_upload L b, ?s) = Inr (p, ?s)" "pfFlashTmpFile p = 16" by auto
  have "upload_pieces L rq ds first_slot u
      = bnd (start_upload L rq (concat ds) u) (\<lambda>(sl1, u1). bnd (finish_upload sl1 u1) (\<lambda>(r, u2). Inr (Some r, u2)))"
    using pieces_whole [OF assms(6), of u L rq first_slot] assms(5) by (simp add: first_slot_def take_piece_def may_upload_def)
  also have "start_upload L rq (concat ds) u = Inr (\<lparr>piPostState = POST_OK, ppcPostBuf = Some p\<rparr>,
      u\<lparr>iFlashUpdateState := FIRMWARE_UPLOADING, upd_flash := (upd_flash u)\<lparr>cfg_flash := ?s\<rparr>\<rparr>)"
    using p(1) by (simp add: may_upload_start [OF assms(5)] feed_def)
  finally have "upload_pieces L rq ds first_slot u =
      bnd (finish_upload \<lparr>piPostState = POST_OK, ppcPostBuf = Some p\<rparr>
        (u\<lparr>iFlashUpdateState := FIRMWARE_UPLOADING, upd_flash := (upd_flash u)\<lparr>cfg_flash := ?s\<rparr>\<rparr>)) (\<lambda>(r, u2). Inr (Some r, u2))" by simp
  moreover from write_header_ok [OF assms(3), of p] obtain s' where s': "write_header p ?s = Inr s'"
    "usi_view s' = overlay 0 (header_bytes 16) (usi_view ?s)" "usi_view (usi_power_cycle s') = usi_view s'" by (auto simp: p(2))
  ultimately have u': "upd_flash u' = (upd_flash u)\<lparr>cfg_flash := s'\<rparr>"
    using assms(7) by (cases "upload_reply \<lparr>piPostState = POST_OK, ppcPostBuf = Some p\<rparr>") (auto simp: finish_upload_def)
  let ?f = "(upd_flash u)\<lparr>cfg_flash := usi_power_cycle s'\<rparr>"
  have "get_u32 0 (map (usi_view (cfg_flash ?f)) [4 ..< 8]) = 16" using get_u32_header by (simp add: s'(2,3))
  from Http_GetFirmware_run [OF _ _ this] have "Http_GetFirmware ?f = Some (Inr (16, []))"
    using usi_power_cycle_inv assms(5) by (simp add: may_upload_def)
  then show ?thesis using s'(2) by (simp add: u')
qed

theorem upload_without_file_witness:
  "\<exists>r u'. upload_pieces example_upload_lib example_upload [[1, 2, 3]] first_slot example_update = Inr (r, u')
    \<and> Http_GetFirmware ((upd_flash u')\<lparr>cfg_flash := usi_power_cycle (cfg_flash (upd_flash u'))\<rparr>) = Some (Inr (16, []))"
proof -
  have nf: "no_file example_upload_lib (concat [[1, 2, 3]])"
    by (auto simp: no_file_def example_upload_lib_def header_block_def sublist_def Cons_eq_append_conv)
  have cp: "\<forall>b. length (lib_httpMyStrncpy example_upload_lib b 128) < 128" by (simp add: example_upload_lib_def min_less_iff_disj)
  have sz: "16 + length (concat [[1, 2, 3 :: u8]]) \<le> 2 ^ 24" by simp
  let ?p = "MPAddChar (MPAddChar (MPAddChar (new_upload example_upload_lib [120, 121]) 1) 2) 3"
  have st: "iState (new_upload example_upload_lib [120, 121]) = MPST_IGNORE" "pParamList (new_upload example_upload_lib [120, 121]) = []"
    by (simp_all add: new_upload_def Let_def)
  from write_header_ok [OF example_upload_simps(2), of ?p] obtain s' where
    "write_header ?p (cfg_flash (upd_flash example_update)) = Inr s'" by blast
  then have "\<exists>r u'. upload_pieces example_upload_lib example_upload [[1, 2, 3]] first_slot example_update = Inr (r, u')"
    using st example_upload_simps(4)
    by (simp add: Http_Post_FMUpload_def take_piece_def first_slot_def may_upload_start [OF example_upload_simps(4)] feed_def process_char_def
        finish_upload_def upload_reply_def response_text_def httpGetString_def)
  then obtain r u' where run: "upload_pieces example_upload_lib example_upload [[1, 2, 3]] first_slot example_update = Inr (r, u')" by blast
  with upload_without_file [OF nf cp example_upload_simps(2) sz example_upload_simps(4) _ run] show ?thesis by blast
qed

text \<open>
  The update lock does not exclude: a request that failed for another reason resets it when its last piece arrives, while
  someone else's upload is running. Of three administrators, the first without a boundary, the second and the third then
  write the same part of the flash at the same time; without the first, the third would have been refused.
\<close>

theorem upload_lock_released:
  assumes "may_upload rqB b u" and "may_upload rqC c u" and "may_upload rqA a u" and "up_boundary rqX = None"
    and "rqX = rqA\<lparr>up_boundary := None\<rparr>" and "\<forall>b. length (lib_httpMyStrncpy L b 128) < 128"
    and "usi_inv (cfg_flash (upd_flash u))" and "16 + length dB \<le> 2 ^ 24" and "16 + length dC \<le> 2 ^ 24"
  shows "\<exists>slX slB slC uB uX uC r.
      Http_Post_FMUpload L rqX dX True first_slot u = Inr (1, None, slX, u)
    \<and> Http_Post_FMUpload L rqB dB True first_slot u = Inr (1, None, slB, uB) \<and> piPostState slB = POST_OK
    \<and> take_piece L rqC dC first_slot uB = Inr (\<lparr>piPostState = POST_SHARE_UPLOADING, ppcPostBuf = None\<rparr>, uB)
    \<and> Http_Post_FMUpload L rqX eX False slX uB = Inr (1, Some r, slX, uX)
    \<and> Http_Post_FMUpload L rqC dC True first_slot uX = Inr (1, None, slC, uC) \<and> piPostState slC = POST_OK"
proof -
  let ?up = "u\<lparr>iFlashUpdateState := FIRMWARE_UPLOADING\<rparr>"
  from feed_inv [OF new_upload_inv, of L b ?up dB L] assms(6-8) obtain p s where
    B: "feed L dB (new_upload L b) ?up = Inr (\<lparr>piPostState = POST_OK, ppcPostBuf = Some p\<rparr>, ?up\<lparr>upd_flash := (upd_flash u)\<lparr>cfg_flash := s\<rparr>\<rparr>)"
    "flash_inside (length dB) (cfg_flash (upd_flash u)) s" by auto
  let ?uB = "?up\<lparr>upd_flash := (upd_flash u)\<lparr>cfg_flash := s\<rparr>\<rparr>" and ?slX = "\<lparr>piPostState = POST_ERROR, ppcPostBuf = None\<rparr>"
  let ?uX = "?uB\<lparr>iFlashUpdateState := FIRMWARE_STOP\<rparr>"
  have "usi_inv s" using B(2) by (simp add: flash_inside_def)
  with feed_inv [OF new_upload_inv, of L c "?uX\<lparr>iFlashUpdateState := FIRMWARE_UPLOADING\<rparr>" dC L] assms(6,9) obtain p' s' where
    C: "feed L dC (new_upload L c) (?uX\<lparr>iFlashUpdateState := FIRMWARE_UPLOADING\<rparr>)
      = Inr (\<lparr>piPostState = POST_OK, ppcPostBuf = Some p'\<rparr>,
          (?uX\<lparr>iFlashUpdateState := FIRMWARE_UPLOADING\<rparr>)\<lparr>upd_flash := (upd_flash u)\<lparr>cfg_flash := s'\<rparr>\<rparr>)" by auto
  have mC: "may_upload rqC c ?uX" using assms(2) by (simp add: may_upload_def)
  have rdy: "USI_IS_READY (upd_flash u)" using assms(1) by (simp add: may_upload_def)
  have X: "Http_Post_FMUpload L rqX dX True first_slot u = Inr (1, None, ?slX, u)"
    using assms(3-5) by (simp add: Http_Post_FMUpload_def take_piece_def first_slot_def start_upload_def may_upload_def Let_def)
  have B': "Http_Post_FMUpload L rqB dB True first_slot u = Inr (1, None, \<lparr>piPostState = POST_OK, ppcPostBuf = Some p\<rparr>, ?uB)"
    using B(1) rdy by (simp add: Http_Post_FMUpload_def take_piece_def first_slot_def may_upload_start [OF assms(1)])
  have D: "take_piece L rqC dC first_slot ?uB = Inr (\<lparr>piPostState = POST_SHARE_UPLOADING, ppcPostBuf = None\<rparr>, ?uB)"
    using assms(2) by (simp add: take_piece_def first_slot_def start_upload_def may_upload_def Let_def)
  have E: "Http_Post_FMUpload L rqX eX False ?slX ?uB = Inr (1, Some (Reply ''text/plain'' ''Error''), ?slX, ?uX)"
    using rdy by (simp add: Http_Post_FMUpload_def take_piece_def finish_upload_def upload_reply_def response_text_def)
  have "Http_Post_FMUpload L rqC dC True first_slot ?uX = Inr (1, None, \<lparr>piPostState = POST_OK, ppcPostBuf = Some p'\<rparr>,
      (?uX\<lparr>iFlashUpdateState := FIRMWARE_UPLOADING\<rparr>)\<lparr>upd_flash := (upd_flash u)\<lparr>cfg_flash := s'\<rparr>\<rparr>)"
  proof -
    have "take_piece L rqC dC first_slot ?uX = start_upload L rqC dC ?uX"
      by (simp add: take_piece_def first_slot_def)
    also have "\<dots> = Inr (\<lparr>piPostState = POST_OK, ppcPostBuf = Some p'\<rparr>,
      (?uX\<lparr>iFlashUpdateState := FIRMWARE_UPLOADING\<rparr>)\<lparr>upd_flash := (upd_flash u)\<lparr>cfg_flash := s'\<rparr>\<rparr>)"
      by (simp only: may_upload_start [OF mC] C)
    finally show ?thesis using rdy by (simp add: Http_Post_FMUpload_def)
  qed
  with X B' D E show ?thesis
    by (intro exI [of _ ?slX] exI [of _ "\<lparr>piPostState = POST_OK, ppcPostBuf = Some p\<rparr>"]
      exI [of _ "\<lparr>piPostState = POST_OK, ppcPostBuf = Some p'\<rparr>"] exI [of _ ?uB] exI [of _ ?uX] exI conjI) simp_all
qed

theorem upload_lock_released_witness:
  "\<exists>slB slC uB uX uC.
      Http_Post_FMUpload example_upload_lib example_upload [1] True first_slot example_update = Inr (1, None, slB, uB) \<and> piPostState slB = POST_OK
    \<and> Http_Post_FMUpload example_upload_lib example_upload [2] True first_slot uX = Inr (1, None, slC, uC) \<and> piPostState slC = POST_OK"
proof -
  let ?X = "example_upload\<lparr>up_boundary := None\<rparr>"
  have cp: "\<forall>b. length (lib_httpMyStrncpy example_upload_lib b 128) < 128" by (simp add: example_upload_lib_def min_less_iff_disj)
  note m = example_upload_simps(4)
  show ?thesis
    using upload_lock_released [OF m m m _ refl cp example_upload_simps(2), of "[1]" "[2]" "[]" "[]"] by fastforce
qed

end
