(* ===== verification/SelectLoop.thy ===== *)
theory SelectLoop
  imports Rovio_Prelude
begin

section \<open>The select thread\<close>

text \<open>
  The thread of SSelect.c that drives the network clients of the camera: a list of descriptor objects, each with a function that
  is called in every round, \<open>select\<close> to wait, and a message queue to give the thread new objects and calls to make. The two
  descriptor sets live across the rounds and are only corrected where something changed. An object's container (\<open>GetParentAddr\<close>
  in the code) is its field \<open>owner\<close>; None is the object of the message queue itself, which is always in the list.
\<close>

subsection \<open>Descriptor objects\<close>

record 'o fd_t =
  iFD :: int
  iType :: nat
  iState :: nat
  iConnTimeout_InMSec :: int
  bReadable :: bool
  bWritable :: bool
  bWantRead :: bool
  bWantWrite :: bool
  owner :: "'o option"

definition ST_NET_INIT :: nat where "ST_NET_INIT = 0"
definition ST_NET_CONNECT :: nat where "ST_NET_CONNECT = 1"
definition ST_NET_CONNECTING :: nat where "ST_NET_CONNECTING = 2"
definition ST_NET_READ :: nat where "ST_NET_READ = 3"
definition ST_NET_WRITE :: nat where "ST_NET_WRITE = 4"
definition ST_NET_OVER :: nat where "ST_NET_OVER = 6"

lemmas net_states = ST_NET_INIT_def ST_NET_CONNECT_def ST_NET_CONNECTING_def ST_NET_READ_def ST_NET_WRITE_def ST_NET_OVER_def

definition SE_TP_MSG :: nat where "SE_TP_MSG = 0"
definition SE_TP_DDNSHTTPC :: nat where "SE_TP_DDNSHTTPC = 5"
definition SE_TP_CKIP_HTTPC :: nat where "SE_TP_CKIP_HTTPC = 6"

definition FD_Init :: "int \<Rightarrow> nat \<Rightarrow> nat \<Rightarrow> int \<Rightarrow> bool \<Rightarrow> bool \<Rightarrow> 'o option \<Rightarrow> 'o fd_t" where
  "FD_Init fd tp st t r w own = \<lparr>iFD = fd, iType = tp, iState = st, iConnTimeout_InMSec = t, bReadable = False, bWritable = False,
     bWantRead = r, bWantWrite = w, owner = own\<rparr>"

definition FD_Next :: "nat \<Rightarrow> bool \<Rightarrow> bool \<Rightarrow> int \<Rightarrow> 'o fd_t \<Rightarrow> 'o fd_t" where
  "FD_Next st r w t p = p\<lparr>iState := st, bWantRead := r, bWantWrite := w, iConnTimeout_InMSec := t\<rparr>"

text \<open>The messages of the thread, with what their \<open>lData\<close> points to (None: a null pointer), and the world the calls act on.\<close>

datatype ('o, 'c) thread_msg = MSG_NONE | MSG_QUIT | MSG_ADD_FD "'o fd_t option" | MSG_CUSTOM_PROC "'c option" | MSG_OTHER

record ('o, 'c, 'e) sel_world =
  pMsg :: "('o, 'c) thread_msg"
  msg_queue :: "('o, 'c) thread_msg list"
  env :: 'e

record 'o select_thread =
  fdReadSet :: "int set"
  fdWriteSet :: "int set"
  pFDList :: "'o fd_t list"

definition send_msg :: "('o, 'c) thread_msg \<Rightarrow> ('o, 'c, 'e) sel_world \<Rightarrow> ('o, 'c, 'e) sel_world" where
  "send_msg m W = W\<lparr>msg_queue := msg_queue W @ [m]\<rparr>"

definition AddSelectFD :: "'o fd_t \<Rightarrow> ('o, 'c, 'e) sel_world \<Rightarrow> ('o, 'c, 'e) sel_world" where
  "AddSelectFD p W = send_msg (MSG_ADD_FD (Some p)) W"

definition InsertCustomProcess :: "'c \<Rightarrow> ('o, 'c, 'e) sel_world \<Rightarrow> ('o, 'c, 'e) sel_world" where
  "InsertCustomProcess c W = send_msg (MSG_CUSTOM_PROC (Some c)) W"

text \<open>The object of the queue: a byte in its pipe announces each message, so \<open>GetMsg\<close> does not wait when the pipe is readable.\<close>

definition SELECT_MSG_Process :: "'o fd_t \<Rightarrow> ('o, 'c, 'e) sel_world \<Rightarrow> (bool \<times> 'o fd_t \<times> ('o, 'c, 'e) sel_world) checked" where
  "SELECT_MSG_Process p W =
     (if \<not> bReadable p then Inr (True, p, W)
      else case msg_queue W of [] \<Rightarrow> Inl Hang | m # q \<Rightarrow> Inr (True, p, W\<lparr>pMsg := m, msg_queue := q\<rparr>))"

definition SELECT_MSG_Init :: "int \<Rightarrow> 'o fd_t" where
  "SELECT_MSG_Init fd = FD_Init fd SE_TP_MSG 0 (- 1) True False None"

subsection \<open>One round\<close>

text \<open>Before \<open>select\<close>: the least time-out, the greatest descriptor, and the corrections of the sets.\<close>

definition least_timeout :: "'o fd_t list \<Rightarrow> int" where
  "least_timeout ps = fold (\<lambda>p t. if iConnTimeout_InMSec p \<ge> 0
     then if t < 0 then iConnTimeout_InMSec p else if t > iConnTimeout_InMSec p then iConnTimeout_InMSec p else t else t) ps (- 1)"

definition max_fd :: "'o fd_t list \<Rightarrow> int" where
  "max_fd ps = fold (\<lambda>p m. if iFD p \<ge> 0 \<and> (bWantRead p \<or> bWantWrite p) \<and> m < iFD p then iFD p else m) ps 0"

definition want_bit :: "bool \<Rightarrow> bool \<Rightarrow> int \<Rightarrow> int set \<Rightarrow> int set" where
  "want_bit bWant bAble fd S = (if bWant then if bAble then S else insert fd S else if bAble then S - {fd} else S)"

fun set_wants :: "'o fd_t list \<Rightarrow> int set \<times> int set \<Rightarrow> int set \<times> int set" where
  "set_wants [] RW = RW"
| "set_wants (p # ps) (R, W) =
     (if iFD p < 0 then set_wants ps (R, W)
      else set_wants ps (want_bit (bWantRead p) (bReadable p) (iFD p) R, want_bit (bWantWrite p) (bWritable p) (iFD p) W))"

text \<open>
  What \<open>select\<close> may answer: the sets of those that are ready, a time-out, an error the thread goes on after (EINTR, EBADF), or
  another one, which ends it. The time it is given is in seconds, None to wait for ever.
\<close>

datatype select_result = Ready "int set" "int set" | TimedOut | Interrupted | SelectError

definition select_time :: "int \<Rightarrow> int option" where
  "select_time t = (if t < 0 then None else Some (t div 1000))"

fun ready_sets :: "select_result \<Rightarrow> int set \<times> int set" where
  "ready_sets (Ready R W) = (R, W)"
| "ready_sets _ = ({}, {})"

fun mark_ready :: "select_result \<Rightarrow> 'o fd_t \<Rightarrow> 'o fd_t" where
  "mark_ready (Ready R W) p =
     (if iFD p < 0 then p\<lparr>bReadable := False, bWritable := False\<rparr>
      else p\<lparr>bReadable := bWantRead p \<and> iFD p \<in> R, bWritable := bWantWrite p \<and> iFD p \<in> W\<rparr>)"
| "mark_ready _ p = p\<lparr>bReadable := False, bWritable := False\<rparr>"

text \<open>\<open>FD_CLR\<close> of a negative descriptor writes outside the set.\<close>

definition fd_clr :: "bool \<Rightarrow> int \<Rightarrow> int set \<Rightarrow> int set checked" where
  "fd_clr bAble fd S = (if bAble then if fd < 0 then Inl OutOfBounds else Inr (S - {fd}) else Inr S)"

definition fd_moved :: "bool \<Rightarrow> int \<Rightarrow> int \<Rightarrow> int set \<Rightarrow> int set" where
  "fd_moved bAble fd fd' S =
     (if bAble then let S1 = (if fd \<ge> 0 then S - {fd} else S) in if fd' \<ge> 0 then insert fd' S1 else S1 else S)"

text \<open>The calls: an object whose function returns FALSE leaves the list.\<close>

fun process_fds ::
  "('o fd_t \<Rightarrow> ('o, 'c, 'e) sel_world \<Rightarrow> (bool \<times> 'o fd_t \<times> ('o, 'c, 'e) sel_world) checked) \<Rightarrow> 'o fd_t list \<Rightarrow> int set \<times> int set
     \<Rightarrow> ('o, 'c, 'e) sel_world \<Rightarrow> ('o fd_t list \<times> (int set \<times> int set) \<times> ('o, 'c, 'e) sel_world) checked" where
  "process_fds proc [] RW W = Inr ([], RW, W)"
| "process_fds proc (p # ps) (R, V) W =
     bnd (if owner p = None then SELECT_MSG_Process p W else proc p W) (\<lambda>(keep, p', W').
       if \<not> keep
       then bnd (fd_clr (bReadable p') (iFD p) R) (\<lambda>R'. bnd (fd_clr (bWritable p') (iFD p) V) (\<lambda>V'. process_fds proc ps (R', V') W'))
       else bnd (process_fds proc ps (if iFD p \<noteq> iFD p'
                    then (fd_moved (bReadable p') (iFD p) (iFD p') R, fd_moved (bWritable p') (iFD p) (iFD p') V) else (R, V)) W')
              (\<lambda>(ps', RW, W''). Inr (p' # ps', RW, W'')))"

text \<open>
  A pass of the loop up to the message: None if the thread ends. \<open>sel\<close> is the system's \<open>select\<close>; while the thread waits, others
  may put messages into the queue. Without any object the thread waits for a message.
\<close>

definition select_pass where
  "select_pass sel proc T W =
     (if pFDList T = []
      then case msg_queue W of [] \<Rightarrow> Inr (Some (T, W\<lparr>pMsg := MSG_NONE\<rparr>)) | m # q \<Rightarrow> Inr (Some (T, W\<lparr>pMsg := m, msg_queue := q\<rparr>))
      else
        let (R, V) = set_wants (pFDList T) (fdReadSet T, fdWriteSet T);
            (res, W1) = sel (max_fd (pFDList T) + 1) R V (select_time (least_timeout (pFDList T))) (W\<lparr>pMsg := MSG_NONE\<rparr>)
        in if res = SelectError then Inr None
           else bnd (process_fds proc (map (mark_ready res) (pFDList T)) (ready_sets res) W1) (\<lambda>(ps, (R', V'), W2).
                  Inr (Some (\<lparr>fdReadSet = R', fdWriteSet = V', pFDList = ps\<rparr>, W2))))"

text \<open>\<open>MSG_ADD_FD\<close> prints a member of the object before it is compared with NULL.\<close>

definition handle_msg where
  "handle_msg custom T W =
     (case pMsg W of
        MSG_QUIT \<Rightarrow> Inr None
      | MSG_ADD_FD None \<Rightarrow> Inl NullDeref
      | MSG_ADD_FD (Some p) \<Rightarrow> Inr (Some (T\<lparr>pFDList := pFDList T @ [p\<lparr>bReadable := False, bWritable := False\<rparr>]\<rparr>, W))
      | MSG_CUSTOM_PROC (Some c) \<Rightarrow> Inr (Some (custom c (T, W)))
      | _ \<Rightarrow> Inr (Some (T, W)))"

definition SelectThread_start :: "int \<Rightarrow> 'o select_thread" where
  "SelectThread_start fd = \<lparr>fdReadSet = {}, fdWriteSet = {}, pFDList = [SELECT_MSG_Init fd]\<rparr>"

text \<open>Rounds of the thread, with the descriptors of objects that a call removed from the list while they were ready.\<close>

definition ready_fds :: "'o fd_t list \<Rightarrow> int set" where
  "ready_fds ps = {iFD p | p. p \<in> set ps \<and> 0 \<le> iFD p \<and> (bReadable p \<or> bWritable p)}"

definition fds :: "'o fd_t list \<Rightarrow> int set" where
  "fds ps = {iFD p | p. p \<in> set ps \<and> 0 \<le> iFD p}"

inductive select_run for sel proc custom where
  start: "select_run sel proc custom s s {}"
| round: "select_run sel proc custom s (T, W) D \<Longrightarrow> select_pass sel proc T W = Inr (Some (T1, W1)) \<Longrightarrow>
     handle_msg custom T1 W1 = Inr (Some (T2, W2)) \<Longrightarrow> select_run sel proc custom s (T2, W2) (D \<union> (ready_fds (pFDList T1) - fds (pFDList T2)))"

inductive_cases select_runE: "select_run sel proc custom s s' D"

subsection \<open>The sets are right\<close>

text \<open>
  The descriptor sets agree with what the objects were told: a descriptor of the list is in a set exactly if its object is marked
  ready, and nothing else is but descriptors that were dropped while ready (\<open>D\<close>).
\<close>

definition wanted :: "('o fd_t \<Rightarrow> bool) \<Rightarrow> 'o fd_t list \<Rightarrow> int set" where
  "wanted want ps = {iFD p | p. p \<in> set ps \<and> 0 \<le> iFD p \<and> want p}"

definition separate :: "'o fd_t list \<Rightarrow> bool" where
  "separate ps = distinct (map iFD (filter (\<lambda>p. 0 \<le> iFD p) ps))"

definition matched :: "('o fd_t \<Rightarrow> bool) \<Rightarrow> 'o fd_t list \<Rightarrow> int set \<Rightarrow> int set \<Rightarrow> bool" where
  "matched able ps D S = ((\<forall>p\<in>set ps. 0 \<le> iFD p \<longrightarrow> (iFD p \<in> S \<longleftrightarrow> able p)) \<and> S \<subseteq> fds ps \<union> D)"

definition sets_ok :: "'o fd_t list \<Rightarrow> int set \<Rightarrow> int set \<times> int set \<Rightarrow> int set \<Rightarrow> bool" where
  "sets_ok ps D RW own = (separate ps \<and> matched bReadable ps D (fst RW) \<and> matched bWritable ps D (snd RW)
     \<and> fds ps \<subseteq> own \<and> D \<subseteq> own \<and> D \<inter> fds ps = {} \<and> (\<forall>x\<in>D. 0 \<le> x))"

lemma fds_simps [simp]: "fds [] = {}" "fds (xs @ ys) = fds xs \<union> fds ys"
  "fds (p # ps) = (if 0 \<le> iFD p then insert (iFD p) (fds ps) else fds ps)"
  by (auto simp: fds_def)

lemma fds_in: "p \<in> set ps \<Longrightarrow> 0 \<le> iFD p \<Longrightarrow> iFD p \<in> fds ps"
  by (auto simp: fds_def)

lemma fds_nonneg: "x \<in> fds ps \<Longrightarrow> 0 \<le> x"
  by (auto simp: fds_def)

lemma separate_simps [simp]: "separate []" "separate (p # ps) = ((0 \<le> iFD p \<longrightarrow> iFD p \<notin> fds ps) \<and> separate ps)"
  by (auto simp: separate_def fds_def)

lemma separate_append: "separate (xs @ ys) = (separate xs \<and> separate ys \<and> fds xs \<inter> fds ys = {})"
  by (induction xs) (auto dest: fds_nonneg)

lemma fds_filter: "fds (filter P ps) \<subseteq> fds ps"
  by (auto simp: fds_def)

lemma separate_filter: "separate ps \<Longrightarrow> separate (filter P ps)"
  by (induction ps) (use fds_filter in auto)

lemma want_bit_other: "x \<noteq> fd \<Longrightarrow> x \<in> want_bit w a fd S \<longleftrightarrow> x \<in> S"
  by (simp add: want_bit_def)

lemma want_bit_self: "(fd \<in> S \<longleftrightarrow> a) \<Longrightarrow> fd \<in> want_bit w a fd S \<longleftrightarrow> w"
  by (auto simp: want_bit_def)

text \<open>Each set is corrected on its own.\<close>

fun set_wants1 :: "('o fd_t \<Rightarrow> bool) \<Rightarrow> ('o fd_t \<Rightarrow> bool) \<Rightarrow> 'o fd_t list \<Rightarrow> int set \<Rightarrow> int set" where
  "set_wants1 want able [] S = S"
| "set_wants1 want able (p # ps) S = set_wants1 want able ps (if iFD p < 0 then S else want_bit (want p) (able p) (iFD p) S)"

lemma set_wants_split:
  "set_wants ps (R, V) = (set_wants1 bWantRead bReadable ps R, set_wants1 bWantWrite bWritable ps V)"
  by (induction ps "(R, V)" arbitrary: R V rule: set_wants.induct) auto

lemma set_wants1_in:
  assumes "separate ps" and "\<forall>p\<in>set ps. 0 \<le> iFD p \<longrightarrow> (iFD p \<in> S \<longleftrightarrow> able p)"
  shows "x \<in> set_wants1 want able ps S \<longleftrightarrow> (if x \<in> fds ps then x \<in> wanted want ps else x \<in> S)"
  using assms
proof (induction ps arbitrary: S)
  case (Cons p ps)
  show ?case
  proof (cases "iFD p < 0")
    case True
    then have "wanted want (p # ps) = wanted want ps" by (auto simp: wanted_def)
    with True Cons show ?thesis by simp
  next
    case False
    let ?S = "want_bit (want p) (able p) (iFD p) S"
    have n: "iFD p \<notin> fds ps" "separate ps" using Cons.prems(1) False by simp_all
    then have "\<forall>q\<in>set ps. 0 \<le> iFD q \<longrightarrow> (iFD q \<in> ?S \<longleftrightarrow> able q)"
      using Cons.prems(2) fds_in by (metis list.set_intros(2) want_bit_other)
    then have ih: "x \<in> set_wants1 want able ps ?S \<longleftrightarrow> (if x \<in> fds ps then x \<in> wanted want ps else x \<in> ?S)"
      using Cons.IH n by blast
    have w: "wanted want (p # ps) = (if want p then insert (iFD p) (wanted want ps) else wanted want ps)"
      using False by (auto simp: wanted_def)
    have s: "wanted want ps \<subseteq> fds ps" by (auto simp: wanted_def fds_def)
    have me: "iFD p \<in> ?S \<longleftrightarrow> want p" using Cons.prems(2) False by (intro want_bit_self) simp
    show ?thesis
    proof (cases "x = iFD p")
      case True
      then show ?thesis using ih me n s False w by auto
    next
      case neq: False
      then show ?thesis using ih False w by (auto simp: want_bit_other)
    qed
  qed
qed (simp add: wanted_def)

lemma set_wants1_exact:
  assumes "separate ps" and "matched able ps D S" and "D \<inter> fds ps = {}"
  shows "wanted want ps \<subseteq> set_wants1 want able ps S" and "set_wants1 want able ps S \<subseteq> wanted want ps \<union> D"
proof -
  have m: "\<forall>p\<in>set ps. 0 \<le> iFD p \<longrightarrow> (iFD p \<in> S \<longleftrightarrow> able p)" "S \<subseteq> fds ps \<union> D" using assms(2) by (simp_all add: matched_def)
  have "wanted want ps \<subseteq> fds ps" by (auto simp: wanted_def fds_def)
  then show "wanted want ps \<subseteq> set_wants1 want able ps S" using set_wants1_in [OF assms(1) m(1)] by auto
  show "set_wants1 want able ps S \<subseteq> wanted want ps \<union> D" using set_wants1_in [OF assms(1) m(1)] m(2) by (auto split: if_splits)
qed

lemma set_wants1_eq:
  assumes "separate ps" and "matched able ps D S" and "D \<inter> fds ps = {}"
  shows "set_wants1 want able ps S = wanted want ps \<union> (S \<inter> D)"
proof -
  have m: "\<forall>p\<in>set ps. 0 \<le> iFD p \<longrightarrow> (iFD p \<in> S \<longleftrightarrow> able p)" "S \<subseteq> fds ps \<union> D" using assms(2) by (simp_all add: matched_def)
  have "wanted want ps \<subseteq> fds ps" by (auto simp: wanted_def fds_def)
  then show ?thesis using set_wants1_in [OF assms(1) m(1)] m(2) assms(3) by (auto split: if_splits)
qed

lemma iFD_mark [simp]: "iFD (mark_ready res p) = iFD p"
  by (cases res) simp_all

lemma fds_mark [simp]: "fds (map (mark_ready res) ps) = fds ps"
  by (induction ps) simp_all

lemma separate_mark [simp]: "separate (map (mark_ready res) ps) = separate ps"
  by (induction ps) simp_all

lemma separate_same:
  assumes "separate ps" and "p \<in> set ps" and "q \<in> set ps" and "0 \<le> iFD p" and "iFD q = iFD p"
  shows "q = p"
proof -
  have "inj_on iFD {x \<in> set ps. 0 \<le> iFD x}" using assms(1) by (simp add: separate_def distinct_map)
  then show ?thesis by (rule inj_onD) (use assms in simp_all)
qed

lemma mark_matched:
  assumes "fst (ready_sets res) \<subseteq> set_wants1 bWantRead a ps R" and "snd (ready_sets res) \<subseteq> set_wants1 bWantWrite b ps V"
    and "separate ps" and "matched a ps D R" and "matched b ps D V" and "D \<inter> fds ps = {}"
  shows "matched bReadable (map (mark_ready res) ps) D (fst (ready_sets res))
    \<and> matched bWritable (map (mark_ready res) ps) D (snd (ready_sets res))"
proof -
  have R: "set_wants1 bWantRead a ps R \<subseteq> wanted bWantRead ps \<union> D" and V: "set_wants1 bWantWrite b ps V \<subseteq> wanted bWantWrite ps \<union> D"
    using set_wants1_exact(2) assms(3-6) by blast+
  have w: "wanted want ps \<subseteq> fds ps" for want by (auto simp: wanted_def fds_def)
  have wr: "want p" if p: "p \<in> set ps" "0 \<le> iFD p" and i: "iFD p \<in> wanted want ps \<union> D" for p want
  proof -
    have "iFD p \<in> wanted want ps" using i assms(6) fds_in [OF p] by blast
    then obtain q where "q \<in> set ps" "want q" "iFD q = iFD p" by (auto simp: wanted_def)
    then show ?thesis using separate_same [OF assms(3) p(1) _ p(2)] by blast
  qed
  show ?thesis
  proof (cases res)
    case (Ready R' V')
    then have "R' \<subseteq> wanted bWantRead ps \<union> D" "V' \<subseteq> wanted bWantWrite ps \<union> D" using assms(1,2) R V by auto
    with Ready w show ?thesis using wr [of _ bWantRead] wr [of _ bWantWrite] by (auto simp: matched_def fds_mark)
  qed (auto simp: matched_def)
qed

subsection \<open>The contract of the clients\<close>

text \<open>
  What the thread relies on. \<open>select\<close> returns subsets of what it is given and does not touch the thread's descriptors; a client's
  function keeps its ready marks, closes only its own descriptor and opens only one the thread does not have yet (\<open>opened\<close>:
  the descriptors the thread has open); calls that are sent to the thread may remove objects but neither touch the sets nor close
  anything; and an object enters the list with no descriptor (\<open>call_ok\<close> says the same of the calls that add one).
\<close>

definition fresh_adds :: "('c \<Rightarrow> bool) \<Rightarrow> ('o, 'c, 'e) sel_world \<Rightarrow> bool" where
  "fresh_adds call_ok W = (\<forall>m \<in> set (pMsg W # msg_queue W).
     (\<forall>p. m = MSG_ADD_FD (Some p) \<longrightarrow> iFD p < 0 \<and> owner p \<noteq> None) \<and> (\<forall>c. m = MSG_CUSTOM_PROC (Some c) \<longrightarrow> call_ok c))"

lemma fresh_adds_upd:
  "fresh_adds call_ok W \<Longrightarrow> fresh_adds call_ok (W\<lparr>pMsg := MSG_NONE\<rparr>)"
  "fresh_adds call_ok W \<Longrightarrow> msg_queue W = m # q \<Longrightarrow> fresh_adds call_ok (W\<lparr>pMsg := m, msg_queue := q\<rparr>)"
  by (auto simp: fresh_adds_def)

locale select_clients =
  fixes sel :: "int \<Rightarrow> int set \<Rightarrow> int set \<Rightarrow> int option \<Rightarrow> ('o, 'c, 'e) sel_world \<Rightarrow> select_result \<times> ('o, 'c, 'e) sel_world"
    and proc :: "'o fd_t \<Rightarrow> ('o, 'c, 'e) sel_world \<Rightarrow> (bool \<times> 'o fd_t \<times> ('o, 'c, 'e) sel_world) checked"
    and custom :: "'c \<Rightarrow> 'o select_thread \<times> ('o, 'c, 'e) sel_world \<Rightarrow> 'o select_thread \<times> ('o, 'c, 'e) sel_world"
    and opened :: "'e \<Rightarrow> int set"
    and call_ok :: "'c \<Rightarrow> bool"
  assumes sel_law: "sel n R V t W = (res, W') \<Longrightarrow>
      fst (ready_sets res) \<subseteq> R \<and> snd (ready_sets res) \<subseteq> V \<and> opened (env W') = opened (env W) \<and> (fresh_adds call_ok W \<longrightarrow> fresh_adds call_ok W')"
    and proc_law: "proc p W = Inr (keep, p', W') \<Longrightarrow> owner p \<noteq> None \<Longrightarrow> fresh_adds call_ok W \<Longrightarrow>
      bReadable p' = bReadable p \<and> bWritable p' = bWritable p \<and> fresh_adds call_ok W' \<and> opened (env W) - {iFD p} \<subseteq> opened (env W')
      \<and> (keep \<longrightarrow> 0 \<le> iFD p' \<longrightarrow> (iFD p' = iFD p \<and> (iFD p \<in> opened (env W) \<longrightarrow> iFD p \<in> opened (env W')))
           \<or> (iFD p' \<in> opened (env W') \<and> iFD p' \<notin> opened (env W) - {iFD p}))"
    and custom_law: "custom c (T, W) = (T', W') \<Longrightarrow> fresh_adds call_ok W \<Longrightarrow> call_ok c \<Longrightarrow>
      fresh_adds call_ok W' \<and> opened (env W) \<subseteq> opened (env W') \<and> fdReadSet T' = fdReadSet T \<and> fdWriteSet T' = fdWriteSet T
      \<and> (\<exists>P. pFDList T' = filter P (pFDList T))"
begin

definition call where
  "call p W = (if owner p = None then SELECT_MSG_Process p W else proc p W)"

lemma call_law:
  assumes "call p W = Inr (keep, p', W')" and "fresh_adds call_ok W"
  shows "bReadable p' = bReadable p \<and> bWritable p' = bWritable p \<and> fresh_adds call_ok W' \<and> opened (env W) - {iFD p} \<subseteq> opened (env W')
      \<and> (keep \<longrightarrow> 0 \<le> iFD p' \<longrightarrow> (iFD p' = iFD p \<and> (iFD p \<in> opened (env W) \<longrightarrow> iFD p \<in> opened (env W')))
           \<or> (iFD p' \<in> opened (env W') \<and> iFD p' \<notin> opened (env W) - {iFD p}))"
proof (cases "owner p = None")
  case True
  with assms show ?thesis
    by (auto simp: call_def SELECT_MSG_Process_def fresh_adds_upd split: if_splits list.splits)
next
  case False
  with assms(1) have "proc p W = Inr (keep, p', W')" by (simp add: call_def)
  from proc_law [OF this False assms(2)] show ?thesis .
qed

text \<open>One set, while one object is called: \<open>xs\<close> were called before, \<open>ps\<close> are still to be.\<close>

lemma matched_removed:
  assumes "matched able (xs @ p # ps) D S" and "separate (xs @ p # ps)" and "fd_clr (able p) (iFD p) S = Inr S'"
  shows "matched able (xs @ ps) D S'"
proof -
  have S': "S' = (if able p then S - {iFD p} else S)" and n: "able p \<Longrightarrow> 0 \<le> iFD p"
    using assms(3) by (auto simp: fd_clr_def split: if_splits)
  have old: "0 \<le> iFD p \<Longrightarrow> iFD p \<notin> fds xs \<union> fds ps" using assms(2) by (auto simp: separate_append)
  have "iFD q \<noteq> iFD p" if "q \<in> set (xs @ ps)" "0 \<le> iFD q" for q using old that fds_in [of q] by fastforce
  then have "\<forall>q\<in>set (xs @ ps). 0 \<le> iFD q \<longrightarrow> (iFD q \<in> S' \<longleftrightarrow> able q)"
    using assms(1) unfolding matched_def S' by auto
  moreover have "S' \<subseteq> fds (xs @ ps) \<union> D"
  proof
    fix x assume "x \<in> S'"
    then have "x \<in> S" "x = iFD p \<Longrightarrow> \<not> able p" by (auto simp: S' split: if_splits)
    moreover have "iFD p \<in> S \<longleftrightarrow> able p" if "0 \<le> iFD p" using assms(1) that by (simp add: matched_def)
    ultimately show "x \<in> fds (xs @ ps) \<union> D" using assms(1) by (auto simp: matched_def split: if_splits)
  qed
  ultimately show ?thesis by (simp add: matched_def)
qed

lemma matched_moved:
  assumes m: "matched able (xs @ p # ps) D S" and s: "separate (xs @ p # ps)" and a: "able p' = able p"
    and new: "0 \<le> iFD p' \<Longrightarrow> iFD p' \<noteq> iFD p \<Longrightarrow> iFD p' \<notin> fds xs \<union> fds ps \<union> D"
  shows "matched able (xs @ p' # ps) D (if iFD p \<noteq> iFD p' then fd_moved (able p') (iFD p) (iFD p') S else S)"
proof (cases "iFD p = iFD p'")
  case True
  with m a show ?thesis by (auto simp: matched_def)
next
  case False
  let ?S = "fd_moved (able p') (iFD p) (iFD p') S"
  have old: "0 \<le> iFD p \<Longrightarrow> iFD p \<notin> fds xs \<union> fds ps" using s by (auto simp: separate_append)
  have S: "\<forall>q\<in>set xs \<union> set ps. 0 \<le> iFD q \<longrightarrow> (iFD q \<in> S \<longleftrightarrow> able q)" "0 \<le> iFD p \<Longrightarrow> iFD p \<in> S \<longleftrightarrow> able p" "S \<subseteq> fds xs \<union> fds ps \<union> D \<union> {iFD p}"
    using m by (auto simp: matched_def split: if_splits)
  have in_S: "x \<in> ?S \<longleftrightarrow> (if able p then (x = iFD p' \<and> 0 \<le> iFD p') \<or> (x \<in> S \<and> (x = iFD p \<longrightarrow> iFD p < 0)) else x \<in> S)" for x
    using a by (auto simp: fd_moved_def Let_def)
  have sub: "S \<subseteq> fds xs \<union> fds ps \<union> D \<union> (if 0 \<le> iFD p then {iFD p} else {})"
    using m by (auto simp: matched_def)
  have q: "iFD q \<in> ?S \<longleftrightarrow> able q" if "q \<in> set xs \<union> set ps" "0 \<le> iFD q" for q
  proof -
    have f: "iFD q \<in> fds xs \<union> fds ps" using that fds_in by fast
    have "iFD q \<noteq> iFD p'" using new False f that(2) by fastforce
    moreover have "iFD q \<noteq> iFD p" using old f that(2) by fastforce
    ultimately show ?thesis using S(1) that in_S by simp
  qed
  moreover have "iFD p' \<in> ?S \<longleftrightarrow> able p'" if "0 \<le> iFD p'"
  proof -
    have "iFD p' \<notin> S" using new [OF that] False sub by (auto split: if_splits)
    then show ?thesis using in_S that a by metis
  qed
  moreover have "x \<in> fds (xs @ p' # ps) \<union> D" if "x \<in> ?S" for x
  proof (cases "x = iFD p'")
    case True
    show ?thesis
    proof (cases "0 \<le> iFD p'")
      case n: False
      then have "x \<in> S" using that in_S True by metis
      with sub n True False show ?thesis using fds_nonneg by (auto split: if_splits)
    qed (use True in simp)
  next
    case x: False
    then have "x \<in> S" using that in_S by metis
    moreover have "x \<noteq> iFD p" if "0 \<le> iFD p"
    proof
      assume "x = iFD p"
      with \<open>x \<in> ?S\<close> x in_S that S(2) \<open>x \<in> S\<close> show False by (metis linorder_not_less)
    qed
    ultimately show ?thesis using sub by (auto split: if_splits)
  qed
  ultimately have "\<forall>q\<in>set (xs @ p' # ps). 0 \<le> iFD q \<longrightarrow> (iFD q \<in> ?S \<longleftrightarrow> (if q = p' then able p' else able q))"
    "?S \<subseteq> fds (xs @ p' # ps) \<union> D" by (simp_all add: subset_iff)
  then show ?thesis using False by (simp add: matched_def)
qed

lemma process_fds_ok:
  "process_fds proc ps RW W = Inr (ps', RW', W') \<Longrightarrow> sets_ok (xs @ ps) D RW (opened (env W)) \<Longrightarrow> fresh_adds call_ok W \<Longrightarrow>
     sets_ok (xs @ ps') D RW' (opened (env W')) \<and> fresh_adds call_ok W'"
proof (induction ps arbitrary: xs RW W ps' RW' W')
  case (Cons p ps)
  obtain R V where RW: "RW = (R, V)" by (cases RW)
  from Cons.prems(1) obtain keep p1 W1 where c: "call p W = Inr (keep, p1, W1)"
    unfolding RW by (auto simp: bnd_Inr call_def)
  note law = call_law [OF c Cons.prems(3)]
  let ?o = "opened (env W)" and ?o1 = "opened (env W1)"
  have ok: "separate (xs @ p # ps)" "matched bReadable (xs @ p # ps) D R" "matched bWritable (xs @ p # ps) D V"
    "fds (xs @ p # ps) \<subseteq> ?o" "D \<subseteq> ?o" "D \<inter> fds (xs @ p # ps) = {}" "\<forall>x\<in>D. 0 \<le> x"
    using Cons.prems(2) by (simp_all add: sets_ok_def RW)
  have others: "fds (xs @ ps) \<subseteq> ?o1" "D \<subseteq> ?o1"
  proof -
    have "iFD p \<notin> fds (xs @ ps)" using ok(1) fds_nonneg by (fastforce simp: separate_append split: if_splits)
    then show "fds (xs @ ps) \<subseteq> ?o1" using law ok(4) by (auto split: if_splits)
    have "iFD p \<notin> D" using ok(6,7) by (cases "0 \<le> iFD p") auto
    then show "D \<subseteq> ?o1" using law ok(5) by auto
  qed
  have rest: "D \<inter> fds (xs @ ps) = {}" "fds xs \<inter> fds ps = {}" "separate xs" "separate ps"
    using ok(1,6) by (auto simp: separate_append split: if_splits)
  show ?case
  proof (cases keep)
    case False
    with Cons.prems(1) c obtain R1 V1 where rv: "fd_clr (bReadable p) (iFD p) R = Inr R1" "fd_clr (bWritable p) (iFD p) V = Inr V1"
      and r: "process_fds proc ps (R1, V1) W1 = Inr (ps', RW', W')" using law
      unfolding RW by (auto simp: bnd_Inr call_def [symmetric])
    have "sets_ok (xs @ ps) D (R1, V1) ?o1"
      using matched_removed [OF ok(2,1) rv(1)] matched_removed [OF ok(3,1) rv(2)] ok(7) others rest
      by (simp add: sets_ok_def separate_append)
    then show ?thesis using Cons.IH [OF r] law by blast
  next
    case True
    let ?R = "if iFD p \<noteq> iFD p1 then fd_moved (bReadable p1) (iFD p) (iFD p1) R else R"
    let ?V = "if iFD p \<noteq> iFD p1 then fd_moved (bWritable p1) (iFD p) (iFD p1) V else V"
    from True Cons.prems(1) c obtain ps1 where ps': "ps' = p1 # ps1" and r: "process_fds proc ps (?R, ?V) W1 = Inr (ps1, RW', W')"
      unfolding RW by (auto simp: bnd_Inr call_def [symmetric] split: if_splits)
    have new: "iFD p1 \<notin> fds xs \<union> fds ps \<union> D" if "0 \<le> iFD p1" "iFD p1 \<noteq> iFD p"
    proof -
      have "iFD p1 \<notin> ?o" using law True that by auto
      then show ?thesis using ok(4,5) by (auto split: if_splits)
    qed
    have own: "0 \<le> iFD p1 \<Longrightarrow> iFD p1 \<in> ?o1" using law True ok(4) by (auto split: if_splits)
    have apart: "0 \<le> iFD p1 \<Longrightarrow> iFD p1 \<notin> fds xs \<union> fds ps \<union> D"
      using new ok(1,6) by (cases "iFD p1 = iFD p") (auto simp: separate_append)
    have able: "bReadable p1 = bReadable p" "bWritable p1 = bWritable p" using law by simp_all
    have "sets_ok (xs @ p1 # ps) D (?R, ?V) ?o1"
      using matched_moved [OF ok(2,1) able(1) new] matched_moved [OF ok(3,1) able(2) new] ok(7) others own apart rest
      by (cases "0 \<le> iFD p1") (simp_all add: sets_ok_def separate_append Int_Un_distrib)
    then show ?thesis using Cons.IH [where xs = "xs @ [p1]", OF r] law ps' by simp
  qed
qed simp

lemma select_pass_ok:
  assumes "select_pass sel proc T W = Inr (Some (T', W'))" and "sets_ok (pFDList T) D (fdReadSet T, fdWriteSet T) (opened (env W))" and "fresh_adds call_ok W"
  shows "sets_ok (pFDList T') D (fdReadSet T', fdWriteSet T') (opened (env W')) \<and> fresh_adds call_ok W'"
proof (cases "pFDList T = []")
  case True
  with assms show ?thesis by (auto simp: select_pass_def fresh_adds_upd split: list.splits)
next
  case False
  let ?ps = "pFDList T" and ?W = "W\<lparr>pMsg := MSG_NONE\<rparr>"
  let ?R = "set_wants1 bWantRead bReadable ?ps (fdReadSet T)" and ?V = "set_wants1 bWantWrite bWritable ?ps (fdWriteSet T)"
  obtain res W1 where s: "sel (max_fd ?ps + 1) ?R ?V (select_time (least_timeout ?ps)) ?W = (res, W1)" by fastforce
  from assms(1) False s obtain ps R' V' where
    p: "process_fds proc (map (mark_ready res) ?ps) (ready_sets res) W1 = Inr (ps, (R', V'), W')"
    and T': "T' = \<lparr>fdReadSet = R', fdWriteSet = V', pFDList = ps\<rparr>"
    by (auto simp: select_pass_def set_wants_split Let_def bnd_Inr split: if_splits)
  have fa: "fresh_adds call_ok ?W" using assms(3) by (rule fresh_adds_upd)
  note law = sel_law [OF s]
  have ok: "separate ?ps" "matched bReadable ?ps D (fdReadSet T)" "matched bWritable ?ps D (fdWriteSet T)" "D \<inter> fds ?ps = {}"
    using assms(2) by (simp_all add: sets_ok_def)
  have "sets_ok ([] @ map (mark_ready res) ?ps) D (ready_sets res) (opened (env W1))"
    using mark_matched [OF conjunct1 [OF law] conjunct1 [OF conjunct2 [OF law]] ok] assms(2) law by (simp add: sets_ok_def)
  from process_fds_ok [OF p this] law fa show ?thesis by (simp add: T')
qed

lemma handle_msg_ok:
  assumes "handle_msg custom T W = Inr (Some (T', W'))" and "sets_ok (pFDList T) D (fdReadSet T, fdWriteSet T) (opened (env W))" and "fresh_adds call_ok W"
  shows "sets_ok (pFDList T') (D \<union> (ready_fds (pFDList T) - fds (pFDList T'))) (fdReadSet T', fdWriteSet T') (opened (env W')) \<and> fresh_adds call_ok W'"
proof -
  have same: ?thesis if "T' = T" "W' = W"
  proof -
    have "D \<union> (ready_fds (pFDList T) - fds (pFDList T)) = D" by (auto simp: ready_fds_def fds_def)
    with that assms(2,3) show ?thesis by (simp only: simp_thms)
  qed
  show ?thesis
  proof (cases "pMsg W")
    case (MSG_ADD_FD m)
    with assms(1) obtain p where p: "m = Some p" "W' = W" "T' = T\<lparr>pFDList := pFDList T @ [p\<lparr>bReadable := False, bWritable := False\<rparr>]\<rparr>"
      by (auto simp: handle_msg_def split: option.splits)
    have n: "iFD p < 0" using assms(3) MSG_ADD_FD p(1) by (simp add: fresh_adds_def)
    then have d: "D \<union> (ready_fds (pFDList T) - fds (pFDList T')) = D" by (auto simp: ready_fds_def fds_def p)
    show ?thesis using assms(2,3) n unfolding d by (auto simp: sets_ok_def matched_def separate_append p)
  next
    case (MSG_CUSTOM_PROC m)
    show ?thesis
    proof (cases m)
      case (Some c)
      with assms(1) MSG_CUSTOM_PROC have c: "custom c (T, W) = (T', W')" by (simp add: handle_msg_def)
      have "call_ok c" using assms(3) MSG_CUSTOM_PROC Some by (simp add: fresh_adds_def)
      from custom_law [OF c assms(3) this] obtain P where l: "fresh_adds call_ok W'" "opened (env W) \<subseteq> opened (env W')" "fdReadSet T' = fdReadSet T"
        "fdWriteSet T' = fdWriteSet T" "pFDList T' = filter P (pFDList T)" by blast
      let ?ps = "pFDList T" and ?qs = "pFDList T'"
      let ?D = "D \<union> (ready_fds ?ps - fds ?qs)"
      have sub: "fds ?qs \<subseteq> fds ?ps" "set ?qs \<subseteq> set ?ps" by (auto simp: l(5) fds_def)
      have sep: "separate ?qs" unfolding l(5) by (rule separate_filter) (use assms(2) in \<open>simp add: sets_ok_def\<close>)
      have m: "matched able ?qs ?D S" if "matched able ?ps D S" and a: "able = bReadable \<or> able = bWritable" for able S
      proof -
        have "x \<in> fds ?qs \<union> ?D" if "x \<in> S" for x
        proof (cases "x \<in> fds ?ps")
          case True
          then obtain p where "p \<in> set ?ps" "iFD p = x" "0 \<le> iFD p" by (auto simp: fds_def)
          moreover from this have "able p" using \<open>matched able ?ps D S\<close> \<open>x \<in> S\<close> by (auto simp: matched_def)
          ultimately have "x \<in> ready_fds ?ps" using a by (auto simp: ready_fds_def)
          then show ?thesis by blast
        qed (use \<open>x \<in> S\<close> \<open>matched able ?ps D S\<close> in \<open>auto simp: matched_def\<close>)
        with \<open>matched able ?ps D S\<close> sub(2) show ?thesis by (auto simp: matched_def)
      qed
      have r: "ready_fds ?ps \<subseteq> fds ?ps" by (auto simp: ready_fds_def fds_def)
      have o: "matched bReadable ?ps D (fdReadSet T)" "matched bWritable ?ps D (fdWriteSet T)" "fds ?ps \<subseteq> opened (env W)"
        "D \<subseteq> opened (env W)" "D \<inter> fds ?ps = {}" "\<forall>x\<in>D. 0 \<le> x" using assms(2) by (simp_all add: sets_ok_def)
      have "?D \<subseteq> opened (env W')" using o(3,4) r l(2) by blast
      moreover have "fds ?qs \<subseteq> opened (env W')" using o(3) sub(1) l(2) by blast
      moreover have "?D \<inter> fds ?qs = {}" using o(5) sub(1) by blast
      moreover have "\<forall>x\<in>?D. 0 \<le> x" using o(6) r fds_nonneg by blast
      ultimately show ?thesis using m [OF o(1)] m [OF o(2)] sep l(1) by (simp add: sets_ok_def l(3,4))
    next
      case None
      with assms(1) MSG_CUSTOM_PROC have "T' = T \<and> W' = W" by (simp add: handle_msg_def)
      then show ?thesis using same by blast
    qed
  next
    case MSG_NONE
    with assms(1) have "T' = T \<and> W' = W" by (simp add: handle_msg_def)
    then show ?thesis using same by blast
  next
    case MSG_OTHER
    with assms(1) have "T' = T \<and> W' = W" by (simp add: handle_msg_def)
    then show ?thesis using same by blast
  next
    case MSG_QUIT
    with assms(1) show ?thesis by (simp add: handle_msg_def)
  qed
qed

lemma run_sets_ok:
  assumes "select_run sel proc custom s s' D" and "sets_ok (pFDList (fst s)) D0 (fdReadSet (fst s), fdWriteSet (fst s)) (opened (env (snd s)))"
    and "fresh_adds call_ok (snd s)"
  shows "sets_ok (pFDList (fst s')) (D0 \<union> D) (fdReadSet (fst s'), fdWriteSet (fst s')) (opened (env (snd s'))) \<and> fresh_adds call_ok (snd s')"
  using assms
proof (induction rule: select_run.induct)
  case (round s T W D T1 W1 T2 W2)
  have i: "sets_ok (pFDList T) (D0 \<union> D) (fdReadSet T, fdWriteSet T) (opened (env W)) \<and> fresh_adds call_ok W"
    using round(4) [OF round(5,6)] by simp
  have "sets_ok (pFDList T1) (D0 \<union> D) (fdReadSet T1, fdWriteSet T1) (opened (env W1)) \<and> fresh_adds call_ok W1"
    using select_pass_ok [OF round(2)] i by blast
  then show ?case using handle_msg_ok [OF round(3)] unfolding fst_conv snd_conv Un_assoc [symmetric] by blast
qed simp

lemma sets_exact:
  assumes "select_run sel proc custom (SelectThread_start fd, W0) (T, W) D" and "0 \<le> fd" "fd \<in> opened (env W0)" "fresh_adds call_ok W0"
    and "set_wants (pFDList T) (fdReadSet T, fdWriteSet T) = (R, V)"
  shows "R = wanted bWantRead (pFDList T) \<union> (fdReadSet T \<inter> D) \<and> V = wanted bWantWrite (pFDList T) \<union> (fdWriteSet T \<inter> D)
    \<and> D \<inter> fds (pFDList T) = {} \<and> D \<subseteq> opened (env W)"
proof -
  have "sets_ok (pFDList (SelectThread_start fd :: 'o select_thread)) {} ({}, {}) (opened (env W0))"
    using assms(2,3) by (simp add: SelectThread_start_def SELECT_MSG_Init_def FD_Init_def sets_ok_def matched_def)
  then have "sets_ok (pFDList T) D (fdReadSet T, fdWriteSet T) (opened (env W))"
    using run_sets_ok [OF assms(1), of "{}"] assms(4) by (simp add: SelectThread_start_def)
  then have ok: "separate (pFDList T)" "matched bReadable (pFDList T) D (fdReadSet T)" "matched bWritable (pFDList T) D (fdWriteSet T)"
    "D \<inter> fds (pFDList T) = {}" "D \<subseteq> opened (env W)" by (simp_all add: sets_ok_def)
  then show ?thesis using set_wants1_eq [OF ok(1,2,4), of bWantRead] set_wants1_eq [OF ok(1,3,4), of bWantWrite] assms(5)
    by (auto simp: set_wants_split)
qed

end

end
