(* ===== verification/Relay.thy ===== *)
theory Relay
  imports SelectLoop "HOL-Library.Sublist"
begin

section \<open>Remote access through a relay (BypassClient.c)\<close>

text \<open>
  A camera behind a router is reached through a server outside: for each channel the camera keeps one connection to that server
  (the remote end) and one to its own web server (the local end), and carries the bytes between them. The two ends are objects of the
  select thread (SelectLoop) that also change each other: \<open>acBuffer\<close> of an end holds the bytes to be written to it, and the other end
  reads into it. The channel is modelled as the pair of its ends, with what their present connections have carried as a history
  that the code does not keep (\<open>srv_out\<close> to \<open>web_in\<close>).
\<close>

subsection \<open>The two ends\<close>

definition ST_NET_HALT :: nat where "ST_NET_HALT = 7"
definition ST_NET_RESET :: nat where "ST_NET_RESET = 8"
definition SE_TP_BPC :: nat where "SE_TP_BPC = 7"

lemmas relay_states = net_states ST_NET_HALT_def ST_NET_RESET_def

definition BP_BUFFER :: nat where "BP_BUFFER = 256"
definition tConnTimeout :: int where "tConnTimeout = 10"

record bp_end =
  bp_fd :: "unit fd_t"
  tLastOp :: int
  bp_acBuffer :: "u8 list"
  iLenTotal :: nat

record bp_local = bp_end +
  iLocalPort :: u32

record bp_remote = bp_end +
  bLocalUsed :: bool
  addrHost :: u32
  pcMagicStr :: "u8 list"
  iMagicStrLen :: nat

record relay =
  pLocal :: bp_local
  pRemote :: bp_remote
  local_listed :: bool
  remote_listed :: bool
  srv_out :: "u8 list"
  srv_in :: "u8 list"
  web_out :: "u8 list"
  web_in :: "u8 list"

text \<open>
  What the system answers in one call of an end. \<open>c_taken\<close> is how much \<open>write\<close> takes and \<open>c_got\<close> what \<open>read\<close> gives, both at most as
  much as asked; nothing stands for an answer of 0 or -1, and then \<open>c_write_again\<close>, \<open>c_read_again\<close> say whether \<open>errno\<close> is EWOULDBLOCK,
  EAGAIN or EINTR. \<open>c_garbage\<close> is what the caller finds as the answer of a function that ends without \<open>return\<close>.
\<close>

record bp_call =
  c_resolve :: "u32 option"
  c_socket :: int
  c_nonblock :: bool
  c_error :: "int option"
  c_taken :: nat
  c_write_again :: bool
  c_got :: "u8 list"
  c_read_again :: bool
  c_time :: int
  c_garbage :: bool

definition BP_LOCAL_Init :: "u32 \<Rightarrow> bp_local" where
  "BP_LOCAL_Init port = \<lparr>bp_fd = FD_Init (- 1) SE_TP_BPC ST_NET_INIT 0 False False None, tLastOp = 0,
     bp_acBuffer = replicate BP_BUFFER 0, iLenTotal = 0, iLocalPort = port\<rparr>"

definition BP_REMOTE_Init :: "u8 list \<Rightarrow> nat \<Rightarrow> bp_remote" where
  "BP_REMOTE_Init magic len = \<lparr>bp_fd = FD_Init (- 1) SE_TP_BPC ST_NET_INIT 0 False False None, tLastOp = 0,
     bp_acBuffer = replicate BP_BUFFER 0, iLenTotal = 0, bLocalUsed = False, addrHost = 0, pcMagicStr = magic, iMagicStrLen = len\<rparr>"

subsection \<open>What both ends do\<close>

definition st :: "'a bp_end_scheme \<Rightarrow> nat" where
  "st e = iState (bp_fd e)"

definition bp_next :: "nat \<Rightarrow> bool \<Rightarrow> bool \<Rightarrow> int \<Rightarrow> 'a bp_end_scheme \<Rightarrow> 'a bp_end_scheme" where
  "bp_next s r w t e = e\<lparr>bp_fd := FD_Next s r w t (bp_fd e)\<rparr>"

definition bp_close :: "'a bp_end_scheme \<Rightarrow> 'a bp_end_scheme" where
  "bp_close e = e\<lparr>bp_fd := (bp_fd e)\<lparr>iFD := - 1\<rparr>\<rparr>"

text \<open>A new socket, not blocking, and \<open>connect\<close>, whose answer nobody looks at.\<close>

definition bp_connect :: "bp_call \<Rightarrow> 'a bp_end_scheme \<Rightarrow> 'a bp_end_scheme" where
  "bp_connect c e =
     (let e1 = e\<lparr>bp_fd := (bp_fd e)\<lparr>iFD := c_socket c\<rparr>\<rparr>
      in if c_socket c < 0 \<or> \<not> c_nonblock c then bp_next ST_NET_OVER False False 0 e1
         else (bp_next ST_NET_CONNECTING True True (tConnTimeout * 1000) e1)\<lparr>tLastOp := c_time c\<rparr>)"

definition bp_write :: "bp_call \<Rightarrow> 'a bp_end_scheme \<Rightarrow> (u8 list \<times> 'a bp_end_scheme) option checked" where
  "bp_write c e =
     (if bWritable (bp_fd e) \<and> iLenTotal e > 0
      then if iLenTotal e > length (bp_acBuffer e) then Inl OutOfBounds
           else let n = min (c_taken c) (iLenTotal e); rest = iLenTotal e - n
                in if n > 0
                   then Inr (Some (take n (bp_acBuffer e), e\<lparr>tLastOp := c_time c, iLenTotal := rest,
                          bp_acBuffer := blit 0 (take rest (drop n (bp_acBuffer e))) (bp_acBuffer e)\<rparr>))
                   else if c_write_again c then Inr (Some ([], e)) else Inr None
      else Inr (Some ([], e)))"

definition bp_read :: "bp_call \<Rightarrow> 'a bp_end_scheme \<Rightarrow> 'b bp_end_scheme \<Rightarrow> (u8 list \<times> 'a bp_end_scheme \<times> 'b bp_end_scheme) option checked" where
  "bp_read c e other =
     (if bReadable (bp_fd e) \<and> BP_BUFFER > iLenTotal other
      then let got = take (BP_BUFFER - iLenTotal other) (c_got c)
           in if got \<noteq> []
              then if iLenTotal other + length got > length (bp_acBuffer other) then Inl OutOfBounds
                   else Inr (Some (got, e\<lparr>tLastOp := c_time c\<rparr>, other\<lparr>bp_acBuffer := blit (iLenTotal other) got (bp_acBuffer other),
                          iLenTotal := iLenTotal other + length got\<rparr>))
              else if c_read_again c then Inr (Some ([], e, other)) else Inr None
      else Inr (Some ([], e, other)))"

subsection \<open>The local end\<close>

definition local_read :: "bp_call \<Rightarrow> relay \<Rightarrow> (bool \<times> relay) checked" where
  "local_read c s =
     bnd (bp_write c (pLocal s)) (\<lambda>w. case w of
       None \<Rightarrow> Inr (True, s\<lparr>pLocal := bp_next ST_NET_OVER False False 0 (pLocal s)\<rparr>)
     | Some (out, L1) \<Rightarrow> bnd (bp_read c L1 (pRemote s)) (\<lambda>r. case r of
         None \<Rightarrow> Inr (True, s\<lparr>pLocal := bp_next ST_NET_OVER False False 0 L1, web_out := web_out s @ out\<rparr>)
       | Some (got, L2, R1) \<Rightarrow>
         let late = (c_time c - tLastOp L2 > tConnTimeout);
             L3 = (if late then bp_next ST_NET_OVER False False 0 L2
                   else bp_next ST_NET_READ (BP_BUFFER > iLenTotal R1) (iLenTotal L2 > 0) (tConnTimeout * 1000) L2);
             R2 = (if \<not> late \<and> st R1 = ST_NET_READ
                   then bp_next ST_NET_READ (BP_BUFFER > iLenTotal L2) (iLenTotal R1 > 0) (iConnTimeout_InMSec (bp_fd R1)) R1 else R1)
         in Inr (True, s\<lparr>pLocal := L3, pRemote := R2, web_out := web_out s @ out, web_in := web_in s @ got\<rparr>)))"

definition BP_LOCAL_Process :: "bp_call \<Rightarrow> relay \<Rightarrow> (bool \<times> relay) checked" where
  "BP_LOCAL_Process c s =
     (let L = pLocal s
      in if st L = ST_NET_INIT then Inr (True, s\<lparr>pLocal := bp_next ST_NET_CONNECT False False 0 (L\<lparr>iLenTotal := 0\<rparr>)\<rparr>)
         else if st L = ST_NET_CONNECT then Inr (True, s\<lparr>pLocal := bp_connect c (bp_close L), web_out := []\<rparr>)
         else if st L = ST_NET_CONNECTING
         then if \<not> (bReadable (bp_fd L) \<or> bWritable (bp_fd L))
              then Inr (True, if c_time c - tLastOp L > tConnTimeout then s\<lparr>pLocal := bp_next ST_NET_CONNECT False False 0 L\<rparr> else s)
              else if c_error c = Some 0
              then Inr (True, s\<lparr>pLocal := bp_next ST_NET_READ True (iLenTotal L > 0) (tConnTimeout * 1000) (L\<lparr>tLastOp := c_time c\<rparr>)\<rparr>)
              else Inr (True, s\<lparr>pLocal := bp_next ST_NET_CONNECT False False 0 L\<rparr>)
         else if st L = ST_NET_READ then local_read c s
         else if st L = ST_NET_OVER
         then Inr (True, s\<lparr>pLocal := if st (pRemote s) = ST_NET_READ then bp_next ST_NET_RESET False False 0 (bp_close L)
                                      else bp_next ST_NET_HALT False False 60000 (bp_close L)\<rparr>)
         else if st L = ST_NET_RESET then Inr (True, s\<lparr>pLocal := bp_next ST_NET_INIT False False 0 (bp_close L)\<rparr>)
         else if st L = ST_NET_HALT then Inr (c_garbage c, s)
         else Inr (False, s))"

subsection \<open>The remote end\<close>

text \<open>The greeting: \<open>strncpy\<close> into the cleared buffer, and its length as it was given, whatever the string is.\<close>

definition greeting :: "bp_remote \<Rightarrow> u8 list" where
  "greeting R = take (iMagicStrLen R) (pcMagicStr R @ replicate (iMagicStrLen R) 0)"

definition remote_read :: "bp_call \<Rightarrow> relay \<Rightarrow> (bool \<times> relay) checked" where
  "remote_read c s =
     bnd (bp_write c (pRemote s)) (\<lambda>w. case w of
       None \<Rightarrow> Inr (True, s\<lparr>pRemote := bp_next ST_NET_OVER False False 0 (pRemote s)\<rparr>)
     | Some (out, R1) \<Rightarrow> bnd (bp_read c R1 (pLocal s)) (\<lambda>r. case r of
         None \<Rightarrow> Inr (True, s\<lparr>pRemote := bp_next ST_NET_OVER False False 0 R1, srv_out := srv_out s @ out\<rparr>)
       | Some (got, R2, L1) \<Rightarrow>
         let late = (c_time c - tLastOp R2 > tConnTimeout);
             R3 = (if late then bp_next ST_NET_OVER False False 0 R2
                   else bp_next ST_NET_READ (BP_BUFFER > iLenTotal L1) (iLenTotal R2 > 0) (tConnTimeout * 1000) (R2\<lparr>bLocalUsed := True\<rparr>));
             L2 = (if \<not> late \<and> st L1 = ST_NET_READ
                   then bp_next ST_NET_READ (BP_BUFFER > iLenTotal R2) (iLenTotal L1 > 0) (iConnTimeout_InMSec (bp_fd L1)) L1 else L1)
         in Inr (True, s\<lparr>pLocal := L2, pRemote := R3, srv_out := srv_out s @ out, srv_in := srv_in s @ got\<rparr>)))"

definition remote_connected :: "bp_call \<Rightarrow> relay \<Rightarrow> (bool \<times> relay) checked" where
  "remote_connected c s =
     (let R = pRemote s
      in if iMagicStrLen R > length (bp_acBuffer R) then Inl OutOfBounds
         else let R1 = R\<lparr>tLastOp := c_time c, bp_acBuffer := blit 0 (greeting R) (bp_acBuffer R), iLenTotal := iMagicStrLen R\<rparr>
              in Inr (True, s\<lparr>pRemote := bp_next ST_NET_READ True (iLenTotal R1 > 0) (tConnTimeout * 1000) R1,
                   pLocal := bp_next ST_NET_RESET False False 0 (pLocal s), web_in := []\<rparr>))"

definition BP_REMOTE_Process :: "int \<Rightarrow> bp_call \<Rightarrow> relay \<Rightarrow> (bool \<times> relay) checked" where
  "BP_REMOTE_Process uDelayTime_InMSec c s =
     (let R = pRemote s
      in if st R = ST_NET_INIT
         then case c_resolve c of
                None \<Rightarrow> Inr (True, s\<lparr>pRemote := bp_next ST_NET_OVER False False 1000 R\<rparr>)
              | Some a \<Rightarrow> Inr (True, s\<lparr>pRemote := bp_next ST_NET_CONNECT False False 0 (R\<lparr>addrHost := a\<rparr>)\<rparr>)
         else if st R = ST_NET_CONNECT
         then Inr (True, s\<lparr>pRemote := bp_connect c (bp_close R), srv_out := [], srv_in := []\<rparr>)
         else if st R = ST_NET_CONNECTING
         then if \<not> (bReadable (bp_fd R) \<or> bWritable (bp_fd R))
              then Inr (True, if c_time c - tLastOp R > tConnTimeout then s\<lparr>pRemote := bp_next ST_NET_CONNECT False False 0 R\<rparr> else s)
              else if c_error c = Some 0 then remote_connected c s
              else Inr (True, s\<lparr>pRemote := bp_next ST_NET_CONNECT False False 0 R\<rparr>)
         else if st R = ST_NET_READ then remote_read c s
         else if st R = ST_NET_OVER
         then Inr (True, s\<lparr>pLocal := bp_next ST_NET_HALT False False 60000 (pLocal s),
                pRemote := bp_next ST_NET_INIT False False uDelayTime_InMSec (bp_close R)\<rparr>)
         else Inr (False, s))"

subsection \<open>Rounds of the select thread\<close>

text \<open>
  A round marks what \<open>select\<close> found ready and calls the ends in the order of the list; an end whose function answers FALSE leaves it.
  The local end is entered first, the remote one by a later message.
\<close>

definition local_turn :: "bp_call \<Rightarrow> relay \<Rightarrow> relay checked" where
  "local_turn c s = (if local_listed s then bnd (BP_LOCAL_Process c s) (\<lambda>(keep, s'). Inr (s'\<lparr>local_listed := keep\<rparr>)) else Inr s)"

definition remote_turn :: "int \<Rightarrow> bp_call \<Rightarrow> relay \<Rightarrow> relay checked" where
  "remote_turn delay c s =
     (if remote_listed s then bnd (BP_REMOTE_Process delay c s) (\<lambda>(keep, s'). Inr (s'\<lparr>remote_listed := keep\<rparr>)) else Inr s)"

definition mark_end :: "select_result \<Rightarrow> 'a bp_end_scheme \<Rightarrow> 'a bp_end_scheme" where
  "mark_end res e = e\<lparr>bp_fd := mark_ready res (bp_fd e)\<rparr>"

datatype relay_event = Enter_remote | Round select_result bp_call bp_call

fun relay_step :: "int \<Rightarrow> relay_event \<Rightarrow> relay \<Rightarrow> relay checked" where
  "relay_step delay Enter_remote s = Inr (s\<lparr>remote_listed := True\<rparr>)"
| "relay_step delay (Round res cl cr) s =
     bnd (local_turn cl (s\<lparr>pLocal := if local_listed s then mark_end res (pLocal s) else pLocal s,
       pRemote := if remote_listed s then mark_end res (pRemote s) else pRemote s\<rparr>)) (remote_turn delay cr)"

fun relay_run :: "int \<Rightarrow> relay_event list \<Rightarrow> relay \<Rightarrow> relay checked" where
  "relay_run delay [] s = Inr s"
| "relay_run delay (e # es) s = bnd (relay_step delay e s) (relay_run delay es)"

definition BPC_channel :: "u32 \<Rightarrow> u8 list \<Rightarrow> nat \<Rightarrow> relay" where
  "BPC_channel port magic len = \<lparr>pLocal = BP_LOCAL_Init port, pRemote = BP_REMOTE_Init magic len, local_listed = True,
     remote_listed = False, srv_out = [], srv_in = [], web_out = [], web_in = []\<rparr>"

subsection \<open>What an end does to the buffers\<close>

definition content :: "'a bp_end_scheme \<Rightarrow> u8 list" where
  "content e = take (iLenTotal e) (bp_acBuffer e)"

definition buf_ok :: "'a bp_end_scheme \<Rightarrow> bool" where
  "buf_ok e = (length (bp_acBuffer e) = BP_BUFFER \<and> iLenTotal e \<le> BP_BUFFER)"

text \<open>An end that connects has a socket and waits for it.\<close>

definition waits :: "'a bp_end_scheme \<Rightarrow> bool" where
  "waits e = (st e = ST_NET_CONNECTING \<longrightarrow> 0 \<le> iFD (bp_fd e) \<and> bWantRead (bp_fd e) \<and> bWantWrite (bp_fd e))"

lemma end_sel [simp]: "content (bp_next x r w t e) = content e" "buf_ok (bp_next x r w t e) = buf_ok e" "content (bp_close e) = content e"
  "buf_ok (bp_close e) = buf_ok e" "content (mark_end res e) = content e" "buf_ok (mark_end res e) = buf_ok e"
  "st (e\<lparr>iLenTotal := n\<rparr>) = st e" "waits (e\<lparr>iLenTotal := n\<rparr>) = waits e" "st (bp_next x r w t e) = x" "st (bp_close e) = st e" "st (mark_end res e) = st e" "iLenTotal (bp_next x r w t e) = iLenTotal e"
  "tLastOp (bp_next x r w t e) = tLastOp e" "tLastOp (bp_close e) = tLastOp e" "tLastOp (mark_end res e) = tLastOp e"
  "content (e\<lparr>tLastOp := y\<rparr>) = content e" "buf_ok (e\<lparr>tLastOp := y\<rparr>) = buf_ok e" "st (e\<lparr>tLastOp := y\<rparr>) = st e"
  by (cases res; simp add: content_def buf_ok_def bp_next_def bp_close_def mark_end_def st_def FD_Next_def waits_def)+

lemma remote_sel [simp]: "content (R\<lparr>bLocalUsed := b\<rparr>) = content R" "buf_ok (R\<lparr>bLocalUsed := b\<rparr>) = buf_ok R"
  "content (R\<lparr>addrHost := a\<rparr>) = content R" "buf_ok (R\<lparr>addrHost := a\<rparr>) = buf_ok R"
  by (simp_all add: content_def buf_ok_def)

lemma blit_front: "length ys \<le> length xs \<Longrightarrow> take (length ys) (blit 0 ys xs) = ys"
  by (simp add: blit_def)

lemma blit_end: "n + length ys \<le> length xs \<Longrightarrow> take (n + length ys) (blit n ys xs) = take n xs @ ys"
  by (simp add: blit_def)

lemma bp_write_run:
  assumes "buf_ok e"
  shows "bp_write c e = Inr None
     \<or> (\<exists>out e'. bp_write c e = Inr (Some (out, e')) \<and> buf_ok e' \<and> content e = out @ content e' \<and> bp_fd e' = bp_fd e
          \<and> bp_end.more e' = bp_end.more e \<and> tLastOp e' \<in> {tLastOp e, c_time c} \<and> (out \<noteq> [] \<longrightarrow> tLastOp e' = c_time c))"
proof (cases "bWritable (bp_fd e) \<and> 0 < iLenTotal e \<and> 0 < c_taken c")
  case True
  define n where "n = min (c_taken c) (iLenTotal e)"
  define rest where "rest = take (iLenTotal e - n) (drop n (bp_acBuffer e))"
  have n: "0 < n" "n \<le> iLenTotal e" using True by (simp_all add: n_def)
  have b: "length (bp_acBuffer e) = BP_BUFFER" "iLenTotal e \<le> BP_BUFFER" using assms by (simp_all add: buf_ok_def)
  have r: "length rest = iLenTotal e - n" using b n by (simp add: rest_def)
  have "take (iLenTotal e - n) (blit 0 rest (bp_acBuffer e)) = rest"
    using blit_front [of rest "bp_acBuffer e"] b r by simp
  moreover have "content e = take n (bp_acBuffer e) @ rest"
    using n by (simp add: content_def rest_def) (metis le_add_diff_inverse take_add)
  moreover have "length (blit 0 rest (bp_acBuffer e)) = BP_BUFFER" using b r by simp
  moreover have "bp_write c e = Inr (Some (take n (bp_acBuffer e),
      e\<lparr>tLastOp := c_time c, iLenTotal := iLenTotal e - n, bp_acBuffer := blit 0 rest (bp_acBuffer e)\<rparr>))"
    using True b n by (simp add: bp_write_def Let_def n_def rest_def)
  ultimately show ?thesis using b by (simp add: buf_ok_def content_def)
next
  case False
  then show ?thesis using assms by (auto simp: bp_write_def Let_def buf_ok_def)
qed

lemma bp_read_run:
  assumes "buf_ok other"
  shows "bp_read c e other = Inr None
     \<or> (\<exists>got t other'. bp_read c e other = Inr (Some (got, e\<lparr>tLastOp := t\<rparr>, other')) \<and> buf_ok other' \<and> content other' = content other @ got
          \<and> bp_fd other' = bp_fd other \<and> bp_end.more other' = bp_end.more other \<and> tLastOp other' = tLastOp other
          \<and> t \<in> {tLastOp e, c_time c})"
proof -
  define got where "got = take (BP_BUFFER - iLenTotal other) (c_got c)"
  have b: "length (bp_acBuffer other) = BP_BUFFER" "iLenTotal other \<le> BP_BUFFER" using assms by (simp_all add: buf_ok_def)
  have l: "iLenTotal other + length got \<le> BP_BUFFER" using b by (simp add: got_def)
  show ?thesis
  proof (cases "bReadable (bp_fd e) \<and> BP_BUFFER > iLenTotal other \<and> got \<noteq> []")
    case True
    then have "bp_read c e other = Inr (Some (got, e\<lparr>tLastOp := c_time c\<rparr>,
        other\<lparr>bp_acBuffer := blit (iLenTotal other) got (bp_acBuffer other), iLenTotal := iLenTotal other + length got\<rparr>))"
      using b l by (simp add: bp_read_def Let_def got_def)
    moreover have "take (iLenTotal other + length got) (blit (iLenTotal other) got (bp_acBuffer other)) = content other @ got"
      using l b by (simp add: blit_end content_def)
    ultimately show ?thesis using l b by (auto simp: buf_ok_def content_def)
  next
    case False
    then have "bp_read c e other = Inr None \<or> bp_read c e other = Inr (Some ([], e, other))"
      by (auto simp: bp_read_def Let_def got_def)
    moreover have "e\<lparr>tLastOp := tLastOp e\<rparr> = e" by simp
    ultimately have "bp_read c e other = Inr None \<or> bp_read c e other = Inr (Some ([], e\<lparr>tLastOp := tLastOp e\<rparr>, other))" by simp
    then show ?thesis using assms by (metis append_Nil2 insertI1)
  qed
qed

subsection \<open>The channel carries bytes in order\<close>

abbreviation relay_state_set :: "nat set" where
  "relay_state_set \<equiv> {ST_NET_INIT, ST_NET_CONNECT, ST_NET_CONNECTING, ST_NET_READ, ST_NET_OVER}"

definition ends_ok :: "u8 list \<Rightarrow> nat \<Rightarrow> relay \<Rightarrow> bool" where
  "ends_ok magic len s = (buf_ok (pLocal s) \<and> buf_ok (pRemote s) \<and> pcMagicStr (pRemote s) = magic \<and> iMagicStrLen (pRemote s) = len
     \<and> waits (pLocal s) \<and> waits (pRemote s) \<and> st (pRemote s) \<in> relay_state_set
     \<and> st (pLocal s) \<in> relay_state_set \<union> {ST_NET_HALT, ST_NET_RESET} \<and> (st (pRemote s) = ST_NET_READ \<longrightarrow> st (pLocal s) \<noteq> ST_NET_HALT))"

definition to_server_ok :: "u8 list \<Rightarrow> nat \<Rightarrow> relay \<Rightarrow> bool" where
  "to_server_ok magic len s =
     ((st (pRemote s) = ST_NET_READ \<longrightarrow> srv_out s @ content (pRemote s) = take len (magic @ replicate len 0) @ web_in s)
      \<and> (st (pRemote s) = ST_NET_CONNECTING \<longrightarrow> srv_out s = [] \<and> srv_in s = []))"

definition from_server_ok :: "relay \<Rightarrow> bool" where
  "from_server_ok s =
     ((st (pRemote s) \<in> {ST_NET_INIT, ST_NET_CONNECT, ST_NET_CONNECTING} \<longrightarrow> st (pLocal s) = ST_NET_HALT \<or> srv_in s = [])
      \<and> (st (pLocal s) = ST_NET_CONNECT \<longrightarrow> suffix (content (pLocal s)) (srv_in s))
      \<and> (st (pLocal s) = ST_NET_CONNECTING \<longrightarrow> web_out s = [] \<and> suffix (content (pLocal s)) (srv_in s))
      \<and> (st (pLocal s) = ST_NET_READ \<longrightarrow> suffix (web_out s @ content (pLocal s)) (srv_in s)))"

definition relay_inv :: "u8 list \<Rightarrow> nat \<Rightarrow> relay \<Rightarrow> bool" where
  "relay_inv magic len s = (ends_ok magic len s \<and> to_server_ok magic len s \<and> from_server_ok s)"

lemmas relay_inv_defs = relay_inv_def ends_ok_def to_server_ok_def from_server_ok_def

lemma suffix_grows: "suffix xs ys \<Longrightarrow> suffix (xs @ zs) (ys @ zs)"
  by (auto simp: suffix_def)

lemma waits_simps [simp]: "waits (bp_next x r w t e) = (x = ST_NET_CONNECTING \<longrightarrow> 0 \<le> iFD (bp_fd e) \<and> r \<and> w)"
  "waits (mark_end res e) = waits e" "waits (e\<lparr>tLastOp := t\<rparr>) = waits e"
  by (cases res; auto simp: waits_def bp_next_def FD_Next_def mark_end_def st_def)+

lemma bp_next_fd [simp]: "bp_fd (bp_next x r w t e) = FD_Next x r w t (bp_fd e)" "bp_end.more (bp_next x r w t e) = bp_end.more e"
  by (simp_all add: bp_next_def)

text \<open>A reading end has written \<open>out\<close>, and read \<open>got\<close> into the buffer of the other.\<close>

lemma local_carried:
  assumes "relay_inv magic len s" and "st (pLocal s) = ST_NET_READ"
    and "buf_ok L" "waits L" "st L \<in> {ST_NET_OVER, ST_NET_READ}" "content (pLocal s) = out @ content L"
    and "buf_ok R" "waits R" "st R = st (pRemote s)" "content R = content (pRemote s) @ got" "bp_end.more R = bp_end.more (pRemote s)"
  shows "relay_inv magic len (s\<lparr>pLocal := L, pRemote := R, web_out := web_out s @ out, web_in := web_in s @ got\<rparr>)"
proof -
  have m: "pcMagicStr R = pcMagicStr (pRemote s)" "iMagicStrLen R = iMagicStrLen (pRemote s)"
    using assms(11) by (cases R; cases "pRemote s"; simp)+
  have "ends_ok magic len (s\<lparr>pLocal := L, pRemote := R, web_out := web_out s @ out, web_in := web_in s @ got\<rparr>)"
    using assms m by (auto simp: relay_inv_def ends_ok_def relay_states)
  moreover have "to_server_ok magic len (s\<lparr>pLocal := L, pRemote := R, web_out := web_out s @ out, web_in := web_in s @ got\<rparr>)"
    using assms(1,9,10) unfolding relay_inv_def to_server_ok_def by (simp flip: append_assoc)
  moreover have "from_server_ok (s\<lparr>pLocal := L, pRemote := R, web_out := web_out s @ out, web_in := web_in s @ got\<rparr>)"
    using assms(1,2,5,6,9) unfolding relay_inv_def from_server_ok_def by (auto simp: relay_states)
  ultimately show ?thesis by (simp add: relay_inv_def)
qed

lemma remote_carried:
  assumes "relay_inv magic len s" and "st (pRemote s) = ST_NET_READ"
    and "buf_ok R" "waits R" "st R \<in> {ST_NET_OVER, ST_NET_READ}" "content (pRemote s) = out @ content R"
    and "pcMagicStr R = magic" "iMagicStrLen R = len"
    and "buf_ok L" "waits L" "st L = st (pLocal s)" "content L = content (pLocal s) @ got"
  shows "relay_inv magic len (s\<lparr>pLocal := L, pRemote := R, srv_out := srv_out s @ out, srv_in := srv_in s @ got\<rparr>)"
proof -
  have "ends_ok magic len (s\<lparr>pLocal := L, pRemote := R, srv_out := srv_out s @ out, srv_in := srv_in s @ got\<rparr>)"
    using assms by (auto simp: relay_inv_def ends_ok_def relay_states)
  moreover have "to_server_ok magic len (s\<lparr>pLocal := L, pRemote := R, srv_out := srv_out s @ out, srv_in := srv_in s @ got\<rparr>)"
    using assms(1,2,5,6) unfolding relay_inv_def to_server_ok_def by (auto simp: relay_states)
  moreover have "from_server_ok (s\<lparr>pLocal := L, pRemote := R, srv_out := srv_out s @ out, srv_in := srv_in s @ got\<rparr>)"
    using assms(1,2,5,11,12) suffix_grows [of "web_out s @ content (pLocal s)" "srv_in s" got] suffix_grows [of "content (pLocal s)" "srv_in s" got]
    unfolding relay_inv_def from_server_ok_def by (auto simp: relay_states)
  ultimately show ?thesis by (simp add: relay_inv_def)
qed

lemma local_read_inv:
  assumes "relay_inv magic len s" and "st (pLocal s) = ST_NET_READ"
  shows "\<exists>s'. local_read c s = Inr (True, s') \<and> relay_inv magic len s'"
proof -
  let ?L = "pLocal s" and ?R = "pRemote s" and ?over = "\<lambda>L. bp_next ST_NET_OVER False False 0 L :: bp_local"
  have ok: "buf_ok ?L" "buf_ok ?R" "waits ?R" using assms(1) by (simp_all add: relay_inv_def ends_ok_def)
  have over: "waits (?over L)" "st (?over L) \<in> {ST_NET_OVER, ST_NET_READ}" for L by (simp_all add: relay_states)
  note carried = local_carried [OF assms]
  consider (failed) "bp_write c ?L = Inr None"
    | (written) out L1 where "bp_write c ?L = Inr (Some (out, L1))" "buf_ok L1" "content ?L = out @ content L1"
    using bp_write_run [OF ok(1), of c] by blast
  then show ?thesis
  proof cases
    case failed
    then show ?thesis using carried [of "?over ?L" "[]" ?R "[]"] ok over by (simp add: local_read_def)
  next
    case written
    consider (failed) "bp_read c L1 ?R = Inr None"
      | (got) got t R1 where "bp_read c L1 ?R = Inr (Some (got, L1\<lparr>tLastOp := t\<rparr>, R1))" "buf_ok R1"
        "content R1 = content ?R @ got" "bp_fd R1 = bp_fd ?R" "bp_end.more R1 = bp_end.more ?R"
      using bp_read_run [OF ok(2), of c L1] by blast
    then show ?thesis
    proof cases
      case failed
      then show ?thesis using carried [of "?over L1" out ?R "[]"] ok over written by (simp add: local_read_def)
    next
      case got
      have R: "st R1 = st ?R" "waits R1" using got(4) ok(3) by (simp_all add: st_def waits_def)
      define R2 where "R2 = (if st R1 = ST_NET_READ
        then bp_next ST_NET_READ (BP_BUFFER > iLenTotal L1) (iLenTotal R1 > 0) (iConnTimeout_InMSec (bp_fd R1)) R1 else R1)"
      have R2: "buf_ok R2" "waits R2" "st R2 = st ?R" "content R2 = content ?R @ got" "bp_end.more R2 = bp_end.more ?R"
        using R got by (simp_all add: R2_def relay_states)
      define L2 where "L2 = bp_next ST_NET_READ (BP_BUFFER > iLenTotal R1) (iLenTotal L1 > 0) (tConnTimeout * 1000) (L1\<lparr>tLastOp := t\<rparr>)"
      have L2: "buf_ok L2" "waits L2" "st L2 \<in> {ST_NET_OVER, ST_NET_READ}" "content L2 = content L1"
        using written by (simp_all add: L2_def relay_states)
      show ?thesis
      proof (cases "c_time c - t > tConnTimeout")
        case True
        then show ?thesis using carried [of "?over (L1\<lparr>tLastOp := t\<rparr>)" out R1 got] got written over R by (simp add: local_read_def)
      next
        case False
        then have "local_read c s = Inr (True, s\<lparr>pLocal := L2, pRemote := R2, web_out := web_out s @ out, web_in := web_in s @ got\<rparr>)"
          using written(1) got(1) by (simp add: local_read_def Let_def L2_def R2_def)
        with carried [OF L2(1-3) _ R2] written(3) L2(4) show ?thesis by auto
      qed
    qed
  qed
qed

lemma remote_read_inv:
  assumes "relay_inv magic len s" and "st (pRemote s) = ST_NET_READ"
  shows "\<exists>s'. remote_read c s = Inr (True, s') \<and> relay_inv magic len s'"
proof -
  let ?L = "pLocal s" and ?R = "pRemote s" and ?over = "\<lambda>R. bp_next ST_NET_OVER False False 0 R :: bp_remote"
  have ok: "buf_ok ?L" "buf_ok ?R" "waits ?L" "pcMagicStr ?R = magic" "iMagicStrLen ?R = len"
    using assms(1) by (simp_all add: relay_inv_def ends_ok_def)
  have over: "waits (?over R)" "st (?over R) \<in> {ST_NET_OVER, ST_NET_READ}" for R by (simp_all add: relay_states)
  have magic: "pcMagicStr R = magic" "iMagicStrLen R = len" if "bp_end.more R = bp_end.more ?R" for R :: bp_remote
    using that ok by (cases R; cases ?R; simp)+
  have over_magic: "pcMagicStr (?over R) = pcMagicStr R" "iMagicStrLen (?over R) = iMagicStrLen R" for R
    by (simp_all add: bp_next_def)
  note carried = remote_carried [OF assms]
  consider (failed) "bp_write c ?R = Inr None"
    | (written) out R1 where "bp_write c ?R = Inr (Some (out, R1))" "buf_ok R1" "content ?R = out @ content R1" "bp_end.more R1 = bp_end.more ?R"
    using bp_write_run [OF ok(2), of c] by blast
  then show ?thesis
  proof cases
    case failed
    then show ?thesis using carried [of "?over ?R" "[]" ?L "[]"] ok over over_magic by (simp add: remote_read_def)
  next
    case written
    consider (failed) "bp_read c R1 ?L = Inr None"
      | (got) got t L1 where "bp_read c R1 ?L = Inr (Some (got, R1\<lparr>tLastOp := t\<rparr>, L1))" "buf_ok L1"
        "content L1 = content ?L @ got" "bp_fd L1 = bp_fd ?L"
      using bp_read_run [OF ok(1), of c R1] by blast
    then show ?thesis
    proof cases
      case failed
      then show ?thesis using carried [of "?over R1" out ?L "[]"] ok over written over_magic magic by (simp add: remote_read_def)
    next
      case got
      have L: "st L1 = st ?L" "waits L1" using got(4) ok(3) by (simp_all add: st_def waits_def)
      define L2 where "L2 = (if st L1 = ST_NET_READ
        then bp_next ST_NET_READ (BP_BUFFER > iLenTotal R1) (iLenTotal L1 > 0) (iConnTimeout_InMSec (bp_fd L1)) L1 else L1)"
      have L2: "buf_ok L2" "waits L2" "st L2 = st ?L" "content L2 = content ?L @ got"
        using L got by (simp_all add: L2_def relay_states)
      define R2 where "R2 = bp_next ST_NET_READ (BP_BUFFER > iLenTotal L1) (iLenTotal R1 > 0) (tConnTimeout * 1000)
        (R1\<lparr>tLastOp := t, bLocalUsed := True\<rparr>)"
      have R2: "buf_ok R2" "waits R2" "st R2 \<in> {ST_NET_OVER, ST_NET_READ}" "content R2 = content R1" "pcMagicStr R2 = magic" "iMagicStrLen R2 = len"
        using written magic by (simp_all add: R2_def relay_states bp_next_def FD_Next_def waits_def st_def buf_ok_def content_def)
      show ?thesis
      proof (cases "c_time c - t > tConnTimeout")
        case True
        then show ?thesis using carried [of "?over (R1\<lparr>tLastOp := t\<rparr>)" out L1 got] got written over L magic over_magic by (simp add: remote_read_def)
      next
        case False
        then have "remote_read c s = Inr (True, s\<lparr>pLocal := L2, pRemote := R2, srv_out := srv_out s @ out, srv_in := srv_in s @ got\<rparr>)"
          using written(1) got(1) by (simp add: remote_read_def Let_def L2_def R2_def)
        with carried [OF R2(1-3) _ R2(5,6) L2] written(3) R2(4) show ?thesis by auto
      qed
    qed
  qed
qed

lemma local_changed:
  assumes "relay_inv magic len s" and "buf_ok L" "waits L" "st L \<in> relay_state_set \<union> {ST_NET_HALT, ST_NET_RESET}"
    and "st L = ST_NET_HALT \<Longrightarrow> st (pRemote s) \<noteq> ST_NET_READ"
    and "st (pRemote s) \<in> {ST_NET_INIT, ST_NET_CONNECT, ST_NET_CONNECTING} \<Longrightarrow> st L = ST_NET_HALT \<or> srv_in s = []"
    and "st L \<in> {ST_NET_CONNECT, ST_NET_CONNECTING} \<Longrightarrow> suffix (content L) (srv_in s)"
    and "st L = ST_NET_CONNECTING \<Longrightarrow> w = []" and "st L = ST_NET_READ \<Longrightarrow> suffix (w @ content L) (srv_in s)"
  shows "relay_inv magic len (s\<lparr>pLocal := L, web_out := w\<rparr>)"
  using assms unfolding relay_inv_def ends_ok_def to_server_ok_def from_server_ok_def by simp blast

lemma connect_end: "waits (bp_connect c (bp_close e))" "st (bp_connect c (bp_close e)) \<in> {ST_NET_OVER, ST_NET_CONNECTING}"
  "content (bp_connect c (bp_close e)) = content e" "buf_ok (bp_connect c (bp_close e)) = buf_ok e"
  "bp_end.more (bp_connect c (bp_close e)) = bp_end.more e"
  by (simp_all add: bp_connect_def Let_def waits_def bp_next_def FD_Next_def st_def content_def buf_ok_def bp_close_def relay_states)

lemma local_turn_inv:
  assumes "relay_inv magic len s"
  shows "\<exists>s'. local_turn c s = Inr s' \<and> relay_inv magic len s'"
proof -
  let ?L = "pLocal s"
  have listed: "relay_inv magic len (t\<lparr>local_listed := b\<rparr>) = relay_inv magic len t" for t b by (simp add: relay_inv_defs)
  have same: "s\<lparr>pLocal := L\<rparr> = s\<lparr>pLocal := L, web_out := web_out s\<rparr>" for L by simp
  have ok: "buf_ok ?L" "waits ?L" "st ?L \<in> relay_state_set \<union> {ST_NET_HALT, ST_NET_RESET}" "buf_ok (?L\<lparr>iLenTotal := 0\<rparr>)" "content (?L\<lparr>iLenTotal := 0\<rparr>) = []"
    "st (pRemote s) \<in> {ST_NET_INIT, ST_NET_CONNECT, ST_NET_CONNECTING} \<Longrightarrow> st ?L = ST_NET_HALT \<or> srv_in s = []"
    using assms by (simp_all add: relay_inv_defs buf_ok_def content_def)
  have sfx: "st ?L \<in> {ST_NET_CONNECT, ST_NET_CONNECTING} \<Longrightarrow> suffix (content ?L) (srv_in s)" "st ?L = ST_NET_CONNECTING \<Longrightarrow> web_out s = []"
    using assms by (auto simp: relay_inv_def from_server_ok_def)
  note changed = local_changed [OF assms]
  consider (init) "st ?L = ST_NET_INIT" | (connect) "st ?L = ST_NET_CONNECT" | (connecting) "st ?L = ST_NET_CONNECTING" | (read) "st ?L = ST_NET_READ"
    | (over) "st ?L = ST_NET_OVER" | (reset) "st ?L = ST_NET_RESET" | (halt) "st ?L = ST_NET_HALT" using ok(3) by blast
  then have "\<exists>keep s'. BP_LOCAL_Process c s = Inr (keep, s') \<and> relay_inv magic len s'"
  proof cases
    case init
    then show ?thesis using changed [of "bp_next ST_NET_CONNECT False False 0 (?L\<lparr>iLenTotal := 0\<rparr>)" "web_out s"] ok
      by (simp add: BP_LOCAL_Process_def Let_def relay_states ex_bool_eq)
  next
    case connect
    then show ?thesis using changed [of "bp_connect c (bp_close ?L)" "[]"] ok sfx connect_end [of c ?L]
      by (auto simp: BP_LOCAL_Process_def Let_def relay_states ex_bool_eq)
  next
    case connecting
    have a: "relay_inv magic len (s\<lparr>pLocal := bp_next ST_NET_CONNECT False False 0 ?L, web_out := web_out s\<rparr>)"
      using changed [of "bp_next ST_NET_CONNECT False False 0 ?L" "web_out s"] ok sfx connecting by (simp add: relay_states)
    have b: "relay_inv magic len (s\<lparr>pLocal := bp_next ST_NET_READ True (iLenTotal ?L > 0) (tConnTimeout * 1000) (?L\<lparr>tLastOp := c_time c\<rparr>), web_out := web_out s\<rparr>)"
      using changed [of "bp_next ST_NET_READ True (iLenTotal ?L > 0) (tConnTimeout * 1000) (?L\<lparr>tLastOp := c_time c\<rparr>)" "web_out s"] ok sfx connecting
      by (simp add: relay_states)
    show ?thesis using a b assms connecting by (simp add: BP_LOCAL_Process_def Let_def relay_states ex_bool_eq)
  next
    case read
    then show ?thesis using local_read_inv [OF assms read, of c] by (auto simp: BP_LOCAL_Process_def relay_states)
  next
    case over
    then show ?thesis using changed [of "bp_next ST_NET_RESET False False 0 (bp_close ?L)" "web_out s"]
        changed [of "bp_next ST_NET_HALT False False 60000 (bp_close ?L)" "web_out s"] ok
      by (simp add: BP_LOCAL_Process_def Let_def relay_states ex_bool_eq)
  next
    case reset
    then show ?thesis using changed [of "bp_next ST_NET_INIT False False 0 (bp_close ?L)" "web_out s"] ok
      by (simp add: BP_LOCAL_Process_def Let_def relay_states ex_bool_eq)
  next
    case halt
    then show ?thesis using assms by (simp add: BP_LOCAL_Process_def Let_def relay_states ex_bool_eq)
  qed
  then show ?thesis using assms by (auto simp: local_turn_def listed)
qed

lemma remote_changed:
  assumes "relay_inv magic len s" and "buf_ok R" "waits R" "st R \<in> relay_state_set" "st R \<noteq> ST_NET_READ" "st R \<noteq> ST_NET_CONNECTING"
    and "pcMagicStr R = magic" "iMagicStrLen R = len"
    and "st R \<in> {ST_NET_INIT, ST_NET_CONNECT} \<Longrightarrow> st (pLocal s) = ST_NET_HALT \<or> srv_in s = []"
  shows "relay_inv magic len (s\<lparr>pRemote := R\<rparr>)"
  using assms unfolding relay_inv_def ends_ok_def to_server_ok_def from_server_ok_def by simp

lemma greeting_put:
  assumes "buf_ok R" and "iMagicStrLen R \<le> BP_BUFFER"
  shows "take (iMagicStrLen R) (blit 0 (greeting R) (bp_acBuffer R)) = greeting R"
    and "length (blit 0 (greeting R) (bp_acBuffer R)) = BP_BUFFER"
proof -
  have "length (greeting R) = iMagicStrLen R" by (simp add: greeting_def)
  then show "take (iMagicStrLen R) (blit 0 (greeting R) (bp_acBuffer R)) = greeting R"
    "length (blit 0 (greeting R) (bp_acBuffer R)) = BP_BUFFER"
    using assms blit_front [of "greeting R" "bp_acBuffer R"] by (simp_all add: buf_ok_def)
qed

lemma remote_connected_inv:
  assumes "relay_inv magic len s" and "len \<le> BP_BUFFER" and "st (pRemote s) = ST_NET_CONNECTING"
  shows "\<exists>s'. remote_connected c s = Inr (True, s') \<and> relay_inv magic len s'"
proof -
  let ?R = "pRemote s"
  define R1 where "R1 = ?R\<lparr>tLastOp := c_time c, bp_acBuffer := blit 0 (greeting ?R) (bp_acBuffer ?R), iLenTotal := iMagicStrLen ?R\<rparr>"
  have ok: "buf_ok ?R" "iMagicStrLen ?R = len" "pcMagicStr ?R = magic" "srv_out s = []" using assms by (simp_all add: relay_inv_defs)
  note g = greeting_put [OF ok(1)]
  have R1: "buf_ok R1" "content R1 = take len (magic @ replicate len 0)" "pcMagicStr R1 = magic" "iMagicStrLen R1 = len"
    using g assms(2) ok by (simp_all add: R1_def buf_ok_def content_def greeting_def)
  have "remote_connected c s = Inr (True, s\<lparr>pRemote := bp_next ST_NET_READ True (iLenTotal R1 > 0) (tConnTimeout * 1000) R1,
      pLocal := bp_next ST_NET_RESET False False 0 (pLocal s), web_in := []\<rparr>)"
    using ok assms(2) by (simp add: remote_connected_def Let_def R1_def buf_ok_def)
  moreover have "relay_inv magic len (s\<lparr>pRemote := bp_next ST_NET_READ True (iLenTotal R1 > 0) (tConnTimeout * 1000) R1,
      pLocal := bp_next ST_NET_RESET False False 0 (pLocal s), web_in := []\<rparr>)"
    using assms R1 ok by (simp add: relay_inv_defs relay_states bp_next_def FD_Next_def st_def waits_def content_def buf_ok_def)
  ultimately show ?thesis by blast
qed

lemma remote_turn_inv:
  assumes "relay_inv magic len s" and "len \<le> BP_BUFFER"
  shows "\<exists>s'. remote_turn delay c s = Inr s' \<and> relay_inv magic len s'"
proof -
  let ?R = "pRemote s"
  have listed: "relay_inv magic len (t\<lparr>remote_listed := b\<rparr>) = relay_inv magic len t" for t b by (simp add: relay_inv_defs)
  have ok: "buf_ok ?R" "waits ?R" "st ?R \<in> relay_state_set" "pcMagicStr ?R = magic" "iMagicStrLen ?R = len"
    and idle: "st ?R \<in> {ST_NET_INIT, ST_NET_CONNECT, ST_NET_CONNECTING} \<Longrightarrow> st (pLocal s) = ST_NET_HALT \<or> srv_in s = []"
    using assms by (simp_all add: relay_inv_defs)
  note changed = remote_changed [OF assms(1)]
  have kept: "pcMagicStr (bp_next x r w t R) = pcMagicStr R" "iMagicStrLen (bp_next x r w t R) = iMagicStrLen R"
    "pcMagicStr (bp_close R) = pcMagicStr R" "iMagicStrLen (bp_close R) = iMagicStrLen R" for x r w t and R :: bp_remote
    by (simp_all add: bp_next_def bp_close_def)
  consider (init) "st ?R = ST_NET_INIT" | (connect) "st ?R = ST_NET_CONNECT" | (connecting) "st ?R = ST_NET_CONNECTING" | (read) "st ?R = ST_NET_READ"
    | (over) "st ?R = ST_NET_OVER" using ok(3) by blast
  then have "\<exists>keep s'. BP_REMOTE_Process delay c s = Inr (keep, s') \<and> relay_inv magic len s'"
  proof cases
    case init
    have a: "st (R\<lparr>addrHost := a\<rparr>) = st R" "waits (R\<lparr>addrHost := a\<rparr>) = waits R" for R :: bp_remote and a by (simp_all add: st_def waits_def)
    show ?thesis using init changed [of "bp_next ST_NET_OVER False False 1000 ?R"] changed [of "bp_next ST_NET_CONNECT False False 0 (?R\<lparr>addrHost := a\<rparr>)" for a]
        ok idle kept a by (simp add: BP_REMOTE_Process_def Let_def relay_states ex_bool_eq split: option.split)
  next
    case connect
    let ?R1 = "bp_connect c (bp_close ?R)"
    have m: "pcMagicStr ?R1 = magic" "iMagicStrLen ?R1 = len" using ok by (simp_all add: bp_connect_def Let_def bp_next_def bp_close_def)
    have "relay_inv magic len (s\<lparr>pRemote := ?R1, srv_out := [], srv_in := []\<rparr>)"
    proof -
      have st: "st ?R1 \<in> {ST_NET_OVER, ST_NET_CONNECTING}" by (rule connect_end)
      have "ends_ok magic len (s\<lparr>pRemote := ?R1, srv_out := [], srv_in := []\<rparr>)"
        using assms(1) connect_end(1,4) [of c ?R] st m unfolding relay_inv_def ends_ok_def by (auto simp: relay_states)
      moreover have "to_server_ok magic len (s\<lparr>pRemote := ?R1, srv_out := [], srv_in := []\<rparr>)"
        using st by (auto simp: to_server_ok_def relay_states)
      moreover have "from_server_ok (s\<lparr>pRemote := ?R1, srv_out := [], srv_in := []\<rparr>)"
      proof (cases "st (pLocal s) = ST_NET_HALT")
        case True
        then show ?thesis by (simp add: from_server_ok_def relay_states)
      next
        case False
        then have "srv_in s = []" using idle connect by simp
        then show ?thesis using assms(1) unfolding relay_inv_def from_server_ok_def by simp
      qed
      ultimately show ?thesis by (simp add: relay_inv_def)
    qed
    then show ?thesis using connect by (simp add: BP_REMOTE_Process_def Let_def relay_states ex_bool_eq)
  next
    case connecting
    have "relay_inv magic len (s\<lparr>pRemote := bp_next ST_NET_CONNECT False False 0 ?R\<rparr>)"
      using changed [of "bp_next ST_NET_CONNECT False False 0 ?R"] ok idle connecting kept by (simp add: relay_states)
    then show ?thesis using assms connecting remote_connected_inv [OF assms connecting, of c]
      by (auto simp: BP_REMOTE_Process_def Let_def relay_states ex_bool_eq)
  next
    case read
    then show ?thesis using remote_read_inv [OF assms(1) read, of c] by (auto simp: BP_REMOTE_Process_def relay_states)
  next
    case over
    have "relay_inv magic len (s\<lparr>pLocal := bp_next ST_NET_HALT False False 60000 (pLocal s), pRemote := bp_next ST_NET_INIT False False delay (bp_close ?R)\<rparr>)"
      using assms(1) over kept unfolding relay_inv_def ends_ok_def to_server_ok_def from_server_ok_def by (simp add: relay_states)
    then show ?thesis using over by (simp add: BP_REMOTE_Process_def Let_def relay_states ex_bool_eq)
  qed
  then show ?thesis using assms by (auto simp: remote_turn_def listed)
qed

lemma relay_step_inv:
  assumes "relay_inv magic len s" and "len \<le> BP_BUFFER"
  shows "\<exists>s'. relay_step delay e s = Inr s' \<and> relay_inv magic len s'"
proof (cases e)
  case Enter_remote
  then show ?thesis using assms by (simp add: relay_inv_defs)
next
  case (Round res cl cr)
  let ?s = "s\<lparr>pLocal := if local_listed s then mark_end res (pLocal s) else pLocal s,
       pRemote := if remote_listed s then mark_end res (pRemote s) else pRemote s\<rparr>"
  have m: "pcMagicStr (mark_end res R) = pcMagicStr R" "iMagicStrLen (mark_end res R) = iMagicStrLen R" for R :: bp_remote
    by (simp_all add: mark_end_def)
  have "relay_inv magic len ?s" using assms(1) m unfolding relay_inv_def ends_ok_def to_server_ok_def from_server_ok_def by simp
  then obtain s1 where "local_turn cl ?s = Inr s1" "relay_inv magic len s1" using local_turn_inv by blast
  with remote_turn_inv [OF this(2) assms(2)] Round show ?thesis by auto
qed

lemma relay_run_inv:
  "relay_inv magic len s \<Longrightarrow> len \<le> BP_BUFFER \<Longrightarrow> \<exists>s'. relay_run delay es s = Inr s' \<and> relay_inv magic len s'"
proof (induction es arbitrary: s)
  case (Cons e es)
  then show ?case using relay_step_inv [OF Cons.prems, of delay e] by auto
qed simp

lemma channel_inv: "relay_inv magic len (BPC_channel port magic len)"
  by (simp add: relay_inv_defs BPC_channel_def BP_LOCAL_Init_def BP_REMOTE_Init_def FD_Init_def buf_ok_def content_def waits_def st_def relay_states)

text \<open>
  C30. Whatever the network, the server and the web server do: a channel never leaves its buffers, the server receives the greeting
  and then exactly what the camera's web server has answered since, in order and without gaps (as far as it is not still in the
  buffer), and what the web server receives on a connection is one contiguous piece of what the server sent.
\<close>

theorem relay_carries_bytes:
  assumes "len \<le> BP_BUFFER"
  shows "\<exists>s. relay_run delay es (BPC_channel port magic len) = Inr s \<and> iLenTotal (pLocal s) \<le> BP_BUFFER \<and> iLenTotal (pRemote s) \<le> BP_BUFFER
     \<and> (st (pRemote s) = ST_NET_READ \<longrightarrow> srv_out s @ content (pRemote s) = take len (magic @ replicate len 0) @ web_in s)
     \<and> (st (pLocal s) = ST_NET_READ \<longrightarrow> suffix (web_out s @ content (pLocal s)) (srv_in s))"
proof -
  obtain s where s: "relay_run delay es (BPC_channel port magic len) = Inr s" "relay_inv magic len s"
    using relay_run_inv [OF channel_inv assms] by blast
  then have "buf_ok (pLocal s)" "buf_ok (pRemote s)" "to_server_ok magic len s" "from_server_ok s" by (simp_all add: relay_inv_def ends_ok_def)
  with s(1) show ?thesis by (simp add: buf_ok_def to_server_ok_def from_server_ok_def)
qed

subsection \<open>The channel is renewed\<close>

text \<open>
  A call in which the outside helps: names are resolved, connections made, and reading and writing go on or can be tried again. The
  clock shows \<open>t\<close>. What the caller finds as the answer of a function that ends without one is not help, and left open.
\<close>

definition helpful :: "int \<Rightarrow> bp_call \<Rightarrow> bool" where
  "helpful t c = (c_resolve c \<noteq> None \<and> 0 \<le> c_socket c \<and> c_nonblock c \<and> c_error c = Some 0 \<and> (0 < c_taken c \<or> c_write_again c)
     \<and> (c_got c \<noteq> [] \<or> c_read_again c) \<and> c_time c = t)"

definition fresh :: "int \<Rightarrow> 'a bp_end_scheme \<Rightarrow> bool" where
  "fresh t e = (t - tLastOp e \<le> tConnTimeout)"

definition remote_rank :: "int \<Rightarrow> relay \<Rightarrow> nat" where
  "remote_rank t s = (let R = pRemote s in if st R = ST_NET_READ then if fresh t R then 0 else 5 else if st R = ST_NET_CONNECTING then 1
     else if st R = ST_NET_CONNECT then 2 else if st R = ST_NET_INIT then 3 else 4)"

definition local_rank :: "int \<Rightarrow> relay \<Rightarrow> nat" where
  "local_rank t s = (let L = pLocal s in if st L = ST_NET_READ then if fresh t L then 0 else 6 else if st L = ST_NET_CONNECTING then 1
     else if st L = ST_NET_CONNECT then 2 else if st L = ST_NET_INIT then 3 else if st L = ST_NET_RESET then 4 else 5)"

definition rounds_left :: "int \<Rightarrow> relay \<Rightarrow> nat" where
  "rounds_left t s = (if remote_rank t s = 0 then local_rank t s else remote_rank t s + 4)"

lemma helpful_write:
  assumes "helpful t c" and "buf_ok e"
  shows "\<exists>out e'. bp_write c e = Inr (Some (out, e')) \<and> buf_ok e' \<and> bp_fd e' = bp_fd e \<and> (fresh t e \<longrightarrow> fresh t e')"
proof -
  have "bp_write c e \<noteq> Inr None" using assms(1) by (auto simp: helpful_def bp_write_def Let_def)
  then show ?thesis using bp_write_run [OF assms(2), of c] assms(1) by (auto simp: helpful_def fresh_def tConnTimeout_def)
qed

lemma helpful_read:
  assumes "helpful t c" and "buf_ok other"
  shows "\<exists>got u other'. bp_read c e other = Inr (Some (got, e\<lparr>tLastOp := u\<rparr>, other')) \<and> bp_fd other' = bp_fd other
     \<and> tLastOp other' = tLastOp other \<and> (fresh t e \<longrightarrow> t - u \<le> tConnTimeout)"
proof -
  have "bp_read c e other \<noteq> Inr None"
    using assms by (auto simp: helpful_def bp_read_def Let_def buf_ok_def)
  with bp_read_run [OF assms(2), of c e] obtain got u other' where
    r: "bp_read c e other = Inr (Some (got, e\<lparr>tLastOp := u\<rparr>, other'))" "bp_fd other' = bp_fd other" "tLastOp other' = tLastOp other"
    "u \<in> {tLastOp e, c_time c}" by blast
  have "fresh t e \<longrightarrow> t - u \<le> tConnTimeout" using r(4) assms(1) by (auto simp: helpful_def fresh_def tConnTimeout_def)
  with r show ?thesis by blast
qed

lemma helpful_local_read:
  assumes "helpful t c" and "buf_ok (pLocal s)" "buf_ok (pRemote s)" and "st (pLocal s) = ST_NET_READ"
  shows "\<exists>s'. local_read c s = Inr (True, s') \<and> st (pRemote s') = st (pRemote s) \<and> tLastOp (pRemote s') = tLastOp (pRemote s)
     \<and> remote_listed s' = remote_listed s \<and> (st (pLocal s') = ST_NET_OVER \<and> \<not> fresh t (pLocal s) \<or> st (pLocal s') = ST_NET_READ \<and> fresh t (pLocal s'))
     \<and> (bp_fd (pRemote s') = bp_fd (pRemote s) \<or> st (pRemote s) = ST_NET_READ)"
proof -
  obtain out L1 where w: "bp_write c (pLocal s) = Inr (Some (out, L1))" "buf_ok L1" "bp_fd L1 = bp_fd (pLocal s)" "fresh t (pLocal s) \<longrightarrow> fresh t L1"
    using helpful_write [OF assms(1,2)] by blast
  obtain got u R1 where r: "bp_read c L1 (pRemote s) = Inr (Some (got, L1\<lparr>tLastOp := u\<rparr>, R1))" "bp_fd R1 = bp_fd (pRemote s)"
    "tLastOp R1 = tLastOp (pRemote s)" "fresh t L1 \<longrightarrow> t - u \<le> tConnTimeout" using helpful_read [OF assms(1,3), of L1] by blast
  have t: "c_time c = t" and R: "st R1 = st (pRemote s)" using assms(1) r(2) by (simp_all add: helpful_def st_def)
  show ?thesis
  proof (cases "t - u > tConnTimeout")
    case True
    then have "\<not> fresh t (pLocal s)" using w(4) r(4) by linarith
    with True show ?thesis using w(1) r(1-3) t R by (simp add: local_read_def Let_def)
  next
    case False
    then show ?thesis using w(1) r(1-3) t R by (simp add: local_read_def Let_def fresh_def bp_next_def FD_Next_def st_def)
  qed
qed

lemma helpful_remote_read:
  assumes "helpful t c" and "buf_ok (pLocal s)" "buf_ok (pRemote s)" and "st (pRemote s) = ST_NET_READ"
  shows "\<exists>s'. remote_read c s = Inr (True, s') \<and> st (pLocal s') = st (pLocal s) \<and> tLastOp (pLocal s') = tLastOp (pLocal s)
     \<and> local_listed s' = local_listed s \<and> (st (pRemote s') = ST_NET_OVER \<and> \<not> fresh t (pRemote s) \<or> st (pRemote s') = ST_NET_READ \<and> fresh t (pRemote s'))"
proof -
  obtain out R1 where w: "bp_write c (pRemote s) = Inr (Some (out, R1))" "buf_ok R1" "bp_fd R1 = bp_fd (pRemote s)" "fresh t (pRemote s) \<longrightarrow> fresh t R1"
    using helpful_write [OF assms(1,3)] by blast
  obtain got u L1 where r: "bp_read c R1 (pLocal s) = Inr (Some (got, R1\<lparr>tLastOp := u\<rparr>, L1))" "bp_fd L1 = bp_fd (pLocal s)"
    "tLastOp L1 = tLastOp (pLocal s)" "fresh t R1 \<longrightarrow> t - u \<le> tConnTimeout" using helpful_read [OF assms(1,2), of R1] by blast
  have t: "c_time c = t" and L: "st L1 = st (pLocal s)" using assms(1) r(2) by (simp_all add: helpful_def st_def)
  show ?thesis
  proof (cases "t - u > tConnTimeout")
    case True
    then have "\<not> fresh t (pRemote s)" using w(4) r(4) by linarith
    with True show ?thesis using w(1) r(1-3) t L by (simp add: remote_read_def Let_def)
  next
    case False
    then show ?thesis using w(1) r(1-3) t L by (simp add: remote_read_def Let_def fresh_def bp_next_def FD_Next_def st_def)
  qed
qed

lemma helpful_local_turn:
  assumes "helpful t c" and "relay_inv magic len s" and "local_listed s"
    and "st (pLocal s) = ST_NET_CONNECTING \<Longrightarrow> bReadable (bp_fd (pLocal s)) \<or> bWritable (bp_fd (pLocal s))"
    and "st (pLocal s) = ST_NET_HALT \<Longrightarrow> c_garbage c"
  shows "\<exists>s'. local_turn c s = Inr s' \<and> local_listed s' \<and> remote_listed s' = remote_listed s \<and> st (pRemote s') = st (pRemote s)
     \<and> tLastOp (pRemote s') = tLastOp (pRemote s) \<and> (bp_fd (pRemote s') = bp_fd (pRemote s) \<or> st (pRemote s) = ST_NET_READ)
     \<and> (st (pRemote s) = ST_NET_READ \<longrightarrow> local_rank t s' < local_rank t s \<or> local_rank t s' = 0)"
proof (cases "st (pLocal s) = ST_NET_READ")
  case True
  have ok: "buf_ok (pLocal s)" "buf_ok (pRemote s)" using assms(2) by (simp_all add: relay_inv_def ends_ok_def)
  obtain s' where s': "local_read c s = Inr (True, s')" "st (pRemote s') = st (pRemote s)" "tLastOp (pRemote s') = tLastOp (pRemote s)"
    "remote_listed s' = remote_listed s"
    "st (pLocal s') = ST_NET_OVER \<and> \<not> fresh t (pLocal s) \<or> st (pLocal s') = ST_NET_READ \<and> fresh t (pLocal s')"
    "bp_fd (pRemote s') = bp_fd (pRemote s) \<or> st (pRemote s) = ST_NET_READ"
    using helpful_local_read [OF assms(1) ok True] by blast
  have "local_rank t s' < local_rank t s \<or> local_rank t s' = 0" using s'(5) True by (auto simp: local_rank_def Let_def relay_states)
  then have "local_rank t (s'\<lparr>local_listed := True\<rparr>) < local_rank t s \<or> local_rank t (s'\<lparr>local_listed := True\<rparr>) = 0"
    by (simp add: local_rank_def)
  with s' show ?thesis using True assms(3) by (simp add: local_turn_def BP_LOCAL_Process_def Let_def relay_states)
next
  case False
  have st: "st (pLocal s) \<in> relay_state_set \<union> {ST_NET_HALT, ST_NET_RESET}" "st (pRemote s) = ST_NET_READ \<longrightarrow> st (pLocal s) \<noteq> ST_NET_HALT"
    using assms(2) by (simp_all add: relay_inv_def ends_ok_def)
  have c: "c_error c = Some 0" "0 \<le> c_socket c" "c_nonblock c" "c_time c = t" using assms(1) by (simp_all add: helpful_def)
  have con: "st (bp_connect c e) = ST_NET_CONNECTING" for e :: bp_local using c by (simp add: bp_connect_def Let_def)
  have "fresh t (bp_next x r w u (e\<lparr>tLastOp := t\<rparr>))" for x r w u and e :: bp_local by (simp add: fresh_def tConnTimeout_def)
  then show ?thesis using False st c con assms(3-5)
    by (auto simp: local_turn_def BP_LOCAL_Process_def Let_def local_rank_def relay_states)
qed

lemma helpful_remote_turn:
  assumes "helpful t c" and "relay_inv magic len s" and "len \<le> BP_BUFFER" and "remote_listed s"
    and "st (pRemote s) = ST_NET_CONNECTING \<Longrightarrow> bReadable (bp_fd (pRemote s)) \<or> bWritable (bp_fd (pRemote s))"
  shows "\<exists>s'. remote_turn delay c s = Inr s' \<and> remote_listed s' \<and> local_listed s' = local_listed s
     \<and> (if remote_rank t s = 0 then remote_rank t s' = 0 \<and> local_rank t s' = local_rank t s
         else remote_rank t s' < remote_rank t s \<and> (remote_rank t s' = 0 \<longrightarrow> remote_rank t s = 5 \<or> st (pLocal s') = ST_NET_RESET))"
proof (cases "st (pRemote s) = ST_NET_READ")
  case True
  have ok: "buf_ok (pLocal s)" "buf_ok (pRemote s)" using assms(2) by (simp_all add: relay_inv_def ends_ok_def)
  obtain s' where s': "remote_read c s = Inr (True, s')" "st (pLocal s') = st (pLocal s)" "tLastOp (pLocal s') = tLastOp (pLocal s)"
    "local_listed s' = local_listed s"
    "st (pRemote s') = ST_NET_OVER \<and> \<not> fresh t (pRemote s) \<or> st (pRemote s') = ST_NET_READ \<and> fresh t (pRemote s')"
    using helpful_remote_read [OF assms(1) ok True] by blast
  have "if remote_rank t s = 0 then remote_rank t s' = 0 else remote_rank t s' < remote_rank t s \<and> (remote_rank t s' = 0 \<longrightarrow> remote_rank t s = 5)"
    using s'(5) True by (auto simp: remote_rank_def Let_def relay_states)
  moreover have "local_rank t s' = local_rank t s" using s'(2,3) by (simp add: local_rank_def fresh_def Let_def)
  moreover have "remote_rank t (s'\<lparr>remote_listed := True\<rparr>) = remote_rank t s'" "local_rank t (s'\<lparr>remote_listed := True\<rparr>) = local_rank t s'"
    by (simp_all add: local_rank_def remote_rank_def)
  ultimately show ?thesis using s'(1,4) True assms(4) by (auto simp: remote_turn_def BP_REMOTE_Process_def Let_def relay_states)
next
  case False
  have st: "st (pRemote s) \<in> relay_state_set" "buf_ok (pRemote s)" "iMagicStrLen (pRemote s) = len" using assms(2) by (simp_all add: relay_inv_def ends_ok_def)
  have c: "c_error c = Some 0" "0 \<le> c_socket c" "c_nonblock c" "c_time c = t" "c_resolve c \<noteq> None" using assms(1) by (simp_all add: helpful_def)
  have con: "st (bp_connect c e) = ST_NET_CONNECTING" for e :: bp_remote using c by (simp add: bp_connect_def Let_def)
  have fr: "fresh t (bp_next x r w u (e\<lparr>tLastOp := t, bp_acBuffer := b, iLenTotal := l\<rparr>))" for x r w u b l and e :: bp_remote
    by (simp add: fresh_def tConnTimeout_def)
  have a: "st (R\<lparr>addrHost := a\<rparr>) = st R" for R :: bp_remote and a by (simp add: st_def)
  have "\<exists>s'. remote_turn delay c s = Inr s' \<and> remote_listed s' \<and> local_listed s' = local_listed s
     \<and> (st (pRemote s) = ST_NET_INIT \<and> st (pRemote s') = ST_NET_CONNECT \<or> st (pRemote s) = ST_NET_CONNECT \<and> st (pRemote s') = ST_NET_CONNECTING
       \<or> st (pRemote s) = ST_NET_CONNECTING \<and> st (pRemote s') = ST_NET_READ \<and> fresh t (pRemote s') \<and> st (pLocal s') = ST_NET_RESET
       \<or> st (pRemote s) = ST_NET_OVER \<and> st (pRemote s') = ST_NET_INIT)"
    using False st c con fr assms(3,4,5)
    by (auto simp: remote_turn_def BP_REMOTE_Process_def remote_connected_def buf_ok_def Let_def relay_states a)
  then show ?thesis by (fastforce simp: remote_rank_def Let_def relay_states)
qed

lemma marked_connecting:
  assumes "waits e" and "st e = ST_NET_CONNECTING"
  shows "bReadable (bp_fd (mark_end (Ready UNIV UNIV) e))"
  using assms by (simp add: waits_def mark_end_def)

lemma helpful_round:
  assumes "helpful t cl" "helpful t cr" and "relay_inv magic len s" and "len \<le> BP_BUFFER" and "local_listed s" "remote_listed s"
    and "st (pLocal s) = ST_NET_HALT \<Longrightarrow> c_garbage cl"
  shows "\<exists>s'. relay_step delay (Round (Ready UNIV UNIV) cl cr) s = Inr s' \<and> relay_inv magic len s' \<and> local_listed s' \<and> remote_listed s'
     \<and> (rounds_left t s' < rounds_left t s \<or> rounds_left t s' = 0)"
proof -
  define s0 where "s0 = s\<lparr>pLocal := mark_end (Ready UNIV UNIV) (pLocal s), pRemote := mark_end (Ready UNIV UNIV) (pRemote s)\<rparr>"
  have w: "waits (pLocal s)" "waits (pRemote s)" using assms(3) by (simp_all add: relay_inv_def ends_ok_def)
  have m: "pcMagicStr (mark_end res R) = pcMagicStr R" "iMagicStrLen (mark_end res R) = iMagicStrLen R" for res and R :: bp_remote
    by (simp_all add: mark_end_def)
  have i0: "relay_inv magic len s0" using assms(3) m unfolding s0_def relay_inv_def ends_ok_def to_server_ok_def from_server_ok_def by simp
  have l0: "local_listed s0" "remote_listed s0" using assms by (simp_all add: s0_def)
  have rank: "remote_rank t s0 = remote_rank t s" "local_rank t s0 = local_rank t s"
    by (simp_all add: s0_def remote_rank_def local_rank_def fresh_def Let_def)
  have fl: "st (pLocal s0) = ST_NET_CONNECTING \<Longrightarrow> bReadable (bp_fd (pLocal s0)) \<or> bWritable (bp_fd (pLocal s0))"
    and fr: "st (pRemote s0) = ST_NET_CONNECTING \<Longrightarrow> bReadable (bp_fd (pRemote s0)) \<or> bWritable (bp_fd (pRemote s0))"
    using marked_connecting w by (auto simp: s0_def)
  obtain s1 where s1: "local_turn cl s0 = Inr s1" "local_listed s1" "remote_listed s1" "st (pRemote s1) = st (pRemote s0)"
    "tLastOp (pRemote s1) = tLastOp (pRemote s0)" "bp_fd (pRemote s1) = bp_fd (pRemote s0) \<or> st (pRemote s0) = ST_NET_READ"
    "st (pRemote s0) = ST_NET_READ \<longrightarrow> local_rank t s1 < local_rank t s0 \<or> local_rank t s1 = 0"
    using helpful_local_turn [OF assms(1) i0 l0(1) fl] l0(2) assms(7) by (auto simp: s0_def)
  have i1: "relay_inv magic len s1" using local_turn_inv [OF i0, of cl] s1(1) by auto
  have "remote_rank t s1 = remote_rank t s0" using s1(4,5) by (simp add: remote_rank_def fresh_def Let_def)
  with rank(1) have rank1: "remote_rank t s1 = remote_rank t s" by simp
  have "st (pRemote s1) = ST_NET_CONNECTING \<Longrightarrow> bReadable (bp_fd (pRemote s1)) \<or> bWritable (bp_fd (pRemote s1))"
    using fr s1(4,6) by (auto simp: relay_states)
  from helpful_remote_turn [OF assms(2) i1 assms(4) s1(3) this, of delay] obtain s2 where s2: "remote_turn delay cr s1 = Inr s2" "remote_listed s2"
    "local_listed s2" "if remote_rank t s1 = 0 then remote_rank t s2 = 0 \<and> local_rank t s2 = local_rank t s1
      else remote_rank t s2 < remote_rank t s1 \<and> (remote_rank t s2 = 0 \<longrightarrow> remote_rank t s1 = 5 \<or> st (pLocal s2) = ST_NET_RESET)"
    using s1(2) by auto
  have i2: "relay_inv magic len s2" using remote_turn_inv [OF i1 assms(4), of delay cr] s2(1) by auto
  have run: "relay_step delay (Round (Ready UNIV UNIV) cl cr) s = Inr s2" using s1(1) s2(1) assms(5,6) by (simp add: s0_def)
  have six: "local_rank t s2 \<le> 6" by (simp add: local_rank_def Let_def)
  have "rounds_left t s2 < rounds_left t s \<or> rounds_left t s2 = 0"
  proof (cases "remote_rank t s = 0")
    case True
    then have "st (pRemote s0) = ST_NET_READ" using rank(1) by (auto simp: remote_rank_def Let_def split: if_splits)
    then show ?thesis using True s1(7) s2(4) rank rank1 by (auto simp: rounds_left_def)
  next
    case False
    have "st (pLocal s2) = ST_NET_RESET \<Longrightarrow> local_rank t s2 = 4" by (simp add: local_rank_def Let_def relay_states)
    then show ?thesis using False s2(4) rank1 six by (auto simp: rounds_left_def)
  qed
  with run i2 s2(2,3) show ?thesis by blast
qed

lemma remote_read_keeps:
  "remote_read c s = Inr (keep, s') \<Longrightarrow> local_listed s' = local_listed s \<and> web_out s' = web_out s \<and> web_in s' = web_in s"
  by (auto simp: remote_read_def Let_def bnd_Inr split: option.splits split del: if_split)

lemma remote_turn_keeps:
  "remote_turn delay c s = Inr s' \<Longrightarrow> local_listed s' = local_listed s \<and> web_out s' = web_out s \<and> web_in s' \<in> {web_in s, []}"
  by (auto simp: remote_turn_def BP_REMOTE_Process_def remote_connected_def Let_def bnd_Inr split: if_splits option.splits dest: remote_read_keeps)

lemma gone_step:
  assumes "\<not> local_listed s" and "relay_step delay e s = Inr s'"
  shows "\<not> local_listed s' \<and> web_out s' = web_out s \<and> web_in s' \<in> {web_in s, []}"
proof (cases e)
  case (Round res cl cr)
  define s1 where "s1 = (if remote_listed s then s\<lparr>pRemote := mark_end res (pRemote s)\<rparr> else s)"
  have s1: "\<not> local_listed s1" "web_out s1 = web_out s" "web_in s1 = web_in s" using assms(1) by (simp_all add: s1_def)
  have "remote_turn delay cr s1 = Inr s'" using assms Round by (auto simp: s1_def local_turn_def split: if_splits)
  from remote_turn_keeps [OF this] show ?thesis using s1 by simp
qed (use assms in auto)

lemma gone_run: "\<not> local_listed s \<Longrightarrow> relay_run delay es s = Inr s' \<Longrightarrow> \<not> local_listed s' \<and> web_out s' = web_out s \<and> web_in s' \<in> {web_in s, []}"
proof (induction es arbitrary: s)
  case (Cons e es)
  then obtain s1 where s1: "relay_step delay e s = Inr s1" "relay_run delay es s1 = Inr s'" by (auto simp: bnd_Inr)
  have g: "\<not> local_listed s1" "web_out s1 = web_out s" "web_in s1 \<in> {web_in s, []}" using gone_step [OF Cons.prems(1) s1(1)] by simp_all
  have "\<not> local_listed s' \<and> web_out s' = web_out s1 \<and> web_in s' \<in> {web_in s1, []}" by (rule Cons.IH [OF g(1) s1(2)])
  then show ?case using g by auto
qed simp

text \<open>
  The local end waits in the state HALT while the server cannot be reached, and its function is still called in every round; it ends
  without an answer there. If the caller finds a zero, the end leaves the list of the select thread.
\<close>

lemma halted_step:
  assumes "st (pLocal s) = ST_NET_HALT" and "local_listed s" and "\<not> c_garbage cl" and "relay_step delay (Round res cl cr) s = Inr s1"
  shows "\<not> local_listed s1 \<and> web_out s1 = web_out s \<and> web_in s1 \<in> {web_in s, []}"
proof -
  define s0 where "s0 = s\<lparr>pLocal := mark_end res (pLocal s), pRemote := if remote_listed s then mark_end res (pRemote s) else pRemote s\<rparr>"
  have "local_turn cl s0 = Inr (s0\<lparr>local_listed := False\<rparr>)"
    using assms(1-3) by (simp add: s0_def local_turn_def BP_LOCAL_Process_def Let_def relay_states)
  then have "remote_turn delay cr (s0\<lparr>local_listed := False\<rparr>) = Inr s1" using assms(2,4) by (simp add: s0_def)
  from remote_turn_keeps [OF this] show ?thesis by (simp add: s0_def)
qed

abbreviation ready_rounds :: "(bp_call \<times> bp_call) list \<Rightarrow> relay_event list" where
  "ready_rounds cs \<equiv> map (\<lambda>(cl, cr). Round (Ready UNIV UNIV) cl cr) cs"

text \<open>The end was called in HALT, in round \<open>k\<close>, and the caller found a zero.\<close>

definition dropped_in_halt :: "int \<Rightarrow> (bp_call \<times> bp_call) list \<Rightarrow> nat \<Rightarrow> relay \<Rightarrow> bool" where
  "dropped_in_halt delay cs k s = (case relay_run delay (ready_rounds (take k cs)) s of Inl _ \<Rightarrow> False
     | Inr u \<Rightarrow> st (pLocal u) = ST_NET_HALT \<and> local_listed u \<and> \<not> c_garbage (fst (cs ! k)))"

lemma helpful_rounds:
  assumes "\<forall>(cl, cr) \<in> set cs. helpful t cl \<and> helpful t cr" and "relay_inv magic len s" and "len \<le> BP_BUFFER" and "local_listed s" "remote_listed s"
  shows "\<exists>s'. relay_run delay (ready_rounds cs) s = Inr s' \<and> (rounds_left t s' \<le> rounds_left t s - length cs
     \<or> \<not> local_listed s' \<and> (\<exists>k < length cs. dropped_in_halt delay cs k s))"
  using assms
proof (induction cs arbitrary: s)
  case (Cons c cs)
  obtain cl cr where c: "c = (cl, cr)" by (cases c)
  then have h: "helpful t cl" "helpful t cr" using Cons.prems(1) by simp_all
  show ?case
  proof (cases "st (pLocal s) = ST_NET_HALT \<and> \<not> c_garbage cl")
    case True
    obtain s' where s': "relay_run delay (ready_rounds (c # cs)) s = Inr s'" using relay_run_inv [OF Cons.prems(2,3)] by blast
    then obtain s1 where s1: "relay_step delay (Round (Ready UNIV UNIV) cl cr) s = Inr s1" "relay_run delay (ready_rounds cs) s1 = Inr s'"
      using c by (auto simp: bnd_Inr)
    have "\<not> local_listed s'" using gone_run [OF _ s1(2)] halted_step [OF _ Cons.prems(4) _ s1(1)] True by blast
    moreover have "dropped_in_halt delay (c # cs) 0 s" using True Cons.prems(4) c by (simp add: dropped_in_halt_def)
    ultimately show ?thesis using s' by blast
  next
    case False
    then have "st (pLocal s) = ST_NET_HALT \<Longrightarrow> c_garbage cl" by blast
    from helpful_round [OF h Cons.prems(2-5) this, of delay] obtain s1 where s1: "relay_step delay (Round (Ready UNIV UNIV) cl cr) s = Inr s1"
      "relay_inv magic len s1" "local_listed s1" "remote_listed s1" "rounds_left t s1 < rounds_left t s \<or> rounds_left t s1 = 0" by blast
    obtain s' where s': "relay_run delay (ready_rounds cs) s1 = Inr s'" "rounds_left t s' \<le> rounds_left t s1 - length cs
        \<or> \<not> local_listed s' \<and> (\<exists>k < length cs. dropped_in_halt delay cs k s1)"
      using Cons.IH [OF _ s1(2) Cons.prems(3) s1(3,4)] Cons.prems(1) by auto
    have "dropped_in_halt delay (c # cs) (Suc k) s" if "dropped_in_halt delay cs k s1" for k
      using that s1(1) c by (simp add: dropped_in_halt_def split: sum.splits)
    moreover have "rounds_left t s' \<le> rounds_left t s - length (c # cs)" if "rounds_left t s' \<le> rounds_left t s1 - length cs"
      using that s1(5) by auto
    moreover have "relay_run delay (ready_rounds (c # cs)) s = Inr s'" using s1(1) s'(1) c by simp
    ultimately show ?thesis using s'(2) by (metis Suc_less_eq length_Cons)
  qed
qed simp

text \<open>
  C31. Whatever has happened to a channel, as long as the select thread still has both ends, nine rounds in which the outside helps
  bring both ends back to carrying bytes, with their connections in use -- with one exception: if the local end was called in
  the state HALT in one of these rounds and the caller found FALSE where the function ends without a return, the end has left the list.
\<close>

theorem channel_is_renewed:
  assumes "len \<le> BP_BUFFER" and "relay_run delay es (BPC_channel port magic len) = Inr s" and "local_listed s" "remote_listed s"
    and "length cs = 9" and "\<forall>(cl, cr) \<in> set cs. helpful t cl \<and> helpful t cr"
  shows "\<exists>s'. relay_run delay (ready_rounds cs) s = Inr s'
     \<and> (st (pLocal s') = ST_NET_READ \<and> st (pRemote s') = ST_NET_READ \<and> fresh t (pLocal s') \<and> fresh t (pRemote s')
        \<or> \<not> local_listed s' \<and> (\<exists>k < 9. dropped_in_halt delay cs k s))"
proof -
  have "relay_inv magic len s" using relay_run_inv [OF channel_inv assms(1), of delay es port magic] assms(2) by auto
  from helpful_rounds [OF assms(6) this assms(1,3,4), of delay] obtain s' where s': "relay_run delay (ready_rounds cs) s = Inr s'"
    "rounds_left t s' \<le> rounds_left t s - 9 \<or> \<not> local_listed s' \<and> (\<exists>k < 9. dropped_in_halt delay cs k s)" using assms(5) by auto
  have "rounds_left t s \<le> 9" by (simp add: rounds_left_def remote_rank_def local_rank_def Let_def)
  then have "rounds_left t s' = 0 \<or> \<not> local_listed s' \<and> (\<exists>k < 9. dropped_in_halt delay cs k s)" using s'(2) by auto
  then show ?thesis using s'(1) by (auto simp: rounds_left_def remote_rank_def local_rank_def Let_def split: if_splits)
qed

subsection \<open>What goes wrong\<close>

text \<open>
  Once that has happened, the channel never carries a byte again: whatever happens later, nothing more is written to the web server or
  read from it.
\<close>

theorem halted_channel_dies:
  assumes "st (pLocal s) = ST_NET_HALT" and "local_listed s" and "\<not> c_garbage cl" and "relay_run delay (Round res cl cr # es) s = Inr s'"
  shows "\<not> local_listed s' \<and> web_out s' = web_out s \<and> web_in s' \<in> {web_in s, []}"
proof -
  obtain s1 where s1: "relay_step delay (Round res cl cr) s = Inr s1" "relay_run delay es s1 = Inr s'" using assms(4) by (auto simp: bnd_Inr)
  with halted_step [OF assms(1-3) s1(1)] gone_run [OF _ s1(2)] show ?thesis by auto
qed

subsection \<open>Examples\<close>

definition example_call :: "int \<Rightarrow> bp_call" where
  "example_call fd = \<lparr>c_resolve = Some 1, c_socket = fd, c_nonblock = True, c_error = Some 0, c_taken = 100, c_write_again = True, c_got = [],
     c_read_again = True, c_time = 0, c_garbage = True\<rparr>"

definition quiet_rounds :: "nat \<Rightarrow> relay_event list" where
  "quiet_rounds n = replicate n (Round (Ready UNIV UNIV) (example_call 4) (example_call 3))"

text \<open>Greeting, a request of the server, and the answer of the web server.\<close>

definition example_events :: "relay_event list" where
  "example_events = Enter_remote # quiet_rounds 7
     @ [Round (Ready UNIV UNIV) (example_call 4) ((example_call 3)\<lparr>c_got := [71, 69, 84]\<rparr>),
        Round (Ready UNIV UNIV) ((example_call 4)\<lparr>c_got := [79, 75]\<rparr>) (example_call 3)] @ quiet_rounds 1"

definition example_magic :: "u8 list" where
  "example_magic = [82, 79, 86, 73, 79, 95, 67, 84, 82, 76]"

lemma run_holds: "(case r of Inl _ \<Rightarrow> False | Inr s \<Rightarrow> P s) \<Longrightarrow> \<exists>s. r = Inr s \<and> P s"
  by (cases r) simp_all

lemma relay_example_run:
  "\<exists>s. relay_run 0 example_events (BPC_channel 80 example_magic 11) = Inr s \<and> st (pLocal s) = ST_NET_READ \<and> st (pRemote s) = ST_NET_READ
     \<and> srv_out s = example_magic @ [0, 79, 75] \<and> web_out s = [71, 69, 84]"
proof -
  have "case relay_run 0 example_events (BPC_channel 80 example_magic 11) of Inl _ \<Rightarrow> False | Inr s \<Rightarrow>
      st (pLocal s) = ST_NET_READ \<and> st (pRemote s) = ST_NET_READ \<and> srv_out s = example_magic @ [0, 79, 75] \<and> web_out s = [71, 69, 84]"
    by code_simp
  from run_holds [OF this] show ?thesis by blast
qed

theorem relay_carries_bytes_witness:
  "\<exists>s. relay_run 0 example_events (BPC_channel 80 example_magic 11) = Inr s \<and> srv_out s @ content (pRemote s) = example_magic @ [0] @ web_in s
     \<and> suffix (web_out s @ content (pLocal s)) (srv_in s) \<and> srv_out s = example_magic @ [0, 79, 75] \<and> web_out s = [71, 69, 84]"
proof -
  obtain s where s: "relay_run 0 example_events (BPC_channel 80 example_magic 11) = Inr s" "st (pLocal s) = ST_NET_READ" "st (pRemote s) = ST_NET_READ"
    "srv_out s = example_magic @ [0, 79, 75]" "web_out s = [71, 69, 84]" using relay_example_run by blast
  have "11 \<le> BP_BUFFER" by (simp add: BP_BUFFER_def)
  from relay_carries_bytes [OF this, of 0 example_events 80 example_magic] s show ?thesis by (auto simp: example_magic_def)
qed

text \<open>The server could not be reached at first, and the local end is in HALT; then it is found in use again, or, in the last case, dropped.\<close>

definition unreachable :: relay_event where
  "unreachable = Round (Ready UNIV UNIV) (example_call 4) ((example_call 3)\<lparr>c_resolve := None\<rparr>)"

theorem channel_is_renewed_witness:
  "\<exists>s s'. relay_run 0 [Enter_remote, unreachable, unreachable] (BPC_channel 80 example_magic 11) = Inr s \<and> st (pLocal s) = ST_NET_HALT
     \<and> relay_run 0 (ready_rounds (replicate 9 (example_call 4, example_call 3))) s = Inr s'
     \<and> st (pLocal s') = ST_NET_READ \<and> st (pRemote s') = ST_NET_READ \<and> fresh 0 (pLocal s') \<and> fresh 0 (pRemote s')"
proof -
  have "case relay_run 0 [Enter_remote, unreachable, unreachable] (BPC_channel 80 example_magic 11) of Inl _ \<Rightarrow> False
      | Inr s \<Rightarrow> local_listed s \<and> remote_listed s \<and> st (pLocal s) = ST_NET_HALT"
    by code_simp
  from run_holds [OF this] obtain s where s: "relay_run 0 [Enter_remote, unreachable, unreachable] (BPC_channel 80 example_magic 11) = Inr s"
    "local_listed s" "remote_listed s" "st (pLocal s) = ST_NET_HALT" by blast
  have len: "11 \<le> BP_BUFFER" by (simp add: BP_BUFFER_def)
  have h: "\<forall>(cl, cr) \<in> set (replicate 9 (example_call 4, example_call 3)). helpful 0 cl \<and> helpful 0 cr"
    by (simp add: helpful_def example_call_def)
  have nd: "\<not> dropped_in_halt 0 (replicate 9 (example_call 4, example_call 3)) k s" if "k < 9" for k
    using that by (simp add: dropped_in_halt_def example_call_def split: sum.split)
  show ?thesis using channel_is_renewed [OF len s(1-3) _ h] s(1,4) nd by auto
qed

theorem halted_channel_dies_witness:
  "\<exists>s s'. relay_run 0 [Enter_remote, unreachable, unreachable] (BPC_channel 80 example_magic 11) = Inr s
     \<and> relay_run 0 (Round (Ready UNIV UNIV) ((example_call 4)\<lparr>c_garbage := False\<rparr>) (example_call 3) # quiet_rounds 12) s = Inr s'
     \<and> st (pRemote s') = ST_NET_READ \<and> \<not> local_listed s' \<and> web_out s' = web_out s"
proof -
  let ?es = "Round (Ready UNIV UNIV) ((example_call 4)\<lparr>c_garbage := False\<rparr>) (example_call 3) # quiet_rounds 12"
  have "case relay_run 0 [Enter_remote, unreachable, unreachable] (BPC_channel 80 example_magic 11) of Inl _ \<Rightarrow> False
      | Inr s \<Rightarrow> st (pLocal s) = ST_NET_HALT \<and> local_listed s
          \<and> (case relay_run 0 ?es s of Inl _ \<Rightarrow> False | Inr s' \<Rightarrow> st (pRemote s') = ST_NET_READ)"
    by code_simp
  from run_holds [OF this] obtain s where s: "relay_run 0 [Enter_remote, unreachable, unreachable] (BPC_channel 80 example_magic 11) = Inr s"
    "st (pLocal s) = ST_NET_HALT" "local_listed s"
    and t: "case relay_run 0 ?es s of Inl _ \<Rightarrow> False | Inr s' \<Rightarrow> st (pRemote s') = ST_NET_READ" by blast
  from run_holds [OF t] obtain s' where s': "relay_run 0 ?es s = Inr s'" "st (pRemote s') = ST_NET_READ" by blast
  have "\<not> c_garbage ((example_call 4)\<lparr>c_garbage := False\<rparr>)" by simp
  from halted_channel_dies [OF s(2,3) this s'(1)] s(1) s' show ?thesis by blast
qed

text \<open>
  When the web server ends its connection, the local end is renewed, and with it its buffer: what the server sends in the meantime is
  lost, although both connections work afterwards.
\<close>

theorem request_lost_in_renewal:
  "\<exists>es s. relay_run 0 es (BPC_channel 80 example_magic 11) = Inr s \<and> st (pLocal s) = ST_NET_READ \<and> st (pRemote s) = ST_NET_READ
     \<and> srv_in s = [71, 69, 84] \<and> web_out s = [] \<and> iLenTotal (pLocal s) = 0"
proof -
  let ?es = "Enter_remote # quiet_rounds 7
    @ Round (Ready UNIV UNIV) ((example_call 4)\<lparr>c_read_again := False\<rparr>) ((example_call 3)\<lparr>c_got := [71, 69, 84]\<rparr>) # quiet_rounds 5"
  have "case relay_run 0 ?es (BPC_channel 80 example_magic 11) of Inl _ \<Rightarrow> False | Inr s \<Rightarrow>
      st (pLocal s) = ST_NET_READ \<and> st (pRemote s) = ST_NET_READ \<and> srv_in s = [71, 69, 84] \<and> web_out s = [] \<and> iLenTotal (pLocal s) = 0"
    by code_simp
  from run_holds [OF this] show ?thesis by blast
qed

end
