(* ===== verification/VNetCommands.thy ===== *)
theory VNetCommands
  imports Relay NetSettings
begin

section \<open>The settings of the relay (BypassClient.c) and the channels they start\<close>

text \<open>
  GetVNet.cgi and SetVNet.cgi, and \<open>BPC_New\<close>, which starts a channel for each one configured when the camera starts. The channels are
  described by a text of port numbers and letters, which is printed with \<open>sprintf\<close> and read with \<open>sscanf\<close>; both follow the C library
  (a number out of range is cut to the range of \<open>int\<close>, as \<open>strtol\<close> does).
\<close>

definition BP_CONN_NUM :: nat where "BP_CONN_NUM = 6"
definition CL_SET_VNET :: int where "CL_SET_VNET = 42"

subsection \<open>Printing and reading numbers\<close>

text \<open>\<open>%d\<close> of \<open>sprintf\<close>.\<close>

definition int_text :: "int \<Rightarrow> string" where
  "int_text v = (if v < 0 then ''-'' @ dec (nat (- v)) else dec (nat v))"

definition is_digit :: "char \<Rightarrow> bool" where
  "is_digit c = (48 \<le> (of_char c :: nat) \<and> (of_char c :: nat) \<le> 57)"

definition is_space :: "char \<Rightarrow> bool" where
  "is_space c = ((of_char c :: nat) = 32 \<or> 9 \<le> (of_char c :: nat) \<and> (of_char c :: nat) \<le> 13)"

definition number :: "string \<Rightarrow> nat" where
  "number ds = foldl (\<lambda>n c. 10 * n + (of_char c - 48)) 0 ds"

definition to_int :: "int \<Rightarrow> u32" where
  "to_int v = word_of_int (max (- (2 ^ 31)) (min (2 ^ 31 - 1) v))"

text \<open>\<open>%d\<close> of \<open>sscanf\<close>: white space, a sign, digits. What follows is left.\<close>

definition scan_int :: "string \<Rightarrow> (u32 \<times> string) option" where
  "scan_int t =
     (let r = dropWhile is_space t;
          minus = (r \<noteq> [] \<and> hd r = CHR ''-'');
          r1 = (if r \<noteq> [] \<and> (hd r = CHR ''-'' \<or> hd r = CHR ''+'') then tl r else r);
          ds = takeWhile is_digit r1
      in if ds = [] then None else Some (to_int (if minus then - int (number ds) else int (number ds)), dropWhile is_digit r1))"

text \<open>\<open>"%d%c"\<close> six times, from channel i on, into the arrays; the result is the number of conversions.\<close>

function scan_channels :: "nat \<Rightarrow> string \<Rightarrow> u32 list \<times> u8 list \<Rightarrow> nat \<times> u32 list \<times> u8 list" where
  "scan_channels i t (ports, types) =
     (if i \<ge> BP_CONN_NUM then (2 * BP_CONN_NUM, ports, types)
      else case scan_int t of
        None \<Rightarrow> (2 * i, ports, types)
      | Some (n, []) \<Rightarrow> (2 * i + 1, ports[i := n], types)
      | Some (n, c # r) \<Rightarrow> scan_channels (i + 1) r (ports[i := n], types[i := of_char c]))"
  by pat_completeness auto
termination by (relation "measure (\<lambda>(i, _). BP_CONN_NUM - i)") auto

declare scan_channels.simps [simp del]

subsection \<open>The commands\<close>

definition is_video :: "u8 \<Rightarrow> bool" where
  "is_video b = (b = of_char CHR ''v'' \<or> b = of_char CHR ''V'')"

definition channel_text :: "server_cfg \<Rightarrow> nat \<Rightarrow> string" where
  "channel_text c i = int_text (sint (aiBPSLocalPort c ! i)) @ (if is_video (acBPSType c ! i) then ''V'' else ''C'')"

text \<open>Without a channel nothing is printed into \<open>acDescription\<close>, which is answered all the same.\<close>

definition Config_GetVNet :: "text_lib \<Rightarrow> ('h, 'r) ictl_state handler" where
  "Config_GetVNet T ps iAction s =
     (case iAction of
        CA_AUTH \<Rightarrow> Inr (AUTH_USER, [], s)
      | CA_CONFIG \<Rightarrow>
          let c = server_of s; n = sint (iBPSChannelsNum c)
          in if n > int BP_CONN_NUM then Inl OutOfBounds
             else if n \<le> 0 then Inl Uninitialised
             else let acDescription = concat (map (channel_text c) [0 ..< nat n])
                  in if length acDescription \<ge> 256 then Inl OutOfBounds
                     else Inr (0, [(''Enable'', httpLong2String T (if bEnableBPS c then 1 else 0)), (''Server'', acBPSDomainName c),
                            (''Port'', httpLong2String T (iBPSPort c)), (''Description'', acDescription),
                            (''Interval'', httpLong2String T (uDelayTime_InMSec c))], s)
      | CA_other \<Rightarrow> Inr (- 1, [], s))"

definition set_channels :: "string \<Rightarrow> server_cfg \<Rightarrow> server_cfg" where
  "set_channels pcDescription c =
     (case scan_channels 0 pcDescription (aiBPSLocalPort c, acBPSType c) of (nRet, ports, types) \<Rightarrow>
        c\<lparr>aiBPSLocalPort := ports, acBPSType := types, iBPSChannelsNum := of_nat (nRet div 2)\<rparr>)"

definition set_vnet :: "(string \<Rightarrow> nat \<Rightarrow> string) \<Rightarrow> text_lib \<Rightarrow> params \<Rightarrow> server_cfg \<Rightarrow> server_cfg" where
  "set_vnet cpy T ps c =
     (let c1 = (if httpIsExistParam ps ''Enable'' then c\<lparr>bEnableBPS := httpGetBool T ps ''Enable''\<rparr> else c);
          c2 = (if httpIsExistParam ps ''Server'' then c1\<lparr>acBPSDomainName := cpy (httpGetString ps ''Server'') 32\<rparr> else c1);
          c3 = (if httpIsExistParam ps ''Port'' then c2\<lparr>iBPSPort := httpGetLong T ps ''Port''\<rparr> else c2);
          c4 = (if httpIsExistParam ps ''Description'' then set_channels (httpGetString ps ''Description'') c3 else c3)
      in if httpIsExistParam ps ''Interval'' then c4\<lparr>uDelayTime_InMSec := httpGetLong T ps ''Interval''\<rparr> else c4)"

definition Config_SetVNet :: "('h, 'r) ictl_env \<Rightarrow> text_lib \<Rightarrow> request \<Rightarrow> 64 word \<Rightarrow> ('h, 'r) ictl_state handler" where
  "Config_SetVNet E T rq now ps iAction s =
     (case iAction of
        CA_AUTH \<Rightarrow> Inr (AUTH_ADMIN, [], s)
      | CA_CONFIG \<Rightarrow>
          bnd (save_config E (log_event CL_SET_VNET None rq now (upd_server (set_vnet (httpMyStrncpy (lib E)) T ps) s)))
            (\<lambda>s1. Inr (0, [], s1\<lparr>reboot := RebootOnClose\<rparr>))
      | CA_other \<Rightarrow> Inr (- 1, [], s))"

subsection \<open>Starting the channels\<close>

text \<open>The greeting is passed with the length 11, also \<open>ROVIO_CTRL\<close>, which has ten characters.\<close>

definition bytes_of :: "string \<Rightarrow> u8 list" where
  "bytes_of t = map of_char t"

definition BPC_New :: "server_cfg \<Rightarrow> u32 \<Rightarrow> relay list" where
  "BPC_New c iDefaultLocalPort =
     map (\<lambda>i. BPC_channel (if aiBPSLocalPort c ! i = 0 then iDefaultLocalPort else aiBPSLocalPort c ! i)
                (bytes_of (if is_video (acBPSType c ! i) then ''ROVIO_VIDEO'' else ''ROVIO_CTRL'')) 11)
       [0 ..< min BP_CONN_NUM (nat (sint (iBPSChannelsNum c)))]"

definition start_relay :: "config \<Rightarrow> relay list" where
  "start_relay c =
     (if bEnableBPS (cfg_server c)
      then BPC_New (cfg_server c) (if usHttpPort (cfg_net c) ! 0 = 0 then 80 else ucast (usHttpPort (cfg_net c) ! 0)) else [])"

subsection \<open>A description is read back\<close>

definition describe :: "(u32 \<times> bool) list \<Rightarrow> string" where
  "describe ch = concat (map (\<lambda>(p, v). int_text (sint p) @ (if v then ''V'' else ''C'')) ch)"

lemma digit_is_digit: "n < 10 \<Longrightarrow> is_digit (digit n) \<and> of_char (digit n) = 48 + n"
  by (simp add: is_digit_def digit_def)

lemma dec_digits: "(\<forall>c \<in> set (dec n). is_digit c) \<and> dec n \<noteq> [] \<and> number (dec n) = n"
proof (induction n rule: dec.induct)
  case (1 n)
  show ?case
  proof (cases "n < 10")
    case True
    then show ?thesis using digit_is_digit [of n] by (subst (1 2 3) dec.simps) (simp add: number_def)
  next
    case False
    note d = digit_is_digit [of "n mod 10"]
    have "dec n = dec (n div 10) @ [digit (n mod 10)]" using False by (subst dec.simps) simp
    then show ?thesis using 1 [OF False] d by (auto simp: number_def)
  qed
qed

lemma scan_digits:
  assumes "\<not> is_digit c"
  shows "takeWhile is_digit (dec n @ c # r) = dec n" "dropWhile is_digit (dec n @ c # r) = c # r"
  using dec_digits [of n] assms by (simp_all add: takeWhile_append2 dropWhile_append2)

lemma to_int_sint: "to_int (sint p) = p" for p :: u32
proof -
  have "- (2 ^ 31) \<le> sint p" "sint p < 2 ^ 31" using sint_ge [of p] sint_lt [of p] by simp_all
  then have "max (- (2 ^ 31)) (min (2 ^ 31 - 1) (sint p)) = sint p" by simp
  then show ?thesis unfolding to_int_def by (simp add: scast_id)
qed

lemma scan_int_text:
  fixes p :: u32
  assumes "\<not> is_digit c"
  shows "scan_int (int_text (sint p) @ c # r) = Some (p, c # r)"
proof (cases "sint p < 0")
  case True
  have n: "number (dec (nat (- sint p))) = nat (- sint p)" "dec (nat (- sint p)) \<noteq> []" using dec_digits by blast+
  have t: "int_text (sint p) @ c # r = CHR ''-'' # dec (nat (- sint p)) @ c # r" using True by (simp add: int_text_def)
  have "- int (nat (- sint p)) = sint p" using True by simp
  then show ?thesis unfolding t using n scan_digits [OF assms] to_int_sint [of p] by (simp add: scan_int_def Let_def is_space_def)
next
  case False
  obtain d ds where d: "dec (nat (sint p)) = d # ds" "is_digit d" using dec_digits [of "nat (sint p)"] by (cases "dec (nat (sint p))") auto
  have n: "number (dec (nat (sint p))) = nat (sint p)" using dec_digits by blast
  have k: "\<not> is_space d" "d \<noteq> CHR ''-''" "d \<noteq> CHR ''+''" using d(2) by (auto simp: is_digit_def is_space_def)
  have t: "int_text (sint p) @ c # r = dec (nat (sint p)) @ c # r" using False by (simp add: int_text_def)
  have w: "takeWhile is_digit (d # ds @ c # r) = d # ds" "dropWhile is_digit (d # ds @ c # r) = c # r"
    using scan_digits [OF assms, of "nat (sint p)" r] d(1) by simp_all
  show ?thesis unfolding t using n k w False to_int_sint [of p] by (simp add: scan_int_def Let_def d(1))
qed

definition letter :: "bool \<Rightarrow> u8" where
  "letter v = of_char (if v then CHR ''V'' else CHR ''C'')"

lemma scan_description:
  assumes "length ports = BP_CONN_NUM" "length types = BP_CONN_NUM" "i + length ch \<le> BP_CONN_NUM"
  shows "scan_channels i (describe ch) (ports, types) = (2 * (i + length ch),
    take i ports @ map fst ch @ drop (i + length ch) ports, take i types @ map (letter \<circ> snd) ch @ drop (i + length ch) types)"
  using assms
proof (induction ch arbitrary: i ports types)
  case Nil
  then show ?case by (subst scan_channels.simps) (simp add: describe_def scan_int_def Let_def)
next
  case (Cons pv ch)
  obtain p v where pv: "pv = (p, v)" by (cases pv)
  let ?c = "if v then CHR ''V'' else CHR ''C''"
  have t: "describe (pv # ch) = int_text (sint p) @ ?c # describe ch" by (simp add: describe_def pv)
  have c: "\<not> is_digit ?c" by (simp add: is_digit_def)
  have i: "i < BP_CONN_NUM" using Cons.prems(3) by simp
  have "scan_channels i (describe (pv # ch)) (ports, types) = scan_channels (i + 1) (describe ch) (ports[i := p], types[i := letter v])"
    using i scan_int_text [OF c] by (subst scan_channels.simps) (simp add: t letter_def)
  also have "\<dots> = (2 * (i + 1 + length ch),
      take (i + 1) (ports[i := p]) @ map fst ch @ drop (i + 1 + length ch) (ports[i := p]),
      take (i + 1) (types[i := letter v]) @ map (letter \<circ> snd) ch @ drop (i + 1 + length ch) (types[i := letter v]))"
    using Cons.IH [of "ports[i := p]" "types[i := letter v]" "i + 1"] Cons.prems by simp
  finally show ?case using Cons.prems i by (simp add: take_Suc_conv_app_nth pv)
qed

lemma is_video_letter [simp]: "is_video (letter v) = v"
  by (simp add: is_video_def letter_def)

lemma describe_short:
  assumes "length ch \<le> BP_CONN_NUM"
  shows "length (describe ch) < 256"
proof -
  have one: "length (int_text (sint p) @ (if v then ''V'' else ''C'')) \<le> 12" for p :: u32 and v
  proof -
    have "- (2 ^ 31) \<le> sint p" "sint p < 2 ^ 31" using sint_ge [of p] sint_lt [of p] by simp_all
    then have "nat (- sint p) < 10 ^ 10" "nat (sint p) < 10 ^ 10" by simp_all
    then show ?thesis using length_dec_le [of "nat (- sint p)" 10] length_dec_le [of "nat (sint p)" 10] by (simp add: int_text_def)
  qed
  have "length (describe ch) \<le> 12 * length ch"
    by (induction ch) (use one in \<open>auto simp: describe_def intro: order_trans [OF add_mono]\<close>)
  then show ?thesis using assms by (simp add: BP_CONN_NUM_def)
qed

lemma channels_set:
  assumes "length (aiBPSLocalPort c) = BP_CONN_NUM" "length (acBPSType c) = BP_CONN_NUM" "length ch \<le> BP_CONN_NUM"
  shows "set_channels (describe ch) c = c\<lparr>aiBPSLocalPort := map fst ch @ drop (length ch) (aiBPSLocalPort c),
    acBPSType := map (letter \<circ> snd) ch @ drop (length ch) (acBPSType c), iBPSChannelsNum := of_nat (length ch)\<rparr>"
  using scan_description [OF assms(1,2), of 0 ch] assms(3) by (simp add: set_channels_def)

lemma channels_printed:
  assumes "aiBPSLocalPort c = map fst ch @ ps" "acBPSType c = map (letter \<circ> snd) ch @ ts"
  shows "concat (map (channel_text c) [0 ..< length ch]) = describe ch"
proof -
  have "map (channel_text c) [0 ..< length ch] = map (\<lambda>(p, v). int_text (sint p) @ (if v then ''V'' else ''C'')) ch"
    by (rule nth_equalityI) (auto simp: channel_text_def assms nth_append split: prod.split)
  then show ?thesis by (simp add: describe_def)
qed

text \<open>
  C33. The settings of the relay are read back as they were set: SetVNet.cgi stores them (in the flash, too) and has the camera restarted,
  GetVNet.cgi then answers the same values and the same description, and the restarted camera runs exactly the channels described, each
  with its port (the web server's where 0 was given) and the greeting of its kind.
\<close>

theorem vnet_settings_read_back:
  assumes "ictl_ok E s" and "\<forall>t n. length t < n \<longrightarrow> httpMyStrncpy (lib E) t n = t"
    and "length (aiBPSLocalPort (server_of s)) = BP_CONN_NUM" "length (acBPSType (server_of s)) = BP_CONN_NUM"
    and "\<forall>n \<in> {''Enable'', ''Server'', ''Port'', ''Description'', ''Interval''}. httpIsExistParam ps n"
    and "length (httpGetString ps ''Server'') < 32" and "httpGetString ps ''Description'' = describe ch"
    and "ch \<noteq> []" "length ch \<le> BP_CONN_NUM"
  shows "\<exists>s'. Config_SetVNet E T rq now ps CA_CONFIG s = Inr (0, [], s') \<and> config_saved E s' \<and> reboot s' = RebootOnClose
     \<and> Config_GetVNet T [] CA_CONFIG s' = Inr (0,
         [(''Enable'', httpLong2String T (if httpGetBool T ps ''Enable'' then 1 else 0)), (''Server'', httpGetString ps ''Server''),
          (''Port'', httpLong2String T (httpGetLong T ps ''Port'')), (''Description'', describe ch),
          (''Interval'', httpLong2String T (httpGetLong T ps ''Interval''))], s')
     \<and> start_relay (ic_cfg s') = (if httpGetBool T ps ''Enable''
         then map (\<lambda>(p, v). BPC_channel (if p \<noteq> 0 then p else if usHttpPort (cfg_net (ic_cfg s)) ! 0 = 0 then 80 else ucast (usHttpPort (cfg_net (ic_cfg s)) ! 0))
                    (bytes_of (if v then ''ROVIO_VIDEO'' else ''ROVIO_CTRL'')) 11) ch else [])"
proof -
  let ?c = "set_vnet (httpMyStrncpy (lib E)) T ps (server_of s)"
  let ?s1 = "log_event CL_SET_VNET None rq now (upd_server (set_vnet (httpMyStrncpy (lib E)) T ps) s)"
  have cpy: "httpMyStrncpy (lib E) (httpGetString ps ''Server'') 32 = httpGetString ps ''Server''" using assms(2,6) by simp
  have c: "aiBPSLocalPort ?c = map fst ch @ drop (length ch) (aiBPSLocalPort (server_of s))"
    "acBPSType ?c = map (letter \<circ> snd) ch @ drop (length ch) (acBPSType (server_of s))" "iBPSChannelsNum ?c = of_nat (length ch)"
    "bEnableBPS ?c = httpGetBool T ps ''Enable''" "acBPSDomainName ?c = httpGetString ps ''Server''" "iBPSPort ?c = httpGetLong T ps ''Port''"
    "uDelayTime_InMSec ?c = httpGetLong T ps ''Interval''"
    using assms(3-5,7,9) cpy by (simp_all add: set_vnet_def Let_def channels_set)
  have "ictl_ok E ?s1" using assms(1) by (simp add: ictl_ok_def log_event_def upd_server_def)
  from save_config_ok [OF this] obtain f where f: "save_config E ?s1 = Inr (?s1\<lparr>ic_flash := f\<rparr>)" "config_saved E (?s1\<lparr>ic_flash := f\<rparr>)" by blast
  define s' where "s' = ?s1\<lparr>ic_flash := f, reboot := RebootOnClose\<rparr>"
  have s': "server_of s' = ?c" "cfg_net (ic_cfg s') = cfg_net (ic_cfg s)" by (simp_all add: s'_def log_event_def upd_server_def)
  have set: "Config_SetVNet E T rq now ps CA_CONFIG s = Inr (0, [], s')" by (simp add: Config_SetVNet_def f(1) s'_def)
  have saved: "config_saved E s'" using f(2) by (simp add: s'_def config_saved_def ictl_ok_def)
  have n: "sint (of_nat (length ch) :: u32) = int (length ch)"
    using assms(9) by (simp add: BP_CONN_NUM_def signed_of_nat signed_take_bit_int_eq_self)
  have get: "Config_GetVNet T [] CA_CONFIG s' = Inr (0,
      [(''Enable'', httpLong2String T (if httpGetBool T ps ''Enable'' then 1 else 0)), (''Server'', httpGetString ps ''Server''),
       (''Port'', httpLong2String T (httpGetLong T ps ''Port'')), (''Description'', describe ch),
       (''Interval'', httpLong2String T (httpGetLong T ps ''Interval''))], s')"
    using channels_printed [OF c(1,2)] describe_short [OF assms(9)] assms(8,9) n by (simp add: Config_GetVNet_def s' c Let_def)
  have "min BP_CONN_NUM (nat (sint (iBPSChannelsNum ?c))) = length ch" using n assms(9) by (simp add: c)
  then have "BPC_New ?c d = map (\<lambda>(p, v). BPC_channel (if p \<noteq> 0 then p else d) (bytes_of (if v then ''ROVIO_VIDEO'' else ''ROVIO_CTRL'')) 11) ch" for d
    unfolding BPC_New_def by (intro nth_equalityI) (auto simp: c nth_append split: prod.split)
  then have "start_relay (ic_cfg s') = (if httpGetBool T ps ''Enable''
      then map (\<lambda>(p, v). BPC_channel (if p \<noteq> 0 then p else if usHttpPort (cfg_net (ic_cfg s)) ! 0 = 0 then 80 else ucast (usHttpPort (cfg_net (ic_cfg s)) ! 0))
                 (bytes_of (if v then ''ROVIO_VIDEO'' else ''ROVIO_CTRL'')) 11) ch else [])"
    unfolding start_relay_def s' c(4) by simp
  with set saved get show ?thesis by (intro exI [of _ s']) (simp add: s'_def)
qed

text \<open>With an empty description GetVNet.cgi answers whatever the stack holds.\<close>

theorem empty_description_unprinted:
  assumes "Config_SetVNet E T rq now ps CA_CONFIG s = Inr (r, vals, s')" and "httpIsExistParam ps ''Description''" "httpGetString ps ''Description'' = []"
  shows "Config_GetVNet T [] CA_CONFIG s' = Inl Uninitialised"
proof -
  have n: "iBPSChannelsNum (set_vnet cpy T ps c) = 0" for cpy c
    using assms(2,3) by (simp add: set_vnet_def set_channels_def scan_channels.simps [of 0] scan_int_def Let_def BP_CONN_NUM_def)
  have "\<exists>s1. save_config E (log_event CL_SET_VNET None rq now (upd_server (set_vnet (httpMyStrncpy (lib E)) T ps) s)) = Inr s1 \<and> s' = s1\<lparr>reboot := RebootOnClose\<rparr>"
    using assms(1) by (auto simp: Config_SetVNet_def bnd_Inr)
  then have "server_of s' = set_vnet (httpMyStrncpy (lib E)) T ps (server_of s)"
    by (auto simp: save_config_def log_event_def upd_server_def split: option.splits)
  then show ?thesis using n by (simp add: Config_GetVNet_def)
qed

theorem vnet_settings_read_back_witness:
  "\<exists>s' vals. Config_SetVNet example_env example_text bob_request 0 [(''Enable'', ''1''), (''Server'', ''relay''), (''Port'', ''9''),
        (''Description'', ''80V0C''), (''Interval'', ''7'')] CA_CONFIG example_state = Inr (0, [], s')
     \<and> Config_GetVNet example_text [] CA_CONFIG s' = Inr (0, vals, s') \<and> map_of vals ''Description'' = Some ''80V0C''
     \<and> length (start_relay (ic_cfg s')) = 2"
proof -
  let ?ps = "[(''Enable'', ''1''), (''Server'', ''relay''), (''Port'', ''9''), (''Description'', ''80V0C''), (''Interval'', ''7'')]"
  have cpy: "\<forall>t n. length t < n \<longrightarrow> httpMyStrncpy (lib example_env) t n = t" by (simp add: example_env_sel example_lib_sel)
  have l: "length (aiBPSLocalPort (server_of example_state)) = BP_CONN_NUM" "length (acBPSType (server_of example_state)) = BP_CONN_NUM"
    by (simp_all add: example_state_def example_config_def InitDefaultParam_def zero_config_def BP_CONN_NUM_def)
  have ps: "\<forall>n \<in> {''Enable'', ''Server'', ''Port'', ''Description'', ''Interval''}. httpIsExistParam ?ps n"
    "length (httpGetString ?ps ''Server'') < 32"
    by (simp_all add: httpIsExistParam_def httpGetString_def)
  have "describe [(80, True), (0, False)] = ''80V0C''" by code_simp
  then have d: "httpGetString ?ps ''Description'' = describe [(80, True), (0, False)]" by (simp add: httpGetString_def)
  have en: "httpGetBool example_text ?ps ''Enable''" by (simp add: httpGetBool_def example_text_def)
  have ch: "[(80 :: u32, True), (0, False)] \<noteq> []" "length [(80 :: u32, True), (0, False)] \<le> BP_CONN_NUM" by (simp_all add: BP_CONN_NUM_def)
  from vnet_settings_read_back [OF example_ictl_ok cpy l ps d ch, of example_text bob_request 0] en d show ?thesis
    by (auto simp: httpGetString_def)
qed

end
