(* ===== verification/DeviceCommands.thy ===== *)
theory DeviceCommands
  imports CameraThread FirmwareUpload VNetCommands
begin

section \<open>Mail, clock, overlay and other settings (Mail/Mailapp.c, Register.c, System.c, Version.c, Upload/Upload.c)\<close>

text \<open>
  The remaining commands that read or change the configuration. The clock is two offsets: from the seconds since power on to the time
  of day, and from the zone of the C library (\<open>zone\<close>, a parameter, as \<open>mktime\<close> gives it) to that of the camera. Mail itself is sent
  by a binary library; here are its settings.
\<close>

definition CL_SET_MAIL :: int where "CL_SET_MAIL = 23"
definition CL_SET_TIME :: int where "CL_SET_TIME = 30"
definition CL_CHANGE_LOGO :: int where "CL_CHANGE_LOGO = 40"

subsection \<open>Mail\<close>

definition set_mail :: "(string \<Rightarrow> nat \<Rightarrow> string) \<Rightarrow> text_lib \<Rightarrow> params \<Rightarrow> mail_cfg \<Rightarrow> mail_cfg" where
  "set_mail cpy T ps m =
     (let given = (\<lambda>n size old. if httpIsExistParam ps n then cpy (httpGetString ps n) size else old);
          port = (if httpIsExistParam ps ''Port''
                  then (let p = ucast (httpGetLong T ps ''Port'') in if p = 0 then 25 else p) else usMailPort m)
      in \<lparr>acMailSender = given ''Sender'' 64 (acMailSender m), acMailReceiver = given ''Receiver'' 256 (acMailReceiver m),
          acMailServer = given ''MailServer'' 64 (acMailServer m), usMailPort = port, acMailUser = given ''User'' 64 (acMailUser m),
          acMailPassword = given ''PassWord'' 64 (acMailPassword m), acMailSubject = given ''Subject'' 64 (acMailSubject m),
          acMailBody = given ''Body'' 512 (acMailBody m),
          bMailCheck = (httpIsExistParam ps ''CheckFlag'' \<and> httpGetString ps ''CheckFlag'' = ''CHECK''),
          bMailEnable = (httpIsExistParam ps ''Enable'' \<and> httpGetBool T ps ''Enable'')\<rparr>)"

definition Config_SetMail :: "('h, 'r) ictl_env \<Rightarrow> text_lib \<Rightarrow> request \<Rightarrow> 64 word \<Rightarrow> ('h, 'r) ictl_state handler" where
  "Config_SetMail E T rq now ps iAction s =
     (case iAction of
        CA_AUTH \<Rightarrow> Inr (AUTH_ADMIN, [], s)
      | CA_CONFIG \<Rightarrow>
          let m = set_mail (httpMyStrncpy (lib E)) T ps (cfg_mail (ic_cfg s));
              s1 = s\<lparr>ic_cfg := (ic_cfg s)\<lparr>cfg_mail := m\<rparr>, ic_ucEmail := if bMailEnable m then 1 else 0\<rparr>
          in bnd (save_config E (log_event CL_SET_MAIL (Some (acMailReceiver m)) rq now s1)) (\<lambda>s2. Inr (0, [], s2))
      | CA_other \<Rightarrow> Inr (- 1, [], s))"

definition Config_GetMail :: "text_lib \<Rightarrow> ('h, 'r) ictl_state handler" where
  "Config_GetMail T ps iAction s =
     (case iAction of
        CA_AUTH \<Rightarrow> Inr (AUTH_ADMIN, [], s)
      | CA_CONFIG \<Rightarrow>
          let m = cfg_mail (ic_cfg s)
          in Inr (0, [(''MailServer'', acMailServer m), (''Port'', httpLong2String T (if usMailPort m = 0 then 25 else ucast (usMailPort m))),
               (''Sender'', acMailSender m), (''Receiver'', acMailReceiver m), (''Subject'', acMailSubject m), (''Body'', acMailBody m),
               (''User'', acMailUser m), (''PassWord'', acMailPassword m),
               (''CheckFlag'', httpLong2String T (if bMailCheck m then 1 else 0)),
               (''Enable'', httpLong2String T (if bMailEnable m then 1 else 0))], s)
      | CA_other \<Rightarrow> Inr (- 1, [], s))"

subsection \<open>The clock\<close>

record clock =
  now_ticks :: "64 word"
  system_zone :: u32
  rtc_time :: u32

definition SetCheckedTime :: "clock \<Rightarrow> u32 option \<Rightarrow> u32 option \<Rightarrow> ('h, 'r) ictl_state \<Rightarrow> ('h, 'r) ictl_state" where
  "SetCheckedTime k time zone s =
     (let s1 = (case time of None \<Rightarrow> s | Some t \<Rightarrow> s\<lparr>g_lTimeDelay1970_InSec := t - mytime (now_ticks k)\<rparr>);
          s2 = (case zone of None \<Rightarrow> s1 | Some z \<Rightarrow> s1\<lparr>g_lTimeDelayZone_InSec := z - system_zone k\<rparr>)
      in s2\<lparr>overlay_time := rtc_time k + (g_lTimeDelay1970_InSec s2 - g_lTimeDelayZone_InSec s2) + system_zone k\<rparr>)"

definition GetCheckedTime :: "clock \<Rightarrow> ('h, 'r) ictl_state \<Rightarrow> u32 \<times> u32" where
  "GetCheckedTime k s = (mytime (now_ticks k) + g_lTimeDelay1970_InSec s, system_zone k + g_lTimeDelayZone_InSec s)"

definition asked_zone :: "text_lib \<Rightarrow> params \<Rightarrow> u32 option" where
  "asked_zone T ps =
     (let z = 60 * httpGetLong T ps ''TimeZone''
      in if httpIsExistParam ps ''TimeZone'' \<and> - 780 * 60 < sint z \<and> sint z < 720 * 60 then Some z else None)"

definition Config_SetTime :: "('h, 'r) ictl_env \<Rightarrow> text_lib \<Rightarrow> request \<Rightarrow> clock \<Rightarrow> ('h, 'r) ictl_state handler" where
  "Config_SetTime E T rq k ps iAction s =
     (case iAction of
        CA_AUTH \<Rightarrow> Inr (AUTH_ADMIN, [], s)
      | CA_CONFIG \<Rightarrow>
          let t = cfg_time (ic_cfg s);
              bIsChange = (case asked_zone T ps of None \<Rightarrow> False | Some z \<Rightarrow> z \<noteq> lTimeZone_InSec t);
              s1 = (case asked_zone T ps of None \<Rightarrow> s
                    | Some z \<Rightarrow> SetCheckedTime k None (Some z) (s\<lparr>ic_cfg := (ic_cfg s)\<lparr>cfg_time := t\<lparr>lTimeZone_InSec := z\<rparr>\<rparr>\<rparr>));
              s2 = (if httpIsExistParam ps ''Sec1970'' then SetCheckedTime k (Some (httpGetLong T ps ''Sec1970'')) None s1 else s1);
              s3 = log_common CL_SET_TIME (if bUseNtp t then ''1'' else ''0'') rq (now_ticks k) s2
          in bnd (if bIsChange then save_config E s3 else Inr s3) (\<lambda>s4. Inr (0, [], s4))
      | CA_other \<Rightarrow> Inr (- 1, [], s))"

text \<open>The division of C, which rounds towards 0.\<close>

definition minutes :: "u32 \<Rightarrow> u32" where
  "minutes z = word_of_int (if sint z < 0 then - ((- sint z) div 60) else sint z div 60)"

definition Config_GetTime :: "text_lib \<Rightarrow> clock \<Rightarrow> ('h, 'r) ictl_state handler" where
  "Config_GetTime T k ps iAction s =
     (case iAction of
        CA_AUTH \<Rightarrow> Inr (AUTH_USER, [], s)
      | CA_CONFIG \<Rightarrow>
          (case GetCheckedTime k s of (time, zone) \<Rightarrow>
             Inr (0, [(''Sec1970'', httpLong2String T time), (''TimeZone'', httpLong2String T (minutes zone)),
               (''NtpServer'', acNtpServer (cfg_time (ic_cfg s))),
               (''UseNtp'', httpLong2String T (if bUseNtp (cfg_time (ic_cfg s)) then 1 else 0))], s))
      | CA_other \<Rightarrow> Inr (- 1, [], s))"

subsection \<open>The text shown in the picture\<close>

definition asked_logo :: "text_lib \<Rightarrow> params \<Rightarrow> (string \<times> u32) \<times> (string \<times> u32)" where
  "asked_logo T ps =
     (let text = (\<lambda>n old. if httpIsExistParam ps n then httpGetString ps n else old);
          pos = (\<lambda>n old. if httpIsExistParam ps n then httpGetLong T ps n else old)
      in ((text ''showstring0'' (text ''showstring'' []), pos ''pos0'' (pos ''pos'' 0)), (text ''showstring1'' [], pos ''pos1'' 0)))"

definition Config_SetLogo :: "('h, 'r) ictl_env \<Rightarrow> text_lib \<Rightarrow> request \<Rightarrow> 64 word \<Rightarrow> ('h, 'r) ictl_state handler" where
  "Config_SetLogo E T rq now ps iAction s =
     (case iAction of
        CA_AUTH \<Rightarrow> Inr (AUTH_ADMIN, [], s)
      | CA_CONFIG \<Rightarrow>
          (case asked_logo T ps of ((t0, p0), (t1, p1)) \<Rightarrow>
             let c = cfg_time (ic_cfg s);
                 bIsChange = (p0 \<noteq> ShowPos c ! 0 \<or> ShowString c ! 0 \<noteq> t0 \<or> p1 \<noteq> ShowPos c ! 1 \<or> ShowString c ! 1 \<noteq> t1);
                 c1 = c\<lparr>ShowString := [take 127 t0, take 127 t1], ShowPos := [p0, p1]\<rparr>;
                 s1 = (if bIsChange then SendCameraMsg MSG_SET_LOGO (ShowTime c) (s\<lparr>ic_cfg := (ic_cfg s)\<lparr>cfg_time := c1\<rparr>\<rparr>) else s);
                 s2 = log_common CL_CHANGE_LOGO ''1'' rq now s1
             in bnd (if bIsChange then save_config E s2 else Inr s2) (\<lambda>s3. Inr (0, [], s3)))
      | CA_other \<Rightarrow> Inr (- 1, [], s))"

definition Config_GetLogo :: "text_lib \<Rightarrow> ('h, 'r) ictl_state handler" where
  "Config_GetLogo T ps iAction s =
     (case iAction of
        CA_AUTH \<Rightarrow> Inr (AUTH_USER, [], s)
      | CA_CONFIG \<Rightarrow>
          let c = cfg_time (ic_cfg s)
          in Inr (0, [(''ShowString'', ShowString c ! 0), (''ShowPos'', httpLong2String T (ShowPos c ! 0)),
               (''ShowString'', ShowString c ! 1), (''ShowPos'', httpLong2String T (ShowPos c ! 1))], s)
      | CA_other \<Rightarrow> Inr (- 1, [], s))"

subsection \<open>Direction, UPnP, progress of an update, version\<close>

text \<open>The direction of the picture cannot be changed any more: the command does nothing.\<close>

definition Config_ChDirection :: "('h, 'r) ictl_state handler" where
  "Config_ChDirection ps iAction s = Inr (0, [], s)"

text \<open>What the UPnP library answers: the ports it could map (none when it fails) and the outer address.\<close>

definition Config_GetUPnP :: "text_lib \<Rightarrow> u16 list \<Rightarrow> string option \<Rightarrow> ('h, 'r) ictl_state handler" where
  "Config_GetUPnP T upnp_ports upnp_extip ps iAction s =
     (case iAction of
        CA_AUTH \<Rightarrow> Inr (AUTH_USER, [], s)
      | CA_CONFIG \<Rightarrow>
          let c = server_of s; ausPort = upnp_ports @ replicate (5 - length upnp_ports) 0
          in Inr (0, [(''Enable'', httpLong2String T (if bEnableUPnP c then 1 else 0)),
               (''Port'', httpLong2String T (ucast (if usUPnPPort c = 0 then DEFAULT_UPNP_FIRST_EXT_PORT else usUPnPPort c))),
               (''IP'', case upnp_extip of None \<Rightarrow> [] | Some ip \<Rightarrow> ip), (''HTTP'', httpLong2String T (ucast (ausPort ! 0))),
               (''RTSP_TCP'', httpLong2String T (ucast (ausPort ! 1))), (''RTSP_UDP'', httpLong2String T (ucast (ausPort ! 2)))], s)
      | CA_other \<Rightarrow> Inr (- 1, [], s))"

text \<open>Of \<open>g_FlashUpdateState\<close> only the state is ever assigned; the sizes keep the 0 they start with.\<close>

definition update_code :: "flash_update_state \<Rightarrow> u32" where
  "update_code u = (case u of FIRMWARE_STOP \<Rightarrow> 0 | FIRMWARE_UPLOADING \<Rightarrow> 1 | FIRMWARE_FLASHING \<Rightarrow> 2)"

definition Config_UpdateProgress :: "text_lib \<Rightarrow> flash_update_state \<Rightarrow> ('h, 'r) ictl_state handler" where
  "Config_UpdateProgress T u ps iAction s =
     (case iAction of
        CA_AUTH \<Rightarrow> Inr (AUTH_ADMIN, [], s)
      | CA_CONFIG \<Rightarrow> Inr (0, [(''Finish'', httpLong2String T 0), (''Total'', httpLong2String T 0),
          (''Status'', httpLong2String T (update_code u))], s)
      | CA_other \<Rightarrow> Inr (- 1, [], s))"

text \<open>The text of the change log and the time of the compilation are put in by the build.\<close>

fun strstr :: "string \<Rightarrow> string \<Rightarrow> string option" where
  "strstr t w = (if take (length w) t = w then Some t else case t of [] \<Rightarrow> None | _ # r \<Rightarrow> strstr r w)"

definition VERSION_STR :: string where "VERSION_STR = ''$Revision: ''"

record build =
  b_version :: string
  b_date :: string
  b_time :: string

definition WRGetProductVersionNum :: "build \<Rightarrow> u32 \<times> u32" where
  "WRGetProductVersionNum b =
     (5, case strstr (b_version b) VERSION_STR of None \<Rightarrow> 0
         | Some p \<Rightarrow> (case scan_int (drop (length VERSION_STR) p) of None \<Rightarrow> 0 | Some (n, _) \<Rightarrow> n))"

definition WRGetProductVersion :: "build \<Rightarrow> string" where
  "WRGetProductVersion b =
     (case WRGetProductVersionNum b of (major, minor) \<Rightarrow>
        take 127 (b_date b @ '' '' @ b_time b @ '' '' @ VERSION_STR @ int_text (sint major) @ ''.'' @ int_text (sint minor) @ ''$''))"

definition Config_GetVer :: "build \<Rightarrow> ('h, 'r) ictl_state handler" where
  "Config_GetVer b ps iAction s =
     (case iAction of
        CA_AUTH \<Rightarrow> Inr (AUTH_USER, [], s)
      | CA_CONFIG \<Rightarrow> Inr (0, [(''Version'', WRGetProductVersion b)], s)
      | CA_other \<Rightarrow> Inr (- 1, [], s))"

lemmas device_cmd_defs = Config_SetMail_def Config_GetMail_def Config_SetTime_def Config_GetTime_def Config_SetLogo_def Config_GetLogo_def
  Config_ChDirection_def Config_GetUPnP_def Config_UpdateProgress_def Config_GetVer_def

subsection \<open>What is set is read back\<close>

lemma ictl_ok_upd [simp]: "ictl_ok E (SetCheckedTime k t z s) = ictl_ok E s" "ictl_ok E (log_common i v rq now s) = ictl_ok E s"
  "ictl_ok E (log_event i v' rq now s) = ictl_ok E s" "ictl_ok E (SendCameraMsg m d s) = ictl_ok E s" "ictl_ok E (s\<lparr>ic_cfg := c\<rparr>) = ictl_ok E s"
  "ictl_ok E (s\<lparr>ic_ucEmail := e\<rparr>) = ictl_ok E s"
  by (cases t; cases z; simp add: ictl_ok_def SetCheckedTime_def log_common_def log_event_def SendCameraMsg_def)+

lemma clock_sel [simp]: "ic_cfg (SetCheckedTime k t z s) = ic_cfg s"
  by (cases t; cases z; simp add: SetCheckedTime_def)

lemma GetCheckedTime_set:
  "system_zone k' = system_zone k \<Longrightarrow> GetCheckedTime k' (SetCheckedTime k t z s)
     = (case t of None \<Rightarrow> fst (GetCheckedTime k' s) | Some t \<Rightarrow> t + (mytime (now_ticks k') - mytime (now_ticks k)),
        case z of None \<Rightarrow> snd (GetCheckedTime k' s) | Some z \<Rightarrow> z)"
  by (cases t; cases z; simp add: GetCheckedTime_def SetCheckedTime_def)

lemma sint_minutes:
  fixes m :: u32
  assumes "- 780 < sint m" "sint m < 720"
  shows "sint (60 * m) = 60 * sint m" and "minutes (60 * m) = m"
proof -
  have w: "60 * m = word_of_int (60 * sint m)" by simp
  have "sint (60 * m) = signed_take_bit 31 (60 * sint m)" unfolding w by (subst signed_of_int) simp
  also have "\<dots> = 60 * sint m" using assms by (intro signed_take_bit_int_eq_self) simp_all
  finally show s: "sint (60 * m) = 60 * sint m" .
  have "60 * (- sint m) div 60 = - sint m" by (rule nonzero_mult_div_cancel_left) simp
  then have "(if 60 * sint m < 0 then - ((- (60 * sint m)) div 60) else 60 * sint m div 60) = sint m" by simp
  then show "minutes (60 * m) = m" unfolding minutes_def s by simp
qed

text \<open>
  C32. The clock that is set is kept: after SetTime.cgi with a time and a zone within its bounds, GetTime.cgi answers, at any later
  moment, that time plus the seconds that have passed, and that zone; and the zone is in the flash unless it was the one already stored.
\<close>

theorem clock_is_kept:
  assumes "ictl_ok E s" and "httpIsExistParam ps ''Sec1970''" "httpIsExistParam ps ''TimeZone''"
    and "- 780 < sint (httpGetLong T ps ''TimeZone'')" "sint (httpGetLong T ps ''TimeZone'') < 720"
  shows "\<exists>s'. Config_SetTime E T rq k ps CA_CONFIG s = Inr (0, [], s')
     \<and> (lTimeZone_InSec (cfg_time (ic_cfg s)) \<noteq> 60 * httpGetLong T ps ''TimeZone'' \<longrightarrow> config_saved E s')
     \<and> lTimeZone_InSec (cfg_time (ic_cfg s')) = 60 * httpGetLong T ps ''TimeZone''
     \<and> (\<forall>k'. system_zone k' = system_zone k \<longrightarrow> (\<exists>ntp. Config_GetTime T k' [] CA_CONFIG s' = Inr (0,
          [(''Sec1970'', httpLong2String T (httpGetLong T ps ''Sec1970'' + (mytime (now_ticks k') - mytime (now_ticks k)))),
           (''TimeZone'', httpLong2String T (httpGetLong T ps ''TimeZone''))] @ ntp, s')))"
proof -
  let ?m = "httpGetLong T ps ''TimeZone''" and ?t = "httpGetLong T ps ''Sec1970''"
  note m = sint_minutes [OF assms(4,5)]
  have z: "asked_zone T ps = Some (60 * ?m)" using assms(3-5) by (simp add: asked_zone_def Let_def m)
  let ?u = "s\<lparr>ic_cfg := (ic_cfg s)\<lparr>cfg_time := (cfg_time (ic_cfg s))\<lparr>lTimeZone_InSec := 60 * ?m\<rparr>\<rparr>\<rparr>"
  define s2 where "s2 = SetCheckedTime k (Some ?t) None (SetCheckedTime k None (Some (60 * ?m)) ?u)"
  define s3 where "s3 = log_common CL_SET_TIME (if bUseNtp (cfg_time (ic_cfg s)) then ''1'' else ''0'') rq (now_ticks k) s2"
  have get: "GetCheckedTime k' (s3\<lparr>ic_flash := f\<rparr>) = (?t + (mytime (now_ticks k') - mytime (now_ticks k)), 60 * ?m)"
    if "system_zone k' = system_zone k" for k' f
  proof -
    have "GetCheckedTime k' (s3\<lparr>ic_flash := f\<rparr>) = GetCheckedTime k' s2" by (simp add: GetCheckedTime_def s3_def log_common_def)
    then show ?thesis unfolding s2_def by (simp add: GetCheckedTime_set that)
  qed
  have cfg: "cfg_time (ic_cfg s3) = (cfg_time (ic_cfg s))\<lparr>lTimeZone_InSec := 60 * ?m\<rparr>" by (simp add: s3_def s2_def log_common_def)
  have "ictl_ok E s3" using assms(1) by (simp add: s3_def s2_def)
  from save_config_ok [OF this] obtain f where f: "save_config E s3 = Inr (s3\<lparr>ic_flash := f\<rparr>)" "config_saved E (s3\<lparr>ic_flash := f\<rparr>)" by blast
  let ?f = "if 60 * ?m \<noteq> lTimeZone_InSec (cfg_time (ic_cfg s)) then f else ic_flash s3"
  have "Config_SetTime E T rq k ps CA_CONFIG s = Inr (0, [], s3\<lparr>ic_flash := ?f\<rparr>)"
    using f(1) by (simp add: Config_SetTime_def z assms(2) Let_def s3_def s2_def)
  moreover have "Config_GetTime T k' [] CA_CONFIG (s3\<lparr>ic_flash := ?f\<rparr>) = Inr (0,
      [(''Sec1970'', httpLong2String T (?t + (mytime (now_ticks k') - mytime (now_ticks k)))), (''TimeZone'', httpLong2String T ?m)]
       @ [(''NtpServer'', acNtpServer (cfg_time (ic_cfg s))), (''UseNtp'', httpLong2String T (if bUseNtp (cfg_time (ic_cfg s)) then 1 else 0))],
      s3\<lparr>ic_flash := ?f\<rparr>)" if "system_zone k' = system_zone k" for k'
    using get [OF that, of ?f] m(2) cfg by (simp add: Config_GetTime_def)
  ultimately show ?thesis using f(2) cfg by (intro exI [of _ "s3\<lparr>ic_flash := ?f\<rparr>"]) auto
qed

text \<open>
  A text for the picture is shown: SetLogo.cgi stores both texts, cut to 127 characters, with their places, GetLogo.cgi answers them,
  and when anything changed they are in the flash, and the message that was sent makes the camera thread draw just these.
\<close>

theorem logo_is_shown:
  assumes "ictl_ok E s" and "asked_logo T ps = ((t0, p0), (t1, p1))" and "length t0 \<le> 127" "length t1 \<le> 127"
    and "length (ShowString (cfg_time (ic_cfg s))) = 2" "length (ShowPos (cfg_time (ic_cfg s))) = 2"
  shows "\<exists>s'. Config_SetLogo E T rq now ps CA_CONFIG s = Inr (0, [], s')
     \<and> Config_GetLogo T [] CA_CONFIG s' = Inr (0, [(''ShowString'', t0), (''ShowPos'', httpLong2String T p0),
         (''ShowString'', t1), (''ShowPos'', httpLong2String T p1)], s')
     \<and> (cfg_time (ic_cfg s') = cfg_time (ic_cfg s) \<and> sent_msgs s' = sent_msgs s
        \<or> config_saved E s' \<and> (\<exists>m. sent_msgs s' = sent_msgs s @ [m]
           \<and> (\<forall>A w e. on_message A (ic_cfg s') m (w, e) = Inr (w, draw_logo 1 (cfg_time (ic_cfg s')) (draw_logo 0 (cfg_time (ic_cfg s')) (e\<lparr>bDrawTitle := False\<rparr>))))))"
proof -
  let ?c = "cfg_time (ic_cfg s)"
  let ?new = "?c\<lparr>ShowString := [t0, t1], ShowPos := [p0, p1]\<rparr>"
  let ?ch = "p0 \<noteq> ShowPos ?c ! 0 \<or> ShowString ?c ! 0 \<noteq> t0 \<or> p1 \<noteq> ShowPos ?c ! 1 \<or> ShowString ?c ! 1 \<noteq> t1"
  have two: "xs = [xs ! 0, xs ! 1]" if "length xs = 2" for xs :: "'x list"
    using that by (auto simp: length_Suc_conv numeral_2_eq_2)
  show ?thesis
  proof (cases ?ch)
    case True
    define s2 where "s2 = log_common CL_CHANGE_LOGO ''1'' rq now (SendCameraMsg MSG_SET_LOGO (ShowTime ?c) (s\<lparr>ic_cfg := (ic_cfg s)\<lparr>cfg_time := ?new\<rparr>\<rparr>))"
    have "ictl_ok E s2" using assms(1) by (simp add: s2_def)
    from save_config_ok [OF this] obtain f where f: "save_config E s2 = Inr (s2\<lparr>ic_flash := f\<rparr>)" "config_saved E (s2\<lparr>ic_flash := f\<rparr>)" by blast
    have s2: "cfg_time (ic_cfg s2) = ?new" "sent_msgs s2 = sent_msgs s @ [(MSG_SET_LOGO, ShowTime ?c)]"
      by (simp_all add: s2_def log_common_def SendCameraMsg_def)
    have "Config_SetLogo E T rq now ps CA_CONFIG s = Inr (0, [], s2\<lparr>ic_flash := f\<rparr>)"
      using True f(1) assms(3,4) by (simp add: Config_SetLogo_def assms(2) Let_def s2_def)
    moreover have "on_message A (ic_cfg (s2\<lparr>ic_flash := f\<rparr>)) (MSG_SET_LOGO, ShowTime ?c) (w, e)
        = Inr (w, draw_logo 1 (cfg_time (ic_cfg (s2\<lparr>ic_flash := f\<rparr>))) (draw_logo 0 (cfg_time (ic_cfg (s2\<lparr>ic_flash := f\<rparr>))) (e\<lparr>bDrawTitle := False\<rparr>)))" for A w e
      by (simp add: on_message_def msg_defs)
    ultimately show ?thesis using f(2) s2 by (intro exI [of _ "s2\<lparr>ic_flash := f\<rparr>"]) (auto simp: Config_GetLogo_def Let_def)
  next
    case False
    let ?s = "log_common CL_CHANGE_LOGO ''1'' rq now s"
    have "Config_SetLogo E T rq now ps CA_CONFIG s = Inr (0, [], ?s)" using False by (simp add: Config_SetLogo_def assms(2) Let_def)
    moreover have "ic_cfg ?s = ic_cfg s" "sent_msgs ?s = sent_msgs s" by (simp_all add: log_common_def)
    ultimately show ?thesis using False two [OF assms(5)] two [OF assms(6)]
      by (intro exI [of _ ?s]) (simp add: Config_GetLogo_def Let_def)
  qed
qed

theorem clock_is_kept_witness:
  "\<exists>s'. Config_SetTime example_env example_text bob_request \<lparr>now_ticks = 1000, system_zone = 0, rtc_time = 7\<rparr>
      [(''Sec1970'', ''1''), (''TimeZone'', ''1'')] CA_CONFIG example_state = Inr (0, [], s')
     \<and> (\<exists>ntp. Config_GetTime example_text \<lparr>now_ticks = 1500, system_zone = 0, rtc_time = 12\<rparr> [] CA_CONFIG s'
         = Inr (0, [(''Sec1970'', httpLong2String example_text (httpGetLong example_text [(''Sec1970'', ''1''), (''TimeZone'', ''1'')] ''Sec1970'' + 5)),
             (''TimeZone'', httpLong2String example_text (httpGetLong example_text [(''Sec1970'', ''1''), (''TimeZone'', ''1'')] ''TimeZone''))] @ ntp, s'))"
proof -
  let ?ps = "[(''Sec1970'', ''1''), (''TimeZone'', ''1'')]" and ?k = "\<lparr>now_ticks = 1000, system_zone = 0, rtc_time = 7\<rparr> :: clock"
  have ps: "httpIsExistParam ?ps ''Sec1970''" "httpIsExistParam ?ps ''TimeZone''" by (simp_all add: httpIsExistParam_def)
  have z: "- 780 < sint (httpGetLong example_text ?ps ''TimeZone'')" "sint (httpGetLong example_text ?ps ''TimeZone'') < 720"
    by (simp_all add: httpGetLong_def httpGetString_def example_text_def)
  have t: "mytime 1500 - mytime 1000 = 5" by (simp add: mytime_def)
  from clock_is_kept [OF example_ictl_ok ps z, of bob_request ?k] obtain s' where
    s': "Config_SetTime example_env example_text bob_request ?k ?ps CA_CONFIG example_state = Inr (0, [], s')"
    "\<forall>k'. system_zone k' = system_zone ?k \<longrightarrow> (\<exists>ntp. Config_GetTime example_text k' [] CA_CONFIG s' = Inr (0,
        [(''Sec1970'', httpLong2String example_text (httpGetLong example_text ?ps ''Sec1970'' + (mytime (now_ticks k') - mytime (now_ticks ?k)))),
         (''TimeZone'', httpLong2String example_text (httpGetLong example_text ?ps ''TimeZone''))] @ ntp, s'))" by blast
  from spec [OF s'(2), of "\<lparr>now_ticks = 1500, system_zone = 0, rtc_time = 12\<rparr>"] s'(1) t show ?thesis by auto
qed

theorem logo_is_shown_witness:
  "\<exists>s' m. Config_SetLogo example_env example_text bob_request 0 [(''showstring1'', ''hi'')] CA_CONFIG example_state = Inr (0, [], s')
     \<and> map fst (filter (\<lambda>v. snd v = ''hi'') (case Config_GetLogo example_text [] CA_CONFIG s' of Inr (_, vals, _) \<Rightarrow> vals | _ \<Rightarrow> [])) \<noteq> []
     \<and> sent_msgs s' = sent_msgs example_state @ [m]"
proof -
  let ?ps = "[(''showstring1'', ''hi'')]"
  have a: "asked_logo example_text ?ps = (([], 0), (''hi'', 0))" by (simp add: asked_logo_def httpIsExistParam_def httpGetString_def)
  have l: "length (ShowString (cfg_time (ic_cfg example_state))) = 2" "length (ShowPos (cfg_time (ic_cfg example_state))) = 2"
    "ShowString (cfg_time (ic_cfg example_state)) ! 1 = []"
    by (simp_all add: example_config_def InitDefaultParam_def zero_config_def)
  have t: "length [] \<le> 127" "length ''hi'' \<le> 127" by simp_all
  from logo_is_shown [OF example_ictl_ok a t l(1,2), of bob_request 0] obtain s' where
    s': "Config_SetLogo example_env example_text bob_request 0 ?ps CA_CONFIG example_state = Inr (0, [], s')"
    "Config_GetLogo example_text [] CA_CONFIG s' = Inr (0, [(''ShowString'', []), (''ShowPos'', httpLong2String example_text 0),
         (''ShowString'', ''hi''), (''ShowPos'', httpLong2String example_text 0)], s')"
    "cfg_time (ic_cfg s') = cfg_time (ic_cfg example_state) \<or> (\<exists>m. sent_msgs s' = sent_msgs example_state @ [m])" by blast
  have "ShowString (cfg_time (ic_cfg s')) ! 1 = ''hi''" using s'(2) by (simp add: Config_GetLogo_def Let_def)
  with s'(3) l(3) obtain m where "sent_msgs s' = sent_msgs example_state @ [m]" by auto
  with s'(1,2) show ?thesis by auto
qed

end
