(* ===== verification/WebCommands.thy ===== *)
theory WebCommands
  imports WlanSettings McuLink DeviceCommands
begin

section \<open>The command table of the camera (LibCamera/Src/LibIPCamera.c, RegisterUrls)\<close>

text \<open>
  The handlers of the other theories as the web server sees them: with one type, reading their parameters from the
  request. \<open>web\<close> is what they share: the environment of the configuration, the libraries, who asks, and what other parts of the camera
  answer (the clock, the UPnP library, the update). Missing from the table are the commands with a state of their own (GetStatus, GetDDNS,
  SetDDNS and the command to the motor controller, which other theories model) and those that drive devices or binary libraries only
  (debug, SetCamera, GetCamera, ScanWlan, SendMail, DropData, EnableTestNet).
\<close>

record ('h, 'r) web =
  w_env :: "('h, 'r) ictl_env"
  w_net :: net_lib
  w_text :: text_lib
  w_client_ip :: u32
  w_request :: request
  w_now :: "64 word"
  w_external_detector :: bool
  w_ppot_is_online :: bool
  w_clock :: clock
  w_upnp_ports :: "u16 list"
  w_upnp_ip :: "string option"
  w_update :: flash_update_state
  w_build :: build
  w_dump_xml :: "string \<Rightarrow> string \<Rightarrow> xml list \<Rightarrow> string"

text \<open>What the user commands read of the request; \<open>httpGetString\<close> gives an empty text for an absent parameter.\<close>

definition request_of :: "('h, 'r) web \<Rightarrow> params \<Rightarrow> request" where
  "request_of W ps = (w_request W)\<lparr>
     rq_User := Some (httpGetString ps ''User''), rq_Pass := Some (httpGetString ps ''Pass''),
     rq_Privilege := (if httpIsExistParam ps ''Privilege'' then Some (sint (httpGetLong (w_text W) ps ''Privilege'')) else None),
     rq_Check := httpGetBool (w_text W) ps ''Check'', rq_ShowPrivilege := httpGetBool (w_text W) ps ''ShowPrivilege''\<rparr>"

definition silent :: "(ca_action \<Rightarrow> 's \<Rightarrow> (int \<times> 's) checked) \<Rightarrow> ca_action \<Rightarrow> 's \<Rightarrow> (int \<times> params \<times> 's) checked" where
  "silent f a s = bnd (f a s) (\<lambda>(n, s'). Inr (n, [], s'))"

definition cmd_SetUser :: "('h, 'r) web \<Rightarrow> ('h, 'r) ictl_state handler" where
  "cmd_SetUser W ps = silent (\<lambda>a. Config_SetUser (w_env W) (request_of W ps) a (w_now W))"

definition cmd_DelUser :: "('h, 'r) web \<Rightarrow> ('h, 'r) ictl_state handler" where
  "cmd_DelUser W ps = silent (\<lambda>a. Config_DelUser (w_env W) (request_of W ps) a (w_now W))"

definition cmd_SetUserCheck :: "('h, 'r) web \<Rightarrow> ('h, 'r) ictl_state handler" where
  "cmd_SetUserCheck W ps = silent (\<lambda>a. Config_SetUserCheck (w_env W) (request_of W ps) a (w_now W))"

definition user_values :: "string \<times> int option \<Rightarrow> params" where
  "user_values u = (''Name'', fst u) # (case snd u of None \<Rightarrow> [] | Some v \<Rightarrow> [(''Privilege'', int_text v)])"

definition cmd_GetMyself :: "('h, 'r) web \<Rightarrow> ('h, 'r) ictl_state handler" where
  "cmd_GetMyself W ps a s =
     (case Config_GetMyself (request_of W ps) a s of
        (n, u) \<Rightarrow> Inr (n, concat (map user_values (case u of None \<Rightarrow> [] | Some x \<Rightarrow> [x])), s))"

definition cmd_GetUser :: "('h, 'r) web \<Rightarrow> ('h, 'r) ictl_state handler" where
  "cmd_GetUser W ps a s =
     (case Config_GetUser (request_of W ps) a s of (n, us) \<Rightarrow> Inr (n, concat (map user_values us), s))"

definition cmd_GetLog :: "('h, 'r) web \<Rightarrow> ('h, 'r) ictl_state handler" where
  "cmd_GetLog W ps a s =
     (case Config_GetLog (\<lambda>b. httpChar2Hex (w_net W) (char_of (unat b))) (rq_conn (w_request W)) a (w_now W) (ic_log s) of
        None \<Rightarrow> Inl Hang
      | Some (n, time, log) \<Rightarrow> Inr (n, if a = CA_CONFIG then (''Time'', time) # map (Pair ''Log'') log else [], s))"

definition flash_cmd :: "(board \<Rightarrow> ca_action \<Rightarrow> flash_config \<Rightarrow> (int \<times> flash_config) option) \<Rightarrow> ('h, 'r) web
     \<Rightarrow> ('h, 'r) ictl_state handler" where
  "flash_cmd h W ps a s =
     (let f = (if a = CA_CONFIG then (ic_flash s)\<lparr>g_ConfigParam := image_of (w_env W) (ic_cfg s)\<rparr> else ic_flash s)
      in case h (brd (w_env W)) a f of
           None \<Rightarrow> Inl Hang
         | Some (n, f') \<Rightarrow> Inr (n, [], if a = CA_CONFIG then s\<lparr>ic_flash := f'\<rparr> else s))"

definition cmd_SetPPP :: "('h, 'r) web \<Rightarrow> ('h, 'r) ictl_state handler" where
  "cmd_SetPPP W ps a s = bnd (Config_SetPPP (w_env W) (w_text W) ps a s) (\<lambda>(n, _, s'). Inr (n, [], s'))"

text \<open>The table, in the order of \<open>RegisterUrls\<close>.\<close>

definition RegisterUrls :: "('h, 'r) web \<Rightarrow> (string \<times> ('h, 'r) ictl_state handler) list" where
  "RegisterUrls W =
     (let E = w_env W; T = w_text W; N = w_net W; ip = w_client_ip W; rq = w_request W; now = w_now W in
      [(''GetLog.cgi'', cmd_GetLog W),
       (''GetVer.cgi'', Config_GetVer (w_build W)),
       (''GetMyself.cgi'', cmd_GetMyself W),
       (''GetUser.cgi'', cmd_GetUser W),
       (''SetUser.cgi'', cmd_SetUser W),
       (''DelUser.cgi'', cmd_DelUser W),
       (''SetUserCheck.cgi'', cmd_SetUserCheck W),
       (''SetTime.cgi'', Config_SetTime E T rq (w_clock W)),
       (''GetTime.cgi'', Config_GetTime T (w_clock W)),
       (''SetLogo.cgi'', Config_SetLogo E T rq now),
       (''GetLogo.cgi'', Config_GetLogo T),
       (''ChangeDirection.cgi'', Config_ChDirection),
       (''ChangeResolution.cgi'', Config_ChResolution E T rq now),
       (''ChangeCompressRatio.cgi'', Config_ChCompressRatio E T rq now),
       (''ChangeFramerate.cgi'', Config_ChFramerate E T rq now),
       (''ChangeBrightness.cgi'', Config_ChBrightness E T rq now),
       (''ChangeSpeakerVolume.cgi'', Config_ChSpeakerVolume E T rq now),
       (''ChangeMicVolume.cgi'', Config_ChMicVolume E T rq now),
       (''SetMotionDetect.cgi'', Config_SetMotionDetect E T (w_external_detector W) rq now),
       (''GetMotionDetect.cgi'', Config_GetMotionDetect T),
       (''SetMediaFormat.cgi'', Config_SetMediaFormat E T rq),
       (''GetMediaFormat.cgi'', Config_GetMediaFormat T),
       (''SetWlan.cgi'', Config_SetWlan E N T rq now),
       (''GetWlan.cgi'', Config_GetWlan N T),
       (''SetMac.cgi'', Config_SetMac E N rq),
       (''GetMac.cgi'', Config_GetMac N rq),
       (''SetMail.cgi'', Config_SetMail E T rq now),
       (''GetMail.cgi'', Config_GetMail T),
       (''SetHttp.cgi'', Config_SetHttp E T ip rq now),
       (''GetHttp.cgi'', Config_GetHttp T),
       (''SetIP.cgi'', Config_SetIP E N T ip rq now),
       (''GetIP.cgi'', Config_GetIP N T ip),
       (''Reboot.cgi'', Config_Reboot ip),
       (''SetFactoryDefault.cgi'', flash_cmd Http_SetFactoryDefault W),
       (''UpdateFactoryDefault.cgi'', flash_cmd Http_UpdateFactoryDefault W),
       (''GetUpdateProgress.cgi'', Config_UpdateProgress T (w_update W)),
       (''SetName.cgi'', Config_SetName E rq now),
       (''GetName.cgi'', Config_GetName),
       (''GetVNet.cgi'', Config_GetVNet T),
       (''SetVNet.cgi'', Config_SetVNet E T rq now),
       (''GetUPnP.cgi'', Config_GetUPnP T (w_upnp_ports W) (w_upnp_ip W)),
       (''SetUPnP.cgi'', Config_SetUPnP E T),
       (''GetPPP.cgi'', Config_GetPPP T (w_ppot_is_online W)),
       (''SetPPP.cgi'', cmd_SetPPP W)])"

definition camera_server :: "('h, 'r) web \<Rightarrow> ('h, 'r) ictl_state web_server" where
  "camera_server W = \<lparr>wtext = w_text W, whttpDumpXML = w_dump_xml W, registered_cmd = map_of (RegisterUrls W)\<rparr>"

subsection \<open>Who may do what\<close>

text \<open>The privilege each command needs, as a table: this is what the code's answers to \<open>CA_AUTH\<close> amount to.\<close>

definition admin_commands :: "string list" where
  "admin_commands = [''GetUser.cgi'', ''SetUserCheck.cgi'', ''SetMotionDetect.cgi'', ''GetMotionDetect.cgi'', ''SetMediaFormat.cgi'',
     ''SetWlan.cgi'', ''GetWlan.cgi'', ''SetMac.cgi'', ''SetFactoryDefault.cgi'', ''UpdateFactoryDefault.cgi'', ''SetName.cgi'',
     ''SetTime.cgi'', ''SetLogo.cgi'', ''SetMail.cgi'', ''GetMail.cgi'', ''GetUpdateProgress.cgi'', ''SetVNet.cgi'', ''SetUPnP.cgi'',
     ''SetPPP.cgi'']"

definition cmd_privilege :: "('h, 'r) web \<Rightarrow> string \<Rightarrow> params \<Rightarrow> int" where
  "cmd_privilege W n ps =
     (if n \<in> set admin_commands then AUTH_ADMIN
      else if n \<in> {''SetHttp.cgi'', ''SetIP.cgi'', ''Reboot.cgi''} then local_or AUTH_ADMIN (w_client_ip W)
      else if n = ''GetIP.cgi'' then local_or AUTH_USER (w_client_ip W)
      else if n \<in> {''SetUser.cgi'', ''DelUser.cgi''}
        then (if httpGetString ps ''User'' = rq_current_user (w_request W) then AUTH_USER else AUTH_ADMIN)
      else AUTH_USER)"

definition same_but_lock :: "('h, 'r) ictl_state \<Rightarrow> ('h, 'r) ictl_state \<Rightarrow> bool" where
  "same_but_lock s t = (\<exists>n. t = s\<lparr>rmutex_depth := n\<rparr>)"

lemma same_but_lock_refl [simp]: "same_but_lock s s"
  unfolding same_but_lock_def by (rule exI [of _ "rmutex_depth s"]) simp

lemma same_but_lock_trans: "same_but_lock s t \<Longrightarrow> same_but_lock t u \<Longrightarrow> same_but_lock s u"
  by (auto simp: same_but_lock_def)

lemma same_but_lock_upd [simp]: "same_but_lock s (s\<lparr>rmutex_depth := n\<rparr>)"
  by (auto simp: same_but_lock_def)

definition asks_for :: "('h, 'r) ictl_state handler \<Rightarrow> params \<Rightarrow> int \<Rightarrow> bool" where
  "asks_for f ps need = (\<forall>s. \<exists>vals s'. f ps CA_AUTH s = Inr (need, vals, s') \<and> same_but_lock s s')"

lemma request_sel [simp]: "rq_current_user (request_of W ps) = rq_current_user (w_request W)"
  "rq_User (request_of W ps) = Some (httpGetString ps ''User'')"
  by (simp_all add: request_of_def)

lemmas user_cmd_defs = cmd_SetUser_def cmd_DelUser_def cmd_SetUserCheck_def cmd_GetMyself_def cmd_GetUser_def cmd_GetLog_def
  silent_def Config_SetUser_def Config_DelUser_def Config_SetUserCheck_def Config_GetMyself_def Config_GetUser_def
  Config_GetLog_def own_entry_auth_def
lemmas camera_cmd_defs = change_defs Config_SetMotionDetect_def Config_GetMotionDetect_def Config_SetMediaFormat_def Config_GetMediaFormat_def
lemmas net_cmd_defs = Config_SetWlan_def Config_GetWlan_def Config_SetMac_def Config_GetMac_def Config_SetHttp_def Config_GetHttp_def
  Config_SetIP_def Config_GetIP_def Config_Reboot_def Config_SetName_def Config_GetName_def Config_SetUPnP_def Config_GetPPP_def
  Config_GetVNet_def Config_SetVNet_def cmd_SetPPP_def Config_SetPPP_def flash_cmd_def Http_SetFactoryDefault_def Http_UpdateFactoryDefault_def

lemma table_asks:
  assumes "map_of (RegisterUrls W) n = Some f"
  shows "asks_for f ps (cmd_privilege W n ps)"
proof -
  have "(n, f) \<in> set (RegisterUrls W)" using assms by (rule map_of_SomeD)
  then show ?thesis
    unfolding RegisterUrls_def Let_def set_simps insert_iff prod.inject empty_iff
    by (elim disjE conjE; simp add: asks_for_def cmd_privilege_def admin_commands_def user_cmd_defs camera_cmd_defs net_cmd_defs device_cmd_defs AUTH_USER_def Let_def)
qed

interpretation cam: auth_server "camera_server W" same_but_lock for W
proof
  show "\<exists>need. \<forall>s. \<exists>vals s'. f ps CA_AUTH s = Inr (need, vals, s') \<and> same_but_lock s s'"
    if "registered_cmd (camera_server W) n = Some f" for n f ps
    using table_asks [of W n f ps] that by (auto simp: camera_server_def asks_for_def)
qed (auto intro: same_but_lock_trans)

lemma needed_table:
  assumes "map_of (RegisterUrls W) (httpGetString ps ''Cmd'') \<noteq> None"
  shows "needed (handler_of (camera_server W) ps) ps s = cmd_privilege W (httpGetString ps ''Cmd'') ps"
proof -
  obtain f where f: "map_of (RegisterUrls W) (httpGetString ps ''Cmd'') = Some f" using assms by blast
  then have "\<exists>vals s'. f ps CA_AUTH s = Inr (cmd_privilege W (httpGetString ps ''Cmd'') ps, vals, s')"
    using table_asks [OF f, of ps] unfolding asks_for_def by blast
  with f show ?thesis
    by (auto simp: needed_def handler_of_def CreateSubCmdRunStruct_def camera_server_def)
qed

text \<open>
  C3. Nobody gets more done than his privilege allows. Of a request with several commands either every command is within
  the caller's privilege by the table, and all of them run, in order, on the state as it was (up to the lock that asking
  \<open>SetIP\<close> leaves behind); or at least one is not, and then none runs: the request is refused with the
  privilege it would need.
\<close>

theorem requests_need_privilege:
  assumes "Http_CommonCmdRun (camera_server W) priv txt s = Inr (r, s')" and "AUTH_ANY \<le> priv"
    and "\<forall>ps\<in>set (sub_commands (w_text W) txt). map_of (RegisterUrls W) (httpGetString ps ''Cmd'') \<noteq> None"
  shows "if \<forall>ps\<in>set (sub_commands (w_text W) txt). cmd_privilege W (httpGetString ps ''Cmd'') ps \<le> priv
    then (\<exists>s1. same_but_lock s s1 \<and> run_commands (camera_server W) (sub_commands (w_text W) txt) s1 = Inr s')
       \<and> (\<forall>m. r \<noteq> AuthRequired m)
    else same_but_lock s s' \<and> (\<exists>m. r = AuthRequired m \<and> priv < m)"
proof -
  have t: "wtext (camera_server W) = w_text W" by (simp add: camera_server_def)
  have "needed (handler_of (camera_server W) ps) ps s = cmd_privilege W (httpGetString ps ''Cmd'') ps"
    if "ps \<in> set (sub_commands (w_text W) txt)" for ps
    using assms(3) that by (intro needed_table) blast
  then have "(\<forall>ps\<in>set (sub_commands (w_text W) txt). needed (handler_of (camera_server W) ps) ps s \<le> priv)
      \<longleftrightarrow> (\<forall>ps\<in>set (sub_commands (w_text W) txt). cmd_privilege W (httpGetString ps ''Cmd'') ps \<le> priv)" by simp
  with cam.common_cmd [OF assms(1,2)] show ?thesis unfolding t by (simp only:)
qed

definition two_command_text :: text_lib where
  "two_command_text = example_text\<lparr>httpSplitBuffer := (\<lambda>_ _. [''a'', ''b'']),
     httpParseString := (\<lambda>t. if t = ''a'' then [(''Cmd'', ''GetName.cgi'')]
       else if t = ''Cmd=b'' then [(''Cmd'', ''SetName.cgi''), (''CameraName'', ''x'')] else [])\<rparr>"

definition example_web :: "(example_users, unit) web" where
  "example_web = \<lparr>w_env = example_env, w_net = example_net, w_text = two_command_text, w_client_ip = 5, w_request = bob_request,
     w_now = 0, w_external_detector = False, w_ppot_is_online = False,
     w_clock = \<lparr>now_ticks = 0, system_zone = 0, rtc_time = 0\<rparr>, w_upnp_ports = [], w_upnp_ip = None, w_update = FIRMWARE_STOP,
     w_build = \<lparr>b_version = ''$Revision: 7 $'', b_date = [], b_time = []\<rparr>, w_dump_xml = (\<lambda>_ _ _. [])\<rparr>"

theorem requests_need_privilege_witness:
  "\<exists>m s'. Http_CommonCmdRun (camera_server example_web) 0 ''ab'' example_state = Inr (AuthRequired m, s')
     \<and> same_but_lock example_state s'"
proof -
  have c: "sub_commands (w_text example_web) ''ab''
      = [[(''Cmd'', ''GetName.cgi'')], [(''Cmd'', ''SetName.cgi''), (''CameraName'', ''x'')]]"
    by (simp add: sub_commands_def example_web_def two_command_text_def)
  have r: "map_of (RegisterUrls example_web) ''GetName.cgi'' \<noteq> None" "map_of (RegisterUrls example_web) ''SetName.cgi'' \<noteq> None"
    by (simp_all add: RegisterUrls_def Let_def)
  have p: "cmd_privilege example_web ''SetName.cgi'' ps = 1" for ps
    by (simp add: cmd_privilege_def admin_commands_def AUTH_ADMIN_def)
  have h: "handler_of (camera_server example_web) [(''Cmd'', ''GetName.cgi'')] = Config_GetName"
    "handler_of (camera_server example_web) [(''Cmd'', ''SetName.cgi''), (''CameraName'', ''x'')] = Config_SetName example_env bob_request 0"
    by (simp_all add: handler_of_def CreateSubCmdRunStruct_def camera_server_def RegisterUrls_def Let_def httpGetString_def example_web_def)
  have t: "wtext (camera_server example_web) = w_text example_web" by (simp add: camera_server_def)
  obtain m t where run: "Http_CommonCmdRun (camera_server example_web) 0 ''ab'' example_state = Inr (AuthRequired m, t)"
    unfolding Http_CommonCmdRun_def t c Let_def
    by (simp add: h Config_GetName_def Config_SetName_def auth_defs)
  show ?thesis
    using requests_need_privilege [OF run] c r p run by (auto simp: httpGetString_def AUTH_ANY_def split: if_splits)
qed

subsection \<open>The configuration keeps its shape\<close>

text \<open>
  Strings are copied with \<open>httpMyStrncpy\<close>, which cuts them to the size of the array; the stack buffer of \<open>SetMac\<close>
  has six bytes.
\<close>

definition copy_law :: "('h, 'r) ictl_env \<Rightarrow> bool" where
  "copy_law E = (\<forall>t n. 0 < n \<longrightarrow> length (httpMyStrncpy (lib E) t n) < n)"

definition fits :: "('h, 'r) ictl_state \<Rightarrow> bool" where
  "fits s = config_fits (ic_cfg s)"

definition keeps_shape :: "('h, 'r) ictl_state handler \<Rightarrow> bool" where
  "keeps_shape f = (\<forall>ps a s n vals s'. f ps a s = Inr (n, vals, s') \<longrightarrow> fits s \<longrightarrow> fits s')"

lemma save_fits: "save_config E s = Inr s' \<Longrightarrow> fits s' = fits s"
  using save_http [of E s s'] by (simp add: fits_def)

lemma fits_upd [simp]:
  "fits (s\<lparr>reboot := x1\<rparr>) = fits s" "fits (s\<lparr>rmutex_depth := x2\<rparr>) = fits s" "fits (s\<lparr>ic_log := x3\<rparr>) = fits s"
  "fits (s\<lparr>ic_flash := x4\<rparr>) = fits s" "fits (s\<lparr>sent_msgs := x5\<rparr>) = fits s" "fits (SendCameraMsg m v s) = fits s"
  "fits (log_common k t rq now s) = fits s" "fits (log_event k t' rq now s) = fits s" "fits (upd_cam g s) = fits s"
  "fits (s\<lparr>ic_ucEmail := x6\<rparr>) = fits s" "fits (SetCheckedTime ck t'' z s) = fits s"
  by (simp_all add: fits_def config_fits_def SendCameraMsg_def log_common_def log_event_def upd_cam_def)

definition table_fits :: "(string \<times> string \<times> int) list \<Rightarrow> bool" where
  "table_fits tab = (length tab \<le> 30 \<and> (\<forall>(n, pw, v)\<in>set tab. length n < 24 \<and> length pw < 24))"

lemma table_fits_Nil [simp]: "table_fits []"
  by (simp add: table_fits_def)

lemma rebuild_nodes_fit:
  assumes "copy_law E"
  shows "rebuild_nodes (httpMyStrncpy (lib E)) i ns tab = Inr tab' \<Longrightarrow> table_fits tab \<Longrightarrow> table_fits tab'"
  using assms
  by (induction "httpMyStrncpy (lib E)" i ns tab rule: rebuild_nodes.induct)
    (auto simp: table_fits_def copy_law_def MAX_USERSET_ENABLE_def split: if_splits)

lemma rebuild_lists_fit:
  assumes "copy_law E"
  shows "rebuild_lists (httpMyStrncpy (lib E)) pp is tab = Inr tab' \<Longrightarrow> table_fits tab \<Longrightarrow> table_fits tab'"
proof (induction "is" arbitrary: tab)
  case (Cons i "is")
  show ?case
  proof (cases "pp i")
    case None
    then show ?thesis using Cons by simp
  next
    case (Some ns)
    with Cons.prems(1) obtain tab1 where t: "rebuild_nodes (httpMyStrncpy (lib E)) i ns tab = Inr tab1"
      "rebuild_lists (httpMyStrncpy (lib E)) pp is tab1 = Inr tab'" by (auto simp: bnd_Inr)
    from rebuild_nodes_fit [OF assms t(1) Cons.prems(2)] Cons.IH [OF t(2)] show ?thesis by blast
  qed
qed simp

lemma RebuildConfigParam_Auth_fits:
  assumes "copy_law E" and "RebuildConfigParam_Auth E s = Inr s'" and "fits s"
  shows "fits s'"
proof -
  let ?put = "\<lambda>tab. s\<lparr>ic_cfg := (ic_cfg s)\<lparr>cfg_user := (cfg_user (ic_cfg s))\<lparr>user_table := tab\<rparr>\<rparr>\<rparr>"
  obtain tab where s': "s' = ?put tab"
    and "tab = [] \<or> (\<exists>pp is. rebuild_lists (httpMyStrncpy (lib E)) pp is [] = Inr tab)"
  proof (cases "httpGetAuthUserList (lib E) (ic_http s)")
    case None
    then show ?thesis using assms(2) that [of "[]"] by (simp add: RebuildConfigParam_Auth_def)
  next
    case (Some pp)
    then obtain tab where "rebuild_lists (httpMyStrncpy (lib E)) pp [AUTH_USER, AUTH_ADMIN, AUTH_SYSTEM] [] = Inr tab" "s' = ?put tab"
      using assms(2) unfolding RebuildConfigParam_Auth_def Let_def Some option.case bnd_Inr by blast
    then show ?thesis using that by blast
  qed
  then have "table_fits tab" using rebuild_lists_fit [OF assms(1)] table_fits_Nil by blast
  then show ?thesis using assms(3) by (simp add: s' fits_def config_fits_def user_fits_def table_fits_def)
qed

lemma user_ops_fit:
  assumes "copy_law E" and "fits s"
  shows "ictlSetUser E h u pw v s = Inr (r, s') \<Longrightarrow> fits s'"
    and "ictlDelUser E h u s = Inr (r, s') \<Longrightarrow> fits s'"
    and "ictlSetUserCheck E h b s = Inr (r, s') \<Longrightarrow> fits s'"
proof -
  have reb: "fits t'" if "RebuildConfigParam_Auth E t = Inr t1" "save_config E t1 = Inr t'" "fits t" for t t1 t'
    using RebuildConfigParam_Auth_fits [OF assms(1) that(1,3)] save_fits [OF that(2)] by simp
  have h: "fits (s\<lparr>ic_http := x, ic_rtsp := y\<rparr>)" for x y using assms(2) by (simp add: fits_def)
  show "ictlSetUser E h u pw v s = Inr (r, s') \<Longrightarrow> fits s'"
    using assms(2) by (auto simp: ictlSetUser_def Let_def bnd_Inr dest: reb [OF _ _ h] split: option.splits if_splits)
  show "ictlDelUser E h u s = Inr (r, s') \<Longrightarrow> fits s'"
    using assms(2) by (auto simp: ictlDelUser_def Let_def bnd_Inr dest: reb [OF _ _ h] split: option.splits if_splits)
  have c: "fits (s\<lparr>ic_http := x, ic_rtsp := y, ic_cfg := (ic_cfg s)\<lparr>cfg_user := (cfg_user (ic_cfg s))\<lparr>bUserCheck := b'\<rparr>\<rparr>, ucUserCheck := z\<rparr>)" for x y z b'
    using assms(2) by (simp add: fits_def config_fits_def user_fits_def)
  show "ictlSetUserCheck E h b s = Inr (r, s') \<Longrightarrow> fits s'"
    using assms(2) by (auto simp: ictlSetUserCheck_def Let_def bnd_Inr save_fits c split: if_splits)
qed

lemma user_cmds_keep:
  assumes "copy_law (w_env W)"
  shows "keeps_shape (cmd_SetUser W)" and "keeps_shape (cmd_DelUser W)" and "keeps_shape (cmd_SetUserCheck W)"
  unfolding keeps_shape_def cmd_SetUser_def cmd_DelUser_def cmd_SetUserCheck_def silent_def Config_SetUser_def Config_DelUser_def
    Config_SetUserCheck_def call_SetUser_def
  by (auto simp: bnd_Inr dest: user_ops_fit [OF assms] split: ca_action.splits option.splits if_splits)

lemma same_state_keeps: "(\<And>ps a s n vals s'. f ps a s = Inr (n, vals, s') \<Longrightarrow> s' = s) \<Longrightarrow> keeps_shape f"
  unfolding keeps_shape_def by blast

lemma reading_keeps:
  "keeps_shape (cmd_GetLog W)" "keeps_shape (cmd_GetMyself W)" "keeps_shape (cmd_GetUser W)" "keeps_shape (Config_GetMotionDetect T)"
  "keeps_shape (Config_GetMediaFormat T)" "keeps_shape (Config_GetWlan N T)" "keeps_shape (Config_GetMac N rq)"
  "keeps_shape (Config_GetHttp T)" "keeps_shape (Config_GetIP N T ip)" "keeps_shape Config_GetName" "keeps_shape (Config_GetPPP T b)" "keeps_shape (Config_GetVNet T)"
  "keeps_shape (Config_GetVer b')" "keeps_shape (Config_GetTime T k)" "keeps_shape (Config_GetLogo T)" "keeps_shape Config_ChDirection"
  "keeps_shape (Config_GetMail T)" "keeps_shape (Config_UpdateProgress T u)" "keeps_shape (Config_GetUPnP T up ip')"
  by (rule same_state_keeps;
    auto simp: user_cmd_defs camera_cmd_defs net_cmd_defs device_cmd_defs Let_def split: ca_action.splits option.splits prod.splits if_splits)+

lemma camera_ops_fit:
  "set_camera_value E m g p v s = Inr (r, s') \<Longrightarrow> fits s' = fits s"
  "ictlSetMediaFormat E h a w s = Inr (r, s') \<Longrightarrow> fits s' = fits s"
proof -
  show "set_camera_value E m g p v s = Inr (r, s') \<Longrightarrow> fits s' = fits s"
  proof -
    assume a: "set_camera_value E m g p v s = Inr (r, s')"
    define t where "t = SendCameraMsg m v s"
    have "fits t = fits s" by (simp add: t_def)
    then show ?thesis
      using a unfolding set_camera_value_def Let_def t_def [symmetric] by (auto simp: bnd_Inr save_fits split: if_splits)
  qed
qed (auto simp: ictlSetMediaFormat_def Let_def bnd_Inr save_fits split: if_splits)

lemma change_keeps:
  assumes "\<And>h v s r s'. ictl h v s = Inr (r, s') \<Longrightarrow> fits s' = fits s"
  shows "keeps_shape (change_command T c k ictl rq now)"
  unfolding keeps_shape_def change_command_def
  by (auto simp: Let_def bnd_Inr dest: assms split: ca_action.splits if_splits)

lemma camera_cmds_keep:
  "keeps_shape (Config_ChResolution E T rq now)" "keeps_shape (Config_ChCompressRatio E T rq now)"
  "keeps_shape (Config_ChFramerate E T rq now)" "keeps_shape (Config_ChBrightness E T rq now)"
  "keeps_shape (Config_ChSpeakerVolume E T rq now)" "keeps_shape (Config_ChMicVolume E T rq now)"
  unfolding Config_ChResolution_def Config_ChCompressRatio_def Config_ChFramerate_def Config_ChBrightness_def
    Config_ChSpeakerVolume_def Config_ChMicVolume_def
  by (rule change_keeps; auto simp: ictl_camera_defs camera_ops_fit split: if_splits)+

lemma camera_sets_keep:
  "keeps_shape (Config_SetMotionDetect E T d rq now)" "keeps_shape (Config_SetMediaFormat E T rq)"
  unfolding keeps_shape_def Config_SetMotionDetect_def Config_SetMediaFormat_def
  by (auto simp: Let_def bnd_Inr save_fits camera_ops_fit split: ca_action.splits if_splits)

lemma fits_upd_server: "fits s \<Longrightarrow> (server_fits (server_of s) \<Longrightarrow> server_fits (g (server_of s))) \<Longrightarrow> fits (upd_server g s)"
  by (simp add: fits_def config_fits_def upd_server_def)

lemma scan_channels_shape:
  assumes "scan_channels i t (ps, ts) = (n, ps', ts')" and "i \<le> BP_CONN_NUM"
  shows "length ps' = length ps \<and> length ts' = length ts \<and> n \<le> 2 * BP_CONN_NUM"
  using assms
proof (induction i t "(ps, ts)" arbitrary: ps ts rule: scan_channels.induct)
  case (1 i t ps ts)
  have e: "scan_channels i t (ps, ts) = (if i \<ge> BP_CONN_NUM then (2 * BP_CONN_NUM, ps, ts)
      else case scan_int t of None \<Rightarrow> (2 * i, ps, ts) | Some (n, []) \<Rightarrow> (2 * i + 1, ps[i := n], ts)
        | Some (n, c # r) \<Rightarrow> scan_channels (i + 1) r (ps[i := n], ts[i := of_char c]))" by (rule scan_channels.simps)
  show ?case
    using 1(1) 1(2) [unfolded e] 1(3) by (fastforce split: if_splits option.splits list.splits prod.splits simp: not_le)
qed

lemma set_channels_fits:
  assumes "server_fits c"
  shows "server_fits (set_channels d c)"
proof -
  obtain n ps ts where r: "scan_channels 0 d (aiBPSLocalPort c, acBPSType c) = (n, ps, ts)" by (metis prod_cases3)
  have "length ps = 6" "length ts = 6" "n \<le> 12"
    using scan_channels_shape [OF r] assms by (simp_all add: server_fits_def BP_CONN_NUM_def)
  moreover from this(3) have "n div 2 \<le> 6" by simp
  moreover from this have "unat (of_nat (n div 2) :: u32) = n div 2" by (simp add: unat_of_nat)
  ultimately show ?thesis using assms by (simp add: set_channels_def r server_fits_def)
qed

lemma server_fits_upd [simp]: "server_fits (c\<lparr>bEnableBPS := x1\<rparr>) = server_fits c" "server_fits (c\<lparr>iBPSPort := x2\<rparr>) = server_fits c"
  "server_fits (c\<lparr>uDelayTime_InMSec := x3\<rparr>) = server_fits c"
  by (simp_all add: server_fits_def)

lemma set_vnet_fits:
  assumes "copy_law E" and "server_fits c"
  shows "server_fits (set_vnet (httpMyStrncpy (lib E)) T ps c)"
proof -
  have "server_fits (d\<lparr>acBPSDomainName := httpMyStrncpy (lib E) t 32\<rparr>)" if "server_fits d" for d t
    using that assms(1) by (simp add: server_fits_def copy_law_def)
  then show ?thesis using assms(2) set_channels_fits by (simp add: set_vnet_def Let_def)
qed

lemma ppp_fits:
  assumes "copy_law E" and "server_fits c"
  shows "server_fits (c\<lparr>bPPPEnable := en, aacPPPServer := map (\<lambda>t. httpMyStrncpy (lib E) t 64) (indexed_params f ps n (aacPPPServer c)),
    aiPPPPort := indexed_params g ps m (aiPPPPort c), acPPPUser := httpMyStrncpy (lib E) u 24, acPPPPass := httpMyStrncpy (lib E) w 24\<rparr>)"
  using assms by (auto simp: server_fits_def copy_law_def indexed_params_def Let_def)

lemma server_cmds_keep:
  assumes "copy_law (w_env W)" and "copy_law E"
  shows "keeps_shape (Config_SetUPnP E T)" "keeps_shape (cmd_SetPPP W)" "keeps_shape (Config_Reboot ip)" "keeps_shape (flash_cmd h W)"
    "keeps_shape (Config_SetVNet E T rq now)"
proof -
  show "keeps_shape (Config_Reboot ip)" "keeps_shape (flash_cmd h W)"
    unfolding keeps_shape_def Config_Reboot_def flash_cmd_def by (auto simp: Let_def split: ca_action.splits option.splits if_splits)
  show "keeps_shape (Config_SetUPnP E T)"
    unfolding keeps_shape_def Config_SetUPnP_def
    by (auto simp: Let_def bnd_Inr save_fits server_fits_def intro!: fits_upd_server split: ca_action.splits if_splits)
  show "keeps_shape (cmd_SetPPP W)"
    unfolding keeps_shape_def cmd_SetPPP_def Config_SetPPP_def
    by (auto simp: Let_def bnd_Inr save_fits intro!: fits_upd_server ppp_fits [OF assms(1)] split: ca_action.splits if_splits)
  show "keeps_shape (Config_SetVNet E T rq now)"
    unfolding keeps_shape_def Config_SetVNet_def
    by (auto simp: bnd_Inr save_fits intro!: fits_upd_server set_vnet_fits [OF assms(2)] split: ca_action.splits)
qed

lemma fits_mail: "fits s \<Longrightarrow> mail_fits m \<Longrightarrow> fits (s\<lparr>ic_cfg := (ic_cfg s)\<lparr>cfg_mail := m\<rparr>\<rparr>)"
  and fits_time: "fits s \<Longrightarrow> time_fits t \<Longrightarrow> fits (s\<lparr>ic_cfg := (ic_cfg s)\<lparr>cfg_time := t\<rparr>\<rparr>)"
  by (simp_all add: fits_def config_fits_def)

lemma set_mail_fits: "copy_law E \<Longrightarrow> mail_fits m \<Longrightarrow> mail_fits (set_mail (httpMyStrncpy (lib E)) T ps m)"
  by (simp add: mail_fits_def set_mail_def copy_law_def Let_def)

lemma fits_sel: "fits s \<Longrightarrow> mail_fits (cfg_mail (ic_cfg s))" "fits s \<Longrightarrow> time_fits (cfg_time (ic_cfg s))"
  by (simp_all add: fits_def config_fits_def)

lemma device_cmds_keep:
  assumes "copy_law E"
  shows "keeps_shape (Config_SetMail E T rq now)" "keeps_shape (Config_SetTime E T rq k)" "keeps_shape (Config_SetLogo E T rq now)"
proof -
  show "keeps_shape (Config_SetMail E T rq now)"
    unfolding keeps_shape_def Config_SetMail_def
    by (auto simp: Let_def bnd_Inr save_fits intro!: fits_mail set_mail_fits [OF assms] fits_sel split: ca_action.splits)
  have z: "fits s \<Longrightarrow> fits (s\<lparr>ic_cfg := (ic_cfg s)\<lparr>cfg_time := cfg_time (ic_cfg s)\<lparr>lTimeZone_InSec := z\<rparr>\<rparr>\<rparr>)" for s :: "('h, 'r) ictl_state" and z
    using fits_sel(2) [of s] by (intro fits_time) (simp_all add: time_fits_def)
  show "keeps_shape (Config_SetTime E T rq k)"
    unfolding keeps_shape_def Config_SetTime_def
    by (auto simp: Let_def bnd_Inr save_fits intro!: z split: ca_action.splits option.splits if_splits)
  have l: "fits s \<Longrightarrow> fits (s\<lparr>ic_cfg := (ic_cfg s)\<lparr>cfg_time := cfg_time (ic_cfg s)\<lparr>ShowString := [take 127 t0, take 127 t1], ShowPos := [p0, p1]\<rparr>\<rparr>\<rparr>)"
    for s :: "('h, 'r) ictl_state" and t0 t1 p0 p1
    using fits_sel(2) [of s] by (intro fits_time) (simp_all add: time_fits_def min_less_iff_disj)
  show "keeps_shape (Config_SetLogo E T rq now)"
    unfolding keeps_shape_def Config_SetLogo_def
    by (auto simp: Let_def bnd_Inr save_fits intro!: l split: ca_action.splits prod.splits if_splits)
qed

lemma fits_upd_net: "fits s \<Longrightarrow> (\<And>n. net_fits n \<Longrightarrow> net_fits (g n)) \<Longrightarrow> fits (upd_net g s)"
  by (simp add: fits_def config_fits_def upd_net_def)

lemma set_interface_fits: "net_fits n \<Longrightarrow> net_fits (set_interface N T ps i n)"
  by (simp add: net_fits_def set_interface_def)

lemma set_name_fits: "copy_law E \<Longrightarrow> net_fits n \<Longrightarrow> net_fits (n\<lparr>acCameraName := httpMyStrncpy (lib E) t 19\<rparr>)"
  by (simp add: net_fits_def copy_law_def)

lemma set_dns_fits: "net_fits n \<Longrightarrow> net_fits (n\<lparr>aulAsDNS := set_dns N ps d\<rparr>)"
  by (simp add: net_fits_def set_dns_def)

lemma set_ports_fits: "net_fits n \<Longrightarrow> net_fits (n\<lparr>usHttpPort := set_ports T ps d\<rparr>)"
  by (simp add: net_fits_def set_ports_def Let_def)

lemma net_cmds_keep:
  assumes "copy_law E"
  shows "keeps_shape (Config_SetName E rq now)" and "keeps_shape (Config_SetHttp E T ip rq now)"
    and "keeps_shape (Config_SetIP E N T ip rq now)"
proof -
  show "keeps_shape (Config_SetName E rq now)"
    unfolding keeps_shape_def Config_SetName_def
    by (auto simp: Let_def bnd_Inr save_fits intro!: fits_upd_net set_name_fits [OF assms] split: ca_action.splits if_splits)
  show "keeps_shape (Config_SetHttp E T ip rq now)"
    unfolding keeps_shape_def Config_SetHttp_def
    by (auto simp: Let_def bnd_Inr save_fits intro!: fits_upd_net set_ports_fits split: ca_action.splits if_splits)
  show "keeps_shape (Config_SetIP E N T ip rq now)"
    unfolding keeps_shape_def Config_SetIP_def
    by (auto simp: Let_def bnd_Inr save_fits intro!: fits_upd_net set_dns_fits set_name_fits [OF assms] set_interface_fits
        split: ca_action.splits if_splits option.splits)
qed

text \<open>The steps of \<open>ictlSetWlan\<close> one by one.\<close>

lemma run_steps_keep:
  assumes "\<And>f w. f \<in> set fs \<Longrightarrow> wlan_fits w \<Longrightarrow> wlan_fits (fst (f w))"
  shows "wlan_fits w \<Longrightarrow> wlan_fits (fst (run_steps fs w))"
  using assms
proof (induction fs arbitrary: w)
  case (Cons f fs)
  then show ?case by (simp add: case_prod_beta)
qed simp

lemma length_hex_string [simp]: "length (hex_string N k t) = k"
  by (simp add: hex_string_def)

lemma wlan_steps_keep:
  assumes "copy_law E" and "f \<in> set (wlan_steps (httpMyStrncpy (lib E)) N T a code key)" and "wlan_fits w"
  shows "wlan_fits (fst (f w))"
proof -
  have c: "length (httpMyStrncpy (lib E) t n) < n" if "0 < n" for t n using assms(1) that by (simp add: copy_law_def)
  have "wlan_fits (fst (set_mode N T m w))" "wlan_fits (fst (set_wepset code w))" "wlan_fits (fst (set_channel ch w))"
    "wlan_fits (fst (set_wep64type ty w))" "wlan_fits (fst (set_wep128type ty w))" for m ch ty
    using assms(3)
    by (auto simp: wlan_fits_def set_mode_def set_wepset_def set_channel_def set_wep64type_def set_wep128type_def Let_def
        split: option.splits)
  moreover have "wlan_fits (fst (set_essid (httpMyStrncpy (lib E)) t w))" "wlan_fits (fst (set_key (httpMyStrncpy (lib E)) t w))"
    "wlan_fits (fst (set_wepasc (httpMyStrncpy (lib E)) t w))" for t
    using assms(3) c by (auto simp: wlan_fits_def set_essid_def set_key_def set_wepasc_def split: option.splits)
  moreover have "wlan_fits (fst (set_wep64 N t w))" "wlan_fits (fst (set_wep128 N t w))" for t
    using assms(3) by (auto simp: wlan_fits_def set_wep64_def set_wep128_def Let_def split: option.splits)
  ultimately show ?thesis using assms(2) by (auto simp: wlan_steps_def)
qed

lemma ictlSetWlan_fits:
  assumes "copy_law E" and "ictlSetWlan E N T h a s = Inr (r, s')" and "fits s"
  shows "fits s'"
proof (cases "unauthorized AUTH_ADMIN h")
  case True
  then show ?thesis using assms(2,3) by (simp add: ictlSetWlan_def)
next
  case False
  let ?code = "wep_set_code (wa_wepset a) (ucWepSet (wlan_of s))"
  from False assms(2) obtain key where "chosen_key a ?code = Inr key"
    by (auto simp: ictlSetWlan_def Let_def bnd_Inr)
  define w where "w = fst (run_steps (wlan_steps (httpMyStrncpy (lib E)) N T a ?code key) (wlan_of s))"
  have "wlan_fits w"
    unfolding w_def using run_steps_keep wlan_steps_keep [OF assms(1)] assms(3) by (auto simp: fits_def config_fits_def)
  then have "fits (s\<lparr>ic_cfg := (ic_cfg s)\<lparr>cfg_wlan := w\<rparr>\<rparr>)" using assms(3) by (simp add: fits_def config_fits_def)
  then show ?thesis
    using False assms(2) \<open>chosen_key a ?code = Inr key\<close>
    by (auto simp: ictlSetWlan_def Let_def bnd_Inr case_prod_beta w_def [symmetric] save_fits split: if_splits)
qed

lemma length_mac_bytes: "length (mac_bytes n t) \<le> Suc n"
  by (induction n t rule: mac_bytes.induct) auto

lemma wlan_cmds_keep:
  assumes "copy_law E"
  shows "keeps_shape (Config_SetWlan E N T rq now)"
    and "length (stack_bytes N) = 6 \<Longrightarrow> keeps_shape (Config_SetMac E N rq)"
proof -
  show "keeps_shape (Config_SetWlan E N T rq now)"
    unfolding keeps_shape_def Config_SetWlan_def
    by (auto simp: bnd_Inr dest: ictlSetWlan_fits [OF assms] split: ca_action.splits if_splits)
  assume six: "length (stack_bytes N) = 6"
  have m: "length (take 6 (requested_mac N ps)) = 6" for ps
    using six length_mac_bytes [of 5 "httpGetString ps ''mac''"] by (simp add: requested_mac_def)
  have "net_fits n \<Longrightarrow> net_fits (n\<lparr>acMAC := (acMAC n)[1 := take 6 (requested_mac N ps)], abUseHardwareMac := (abUseHardwareMac n)[1 := False]\<rparr>)" for n ps
    using m [of ps] by (auto simp: net_fits_def dest!: set_update_subset_insert [THEN subsetD])
  then show "keeps_shape (Config_SetMac E N rq)"
    unfolding keeps_shape_def Config_SetMac_def ictlSetMac_def
    by (auto simp: bnd_Inr save_fits intro!: fits_upd_net split: ca_action.splits if_splits)
qed

lemma table_keeps:
  assumes "copy_law (w_env W)" and "length (stack_bytes (w_net W)) = 6" and "map_of (RegisterUrls W) n = Some f"
  shows "keeps_shape f"
proof -
  have "(n, f) \<in> set (RegisterUrls W)" using assms(3) by (rule map_of_SomeD)
  then show ?thesis
    unfolding RegisterUrls_def Let_def set_simps insert_iff prod.inject empty_iff
    by (elim disjE conjE; simp add: user_cmds_keep [OF assms(1)] reading_keeps camera_cmds_keep camera_sets_keep
      server_cmds_keep [OF assms(1,1)] device_cmds_keep [OF assms(1)]
      net_cmds_keep [OF assms(1)] wlan_cmds_keep [OF assms(1)] assms(2))
qed

text \<open>
  Memory is overrun nowhere while the configuration has its type, but in the commands that rebuild the user table.
\<close>

definition in_bounds :: "'a checked \<Rightarrow> bool" where
  "in_bounds r = (r \<noteq> Inl OutOfBounds)"

lemma in_bounds_simps [simp]: "in_bounds (Inr x)" "in_bounds (Inl NullDeref)" "in_bounds (Inl Hang)" "in_bounds (Inl Uninitialised)"
  by (simp_all add: in_bounds_def)

lemma in_bounds_bnd: "in_bounds r \<Longrightarrow> (\<And>x. in_bounds (f x)) \<Longrightarrow> in_bounds (bnd r f)"
  by (cases r) (simp_all add: in_bounds_def bnd_def)

lemma in_bounds_save [simp]: "in_bounds (save_config E s)"
  by (simp add: save_config_def split: option.split prod.split)

lemma in_bounds_set_camera [simp]: "in_bounds (set_camera_value E m g p v s)" "in_bounds (ictlSetMediaFormat E h a w s)"
  by (simp_all add: set_camera_value_def ictlSetMediaFormat_def Let_def in_bounds_bnd)

lemma in_bounds_ictl_camera [simp]:
  "in_bounds (ictlSetResolution E h v s)" "in_bounds (ictlSetQuality E h v s)" "in_bounds (ictlSetFramerate E h v s)"
  "in_bounds (ictlSetBrightness E h v s)" "in_bounds (ictlSetSpeakerVolume E h v s)" "in_bounds (ictlSetMicVolume E h v s)"
  by (simp_all add: ictl_camera_defs)

definition stays_in_bounds :: "('h, 'r) ictl_state handler \<Rightarrow> bool" where
  "stays_in_bounds f = (\<forall>ps a s. fits s \<longrightarrow> in_bounds (f ps a s))"

lemma stays_in_boundsI: "(\<And>ps a s. in_bounds (f ps a s)) \<Longrightarrow> stays_in_bounds f"
  by (simp add: stays_in_bounds_def)

lemma in_bounds_change: "(\<And>h v s. in_bounds (ictl h v s)) \<Longrightarrow> stays_in_bounds (change_command T c k ictl rq now)"
  by (rule stays_in_boundsI) (auto simp: change_command_def Let_def intro!: in_bounds_bnd split: ca_action.split)

lemma camera_in_bounds:
  "stays_in_bounds (Config_ChResolution E T rq now)" "stays_in_bounds (Config_ChCompressRatio E T rq now)"
  "stays_in_bounds (Config_ChFramerate E T rq now)" "stays_in_bounds (Config_ChBrightness E T rq now)"
  "stays_in_bounds (Config_ChSpeakerVolume E T rq now)" "stays_in_bounds (Config_ChMicVolume E T rq now)"
  "stays_in_bounds (Config_SetMotionDetect E T d rq now)" "stays_in_bounds (Config_SetMediaFormat E T rq)"
  unfolding Config_ChResolution_def Config_ChCompressRatio_def Config_ChFramerate_def Config_ChBrightness_def
    Config_ChSpeakerVolume_def Config_ChMicVolume_def
  by (simp_all add: in_bounds_change)
    (rule stays_in_boundsI; auto simp: Config_SetMotionDetect_def Config_SetMediaFormat_def Let_def intro!: in_bounds_bnd split: ca_action.split)+

lemma reading_in_bounds:
  "stays_in_bounds (cmd_GetLog W)" "stays_in_bounds (cmd_GetMyself W)" "stays_in_bounds (cmd_GetUser W)"
  "stays_in_bounds (Config_GetMotionDetect T)" "stays_in_bounds (Config_GetMediaFormat T)" "stays_in_bounds (Config_GetWlan N T)"
  "stays_in_bounds (Config_GetMac N rq)" "stays_in_bounds (Config_GetHttp T)" "stays_in_bounds (Config_GetIP N T ip)"
  "stays_in_bounds Config_GetName" "stays_in_bounds (Config_GetPPP T b)" "stays_in_bounds (Config_GetVer b')"
  "stays_in_bounds (Config_GetTime T k)" "stays_in_bounds (Config_GetLogo T)" "stays_in_bounds Config_ChDirection"
  "stays_in_bounds (Config_GetMail T)" "stays_in_bounds (Config_UpdateProgress T u)" "stays_in_bounds (Config_GetUPnP T up ip')"
  by (rule stays_in_boundsI;
    auto simp: user_cmd_defs camera_cmd_defs net_cmd_defs device_cmd_defs Let_def intro!: in_bounds_bnd
      split: ca_action.split option.split prod.split)+

lemma length_int_text: "length (int_text (sint (v :: u32))) \<le> 11"
proof -
  have "- (2 ^ 31) \<le> sint v" "sint v < 2 ^ 31" using sint_ge [of v] sint_lt [of v] by simp_all
  then have "nat (- sint v) < 10 ^ 10" "nat (sint v) < 10 ^ 10" by simp_all
  then have "length (dec (nat (- sint v))) \<le> 10" "length (dec (nat (sint v))) \<le> 10" using length_dec_le [of _ 10] by simp_all
  then show ?thesis by (simp add: int_text_def)
qed

lemma length_concat_le: "(\<And>x. x \<in> set xs \<Longrightarrow> length (f x) \<le> n) \<Longrightarrow> length (concat (map f xs)) \<le> n * length xs"
proof (induction xs)
  case (Cons x xs)
  then have "length (f x) \<le> n" "length (concat (map f xs)) \<le> n * length xs" by simp_all
  then show ?case by simp
qed simp

lemma sint_small:
  assumes "unat (v :: u32) \<le> 6"
  shows "sint v \<le> 6"
proof -
  have u: "uint v \<le> 6" using assms unfolding uint_nat by linarith
  then have "v < 256" by (simp add: word_less_def)
  from byte_value(1) [OF this] u show ?thesis by simp
qed

lemma vnet_in_bounds: "stays_in_bounds (Config_GetVNet T)"
  unfolding stays_in_bounds_def
proof (intro allI impI)
  fix ps a and s :: "('h, 'r) ictl_state"
  assume "fits s"
  let ?c = "server_of s"
  have "unat (iBPSChannelsNum ?c) \<le> 6" using \<open>fits s\<close> by (simp add: fits_def config_fits_def server_fits_def)
  then have n: "sint (iBPSChannelsNum ?c) \<le> 6" by (rule sint_small)
  have "length (channel_text ?c i) \<le> 12" for i using length_int_text [of "aiBPSLocalPort ?c ! i"] by (simp add: channel_text_def)
  then have "length (concat (map (channel_text ?c) [0 ..< nat (sint (iBPSChannelsNum ?c))])) \<le> 12 * nat (sint (iBPSChannelsNum ?c))"
    using length_concat_le [of "[0 ..< nat (sint (iBPSChannelsNum ?c))]" "channel_text ?c" 12] by simp
  then show "in_bounds (Config_GetVNet T ps a s)"
    using n by (auto simp: Config_GetVNet_def Let_def BP_CONN_NUM_def split: ca_action.split)
qed

lemma wep_in_bounds: "in_bounds (takes_wep_key k w c m n)" "in_bounds (chosen_key a code)"
  by (auto simp: takes_wep_key_def chosen_key_def Let_def intro!: in_bounds_bnd split: option.split)

lemma setting_in_bounds:
  "stays_in_bounds (cmd_SetUserCheck W)" "stays_in_bounds (Config_SetTime E T rq k)" "stays_in_bounds (Config_SetLogo E T rq now)"
  "stays_in_bounds (Config_SetWlan E N T rq now)" "stays_in_bounds (Config_SetMac E N rq)" "stays_in_bounds (Config_SetMail E T rq now)"
  "stays_in_bounds (Config_SetHttp E T ip rq now)" "stays_in_bounds (Config_SetIP E N T ip rq now)" "stays_in_bounds (Config_Reboot ip)"
  "stays_in_bounds (flash_cmd h W)" "stays_in_bounds (Config_SetName E rq now)" "stays_in_bounds (Config_SetVNet E T rq now)"
  "stays_in_bounds (Config_SetUPnP E T)" "stays_in_bounds (cmd_SetPPP W)"
  by (rule stays_in_boundsI;
    auto simp: user_cmd_defs ictlSetUserCheck_def net_cmd_defs device_cmd_defs ictlSetWlan_def ictlSetMac_def wep_in_bounds Let_def
      intro!: in_bounds_bnd split: ca_action.split option.split prod.split)+

lemma table_in_bounds:
  assumes "map_of (RegisterUrls W) n = Some f" and "n \<notin> {''SetUser.cgi'', ''DelUser.cgi''}"
  shows "stays_in_bounds f"
proof -
  have "(n, f) \<in> set (RegisterUrls W)" using assms(1) by (rule map_of_SomeD)
  then show ?thesis
    using assms(2) unfolding RegisterUrls_def Let_def set_simps insert_iff prod.inject empty_iff
    by (elim disjE conjE; simp add: reading_in_bounds camera_in_bounds vnet_in_bounds setting_in_bounds)
qed

lemma run_commands_keep:
  assumes "copy_law (w_env W)" and "length (stack_bytes (w_net W)) = 6"
  shows "run_commands (camera_server W) cmds s = Inr s' \<Longrightarrow> fits s \<Longrightarrow> fits s'"
proof (induction cmds arbitrary: s)
  case (Cons ps cmds)
  show ?case
  proof (cases "map_of (RegisterUrls W) (httpGetString ps ''Cmd'')")
    case None
    then show ?thesis using Cons by (simp add: CreateSubCmdRunStruct_def camera_server_def)
  next
    case (Some f)
    with Cons.prems(1) obtain n vals s1 where f: "f ps CA_CONFIG s = Inr (n, vals, s1)"
      "run_commands (camera_server W) cmds s1 = Inr s'"
      by (auto simp: CreateSubCmdRunStruct_def camera_server_def bnd_Inr)
    have "fits s1" using table_keeps [OF assms Some] f(1) Cons.prems(2) unfolding keeps_shape_def by blast
    with Cons.IH f(2) show ?thesis by blast
  qed
qed simp

definition rebuilds_users :: "params \<Rightarrow> bool" where
  "rebuilds_users ps = (httpGetString ps ''Cmd'' \<in> {''SetUser.cgi'', ''DelUser.cgi''})"

definition long_redirect :: "params \<Rightarrow> bool" where
  "long_redirect ps = (243 < length (httpGetString ps ''RedirectUrl''))"

lemma config_loop_in_bounds:
  assumes "copy_law (w_env W)" and "length (stack_bytes (w_net W)) = 6" and "\<forall>ps\<in>set cmds. \<not> rebuilds_users ps" and "fits s"
  shows "in_bounds (config_loop (camera_server W) cmds xs s)"
  using assms(3,4)
proof (induction cmds arbitrary: xs s)
  case (Cons ps cmds)
  show ?case
  proof (cases "map_of (RegisterUrls W) (httpGetString ps ''Cmd'')")
    case None
    then show ?thesis using Cons by (simp add: CreateSubCmdRunStruct_def camera_server_def)
  next
    case (Some f)
    have "in_bounds (f ps CA_CONFIG s)"
      using table_in_bounds [OF Some] Cons.prems by (simp add: stays_in_bounds_def rebuilds_users_def)
    moreover have "in_bounds (config_loop (camera_server W) cmds ys s1)" if "f ps CA_CONFIG s = Inr (n, vals, s1)" for n vals s1 ys
    proof -
      have "fits s1" using table_keeps [OF assms(1,2) Some] that Cons.prems(2) unfolding keeps_shape_def by blast
      then show ?thesis using Cons by simp
    qed
    ultimately show ?thesis
      using Some by (cases "f ps CA_CONFIG s") (auto simp: CreateSubCmdRunStruct_def camera_server_def in_bounds_def)
  qed
qed simp

lemma redirect_in_bounds:
  "\<not> long_redirect ps \<Longrightarrow> in_bounds (Http_SendRedirectRequest ps)"
  "\<forall>ps\<in>set cmds. \<not> long_redirect ps \<Longrightarrow> in_bounds (redirect_loop cmds)"
proof -
  show one: "\<not> long_redirect ps \<Longrightarrow> in_bounds (Http_SendRedirectRequest ps)" for ps
    by (simp add: long_redirect_def Http_SendRedirectRequest_def Let_def)
  show "\<forall>ps\<in>set cmds. \<not> long_redirect ps \<Longrightarrow> in_bounds (redirect_loop cmds)"
    by (induction cmds) (auto intro!: in_bounds_bnd one split: option.split)
qed

lemma common_cmd_in_bounds:
  assumes "copy_law (w_env W)" and "length (stack_bytes (w_net W)) = 6" and "fits s"
    and "\<forall>ps\<in>set (sub_commands (w_text W) txt). \<not> rebuilds_users ps \<and> \<not> long_redirect ps"
    and "\<not> long_redirect (httpParseString (w_text W) txt)"
  shows "in_bounds (Http_CommonCmdRun (camera_server W) priv txt s)"
proof -
  let ?S = "camera_server W" and ?cmds = "sub_commands (w_text W) txt"
  have t: "wtext ?S = w_text W" by (simp add: camera_server_def)
  obtain m s1 where m: "auth_loop ?S ?cmds AUTH_ANY s = Inr (m, s1)" and l: "same_but_lock s s1"
    using cam.auth_loop_max [where W = W and cmds = ?cmds and m = AUTH_ANY and t = s] by blast
  have "fits s1" using l assms(3) by (auto simp: same_but_lock_def)
  then have "in_bounds (config_loop ?S ?cmds [] s1)" using config_loop_in_bounds [OF assms(1,2)] assms(4) by blast
  moreover have "in_bounds (redirect_loop ?cmds)" "in_bounds (Http_SendRedirectRequest (httpParseString (w_text W) txt))"
    using redirect_in_bounds assms(4,5) by blast+
  ultimately show ?thesis
    unfolding Http_CommonCmdRun_def Let_def t m by (auto intro!: in_bounds_bnd simp del: config_loop.simps redirect_loop.simps)
qed

text \<open>
  C6. The configuration keeps its type. Whatever commands of the table a request contains and whoever sends it: if the request is
  answered, every string of the configuration still fits its array with its terminator, every array has its length, the user table
  has at most 30 entries, and no more channels of the relay are counted than the six that are described. And if it ends in a write
  outside an array, then one of its commands is SetUser.cgi or DelUser.cgi, which rebuild the user table without asking whether it
  holds all users (that happens exactly when there are more than 30 users, theory Users), or one of its \<open>RedirectUrl\<close>s has more than the 243 characters that
  fit its buffer; every other handler stays inside the arrays.
\<close>

theorem requests_keep_config_type:
  assumes "copy_law (w_env W)" and "length (stack_bytes (w_net W)) = 6" and "config_fits (ic_cfg s)"
    and "\<forall>ps\<in>set (sub_commands (w_text W) txt). map_of (RegisterUrls W) (httpGetString ps ''Cmd'') \<noteq> None"
    and "AUTH_ANY \<le> priv"
  shows "case Http_CommonCmdRun (camera_server W) priv txt s of
      Inr (r, s') \<Rightarrow> config_fits (ic_cfg s')
    | Inl e \<Rightarrow> e = OutOfBounds \<longrightarrow> (\<exists>ps\<in>set (sub_commands (w_text W) txt). rebuilds_users ps)
        \<or> (\<exists>ps\<in>insert (httpParseString (w_text W) txt) (set (sub_commands (w_text W) txt)). long_redirect ps)"
proof (cases "Http_CommonCmdRun (camera_server W) priv txt s")
  case (Inl e)
  then show ?thesis
    using common_cmd_in_bounds [OF assms(1,2), of s "txt" priv] assms(3) by (auto simp: fits_def in_bounds_def)
next
  case (Inr x)
  obtain r s' where x: "x = (r, s')" by (cases x)
  have l: "fits t" if "same_but_lock s t" for t using that assms(3) by (auto simp: same_but_lock_def fits_def)
  have "fits s'"
    using cam.common_cmd [OF Inr [unfolded x] assms(5)] l run_commands_keep [OF assms(1,2)] by (auto split: if_splits)
  then show ?thesis by (simp add: Inr x fits_def)
qed

lemma example_state_fits: "config_fits (ic_cfg example_state)"
  by (simp add: example_state_def example_config_def config_fits_def fits_defs InitDefaultParam_def zero_config_def)

theorem requests_keep_config_type_witness:
  "\<exists>r s'. Http_CommonCmdRun (camera_server example_web) 1 ''ab'' example_state = Inr (r, s')
     \<and> acCameraName (net_of s') = ''x'' \<and> config_fits (ic_cfg s')"
proof -
  let ?s = "log_common CL_SET_NAME ''x'' bob_request 0 (upd_net (\<lambda>n. n\<lparr>acCameraName := ''x''\<rparr>) example_state)"
  have "ictl_ok example_env ?s" using example_ictl_ok by (simp add: ictl_ok_def log_common_def upd_net_def)
  from save_config_ok [OF this] obtain f where f: "save_config example_env ?s = Inr (?s\<lparr>ic_flash := f\<rparr>)" by blast
  have c: "sub_commands (w_text example_web) ''ab''
      = [[(''Cmd'', ''GetName.cgi'')], [(''Cmd'', ''SetName.cgi''), (''CameraName'', ''x'')]]"
    by (simp add: sub_commands_def example_web_def two_command_text_def)
  have h: "CreateSubCmdRunStruct (camera_server example_web) [(''Cmd'', ''GetName.cgi'')] = Some Config_GetName"
    "CreateSubCmdRunStruct (camera_server example_web) [(''Cmd'', ''SetName.cgi''), (''CameraName'', ''x'')]
       = Some (Config_SetName example_env bob_request 0)"
    by (simp_all add: CreateSubCmdRunStruct_def camera_server_def RegisterUrls_def Let_def httpGetString_def example_web_def)
  have set: "Config_SetName example_env bob_request 0 [(''Cmd'', ''SetName.cgi''), (''CameraName'', ''x'')] CA_CONFIG example_state
      = Inr (0, [], ?s\<lparr>ic_flash := f\<rparr>)"
  proof -
    have "acCameraName (net_of (upd_net (acCameraName_update (\<lambda>_. ''x'')) example_state)) = ''x''" by (simp add: upd_net_def)
    then show ?thesis
      using f by (simp add: Config_SetName_def httpIsExistParam_def httpGetString_def example_lib_def Let_def)
  qed
  have t: "wtext (camera_server example_web) = w_text example_web" by (simp add: camera_server_def)
  let ?g = "[(''Cmd'', ''GetName.cgi'')]" and ?n = "[(''Cmd'', ''SetName.cgi''), (''CameraName'', ''x'')]"
  have auth: "auth_loop (camera_server example_web) [?g, ?n] AUTH_ANY example_state = Inr (1, example_state)"
    by (simp add: h handler_of_def Config_GetName_def Config_SetName_def auth_defs)
  have "\<exists>xs. config_loop (camera_server example_web) [?g, ?n] [] example_state = Inr (xs, ?s\<lparr>ic_flash := f\<rparr>)"
    by (simp add: h set Config_GetName_def)
  then obtain xs where cfg: "config_loop (camera_server example_web) [?g, ?n] [] example_state = Inr (xs, ?s\<lparr>ic_flash := f\<rparr>)" ..
  have red: "redirect_loop [?g, ?n] = Inr None" by (simp add: Http_SendRedirectRequest_def httpGetString_def)
  have "\<exists>r. Http_CommonCmdRun (camera_server example_web) 1 ''ab'' example_state = Inr (r, ?s\<lparr>ic_flash := f\<rparr>)"
    unfolding Http_CommonCmdRun_def t c Let_def auth by (simp add: cfg red del: config_loop.simps redirect_loop.simps)
  then obtain r where run: "Http_CommonCmdRun (camera_server example_web) 1 ''ab'' example_state = Inr (r, ?s\<lparr>ic_flash := f\<rparr>)" ..
  have w: "w_env example_web = example_env" "length (stack_bytes (w_net example_web)) = 6"
    by (simp_all add: example_web_def example_net_def)
  have law: "copy_law (w_env example_web)"
    unfolding w(1) by (simp add: copy_law_def example_lib_def min_less_iff_disj)
  have "config_fits (ic_cfg example_state)" by (rule example_state_fits)
  moreover have "\<forall>ps\<in>set (sub_commands (w_text example_web) ''ab''). map_of (RegisterUrls example_web) (httpGetString ps ''Cmd'') \<noteq> None"
    unfolding c by (simp add: httpGetString_def RegisterUrls_def Let_def)
  ultimately have "AUTH_ANY \<le> 1 \<Longrightarrow> config_fits (ic_cfg (?s\<lparr>ic_flash := f\<rparr>))"
    using requests_keep_config_type [OF law w(2), of example_state "''ab''" 1] unfolding run by simp
  then have "config_fits (ic_cfg (?s\<lparr>ic_flash := f\<rparr>))"
    by (simp only: AUTH_ANY_def)
  with run show ?thesis by (auto simp: log_common_def upd_net_def)
qed

end
