(* ===== verification/TimedTasks.thy ===== *)
theory TimedTasks
  imports PeriodTask
begin

section \<open>Tasks that set their own timeout\<close>

text \<open>
  The status LED and the network check are state machines driven by the periodic thread: when their task runs they change
  state and, with the lock held, delete and add their own task with the timeout of the new state. The locale
  \<open>timed_body\<close> is what such a task promises the scheduler, and its lemma \<open>timeline\<close> what the scheduler gives in return: one
  step per due time, never early, at most one round late.
\<close>

text \<open>Rounds in which the task \<open>h\<close> steps through its states; the result says when it ran, and in which state.\<close>

fun timed_run :: "nat \<Rightarrow> ('s \<Rightarrow> 's \<times> prd_op list) \<Rightarrow> prd_round list \<Rightarrow> 's \<Rightarrow> prd \<Rightarrow> (nat \<times> 's) list \<times> 's \<times> prd" where
  "timed_run h step [] s p = ([], s, p)"
| "timed_run h step (r # rs) s p =
     (case prdRun_round (r\<lparr>while_running := (while_running r)(h := snd (step s))\<rparr>) p of
        (hs, q) \<Rightarrow>
          if h \<in> set hs
          then (case timed_run h step rs (fst (step s)) q of (tr, res) \<Rightarrow> ((t_wake r, s) # tr, res))
          else timed_run h step rs s q)"

text \<open>The runs \<open>tr\<close> of a task that is due at D with timeout T, up to the wake-up W, in rounds no longer than G.\<close>

fun on_time :: "nat \<Rightarrow> ('s \<Rightarrow> 's \<times> prd_op list) \<Rightarrow> nat \<Rightarrow> nat \<Rightarrow> nat \<Rightarrow> 's \<Rightarrow> (nat \<times> 's) list \<Rightarrow> nat \<Rightarrow> bool" where
  "on_time h step G T D s [] W = (W \<le> D)"
| "on_time h step G T D s (x # tr) W =
     (D \<le> fst x \<and> fst x \<le> D + G \<and> snd x = s
      \<and> (let T' = next_timeout h T (snd (step s)) in on_time h step G T' (fst x + T') (fst (step s)) tr W))"

definition others_spare :: "nat \<Rightarrow> prd_round \<Rightarrow> bool" where
  "others_spare h r = ((\<forall>a\<in>set (while_waiting r). spares h a) \<and> (\<forall>h'. h' \<noteq> h \<longrightarrow> (\<forall>a\<in>set (while_running r h'). spares h a)))"

text \<open>A task that another one, or another thread, adds anew while the thread waits: it is due after its timeout.\<close>

lemma round_added:
  assumes "while_waiting r = as @ [DelTask h, AddTask h n] @ bs" and "\<forall>a\<in>set bs. spares h a"
    and "\<forall>h'. h' \<noteq> h \<longrightarrow> (\<forall>a\<in>set (while_running r h'). spares h a)" and "n \<le> tick_max"
  shows "h \<notin> set (fst (prdRun_round r p)) \<and> due_at h n (t_wake r + n) (snd (prdRun_round r p)) \<and> tLastCheck (snd (prdRun_round r p)) = t_wake r"
proof -
  define p1 where "p1 = snd (check_tasks (t_check r) p)"
  define p2 where "p2 = prd_ops (while_waiting r) p1"
  define p2' where "p2' = p2\<lparr>tLastCheck := t_wake r, prd_local := []\<rparr>"
  let ?n = "t_wake r - tLastCheck p2" and ?t = "\<lparr>handle = h, tTimeout = n, tRemain = tick_max\<rparr>"
  let ?q = "prdAddTask h n (prdDelTask h (prd_ops as p1))"
  have "p2 = prd_ops bs ?q" by (simp add: p2_def assms(1) prd_ops_def)
  moreover have "same_task h ?q (prd_ops bs ?q)" by (rule prd_ops_same [OF assms(2)])
  moreover have "here h (filter (other_than h) xs) = []" for xs by (simp add: filter_empty_conv)
  ultimately have p2: "here h (g_lPrdTaskHeader p2') = []" "here h (prd_local p2') = []" "here h (g_lPrdTaskAdd p2') = [?t]"
    by (simp_all add: p2'_def same_task_def prdAddTask_def prdDelTask_def)
  have eq: "prdRun_round r p = (fst (run_tasks (while_running r) ?n p2'), (snd (run_tasks (while_running r) ?n p2'))
      \<lparr>g_lPrdTaskHeader := everywhere (snd (run_tasks (while_running r) ?n p2')), prd_local := [], g_lPrdTaskAdd := []\<rparr>)"
    unfolding prdRun_round_def case_prod_beta Let_def p1_def [symmetric] p2_def [symmetric] p2'_def [symmetric] by simp
  show ?thesis
    using run_tasks_other [OF assms(3) p2(1), of ?n] p2 assms(4) unfolding eq
    by (auto simp: same_task_def due_at_def p2'_def min_absorb2)
qed

locale timed_body =
  fixes h :: nat
    and step :: "'s \<Rightarrow> 's \<times> prd_op list"
    and legal :: "'s \<Rightarrow> bool"
  assumes legal_step: "legal s \<Longrightarrow> legal (fst (step s))"
    and own_step: "legal s \<Longrightarrow> reschedules h (snd (step s))"
begin

lemma timeline:
  assumes "legal s" and "due_at h T D p" and "tLastCheck p \<le> D" and "rounds_ok G (tLastCheck p) rs"
    and "\<forall>r\<in>set rs. others_spare h r"
  shows "on_time h step G T D s (fst (timed_run h step rs s p)) (last_wake (tLastCheck p) rs)
    \<and> legal (fst (snd (timed_run h step rs s p)))"
  using assms
proof (induction rs arbitrary: s T D p)
  case (Cons r rs)
  let ?r = "r\<lparr>while_running := (while_running r)(h := snd (step s))\<rparr>"
  let ?q = "snd (prdRun_round ?r p)" and ?T = "next_timeout h T (snd (step s))"
  have le: "tLastCheck p \<le> t_check ?r" "t_check ?r \<le> t_wake ?r" "t_wake r \<le> tLastCheck p + G" using Cons.prems(4) by auto
  have "round_leaves h ?r"
    using Cons.prems(5) own_step [OF Cons.prems(1)] by (simp add: round_leaves_def others_spare_def)
  note rd = round_retimed [OF Cons.prems(2) this le(1,2)]
  have ok: "rounds_ok G (tLastCheck ?q) rs" "\<forall>r\<in>set rs. others_spare h r" using Cons.prems(4,5) rd by simp_all
  have run: "h \<in> set (fst (prdRun_round ?r p)) \<longleftrightarrow> D \<le> t_wake r"
    using rd count_list_0_iff [of "fst (prdRun_round ?r p)" h] by (cases "D \<le> t_wake r") auto
  show ?case
  proof (cases "D \<le> t_wake r")
    case True
    with rd have d: "due_at h ?T (t_wake r + ?T) ?q" "tLastCheck ?q = t_wake r" by simp_all
    have "tLastCheck ?q \<le> t_wake r + ?T" using d(2) by simp
    from Cons.IH [OF legal_step [OF Cons.prems(1)] d(1) this ok] d(2) show ?thesis
      using True run le Cons.prems(3) by (simp add: case_prod_beta Let_def)
  next
    case False
    with rd have d: "due_at h T D ?q" "tLastCheck ?q = t_wake r" by simp_all
    have "tLastCheck ?q \<le> D" using d(2) False by simp
    from Cons.IH [OF Cons.prems(1) d(1) this ok] d(2) show ?thesis
      using False run by (simp add: case_prod_beta)
  qed
qed simp

end

end
