(* ===== verification/StatusLed.thy ===== *)
theory StatusLed
  imports TimedTasks
begin

unbundle bit_operations_syntax

section \<open>The status LED (LibCamera/Src/PeriodTask_LED.c)\<close>

text \<open>
  One two-coloured LED shows the state of the camera: network, low battery, factory default, errors. The state is a word of
  flags (\<open>g_uLED_STATUS\<close>); from it \<open>ledUpdateStatus\<close> chooses a sequence of colours and times, and a periodic task steps
  through the sequence. Every operation runs under \<open>g_rmLED\<close> and is one step; what it does to the task lists is the list of
  operations it returns. The task does not take that lock: it is modelled twice, step by step (\<open>prdTask_LED_step\<close>), with operations
  between the steps, and as a run that nothing comes between (\<open>prdTask_LED\<close>), for its timing. The older implementation in the file
  is not compiled.
\<close>

record led_des =
  usColor :: u16
  usTime :: u16

abbreviation des :: "u16 \<Rightarrow> u16 \<Rightarrow> led_des" where
  "des c t \<equiv> \<lparr>usColor = c, usTime = t\<rparr>"

definition LED_BLACK :: u16 where "LED_BLACK = 0"
definition LED_RED :: u16 where "LED_RED = 1"
definition LED_GREEN :: u16 where "LED_GREEN = 2"
definition LED_ORANGE :: u16 where "LED_ORANGE = 3"

lemmas led_colors = LED_BLACK_def LED_RED_def LED_GREEN_def LED_ORANGE_def

definition LED_GPIO_RED :: u32 where "LED_GPIO_RED = 0x01000000"
definition LED_GPIO_GREEN :: u32 where "LED_GPIO_GREEN = 0x02000000"

text \<open>The status word.\<close>

definition LED_ST_MASK_NETWORK :: u32 where "LED_ST_MASK_NETWORK = 0x0F000000"
definition LED_ST_MASK_ERROR_CODE :: u32 where "LED_ST_MASK_ERROR_CODE = 0x0000FFFF"
definition LED_ST_SET_DEFAULT :: u32 where "LED_ST_SET_DEFAULT = 0x80000000"
definition LED_ST_LOW_BATTERY :: u32 where "LED_ST_LOW_BATTERY = 0x40000000"
definition LED_ST_ERROR :: u32 where "LED_ST_ERROR = 0x00100000"

definition LED_NETWORK_TRY_CONNECT :: u32 where "LED_NETWORK_TRY_CONNECT = 0x01000000"
definition LED_NETWORK_READY :: u32 where "LED_NETWORK_READY = 0x02000000"
definition LED_NETWORK_CONNECTED :: u32 where "LED_NETWORK_CONNECTED = 0x03000000"
definition LED_NETWORK_STREAMING :: u32 where "LED_NETWORK_STREAMING = 0x04000000"
definition LED_NETWORK_INIT :: u32 where "LED_NETWORK_INIT = 0x08000000"

lemmas led_status_bits = LED_ST_MASK_NETWORK_def LED_ST_MASK_ERROR_CODE_def LED_ST_SET_DEFAULT_def LED_ST_LOW_BATTERY_def
  LED_ST_ERROR_def
lemmas led_networks = LED_NETWORK_TRY_CONNECT_def LED_NETWORK_READY_def LED_NETWORK_CONNECTED_def LED_NETWORK_STREAMING_def
  LED_NETWORK_INIT_def

text \<open>\<open>LED_TASK_STATUS_T\<close> with the status word and the output register of the port. A task is known by its handle.\<close>

record led =
  aDescriptor :: "led_des list"
  ucDesNum :: u8
  ucDesCurrent :: u8
  pTask :: "nat option"
  g_uLED_STATUS :: u32
  REG_GPIOB_DAT :: u32

definition g_prdtskUpdateLED :: nat where
  "g_prdtskUpdateLED = 1"

definition LED_DES_NUM :: nat where
  "LED_DES_NUM = 128"

subsection \<open>The task\<close>

definition led_output :: "u16 \<Rightarrow> u32 \<Rightarrow> u32" where
  "led_output c r =
     (if c = LED_BLACK then r OR LED_GPIO_RED OR LED_GPIO_GREEN
      else if c = LED_RED then (r AND NOT LED_GPIO_RED) OR LED_GPIO_GREEN
      else if c = LED_GREEN then (r AND NOT LED_GPIO_GREEN) OR LED_GPIO_RED
      else r AND NOT LED_GPIO_RED AND NOT LED_GPIO_GREEN)"

definition hold_ticks :: "led_des \<Rightarrow> nat" where
  "hold_ticks d = (if usTime d \<noteq> 0 then unat (usTime d) else 60000)"

definition prdTask_LED :: "led \<Rightarrow> (led \<times> prd_op list) checked" where
  "prdTask_LED s =
     (if unat (ucDesCurrent s) < length (aDescriptor s)
      then let d = aDescriptor s ! unat (ucDesCurrent s);
               cur = ucDesCurrent s + 1
           in case pTask s of
                None \<Rightarrow> Inl NullDeref
              | Some h \<Rightarrow> Inr (s\<lparr>ucDesCurrent := (if cur \<ge> ucDesNum s then 0 else cur), REG_GPIOB_DAT := led_output (usColor d) (REG_GPIOB_DAT s)\<rparr>,
                               [DelTask h, AddTask h (hold_ticks d)])
      else Inl OutOfBounds)"

text \<open>
  The same step by step, as it runs beside the operations: it takes the address of the current entry and the count, stores the next
  position, compares it with the number of entries, adds itself again with the time of the entry, and sets the output to its colour.
\<close>

datatype led_pc = Asleep | Counted nat u8 | Stored nat u8 | Moved nat | Added nat

fun prdTask_LED_step :: "led_pc \<Rightarrow> led \<Rightarrow> (led_pc \<times> led \<times> prd_op list) checked" where
  "prdTask_LED_step Asleep s = Inr (Counted (unat (ucDesCurrent s)) (ucDesCurrent s + 1), s, [])"
| "prdTask_LED_step (Counted i c) s = Inr (Stored i c, s\<lparr>ucDesCurrent := c\<rparr>, [])"
| "prdTask_LED_step (Stored i c) s = Inr (Moved i, if c \<ge> ucDesNum s then s\<lparr>ucDesCurrent := 0\<rparr> else s, [])"
| "prdTask_LED_step (Moved i) s =
     (if i < length (aDescriptor s)
      then case pTask s of
             None \<Rightarrow> Inl NullDeref
           | Some h \<Rightarrow> Inr (Added i, s, [DelTask h, AddTask h (hold_ticks (aDescriptor s ! i))])
      else Inl OutOfBounds)"
| "prdTask_LED_step (Added i) s =
     (if i < length (aDescriptor s)
      then Inr (Asleep, s\<lparr>REG_GPIOB_DAT := led_output (usColor (aDescriptor s ! i)) (REG_GPIOB_DAT s)\<rparr>, [])
      else Inl OutOfBounds)"

fun prdTask_LED_steps :: "nat \<Rightarrow> led_pc \<Rightarrow> led \<Rightarrow> (led_pc \<times> led \<times> prd_op list) checked" where
  "prdTask_LED_steps 0 pc s = Inr (pc, s, [])"
| "prdTask_LED_steps (Suc n) pc s = bnd (prdTask_LED_step pc s) (\<lambda>(pc1, s1, ops).
     bnd (prdTask_LED_steps n pc1 s1) (\<lambda>(pc2, s2, ops2). Inr (pc2, s2, ops @ ops2)))"

lemma uninterrupted_task:
  assumes "prdTask_LED s = Inr (s', ops)"
  shows "prdTask_LED_steps 5 Asleep s = Inr (Asleep, s', ops)"
  using assms by (auto simp: eval_nat_numeral prdTask_LED_def Let_def split: if_splits option.splits)

subsection \<open>Showing a state\<close>

definition ledShowState :: "led_des list \<Rightarrow> led \<Rightarrow> led \<times> prd_op list" where
  "ledShowState pDescriptor s =
     (let n = length pDescriptor
      in if ucDesNum s \<noteq> of_nat n \<or> take n (aDescriptor s) \<noteq> pDescriptor \<or> pTask s \<noteq> Some g_prdtskUpdateLED
         then if n < LED_DES_NUM
              then (s\<lparr>aDescriptor := blit 0 pDescriptor (aDescriptor s), ucDesNum := of_nat n, ucDesCurrent := 0,
                      pTask := Some g_prdtskUpdateLED\<rparr>, [DelTask g_prdtskUpdateLED, AddTask g_prdtskUpdateLED 0])
              else (s, [])
         else (s, []))"

definition LED_DES_RESET_DEFAULT :: "led_des list" where
  "LED_DES_RESET_DEFAULT = [des LED_RED 20, des LED_GREEN 20, des LED_ORANGE 20]"
definition LED_DES_BOOTING :: "led_des list" where "LED_DES_BOOTING = [des LED_ORANGE 0]"
definition LED_DES_BOOTING_LOW_BATTERY :: "led_des list" where
  "LED_DES_BOOTING_LOW_BATTERY = [des LED_ORANGE 40, des LED_BLACK 40]"
definition LED_DES_STREAMING :: "led_des list" where "LED_DES_STREAMING = [des LED_RED 0]"
definition LED_DES_STREAMING_LOW_BATTERY :: "led_des list" where
  "LED_DES_STREAMING_LOW_BATTERY = [des LED_RED 40, des LED_BLACK 40]"
definition LED_DES_READY :: "led_des list" where "LED_DES_READY = [des LED_GREEN 0]"
definition LED_DES_READY_LOW_BATTERY :: "led_des list" where
  "LED_DES_READY_LOW_BATTERY = [des LED_GREEN 40, des LED_BLACK 40]"
definition LED_DES_CONNECTING :: "led_des list" where "LED_DES_CONNECTING = [des LED_ORANGE 0]"
definition LED_DES_CONNECTING_LOW_BATTERY :: "led_des list" where
  "LED_DES_CONNECTING_LOW_BATTERY = [des LED_ORANGE 40, des LED_BLACK 40]"

lemmas led_patterns = LED_DES_RESET_DEFAULT_def LED_DES_BOOTING_def LED_DES_BOOTING_LOW_BATTERY_def LED_DES_STREAMING_def
  LED_DES_STREAMING_LOW_BATTERY_def LED_DES_READY_def LED_DES_READY_LOW_BATTERY_def LED_DES_CONNECTING_def
  LED_DES_CONNECTING_LOW_BATTERY_def

text \<open>An error is its number in blinks, as far as the local array of 128 entries goes.\<close>

definition put_des :: "u16 \<Rightarrow> u16 \<Rightarrow> led_des list \<Rightarrow> led_des list" where
  "put_des c t ds = (if length ds < LED_DES_NUM then ds @ [des c t] else ds)"

fun blink_inner :: "nat \<Rightarrow> led_des list \<Rightarrow> led_des list" where
  "blink_inner 0 ds = ds"
| "blink_inner (Suc j) ds = blink_inner j (put_des LED_RED 5 (put_des LED_GREEN 5 ds))"

fun error_blinks :: "nat \<Rightarrow> led_des list \<Rightarrow> led_des list" where
  "error_blinks 0 ds = ds"
| "error_blinks (Suc i) ds = error_blinks i (put_des LED_ORANGE 150 (blink_inner 6 ds))"

definition error_des :: "u32 \<Rightarrow> led_des list" where
  "error_des eErrorCode = put_des LED_BLACK 150 (error_blinks (unat eErrorCode) [])"

definition ledShowState_Error :: "u32 \<Rightarrow> led \<Rightarrow> led \<times> prd_op list" where
  "ledShowState_Error eErrorCode = ledShowState (error_des eErrorCode)"

definition ledUpdateStatus :: "led \<Rightarrow> led \<times> prd_op list" where
  "ledUpdateStatus s =
     (let st = g_uLED_STATUS s; net = st AND LED_ST_MASK_NETWORK
      in if st AND LED_ST_ERROR \<noteq> 0 then ledShowState_Error (st AND LED_ST_MASK_ERROR_CODE) s
         else if st AND LED_ST_SET_DEFAULT \<noteq> 0 then ledShowState LED_DES_RESET_DEFAULT s
         else if st AND LED_ST_LOW_BATTERY \<noteq> 0
         then if net = LED_NETWORK_TRY_CONNECT then ledShowState LED_DES_CONNECTING_LOW_BATTERY s
              else if net = LED_NETWORK_READY then ledShowState LED_DES_READY_LOW_BATTERY s
              else if net = LED_NETWORK_CONNECTED then ledShowState LED_DES_READY_LOW_BATTERY s
              else if net = LED_NETWORK_STREAMING then ledShowState LED_DES_STREAMING_LOW_BATTERY s
              else if net = LED_NETWORK_INIT then ledShowState LED_DES_BOOTING_LOW_BATTERY s
              else ledShowState LED_DES_CONNECTING_LOW_BATTERY s
         else if net = LED_NETWORK_TRY_CONNECT then ledShowState LED_DES_CONNECTING s
              else if net = LED_NETWORK_READY then ledShowState LED_DES_READY s
              else if net = LED_NETWORK_CONNECTED then ledShowState LED_DES_READY s
              else if net = LED_NETWORK_STREAMING then ledShowState LED_DES_STREAMING s
              else if net = LED_NETWORK_INIT then ledShowState LED_DES_BOOTING s
              else ledShowState LED_DES_CONNECTING s)"

subsection \<open>The operations\<close>

definition ledInit :: "led \<Rightarrow> led \<times> prd_op list" where
  "ledInit s = (s\<lparr>aDescriptor := replicate LED_DES_NUM (des 0 0), ucDesNum := 0, ucDesCurrent := 0, pTask := None,
     REG_GPIOB_DAT := REG_GPIOB_DAT s OR (LED_GPIO_RED OR LED_GPIO_GREEN)\<rparr>, [AddTask g_prdtskUpdateLED 60000])"

definition ledUninit :: "led \<Rightarrow> led \<times> prd_op list" where
  "ledUninit s = (s, [DelTask g_prdtskUpdateLED])"

definition ledError :: "u32 \<Rightarrow> led \<Rightarrow> led \<times> prd_op list" where
  "ledError eErrorCode s = ledUpdateStatus (s\<lparr>g_uLED_STATUS :=
     (g_uLED_STATUS s AND NOT LED_ST_MASK_ERROR_CODE) OR (eErrorCode AND LED_ST_MASK_ERROR_CODE) OR LED_ST_ERROR\<rparr>)"

text \<open>The first test should ask whether an error is shown; with \<open>OR\<close> it is always true. The second test is the first again.\<close>

definition ledClearError :: "u32 \<Rightarrow> led \<Rightarrow> led \<times> prd_op list" where
  "ledClearError eErrorCode s =
     (if g_uLED_STATUS s OR LED_ST_ERROR \<noteq> 0
         \<and> g_uLED_STATUS s AND LED_ST_MASK_ERROR_CODE = eErrorCode AND LED_ST_MASK_ERROR_CODE
      then ledUpdateStatus (s\<lparr>g_uLED_STATUS := g_uLED_STATUS s AND NOT LED_ST_MASK_ERROR_CODE AND NOT LED_ST_ERROR\<rparr>)
      else (s, []))"

definition ledSetFactoryDefault :: "led \<Rightarrow> led \<times> prd_op list" where
  "ledSetFactoryDefault s = ledUpdateStatus (s\<lparr>g_uLED_STATUS := g_uLED_STATUS s OR LED_ST_SET_DEFAULT\<rparr>)"

definition ledClearFactoryDefault :: "led \<Rightarrow> led \<times> prd_op list" where
  "ledClearFactoryDefault s = ledUpdateStatus (s\<lparr>g_uLED_STATUS := g_uLED_STATUS s AND NOT LED_ST_SET_DEFAULT\<rparr>)"

definition ledSetLowBattery :: "bool \<Rightarrow> led \<Rightarrow> led \<times> prd_op list" where
  "ledSetLowBattery bLowBattery s = ledUpdateStatus (s\<lparr>g_uLED_STATUS :=
     (g_uLED_STATUS s AND NOT LED_ST_LOW_BATTERY) OR (if bLowBattery then LED_ST_LOW_BATTERY else 0)\<rparr>)"

definition ledSetNetwork :: "u32 \<Rightarrow> led \<Rightarrow> led \<times> prd_op list" where
  "ledSetNetwork eNetworkState s = ledUpdateStatus (s\<lparr>g_uLED_STATUS :=
     (g_uLED_STATUS s AND NOT LED_ST_MASK_NETWORK) OR (eNetworkState AND LED_ST_MASK_NETWORK)\<rparr>)"

definition ledGetResult :: "led \<Rightarrow> u32 \<times> u32" where
  "ledGetResult s = (g_uLED_STATUS s AND NOT LED_ST_MASK_ERROR_CODE, g_uLED_STATUS s AND LED_ST_MASK_ERROR_CODE)"

text \<open>What happens to the LED, in any order; \<open>TaskRuns\<close> is a step of the task.\<close>

datatype led_event = ShowError u32 | ClearError u32 | SetFactoryDefault | ClearFactoryDefault | SetLowBattery bool | SetNetwork u32
  | TaskRuns

fun led_op :: "led_event \<Rightarrow> led \<Rightarrow> led \<times> prd_op list" where
  "led_op (ShowError e) = ledError e"
| "led_op (ClearError e) = ledClearError e"
| "led_op SetFactoryDefault = ledSetFactoryDefault"
| "led_op ClearFactoryDefault = ledClearFactoryDefault"
| "led_op (SetLowBattery b) = ledSetLowBattery b"
| "led_op (SetNetwork n) = ledSetNetwork n"
| "led_op TaskRuns = (\<lambda>s. (s, []))"

definition led_event_run :: "led_event \<Rightarrow> led_pc \<times> led \<Rightarrow> (led_pc \<times> led) checked" where
  "led_event_run e = (\<lambda>(pc, s). if e = TaskRuns then bnd (prdTask_LED_step pc s) (\<lambda>(pc', s', _). Inr (pc', s')) else Inr (pc, fst (led_op e s)))"

fun led_run :: "led_event list \<Rightarrow> led_pc \<times> led \<Rightarrow> (led_pc \<times> led) checked" where
  "led_run [] ps = Inr ps"
| "led_run (e # es) ps = bnd (led_event_run e ps) (led_run es)"

subsection \<open>What the LED is meant to show\<close>

text \<open>The state as the rest of the camera sees it.\<close>

record led_view =
  lv_error :: bool
  lv_code :: u32
  lv_default :: bool
  lv_low :: bool
  lv_net :: u32

definition led_view_of :: "u32 \<Rightarrow> led_view" where
  "led_view_of st = \<lparr>lv_error = (st AND LED_ST_ERROR \<noteq> 0), lv_code = st AND LED_ST_MASK_ERROR_CODE,
     lv_default = (st AND LED_ST_SET_DEFAULT \<noteq> 0), lv_low = (st AND LED_ST_LOW_BATTERY \<noteq> 0), lv_net = st AND LED_ST_MASK_NETWORK\<rparr>"

fun view_op :: "led_event \<Rightarrow> led_view \<Rightarrow> led_view" where
  "view_op (ShowError e) v = v\<lparr>lv_error := True, lv_code := e AND LED_ST_MASK_ERROR_CODE\<rparr>"
| "view_op (ClearError e) v =
     (if lv_code v = e AND LED_ST_MASK_ERROR_CODE then v\<lparr>lv_error := False, lv_code := 0\<rparr> else v)"
| "view_op SetFactoryDefault v = v\<lparr>lv_default := True\<rparr>"
| "view_op ClearFactoryDefault v = v\<lparr>lv_default := False\<rparr>"
| "view_op (SetLowBattery b) v = v\<lparr>lv_low := b\<rparr>"
| "view_op (SetNetwork n) v = v\<lparr>lv_net := n AND LED_ST_MASK_NETWORK\<rparr>"
| "view_op TaskRuns v = v"

text \<open>
  An error has priority, then the reset to factory default, then the network, blinking when the battery is low. Error n is n
  times six green-red flashes and a pause in orange, and then a pause in the dark.
\<close>

definition error_blink :: "led_des list" where
  "error_blink = concat (replicate 6 [des LED_GREEN 5, des LED_RED 5]) @ [des LED_ORANGE 150]"

definition error_signal :: "nat \<Rightarrow> led_des list" where
  "error_signal n = concat (replicate n error_blink) @ [des LED_BLACK 150]"

definition network_color :: "u32 \<Rightarrow> u16" where
  "network_color net =
     (if net = LED_NETWORK_STREAMING then LED_RED
      else if net = LED_NETWORK_READY \<or> net = LED_NETWORK_CONNECTED then LED_GREEN
      else LED_ORANGE)"

definition signal :: "led_view \<Rightarrow> led_des list" where
  "signal v =
     (if lv_error v then error_signal (unat (lv_code v))
      else if lv_default v then [des LED_RED 20, des LED_GREEN 20, des LED_ORANGE 20]
      else if lv_low v then [des (network_color (lv_net v)) 40, des LED_BLACK 40]
      else [des (network_color (lv_net v)) 0])"

lemma put_des_fits: "length ds < 128 \<Longrightarrow> put_des c t ds = ds @ [des c t]"
  by (simp add: put_des_def LED_DES_NUM_def)

lemma blink_inner_fits:
  "length ds + 2 * j \<le> 128 \<Longrightarrow> blink_inner j ds = ds @ concat (replicate j [des LED_GREEN 5, des LED_RED 5])"
  by (induction j arbitrary: ds) (simp_all add: put_des_fits)

lemma length_flashes [simp]: "length (concat (replicate j [x, y])) = 2 * j"
  by (induction j) simp_all

lemma length_error_blink [simp]: "length error_blink = 13"
  by (simp add: error_blink_def eval_nat_numeral)

lemma error_blinks_fits: "length ds + 13 * i \<le> 128 \<Longrightarrow> error_blinks i ds = ds @ concat (replicate i error_blink)"
proof (induction i arbitrary: ds)
  case (Suc i)
  then have "blink_inner 6 ds = ds @ concat (replicate 6 [des LED_GREEN 5, des LED_RED 5])" by (simp add: blink_inner_fits)
  moreover have "length (ds @ concat (replicate 6 [des LED_GREEN 5, des LED_RED 5])) < 128" using Suc.prems by simp
  ultimately have "put_des LED_ORANGE 150 (blink_inner 6 ds) = ds @ error_blink"
    by (simp add: put_des_fits error_blink_def del: replicate.simps)
  then show ?case using Suc by simp
qed simp

lemma length_error_signal: "length (error_signal n) = 13 * n + 1"
  by (induction n) (simp_all add: error_signal_def)

lemma error_des_fits:
  assumes "unat c \<le> 9"
  shows "error_des c = error_signal (unat c)"
proof -
  let ?b = "error_blinks (unat c) []"
  have b: "?b = concat (replicate (unat c) error_blink)"
    using assms by (subst error_blinks_fits) simp_all
  then have "length (?b @ [des LED_BLACK 150]) = 13 * unat c + 1"
    using length_error_signal [of "unat c"] by (simp add: error_signal_def)
  then have "length ?b < 128" using assms by simp
  then have "error_des c = ?b @ [des LED_BLACK 150]" unfolding error_des_def by (rule put_des_fits)
  then show ?thesis by (simp only: b error_signal_def)
qed

lemma error_des_full: "10 \<le> unat c \<Longrightarrow> length (error_des c) = LED_DES_NUM"
proof -
  have le: "length ds \<le> 128 \<Longrightarrow> length (put_des a t ds) \<le> 128" for a t ds by (simp add: put_des_def LED_DES_NUM_def)
  have ge: "min 128 (length ds + 1) \<le> length (put_des a t ds)" for a t ds by (simp add: put_des_def LED_DES_NUM_def)
  have le_in: "length ds \<le> 128 \<Longrightarrow> length (blink_inner j ds) \<le> 128" for j ds by (induction j arbitrary: ds) (simp_all add: le)
  have ge_in: "min 128 (length ds + 2 * j) \<le> length (blink_inner j ds)" for j ds
  proof (induction j arbitrary: ds)
    case (Suc j)
    show ?case using Suc [of "put_des LED_RED 5 (put_des LED_GREEN 5 ds)"] ge [of "put_des LED_GREEN 5 ds" LED_RED 5] ge [of ds LED_GREEN 5]
      by simp
  qed simp
  have le_er: "length ds \<le> 128 \<Longrightarrow> length (error_blinks i ds) \<le> 128" for i ds
    by (induction i arbitrary: ds) (simp_all add: le le_in)
  have ge_er: "min 128 (length ds + 13 * i) \<le> length (error_blinks i ds)" for i ds
  proof (induction i arbitrary: ds)
    case (Suc i)
    show ?case using Suc [of "put_des LED_ORANGE 150 (blink_inner 6 ds)"] ge [of "blink_inner 6 ds" LED_ORANGE 150] ge_in [of ds 6] by simp
  qed simp
  show "10 \<le> unat c \<Longrightarrow> length (error_des c) = LED_DES_NUM"
    using ge_er [of "[]" "unat c"] le_er [of "[]" "unat c"] by (simp add: error_des_def put_des_def LED_DES_NUM_def)
qed

lemma ledShowState_shown:
  assumes "length ds < 128" and "length (aDescriptor s) = 128" and "ledShowState ds s = (s', ops)"
  shows "take (length ds) (aDescriptor s') = ds" and "unat (ucDesNum s') = length ds" and "pTask s' = Some g_prdtskUpdateLED"
    and "length (aDescriptor s') = 128" and "g_uLED_STATUS s' = g_uLED_STATUS s" and "ucDesCurrent s' = 0 \<or> s' = s"
    and "REG_GPIOB_DAT s' = REG_GPIOB_DAT s"
    and "ops = [] \<and> s' = s \<or> ops = [DelTask g_prdtskUpdateLED, AddTask g_prdtskUpdateLED 0] \<and> ucDesCurrent s' = 0"
  using assms by (auto simp: ledShowState_def Let_def LED_DES_NUM_def blit_def unat_of_nat split: if_splits)

lemma ledShowState_too_long: "length ds = LED_DES_NUM \<Longrightarrow> fst (ledShowState ds s) = s \<and> snd (ledShowState ds s) = []"
  by (simp add: ledShowState_def Let_def)

text \<open>The cascade of \<open>ledUpdateStatus\<close> shows the signal.\<close>

lemma ledUpdateStatus_signal:
  assumes "unat (lv_code (led_view_of (g_uLED_STATUS s))) \<le> 9"
  shows "ledUpdateStatus s = ledShowState (signal (led_view_of (g_uLED_STATUS s))) s"
  using assms error_des_fits [of "g_uLED_STATUS s AND LED_ST_MASK_ERROR_CODE"]
  by (simp add: ledUpdateStatus_def Let_def led_view_of_def signal_def ledShowState_Error_def led_patterns network_color_def led_networks)

text \<open>The flags do not overlap.\<close>

lemmas bit_split = bit.conj_disj_distrib2 and.assoc

lemma status_after:
  "led_view_of ((g AND NOT LED_ST_MASK_ERROR_CODE) OR (e AND LED_ST_MASK_ERROR_CODE) OR LED_ST_ERROR) = view_op (ShowError e) (led_view_of g)"
  "led_view_of (g OR LED_ST_SET_DEFAULT) = view_op SetFactoryDefault (led_view_of g)"
  "led_view_of (g AND NOT LED_ST_SET_DEFAULT) = view_op ClearFactoryDefault (led_view_of g)"
  "led_view_of ((g AND NOT LED_ST_LOW_BATTERY) OR (if b then LED_ST_LOW_BATTERY else 0)) = view_op (SetLowBattery b) (led_view_of g)"
  "led_view_of ((g AND NOT LED_ST_MASK_NETWORK) OR (n AND LED_ST_MASK_NETWORK)) = view_op (SetNetwork n) (led_view_of g)"
  "led_view_of (g AND NOT LED_ST_MASK_ERROR_CODE AND NOT LED_ST_ERROR) = (led_view_of g)\<lparr>lv_error := False, lv_code := 0\<rparr>"
  by (simp_all add: led_view_of_def led_status_bits bit_split)

text \<open>An operation shows the signal of the new state, unless it is an error that is not the one to clear.\<close>

fun updates :: "led_event \<Rightarrow> bool" where
  "updates TaskRuns = False"
| "updates (ClearError e) = False"
| "updates _ = True"

definition code_ok :: "led_event \<Rightarrow> bool" where
  "code_ok e = (case e of ShowError c \<Rightarrow> unat (c AND LED_ST_MASK_ERROR_CODE) \<le> 9 | _ \<Rightarrow> True)"

abbreviation led_status :: "led \<Rightarrow> led_view" where
  "led_status s \<equiv> led_view_of (g_uLED_STATUS s)"

lemma view_op_code: "unat (lv_code v) \<le> 9 \<Longrightarrow> code_ok e \<Longrightarrow> unat (lv_code (view_op e v)) \<le> 9"
  by (cases e) (simp_all add: code_ok_def)

lemma led_op_shows:
  assumes "unat (lv_code (led_status s)) \<le> 9" and "code_ok e" and "e \<noteq> TaskRuns"
  shows "(\<exists>t. led_op e s = ledShowState (signal (view_op e (led_status s))) t \<and> led_status t = view_op e (led_status s)
      \<and> aDescriptor t = aDescriptor s \<and> REG_GPIOB_DAT t = REG_GPIOB_DAT s \<and> ucDesNum t = ucDesNum s \<and> ucDesCurrent t = ucDesCurrent s \<and> pTask t = pTask s)
    \<or> (\<not> updates e \<and> led_op e s = (s, []) \<and> view_op e (led_status s) = led_status s)"
proof -
  have show_it: "\<exists>t. ledUpdateStatus (s\<lparr>g_uLED_STATUS := g\<rparr>) = ledShowState (signal (view_op e (led_status s))) t
      \<and> led_status t = view_op e (led_status s) \<and> aDescriptor t = aDescriptor s \<and> REG_GPIOB_DAT t = REG_GPIOB_DAT s
      \<and> ucDesNum t = ucDesNum s \<and> ucDesCurrent t = ucDesCurrent s \<and> pTask t = pTask s"
    if "led_view_of g = view_op e (led_status s)" for g
    using that view_op_code [OF assms(1,2)] ledUpdateStatus_signal [of "s\<lparr>g_uLED_STATUS := g\<rparr>"] by auto
  show ?thesis
  proof (cases e)
    case (ShowError c)
    then show ?thesis using show_it [OF status_after(1) [of _ c, folded ShowError]] unfolding ShowError led_op.simps ledError_def by blast
  next
    case (ClearError c)
    show ?thesis
    proof (cases "lv_code (led_status s) = c AND LED_ST_MASK_ERROR_CODE")
      case True
      then have op: "led_op e s = ledUpdateStatus (s\<lparr>g_uLED_STATUS := g_uLED_STATUS s AND NOT LED_ST_MASK_ERROR_CODE AND NOT LED_ST_ERROR\<rparr>)"
        by (simp add: ClearError ledClearError_def led_view_of_def or_eq_0_iff LED_ST_ERROR_def)
      have "led_view_of (g_uLED_STATUS s AND NOT LED_ST_MASK_ERROR_CODE AND NOT LED_ST_ERROR) = view_op e (led_status s)"
        unfolding status_after(6) ClearError using True by simp
      from show_it [OF this] show ?thesis unfolding op by blast
    next
      case False
      then have "g_uLED_STATUS s AND LED_ST_MASK_ERROR_CODE \<noteq> c AND LED_ST_MASK_ERROR_CODE" by (simp add: led_view_of_def)
      then have "led_op e s = (s, [])" by (simp add: ClearError ledClearError_def)
      moreover have "view_op e (led_status s) = led_status s" unfolding ClearError by (simp only: view_op.simps False if_False)
      ultimately show ?thesis by (simp add: ClearError)
    qed
  next
    case SetFactoryDefault
    then show ?thesis using show_it [OF status_after(2) [folded SetFactoryDefault]] unfolding SetFactoryDefault led_op.simps ledSetFactoryDefault_def by blast
  next
    case ClearFactoryDefault
    then show ?thesis using show_it [OF status_after(3) [folded ClearFactoryDefault]] unfolding ClearFactoryDefault led_op.simps ledClearFactoryDefault_def by blast
  next
    case (SetLowBattery b)
    then show ?thesis using show_it [OF status_after(4) [of _ b, folded SetLowBattery]] unfolding SetLowBattery led_op.simps ledSetLowBattery_def by blast
  next
    case (SetNetwork n)
    then show ?thesis using show_it [OF status_after(5) [of _ n, folded SetNetwork]] unfolding SetNetwork led_op.simps ledSetNetwork_def by blast
  qed (use assms(3) in simp)
qed

subsection \<open>The LED shows the state\<close>

definition led_ok :: "led \<Rightarrow> bool" where
  "led_ok s = (length (aDescriptor s) = LED_DES_NUM \<and> unat (lv_code (led_status s)) \<le> 9 \<and> pTask s = Some g_prdtskUpdateLED
     \<and> unat (ucDesNum s) = length (signal (led_status s))
     \<and> take (length (signal (led_status s))) (aDescriptor s) = signal (led_status s) \<and> ucDesCurrent s < ucDesNum s)"

text \<open>All of it but the position.\<close>

definition table_ok :: "led \<Rightarrow> bool" where
  "table_ok s = (length (aDescriptor s) = LED_DES_NUM \<and> unat (lv_code (led_status s)) \<le> 9 \<and> pTask s = Some g_prdtskUpdateLED
     \<and> unat (ucDesNum s) = length (signal (led_status s))
     \<and> take (length (signal (led_status s))) (aDescriptor s) = signal (led_status s))"

lemma led_ok_split: "led_ok s \<longleftrightarrow> table_ok s \<and> ucDesCurrent s < ucDesNum s"
  by (auto simp: led_ok_def table_ok_def)

lemma signal_length: "unat (lv_code v) \<le> 9 \<Longrightarrow> 0 < length (signal v) \<and> length (signal v) < 128"
  by (auto simp: signal_def length_error_signal simp flip: length_greater_0_conv)

lemma led_op_table:
  assumes "length (aDescriptor s) = LED_DES_NUM" and "unat (lv_code (led_status s)) \<le> 9" and "code_ok e" and "e \<noteq> TaskRuns"
    and "updates e \<and> pTask s = None \<or> table_ok s"
  shows "table_ok (fst (led_op e s)) \<and> led_status (fst (led_op e s)) = view_op e (led_status s)
     \<and> (snd (led_op e s) = [] \<and> table_ok s \<and> ucDesCurrent (fst (led_op e s)) = ucDesCurrent s \<and> ucDesNum (fst (led_op e s)) = ucDesNum s
        \<or> snd (led_op e s) = [DelTask g_prdtskUpdateLED, AddTask g_prdtskUpdateLED 0] \<and> ucDesCurrent (fst (led_op e s)) = 0)"
  using led_op_shows [OF assms(2-4)]
proof
  let ?v = "view_op e (led_status s)"
  have code: "unat (lv_code ?v) \<le> 9" by (rule view_op_code [OF assms(2,3)])
  note sl = signal_length [OF code]
  assume "\<exists>t. led_op e s = ledShowState (signal ?v) t \<and> led_status t = ?v \<and> aDescriptor t = aDescriptor s
      \<and> REG_GPIOB_DAT t = REG_GPIOB_DAT s \<and> ucDesNum t = ucDesNum s \<and> ucDesCurrent t = ucDesCurrent s \<and> pTask t = pTask s"
  then obtain t where t: "led_op e s = ledShowState (signal ?v) t" "led_status t = ?v" "aDescriptor t = aDescriptor s"
    "ucDesNum t = ucDesNum s" "ucDesCurrent t = ucDesCurrent s" "pTask t = pTask s" by blast
  obtain s' ops where r: "ledShowState (signal ?v) t = (s', ops)" by (cases "ledShowState (signal ?v) t")
  have ln: "length (aDescriptor t) = 128" using assms(1) t(3) by (simp add: LED_DES_NUM_def)
  note c = ledShowState_shown [OF conjunct2 [OF sl] ln r]
  have "table_ok s" if "s' = t"
  proof -
    have "pTask s = Some g_prdtskUpdateLED" using c(3) t(6) that by simp
    then show ?thesis using assms(5) by auto
  qed
  then show ?thesis
    using c t(1,2,4,5) code r by (auto simp: table_ok_def LED_DES_NUM_def)
qed (use assms(5) in auto)

lemma led_op_ok:
  assumes "length (aDescriptor s) = LED_DES_NUM" and "unat (lv_code (led_status s)) \<le> 9" and "code_ok e" and "e \<noteq> TaskRuns"
    and "updates e \<and> pTask s = None \<or> led_ok s"
  shows "led_ok (fst (led_op e s)) \<and> led_status (fst (led_op e s)) = view_op e (led_status s)
     \<and> (snd (led_op e s) = []
        \<or> snd (led_op e s) = [DelTask g_prdtskUpdateLED, AddTask g_prdtskUpdateLED 0] \<and> ucDesCurrent (fst (led_op e s)) = 0)"
proof -
  have "updates e \<and> pTask s = None \<or> table_ok s" using assms(5) led_ok_split by blast
  note o = led_op_table [OF assms(1-4) this]
  then have "0 < ucDesNum (fst (led_op e s))"
    using signal_length [of "led_status (fst (led_op e s))"] by (auto simp: table_ok_def word_less_nat_alt)
  moreover have "ucDesCurrent s < ucDesNum s" if "table_ok s" using assms(5) that by (auto simp: led_ok_split table_ok_def)
  ultimately show ?thesis using o by (auto simp: led_ok_split)
qed

lemma cyc_index: "c < n \<Longrightarrow> (if c + 1 \<ge> n then 0 else c + 1) = (c + 1) mod (n :: nat)"
  by (cases "c + 1 = n") auto

text \<open>One run of the task: the LED takes the colour at the current position, and the position moves on.\<close>

lemma prdTask_LED_ok:
  assumes "led_ok s"
  obtains s' where "prdTask_LED s = Inr (s', [DelTask g_prdtskUpdateLED, AddTask g_prdtskUpdateLED
      (hold_ticks (signal (led_status s) ! unat (ucDesCurrent s)))])"
    and "led_ok s'" and "led_status s' = led_status s"
    and "unat (ucDesCurrent s') = (unat (ucDesCurrent s) + 1) mod length (signal (led_status s))"
    and "REG_GPIOB_DAT s' = led_output (usColor (signal (led_status s) ! unat (ucDesCurrent s))) (REG_GPIOB_DAT s)"
proof -
  let ?c = "unat (ucDesCurrent s)" and ?n = "unat (ucDesNum s)"
  have o: "length (aDescriptor s) = 128" "?n = length (signal (led_status s))" "take (length (signal (led_status s))) (aDescriptor s) = signal (led_status s)"
    "?c < ?n" "pTask s = Some g_prdtskUpdateLED" "unat (lv_code (led_status s)) \<le> 9"
    using assms unfolding led_ok_def LED_DES_NUM_def word_less_nat_alt by blast+
  have n: "0 < ?n" "?n < 128" using signal_length [OF o(6)] o(2) by simp_all
  have d: "aDescriptor s ! ?c = signal (led_status s) ! ?c" using o(2-4) by (metis nth_take)
  have w: "unat (ucDesCurrent s + 1) = ?c + 1" using o(4) n(2) by (subst unat_plus_no_wrap) simp_all
  let ?cur = "if ucDesCurrent s + 1 \<ge> ucDesNum s then 0 else ucDesCurrent s + 1"
  let ?s = "s\<lparr>ucDesCurrent := ?cur, REG_GPIOB_DAT := led_output (usColor (aDescriptor s ! ?c)) (REG_GPIOB_DAT s)\<rparr>"
  have "?c < length (aDescriptor s)" using o(1,4) n(2) by linarith
  then have run: "prdTask_LED s = Inr (?s, [DelTask g_prdtskUpdateLED, AddTask g_prdtskUpdateLED (hold_ticks (signal (led_status s) ! ?c))])"
    by (simp add: prdTask_LED_def Let_def o(5) d)
  have cur: "unat ?cur = (?c + 1) mod ?n"
    using cyc_index [OF o(4)] w by (simp add: word_le_nat_alt split: if_splits)
  then have lt: "?cur < ucDesNum s" using n(1) by (simp only: word_less_nat_alt) (rule mod_less_divisor)
  have "led_ok ?s" using assms lt by (simp add: led_ok_def)
  then show ?thesis using that [OF run] cur o(2) d by simp
qed

text \<open>Where the position can be while the task is at work.\<close>

definition led_mid :: "led_pc \<times> led \<Rightarrow> bool" where
  "led_mid = (\<lambda>(pc, s). table_ok s \<and>
     (case pc of Asleep \<Rightarrow> ucDesCurrent s < ucDesNum s
       | Counted i c \<Rightarrow> i < LED_DES_NUM \<and> unat c < LED_DES_NUM \<and> ucDesCurrent s < ucDesNum s
       | Stored i c \<Rightarrow> i < LED_DES_NUM \<and> unat c < LED_DES_NUM \<and> (ucDesCurrent s = c \<or> ucDesCurrent s = 0)
       | Moved i \<Rightarrow> i < LED_DES_NUM \<and> ucDesCurrent s < ucDesNum s
       | Added i \<Rightarrow> i < LED_DES_NUM \<and> ucDesCurrent s < ucDesNum s))"

lemma table_num: "table_ok s \<Longrightarrow> 0 < ucDesNum s \<and> unat (ucDesNum s) < LED_DES_NUM"
  using signal_length [of "led_status s"] by (simp add: table_ok_def word_less_nat_alt LED_DES_NUM_def)

lemma table_ok_other [simp]: "table_ok (s\<lparr>ucDesCurrent := c\<rparr>) = table_ok s" "table_ok (s\<lparr>REG_GPIOB_DAT := r\<rparr>) = table_ok s"
  by (simp_all add: table_ok_def)

lemma led_mid_table: "led_mid (pc, s) \<Longrightarrow> table_ok s"
  by (simp add: led_mid_def)

lemma task_step_mid:
  assumes "led_mid (pc, s)"
  shows "\<exists>pc' s' ops. prdTask_LED_step pc s = Inr (pc', s', ops) \<and> led_mid (pc', s') \<and> led_status s' = led_status s"
proof -
  note n = table_num [OF led_mid_table [OF assms]]
  have l: "length (aDescriptor s) = LED_DES_NUM" "pTask s = Some g_prdtskUpdateLED"
    using led_mid_table [OF assms] by (simp_all add: table_ok_def)
  show ?thesis
  proof (cases pc)
    case Asleep
    then have c: "ucDesCurrent s < ucDesNum s" "table_ok s" using assms by (simp_all add: led_mid_def)
    then have "unat (ucDesCurrent s) + 1 < LED_DES_NUM" using n by (simp add: word_less_nat_alt)
    moreover from this have "unat (ucDesCurrent s + 1) = unat (ucDesCurrent s) + 1"
      by (subst unat_plus_no_wrap) (simp_all add: LED_DES_NUM_def)
    ultimately show ?thesis using c by (simp add: Asleep led_mid_def)
  next
    case (Stored i c)
    then show ?thesis using assms n by (auto simp: led_mid_def not_le)
  qed (use assms l n in \<open>auto simp: led_mid_def\<close>)
qed

lemma led_op_mid:
  assumes "led_mid (pc, s)" and "code_ok e" and "e \<noteq> TaskRuns"
  shows "led_mid (pc, fst (led_op e s)) \<and> led_status (fst (led_op e s)) = view_op e (led_status s)"
proof -
  have t: "table_ok s" "length (aDescriptor s) = LED_DES_NUM" "unat (lv_code (led_status s)) \<le> 9"
    using led_mid_table [OF assms(1)] by (simp_all add: table_ok_def)
  note o = led_op_table [OF t(2,3) assms(2,3) disjI2 [OF t(1)]]
  then have "0 < ucDesNum (fst (led_op e s))" using table_num by blast
  then show ?thesis using o assms(1) by (auto simp: led_mid_def split: led_pc.splits)
qed

lemma led_event_ok:
  assumes "led_mid ps" and "code_ok e"
  shows "\<exists>ps'. led_event_run e ps = Inr ps' \<and> led_mid ps' \<and> led_status (snd ps') = view_op e (led_status (snd ps))"
proof (cases ps)
  case (Pair pc s)
  show ?thesis
  proof (cases "e = TaskRuns")
    case True
    from task_step_mid [of pc s] assms(1) Pair obtain pc' s' ops where
      "prdTask_LED_step pc s = Inr (pc', s', ops)" "led_mid (pc', s')" "led_status s' = led_status s" by auto
    then show ?thesis by (simp add: True led_event_run_def Pair)
  next
    case False
    then show ?thesis using led_op_mid [of pc s e] assms by (simp add: led_event_run_def Pair)
  qed
qed

lemma led_run_ok:
  assumes "led_mid ps" and "\<forall>e\<in>set es. code_ok e"
  shows "\<exists>ps'. led_run es ps = Inr ps' \<and> led_mid ps' \<and> led_status (snd ps') = fold view_op es (led_status (snd ps))"
  using assms
proof (induction es arbitrary: ps)
  case (Cons e es)
  then obtain p1 where "led_event_run e ps = Inr p1" "led_mid p1" "led_status (snd p1) = view_op e (led_status (snd ps))"
    using led_event_ok [of ps e] by auto
  moreover from this(2) Cons.IH [of p1] Cons.prems(2) obtain p' where
    "led_run es p1 = Inr p'" "led_mid p'" "led_status (snd p') = fold view_op es (led_status (snd p1))" by auto
  ultimately show ?case by (intro exI [of _ p']) (simp only: led_run.simps bnd_simps fold_simps simp_thms)
qed simp

text \<open>
  C40. The LED shows the state of the camera. After any changes of the state, in any order and between any two steps of the task,
  the table of colours in use is exactly the signal of the current state: an error before a reset to factory default, before the
  network, blinking if the battery is low. The task never fails, and its position is inside the signal, but for the moment between
  its storing the next position and its comparing it, when it is still inside the table. This holds for error codes up to 9, as the
  firmware has them: the signal of a code of 10 or more does not fit the table and is not shown. (The document of the signals,
  LEDStatus.txt, describes another signal for errors than the code makes; \<open>error_signal\<close> is the one of the code.)
\<close>

theorem led_shows_status:
  assumes "updates e" and "\<forall>x\<in>set (e # es). code_ok x" and "unat (lv_code (led_status s)) \<le> 9"
  shows "\<exists>pc s'. led_run (e # es) (Asleep, fst (ledInit s)) = Inr (pc, s') \<and> led_status s' = fold view_op (e # es) (led_status s)
    \<and> take (unat (ucDesNum s')) (aDescriptor s') = signal (led_status s')
    \<and> (if \<exists>i c. pc = Stored i c then unat (ucDesCurrent s') < LED_DES_NUM else ucDesCurrent s' < ucDesNum s')"
proof -
  let ?i = "fst (ledInit s)"
  have i: "length (aDescriptor ?i) = LED_DES_NUM" "led_status ?i = led_status s" "pTask ?i = None" by (simp_all add: ledInit_def)
  have e: "e \<noteq> TaskRuns" "code_ok e" using assms(1,2) by auto
  have "led_ok (fst (led_op e ?i)) \<and> led_status (fst (led_op e ?i)) = view_op e (led_status ?i)"
    using led_op_ok [OF i(1) _ e(2,1)] i(2,3) assms(1,3) by simp
  then have m: "led_mid (Asleep, fst (led_op e ?i))" "led_status (fst (led_op e ?i)) = view_op e (led_status s)"
    using i(2) by (simp_all add: led_mid_def led_ok_split)
  moreover have "led_event_run e (Asleep, ?i) = Inr (Asleep, fst (led_op e ?i))" using e by (simp add: led_event_run_def)
  ultimately obtain pc s' where r: "led_run (e # es) (Asleep, ?i) = Inr (pc, s')" "led_mid (pc, s')"
    "led_status s' = fold view_op (e # es) (led_status s)"
    using led_run_ok [OF m(1), of es] assms(2) by fastforce
  then have "take (unat (ucDesNum s')) (aDescriptor s') = signal (led_status s')" using led_mid_table [OF r(2)] by (simp only: table_ok_def)
  moreover have "if \<exists>i c. pc = Stored i c then unat (ucDesCurrent s') < LED_DES_NUM else ucDesCurrent s' < ucDesNum s'"
    using r(2) by (auto simp: led_mid_def LED_DES_NUM_def split: led_pc.splits)
  ultimately show ?thesis using r(1,3) by blast
qed

definition example_led :: led where
  "example_led = \<lparr>aDescriptor = [], ucDesNum = 0, ucDesCurrent = 0, pTask = None, g_uLED_STATUS = 0, REG_GPIOB_DAT = 0xFF\<rparr>"

theorem led_shows_status_witness:
  "\<exists>pc s'. led_run [SetNetwork LED_NETWORK_READY, TaskRuns, SetLowBattery True, ShowError 5, ClearError 2, TaskRuns, ClearError 5, TaskRuns]
      (Asleep, fst (ledInit example_led)) = Inr (pc, s')
    \<and> take (unat (ucDesNum s')) (aDescriptor s') = [des LED_GREEN 40, des LED_BLACK 40]"
proof -
  let ?es = "[TaskRuns, SetLowBattery True, ShowError 5, ClearError 2, TaskRuns, ClearError 5, TaskRuns]"
  have ok: "\<forall>x\<in>set (SetNetwork LED_NETWORK_READY # ?es). code_ok x" by (simp add: code_ok_def LED_ST_MASK_ERROR_CODE_def)
  have v: "led_status example_led = \<lparr>lv_error = False, lv_code = 0, lv_default = False, lv_low = False, lv_net = 0\<rparr>"
    by (simp add: example_led_def led_view_of_def)
  have "signal (fold view_op (SetNetwork LED_NETWORK_READY # ?es) (led_status example_led)) = [des LED_GREEN 40, des LED_BLACK 40]"
    by (simp add: v signal_def network_color_def led_status_bits led_networks)
  then show ?thesis
    using led_shows_status [OF _ ok, of example_led] by (auto simp: v)
qed

subsection \<open>The signal in time\<close>

definition lit :: "u16 \<Rightarrow> bool \<times> bool" where
  "lit c = (if c = LED_BLACK then (False, False) else if c = LED_RED then (True, False)
            else if c = LED_GREEN then (False, True) else (True, True))"

text \<open>A diode is on when its output is low.\<close>

definition lights :: "u32 \<Rightarrow> bool \<times> bool" where
  "lights r = (r AND LED_GPIO_RED = 0, r AND LED_GPIO_GREEN = 0)"

lemma lights_output [simp]: "lights (led_output c r) = lit c"
  by (simp add: lights_def led_output_def lit_def LED_GPIO_RED_def LED_GPIO_GREEN_def bit_split)

lemma output_other_pins: "led_output c r AND NOT (LED_GPIO_RED OR LED_GPIO_GREEN) = r AND NOT (LED_GPIO_RED OR LED_GPIO_GREEN)"
  by (simp add: led_output_def LED_GPIO_RED_def LED_GPIO_GREEN_def bit_split)

definition led_step :: "led \<Rightarrow> led \<times> prd_op list" where
  "led_step s = (case prdTask_LED s of Inl _ \<Rightarrow> (s, []) | Inr r \<Rightarrow> r)"

lemma led_step_ok:
  assumes "led_ok s"
  shows "led_ok (fst (led_step s))" and "led_status (fst (led_step s)) = led_status s"
    and "snd (led_step s) = [DelTask g_prdtskUpdateLED, AddTask g_prdtskUpdateLED (hold_ticks (signal (led_status s) ! unat (ucDesCurrent s)))]"
    and "unat (ucDesCurrent (fst (led_step s))) = (unat (ucDesCurrent s) + 1) mod length (signal (led_status s))"
    and "lights (REG_GPIOB_DAT (fst (led_step s))) = lit (usColor (signal (led_status s) ! unat (ucDesCurrent s)))"
proof -
  from prdTask_LED_ok [OF assms] obtain s' where s': "prdTask_LED s = Inr (s', [DelTask g_prdtskUpdateLED, AddTask g_prdtskUpdateLED
      (hold_ticks (signal (led_status s) ! unat (ucDesCurrent s)))])" "led_ok s'" "led_status s' = led_status s"
    "unat (ucDesCurrent s') = (unat (ucDesCurrent s) + 1) mod length (signal (led_status s))"
    "REG_GPIOB_DAT s' = led_output (usColor (signal (led_status s) ! unat (ucDesCurrent s))) (REG_GPIOB_DAT s)" by blast
  then have st: "fst (led_step s) = s'" by (simp add: led_step_def)
  show "led_ok (fst (led_step s))" "led_status (fst (led_step s)) = led_status s"
    "unat (ucDesCurrent (fst (led_step s))) = (unat (ucDesCurrent s) + 1) mod length (signal (led_status s))"
    "lights (REG_GPIOB_DAT (fst (led_step s))) = lit (usColor (signal (led_status s) ! unat (ucDesCurrent s)))"
    unfolding st using s' by (simp_all only: lights_output)
  show "snd (led_step s) = [DelTask g_prdtskUpdateLED, AddTask g_prdtskUpdateLED (hold_ticks (signal (led_status s) ! unat (ucDesCurrent s)))]"
    by (simp add: led_step_def s'(1))
qed

lemma own_reschedule:
  "own_ops h [DelTask h, AddTask h n] = [DelTask h, AddTask h n]" "reschedules h [DelTask h, AddTask h n]"
  "next_timeout h T [DelTask h, AddTask h n] = n"
  by (simp_all add: own_ops_def reschedules_def next_timeout_def)

interpretation led_task: timed_body g_prdtskUpdateLED led_step led_ok
proof
  show "led_ok s \<Longrightarrow> led_ok (fst (led_step s))" for s by (rule led_step_ok(1))
  show "led_ok s \<Longrightarrow> reschedules g_prdtskUpdateLED (snd (led_step s))" for s by (simp only: led_step_ok(3) own_reschedule)
qed

text \<open>Which lights were on from when: entry i of the signal from D on, at most G late, and the next entry after its time.\<close>

fun plays :: "led_des list \<Rightarrow> nat \<Rightarrow> nat \<Rightarrow> nat \<Rightarrow> (nat \<times> bool \<times> bool) list \<Rightarrow> nat \<Rightarrow> bool" where
  "plays ds G i D [] W = (W \<le> D)"
| "plays ds G i D ((a, l) # tr) W =
     (D \<le> a \<and> a \<le> D + G \<and> l = lit (usColor (ds ! i)) \<and> plays ds G ((i + 1) mod length ds) (a + hold_ticks (ds ! i)) tr W)"

definition lights_seen :: "(nat \<times> led) list \<Rightarrow> (nat \<times> bool \<times> bool) list" where
  "lights_seen tr = map (\<lambda>(a, s). (a, lights (REG_GPIOB_DAT (fst (led_step s))))) tr"

lemma on_time_plays:
  "led_ok s \<Longrightarrow> on_time g_prdtskUpdateLED led_step G T D s tr W
    \<Longrightarrow> plays (signal (led_status s)) G (unat (ucDesCurrent s)) D (lights_seen tr) W"
proof (induction tr arbitrary: s T D)
  case (Cons x tr)
  note st = led_step_ok [OF Cons.prems(1)]
  from Cons.prems(2) have o: "D \<le> fst x" "fst x \<le> D + G" "snd x = s"
    "on_time g_prdtskUpdateLED led_step G (hold_ticks (signal (led_status s) ! unat (ucDesCurrent s)))
       (fst x + hold_ticks (signal (led_status s) ! unat (ucDesCurrent s))) (fst (led_step s)) tr W"
    unfolding on_time.simps Let_def st(3) own_reschedule by blast+
  have "lights_seen (x # tr) = (fst x, lit (usColor (signal (led_status s) ! unat (ucDesCurrent s)))) # lights_seen tr"
    using o(3) st(5) by (simp add: lights_seen_def case_prod_beta)
  with Cons.IH [OF st(1) o(4)] o(1,2) show ?case unfolding st(2,4) by (simp only: plays.simps simp_thms)
qed (simp add: lights_seen_def)

text \<open>
  A change of the state is seen. When an operation changes the signal while the periodic thread waits, the LED plays the
  new signal from its beginning: the first colour one round later at the latest, then every colour for its time (or one round
  more), in order and over again, until the next change - whatever other tasks run in between.
\<close>

theorem led_plays_signal:
  assumes "led_ok s" and "code_ok e" and "e \<noteq> TaskRuns" and "snd (led_op e s) \<noteq> []"
    and "while_waiting r = as @ snd (led_op e s) @ bs" and "\<forall>a\<in>set bs. spares g_prdtskUpdateLED a"
    and "\<forall>h'. h' \<noteq> g_prdtskUpdateLED \<longrightarrow> (\<forall>a\<in>set (while_running r h'). spares g_prdtskUpdateLED a)"
    and "rounds_ok G (t_wake r) rs" and "\<forall>r\<in>set rs. others_spare g_prdtskUpdateLED r"
  shows "plays (signal (view_op e (led_status s))) G 0 (t_wake r)
    (lights_seen (fst (timed_run g_prdtskUpdateLED led_step rs (fst (led_op e s)) (snd (prdRun_round r p))))) (last_wake (t_wake r) rs)"
proof -
  let ?s = "fst (led_op e s)" and ?p = "snd (prdRun_round r p)"
  have s: "length (aDescriptor s) = LED_DES_NUM" "unat (lv_code (led_status s)) \<le> 9" using assms(1) unfolding led_ok_def by blast+
  from led_op_ok [OF s assms(2,3)] assms(1,4) have n: "led_ok ?s" "led_status ?s = view_op e (led_status s)"
    "snd (led_op e s) = [DelTask g_prdtskUpdateLED, AddTask g_prdtskUpdateLED 0]" "ucDesCurrent ?s = 0" by auto
  have w: "while_waiting r = as @ [DelTask g_prdtskUpdateLED, AddTask g_prdtskUpdateLED 0] @ bs" using assms(5) by (simp only: n(3))
  from round_added [OF w assms(6,7)] have p: "due_at g_prdtskUpdateLED 0 (t_wake r) ?p" "tLastCheck ?p = t_wake r" by simp_all
  have "tLastCheck ?p \<le> t_wake r" by (simp only: p(2) order_refl)
  from led_task.timeline [OF n(1) p(1) this _ assms(9), of G] assms(8) have
    "on_time g_prdtskUpdateLED led_step G 0 (t_wake r) ?s (fst (timed_run g_prdtskUpdateLED led_step rs ?s ?p)) (last_wake (t_wake r) rs)"
    unfolding p(2) by blast
  from on_time_plays [OF n(1) this] show ?thesis unfolding n(2,4) by simp
qed

definition ready_led :: led where
  "ready_led = fst (led_op (SetNetwork LED_NETWORK_READY) (fst (ledInit example_led)))"

lemma ready_led_ok: "led_ok ready_led" "led_status ready_led = \<lparr>lv_error = False, lv_code = 0, lv_default = False, lv_low = False, lv_net = 0x02000000\<rparr>"
proof -
  let ?i = "fst (ledInit example_led)"
  have i: "length (aDescriptor ?i) = LED_DES_NUM" "pTask ?i = None" "code_ok (SetNetwork LED_NETWORK_READY)"
    "led_status ?i = \<lparr>lv_error = False, lv_code = 0, lv_default = False, lv_low = False, lv_net = 0\<rparr>"
    by (simp_all add: ledInit_def example_led_def led_view_of_def code_ok_def)
  have "led_ok ready_led \<and> led_status ready_led = view_op (SetNetwork LED_NETWORK_READY) (led_status ?i)"
    using led_op_ok [OF i(1) _ i(3)] i(2,4) unfolding ready_led_def by simp
  then show "led_ok ready_led" "led_status ready_led = \<lparr>lv_error = False, lv_code = 0, lv_default = False, lv_low = False, lv_net = 0x02000000\<rparr>"
    unfolding i(4) by (simp_all add: LED_NETWORK_READY_def LED_ST_MASK_NETWORK_def)
qed

theorem led_plays_signal_witness:
  "plays [des LED_GREEN 40, des LED_BLACK 40] 70 0 5
    (lights_seen (fst (timed_run g_prdtskUpdateLED led_step
      [\<lparr>t_check = 5, t_wake = 6, while_waiting = [AddTask 9 1], while_running = (\<lambda>_. [])\<rparr>,
       \<lparr>t_check = 8, t_wake = 50, while_waiting = [], while_running = (\<lambda>_. [DelTask 9])\<rparr>] (fst (led_op (SetLowBattery True) ready_led))
      (snd (prdRun_round \<lparr>t_check = 0, t_wake = 5, while_waiting = snd (led_op (SetLowBattery True) ready_led), while_running = (\<lambda>_. [])\<rparr> (prdInit 0)))))) 50"
proof -
  let ?r = "\<lparr>t_check = 0, t_wake = 5, while_waiting = snd (led_op (SetLowBattery True) ready_led), while_running = (\<lambda>_. [])\<rparr>"
    and ?rs = "[\<lparr>t_check = 5, t_wake = 6, while_waiting = [AddTask 9 1], while_running = (\<lambda>_. [])\<rparr>,
       \<lparr>t_check = 8, t_wake = 50, while_waiting = [], while_running = (\<lambda>_. [DelTask 9])\<rparr>]"
  have c: "code_ok (SetLowBattery True)" by (simp add: code_ok_def)
  have sg: "signal (view_op (SetLowBattery True) (led_status ready_led)) = [des LED_GREEN 40, des LED_BLACK 40]"
    "signal (led_status ready_led) = [des LED_GREEN 0]"
    by (simp_all add: ready_led_ok(2) signal_def network_color_def led_networks)
  have ch: "snd (led_op (SetLowBattery True) ready_led) \<noteq> []"
  proof
    assume none: "snd (led_op (SetLowBattery True) ready_led) = []"
    have "pTask ready_led \<noteq> None" "length (aDescriptor ready_led) = LED_DES_NUM" "unat (lv_code (led_status ready_led)) \<le> 9"
      using ready_led_ok(1) by (auto simp: led_ok_def)
    from led_op_shows [OF this(3) c] obtain t where
      t: "led_op (SetLowBattery True) ready_led = ledShowState [des LED_GREEN 40, des LED_BLACK 40] t" "ucDesNum t = ucDesNum ready_led"
      unfolding sg by auto
    moreover have "unat (ucDesNum ready_led) = 1" using ready_led_ok(1) unfolding led_ok_def sg by simp
    then have "ucDesNum t \<noteq> 2" using t(2) by auto
    ultimately show False using none by (simp add: ledShowState_def LED_DES_NUM_def)
  qed
  have "plays (signal (view_op (SetLowBattery True) (led_status ready_led))) 70 0 (t_wake ?r)
      (lights_seen (fst (timed_run g_prdtskUpdateLED led_step ?rs (fst (led_op (SetLowBattery True) ready_led))
        (snd (prdRun_round ?r (prdInit 0)))))) (last_wake (t_wake ?r) ?rs)"
    by (rule led_plays_signal [OF ready_led_ok(1) c _ ch, of _ "[]" "[]"])
      (simp_all add: others_spare_def g_prdtskUpdateLED_def)
  then show ?thesis unfolding sg by simp
qed

end
