(* ===== verification/StatusTasks.thy ===== *)
theory StatusTasks
  imports StatusLed McuLink
begin

section \<open>The checks that drive the status LED (LibCamera/Src/PeriodTask_Check*.c)\<close>

text \<open>
  Battery, network, USB plug and suspending are watched by periodic tasks. The network check is a state machine whose state
  is the function it is registered with. What it measures, the bit rate of the video transmission, is a parameter. The
  suspend check returns at once: the camera is never suspended by it.
\<close>

definition g_prdtskCheckBattery :: nat where "g_prdtskCheckBattery = 2"
definition g_prdtskCheckNetwork :: nat where "g_prdtskCheckNetwork = 3"
definition g_prdtskCheckSuspend :: nat where "g_prdtskCheckSuspend = 4"
definition g_prdtskCheckUSB :: nat where "g_prdtskCheckUSB = 5"

lemmas task_handles = g_prdtskUpdateLED_def g_prdtskCheckBattery_def g_prdtskCheckNetwork_def g_prdtskCheckSuspend_def
  g_prdtskCheckUSB_def

definition SUSPEND_TIME_SEC :: nat where "SUSPEND_TIME_SEC = 30"

definition prdAddTask_CheckSuspend :: "prd_op list" where
  "prdAddTask_CheckSuspend = [AddTask g_prdtskCheckSuspend (SUSPEND_TIME_SEC * 100)]"

definition prdDelTask_CheckSuspend :: "prd_op list" where
  "prdDelTask_CheckSuspend = [DelTask g_prdtskCheckSuspend]"

definition prdReset_CheckSuspend :: "prd_op list" where
  "prdReset_CheckSuspend = prdDelTask_CheckSuspend @ prdAddTask_CheckSuspend"

definition prdTask_CheckSuspend :: "prd_op list" where
  "prdTask_CheckSuspend = []"

definition prdTask_CheckUSB :: "bool \<Rightarrow> prd_op list" where
  "prdTask_CheckUSB plugged = (if plugged then prdReset_CheckSuspend else [])"

definition prdAddTask_CheckUSB :: "prd_op list" where "prdAddTask_CheckUSB = [AddTask g_prdtskCheckUSB 100]"
definition prdDelTask_CheckUSB :: "prd_op list" where "prdDelTask_CheckUSB = [DelTask g_prdtskCheckUSB]"

subsection \<open>Battery\<close>

text \<open>
  The reading is what \<open>mcuGetBattery\<close> of the motor controller link gives: a level, and whether the battery is being charged,
  if that was set (the errors the link itself shows on the LED come before and are events of their own).
\<close>

definition prdTask_CheckBattery :: "u8 \<times> bool option \<Rightarrow> led \<Rightarrow> (led \<times> prd_op list) checked" where
  "prdTask_CheckBattery reading s =
     (if fst reading \<le> 0x71
      then case snd reading of None \<Rightarrow> Inl Uninitialised | Some bOnCharge \<Rightarrow> Inr (ledSetLowBattery (\<not> bOnCharge) s)
      else Inr (ledSetLowBattery False s))"

definition check_battery :: "(u8 list \<Rightarrow> uart_line) \<Rightarrow> u8 list \<Rightarrow> mcu_link \<times> led \<Rightarrow> (mcu_link \<times> led \<times> prd_op list) checked" where
  "check_battery M stack st =
     (case st of (m, s) \<Rightarrow>
        bnd (mcuGetBattery M stack False True m) (\<lambda>(level, charge, m').
          bnd (prdTask_CheckBattery (level, charge) s) (\<lambda>(s', ops). Inr (m', s', ops))))"

definition prdAddTask_CheckBattery :: "prd_op list" where "prdAddTask_CheckBattery = [AddTask g_prdtskCheckBattery 200]"
definition prdDelTask_CheckBattery :: "prd_op list" where "prdDelTask_CheckBattery = [DelTask g_prdtskCheckBattery]"

subsection \<open>Network\<close>

datatype net_check = NoActive | TryConnect | TryConnectOver | Active

definition set_task :: "nat \<Rightarrow> prd_op list" where
  "set_task n = [DelTask g_prdtskCheckNetwork, AddTask g_prdtskCheckNetwork n]"

fun prdTask_CheckNetwork :: "net_check \<Rightarrow> u32 \<Rightarrow> led \<Rightarrow> net_check \<times> led \<times> prd_op list" where
  "prdTask_CheckNetwork NoActive speed s =
     (if speed > 0
      then case ledSetNetwork LED_NETWORK_TRY_CONNECT s of (s', ops) \<Rightarrow> (TryConnect, s', ops @ set_task 0)
      else (NoActive, s, []))"
| "prdTask_CheckNetwork TryConnect speed s = (TryConnectOver, s, set_task 400 @ prdReset_CheckSuspend)"
| "prdTask_CheckNetwork TryConnectOver speed s =
     (case ledSetNetwork LED_NETWORK_STREAMING s of (s', ops) \<Rightarrow> (Active, s', ops @ set_task 120))"
| "prdTask_CheckNetwork Active speed s =
     (if speed = 0
      then case ledSetNetwork LED_NETWORK_READY s of (s', ops) \<Rightarrow> (NoActive, s', ops @ set_task 120)
      else (Active, s, prdReset_CheckSuspend))"

definition prdAddTask_CheckNetwork :: "prd_op list" where
  "prdAddTask_CheckNetwork = [AddTask g_prdtskCheckNetwork 120]"

definition prdDelTask_CheckNetwork :: "prd_op list" where
  "prdDelTask_CheckNetwork = [DelTask g_prdtskCheckNetwork]"

text \<open>As a timed state machine: the n-th run sees the speed \<open>speed n\<close>.\<close>

definition net_step :: "(nat \<Rightarrow> u32) \<Rightarrow> nat \<times> net_check \<times> led \<Rightarrow> (nat \<times> net_check \<times> led) \<times> prd_op list" where
  "net_step speed st =
     (case st of (n, c, s) \<Rightarrow> case prdTask_CheckNetwork c (speed n) s of (c', s', ops) \<Rightarrow> ((n + 1, c', s'), ops))"

text \<open>What it amounts to: a timed automaton over the network part of the LED's state.\<close>

fun net_next :: "net_check \<Rightarrow> bool \<Rightarrow> net_check" where
  "net_next NoActive traffic = (if traffic then TryConnect else NoActive)"
| "net_next TryConnect traffic = TryConnectOver"
| "net_next TryConnectOver traffic = Active"
| "net_next Active traffic = (if traffic then Active else NoActive)"

fun net_wait :: "net_check \<Rightarrow> nat" where
  "net_wait TryConnect = 0"
| "net_wait TryConnectOver = 400"
| "net_wait _ = 120"

fun net_light :: "net_check \<Rightarrow> u32" where
  "net_light NoActive = LED_NETWORK_READY"
| "net_light Active = LED_NETWORK_STREAMING"
| "net_light _ = LED_NETWORK_TRY_CONNECT"

definition net_ok :: "nat \<times> net_check \<times> led \<Rightarrow> bool" where
  "net_ok st = (case st of (n, c, s) \<Rightarrow> led_ok s \<and> lv_net (led_status s) = net_light c)"

lemma led_ops_spare: "h \<noteq> g_prdtskUpdateLED \<Longrightarrow> snd (ledSetNetwork n s) = [] \<or> snd (ledSetNetwork n s) = [DelTask g_prdtskUpdateLED, AddTask g_prdtskUpdateLED 0]
  \<Longrightarrow> own_ops h (snd (ledSetNetwork n s)) = []"
  by (auto simp: own_ops_def)

lemma ledSetNetwork_ok:
  assumes "led_ok s"
  shows "led_ok (fst (ledSetNetwork n s))" and "lv_net (led_status (fst (ledSetNetwork n s))) = n AND LED_ST_MASK_NETWORK"
    and "own_ops g_prdtskCheckNetwork (snd (ledSetNetwork n s)) = []"
proof -
  have s: "length (aDescriptor s) = LED_DES_NUM" "unat (lv_code (led_status s)) \<le> 9" using assms unfolding led_ok_def by blast+
  have c: "code_ok (SetNetwork n)" by (simp add: code_ok_def)
  note o = led_op_ok [OF s c _ disjI2 [OF assms], simplified]
  show "led_ok (fst (ledSetNetwork n s))" using o by blast
  show "lv_net (led_status (fst (ledSetNetwork n s))) = n AND LED_ST_MASK_NETWORK" using o by simp
  show "own_ops g_prdtskCheckNetwork (snd (ledSetNetwork n s)) = []"
    by (rule led_ops_spare) (use o in \<open>auto simp: task_handles\<close>)
qed

lemma own_ops_append: "own_ops h (xs @ ys) = own_ops h xs @ own_ops h ys"
  by (simp add: own_ops_def)

lemma own_set_task: "own_ops g_prdtskCheckNetwork (set_task n) = set_task n"
  "own_ops g_prdtskCheckNetwork prdReset_CheckSuspend = []"
  by (simp_all add: own_ops_def set_task_def prdReset_CheckSuspend_def prdDelTask_CheckSuspend_def prdAddTask_CheckSuspend_def task_handles)

lemma net_step_ok:
  assumes "led_ok s" and "lv_net (led_status s) = net_light c"
  shows "fst (fst (net_step speed (n, c, s))) = n + 1"
    and "fst (snd (fst (net_step speed (n, c, s)))) = net_next c (speed n > 0)"
    and "led_ok (snd (snd (fst (net_step speed (n, c, s)))))"
    and "lv_net (led_status (snd (snd (fst (net_step speed (n, c, s)))))) = net_light (net_next c (speed n > 0))"
    and "own_ops g_prdtskCheckNetwork (snd (net_step speed (n, c, s)))
       = (if net_next c (speed n > 0) = c then [] else set_task (net_wait (net_next c (speed n > 0))))"
proof -
  note l = ledSetNetwork_ok [OF assms(1)]
  have m: "LED_NETWORK_TRY_CONNECT AND LED_ST_MASK_NETWORK = LED_NETWORK_TRY_CONNECT" "LED_NETWORK_READY AND LED_ST_MASK_NETWORK = LED_NETWORK_READY"
    "LED_NETWORK_STREAMING AND LED_ST_MASK_NETWORK = LED_NETWORK_STREAMING"
    by (simp_all add: led_networks LED_ST_MASK_NETWORK_def)
  have nil: "own_ops g_prdtskCheckNetwork [] = []" by (simp add: own_ops_def)
  show "fst (fst (net_step speed (n, c, s))) = n + 1" "fst (snd (fst (net_step speed (n, c, s)))) = net_next c (speed n > 0)"
    "led_ok (snd (snd (fst (net_step speed (n, c, s)))))"
    "lv_net (led_status (snd (snd (fst (net_step speed (n, c, s)))))) = net_light (net_next c (speed n > 0))"
    "own_ops g_prdtskCheckNetwork (snd (net_step speed (n, c, s)))
       = (if net_next c (speed n > 0) = c then [] else set_task (net_wait (net_next c (speed n > 0))))"
    using l m assms by (cases c; auto simp: net_step_def case_prod_beta own_ops_append own_set_task nil word_neq_0_conv)+
qed

interpretation net_task: timed_body g_prdtskCheckNetwork "net_step speed" net_ok for speed
proof
  fix st assume "net_ok st"
  moreover obtain n c s where st: "st = (n, c, s)" by (cases st)
  ultimately have "led_ok s" "lv_net (led_status s) = net_light c" by (simp_all add: net_ok_def)
  note o = net_step_ok [OF this, of speed n]
  show "net_ok (fst (net_step speed st))" using o(2-4) by (simp add: net_ok_def st case_prod_beta)
  show "reschedules g_prdtskCheckNetwork (snd (net_step speed st))"
    unfolding reschedules_def st o(5) by (simp add: set_task_def)
qed

text \<open>The lights a network check shows: due at D in state c at its n-th run, in rounds no longer than G, up to W.\<close>

fun watches :: "(nat \<Rightarrow> u32) \<Rightarrow> nat \<Rightarrow> net_check \<Rightarrow> nat \<Rightarrow> nat \<Rightarrow> (nat \<times> u32) list \<Rightarrow> nat \<Rightarrow> bool" where
  "watches speed G c n D [] W = (W \<le> D)"
| "watches speed G c n D ((a, l) # tr) W =
     (let c' = net_next c (speed n > 0)
      in D \<le> a \<and> a \<le> D + G \<and> l = net_light c' \<and> watches speed G c' (n + 1) (a + net_wait c') tr W)"

definition nets_shown :: "(nat \<Rightarrow> u32) \<Rightarrow> (nat \<times> nat \<times> net_check \<times> led) list \<Rightarrow> (nat \<times> u32) list" where
  "nets_shown speed tr = map (\<lambda>(a, st). (a, lv_net (led_status (snd (snd (fst (net_step speed st))))))) tr"

lemma on_time_watches:
  "led_ok s \<Longrightarrow> lv_net (led_status s) = net_light c \<Longrightarrow> on_time g_prdtskCheckNetwork (net_step speed) G (net_wait c) D (n, c, s) tr W
    \<Longrightarrow> watches speed G c n D (nets_shown speed tr) W"
proof (induction tr arbitrary: n c s D)
  case (Cons x tr)
  note o = net_step_ok [OF Cons.prems(1,2), of speed n]
  let ?c = "net_next c (speed n > 0)" and ?st = "fst (net_step speed (n, c, s))"
  have st: "?st = (n + 1, ?c, snd (snd ?st))" using o(1,2) by (simp add: prod_eq_iff)
  have w: "next_timeout g_prdtskCheckNetwork (net_wait c) (snd (net_step speed (n, c, s))) = net_wait ?c"
    unfolding next_timeout_def o(5) by (simp add: set_task_def)
  have h: "D \<le> fst x" "fst x \<le> D + G" "snd x = (n, c, s)"
    "on_time g_prdtskCheckNetwork (net_step speed) G (net_wait ?c) (fst x + net_wait ?c) (n + 1, ?c, snd (snd ?st)) tr W"
    using Cons.prems(3) unfolding on_time.simps Let_def w st [symmetric] by blast+
  have "nets_shown speed (x # tr) = (fst x, net_light ?c) # nets_shown speed tr"
    using h(3) o(4) by (simp add: nets_shown_def case_prod_beta)
  with Cons.IH [OF o(3,4) h(4)] h(1,2) show ?case by (simp only: watches.simps Let_def simp_thms)
qed (simp add: nets_shown_def)

text \<open>
  The network light follows the traffic. Whatever the measured speeds, the camera shows "trying to connect" when a check
  first finds traffic, "streaming" 400 ticks later, and "ready" at the first check, 120 ticks after another, that finds none;
  each check comes when it is due or at most one round late, whatever other tasks do in between.
\<close>

theorem network_light_follows:
  assumes "led_ok s" and "lv_net (led_status s) = net_light c" and "due_at g_prdtskCheckNetwork (net_wait c) D p"
    and "tLastCheck p \<le> D" and "rounds_ok G (tLastCheck p) rs" and "\<forall>r\<in>set rs. others_spare g_prdtskCheckNetwork r"
  shows "watches speed G c 0 D (nets_shown speed (fst (timed_run g_prdtskCheckNetwork (net_step speed) rs (0, c, s) p)))
    (last_wake (tLastCheck p) rs)"
proof -
  have "net_ok (0, c, s)" using assms(1,2) by (simp add: net_ok_def)
  from net_task.timeline [OF this assms(3-6)] on_time_watches [OF assms(1,2)] show ?thesis by blast
qed

theorem network_light_follows_witness:
  "watches (\<lambda>n. if n = 0 then 9 else 0) 500 NoActive 0 120
     (nets_shown (\<lambda>n. if n = 0 then 9 else 0) (fst (timed_run g_prdtskCheckNetwork (net_step (\<lambda>n. if n = 0 then 9 else 0))
        [\<lparr>t_check = 1, t_wake = 121, while_waiting = [], while_running = (\<lambda>_. [AddTask 1 0])\<rparr>,
         \<lparr>t_check = 122, t_wake = 130, while_waiting = [], while_running = (\<lambda>_. [])\<rparr>,
         \<lparr>t_check = 130, t_wake = 540, while_waiting = [], while_running = (\<lambda>_. [])\<rparr>] (0, NoActive, ready_led)
        \<lparr>g_lPrdTaskHeader = [\<lparr>handle = 3, tTimeout = 120, tRemain = 120\<rparr>], prd_local = [], g_lPrdTaskAdd = [], tLastCheck = 0, relinked = False\<rparr>))) 540"
proof -
  let ?rs = "[\<lparr>t_check = 1, t_wake = 121, while_waiting = [], while_running = (\<lambda>_. [AddTask 1 0])\<rparr>,
      \<lparr>t_check = 122, t_wake = 130, while_waiting = [], while_running = (\<lambda>_. [])\<rparr>,
      \<lparr>t_check = 130, t_wake = 540, while_waiting = [], while_running = (\<lambda>_. [])\<rparr>]"
    and ?p = "\<lparr>g_lPrdTaskHeader = [\<lparr>handle = 3, tTimeout = 120, tRemain = 120\<rparr>], prd_local = [], g_lPrdTaskAdd = [], tLastCheck = 0, relinked = False\<rparr>"
  have l: "lv_net (led_status ready_led) = net_light NoActive" by (simp add: ready_led_ok(2) LED_NETWORK_READY_def)
  have d: "due_at g_prdtskCheckNetwork (net_wait NoActive) 120 ?p" by (simp add: due_at_def task_handles)
  have o: "rounds_ok 500 (tLastCheck ?p) ?rs" "\<forall>r\<in>set ?rs. others_spare g_prdtskCheckNetwork r"
    by (simp_all add: others_spare_def task_handles)
  from network_light_follows [OF ready_led_ok(1) l d _ o, of "\<lambda>n. if n = 0 then 9 else 0"] show ?thesis by simp
qed

subsection \<open>The battery light\<close>

lemma report_length: "length report_cmd = 22"
  by (simp add: report_cmd_def)

text \<open>The list of the last readings changes nowhere else.\<close>

lemma error_keeps_readings [simp]: "s_aucBattery (mcuSendCommand_Error m) = s_aucBattery m" "s_aucBattery (recv_end b m) = s_aucBattery m"
  by (simp_all add: mcuSendCommand_Error_def recv_end_def mcuReportError_def Let_def)

lemma body_keeps_readings [simp]: "s_aucBattery (snd (snd (snd (recv_body buf n m)))) = s_aucBattery m"
  by (simp add: recv_body_def Let_def split: prod.split)

lemma recv_keeps_readings [simp]: "s_aucBattery (snd (snd (mcuRecv buf m))) = s_aucBattery m"
proof -
  have "s_aucBattery (snd (snd (case recv_body b n t of (x, y, z, w) \<Rightarrow> (k + y, z, recv_end x w)))) = s_aucBattery t" for b n t k
    using body_keeps_readings [of b n t] by (simp add: case_prod_beta)
  then show ?thesis by (simp add: mcuRecv_def Let_def case_prod_beta)
qed

lemma pending_keeps_readings [simp]: "s_aucBattery (read_pending m) = s_aucBattery m"
  by (simp add: read_pending_def)

lemma send_keeps_readings: "mcuSendCommand M c n buf m = Inr (rt, buf', m') \<Longrightarrow> s_aucBattery m' = s_aucBattery m"
proof -
  assume "mcuSendCommand M c n buf m = Inr (rt, buf', m')"
  then obtain m1 where m1: "mcuSend M c n (read_pending m) = Inr m1" "mcuRecv buf m1 = (rt, buf', m')"
    by (auto simp: mcuSendCommand_def bnd_Inr)
  from m1(1) have "s_aucBattery m1 = s_aucBattery m"
    by (auto simp: mcuSend_def mcuSendCommand_Error_def mcuReportError_def Let_def split: if_splits)
  then show ?thesis using recv_keeps_readings [of buf m1] m1(2) by simp
qed

lemma mcuGetReport_ok:
  assumes "\<forall>c. framed (M c)" and "link_ok M m" and "length stack = 32" and "16 \<le> length (answer M report_cmd)"
  shows "\<exists>m'. mcuGetReport M stack False m = Inr (Some (answer M report_cmd ! 14, answer M report_cmd ! 15), m')
    \<and> s_aucBattery m' = s_aucBattery m"
proof -
  let ?a = "answer M report_cmd"
  obtain rt buf' m' where r: "mcuSendCommand M report_cmd (length report_cmd) stack m = Inr (rt, buf', m')"
    using mcuSendCommand_defined [of report_cmd "length report_cmd"] report_length by fastforce
  from mcuSendCommand_ok [OF assms(2,1) _ r] assms(3) have
    b: "rt = min 32 (length ?a)" "buf' = blit 0 (take 32 ?a) stack" by simp_all
  then have "16 \<le> rt" "buf' ! 14 = ?a ! 14" "buf' ! 15 = ?a ! 15" using assms(3,4) by (simp_all add: nth_blit)
  then show ?thesis using r send_keeps_readings [OF r] by (simp add: mcuGetReport_def Let_def)
qed

text \<open>
  The battery light tells the truth, slowly: if the controller answers, then after a check the light is on exactly if none of
  the last five readings, this one included, is above 0x71 and the battery is not being charged; the rest of the state stays.
\<close>

theorem battery_light:
  assumes "\<forall>c. framed (M c)" and "link_ok M m" and "length stack = 32" and "16 \<le> length (answer M report_cmd)"
    and "led_ok s" and "length (s_aucBattery m) = 5"
  shows "\<exists>m' s' ops. check_battery M stack (m, s) = Inr (m', s', ops)
    \<and> led_status s' = (led_status s)\<lparr>lv_low := (\<forall>b\<in>set (answer M report_cmd ! 14 # take 4 (s_aucBattery m)). b \<le> 0x71)
        \<and> answer M report_cmd ! 15 AND 0x50 = 0\<rparr>"
proof -
  let ?a = "answer M report_cmd" and ?bats = "answer M report_cmd ! 14 # butlast (s_aucBattery m)"
  from mcuGetReport_ok [OF assms(1-4)] obtain m1 where
    m1: "mcuGetReport M stack False m = Inr (Some (?a ! 14, ?a ! 15), m1)" "s_aucBattery m1 = s_aucBattery m" by blast
  have max: "foldl (\<lambda>ret c. if c > ret then c else ret) x bs \<le> y \<longleftrightarrow> x \<le> y \<and> (\<forall>b\<in>set bs. b \<le> y)" for x y :: u8 and bs
    by (induction bs arbitrary: x) auto
  have bats: "butlast (s_aucBattery m) = take 4 (s_aucBattery m)" using assms(6) by (simp add: butlast_conv_take)
  have low: "max_n ?bats \<le> 0x71 \<longleftrightarrow> (\<forall>b\<in>set (?a ! 14 # take 4 (s_aucBattery m)). b \<le> 0x71)"
    unfolding max_n_def max bats by simp
  have "?a ! 15 AND 0x40 = (?a ! 15 AND 0x50) AND 0x40" by (simp add: and.assoc)
  then have ch: "?a ! 15 AND 0x50 = 0 \<Longrightarrow> ?a ! 15 AND 0x40 = 0" by simp
  let ?low = "(\<forall>b\<in>set (?a ! 14 # take 4 (s_aucBattery m)). b \<le> 0x71) \<and> ?a ! 15 AND 0x50 = 0"
  have s: "length (aDescriptor s) = LED_DES_NUM" "unat (lv_code (led_status s)) \<le> 9" using assms(5) unfolding led_ok_def by blast+
  have c: "code_ok (SetLowBattery ?low)" by (simp add: code_ok_def)
  have "led_status (fst (ledSetLowBattery ?low s)) = view_op (SetLowBattery ?low) (led_status s)"
    using led_op_ok [OF s c _ disjI2 [OF assms(5)]] unfolding led_op.simps by blast
  moreover have "check_battery M stack (m, s)
      = Inr (m1\<lparr>s_aucBattery := ?bats\<rparr>, fst (ledSetLowBattery ?low s), snd (ledSetLowBattery ?low s))"
  proof (cases "\<forall>b\<in>set (?a ! 14 # take 4 (s_aucBattery m)). b \<le> 0x71")
    case True
    then have "max_n ?bats \<le> 0x71" by (simp only: low)
    with True ch show ?thesis by (cases "?a ! 15 AND 0x50 = 0") (simp_all add: check_battery_def mcuGetBattery_def m1 prdTask_CheckBattery_def Let_def case_prod_beta)
  next
    case False
    then have "\<not> max_n ?bats \<le> 0x71" by (simp only: low not_False_eq_True)
    moreover have "?low = False" using False by blast
    ultimately show ?thesis unfolding \<open>?low = False\<close> by (simp add: check_battery_def mcuGetBattery_def m1 prdTask_CheckBattery_def Let_def case_prod_beta)
  qed
  ultimately show ?thesis
    by (intro exI [of _ "m1\<lparr>s_aucBattery := ?bats\<rparr>"] exI [of _ "fst (ledSetLowBattery ?low s)"] exI [of _ "snd (ledSetLowBattery ?low s)"])
      (simp only: prod.collapse view_op.simps simp_thms)
qed

definition reporting_mcu :: "u8 list \<Rightarrow> uart_line" where
  "reporting_mcu c = map Some (frame_with (replicate 12 0 @ [0x70, 0x00]) [0x80, 0, 0xAA])"

lemma reporting_mcu_framed: "framed (reporting_mcu c)"
  unfolding reporting_mcu_def framed_def
  by (intro exI [of _ "replicate 12 0 @ [0x70, 0x00]"] exI [of _ "[0x80, 0, 0xAA :: u8]"]) simp

theorem battery_light_witness:
  "\<exists>m' s' ops. check_battery reporting_mcu (replicate 32 0) (idle_link, ready_led) = Inr (m', s', ops)
     \<and> signal (led_status s') = [des LED_GREEN 40, des LED_BLACK 40]"
proof -
  have a: "answer reporting_mcu report_cmd = [0x55, 14, 0, 0, 0, 0, 0, 0, 0, 0, 0, 0, 0, 0, 0x70, 0x00, 0x80, 0, 0xAA]"
    by (simp add: answer_def reporting_mcu_def frame_with_def numeral_eq_Suc)
  have b: "s_aucBattery idle_link = [0, 0, 0, 0, 0]" by (simp add: idle_link_def)
  from battery_light [OF _ idle_link_ok _ _ ready_led_ok(1), of reporting_mcu "replicate 32 0"] reporting_mcu_framed obtain m' s' ops where
    r: "check_battery reporting_mcu (replicate 32 0) (idle_link, ready_led) = Inr (m', s', ops)"
    and s': "led_status s' = (led_status ready_led)\<lparr>lv_low := True\<rparr>"
    unfolding a b by auto
  have "signal (led_status s') = [des LED_GREEN 40, des LED_BLACK 40]"
    unfolding s' by (simp add: ready_led_ok(2) signal_def network_color_def led_networks)
  with r show ?thesis by blast
qed

text \<open>
  When the controller does not answer, \<open>mcuGetBattery\<close> returns 0 without saying whether the battery is being charged, and the
  check, for which 0 is low, goes on to read its uninitialised variable.
\<close>

theorem battery_unanswered:
  assumes "\<not> g_bSendMCU m" and "line m = []" and "M report_cmd = []" and "length stack = 32"
  shows "check_battery M stack (m, s) = Inl Uninitialised"
proof -
  have p: "read_pending m = m" using assms(1) by (simp add: read_pending_def)
  obtain m1 where m1: "mcuSend M report_cmd 22 m = Inr m1" "line m1 = []"
    using assms(2,3) by (auto simp: mcuSend_def report_length mcuSendCommand_Error_def mcuReportError_def Let_def)
  have "\<exists>buf m2. mcuRecv stack m1 = (0, buf, m2)" using assms(4) m1(2) by (simp add: mcuRecv_def numeral_eq_Suc Let_def)
  then obtain m2 where "mcuGetReport M stack False m = Inr (None, m2)"
    using m1(1) by (auto simp: mcuGetReport_def mcuSendCommand_def p report_length)
  then show ?thesis by (simp add: check_battery_def mcuGetBattery_def prdTask_CheckBattery_def)
qed

theorem battery_unanswered_witness: "check_battery (\<lambda>_. []) (replicate 32 0) (idle_link, ready_led) = Inl Uninitialised"
  by (rule battery_unanswered) (simp_all add: idle_link_def)

end
