(* ===== verification/FlashFiles.thy ===== *)
theory FlashFiles
  imports FirmwareUpload
begin

section \<open>Files appended to the firmware (SPI/Src/flash_file.c)\<close>

text \<open>
  A firmware image may carry a table of files behind the program. At boot \<open>Read_FlashFile\<close> finds it by a mark near the end of
  what was uploaded and copies it to memory; \<open>ffGetFile\<close> looks a name up by binary search (\<open>bsearch\<close> and \<open>strcmp\<close> of the eCos
  library). Sizes and counts in the image are not checked: reading beyond the copy is \<open>OutOfBounds\<close> here. A header is its
  offset in the copy.
\<close>

definition MAGIC_APPENDING :: u32 where
  "MAGIC_APPENDING = 0x4150464C"

definition le32 :: "u32 \<Rightarrow> u8 list" where
  "le32 w = put_u32 0 w [0, 0, 0, 0]"

definition FFILE_HEADER_SIZE :: nat where
  "FFILE_HEADER_SIZE = 4 + 4 + 128"

definition flash_read :: "u32 \<Rightarrow> u32 \<Rightarrow> usi \<Rightarrow> u8 list checked" where
  "flash_read addr len s = (case usiMyRead addr len s of None \<Rightarrow> Inl Hang | Some bs \<Rightarrow> Inr bs)"

text \<open>The result and \<open>FILE_BUF\<close>; \<open>mem n\<close> says whether the heap has room for n bytes. The last loop prints four bytes.\<close>

definition Read_FlashFile :: "(u32 \<Rightarrow> bool) \<Rightarrow> usi \<Rightarrow> u8 list option \<Rightarrow> (int \<times> u8 list option) checked" where
  "Read_FlashFile mem s FILE_BUF =
     bnd (flash_read 4 4 s) (\<lambda>t. let totallen = get_u32 0 t in
     bnd (flash_read (totallen - 12) 4 s) (\<lambda>endflags.
       if endflags \<noteq> [87, 66, 0x5A, 0xA5] then Inr (- 1, FILE_BUF)
       else bnd (flash_read (totallen - 8) 4 s) (\<lambda>b.
         let binlen = get_u32 0 b; filelen = totallen - 16 - binlen - 12
         in if \<not> mem filelen then Inr (- 1, None)
            else bnd (flash_read (binlen + 16) filelen s) (\<lambda>buf.
                   if length buf < 4 then Inl OutOfBounds else Inr (0, Some buf)))))"

subsection \<open>Searching\<close>

fun strcmp :: "u8 list \<Rightarrow> u8 list \<Rightarrow> int checked" where
  "strcmp s1 [] = Inl OutOfBounds"
| "strcmp [] (c # s2) = Inr (- int (unat c))"
| "strcmp (k # s1) (c # s2) = (if k = c then strcmp s1 s2 else Inr (int (unat k) - int (unat c)))"

partial_function (option) bsearch_loop :: "(u32 \<Rightarrow> int checked) \<Rightarrow> u32 \<Rightarrow> u32 \<Rightarrow> u32 option checked option" where
  "bsearch_loop compar lower upper =
     (if lower < upper
      then let index = (lower + upper) div 2
           in case compar index of
                Inl e \<Rightarrow> Some (Inl e)
              | Inr result \<Rightarrow>
                  if result < 0 then bsearch_loop compar lower index
                  else if result > 0 then bsearch_loop compar (index + 1) upper
                  else Some (Inr (Some index))
      else Some (Inr None))"

definition bsearch :: "u32 \<Rightarrow> (u32 \<Rightarrow> int checked) \<Rightarrow> u32 option checked option" where
  "bsearch nmemb compar = (if nmemb = 0 then Some (Inr None) else bsearch_loop compar 0 nmemb)"

text \<open>The position of entry \<open>index\<close>, as the library computes it in 32 bits.\<close>

definition entry_pos :: "u32 \<Rightarrow> nat" where
  "entry_pos index = 8 + unat (index * of_nat FFILE_HEADER_SIZE)"

definition ffSearch :: "u8 list \<Rightarrow> u8 list \<Rightarrow> u32 \<Rightarrow> int checked" where
  "ffSearch buf pcFileName index = strcmp pcFileName (drop (entry_pos index + 8) buf)"

definition ffGetFile :: "u8 list option \<Rightarrow> u8 list \<Rightarrow> nat option checked option" where
  "ffGetFile FILE_BUF pcFileName =
     (case FILE_BUF of
        None \<Rightarrow> Some (Inr None)
      | Some buf \<Rightarrow>
          if length buf < 4 then Some (Inl OutOfBounds)
          else if take 4 buf \<noteq> le32 MAGIC_APPENDING then Some (Inr None)
          else if length buf < 8 then Some (Inl OutOfBounds)
          else map_option (\<lambda>r. bnd r (\<lambda>i. Inr (map_option entry_pos i))) (bsearch (get_u32 4 buf) (ffSearch buf pcFileName)))"

text \<open>Where the contents of a file begin, and how long they are.\<close>

definition ffGetFilePtr :: "u8 list option \<Rightarrow> nat option \<Rightarrow> nat option checked" where
  "ffGetFilePtr FILE_BUF pHeader =
     (case (FILE_BUF, pHeader) of
        (Some buf, Some h) \<Rightarrow> if length buf < h + 4 then Inl OutOfBounds else Inr (Some (h + unat (get_u32 h buf)))
      | _ \<Rightarrow> Inr None)"

definition ffGetFileSize :: "u8 list option \<Rightarrow> nat option \<Rightarrow> u32 checked" where
  "ffGetFileSize FILE_BUF pHeader =
     (case (FILE_BUF, pHeader) of
        (Some buf, Some h) \<Rightarrow> if length buf < h + 8 then Inl OutOfBounds else Inr (get_u32 (h + 4) buf)
      | _ \<Rightarrow> Inr 0)"

subsection \<open>Binary search finds what there is\<close>

text \<open>
  A table of n entries in increasing order: \<open>ord i\<close> is how the key compares with entry i. Wherever the key lies, it is
  greater than what is before and smaller than what is behind.
\<close>

locale search_table =
  fixes compar :: "u32 \<Rightarrow> int checked" and n :: nat and ord :: "nat \<Rightarrow> int"
  assumes few: "n < 2 ^ 31"
    and compar_ord: "i < n \<Longrightarrow> compar (of_nat i) = Inr (ord i)"
    and increasing: "i < j \<Longrightarrow> j < n \<Longrightarrow> ord i \<le> 0 \<Longrightarrow> ord j < 0"
begin

lemma found_once: "i < n \<Longrightarrow> j < n \<Longrightarrow> ord i = 0 \<Longrightarrow> ord j = 0 \<Longrightarrow> i = j"
  using increasing [of i j] increasing [of j i] by (cases i j rule: linorder_cases) auto

lemma loop_finds:
  assumes "lower \<le> upper" and "upper \<le> n" and "\<forall>i<lower. 0 < ord i" and "\<forall>i. upper \<le> i \<longrightarrow> i < n \<longrightarrow> ord i < 0"
  shows "(\<exists>i<n. ord i = 0 \<and> bsearch_loop compar (of_nat lower) (of_nat upper) = Some (Inr (Some (of_nat i))))
    \<or> (\<forall>i<n. ord i \<noteq> 0) \<and> bsearch_loop compar (of_nat lower) (of_nat upper) = Some (Inr None)"
  using assms
proof (induction "upper - lower" arbitrary: lower upper rule: less_induct)
  case less
  have un: "unat (of_nat k :: u32) = k" if "k \<le> n + n" for k using few that by (simp add: unat_of_nat)
  show ?case
  proof (cases "lower < upper")
    case True
    let ?mid = "(lower + upper) div 2"
    have m: "lower \<le> ?mid" "?mid < upper" using True by simp_all
    have lt: "(of_nat lower :: u32) < of_nat upper" using True less.prems by (simp add: word_less_nat_alt un)
    have "unat (of_nat lower + of_nat upper :: u32) = lower + upper"
      using un [of "lower + upper"] less.prems by simp
    then have idx: "(of_nat lower + of_nat upper) div (2 :: u32) = of_nat ?mid"
      using m less.prems by (intro word_unat_eqI) (simp add: unat_div un)
    have c: "compar (of_nat ?mid) = Inr (ord ?mid)" using m less.prems by (intro compar_ord) simp
    have unf: "bsearch_loop compar (of_nat lower) (of_nat upper) =
        (if ord ?mid < 0 then bsearch_loop compar (of_nat lower) (of_nat ?mid)
         else if ord ?mid > 0 then bsearch_loop compar (of_nat (?mid + 1)) (of_nat upper)
         else Some (Inr (Some (of_nat ?mid))))"
      by (subst bsearch_loop.simps) (simp add: lt idx c add.commute)
    consider "ord ?mid < 0" | "ord ?mid > 0" | "ord ?mid = 0" by linarith
    then show ?thesis
    proof cases
      case 1
      have "\<forall>i. ?mid \<le> i \<longrightarrow> i < n \<longrightarrow> ord i < 0" using 1 increasing [of ?mid] by (metis le_neq_implies_less less_imp_le)
      from less.hyps [OF _ m(1) _ less.prems(3) this] m less.prems(2) 1 show ?thesis unfolding unf by simp
    next
      case 2
      have "0 < ord i" if "i < ?mid + 1" for i
      proof (rule ccontr)
        assume "\<not> 0 < ord i"
        moreover from this have "i \<noteq> ?mid" using 2 by auto
        ultimately show False using increasing [of i ?mid] that 2 m less.prems(2) by simp
      qed
      then have "\<forall>i<?mid + 1. 0 < ord i" by blast
      from less.hyps [OF _ _ less.prems(2) this less.prems(4)] m 2 show ?thesis unfolding unf by simp
    next
      case 3
      then show ?thesis unfolding unf using m less.prems(2) by (intro disjI1 exI [of _ ?mid]) simp
    qed
  next
    case False
    then have "lower = upper" using less.prems by simp
    then have "bsearch_loop compar (of_nat lower) (of_nat upper) = Some (Inr None)" by (subst bsearch_loop.simps) simp
    moreover have "ord i \<noteq> 0" if "i < n" for i
      using less.prems(3,4) \<open>lower = upper\<close> that by (metis less_irrefl linorder_not_le)
    ultimately show ?thesis by blast
  qed
qed

lemma search_finds:
  "(\<exists>i<n. ord i = 0 \<and> bsearch (of_nat n) compar = Some (Inr (Some (of_nat i))))
    \<or> (\<forall>i<n. ord i \<noteq> 0) \<and> bsearch (of_nat n) compar = Some (Inr None)"
proof (cases "n = 0")
  case False
  then have "(of_nat n :: u32) \<noteq> 0" using few by (simp add: of_nat_eq_0_iff word_unat_eq_iff unat_of_nat)
  then show ?thesis using loop_finds [of 0 n] by (simp add: bsearch_def)
qed (simp add: bsearch_def)

end

subsection \<open>The table the tools are meant to build\<close>

text \<open>Names in the order of \<open>strcmp\<close>, terminating NUL included.\<close>

fun name_cmp :: "u8 list \<Rightarrow> u8 list \<Rightarrow> int" where
  "name_cmp [] [] = 0"
| "name_cmp [] (c # s) = - int (unat c)"
| "name_cmp (k # t) [] = int (unat k)"
| "name_cmp (k # t) (c # s) = (if k = c then name_cmp t s else int (unat k) - int (unat c))"

lemma strcmp_name: "strcmp s (m @ 0 # r) = Inr (name_cmp s m)" if "0 \<notin> set s"
  using that by (induction s m rule: name_cmp.induct) auto

lemma byte_order: "0 < uint c \<longleftrightarrow> c \<noteq> 0" "uint k = uint c \<longleftrightarrow> k = c" for c k :: u8
  by (simp_all add: word_uint_eq_iff [symmetric] order_less_le uint_0_iff eq_commute [of 0])

lemma name_cmp_eq: "0 \<notin> set s \<Longrightarrow> 0 \<notin> set m \<Longrightarrow> name_cmp s m = 0 \<longleftrightarrow> s = m"
  by (induction s m rule: name_cmp.induct) (auto simp: byte_order uint_0_iff)

lemma name_cmp_refl [simp]: "name_cmp s s = 0"
  by (induction s) simp_all

lemma name_cmp_trans: "0 \<notin> set s \<Longrightarrow> 0 \<notin> set m \<Longrightarrow> 0 \<notin> set q \<Longrightarrow> name_cmp s m \<le> 0 \<Longrightarrow> name_cmp m q < 0 \<Longrightarrow> name_cmp s q < 0"
proof (induction s m arbitrary: q rule: name_cmp.induct)
  case (1 q)
  then show ?case by simp
next
  case (2 c s q)
  then show ?case by (cases q) (auto simp: byte_order)
next
  case (3 k t q)
  then show ?case by (simp add: byte_order uint_0_iff)
next
  case (4 k t c s q)
  have "uint k \<noteq> uint c" if "k \<noteq> c" using that byte_order(2) by blast
  with 4 show ?case by (cases q) (fastforce split: if_splits)+
qed

record flash_file =
  ff_name :: "u8 list"
  ff_data :: "u8 list"

definition name_field :: "u8 list \<Rightarrow> u8 list" where
  "name_field n = n @ replicate (128 - length n) 0"

definition data_pos :: "flash_file list \<Rightarrow> nat \<Rightarrow> nat" where
  "data_pos fs i = 8 + FFILE_HEADER_SIZE * length fs + length (concat (map ff_data (take i fs)))"

definition file_header :: "flash_file list \<Rightarrow> nat \<Rightarrow> u8 list" where
  "file_header fs i = le32 (of_nat (data_pos fs i - (8 + FFILE_HEADER_SIZE * i))) @ le32 (of_nat (length (ff_data (fs ! i))))
     @ name_field (ff_name (fs ! i))"

definition file_image :: "flash_file list \<Rightarrow> u8 list" where
  "file_image fs = le32 MAGIC_APPENDING @ le32 (of_nat (length fs)) @ concat (map (file_header fs) [0 ..< length fs]) @ concat (map ff_data fs)"

definition files_ok :: "flash_file list \<Rightarrow> bool" where
  "files_ok fs = (sorted_wrt (\<lambda>f g. name_cmp (ff_name f) (ff_name g) < 0) fs
     \<and> (\<forall>f\<in>set fs. length (ff_name f) < 128 \<and> 0 \<notin> set (ff_name f)) \<and> length (file_image fs) < 2 ^ 31)"

lemma length_le32 [simp]: "length (le32 w) = 4"
  by (simp add: le32_def)

lemma get_le32: "get_u32 (length xs) (xs @ le32 w @ ys) = w"
proof -
  have "get_u32 0 (le32 w) = w" unfolding le32_def by (rule get_put_u32) simp
  then show ?thesis by (simp add: get_u32_def nth_append numeral_2_eq_2)
qed

lemma length_file_header [simp]: "length (ff_name (fs ! i)) < 128 \<Longrightarrow> length (file_header fs i) = FFILE_HEADER_SIZE"
  by (simp add: file_header_def name_field_def FFILE_HEADER_SIZE_def)

lemma concat_same_length:
  "\<forall>x\<in>set xs. length x = n \<Longrightarrow> i < length xs \<Longrightarrow> \<exists>ps ss. concat xs = ps @ xs ! i @ ss \<and> length ps = n * i"
proof (induction xs arbitrary: i)
  case (Cons x xs)
  show ?case
  proof (cases i)
    case 0
    then show ?thesis by (intro exI [of _ "[]"] exI [of _ "concat xs"]) simp
  next
    case (Suc j)
    then have "\<forall>x\<in>set xs. length x = n" "j < length xs" using Cons.prems by simp_all
    from Cons.IH [OF this] obtain ps ss where "concat xs = ps @ xs ! j @ ss" "length ps = n * j" by blast
    then have "concat (x # xs) = (x @ ps) @ (x # xs) ! i @ ss" "length (x @ ps) = n * i" using Suc Cons.prems(1) by simp_all
    then show ?thesis by blast
  qed
qed simp

text \<open>Header i of the image, and what is before and behind it.\<close>

lemma image_header:
  assumes "files_ok fs" and "i < length fs"
  obtains ps ss where "file_image fs = ps @ file_header fs i @ ss" and "length ps = 8 + FFILE_HEADER_SIZE * i"
proof -
  have "\<forall>x\<in>set (map (file_header fs) [0 ..< length fs]). length x = FFILE_HEADER_SIZE"
    using assms(1) by (auto simp: files_ok_def)
  from concat_same_length [OF this, of i] assms(2) obtain ps ss where
    "concat (map (file_header fs) [0 ..< length fs]) = ps @ file_header fs i @ ss" "length ps = FFILE_HEADER_SIZE * i" by auto
  then show ?thesis
    by (intro that [of "le32 MAGIC_APPENDING @ le32 (of_nat (length fs)) @ ps" "ss @ concat (map ff_data fs)"])
      (simp_all add: file_image_def)
qed

lemma image_length:
  assumes "files_ok fs"
  shows "length (file_image fs) = 8 + FFILE_HEADER_SIZE * length fs + length (concat (map ff_data fs))"
proof -
  have "length (concat (map (file_header fs) [0 ..< n])) = FFILE_HEADER_SIZE * n" if "n \<le> length fs" for n
    using that assms by (induction n) (auto simp: files_ok_def)
  then show ?thesis by (simp add: file_image_def)
qed

lemma take_drop_middle: "take (length b) (drop (length a) (a @ b @ c)) = b"
  by simp

lemma image_data:
  assumes "files_ok fs" and "i < length fs"
  shows "take (length (ff_data (fs ! i))) (drop (data_pos fs i) (file_image fs)) = ff_data (fs ! i)"
    and "data_pos fs i + length (ff_data (fs ! i)) \<le> length (file_image fs)"
proof -
  have c: "concat (map ff_data fs) = concat (map ff_data (take i fs)) @ ff_data (fs ! i) @ concat (map ff_data (drop (Suc i) fs))"
    using id_take_nth_drop [OF assms(2)] by (metis concat.simps(2) concat_append list.simps(9) map_append)
  let ?h = "le32 MAGIC_APPENDING @ le32 (of_nat (length fs)) @ concat (map (file_header fs) [0 ..< length fs])"
  have h: "length ?h = 8 + FFILE_HEADER_SIZE * length fs"
    using image_length [OF assms(1)] unfolding file_image_def by simp
  have d: "data_pos fs i = length (?h @ concat (map ff_data (take i fs)))"
    unfolding length_append h [unfolded length_append] data_pos_def by simp
  have img: "file_image fs = (?h @ concat (map ff_data (take i fs))) @ ff_data (fs ! i) @ concat (map ff_data (drop (Suc i) fs))"
    unfolding file_image_def c by simp
  show "take (length (ff_data (fs ! i))) (drop (data_pos fs i) (file_image fs)) = ff_data (fs ! i)"
    unfolding img d by (rule take_drop_middle)
  show "data_pos fs i + length (ff_data (fs ! i)) \<le> length (file_image fs)"
    unfolding img d by simp
qed

lemma drop_front: "drop (length a) (a @ b) = b"
  by simp

lemma few_files: "files_ok fs \<Longrightarrow> 8 + FFILE_HEADER_SIZE * length fs < 2 ^ 31"
  using image_length [of fs] by (simp add: files_ok_def)

lemma entry_pos_nat:
  assumes "files_ok fs" and "i < length fs"
  shows "entry_pos (of_nat i) = 8 + FFILE_HEADER_SIZE * i"
proof -
  have "FFILE_HEADER_SIZE * i < 2 ^ 31" using few_files [OF assms(1)] assms(2) by (simp add: FFILE_HEADER_SIZE_def)
  then have "unat (of_nat (i * FFILE_HEADER_SIZE) :: u32) = FFILE_HEADER_SIZE * i" by (subst unat_of_nat) (simp add: mult.commute)
  then show ?thesis by (simp add: entry_pos_def)
qed

lemma ffSearch_entry:
  assumes "files_ok fs" and "i < length fs" and "0 \<notin> set key"
  shows "ffSearch (file_image fs) key (of_nat i) = Inr (name_cmp key (ff_name (fs ! i)))"
proof -
  let ?n = "ff_name (fs ! i)"
  obtain ps ss where img: "file_image fs = ps @ file_header fs i @ ss" "length ps = 8 + FFILE_HEADER_SIZE * i"
    using image_header [OF assms(1,2)] .
  have n: "length ?n < 128" using assms(1,2) by (simp add: files_ok_def)
  then have f: "name_field ?n = ?n @ 0 # replicate (127 - length ?n) 0"
    by (simp add: name_field_def Suc_diff_le [symmetric] flip: replicate_Suc)
  let ?a = "ps @ le32 (of_nat (data_pos fs i - (8 + FFILE_HEADER_SIZE * i))) @ le32 (of_nat (length (ff_data (fs ! i))))"
  have "file_image fs = ?a @ ?n @ 0 # (replicate (127 - length ?n) 0 @ ss)" by (simp add: img(1) file_header_def f)
  moreover have "entry_pos (of_nat i) + 8 = length ?a" by (simp add: entry_pos_nat [OF assms(1,2)] img(2))
  ultimately have "drop (entry_pos (of_nat i) + 8) (file_image fs) = ?n @ 0 # (replicate (127 - length ?n) 0 @ ss)"
    by (simp only: drop_front)
  then show ?thesis using strcmp_name [OF assms(3)] by (simp only: ffSearch_def)
qed

interpretation name_table: search_table "ffSearch (file_image fs) key" "if files_ok fs \<and> 0 \<notin> set key then length fs else 0"
  "\<lambda>i. name_cmp key (ff_name (fs ! i))" for fs key
proof
  show "(if files_ok fs \<and> 0 \<notin> set key then length fs else 0) < 2 ^ 31"
    using few_files [of fs] by (auto simp: FFILE_HEADER_SIZE_def)
  show "ffSearch (file_image fs) key (of_nat i) = Inr (name_cmp key (ff_name (fs ! i)))"
    if "i < (if files_ok fs \<and> 0 \<notin> set key then length fs else 0)" for i
    using that by (intro ffSearch_entry) (simp_all split: if_splits)
  show "name_cmp key (ff_name (fs ! j)) < 0"
    if "i < j" "j < (if files_ok fs \<and> 0 \<notin> set key then length fs else 0)" "name_cmp key (ff_name (fs ! i)) \<le> 0" for i j
  proof -
    have ok: "files_ok fs" "0 \<notin> set key" "j < length fs" using that(2) by (simp_all split: if_splits)
    then have "name_cmp (ff_name (fs ! i)) (ff_name (fs ! j)) < 0" "0 \<notin> set (ff_name (fs ! i))" "0 \<notin> set (ff_name (fs ! j))"
      using that(1) by (auto simp: files_ok_def sorted_wrt_iff_nth_less)
    with name_cmp_trans that(3) ok(2) show ?thesis by blast
  qed
qed

lemma image_count: "get_u32 4 (file_image fs) = of_nat (length fs)" "take 4 (file_image fs) = le32 MAGIC_APPENDING"
  "8 \<le> length (file_image fs)"
  using get_le32 [of "le32 MAGIC_APPENDING"] by (simp_all add: file_image_def)

lemma ffGetFile_image:
  "ffGetFile (Some (file_image fs)) key
    = map_option (\<lambda>r. bnd r (\<lambda>i. Inr (map_option entry_pos i))) (bsearch (of_nat (length fs)) (ffSearch (file_image fs) key))"
  using image_count [of fs] by (simp add: ffGetFile_def)

lemma files_map:
  assumes "files_ok fs" and "i < length fs"
  shows "map_of (map (\<lambda>f. (ff_name f, ff_data f)) fs) (ff_name (fs ! i)) = Some (ff_data (fs ! i))"
proof -
  have "sorted_wrt (\<lambda>f g. ff_name f \<noteq> ff_name g) fs"
  proof (rule sorted_wrt_mono_rel [where P = "\<lambda>f g. name_cmp (ff_name f) (ff_name g) < 0"])
    show "name_cmp (ff_name f) (ff_name g) < 0 \<Longrightarrow> ff_name f \<noteq> ff_name g" for f g by (auto simp: name_cmp_refl)
  qed (use assms(1) in \<open>simp add: files_ok_def\<close>)
  then have "distinct (map ff_name fs)" by (simp add: distinct_conv_nth sorted_wrt_iff_nth_less) (metis linorder_neqE_nat)
  moreover have "(ff_name (fs ! i), ff_data (fs ! i)) \<in> set (map (\<lambda>f. (ff_name f, ff_data f)) fs)" using assms(2) by force
  ultimately show ?thesis by (intro map_of_is_SomeI) (simp_all add: comp_def)
qed

lemma found_header:
  assumes "files_ok fs" and "i < length fs"
  defines "h \<equiv> 8 + FFILE_HEADER_SIZE * i"
  shows "ffGetFilePtr (Some (file_image fs)) (Some h) = Inr (Some (data_pos fs i))"
    and "ffGetFileSize (Some (file_image fs)) (Some h) = Inr (of_nat (length (ff_data (fs ! i))))"
proof -
  obtain ps ss where img: "file_image fs = ps @ file_header fs i @ ss" "length ps = h"
    using image_header [OF assms(1,2)] unfolding h_def .
  let ?off = "of_nat (data_pos fs i - h) :: u32" and ?len = "of_nat (length (ff_data (fs ! i))) :: u32"
  have g: "get_u32 h (file_image fs) = ?off" "get_u32 (h + 4) (file_image fs) = ?len"
    using get_le32 [of ps ?off] get_le32 [of "ps @ le32 ?off" ?len] img by (simp_all add: file_header_def h_def)
  have hl: "h + 8 \<le> length (file_image fs)" by (simp add: img file_header_def h_def)
  have "h \<le> data_pos fs i" using assms(2) by (simp add: data_pos_def trans_le_add1 h_def)
  moreover have "data_pos fs i < 2 ^ 31" using image_data(2) [OF assms(1,2)] assms(1) by (simp add: files_ok_def)
  moreover from this have "unat ?off = data_pos fs i - h" by (subst unat_of_nat) simp
  ultimately have p: "h + unat ?off = data_pos fs i" by simp
  show "ffGetFilePtr (Some (file_image fs)) (Some h) = Inr (Some (data_pos fs i))"
    using hl by (simp add: ffGetFilePtr_def g(1) p del: add_Suc)
  show "ffGetFileSize (Some (file_image fs)) (Some h) = Inr ?len"
    using hl unfolding ffGetFileSize_def prod.case option.case g(2) by simp
qed

text \<open>
  Every file of a well-built table is found, with its contents, and nothing else: the search of \<open>ffGetFile\<close> ends, and it gives
  a header whose pointer and length are exactly the contents of the file of that name, or nothing if there is none.
\<close>

theorem flash_file_found:
  assumes "files_ok fs" and "0 \<notin> set key"
  shows "case map_of (map (\<lambda>f. (ff_name f, ff_data f)) fs) key of
      None \<Rightarrow> ffGetFile (Some (file_image fs)) key = Some (Inr None)
    | Some d \<Rightarrow> \<exists>h p. ffGetFile (Some (file_image fs)) key = Some (Inr (Some h))
        \<and> ffGetFilePtr (Some (file_image fs)) (Some h) = Inr (Some p) \<and> ffGetFileSize (Some (file_image fs)) (Some h) = Inr (of_nat (length d))
        \<and> take (length d) (drop p (file_image fs)) = d"
proof -
  have nm: "0 \<notin> set (ff_name f)" if "f \<in> set fs" for f using assms(1) that by (simp add: files_ok_def)
  consider (found) i where "i < length fs" "name_cmp key (ff_name (fs ! i)) = 0"
      "bsearch (of_nat (length fs)) (ffSearch (file_image fs) key) = Some (Inr (Some (of_nat i)))"
    | (not_found) "\<forall>i<length fs. name_cmp key (ff_name (fs ! i)) \<noteq> 0"
      "bsearch (of_nat (length fs)) (ffSearch (file_image fs) key) = Some (Inr None)"
    using name_table.search_finds [of fs key] assms by (auto simp only: simp_thms if_True)
  then show ?thesis
  proof cases
    case found
    let ?h = "8 + FFILE_HEADER_SIZE * i" and ?d = "ff_data (fs ! i)"
    have k: "ff_name (fs ! i) = key" using found(1,2) name_cmp_eq [OF assms(2) nm] by simp
    have m: "map_of (map (\<lambda>f. (ff_name f, ff_data f)) fs) key = Some ?d" using files_map [OF assms(1) found(1)] k by simp
    have "ffGetFile (Some (file_image fs)) key = Some (Inr (Some ?h))"
      by (simp add: ffGetFile_image found(3) entry_pos_nat [OF assms(1) found(1)])
    with found_header [OF assms(1) found(1)] image_data(1) [OF assms(1) found(1)] show ?thesis by (auto simp: m)
  next
    case not_found
    have "key \<notin> ff_name ` set fs"
    proof
      assume "key \<in> ff_name ` set fs"
      then obtain i where "i < length fs" "key = ff_name (fs ! i)" by (auto simp: in_set_conv_nth)
      then show False using not_found(1) by auto
    qed
    then have "map_of (map (\<lambda>f. (ff_name f, ff_data f)) fs) key = None" by (auto simp: map_of_eq_None_iff)
    with not_found(2) show ?thesis by (simp add: ffGetFile_image)
  qed
qed

subsection \<open>From the upload to the file\<close>

text \<open>
  What \<open>Read_FlashFile\<close> makes of the bytes an upload has left in the flash: the last 12 decide. They are the mark, the length of the
  program in front of the table, and a word that is not used.
\<close>

definition boot_files :: "(u32 \<Rightarrow> bool) \<Rightarrow> u8 list \<Rightarrow> (int \<times> u8 list option) checked" where
  "boot_files mem R =
     (let n = length R; bin = unat (get_u32 (n - 8) R)
      in if take 4 (drop (n - 12) R) \<noteq> firmware_mark \<or> \<not> mem (of_nat (n - 12 - bin)) then Inr (- 1, None)
         else if n - 12 - bin < 4 then Inl OutOfBounds
         else Inr (0, Some (take (n - 12 - bin) (drop bin R))))"

definition bin_fits :: "u8 list \<Rightarrow> bool" where
  "bin_fits R = (12 \<le> length R \<and> unat (get_u32 (length R - 8) R) + 12 \<le> length R)"

lemma get_u32_take: "k + 4 \<le> length R \<Longrightarrow> get_u32 0 (take 4 (drop k R)) = get_u32 k R"
  by (simp add: get_u32_def nth_append add.commute)

lemma Read_FlashFile_view:
  assumes "usi_inv s" and "length R + 16 \<le> 2 ^ 24" and "12 \<le> length R" and "take 4 (drop (length R - 12) R) = firmware_mark \<Longrightarrow> bin_fits R"
    and "\<forall>i<length R. usi_view s (16 + i) = R ! i" and "map (usi_view s) [4 ..< 8] = le32 (of_nat (16 + length R))"
  shows "Read_FlashFile mem s None = boot_files mem R"
proof -
  let ?v = "usi_view s" and ?tot = "of_nat (16 + length R) :: u32" and ?n = "length R"
  have part: "map ?v [16 + k ..< 16 + k + m] = take m (drop k R)" if "k + m \<le> ?n" for k m
    using assms(5) that by (intro nth_equalityI) (auto simp: add.assoc)
  have rd: "flash_read a m s = Inr (map ?v [unat a ..< unat a + unat m])" if "unat a + unat m \<le> 2 ^ 24" for a m
    using flash.read_view [OF assms(1), of a m] that by (simp add: flash_read_def)
  have piece: "flash_read a m s = Inr (take (unat m) (drop k R))" if "unat a = 16 + k" "k + unat m \<le> ?n" for a m k
    using rd [of a m] part [OF that(2)] that assms(2) by simp
  have g32: "get_u32 0 (le32 w) = w" for w using get_le32 [of "[]" w "[]"] by simp
  have small: "unat (of_nat k :: u32) = k" if "k \<le> 16 + ?n" for k using that assms(2) by (subst unat_of_nat) simp
  have tot: "unat ?tot = 16 + ?n" by (rule small) simp
  have sub: "unat (?tot - of_nat k) = 16 + ?n - k" if "k \<le> 16 + ?n" for k
    using small [OF that] that by (simp only: unat_minus_le tot)
  have u: "unat (?tot - 12) = 16 + (?n - 12)" "unat (?tot - 8) = 16 + (?n - 8)"
    using sub [of 12] sub [of 8] assms(3) by simp_all
  have t: "flash_read 4 4 s = Inr (le32 ?tot)" using rd [of 4 4] assms(6) by simp
  have e: "flash_read (?tot - 12) 4 s = Inr (take 4 (drop (?n - 12) R))" using piece [OF u(1), of 4] assms(3) by simp
  have b: "flash_read (?tot - 8) 4 s = Inr (take 4 (drop (?n - 8) R))" using piece [OF u(2), of 4] assms(3) by simp
  define bin where "bin = get_u32 (?n - 8) R"
  have g: "get_u32 0 (take 4 (drop (?n - 8) R)) = bin" unfolding bin_def using assms(3) by (intro get_u32_take) simp
  show ?thesis
  proof (cases "take 4 (drop (?n - 12) R) = firmware_mark")
    case False
    then show ?thesis unfolding Read_FlashFile_def boot_files_def t bnd_simps Let_def g32 e firmware_mark_def by simp
  next
    case True
    then have fit: "unat bin + 12 \<le> ?n" using assms(4) by (simp add: bin_fits_def bin_def)
    have binw: "bin = of_nat (unat bin)" by simp
    have ub: "unat (bin + 16) = 16 + unat bin" using fit assms(2) by (subst unat_plus_no_wrap) simp_all
    let ?fl = "?n - 12 - unat bin"
    have fl: "?tot - 16 - bin - 12 = of_nat ?fl"
    proof -
      have "?n = ?fl + unat bin + 12" using fit by simp
      then have "(of_nat ?n :: u32) = of_nat (?fl + unat bin + 12)" by (rule arg_cong)
      then show ?thesis by simp
    qed
    have ul: "unat (of_nat ?fl :: u32) = ?fl" by (rule small) simp
    have i: "flash_read (bin + 16) (of_nat ?fl) s = Inr (take ?fl (drop (unat bin) R))"
      using piece [OF ub, of "of_nat ?fl"] fit unfolding ul by simp
    show ?thesis
      unfolding Read_FlashFile_def boot_files_def t bnd_simps Let_def g32 e b g bin_def [symmetric] fl i
      using True fit by (simp add: firmware_mark_def)
  qed
qed

text \<open>
  C39. What the camera finds at boot behind an uploaded firmware: however the server cuts the posted form into pieces, after a restart
  \<open>Read_FlashFile\<close> loads exactly what the last 12 bytes that were received say -- everything between the program, whose length they give, and
  themselves -- or nothing if the mark is not there. These are the last bytes of the file posted, unless bytes of the line end before the
  boundary were stored behind it (\<open>received\<close>).
\<close>

theorem uploaded_files_read:
  assumes "form_ok L b ls F" and "lib_httpMyStrncpy L b 128 = b" and "usi_inv (cfg_flash (upd_flash u))"
    and "16 + length (upload_form b ls F) \<le> 2 ^ 24" and "may_upload rq b u" and "concat ds = upload_form b ls F"
    and "12 \<le> length F" and "take 4 (drop (length (received b F) - 12) (received b F)) = firmware_mark \<Longrightarrow> bin_fits (received b F)"
  shows "\<exists>u'. upload_pieces L rq ds first_slot u = Inr (Some (Reply ''text/plain'' ''OK''), u')
    \<and> Read_FlashFile mem (usi_power_cycle (cfg_flash (upd_flash u'))) None = boot_files mem (received b F)"
proof -
  let ?R = "received b F"
  from upload_form_run [OF assms(1-6)] obtain s where
    s: "upload_pieces L rq ds first_slot u =
      Inr (Some (Reply ''text/plain'' ''OK''), u\<lparr>iFlashUpdateState := FIRMWARE_STOP, upd_flash := (upd_flash u)\<lparr>cfg_flash := s\<rparr>\<rparr>)"
    "usi_inv s"
    "usi_view (usi_power_cycle s) = overlay 0 (header_bytes (of_nat (16 + length ?R))) (overlay 16 ?R (usi_view (cfg_flash (upd_flash u))))"
    by blast
  let ?s = "usi_power_cycle s"
  have hb: "length (header_bytes n) = 8" for n by (simp add: header_bytes_def firmware_mark_def)
  have inv: "usi_inv ?s" using usi_power_cycle_inv s(2) by blast
  have sz: "length ?R + 16 \<le> 2 ^ 24" using assms(4) by (simp add: upload_form_def received_def)
  have n: "12 \<le> length ?R" using assms(7) by (simp add: received_def)
  have v: "\<forall>i<length ?R. usi_view ?s (16 + i) = ?R ! i" unfolding s(3) by (simp add: overlay_def hb)
  have h: "map (usi_view ?s) [4 ..< 8] = le32 (of_nat (16 + length ?R))"
    unfolding s(3) by (simp add: overlay_def hb header_bytes_def le32_def put_u32_def blit_def firmware_mark_def upt_rec nth_append)
  from Read_FlashFile_view [where mem = mem, OF inv sz n assms(8) v h] s(1) show ?thesis by auto
qed

text \<open>A program, the table, the mark, the length of the program, and a last word: the table is what is loaded.\<close>

definition firmware_with_files :: "u8 list \<Rightarrow> flash_file list \<Rightarrow> u32 \<Rightarrow> u8 list" where
  "firmware_with_files bin fs lastw = bin @ file_image fs @ firmware_mark @ le32 (of_nat (length bin)) @ le32 lastw"

lemma files_booted:
  assumes "length bin < 2 ^ 32" and "files_ok fs" and "mem (of_nat (length (file_image fs)))"
  shows "bin_fits (firmware_with_files bin fs lastw) \<and> boot_files mem (firmware_with_files bin fs lastw) = Inr (0, Some (file_image fs))"
proof -
  let ?F = "firmware_with_files bin fs lastw" and ?img = "file_image fs" and ?l = "le32 (of_nat (length bin))"
  have len: "length ?F = length bin + length ?img + 12" by (simp add: firmware_with_files_def firmware_mark_def)
  have "get_u32 (length (bin @ ?img @ firmware_mark)) ((bin @ ?img @ firmware_mark) @ ?l @ le32 lastw) = of_nat (length bin)"
    by (rule get_le32)
  moreover have "length (bin @ ?img @ firmware_mark) = length ?F - 8" by (simp add: len firmware_mark_def)
  moreover have "(bin @ ?img @ firmware_mark) @ ?l @ le32 lastw = ?F" by (simp add: firmware_with_files_def)
  ultimately have g: "get_u32 (length ?F - 8) ?F = of_nat (length bin)" by metis
  have ub: "unat (of_nat (length bin) :: u32) = length bin" using assms(1) by (subst unat_of_nat) simp
  have mark: "take 4 (drop (length ?F - 12) ?F) = firmware_mark" by (simp add: len firmware_with_files_def firmware_mark_def)
  have m: "length ?F - 12 - length bin = length ?img" by (simp add: len)
  have d: "take (length ?img) (drop (length bin) ?F) = ?img" by (simp add: firmware_with_files_def)
  have "8 \<le> length ?img" by (rule image_count)
  then have "boot_files mem ?F = Inr (0, Some ?img)"
    using assms(3) unfolding boot_files_def Let_def g ub m d mark by simp
  moreover have "bin_fits ?F" unfolding bin_fits_def g ub by (simp add: len)
  ultimately show ?thesis by blast
qed

definition example_files :: "flash_file list" where
  "example_files = [\<lparr>ff_name = [97], ff_data = [7, 8]\<rparr>]"

lemma example_files_ok: "files_ok example_files"
proof -
  have "length (file_image example_files) = 146" by code_simp
  then show ?thesis by (simp add: files_ok_def) (simp add: example_files_def)
qed

lemma example_map: "map_of (map (\<lambda>f. (ff_name f, ff_data f)) example_files) [97] = Some [7, 8]"
  by (simp add: example_files_def)

theorem flash_file_found_witness:
  "\<exists>h p. ffGetFile (Some (file_image example_files)) [97] = Some (Inr (Some h))
     \<and> ffGetFilePtr (Some (file_image example_files)) (Some h) = Inr (Some p) \<and> take 2 (drop p (file_image example_files)) = [7, 8]"
proof -
  have k: "0 \<notin> set [97 :: u8]" and two: "length [7, 8 :: u8] = 2" by simp_all
  from flash_file_found [OF example_files_ok k] obtain h p where
    "ffGetFile (Some (file_image example_files)) [97] = Some (Inr (Some h))"
    "ffGetFilePtr (Some (file_image example_files)) (Some h) = Inr (Some p)"
    "take (length [7, 8 :: u8]) (drop p (file_image example_files)) = [7, 8]"
    unfolding example_map by auto
  then show ?thesis unfolding two by blast
qed

definition example_firmware :: "u8 list" where
  "example_firmware = firmware_with_files [1, 2, 3] example_files 9"

lemma example_firmware_ok: "form_ok example_upload_lib [120, 121] [[65]] example_firmware"
proof -
  have "list_all (\<lambda>k. take (length [120, 121 :: u8] + 2) (drop k (tail [120, 121] example_firmware)) \<noteq> marker [120, 121]) [0 ..< 163]"
    by code_simp
  moreover have "length example_firmware = 161" by code_simp
  ultimately have "no_marker [120, 121] example_firmware" by (simp add: no_marker_def list_all_iff)
  then show ?thesis using example_form_ok by (simp add: form_ok_def)
qed

theorem uploaded_files_read_witness:
  "\<exists>u'. upload_pieces example_upload_lib example_upload [upload_form [120, 121] [[65]] example_firmware] first_slot example_update
      = Inr (Some (Reply ''text/plain'' ''OK''), u')
    \<and> Read_FlashFile (\<lambda>_. True) (usi_power_cycle (cfg_flash (upd_flash u'))) None = Inr (0, Some (file_image example_files))"
proof -
  have c: "concat [upload_form [120, 121] [[65]] example_firmware] = upload_form [120, 121] [[65]] example_firmware" by simp
  have l: "length example_firmware = 161" by code_simp
  then have sz: "16 + length (upload_form [120, 121] [[65]] example_firmware) \<le> 2 ^ 24" by (simp add: upload_form_def header_block_def)
  have R: "received [120, 121] example_firmware = example_firmware" using l by (simp add: received_def flushed_bytes_def)
  have b: "bin_fits example_firmware \<and> boot_files (\<lambda>_. True) example_firmware = Inr (0, Some (file_image example_files))"
    unfolding example_firmware_def by (rule files_booted [OF _ example_files_ok]) simp_all
  show ?thesis
    using uploaded_files_read [OF example_firmware_ok example_upload_simps(1,2) sz example_upload_simps(4) c, of "\<lambda>_. True"] b
    unfolding R using l by simp
qed

end
