(* ===== verification/WebFiles.thy ===== *)
theory WebFiles
  imports ChunkedReply
begin

section \<open>Built-in pages (LibCamera/Src/WebFiles/web_files.c)\<close>

text \<open>
  Two XML descriptions are compiled into the firmware and sent in pieces of 8 KB; the position is kept with the connection.
  The MIME type is looked up by the HTTP library, a parameter.
\<close>

record web_file =
  pcFile :: "u8 list"
  pcFileName :: string
  szLength :: u32

definition WEB_FILE_FILL_LEN :: u32 where
  "WEB_FILE_FILL_LEN = 8 * 1024"

definition Http_WebFile_AddData :: "web_file \<Rightarrow> u32 \<Rightarrow> (u8 list \<times> u32) option checked" where
  "Http_WebFile_AddData f nPos =
     (if nPos < szLength f
      then let nLen = (if nPos + WEB_FILE_FILL_LEN < szLength f then WEB_FILE_FILL_LEN else szLength f - nPos)
           in if unat nPos + unat nLen > length (pcFile f) then Inl OutOfBounds
              else Inr (Some (take (unat nLen) (drop (unat nPos) (pcFile f)), nPos + nLen))
      else Inr None)"

text \<open>The header is printed into 64 characters with \<open>%d\<close>.\<close>

definition content_length :: "u32 \<Rightarrow> string" where
  "content_length n = ''Content-Length: '' @ (if sint n < 0 then ''-'' @ dec (nat (- sint n)) else dec (nat (sint n))) @ [CHR 0x0D, CHR 0x0A]"

definition Http_WebFile :: "(string \<Rightarrow> string) \<Rightarrow> web_file \<Rightarrow> (string \<times> string \<times> u8 list) checked option" where
  "Http_WebFile get_mime_type f =
     (let acHeader = content_length (szLength f); pcMineType = get_mime_type (pcFileName f)
      in if length acHeader + 1 > 64 then Some (Inl OutOfBounds)
         else map_option (\<lambda>r. bnd r (\<lambda>body. Inr (acHeader, pcMineType, body))) (send_chunks (Http_WebFile_AddData f) 0 []))"

definition page :: "u8 list \<Rightarrow> string \<Rightarrow> web_file" where
  "page bs n = \<lparr>pcFile = bs, pcFileName = n, szLength = of_nat (length bs)\<rparr>"

definition RegisterWebFiles :: "u8 list \<Rightarrow> u8 list \<Rightarrow> (string \<times> int \<times> web_file) list" where
  "RegisterWebFiles acfile_cdir_xml acfile_cmgr_xml =
     [(''/cdir.xml'', AUTH_USER, page acfile_cdir_xml ''/cdir.xml''), (''/cmgr.xml'', AUTH_USER, page acfile_cmgr_xml ''/cmgr.xml'')]"

lemma AddData_piece:
  assumes "unat (szLength f) = length (pcFile f)" and "length (pcFile f) < 2 ^ 31" and "unat a < length (pcFile f)"
  shows "\<exists>a'. Http_WebFile_AddData f a = Inr (Some (map (nth (pcFile f)) [unat a ..< unat a'], a')) \<and> unat a < unat a'
    \<and> unat a' \<le> length (pcFile f)"
proof -
  let ?n = "if a + WEB_FILE_FILL_LEN < szLength f then WEB_FILE_FILL_LEN else szLength f - a"
  have w: "unat (a + WEB_FILE_FILL_LEN) = unat a + 8192"
    using assms(2,3) by (subst unat_plus_no_wrap) (simp_all add: WEB_FILE_FILL_LEN_def)
  have "unat (szLength f - a) = length (pcFile f) - unat a" using assms(1,3) by (simp add: unat_minus_le)
  then have n: "unat ?n = min 8192 (length (pcFile f) - unat a)"
    using assms(1,3) w by (simp add: word_less_nat_alt WEB_FILE_FILL_LEN_def)
  have s: "unat (a + ?n) = unat a + unat ?n" using n assms(2,3) by (intro unat_plus_no_wrap) simp
  have "take (unat ?n) (drop (unat a) (pcFile f)) = map (nth (pcFile f)) [unat a ..< unat (a + ?n)]"
    unfolding s using n assms(3) by (intro nth_equalityI) simp_all
  then show ?thesis
    using n s assms(1,3) by (intro exI [of _ "a + ?n"]) (simp add: Http_WebFile_AddData_def Let_def word_less_nat_alt)
qed

interpretation page: chunked_reply "Http_WebFile_AddData f" "nth (pcFile f)" "length (pcFile f)"
  "unat (szLength f) = length (pcFile f) \<and> length (pcFile f) < 2 ^ 31" for f
proof (unfold_locales, goal_cases)
  case (1 a)
  then show ?case using AddData_piece by blast
next
  case (2 a)
  then show ?case by (simp add: Http_WebFile_AddData_def word_less_nat_alt)
qed

text \<open>
  A built-in page is sent whole: the client gets exactly the bytes of the file, their number announced exactly, in any
  number of pieces, and the header fits its buffer.
\<close>

theorem page_sent_whole:
  assumes "length bs < 2 ^ 31"
  shows "Http_WebFile get_mime_type (page bs n)
    = Some (Inr (''Content-Length: '' @ dec (length bs) @ [CHR 0x0D, CHR 0x0A], get_mime_type n, bs))"
proof -
  let ?w = "of_nat (length bs) :: u32"
  have u: "unat ?w = length bs" using assms by (simp add: unat_of_nat)
  have "uint ?w = int (unat ?w)" by simp
  then have "uint ?w = int (length bs)" by (simp only: u)
  moreover have "signed_take_bit 31 (int (length bs)) = int (length bs)" using assms by (intro signed_take_bit_int_eq_self) simp_all
  ultimately have "sint ?w = int (length bs)" by (simp add: sint_uint)
  then have c: "content_length ?w = ''Content-Length: '' @ dec (length bs) @ [CHR 0x0D, CHR 0x0A]" by (simp add: content_length_def)
  have "length (dec (length bs)) \<le> 10" using assms by (intro length_dec_le) simp_all
  moreover have "send_chunks (Http_WebFile_AddData (page bs n)) 0 [] = Some (Inr bs)"
    using page.sends_all [of "page bs n" 0 "[]"] assms u by (simp add: page_def map_nth)
  ultimately show ?thesis using c by (simp add: Http_WebFile_def Let_def) (simp add: page_def)
qed

theorem page_sent_whole_witness:
  "Http_WebFile (\<lambda>_. ''text/xml'') (page [60, 97, 62] ''/cdir.xml'')
    = Some (Inr (''Content-Length: 3'' @ [CHR 0x0D, CHR 0x0A], ''text/xml'', [60, 97, 62]))"
proof -
  have l: "length [60, 97, 62 :: u8] = 3" and d: "dec 3 = ''3''" by (simp, code_simp)
  have "length [60, 97, 62 :: u8] < 2 ^ 31" by simp
  from page_sent_whole [OF this, of "\<lambda>_. ''text/xml''" "''/cdir.xml''"] show ?thesis unfolding l d by simp
qed

end
