(* ===== verification/Base64.thy ===== *)
theory Base64
  imports Rovio_Prelude
begin

section \<open>Base64\<close>

text \<open>
  \<open>EncodeBase64\<close> of Mail/Mailapp.c, which the HTTP client uses for its credentials. The output array has \<open>iMaxOutSize\<close>
  characters; every character is put at its end, so a put beyond the array is a fault. Lengths are those of arrays of a few
  hundred characters: the arithmetic of \<open>int\<close> does not overflow there.
\<close>

unbundle bit_operations_syntax

subsection \<open>The encoder\<close>

definition m_base64tab :: string where
  "m_base64tab = ''ABCDEFGHIJKLMNOPQRSTUVWXYZabcdefghijklmnopqrstuvwxyz0123456789+/''"

definition BASE64_MAXLINE :: nat where
  "BASE64_MAXLINE = 76"

definition EOL :: string where
  "EOL = [CHR 0x0D, CHR 0x0A]"

definition Base64BufferSize :: "int \<Rightarrow> int" where
  "Base64BufferSize iInputSize =
     (let iOutSize = (iInputSize + 2) div 3 * 4
      in iOutSize + (int (length EOL) * iOutSize div int BASE64_MAXLINE + 3))"

definition put_text :: "nat \<Rightarrow> string \<Rightarrow> string \<Rightarrow> string checked" where
  "put_text room t out = (if length out + length t > room then Inl OutOfBounds else Inr (out @ t))"

definition b64_char :: "u8 \<Rightarrow> char" where
  "b64_char i = m_base64tab ! unat i"

definition sextet1 :: "u8 \<Rightarrow> u8" where
  "sextet1 c1 = drop_bit 2 (c1 AND 0xFC)"

definition sextet2 :: "u8 \<Rightarrow> u8 \<Rightarrow> u8" where
  "sextet2 c1 c2 = push_bit 4 (c1 AND 0x03) OR drop_bit 4 (c2 AND 0xF0)"

definition sextet3 :: "u8 \<Rightarrow> u8 \<Rightarrow> u8" where
  "sextet3 c2 c3 = push_bit 2 (c2 AND 0x0F) OR drop_bit 6 (c3 AND 0xC0)"

definition sextet4 :: "u8 \<Rightarrow> u8" where
  "sextet4 c3 = c3 AND 0x3F"

text \<open>The loop over groups of three characters, with the length of the line; it ends with the characters that are left.\<close>

fun b64_loop :: "nat \<Rightarrow> string \<Rightarrow> nat \<Rightarrow> string \<Rightarrow> (string \<times> string) checked" where
  "b64_loop room (a # b # c # left) iLineLen out =
     (let c1 = of_char a; c2 = of_char b; c3 = of_char c
      in bnd (put_text room [b64_char (sextet1 c1), b64_char (sextet2 c1 c2), b64_char (sextet3 c2 c3), b64_char (sextet4 c3)] out)
           (\<lambda>out. if iLineLen + 4 \<ge> BASE64_MAXLINE - 3 then bnd (put_text room EOL out) (b64_loop room left 0)
                  else b64_loop room left (iLineLen + 4) out))"
| "b64_loop room left iLineLen out = Inr (left, out)"

fun b64_tail :: "string \<Rightarrow> string" where
  "b64_tail [a] = (let c1 = of_char a in [b64_char (sextet1 c1), b64_char (push_bit 4 (c1 AND 0x03)), CHR ''='', CHR ''=''])"
| "b64_tail [a, b] =
     (let c1 = of_char a; c2 = of_char b
      in [b64_char (sextet1 c1), b64_char (sextet2 c1 c2), b64_char (push_bit 2 (c2 AND 0x0F)), CHR ''=''])"
| "b64_tail _ = []"

text \<open>Some text if the function returns TRUE: the output without its final zero, which needs room as well.\<close>

definition EncodeBase64 :: "string \<Rightarrow> int \<Rightarrow> int \<Rightarrow> string option checked" where
  "EncodeBase64 pccInStr iInLen iMaxOutSize =
     (if iMaxOutSize \<le> 0 \<or> iInLen < 0 \<or> iMaxOutSize < Base64BufferSize iInLen then Inr None
      else if nat iInLen > length pccInStr then Inl OutOfBounds
      else bnd (b64_loop (nat iMaxOutSize) (take (nat iInLen) pccInStr) 0 []) (\<lambda>(left, out).
           bnd (put_text (nat iMaxOutSize) (b64_tail left @ EOL) out) (\<lambda>out.
           if length out \<ge> nat iMaxOutSize then Inl OutOfBounds else Inr (Some out))))"

subsection \<open>The output fits\<close>

text \<open>What the loop does without a limit: the text, as long as there is room for it.\<close>

fun b64_text :: "string \<Rightarrow> nat \<Rightarrow> string" where
  "b64_text (a # b # c # left) iLineLen =
     [b64_char (sextet1 (of_char a)), b64_char (sextet2 (of_char a) (of_char b)), b64_char (sextet3 (of_char b) (of_char c)),
      b64_char (sextet4 (of_char c))] @
     (if iLineLen + 4 \<ge> BASE64_MAXLINE - 3 then EOL @ b64_text left 0 else b64_text left (iLineLen + 4))"
| "b64_text left iLineLen = b64_tail left @ EOL"

lemma length_EOL [simp]: "length EOL = 2"
  by (simp add: EOL_def)

lemma put_text_ok: "length out + length t \<le> room \<Longrightarrow> put_text room t out = Inr (out @ t)"
  by (simp add: put_text_def)

lemma b64_loop_text:
  "length (out @ b64_text xs n) \<le> room \<Longrightarrow>
     bnd (b64_loop room xs n out) (\<lambda>(left, out). put_text room (b64_tail left @ EOL) out) = Inr (out @ b64_text xs n)"
proof (induction room xs n out rule: b64_loop.induct)
  case (1 room a b c left n out)
  let ?g = "[b64_char (sextet1 (of_char a)), b64_char (sextet2 (of_char a) (of_char b)), b64_char (sextet3 (of_char b) (of_char c)),
      b64_char (sextet4 (of_char c))]"
  have g: "put_text room ?g out = Inr (out @ ?g)" using 1(3) by (intro put_text_ok) (simp split: if_splits)
  show ?case
  proof (cases "n + 4 \<ge> BASE64_MAXLINE - 3")
    case True
    then have "put_text room EOL (out @ ?g) = Inr (out @ ?g @ EOL)" using 1(3) by (subst put_text_ok) simp_all
    with 1(1) [OF refl refl refl True] 1(3) g True show ?thesis by (simp add: Let_def)
  next
    case False
    with 1(2) [OF refl refl refl False] 1(3) g show ?thesis by (simp add: Let_def)
  qed
qed (simp_all add: put_text_def)

lemma length_b64_text:
  "k < 19 \<Longrightarrow> length (b64_text xs (4 * k)) = 4 * ((length xs + 2) div 3) + 2 * ((k + length xs div 3) div 19) + 2"
proof (induction xs "4 * k" arbitrary: k rule: b64_text.induct)
  case (1 a b c left)
  have d: "(length (a # b # c # left) + 2) div 3 = (length left + 2) div 3 + 1" "length (a # b # c # left) div 3 = length left div 3 + 1"
    by simp_all
  show ?case
  proof (cases "4 * k + 4 \<ge> BASE64_MAXLINE - 3")
    case True
    with 1(3) have k: "k = 18" by (simp add: BASE64_MAXLINE_def)
    have "length (b64_text left 0) = 4 * ((length left + 2) div 3) + 2 * (length left div 3 div 19) + 2"
      using 1(1) [of 0] True by simp
    moreover have "(18 + (length left div 3 + 1)) div 19 = length left div 3 div 19 + 1" by simp
    ultimately show ?thesis using True unfolding d k by simp
  next
    case False
    with 1(3) have k: "Suc k < 19" by (simp add: BASE64_MAXLINE_def)
    have "length (b64_text left (4 * k + 4)) = 4 * ((length left + 2) div 3) + 2 * ((Suc k + length left div 3) div 19) + 2"
      using 1(2) [OF False, of "Suc k"] k by (simp add: add.commute)
    then show ?thesis using False unfolding d by simp
  qed
qed (simp_all add: Let_def)

lemma room_enough: "length (b64_text xs 0) < nat (Base64BufferSize (int (length xs)))"
proof -
  let ?n = "length xs"
  let ?c = "(?n + 2) div 3"
  have "?n div 3 \<le> ?c" by (rule div_le_mono) simp
  then have "2 * (?n div 3 div 19) \<le> 2 * (?c div 19)" by (simp add: div_le_mono)
  also have "\<dots> \<le> 2 * (?c * 4) div 76"
  proof -
    have "(2 * (?c div 19)) * 76 \<le> 2 * (?c * 4)" by simp
    then show ?thesis by (simp add: less_eq_div_iff_mult_less_eq)
  qed
  finally have "length (b64_text xs 0) \<le> ?c * 4 + 2 * (?c * 4) div 76 + 2" using length_b64_text [of 0 xs] by simp
  moreover have "Base64BufferSize (int ?n) = int (?c * 4 + 2 * (?c * 4) div 76 + 3)"
    by (simp add: Base64BufferSize_def BASE64_MAXLINE_def Let_def zdiv_int ac_simps)
  ultimately show ?thesis by (simp only: nat_int)
qed

lemma EncodeBase64_text:
  assumes "Base64BufferSize (int (length xs)) \<le> m"
  shows "EncodeBase64 xs (int (length xs)) m = Inr (Some (b64_text xs 0))"
proof -
  have l: "length (b64_text xs 0) < nat m" using room_enough [of xs] assms by simp
  have "bnd (b64_loop (nat m) xs 0 []) (\<lambda>(left, out). put_text (nat m) (b64_tail left @ EOL) out) = Inr (b64_text xs 0)"
    using b64_loop_text [of "[]" xs 0 "nat m"] l by simp
  then show ?thesis using l assms
    by (auto simp: EncodeBase64_def bnd_def not_less split: sum.splits prod.splits)
qed

subsection \<open>The text says what was encoded\<close>

text \<open>The reader of RFC 2045: characters outside the alphabet are skipped, four give three bytes.\<close>

fun alphabet_index :: "string \<Rightarrow> char \<Rightarrow> nat" where
  "alphabet_index [] c = 0"
| "alphabet_index (x # xs) c = (if x = c then 0 else Suc (alphabet_index xs c))"

definition b64_value :: "char \<Rightarrow> nat" where
  "b64_value c = alphabet_index m_base64tab c"

definition byte :: "nat \<Rightarrow> u8" where
  "byte n = of_nat n"

fun b64_read :: "string \<Rightarrow> u8 list" where
  "b64_read (w # x # y # z # t) =
     (let b1 = byte (b64_value w * 4 + b64_value x div 16); b2 = byte (b64_value x mod 16 * 16 + b64_value y div 4);
          b3 = byte (b64_value y mod 4 * 64 + b64_value z)
      in if y = CHR ''='' then [b1] else if z = CHR ''='' then [b1, b2] else b1 # b2 # b3 # b64_read t)"
| "b64_read _ = []"

definition in_alphabet :: "char \<Rightarrow> bool" where
  "in_alphabet c = (c = CHR ''='' \<or> c \<in> set m_base64tab)"

definition b64_decode :: "string \<Rightarrow> u8 list" where
  "b64_decode t = b64_read (filter in_alphabet t)"

lemma b64_char_value: "unat i < 64 \<Longrightarrow> b64_value (b64_char i) = unat i \<and> b64_char i \<in> set m_base64tab"
proof -
  have "list_all (\<lambda>i. b64_value (m_base64tab ! i) = i \<and> m_base64tab ! i \<in> set m_base64tab) [0 ..< 64]" by code_simp
  then show "unat i < 64 \<Longrightarrow> ?thesis" by (simp add: list_all_iff b64_char_def)
qed

lemma no_pad: "c \<in> set m_base64tab \<Longrightarrow> c \<noteq> CHR ''='' \<and> in_alphabet c"
proof -
  have "CHR ''='' \<notin> set m_base64tab" by code_simp
  then show "c \<in> set m_base64tab \<Longrightarrow> ?thesis" by (auto simp: in_alphabet_def)
qed

lemma in_alphabet_pad: "in_alphabet (CHR ''='')"
  by (simp add: in_alphabet_def)

lemma EOL_skipped: "filter in_alphabet (EOL @ t) = filter in_alphabet t"
proof -
  have "filter in_alphabet EOL = []" by code_simp
  then show ?thesis by simp
qed


text \<open>The four numbers of a group, in numbers.\<close>

lemma unat_masked: "unat (drop_bit n c AND mask m) = unat c div 2 ^ n mod 2 ^ m" for c :: u8
  by (simp only: take_bit_eq_mask [symmetric] unsigned_take_bit_eq unsigned_drop_bit_eq)
    (simp add: take_bit_eq_mod drop_bit_eq_div min_def mod_less [OF unat_byte])

lemma and_small: "unat (c AND 0x03) = unat c mod 4" "unat (c AND 0x0F) = unat c mod 16" "unat (c AND 0x3F) = unat c mod 64" for c :: u8
  using unat_masked [of 0 c 2] unat_masked [of 0 c 4] unat_masked [of 0 c 6] by (simp_all add: mask_eq_exp_minus_1)

lemma sextet_parts:
  "unat (sextet1 c) = unat c div 4" "unat (push_bit 4 (c AND 0x03)) = unat c mod 4 * 16" "unat (drop_bit 4 (c AND 0xF0)) = unat c div 16"
  "unat (push_bit 2 (c AND 0x0F)) = unat c mod 16 * 4" "unat (drop_bit 6 (c AND 0xC0)) = unat c div 64" "unat (sextet4 c) = unat c mod 64"
  for c :: u8
proof -
  have q: "unat c div 4 < 64" "unat c div 16 < 16" "unat c div 64 < 4" using unat_byte [of c] by (simp_all add: less_mult_imp_div_less)
  show "unat (sextet1 c) = unat c div 4" "unat (drop_bit 4 (c AND 0xF0)) = unat c div 16" "unat (drop_bit 6 (c AND 0xC0)) = unat c div 64"
    using unat_masked [of 2 c 6] unat_masked [of 4 c 4] unat_masked [of 6 c 2] q by (simp_all add: sextet1_def mask_eq_exp_minus_1)
  have "unat (push_bit 4 d) = unat d * 16 mod 256" "unat (push_bit 2 d) = unat d * 4 mod 256" for d :: u8
    by (simp_all add: push_bit_eq_mult unat_word_ariths)
  moreover have "unat c mod 4 * 16 < 256" "unat c mod 16 * 4 < 256" using pos_mod_bound by simp_all
  ultimately show "unat (push_bit 4 (c AND 0x03)) = unat c mod 4 * 16" "unat (push_bit 2 (c AND 0x0F)) = unat c mod 16 * 4"
    by (simp_all add: and_small del: push_bit_and)
  show "unat (sextet4 c) = unat c mod 64" by (simp add: sextet4_def and_small)
qed

lemma or_parts:
  fixes x y :: u8
  shows "unat x < 4 \<Longrightarrow> unat y < 16 \<Longrightarrow> unat (push_bit 4 x OR y) = unat x * 16 + unat y"
    and "unat x < 16 \<Longrightarrow> unat y < 4 \<Longrightarrow> unat (push_bit 2 x OR y) = unat x * 4 + unat y"
proof -
  have "list_all (\<lambda>i. list_all (\<lambda>j. unat (push_bit 4 (of_nat i) OR of_nat j :: u8) = i * 16 + j) [0 ..< 16]) [0 ..< 4]"
    "list_all (\<lambda>i. list_all (\<lambda>j. unat (push_bit 2 (of_nat i) OR of_nat j :: u8) = i * 4 + j) [0 ..< 4]) [0 ..< 16]" by code_simp+
  then have "\<forall>i\<in>{0 ..< 4}. \<forall>j\<in>{0 ..< 16}. unat (push_bit 4 (of_nat i) OR of_nat j :: u8) = i * 16 + j"
    "\<forall>i\<in>{0 ..< 16}. \<forall>j\<in>{0 ..< 4}. unat (push_bit 2 (of_nat i) OR of_nat j :: u8) = i * 4 + j"
    unfolding list_all_iff set_upt by blast+
  from bspec [OF bspec [OF this(1), of "unat x"], of "unat y"] bspec [OF bspec [OF this(2), of "unat x"], of "unat y"]
  show "unat x < 4 \<Longrightarrow> unat y < 16 \<Longrightarrow> unat (push_bit 4 x OR y) = unat x * 16 + unat y"
    "unat x < 16 \<Longrightarrow> unat y < 4 \<Longrightarrow> unat (push_bit 2 x OR y) = unat x * 4 + unat y"
    unfolding of_nat_unat_self atLeastLessThan_iff by blast+
qed

lemma sextet2: "unat (sextet2 a b) = unat a mod 4 * 16 + unat b div 16"
  using unat_byte [of b] by (simp add: sextet2_def or_parts sextet_parts and_small less_mult_imp_div_less del: push_bit_and drop_bit_and)

lemma sextet3: "unat (sextet3 a b) = unat a mod 16 * 4 + unat b div 64"
  using unat_byte [of b] by (simp add: sextet3_def or_parts sextet_parts and_small less_mult_imp_div_less del: push_bit_and drop_bit_and)

lemmas sextets = sextet_parts(1,2,4,6) sextet2 sextet3

lemma sextets_small:
  "unat (sextet1 a) < 64" "unat (sextet2 a b) < 64" "unat (sextet3 a b) < 64" "unat (sextet4 a) < 64"
  "unat (push_bit 4 (a AND 0x03)) < 64" "unat (push_bit 2 (a AND 0x0F)) < 64"
proof -
  have "unat a div 4 < 64" "unat b div 16 < 16" "unat b div 64 < 4"
    using unat_byte [of a] unat_byte [of b] by (simp_all add: less_mult_imp_div_less)
  moreover have "unat a mod 4 < 4" "unat a mod 16 < 16" "unat a mod 64 < 64" by simp_all
  ultimately show "unat (sextet1 a) < 64" "unat (sextet2 a b) < 64" "unat (sextet3 a b) < 64" "unat (sextet4 a) < 64"
    "unat (push_bit 4 (a AND 0x03)) < 64" "unat (push_bit 2 (a AND 0x0F)) < 64"
    unfolding sextets by linarith+
qed

lemmas b64_chars = sextets_small [THEN b64_char_value, THEN conjunct1] sextets_small [THEN b64_char_value, THEN conjunct2, THEN no_pad]

lemma bytes_back:
  "byte (unat (sextet1 a) * 4 + unat (sextet2 a b) div 16) = a"
  "byte (unat (sextet2 a b) mod 16 * 16 + unat (sextet3 b c) div 4) = b"
  "byte (unat (sextet3 b c) mod 4 * 64 + unat (sextet4 c)) = c"
proof -
  have q: "unat b div 16 < 16" "unat c div 64 < 4" using unat_byte [of b] unat_byte [of c] by (simp_all add: less_mult_imp_div_less)
  then have "unat a div 4 * 4 + (unat a mod 4 * 16 + unat b div 16) div 16 = unat a"
    "(unat a mod 4 * 16 + unat b div 16) mod 16 * 16 + (unat b mod 16 * 4 + unat c div 64) div 4 = unat b"
    "(unat b mod 16 * 4 + unat c div 64) mod 4 * 64 + unat c mod 64 = unat c" by simp_all
  then show "byte (unat (sextet1 a) * 4 + unat (sextet2 a b) div 16) = a"
    "byte (unat (sextet2 a b) mod 16 * 16 + unat (sextet3 b c) div 4) = b"
    "byte (unat (sextet3 b c) mod 4 * 64 + unat (sextet4 c)) = c" unfolding sextets byte_def by (metis of_nat_unat_self)+
qed

lemma last_bytes_back:
  "byte (unat (sextet1 a) * 4 + unat (push_bit 4 (a AND 0x03)) div 16) = a"
  "byte (unat (sextet2 a b) mod 16 * 16 + unat (push_bit 2 (b AND 0x0F)) div 4) = b"
  using bytes_back(1) [of a 0] bytes_back(2) [of a b 0] by (simp_all add: sextets del: push_bit_and)

lemma b64_read_text: "b64_decode (b64_text xs n) = map of_char xs"
proof (induction xs n rule: b64_text.induct)
  case (1 a b c left n)
  have 2: "filter in_alphabet (if q then EOL @ t else u) = (if q then filter in_alphabet t else filter in_alphabet u)" for q t u
    by (simp only: EOL_skipped split: if_split) simp
  from 1 show ?case by (cases "n + 4 \<ge> BASE64_MAXLINE - 3")
      (simp_all add: b64_decode_def b64_chars 2 Let_def bytes_back EOL_skipped del: filter_append)
qed (use EOL_skipped [of "[]"] in \<open>simp_all add: b64_decode_def b64_chars Let_def last_bytes_back bytes_back in_alphabet_pad
  del: push_bit_and\<close>)

subsection \<open>Properties\<close>

lemma encoding_cases:
  "EncodeBase64 xs (int (length xs)) m =
     (if 0 < m \<and> Base64BufferSize (int (length xs)) \<le> m then Inr (Some (b64_text xs 0)) else Inr None)"
proof -
  have "EncodeBase64 xs (int (length xs)) m = Inr None" if "m \<le> 0 \<or> m < Base64BufferSize (int (length xs))"
    using that by (auto simp: EncodeBase64_def)
  then show ?thesis using EncodeBase64_text [of xs m] by auto
qed

text \<open>
  The encoder never leaves the array it is given, and it accepts exactly the arrays that \<open>Base64BufferSize\<close> asks for: for any
  text and any size of the array it either refuses, because that size is smaller, or returns the text of RFC 2045 for it, with its
  line ends, and leaves room for the final zero.
\<close>

theorem encoding_fits:
  "EncodeBase64 xs (int (length xs)) m =
     (if 0 < m \<and> Base64BufferSize (int (length xs)) \<le> m then Inr (Some (b64_text xs 0)) else Inr None)
   \<and> length (b64_text xs 0) < nat (Base64BufferSize (int (length xs)))"
  using encoding_cases room_enough by blast

text \<open>C35. What was encoded can be read back: the reader of RFC 2045 recovers exactly the bytes, however many lines the text has.\<close>

theorem encoding_read_back:
  assumes "EncodeBase64 xs (int (length xs)) m = Inr (Some t)"
  shows "b64_decode t = map of_char xs"
proof -
  have "t = b64_text xs 0" using assms encoding_cases [of xs m] by (auto split: if_splits)
  then show ?thesis by (simp add: b64_read_text)
qed

theorem encoding_read_back_witness:
  "EncodeBase64 ''user:pass'' 9 256 = Inr (Some (''dXNlcjpwYXNz'' @ EOL)) \<and> b64_decode (''dXNlcjpwYXNz'' @ EOL) = map of_char ''user:pass''"
proof -
  have e: "EncodeBase64 ''user:pass'' 9 256 = Inr (Some (''dXNlcjpwYXNz'' @ EOL))" by code_simp
  moreover from e have "b64_decode (''dXNlcjpwYXNz'' @ EOL) = map of_char ''user:pass''"
    by (intro encoding_read_back [of "''user:pass''" 256]) simp
  ultimately show ?thesis ..
qed

end
