(* ===== verification/HttpClient.thy ===== *)
theory HttpClient
  imports SelectLoop Base64 ConfigParam
begin

section \<open>The HTTP client and dynamic DNS\<close>

text \<open>
  HttpClient/HttpClient.c: the state machine of a request (\<open>HTTPC_Process\<close>), driven by the select thread, and the two clients of
  the dynamic DNS service, which ask for the address of the camera and announce it. The sockets, the clock, name resolution and the
  conversion of addresses are the parameter \<open>net_os\<close>. The client that serves /SendHttp.cgi shares the state machine; what it
  does with the answer is in UrlClient. Memory is assumed to be there for the strings of a client.
\<close>

subsection \<open>The system and the state\<close>

text \<open>
  What \<open>read\<close> brought and how much \<open>write\<close> took (nothing, if they answer 0 or -1), with whether \<open>errno\<close> is now one of EINTR,
  EAGAIN, EWOULDBLOCK.
\<close>

record 'x net_os =
  os_time :: "'x \<Rightarrow> int \<times> 'x"
  os_resolve :: "string \<Rightarrow> 'x \<Rightarrow> u32 option \<times> 'x"
  os_socket :: "'x \<Rightarrow> int \<times> 'x"
  os_nonblock :: "int \<Rightarrow> 'x \<Rightarrow> bool \<times> 'x"
  os_connect :: "int \<Rightarrow> u32 \<Rightarrow> u16 \<Rightarrow> 'x \<Rightarrow> 'x"
  os_close :: "int \<Rightarrow> 'x \<Rightarrow> 'x"
  os_so_error :: "int \<Rightarrow> 'x \<Rightarrow> int option \<times> 'x"
  os_write :: "int \<Rightarrow> string \<Rightarrow> 'x \<Rightarrow> (nat \<times> bool) \<times> 'x"
  os_read :: "int \<Rightarrow> nat \<Rightarrow> 'x \<Rightarrow> (string \<times> bool) \<times> 'x"
  os_pub_ip :: "'x \<Rightarrow> u32"
  String2IP :: "string \<Rightarrow> u32"
  IP2String :: "u32 \<Rightarrow> string"

definition DDNS_UPDATTING :: u32 where "DDNS_UPDATTING = 1"
definition DDNS_UPDATE_OK :: u32 where "DDNS_UPDATE_OK = 2"
definition DDNS_UPDATE_FAIL :: u32 where "DDNS_UPDATE_FAIL = 3"
definition DDNS_CHECK_IP_OK :: u32 where "DDNS_CHECK_IP_OK = 4"

lemmas ddns_states = DDNS_UPDATTING_def DDNS_UPDATE_OK_def DDNS_UPDATE_FAIL_def DDNS_CHECK_IP_OK_def

definition DDNS_TYPE_UNSUPPORTED :: u32 where "DDNS_TYPE_UNSUPPORTED = 0"
definition DDNS_TYPE_DYNDNS :: u32 where "DDNS_TYPE_DYNDNS = 1"
definition DDNS_TYPE_NOIP :: u32 where "DDNS_TYPE_NOIP = 2"
definition DDNS_TYPE_DNSOMATIC :: u32 where "DDNS_TYPE_DNSOMATIC = 3"

lemmas ddns_types = DDNS_TYPE_UNSUPPORTED_def DDNS_TYPE_DYNDNS_def DDNS_TYPE_NOIP_def DDNS_TYPE_DNSOMATIC_def

text \<open>The system and the variables of the program the clients use: \<open>g_WebCamState.iDDNSState\<close> and their part of the configuration.\<close>

record 'x web_env =
  sys :: 'x
  iDDNSState :: u32
  cfg :: ddns_cfg

datatype resp_state = RS_LINE | RS_CR | RS_LF2 | RS_CR2 | RS_FOUND

text \<open>Which client it is: the functions its last two members point to.\<close>

datatype http_kind = DDNS | CkIP_dyndns | CkIP_dnsomatic

record httpc =
  tLastOp :: int
  tConnTimeout :: int
  iConnectRetry :: nat
  addrHost :: u32
  pcServer :: string
  pcPath :: string
  iPort :: u32
  pcHost :: "string option"
  pcUserAgent :: "string option"
  pcUser :: "string option"
  pcPass :: "string option"
  pcProxy :: "string option"
  iProxyPort1 :: u32
  pcProxyUser :: "string option"
  pcProxyPass :: "string option"
  kind :: http_kind
  iLenTotal :: nat
  iLenOK :: nat
  acBuffer :: string
  acBody :: string
  eResState :: resp_state

text \<open>The one call the clients send to the thread.\<close>

datatype net_call = AddDDNS "httpc fd_t"

type_synonym 'x http_world = "(httpc, net_call, 'x web_env) sel_world"

definition upd_sys :: "('x \<Rightarrow> 'x) \<Rightarrow> 'x http_world \<Rightarrow> 'x http_world" where
  "upd_sys f W = W\<lparr>env := (env W)\<lparr>sys := f (sys (env W))\<rparr>\<rparr>"

definition ask_sys :: "('x \<Rightarrow> 'a \<times> 'x) \<Rightarrow> 'x http_world \<Rightarrow> 'a \<times> 'x http_world" where
  "ask_sys f W = (let (a, x) = f (sys (env W)) in (a, W\<lparr>env := (env W)\<lparr>sys := x\<rparr>\<rparr>))"

definition set_ddns_state :: "u32 \<Rightarrow> 'x http_world \<Rightarrow> 'x http_world" where
  "set_ddns_state v W = W\<lparr>env := (env W)\<lparr>iDDNSState := v\<rparr>\<rparr>"

subsection \<open>A client\<close>

definition HTTPC_MAX_CONNECT_RETRY :: nat where
  "HTTPC_MAX_CONNECT_RETRY = 3"

definition nonempty :: "string option \<Rightarrow> string option" where
  "nonempty t = (if t = Some [] then None else t)"

definition kind_type :: "http_kind \<Rightarrow> nat" where
  "kind_type k = (if k = DDNS then SE_TP_DDNSHTTPC else SE_TP_CKIP_HTTPC)"

definition HTTPC_Init ::
  "http_kind \<Rightarrow> string \<Rightarrow> string \<Rightarrow> u32 \<Rightarrow> string option \<Rightarrow> string option \<Rightarrow> string option \<Rightarrow> string option \<Rightarrow> string option \<Rightarrow> u32
     \<Rightarrow> string option \<Rightarrow> string option \<Rightarrow> httpc fd_t option" where
  "HTTPC_Init k server path port host agent user pass proxy proxyport proxyuser proxypass =
     (if server = [] then None
      else Some (FD_Init (- 1) (kind_type k) ST_NET_INIT 0 False False (Some
        \<lparr>tLastOp = 0, tConnTimeout = 5, iConnectRetry = 0, addrHost = 0, pcServer = server, pcPath = path, iPort = port,
         pcHost = nonempty host, pcUserAgent = nonempty agent, pcUser = nonempty user, pcPass = nonempty pass,
         pcProxy = nonempty proxy, iProxyPort1 = proxyport, pcProxyUser = nonempty proxyuser, pcProxyPass = nonempty proxypass,
         kind = k, iLenTotal = 0, iLenOK = 0, acBuffer = [], acBody = [], eResState = RS_LINE\<rparr>)))"

subsection \<open>The request\<close>

text \<open>\<open>sprintf\<close> behind what is in the buffer of 1024 characters, with its final zero.\<close>

definition BUFFER_SIZE :: nat where
  "BUFFER_SIZE = 1024"

definition sprintf_at :: "string \<Rightarrow> string \<Rightarrow> string checked" where
  "sprintf_at out t = (if length out + length t < BUFFER_SIZE then Inr (out @ t) else Inl OutOfBounds)"

definition opt_text :: "string option \<Rightarrow> string" where
  "opt_text t = (case t of None \<Rightarrow> [] | Some x \<Rightarrow> x)"

definition credentials :: "string option \<Rightarrow> string option \<Rightarrow> string" where
  "credentials u p = opt_text u @ (if u = None \<and> p = None then [] else '':'') @ opt_text p"

text \<open>
  The credentials are first printed behind the request, then encoded into an array of 256 characters, whose last line end is cut.
  None if the encoder refuses.
\<close>

definition encoded :: "string \<Rightarrow> string option \<Rightarrow> string option \<Rightarrow> string option checked" where
  "encoded out u p =
     bnd (sprintf_at out (credentials u p)) (\<lambda>_. bnd (EncodeBase64 (credentials u p) (int (length (credentials u p))) 256) (\<lambda>r.
       Inr (map_option (\<lambda>ac. take (length ac - 2) ac) r)))"

definition port_text :: "u32 \<Rightarrow> string" where
  "port_text n = (if n = 80 \<or> n = 0 then [] else '':'' @ (if sint n < 0 then ''-'' @ dec (nat (- sint n)) else dec (nat (sint n))))"

definition request_line :: "httpc \<Rightarrow> string" where
  "request_line h =
     (case pcProxy h of
        Some _ \<Rightarrow> ''GET HTTP://'' @ pcServer h @ port_text (iPort h) @ pcPath h @ '' HTTP/1.1'' @ EOL
      | None \<Rightarrow> ''GET '' @ pcPath h @ '' HTTP/1.1'' @ EOL)"

definition header_line :: "string \<Rightarrow> string option \<Rightarrow> string" where
  "header_line name v = (case v of None \<Rightarrow> [] | Some t \<Rightarrow> name @ t @ EOL)"

definition authorization :: "httpc \<Rightarrow> string \<Rightarrow> string checked" where
  "authorization h out =
     (if pcUser h = None \<and> pcPass h = None then Inr out
      else bnd (encoded out (pcUser h) (pcPass h)) (\<lambda>r. case r of None \<Rightarrow> Inr out
           | Some ac \<Rightarrow> sprintf_at out (''Authorization: Basic '' @ ac @ EOL)))"

definition proxy_authorization :: "httpc \<Rightarrow> string \<Rightarrow> string checked" where
  "proxy_authorization h out =
     (if pcProxy h = None then Inr out
      else bnd (if pcProxyUser h = None \<and> pcProxyPass h = None then Inr (Some []) else encoded out (pcProxyUser h) (pcProxyPass h)) (\<lambda>r.
           sprintf_at out (''Proxy-Authorization: Basic '' @ opt_text r @ EOL)))"

definition request_end :: string where
  "request_end = ''ACCEPT: */*'' @ EOL @ ''Pragma: no-cache'' @ EOL @ ''Cache-Control: no-cache'' @ EOL @ ''Connection: close'' @ EOL @ EOL"

definition http_request :: "httpc \<Rightarrow> string checked" where
  "http_request h =
     bnd (sprintf_at [] (request_line h)) (\<lambda>out.
     bnd (sprintf_at out (header_line ''HOST: '' (pcHost h))) (\<lambda>out.
     bnd (sprintf_at out (header_line ''User-Agent: '' (pcUserAgent h))) (\<lambda>out.
     bnd (authorization h out) (\<lambda>out.
     bnd (proxy_authorization h out) (\<lambda>out.
     sprintf_at out request_end)))))"

subsection \<open>The answer\<close>

text \<open>The header ends with the first empty line behind another one; \<open>Stop\<close> is the return of FALSE.\<close>

datatype verdict = Go | Stop | Good | Found string

fun header_next :: "char \<Rightarrow> resp_state \<Rightarrow> resp_state" where
  "header_next c RS_LINE = (if c = CHR 0x0A then RS_CR else RS_LINE)"
| "header_next c RS_CR = (if c = CHR 0x0D then RS_LF2 else if c = CHR 0x0A then RS_CR2 else RS_LINE)"
| "header_next c RS_LF2 = (if c = CHR 0x0A then RS_CR2 else RS_LINE)"
| "header_next c st = st"

definition BODY_SIZE :: nat where
  "BODY_SIZE = 64"

definition ip_char :: "char \<Rightarrow> bool" where
  "ip_char c = (c \<in> set ''0123456789. '' \<or> c = CHR 0x09)"

fun DDNSResponse_char :: "char \<Rightarrow> resp_state \<times> string \<Rightarrow> (resp_state \<times> string) \<times> verdict" where
  "DDNSResponse_char c (RS_CR2, b) =
     (if length b + 1 < BODY_SIZE
      then let b' = b @ [c] in ((RS_CR2, b'), if take 5 b' = ''nochg'' \<or> take 4 b' = ''good'' then Good else Go)
      else ((RS_CR2, b), Stop))"
| "DDNSResponse_char c (RS_FOUND, b) = ((RS_FOUND, b), Stop)"
| "DDNSResponse_char c (st, b) = ((header_next c st, b), Go)"

definition find_ip :: "char \<Rightarrow> resp_state \<times> string \<Rightarrow> (resp_state \<times> string) \<times> verdict" where
  "find_ip c q = (case q of (st, b) \<Rightarrow>
     if length b + 1 < BODY_SIZE then if \<not> ip_char c then ((st, b), Found b) else ((st, b @ [c]), Go) else ((st, b), Stop))"

fun CkIP_Response_dyndns_char :: "char \<Rightarrow> resp_state \<times> string \<Rightarrow> (resp_state \<times> string) \<times> verdict" where
  "CkIP_Response_dyndns_char c (RS_CR2, b) = ((if c = CHR '':'' then RS_FOUND else RS_CR2, b), Go)"
| "CkIP_Response_dyndns_char c (RS_FOUND, b) = find_ip c (RS_FOUND, b)"
| "CkIP_Response_dyndns_char c (st, b) = ((header_next c st, b), Go)"

fun CkIP_Response_dnsomatic_char :: "char \<Rightarrow> resp_state \<times> string \<Rightarrow> (resp_state \<times> string) \<times> verdict" where
  "CkIP_Response_dnsomatic_char c (RS_CR2, b) = find_ip c (RS_CR2, b)"
| "CkIP_Response_dnsomatic_char c (RS_FOUND, b) = ((RS_FOUND, b), Stop)"
| "CkIP_Response_dnsomatic_char c (st, b) = ((header_next c st, b), Go)"

fun response_char :: "http_kind \<Rightarrow> char \<Rightarrow> resp_state \<times> string \<Rightarrow> (resp_state \<times> string) \<times> verdict" where
  "response_char DDNS = DDNSResponse_char"
| "response_char CkIP_dyndns = CkIP_Response_dyndns_char"
| "response_char CkIP_dnsomatic = CkIP_Response_dnsomatic_char"

fun response_scan :: "http_kind \<Rightarrow> string \<Rightarrow> resp_state \<times> string \<Rightarrow> (resp_state \<times> string) \<times> verdict" where
  "response_scan k [] q = (q, Go)"
| "response_scan k (c # cs) q = (case response_char k c q of (q', v) \<Rightarrow> if v = Go then response_scan k cs q' else (q', v))"

subsection \<open>The dynamic DNS client\<close>

text \<open>The server, the path in front of and behind the host name, and the name of the agent.\<close>

definition ddns_service :: "u32 \<Rightarrow> (string \<times> (string \<times> string \<times> string) \<times> string) option" where
  "ddns_service t =
     (if t = DDNS_TYPE_DYNDNS
      then Some (''members.dyndns.org'', (''/nic/update?system=dyndns&hostname='', ''&myip='', ''&wildcard=NO&backmx=NO&offline=NO&mx=''),
             ''Rovio Update Client v1.0 roviotech@wowwee.com.hk'')
      else if t = DDNS_TYPE_NOIP
      then Some (''dynupdate.no-ip.com'', (''/nic/update?hostname='', ''&myip='', ''''), ''Rovio Update Client v1.0 roviotech@wowwee.com.hk'')
      else if t = DDNS_TYPE_DNSOMATIC
      then Some (''updates.dnsomatic.com'', (''/nic/update?system=dyndns&hostname='', ''&myip='', ''&wildcard=NO&backmx=NO&offline=NO&mx=''),
             ''wowwee Rovio Update Client v1.0'')
      else None)"

definition ACPATH_SIZE :: nat where
  "ACPATH_SIZE = 256"

definition insert_client :: "httpc fd_t option \<Rightarrow> 'x http_world \<Rightarrow> 'x http_world" where
  "insert_client c W = (case c of None \<Rightarrow> W | Some p \<Rightarrow> InsertCustomProcess (AddDDNS p) W)"

text \<open>The length of the path is checked with the two \<open>%s\<close> still in it.\<close>

definition Do_DNS :: "'x net_os \<Rightarrow> u32 \<Rightarrow> string \<Rightarrow> u32 \<Rightarrow> string \<Rightarrow> string \<Rightarrow> string \<Rightarrow> u32 \<Rightarrow> string \<Rightarrow> string \<Rightarrow> 'x http_world \<Rightarrow> 'x http_world" where
  "Do_DNS S t host ip0 user pass proxy proxyport proxyuser proxypass W =
     (case ddns_service t of None \<Rightarrow> W
      | Some (server, (p1, p2, p3), agent) \<Rightarrow>
          let ip = (if ip0 = 0 then os_pub_ip S (sys (env W)) else ip0)
          in if ip = 0 \<or> host = [] then W
             else if length (p1 @ ''%s'' @ p2 @ ''%s'' @ p3) + length (IP2String S ip) + length host > ACPATH_SIZE then W
             else insert_client (HTTPC_Init DDNS server (p1 @ host @ p2 @ IP2String S ip @ p3) 80 (Some server) (Some agent)
                    (Some user) (Some pass) (nonempty (Some proxy)) proxyport (Some proxyuser) (Some proxypass)) W)"

definition DDNS_Do_CheckIP :: "u32 \<Rightarrow> string \<Rightarrow> u32 \<Rightarrow> string \<Rightarrow> string \<Rightarrow> 'x http_world \<Rightarrow> 'x http_world" where
  "DDNS_Do_CheckIP t proxy proxyport proxyuser proxypass W =
     (let client = (\<lambda>server k. insert_client (HTTPC_Init k server ''/'' 80 (Some server)
            (Some ''Mozilla/4.0 (compatible; MSIE 5.00; Windows 98)'') None None (nonempty (Some proxy)) proxyport (Some proxyuser) (Some proxypass)) W)
      in if t = DDNS_TYPE_DYNDNS \<or> t = DDNS_TYPE_NOIP then client ''checkip.dyndns.com'' CkIP_dyndns
         else if t = DDNS_TYPE_DNSOMATIC then client ''myip.dnsomatic.com'' CkIP_dnsomatic
         else W)"

definition DDNS_CheckIP :: "'x http_world \<Rightarrow> 'x http_world" where
  "DDNS_CheckIP W = (let g = cfg (env W) in DDNS_Do_CheckIP (eDDNSType g) (acProxy g) (iProxyPort g) (acProxyUser g) (acProxyPass g) W)"

definition DDNS_Update_IP :: "'x net_os \<Rightarrow> u32 \<Rightarrow> 'x http_world \<Rightarrow> 'x http_world" where
  "DDNS_Update_IP S uIP W =
     (case ask_sys (os_resolve S (acDDNSDomainName (cfg (env W)))) W of (pHost, W1) \<Rightarrow>
        if pHost = Some uIP then W1
        else let g = cfg (env W1)
             in if bEnableDDNS g
                then Do_DNS S (eDDNSType g) (acDDNSDomainName g) uIP (acDDNSUserName g) (acDDNSUserPass g) (acProxy g) (iProxyPort g)
                       (acProxyUser g) (acProxyPass g) W1
                else W1)"

definition DDNS_Update :: "'x net_os \<Rightarrow> 'x http_world \<Rightarrow> 'x http_world" where
  "DDNS_Update S W =
     (let g = cfg (env W) in if bEnableDDNS g then if ulDDNSIP g = 0 then DDNS_CheckIP W else DDNS_Update_IP S (ulDDNSIP g) W else W)"

text \<open>What the thread does for \<open>AddDDNS\<close>: running clients of the service leave the list; the sets and the sockets stay as they are.\<close>

fun run_call :: "net_call \<Rightarrow> httpc select_thread \<times> 'x http_world \<Rightarrow> httpc select_thread \<times> 'x http_world" where
  "run_call (AddDDNS p) (T, W) =
     (T\<lparr>pFDList := filter (\<lambda>q. \<not> (iType q = SE_TP_DDNSHTTPC \<or> iType q = SE_TP_CKIP_HTTPC)) (pFDList T)\<rparr>,
      AddSelectFD p (set_ddns_state DDNS_UPDATTING W))"

text \<open>\<open>pfunOnResponse\<close> and \<open>pfunOnRequestOver\<close>.\<close>

definition OnResponse :: "'x net_os \<Rightarrow> string \<Rightarrow> httpc \<Rightarrow> 'x http_world \<Rightarrow> bool \<times> httpc \<times> 'x http_world" where
  "OnResponse S acResponse h W =
     (case response_scan (kind h) acResponse (eResState h, acBody h) of ((st, b), v) \<Rightarrow>
        let h' = h\<lparr>eResState := st, acBody := b\<rparr>
        in case v of
             Go \<Rightarrow> (True, h', W)
           | Stop \<Rightarrow> (False, h', W)
           | Good \<Rightarrow> (False, h', set_ddns_state DDNS_UPDATE_OK W)
           | Found t \<Rightarrow> (False, h', DDNS_Update_IP S (String2IP S t) (set_ddns_state DDNS_CHECK_IP_OK W)))"

definition OnRequestOver :: "httpc \<Rightarrow> 'x http_world \<Rightarrow> 'x http_world" where
  "OnRequestOver h W =
     (if iDDNSState (env W) \<noteq> (if kind h = DDNS then DDNS_UPDATE_OK else DDNS_CHECK_IP_OK) then set_ddns_state DDNS_UPDATE_FAIL W else W)"

subsection \<open>The state machine\<close>

type_synonym 'x fd_call = "(bool \<times> httpc fd_t \<times> 'x http_world) checked"

definition next_state :: "nat \<Rightarrow> bool \<Rightarrow> bool \<Rightarrow> int \<Rightarrow> httpc \<Rightarrow> httpc fd_t \<Rightarrow> 'x http_world \<Rightarrow> 'x fd_call" where
  "next_state st r w t h p W = Inr (True, (FD_Next st r w t p)\<lparr>owner := Some h\<rparr>, W)"

definition stay :: "httpc \<Rightarrow> httpc fd_t \<Rightarrow> 'x http_world \<Rightarrow> 'x fd_call" where
  "stay h p W = Inr (True, p\<lparr>owner := Some h\<rparr>, W)"

definition st_init :: "'x net_os \<Rightarrow> httpc \<Rightarrow> httpc fd_t \<Rightarrow> 'x http_world \<Rightarrow> 'x fd_call" where
  "st_init S h p W =
     (case ask_sys (os_resolve S (case pcProxy h of None \<Rightarrow> pcServer h | Some x \<Rightarrow> x)) W of
        (None, W1) \<Rightarrow> next_state ST_NET_OVER False False 0 h p W1
      | (Some a, W1) \<Rightarrow> next_state ST_NET_CONNECT False False 0 (h\<lparr>addrHost := a\<rparr>) p W1)"

definition server_port :: "httpc \<Rightarrow> u16" where
  "server_port h = (let n = (if pcProxy h = None then iPort h else iProxyPort1 h) in ucast (if n = 0 then 80 else n))"

definition st_connect :: "'x net_os \<Rightarrow> httpc \<Rightarrow> httpc fd_t \<Rightarrow> 'x http_world \<Rightarrow> 'x fd_call" where
  "st_connect S h p W =
     (let W0 = (if iFD p \<noteq> - 1 then upd_sys (os_close S (iFD p)) W else W); p0 = p\<lparr>iFD := - 1\<rparr>;
          h0 = h\<lparr>iConnectRetry := iConnectRetry h + 1\<rparr>
      in if iConnectRetry h0 > HTTPC_MAX_CONNECT_RETRY then next_state ST_NET_OVER False False 0 h0 p0 W0
         else case ask_sys (os_socket S) W0 of (fd, W1) \<Rightarrow>
           let p1 = p0\<lparr>iFD := fd\<rparr>
           in if fd < 0 then next_state ST_NET_OVER False False 0 h0 p1 W1
              else case ask_sys (os_nonblock S fd) W1 of (nb, W2) \<Rightarrow>
                if \<not> nb then next_state ST_NET_OVER False False 0 h0 p1 W2
                else case ask_sys (os_time S) (upd_sys (os_connect S fd (addrHost h0) (server_port h0)) W2) of (t, W3) \<Rightarrow>
                  next_state ST_NET_CONNECTING True True (tConnTimeout h0 * 1000) (h0\<lparr>tLastOp := t\<rparr>) p1 W3)"

definition st_connecting :: "'x net_os \<Rightarrow> httpc \<Rightarrow> httpc fd_t \<Rightarrow> 'x http_world \<Rightarrow> 'x fd_call" where
  "st_connecting S h p W =
     (if \<not> (bReadable p \<or> bWritable p)
      then case ask_sys (os_time S) W of (t, W1) \<Rightarrow>
        if t - tLastOp h > tConnTimeout h then next_state ST_NET_CONNECT False False 0 h p W1 else stay h p W1
      else case ask_sys (os_so_error S (iFD p)) W of (e, W1) \<Rightarrow>
        if e = Some 0
        then case ask_sys (os_time S) W1 of (t, W2) \<Rightarrow>
          bnd (http_request h) (\<lambda>out.
            next_state ST_NET_WRITE False True (tConnTimeout h * 1000)
              (h\<lparr>tLastOp := t, acBuffer := out, iLenTotal := length out, iLenOK := 0\<rparr>) p W2)
        else next_state ST_NET_CONNECT False False 0 h p W1)"

definition write_timeout :: "'x net_os \<Rightarrow> httpc \<Rightarrow> httpc fd_t \<Rightarrow> 'x http_world \<Rightarrow> 'x fd_call" where
  "write_timeout S h p W =
     (case ask_sys (os_time S) W of (t, W1) \<Rightarrow>
        if t - tLastOp h > tConnTimeout h then next_state ST_NET_OVER False False 0 h p W1 else stay h p W1)"

definition st_write :: "'x net_os \<Rightarrow> httpc \<Rightarrow> httpc fd_t \<Rightarrow> 'x http_world \<Rightarrow> 'x fd_call" where
  "st_write S h p W =
     (if \<not> bWritable p then write_timeout S h p W
      else case ask_sys (os_write S (iFD p) (take (iLenTotal h - iLenOK h) (drop (iLenOK h) (acBuffer h)))) W of
        ((n, again), W1) \<Rightarrow>
          if n = 0 then if again then write_timeout S h p W1 else next_state ST_NET_OVER False False 0 h p W1
          else case ask_sys (os_time S) W1 of (t, W2) \<Rightarrow>
            let h1 = h\<lparr>tLastOp := t, iLenOK := iLenOK h + n\<rparr>
            in if iLenOK h1 \<ge> iLenTotal h1
               then next_state ST_NET_READ True False (tConnTimeout h * 1000) (h1\<lparr>iLenOK := 0, iLenTotal := 0\<rparr>) p W2
               else stay h1 p W2)"

text \<open>The answer is read in parts of at most half the buffer, and handed on whenever half of it is full, and at the end.\<close>

definition answer_so_far :: "'x net_os \<Rightarrow> httpc \<Rightarrow> 'x http_world \<Rightarrow> bool \<times> httpc \<times> 'x http_world" where
  "answer_so_far S h W = OnResponse S (take (iLenOK h) (acBuffer h)) h W"

definition answer_over :: "'x net_os \<Rightarrow> httpc \<Rightarrow> httpc fd_t \<Rightarrow> 'x http_world \<Rightarrow> 'x fd_call" where
  "answer_over S h p W = (case answer_so_far S h W of (_, h1, W1) \<Rightarrow> next_state ST_NET_OVER False False 0 h1 p W1)"

definition st_read :: "'x net_os \<Rightarrow> httpc \<Rightarrow> httpc fd_t \<Rightarrow> 'x http_world \<Rightarrow> 'x fd_call" where
  "st_read S h p W =
     (case ask_sys (os_time S) W of (t, W1) \<Rightarrow>
        if t - tLastOp h > tConnTimeout h then answer_over S h p W1
        else if \<not> bReadable p then stay h p W1
        else if iLenOK h + BUFFER_SIZE div 2 > BUFFER_SIZE then Inl OutOfBounds
        else case ask_sys (os_read S (iFD p) (BUFFER_SIZE div 2)) W1 of
          ((d, again), W2) \<Rightarrow>
            if d = [] then if again then stay h p W2 else answer_over S h p W2
            else let h1 = h\<lparr>acBuffer := take (iLenOK h) (acBuffer h) @ d, iLenOK := iLenOK h + length d\<rparr>
              in if iLenOK h1 \<ge> BUFFER_SIZE div 2
                 then case answer_so_far S h1 W2 of (go, h2, W3) \<Rightarrow>
                   if go then stay (h2\<lparr>iLenOK := 0, tLastOp := t\<rparr>) p W3 else next_state ST_NET_OVER False False 0 h2 p W3
                 else stay (h1\<lparr>tLastOp := t\<rparr>) p W2)"

definition st_over :: "'x net_os \<Rightarrow> httpc \<Rightarrow> httpc fd_t \<Rightarrow> 'x http_world \<Rightarrow> 'x fd_call" where
  "st_over S h p W =
     (let W1 = OnRequestOver h W in Inr (False, p, if iFD p \<noteq> - 1 then upd_sys (os_close S (iFD p)) W1 else W1))"

definition HTTPC_Process :: "'x net_os \<Rightarrow> httpc fd_t \<Rightarrow> 'x http_world \<Rightarrow> 'x fd_call" where
  "HTTPC_Process S p W =
     (case owner p of None \<Rightarrow> Inl NullDeref
      | Some h \<Rightarrow>
          if iState p = ST_NET_INIT then st_init S h p W
          else if iState p = ST_NET_CONNECT then st_connect S h p W
          else if iState p = ST_NET_CONNECTING then st_connecting S h p W
          else if iState p = ST_NET_WRITE then st_write S h p W
          else if iState p = ST_NET_READ then st_read S h p W
          else if iState p = ST_NET_OVER then st_over S h p W
          else Inr (False, p, W))"

text \<open>The calls of one client, with what the thread marks it before each; they end when its function returns FALSE.\<close>

fun http_calls :: "'x net_os \<Rightarrow> (bool \<times> bool) list \<Rightarrow> httpc fd_t \<Rightarrow> 'x http_world \<Rightarrow> 'x fd_call" where
  "http_calls S [] p W = Inr (True, p, W)"
| "http_calls S ((r, w) # ms) p W =
     bnd (HTTPC_Process S (p\<lparr>bReadable := r, bWritable := w\<rparr>) W) (\<lambda>(keep, p', W').
       if keep then http_calls S ms p' W' else Inr (False, p', W'))"

lemmas http_states = st_init_def st_connect_def st_connecting_def write_timeout_def st_write_def answer_over_def answer_so_far_def
  st_read_def st_over_def

text \<open>
  What POSIX says of these calls, \<open>opn\<close> being the descriptors the thread has open: a new one is not among them, closing removes
  one, a read returns at most what was asked for, and nothing else opens or closes any.
\<close>

definition os_laws :: "'x net_os \<Rightarrow> ('x \<Rightarrow> int set) \<Rightarrow> bool" where
  "os_laws S opn =
     ((\<forall>x. opn (snd (os_time S x)) = opn x) \<and> (\<forall>n x. opn (snd (os_resolve S n x)) = opn x)
    \<and> (\<forall>x. case os_socket S x of (fd, y) \<Rightarrow> if fd < 0 then opn y = opn x else fd \<notin> opn x \<and> opn y = insert fd (opn x))
    \<and> (\<forall>fd x. opn (snd (os_nonblock S fd x)) = opn x) \<and> (\<forall>fd a n x. opn (os_connect S fd a n x) = opn x)
    \<and> (\<forall>fd x. opn (os_close S fd x) = opn x - {fd}) \<and> (\<forall>fd x. opn (snd (os_so_error S fd x)) = opn x)
    \<and> (\<forall>fd t x. opn (snd (os_write S fd t x)) = opn x) \<and> (\<forall>fd n x. opn (snd (os_read S fd n x)) = opn x)
    \<and> (\<forall>fd n x. length (fst (fst (os_read S fd n x))) \<le> n) \<and> (\<forall>x. \<forall>fd\<in>opn x. 0 \<le> fd))"

definition good_call :: "net_call \<Rightarrow> bool" where
  "good_call c = (case c of AddDDNS p \<Rightarrow> iFD p < 0 \<and> owner p \<noteq> None)"

subsection \<open>A client and its socket\<close>

definition opened_in :: "('x \<Rightarrow> int set) \<Rightarrow> 'x http_world \<Rightarrow> int set" where
  "opened_in opn W = opn (sys (env W))"

text \<open>Steps of the world that neither open nor close anything and post only proper messages.\<close>

definition quiet :: "('x \<Rightarrow> int set) \<Rightarrow> 'x http_world \<Rightarrow> 'x http_world \<Rightarrow> bool" where
  "quiet opn W W' = (opened_in opn W' = opened_in opn W \<and> (fresh_adds good_call W \<longrightarrow> fresh_adds good_call W'))"

lemma quiet_refl [simp]: "quiet opn W W"
  by (simp add: quiet_def)

lemma quiet_trans: "quiet opn W W' \<Longrightarrow> quiet opn W' W'' \<Longrightarrow> quiet opn W W''"
  by (simp add: quiet_def)

lemma fresh_adds_env: "msg_queue W' = msg_queue W \<Longrightarrow> pMsg W' = pMsg W \<Longrightarrow> fresh_adds good_call W' = fresh_adds good_call W"
  by (simp add: fresh_adds_def)

lemma ask_sys_sel: "ask_sys f W = (a, W') \<Longrightarrow> f (sys (env W)) = (a, sys (env W')) \<and> msg_queue W' = msg_queue W \<and> pMsg W' = pMsg W"
  by (auto simp: ask_sys_def split: prod.splits)

lemma ask_sys_quiet:
  assumes "ask_sys f W = (a, W')" and "\<And>x. opn (snd (f x)) = opn x"
  shows "quiet opn W W'"
  using ask_sys_sel [OF assms(1)] assms(2) [of "sys (env W)"] fresh_adds_env [of W' W] by (simp add: quiet_def opened_in_def)

lemma set_ddns_state_quiet: "quiet opn W (set_ddns_state v W)"
  by (simp add: quiet_def opened_in_def set_ddns_state_def fresh_adds_def)

lemma HTTPC_Init_ok:
  "HTTPC_Init k server path port host agent user pass proxy proxyport proxyuser proxypass = Some p \<Longrightarrow>
     iFD p = - 1 \<and> iState p = ST_NET_INIT \<and> owner p \<noteq> None"
  by (auto simp: HTTPC_Init_def FD_Init_def split: if_splits)

lemma insert_client_quiet: "(\<And>p. c = Some p \<Longrightarrow> iFD p < 0 \<and> owner p \<noteq> None) \<Longrightarrow> quiet opn W (insert_client c W)"
  by (auto simp: quiet_def opened_in_def insert_client_def InsertCustomProcess_def send_msg_def fresh_adds_def good_call_def split: option.splits)

lemma Do_DNS_quiet: "quiet opn W (Do_DNS S t host ip user pass proxy pport puser ppass W)"
proof -
  have "quiet opn W (insert_client (HTTPC_Init k a b c d e f g h i j l) W)" for k a b c d e f g h i j l
    by (rule insert_client_quiet) (use HTTPC_Init_ok in fastforce)
  then show ?thesis by (simp add: Do_DNS_def Let_def split: option.splits prod.splits)
qed

lemma os_lawsD:
  assumes "os_laws S opn"
  shows "opn (snd (os_time S x)) = opn x" "opn (snd (os_resolve S n x)) = opn x" "opn (snd (os_nonblock S fd x)) = opn x"
    "opn (os_connect S fd a pt x) = opn x" "opn (os_close S fd x) = opn x - {fd}" "opn (snd (os_so_error S fd x)) = opn x"
    "opn (snd (os_write S fd t x)) = opn x" "opn (snd (os_read S fd m x)) = opn x"
    "length (fst (fst (os_read S fd m x))) \<le> m" "fd \<in> opn x \<Longrightarrow> 0 \<le> fd"
  using assms unfolding os_laws_def by (simp_all only: simp_thms)

lemma os_laws_socket:
  assumes "os_laws S opn" and "os_socket S x = (fd, y)"
  shows "if fd < 0 then opn y = opn x else fd \<notin> opn x \<and> opn y = insert fd (opn x)"
proof -
  have "case os_socket S x of (fd, y) \<Rightarrow> if fd < 0 then opn y = opn x else fd \<notin> opn x \<and> opn y = insert fd (opn x)"
    using assms(1) by (simp only: os_laws_def)
  then show ?thesis using assms(2) by simp
qed

lemma DDNS_Update_IP_quiet: "os_laws S opn \<Longrightarrow> quiet opn W (DDNS_Update_IP S ip W)"
  unfolding DDNS_Update_IP_def Let_def
proof (split prod.split, intro allI impI)
  fix r W1
  assume l: "os_laws S opn" and "ask_sys (os_resolve S (acDDNSDomainName (cfg (env W)))) W = (r, W1)"
  from this(2) have "quiet opn W W1" by (rule ask_sys_quiet) (rule os_lawsD [OF l])
  then show "quiet opn W (if r = Some ip then W1 else if bEnableDDNS (cfg (env W1))
      then Do_DNS S (eDDNSType (cfg (env W1))) (acDDNSDomainName (cfg (env W1))) ip (acDDNSUserName (cfg (env W1)))
        (acDDNSUserPass (cfg (env W1))) (acProxy (cfg (env W1))) (iProxyPort (cfg (env W1))) (acProxyUser (cfg (env W1)))
        (acProxyPass (cfg (env W1))) W1 else W1)"
    using \<open>quiet opn W W1\<close> quiet_trans [OF \<open>quiet opn W W1\<close> Do_DNS_quiet] by simp
qed

lemma OnResponse_quiet:
  assumes "os_laws S opn" and "OnResponse S r h W = (go, h', W')"
  shows "quiet opn W W'"
  using assms(2) quiet_trans [OF set_ddns_state_quiet DDNS_Update_IP_quiet [OF assms(1)]] set_ddns_state_quiet
  by (auto simp: OnResponse_def Let_def split: prod.splits verdict.splits)

lemma OnRequestOver_quiet: "quiet opn W (OnRequestOver h W)"
  by (simp add: OnRequestOver_def set_ddns_state_quiet)

text \<open>What a call does to the descriptors: nothing, or it closes its own one, or it replaces it by a new one.\<close>

definition own_change :: "('x \<Rightarrow> int set) \<Rightarrow> httpc fd_t \<Rightarrow> 'x http_world \<Rightarrow> httpc fd_t \<Rightarrow> 'x http_world \<Rightarrow> bool" where
  "own_change opn p W p' W' =
     ((fresh_adds good_call W \<longrightarrow> fresh_adds good_call W')
    \<and> (iFD p' = iFD p \<and> opened_in opn W' = opened_in opn W \<or> iFD p' < 0 \<and> opened_in opn W' = opened_in opn W - {iFD p}
     \<or> 0 \<le> iFD p' \<and> iFD p' \<notin> opened_in opn W - {iFD p} \<and> opened_in opn W' = insert (iFD p') (opened_in opn W - {iFD p})))"

definition call_keeps :: "('x \<Rightarrow> int set) \<Rightarrow> httpc fd_t \<Rightarrow> 'x http_world \<Rightarrow> 'x fd_call \<Rightarrow> bool" where
  "call_keeps opn p W r = (\<forall>keep p' W'. r = Inr (keep, p', W') \<longrightarrow> keep \<and> bReadable p' = bReadable p \<and> bWritable p' = bWritable p
     \<and> owner p' \<noteq> None \<and> iState p' \<in> {0, 1, 2, 3, 4, 6} \<and> own_change opn p W p' W')"

lemma next_state_keeps:
  "own_change opn p W q W' \<Longrightarrow> bReadable q = bReadable p \<Longrightarrow> bWritable q = bWritable p \<Longrightarrow> st \<in> {0, 1, 2, 3, 4, 6}
     \<Longrightarrow> call_keeps opn p W (next_state st r w t h q W')"
  by (auto simp: call_keeps_def next_state_def FD_Next_def own_change_def)

lemma stay_keeps: "quiet opn W W' \<Longrightarrow> iState p \<in> {0, 1, 2, 3, 4, 6} \<Longrightarrow> call_keeps opn p W (stay h p W')"
  by (auto simp: call_keeps_def stay_def own_change_def quiet_def)

lemma quiet_own: "quiet opn W W' \<Longrightarrow> own_change opn p W p W'"
  by (auto simp: own_change_def quiet_def)

lemmas quiet_next = next_state_keeps [OF quiet_own refl refl]

lemma upd_sys_sel: "msg_queue (upd_sys f W) = msg_queue W" "pMsg (upd_sys f W) = pMsg W" "sys (env (upd_sys f W)) = f (sys (env W))"
  by (simp_all add: upd_sys_def)

lemma st_init_keeps:
  assumes "os_laws S opn"
  shows "call_keeps opn p W (st_init S h p W)"
proof -
  obtain r W1 where r: "ask_sys (os_resolve S (case pcProxy h of None \<Rightarrow> pcServer h | Some x \<Rightarrow> x)) W = (r, W1)" by fastforce
  have "quiet opn W W1" using ask_sys_quiet [OF r] os_lawsD(2) [OF assms] by blast
  then show ?thesis by (cases r) (simp_all add: st_init_def r quiet_next net_states)
qed

lemma own_change_quiet: "own_change opn p W q W1 \<Longrightarrow> quiet opn W1 W2 \<Longrightarrow> own_change opn p W q W2"
  by (auto simp: own_change_def quiet_def)

lemma st_connect_keeps:
  assumes "os_laws S opn"
  shows "call_keeps opn p W (st_connect S h p W)"
proof -
  let ?W0 = "if iFD p \<noteq> - 1 then upd_sys (os_close S (iFD p)) W else W"
  have nn: "- 1 \<notin> opn x" for x using os_lawsD(10) [OF assms, of "- 1" x] by auto
  have o0: "opened_in opn ?W0 = opened_in opn W - {iFD p}" using os_lawsD(5) [OF assms] nn
    by (auto simp: opened_in_def upd_sys_sel)
  have f0: "fresh_adds good_call ?W0 = fresh_adds good_call W" by (rule fresh_adds_env) (simp_all add: upd_sys_sel)
  have c0: "own_change opn p W (p\<lparr>iFD := fd\<rparr>) ?W0" if "fd < 0" for fd using o0 f0 that by (simp add: own_change_def)
  show ?thesis
  proof (cases "iConnectRetry h + 1 > HTTPC_MAX_CONNECT_RETRY")
    case True
    then show ?thesis using c0 [of "- 1"] by (auto simp: st_connect_def Let_def net_states intro!: next_state_keeps)
  next
    case False
    obtain fd W1 where s: "ask_sys (os_socket S) ?W0 = (fd, W1)" by fastforce
    have sys1: "os_socket S (sys (env ?W0)) = (fd, sys (env W1))" "fresh_adds good_call W1 = fresh_adds good_call W"
      using ask_sys_sel [OF s] f0 fresh_adds_env [of W1 ?W0] by auto
    have c1: "own_change opn p W (p\<lparr>iFD := fd\<rparr>) W1"
      using os_laws_socket [OF assms sys1(1)] o0 sys1(2) by (auto simp: own_change_def opened_in_def split: if_splits)
    obtain nb W2 where n: "ask_sys (os_nonblock S fd) W1 = (nb, W2)" by fastforce
    have c2: "own_change opn p W (p\<lparr>iFD := fd\<rparr>) W2"
      using own_change_quiet [OF c1 ask_sys_quiet [OF n]] os_lawsD(3) [OF assms] by blast
    let ?W3 = "upd_sys (os_connect S fd (addrHost h) (server_port (h\<lparr>iConnectRetry := iConnectRetry h + 1\<rparr>))) W2"
    have q3: "quiet opn W2 ?W3" using os_lawsD(4) [OF assms] by (simp add: quiet_def opened_in_def upd_sys_sel fresh_adds_def)
    obtain t W4 where t: "ask_sys (os_time S) ?W3 = (t, W4)" by fastforce
    have "quiet opn ?W3 W4" using ask_sys_quiet [OF t] os_lawsD(1) [OF assms] by blast
    then have c4: "own_change opn p W (p\<lparr>iFD := fd\<rparr>) W4" using own_change_quiet [OF c2 quiet_trans [OF q3]] by blast
    show ?thesis using False s n t c1 c2 c4 unfolding st_connect_def Let_def
      by (auto simp: net_states split: if_splits intro!: next_state_keeps)
  qed
qed

lemma ask_quiet_intros:
  assumes "os_laws S opn"
  shows "ask_sys (os_time S) W = (t, W') \<Longrightarrow> quiet opn W W'" "ask_sys (os_so_error S fd) W = (e, W') \<Longrightarrow> quiet opn W W'"
    "ask_sys (os_write S fd tx) W = (wr, W') \<Longrightarrow> quiet opn W W'" "ask_sys (os_read S fd m) W = (rd, W') \<Longrightarrow> quiet opn W W'"
  by (rule ask_sys_quiet, assumption, rule os_lawsD [OF assms])+

lemma st_connecting_keeps:
  assumes "os_laws S opn" and "iState p \<in> {0, 1, 2, 3, 4, 6}"
  shows "call_keeps opn p W (st_connecting S h p W)"
proof (cases "bReadable p \<or> bWritable p")
  case False
  then show ?thesis using assms ask_quiet_intros [OF assms(1)]
    by (auto simp: st_connecting_def net_states split: prod.splits if_splits intro!: quiet_next stay_keeps)
next
  case True
  obtain e W1 where e: "ask_sys (os_so_error S (iFD p)) W = (e, W1)" by fastforce
  obtain t W2 where t: "ask_sys (os_time S) W1 = (t, W2)" by fastforce
  have q: "quiet opn W W1" "quiet opn W W2"
    using ask_quiet_intros(2) [OF assms(1) e] quiet_trans [OF _ ask_quiet_intros(1) [OF assms(1) t]] by blast+
  have b: "call_keeps opn p W (bnd r (\<lambda>out. next_state ST_NET_WRITE a b c (f out) p W2))" for r a b c f
    using quiet_next [OF q(2)] by (cases r) (simp_all add: net_states call_keeps_def [of opn p W "Inl _"])
  show ?thesis using True e t q b by (auto simp: st_connecting_def net_states intro!: quiet_next)
qed

lemma write_timeout_keeps:
  assumes "os_laws S opn" and "iState p \<in> {0, 1, 2, 3, 4, 6}" and "quiet opn W W0"
  shows "call_keeps opn p W (write_timeout S h p W0)"
  using assms ask_quiet_intros(1) [OF assms(1)] quiet_trans [OF assms(3)]
  by (auto simp: write_timeout_def net_states split: prod.splits if_splits intro!: quiet_next stay_keeps)

lemma st_write_keeps:
  assumes "os_laws S opn" and "iState p \<in> {0, 1, 2, 3, 4, 6}"
  shows "call_keeps opn p W (st_write S h p W)"
proof (cases "bWritable p")
  case True
  obtain r W1 where r: "ask_sys (os_write S (iFD p) (take (iLenTotal h - iLenOK h) (drop (iLenOK h) (acBuffer h)))) W = (r, W1)" by fastforce
  obtain t W2 where t: "ask_sys (os_time S) W1 = (t, W2)" by fastforce
  have q: "quiet opn W W1" "quiet opn W W2"
    using ask_quiet_intros(3) [OF assms(1) r] quiet_trans [OF _ ask_quiet_intros(1) [OF assms(1) t]] by blast+
  show ?thesis using True r t assms q write_timeout_keeps [OF assms q(1)]
    by (auto simp: st_write_def Let_def net_states split: prod.splits intro!: quiet_next stay_keeps)
next
  case False
  then show ?thesis using write_timeout_keeps [OF assms quiet_refl] by (simp add: st_write_def)
qed

lemma answer_over_keeps:
  assumes "os_laws S opn" and "quiet opn W W0"
  shows "call_keeps opn p W (answer_over S h p W0)"
  using quiet_trans [OF assms(2) OnResponse_quiet [OF assms(1)]]
  by (auto simp: answer_over_def answer_so_far_def net_states split: prod.splits intro!: quiet_next)

lemma st_read_keeps:
  assumes "os_laws S opn" and "iState p \<in> {0, 1, 2, 3, 4, 6}"
  shows "call_keeps opn p W (st_read S h p W)"
proof -
  obtain t W1 where t: "ask_sys (os_time S) W = (t, W1)" by fastforce
  obtain d again W2 where r: "ask_sys (os_read S (iFD p) (BUFFER_SIZE div 2)) W1 = ((d, again), W2)" by (metis surj_pair)
  have q: "quiet opn W W1" "quiet opn W W2"
    using ask_quiet_intros(1) [OF assms(1) t] quiet_trans [OF _ ask_quiet_intros(4) [OF assms(1) r]] by blast+
  have a: "call_keeps opn p W (answer_over S h p W1)" "call_keeps opn p W (answer_over S h p W2)"
    using answer_over_keeps [OF assms(1)] q by blast+
  have c: "call_keeps opn p W (case answer_so_far S h1 W2 of (go, h2, W3) \<Rightarrow>
      if go then stay (f h2) p W3 else next_state ST_NET_OVER b1 b2 n (g h2) p W3)" for h1 f g b1 b2 n
    using quiet_trans [OF q(2) OnResponse_quiet [OF assms(1)]] assms(2)
    by (auto simp: answer_so_far_def net_states split: prod.splits intro!: quiet_next stay_keeps)
  have s: "call_keeps opn p W (stay h' p W1)" "call_keeps opn p W (stay h' p W2)" for h' using stay_keeps q assms(2) by blast+
  show ?thesis unfolding st_read_def t prod.case r Let_def
    using a c s by (simp add: call_keeps_def [of opn p W "Inl _"])
qed

subsection \<open>An example\<close>

text \<open>A system without network: its state are the open descriptors.\<close>

definition offline_net :: "int set net_os" where
  "offline_net = \<lparr>os_time = (\<lambda>x. (0, x)), os_resolve = (\<lambda>n x. (None, x)), os_socket = (\<lambda>x. (- 1, x)), os_nonblock = (\<lambda>fd x. (True, x)),
     os_connect = (\<lambda>fd a n x. x), os_close = (\<lambda>fd x. x - {fd}), os_so_error = (\<lambda>fd x. (None, x)), os_write = (\<lambda>fd t x. ((0, True), x)),
     os_read = (\<lambda>fd n x. (([], True), x)), os_pub_ip = (\<lambda>x. 0), String2IP = (\<lambda>t. 0), IP2String = (\<lambda>n. [])\<rparr>"

definition example_open :: "int set \<Rightarrow> int set" where
  "example_open x = {fd \<in> x. 0 \<le> fd}"

lemma offline_net_laws: "os_laws offline_net example_open"
  by (auto simp: os_laws_def offline_net_def example_open_def)

definition checkip_client :: "httpc fd_t" where
  "checkip_client = the (HTTPC_Init CkIP_dyndns ''checkip.dyndns.com'' ''/'' 80 (Some ''checkip.dyndns.com'')
     (Some ''Mozilla/4.0 (compatible; MSIE 5.00; Windows 98)'') None None None 0 (Some []) (Some []))"

definition example_ddns :: ddns_cfg where
  "example_ddns = \<lparr>bEnableDDNS = True, eDDNSType = 1, acDDNSUserName = ''user'', acDDNSUserPass = ''pass'', acDDNSDomainName = ''my.dyndns.org'',
     ulDDNSIP = 0, acProxyUser = [], acProxyPass = [], acProxy = [], iProxyPort = 0\<rparr>"

definition example_world :: "(httpc, net_call) thread_msg list \<Rightarrow> u32 \<Rightarrow> (httpc, net_call) thread_msg \<Rightarrow> int set http_world" where
  "example_world q st m = \<lparr>pMsg = m, msg_queue = q, env = \<lparr>sys = {3}, iDDNSState = st, cfg = example_ddns\<rparr>\<rparr>"

lemma checkip_client_sel: "iFD checkip_client = - 1" "owner checkip_client \<noteq> None" "iType checkip_client = SE_TP_CKIP_HTTPC"
  by (simp_all add: checkip_client_def HTTPC_Init_def FD_Init_def kind_type_def)

end
