(* ===== verification/NetClients.thy ===== *)
theory NetClients
  imports HttpClient
begin

section \<open>The network clients in the select thread\<close>

text \<open>
  What holds of the clients of HttpClient in the loop of SelectLoop: the thread waits for exactly the descriptors its clients want
  and what is left of clients that were replaced while they were ready, and a client that ends leaves no socket behind. And what does
  not hold: a client that is replaced while it runs leaves its socket open and, if it was ready, its descriptor in the sets.
\<close>

subsection \<open>The contract\<close>

lemma HTTPC_Process_cases:
  assumes "os_laws S opn" and "HTTPC_Process S p W = Inr (keep, p', W')"
  shows "(keep \<longrightarrow> own_change opn p W p' W') \<and> (\<not> keep \<longrightarrow> p' = p \<and> opened_in opn W - {iFD p} \<subseteq> opened_in opn W'
      \<and> (iState p \<in> {0, 1, 2, 3, 4, 6} \<longrightarrow> opened_in opn W' = opened_in opn W - {iFD p}))
    \<and> bReadable p' = bReadable p \<and> bWritable p' = bWritable p \<and> owner p' \<noteq> None
    \<and> (fresh_adds good_call W \<longrightarrow> fresh_adds good_call W') \<and> (keep \<longrightarrow> iState p' \<in> {0, 1, 2, 3, 4, 6})"
proof -
  obtain h where h: "owner p = Some h" using assms(2) by (cases "owner p") (simp_all add: HTTPC_Process_def)
  have keeps: ?thesis if "call_keeps opn p W (Inr (keep, p', W'))"
    using that by (auto simp: call_keeps_def own_change_def)
  have over: ?thesis if o: "st_over S h p W = Inr (keep, p', W')"
  proof -
    let ?W1 = "OnRequestOver h W"
    have q: "opened_in opn ?W1 = opened_in opn W" "fresh_adds good_call W \<longrightarrow> fresh_adds good_call ?W1"
      using OnRequestOver_quiet [of opn W h] by (simp_all add: quiet_def)
    have k: "keep = False" "p' = p" "W' = (if iFD p \<noteq> - 1 then upd_sys (os_close S (iFD p)) ?W1 else ?W1)"
      using o by (auto simp: st_over_def Let_def)
    have "- 1 \<notin> opened_in opn W" using os_lawsD(10) [OF assms(1), of "- 1"] by (auto simp: opened_in_def)
    then have "opened_in opn W' = opened_in opn W - {iFD p}"
      using q(1) os_lawsD(5) [OF assms(1)] by (cases "iFD p = - 1") (simp_all add: k(3) opened_in_def upd_sys_sel)
    moreover have "fresh_adds good_call W' = fresh_adds good_call ?W1" by (rule fresh_adds_env) (simp_all add: k(3) upd_sys_sel)
    ultimately show ?thesis using k(1,2) q(2) h by simp
  qed
  consider "iState p = 0" | "iState p = 1" | "iState p = 2" | "iState p = 4" | "iState p = 3" | "iState p = 6"
    | "iState p \<notin> {0, 1, 2, 3, 4, 6}" by auto
  then show ?thesis
  proof cases
    case 6
    then show ?thesis using over assms(2) h by (simp add: HTTPC_Process_def net_states)
  next
    case 7
    then have "keep = False" "p' = p" "W' = W" using assms(2) h by (simp_all add: HTTPC_Process_def net_states)
    with 7 h show ?thesis by auto
  qed (use assms h keeps st_init_keeps [OF assms(1), of p W h] st_connect_keeps [OF assms(1), of p W h]
      st_connecting_keeps [OF assms(1), of p W h] st_write_keeps [OF assms(1), of p W h] st_read_keeps [OF assms(1), of p W h]
      in \<open>simp_all add: HTTPC_Process_def net_states\<close>)
qed

text \<open>\<open>select\<close> as documented: it returns subsets, and while the thread waits others may post proper messages.\<close>

definition sel_laws :: "(int \<Rightarrow> int set \<Rightarrow> int set \<Rightarrow> int option \<Rightarrow> 'x http_world \<Rightarrow> select_result \<times> 'x http_world)
    \<Rightarrow> ('x \<Rightarrow> int set) \<Rightarrow> bool" where
  "sel_laws sel opn = (\<forall>n R V t W. case sel n R V t W of (res, W') \<Rightarrow>
     fst (ready_sets res) \<subseteq> R \<and> snd (ready_sets res) \<subseteq> V \<and> opened_in opn W' = opened_in opn W
     \<and> (fresh_adds good_call W \<longrightarrow> fresh_adds good_call W'))"

lemma sel_lawsD:
  assumes "sel_laws sel opn" and "sel n R V t W = (res, W')"
  shows "fst (ready_sets res) \<subseteq> R \<and> snd (ready_sets res) \<subseteq> V \<and> opened_in opn W' = opened_in opn W
    \<and> (fresh_adds good_call W \<longrightarrow> fresh_adds good_call W')"
proof -
  have "case sel n R V t W of (res, W') \<Rightarrow> fst (ready_sets res) \<subseteq> R \<and> snd (ready_sets res) \<subseteq> V \<and> opened_in opn W' = opened_in opn W
    \<and> (fresh_adds good_call W \<longrightarrow> fresh_adds good_call W')" 
    by (rule assms(1) [unfolded sel_laws_def, THEN spec, THEN spec, THEN spec, THEN spec, THEN spec])
  then show ?thesis using assms(2) by simp
qed

interpretation http_loop: select_clients
  "if sel_laws sel opn then sel else (\<lambda>n R V t W. (SelectError, W))"
  "if os_laws S opn then HTTPC_Process S else (\<lambda>p W. Inl Hang)"
  run_call "\<lambda>e. opn (sys e)" good_call for sel S opn
proof unfold_locales
  fix n R V t res and W W' :: "'a http_world"
  assume *: "(if sel_laws sel opn then sel else (\<lambda>n R V t W. (SelectError, W))) n R V t W = (res, W')"
  show "fst (ready_sets res) \<subseteq> R \<and> snd (ready_sets res) \<subseteq> V \<and> opn (sys (env W')) = opn (sys (env W))
      \<and> (fresh_adds good_call W \<longrightarrow> fresh_adds good_call W')"
  proof (cases "sel_laws sel opn")
    case True
    with sel_lawsD [OF True] * show ?thesis by (simp add: opened_in_def)
  qed (use * in auto)
next
  fix p p' keep and W W' :: "'a http_world"
  assume *: "(if os_laws S opn then HTTPC_Process S else (\<lambda>p W. Inl Hang)) p W = Inr (keep, p', W')" "fresh_adds good_call W"
  then have l: "os_laws S opn" "HTTPC_Process S p W = Inr (keep, p', W')" by (simp_all split: if_splits)
  note c = HTTPC_Process_cases [OF l] and f = *(2)
  have sub: "opn (sys (env W)) - {iFD p} \<subseteq> opn (sys (env W'))"
    using c unfolding own_change_def opened_in_def by (cases keep) auto
  have new: "(iFD p' = iFD p \<and> (iFD p \<in> opn (sys (env W)) \<longrightarrow> iFD p \<in> opn (sys (env W')))) \<or>
      (iFD p' \<in> opn (sys (env W')) \<and> iFD p' \<notin> opn (sys (env W)) - {iFD p})" if "keep" "0 \<le> iFD p'"
    using c that unfolding own_change_def opened_in_def by auto
  show "bReadable p' = bReadable p \<and> bWritable p' = bWritable p \<and> fresh_adds good_call W' \<and>
      opn (sys (env W)) - {iFD p} \<subseteq> opn (sys (env W')) \<and> (keep \<longrightarrow> 0 \<le> iFD p' \<longrightarrow>
      (iFD p' = iFD p \<and> (iFD p \<in> opn (sys (env W)) \<longrightarrow> iFD p \<in> opn (sys (env W')))) \<or>
      (iFD p' \<in> opn (sys (env W')) \<and> iFD p' \<notin> opn (sys (env W)) - {iFD p}))"
    using c f sub new by blast
next
  fix c T T' and W W' :: "'a http_world"
  assume "run_call c (T, W) = (T', W')" and "fresh_adds good_call W" and "good_call c"
  then show "fresh_adds good_call W' \<and> opn (sys (env W)) \<subseteq> opn (sys (env W')) \<and> fdReadSet T' = fdReadSet T \<and>
      fdWriteSet T' = fdWriteSet T \<and> (\<exists>P. pFDList T' = filter P (pFDList T))"
    by (cases c) (auto simp: good_call_def fresh_adds_def AddSelectFD_def send_msg_def set_ddns_state_def)
qed

text \<open>
  C24. What the thread waits for. In every round, after any number of rounds in which clients were added, connected, timed out, ended
  or were replaced, the sets given to \<open>select\<close> are exactly the descriptors the clients of the list want to read or write, as a
  computation from scratch would give, and what is left of \<open>D\<close>. \<open>D\<close> holds the descriptors of clients that a new update threw
  out of the list in a round in which they were ready: they are still open, belong to no client of the list, and stay in the set
  they were in until \<open>select\<close> once finds them not ready. As long as no client is thrown out while it is ready \<open>D\<close> is empty, and
  the sets are exactly the wanted ones. (That \<open>D\<close> can have members is \<open>replaced_client_leaks\<close> below.)
\<close>

theorem select_sets_exact:
  assumes "os_laws S opn" and "sel_laws sel opn" and "0 \<le> fd" and "fd \<in> opened_in opn W0" and "fresh_adds good_call W0"
    and "select_run sel (HTTPC_Process S) run_call (SelectThread_start fd, W0) (T, W) D"
    and "set_wants (pFDList T) (fdReadSet T, fdWriteSet T) = (R, V)"
  shows "R = wanted bWantRead (pFDList T) \<union> (fdReadSet T \<inter> D) \<and> V = wanted bWantWrite (pFDList T) \<union> (fdWriteSet T \<inter> D)
    \<and> D \<inter> fds (pFDList T) = {} \<and> D \<subseteq> opened_in opn W"
  using http_loop.sets_exact [of sel opn S fd W0 T W D R V] assms by (simp add: opened_in_def)

definition example_sel :: "int \<Rightarrow> int set \<Rightarrow> int set \<Rightarrow> int option \<Rightarrow> int set http_world \<Rightarrow> select_result \<times> int set http_world" where
  "example_sel n R V t W = (Ready R {}, W)"

lemma example_rounds:
  "select_pass example_sel (HTTPC_Process offline_net) (SelectThread_start 3) (example_world [MSG_CUSTOM_PROC (Some (AddDDNS checkip_client))] 0 MSG_NONE)
     = Inr (Some ((SelectThread_start 3)\<lparr>fdReadSet := {3}, pFDList := [(SELECT_MSG_Init 3)\<lparr>bReadable := True\<rparr>]\<rparr>,
         example_world [] 0 (MSG_CUSTOM_PROC (Some (AddDDNS checkip_client)))))"
  "handle_msg run_call ((SelectThread_start 3)\<lparr>fdReadSet := {3}, pFDList := [(SELECT_MSG_Init 3)\<lparr>bReadable := True\<rparr>]\<rparr>)
      (example_world [] 0 (MSG_CUSTOM_PROC (Some (AddDDNS checkip_client))))
     = Inr (Some ((SelectThread_start 3)\<lparr>fdReadSet := {3}, pFDList := [(SELECT_MSG_Init 3)\<lparr>bReadable := True\<rparr>]\<rparr>,
         example_world [MSG_ADD_FD (Some checkip_client)] DDNS_UPDATTING (MSG_CUSTOM_PROC (Some (AddDDNS checkip_client)))))"
  by (simp_all add: select_pass_def handle_msg_def SelectThread_start_def SELECT_MSG_Init_def FD_Init_def want_bit_def max_fd_def
      least_timeout_def select_time_def example_sel_def example_world_def SELECT_MSG_Process_def AddSelectFD_def send_msg_def
      set_ddns_state_def SE_TP_MSG_def SE_TP_DDNSHTTPC_def SE_TP_CKIP_HTTPC_def)

theorem select_sets_exact_witness:
  "\<exists>T W. select_run example_sel (HTTPC_Process offline_net) run_call (SelectThread_start 3, example_world [MSG_CUSTOM_PROC (Some (AddDDNS checkip_client))] 0 MSG_NONE)
      (T, W) {} \<and> iDDNSState (env W) = DDNS_UPDATTING \<and> wanted bWantRead (pFDList T) = {3} \<and>
      fst (set_wants (pFDList T) (fdReadSet T, fdWriteSet T)) = {3}"
proof -
  let ?Start = "example_world [MSG_CUSTOM_PROC (Some (AddDDNS checkip_client))] 0 MSG_NONE"
  let ?T = "(SelectThread_start 3)\<lparr>fdReadSet := {3}, pFDList := [(SELECT_MSG_Init 3)\<lparr>bReadable := True\<rparr>]\<rparr> :: httpc select_thread"
  let ?W = "example_world [MSG_ADD_FD (Some checkip_client)] DDNS_UPDATTING (MSG_CUSTOM_PROC (Some (AddDDNS checkip_client)))"
  have r: "select_run example_sel (HTTPC_Process offline_net) run_call (SelectThread_start 3, ?Start) (?T, ?W) {}"
  proof -
    have e: "{} \<union> (ready_fds (pFDList ?T) - fds (pFDList ?T)) = {}" by (auto simp: ready_fds_def fds_def)
    from select_run.round [OF select_run.start example_rounds] show ?thesis unfolding e .
  qed
  have laws: "sel_laws example_sel example_open" "3 \<in> opened_in example_open ?Start" "fresh_adds good_call ?Start"
    by (simp_all add: sel_laws_def example_sel_def opened_in_def example_open_def example_world_def fresh_adds_def good_call_def checkip_client_sel)
  have w: "wanted bWantRead (pFDList ?T) = {3}" by (auto simp: wanted_def SELECT_MSG_Init_def FD_Init_def)
  obtain R V where RV: "set_wants (pFDList ?T) (fdReadSet ?T, fdWriteSet ?T) = (R, V)" by fastforce
  have "R = {3}" using select_sets_exact [OF offline_net_laws laws(1) _ laws(2,3) r RV] unfolding w by auto
  then show ?thesis using r w RV by (intro exI [of _ ?T] exI [of _ ?W]) (simp add: example_world_def)
qed

subsection \<open>Sockets\<close>

definition has_only :: "('x \<Rightarrow> int set) \<Rightarrow> int set \<Rightarrow> httpc fd_t \<Rightarrow> 'x http_world \<Rightarrow> bool" where
  "has_only opn Z p W = (if iFD p < 0 then opened_in opn W = Z else iFD p \<notin> Z \<and> opened_in opn W = insert (iFD p) Z)"

lemma own_change_only:
  assumes "own_change opn p W p' W'" and "has_only opn Z p W" and "\<forall>fd\<in>Z. 0 \<le> fd"
  shows "has_only opn Z p' W'"
proof -
  have Z: "opened_in opn W - {iFD p} = Z" using assms(2,3) by (cases "iFD p < 0") (auto simp: has_only_def)
  consider "iFD p' = iFD p" "opened_in opn W' = opened_in opn W" | "iFD p' < 0" "opened_in opn W' = Z"
    | "0 \<le> iFD p'" "iFD p' \<notin> Z" "opened_in opn W' = insert (iFD p') Z"
    using assms(1) unfolding own_change_def Z by blast
  then show ?thesis using assms(2) by cases (simp_all add: has_only_def)
qed

text \<open>
  C34. A client leaves no socket behind: however the network behaves and however often it tries, a client has at most one socket open
  at a time, its own, and when it ends the thread has exactly the descriptors open it had before.
\<close>

theorem client_leaves_no_socket:
  assumes "os_laws S opn"
    and "HTTPC_Init k server path port host agent user pass proxy proxyport proxyuser proxypass = Some p"
    and "http_calls S ms p W = Inr (running, p', W')"
  shows "if running then has_only opn (opened_in opn W) p' W' else opened_in opn W' = opened_in opn W"
proof -
  let ?Z = "opened_in opn W"
  have nn: "\<forall>fd\<in>?Z. 0 \<le> fd" using os_lawsD(10) [OF assms(1)] by (simp add: opened_in_def)
  have p: "iFD p = - 1" "iState p = 0" using HTTPC_Init_ok [OF assms(2)] by (simp_all add: net_states)
  have "http_calls S ms q V = Inr (running, p', W') \<Longrightarrow> has_only opn ?Z q V \<Longrightarrow> iState q \<in> {0, 1, 2, 3, 4, 6} \<Longrightarrow>
      if running then has_only opn ?Z p' W' else opened_in opn W' = ?Z" for q V
  proof (induction ms arbitrary: q V)
    case (Cons m ms)
    obtain r w where m: "m = (r, w)" by (cases m)
    let ?q = "q\<lparr>bReadable := r, bWritable := w\<rparr>"
    from Cons.prems(1) obtain keep q1 V1 where c: "HTTPC_Process S ?q V = Inr (keep, q1, V1)" by (auto simp: m bnd_Inr)
    note law = HTTPC_Process_cases [OF assms(1) c]
    have h: "has_only opn ?Z ?q V" using Cons.prems(2) by (simp add: has_only_def)
    show ?case
    proof (cases keep)
      case True
      then show ?thesis using Cons.IH [of q1 V1] Cons.prems(1) c law own_change_only [OF _ h nn] by (simp add: m)
    next
      case False
      have "iState ?q \<in> {0, 1, 2, 3, 4, 6}" using Cons.prems(3) by simp
      then have "opened_in opn V1 = opened_in opn V - {iFD ?q}" using law False by blast
      then have "opened_in opn V1 = opened_in opn V - {iFD q}" by simp
      also have "\<dots> = ?Z" using Cons.prems(2) nn by (auto simp: has_only_def split: if_splits)
      finally show ?thesis using Cons.prems(1) c False by (simp add: m)
    qed
  qed simp
  from this [OF assms(3)] show ?thesis using p by (simp add: has_only_def)
qed

theorem client_leaves_no_socket_witness:
  "\<exists>p' W'. http_calls offline_net [(False, False), (False, False)] checkip_client (example_world [] 1 MSG_NONE) = Inr (False, p', W')
     \<and> iDDNSState (env W') = DDNS_UPDATE_FAIL \<and> opened_in example_open W' = {3}"
proof -
  let ?W = "example_world [] 1 MSG_NONE"
  obtain p' W' where r: "http_calls offline_net [(False, False), (False, False)] checkip_client ?W = Inr (False, p', W')"
    and f: "iDDNSState (env W') = DDNS_UPDATE_FAIL"
    by (simp add: checkip_client_def HTTPC_Init_def FD_Init_def HTTPC_Process_def net_states st_init_def st_over_def ask_sys_def
        offline_net_def example_world_def next_state_def FD_Next_def OnRequestOver_def nonempty_def set_ddns_state_def ddns_states upd_sys_def)
  have i: "HTTPC_Init CkIP_dyndns ''checkip.dyndns.com'' ''/'' 80 (Some ''checkip.dyndns.com'')
     (Some ''Mozilla/4.0 (compatible; MSIE 5.00; Windows 98)'') None None None 0 (Some []) (Some []) = Some checkip_client"
    by (simp add: checkip_client_def HTTPC_Init_def)
  have "opened_in example_open W' = opened_in example_open ?W"
    using client_leaves_no_socket [OF offline_net_laws i r] by simp
  also have "\<dots> = {3}" by (auto simp: opened_in_def example_open_def example_world_def)
  finally show ?thesis using r f by blast
qed

text \<open>
  A client that is replaced does: when the camera starts a new update (or asks for its address again) while a client of the
  service runs, that client leaves the list with its socket open. The thread never closes it again, and if the client was readable
  the thread keeps waiting for its descriptor, so that it does not block any more while there is something to read.
\<close>

theorem replaced_client_leaks:
  assumes "os_laws S opn" and "sel_laws sel opn" and "fresh_adds good_call W" and "good_call (AddDDNS q)"
    and ok: "sets_ok (pFDList T) D (fdReadSet T, fdWriteSet T) (opened_in opn W)"
    and p: "p \<in> set (pFDList T)" "0 \<le> iFD p" "iType p = SE_TP_DDNSHTTPC \<or> iType p = SE_TP_CKIP_HTTPC"
    and "run_call (AddDDNS q) (T, W) = (T1, W1)"
    and "select_run sel (HTTPC_Process S) run_call (T1, W1) (T2, W2) D2"
  shows "iFD p \<in> opened_in opn W2 \<and> iFD p \<notin> fds (pFDList T2)
    \<and> (bReadable p \<longrightarrow> iFD p \<in> fst (set_wants (pFDList T1) (fdReadSet T1, fdWriteSet T1)))"
proof -
  let ?keep = "\<lambda>x. \<not> (iType x = SE_TP_DDNSHTTPC \<or> iType x = SE_TP_CKIP_HTTPC)"
  have T1: "fdReadSet T1 = fdReadSet T" "fdWriteSet T1 = fdWriteSet T" "pFDList T1 = filter ?keep (pFDList T)"
    "opened_in opn W1 = opened_in opn W" "fresh_adds good_call W1"
    using assms(3,4,9) by (auto simp: AddSelectFD_def send_msg_def set_ddns_state_def opened_in_def fresh_adds_def good_call_def)
  have s: "separate (pFDList T)" "matched bReadable (pFDList T) D (fdReadSet T)" "matched bWritable (pFDList T) D (fdWriteSet T)"
    "fds (pFDList T) \<subseteq> opened_in opn W" "D \<subseteq> opened_in opn W" "D \<inter> fds (pFDList T) = {}" "\<forall>x\<in>D. 0 \<le> x"
    using ok by (simp_all add: sets_ok_def)
  let ?G = "fds (pFDList T) - fds (pFDList T1)"
  have sub: "fds (pFDList T1) \<subseteq> fds (pFDList T)" "set (pFDList T1) \<subseteq> set (pFDList T)" by (auto simp: T1(3) fds_def)
  have out: "iFD p \<notin> fds (pFDList T1)"
  proof
    assume "iFD p \<in> fds (pFDList T1)"
    then obtain x where x: "x \<in> set (pFDList T)" "?keep x" "iFD x = iFD p" by (auto simp: T1(3) fds_def)
    then have "x = p" using separate_same [OF s(1) p(1) x(1) p(2) x(3)] by simp
    with x(2) p(3) show False by simp
  qed
  have G: "iFD p \<in> ?G" using out fds_in [OF p(1,2)] by blast
  have "sets_ok (pFDList T1) (D \<union> ?G) (fdReadSet T1, fdWriteSet T1) (opened_in opn W1)"
  proof -
    have "matched able (pFDList T1) (D \<union> ?G) X" if "matched able (pFDList T) D X" for able X
      using that sub by (auto simp: matched_def)
    moreover have "separate (pFDList T1)" unfolding T1(3) by (rule separate_filter [OF s(1)])
    moreover have "fds (pFDList T1) \<subseteq> opened_in opn W" "D \<union> ?G \<subseteq> opened_in opn W" "(D \<union> ?G) \<inter> fds (pFDList T1) = {}"
      "\<forall>x\<in>D \<union> ?G. 0 \<le> x" using s(4-7) sub(1) fds_nonneg by blast+
    ultimately show ?thesis using s(2,3) by (simp add: sets_ok_def T1)
  qed
  then have "sets_ok (pFDList T2) (D \<union> ?G \<union> D2) (fdReadSet T2, fdWriteSet T2) (opened_in opn W2)"
    using http_loop.run_sets_ok [of sel opn S "(T1, W1)" "(T2, W2)" D2 "D \<union> ?G"] assms(1,2,10) T1(5) by (simp add: opened_in_def)
  then have "iFD p \<in> opened_in opn W2 \<and> iFD p \<notin> fds (pFDList T2)" using G unfolding sets_ok_def by blast
  moreover have "iFD p \<in> fst (set_wants (pFDList T1) (fdReadSet T1, fdWriteSet T1))" if "bReadable p"
  proof -
    have "\<forall>x\<in>set (pFDList T1). 0 \<le> iFD x \<longrightarrow> (iFD x \<in> fdReadSet T \<longleftrightarrow> bReadable x)" using s(2) sub(2) by (auto simp: matched_def)
    moreover have "iFD p \<in> fdReadSet T" using s(2) p that by (simp add: matched_def)
    ultimately show ?thesis using set_wants1_in [of "pFDList T1" "fdReadSet T" bReadable "iFD p" bWantRead] out separate_filter [OF s(1)]
      by (simp add: set_wants_split T1)
  qed
  ultimately show ?thesis by blast
qed

definition example_running :: "int set http_world" where
  "example_running = (example_world [] 1 MSG_NONE)\<lparr>env := \<lparr>sys = {3, 5}, iDDNSState = 1, cfg = example_ddns\<rparr>\<rparr>"

theorem replaced_client_leaks_witness:
  "\<exists>T1 W1. run_call (AddDDNS checkip_client) (\<lparr>fdReadSet = {5}, fdWriteSet = {}, pFDList = [SELECT_MSG_Init 3,
       checkip_client\<lparr>iFD := 5, iState := 3, bReadable := True, bWantRead := True\<rparr>]\<rparr>, example_running) = (T1, W1)
     \<and> map iFD (pFDList T1) = [3] \<and> 5 \<in> opened_in example_open W1 \<and> 5 \<in> fst (set_wants (pFDList T1) (fdReadSet T1, fdWriteSet T1))"
proof -
  let ?p = "checkip_client\<lparr>iFD := 5, iState := 3, bReadable := True, bWantRead := True\<rparr>"
  let ?T = "\<lparr>fdReadSet = {5}, fdWriteSet = {}, pFDList = [SELECT_MSG_Init 3, ?p]\<rparr>"
  let ?T1 = "?T\<lparr>pFDList := [SELECT_MSG_Init 3]\<rparr>"
  let ?W1 = "AddSelectFD checkip_client (set_ddns_state DDNS_UPDATTING example_running)"
  have r: "run_call (AddDDNS checkip_client) (?T, example_running) = (?T1, ?W1)"
    by (simp add: SELECT_MSG_Init_def FD_Init_def SE_TP_MSG_def SE_TP_DDNSHTTPC_def SE_TP_CKIP_HTTPC_def checkip_client_def
        HTTPC_Init_def kind_type_def)
  have s: "sets_ok (pFDList ?T) {} (fdReadSet ?T, fdWriteSet ?T) (opened_in example_open example_running)"
    by (simp add: sets_ok_def matched_def SELECT_MSG_Init_def FD_Init_def opened_in_def example_open_def example_running_def example_world_def
        checkip_client_def HTTPC_Init_def)
  have f: "fresh_adds good_call example_running" "good_call (AddDDNS checkip_client)" "?p \<in> set (pFDList ?T)" "0 \<le> iFD ?p"
      "iType ?p = SE_TP_DDNSHTTPC \<or> iType ?p = SE_TP_CKIP_HTTPC" "sel_laws example_sel example_open"
    by (simp_all add: fresh_adds_def example_running_def example_world_def good_call_def checkip_client_sel sel_laws_def example_sel_def)
  have "5 \<in> opened_in example_open ?W1 \<and> 5 \<in> fst (set_wants (pFDList ?T1) (fdReadSet ?T1, fdWriteSet ?T1))"
    using replaced_client_leaks [OF offline_net_laws f(6,1,2) s f(3-5) r select_run.start] by simp
  moreover have "map iFD (pFDList ?T1) = [3]" by (simp add: SELECT_MSG_Init_def FD_Init_def)
  ultimately show ?thesis using r by (intro exI [of _ ?T1] exI [of _ ?W1]) (simp only: simp_thms)
qed

end
