(* ===== verification/DdnsClient.thy ===== *)
theory DdnsClient
  imports HttpClient
begin

section \<open>What the dynamic DNS clients send and read\<close>

text \<open>
  The two clients of HttpClient at work: with a configuration whose strings fit their arrays, no name server, no server and no network
  makes a client leave its buffers, and the answer of the service, in whatever parts it arrives, decides the state that is reported.
\<close>

subsection \<open>The request fits\<close>

text \<open>The arrays of the configuration (with the final zero), and what they make of the strings of a client.\<close>

definition ddns_fits :: "ddns_cfg \<Rightarrow> bool" where
  "ddns_fits g = (length (acDDNSUserName g) < 24 \<and> length (acDDNSUserPass g) < 24 \<and> length (acDDNSDomainName g) < 32
     \<and> length (acProxyUser g) < 24 \<and> length (acProxyPass g) < 24 \<and> length (acProxy g) < 32)"

definition client_fits :: "httpc \<Rightarrow> bool" where
  "client_fits h = (iPort h = 80 \<and> length (pcServer h) \<le> 24 \<and> length (pcPath h) \<le> 256 \<and> length (opt_text (pcHost h)) \<le> 24
     \<and> length (opt_text (pcUserAgent h)) \<le> 64 \<and> length (credentials (pcUser h) (pcPass h)) \<le> 47
     \<and> length (credentials (pcProxyUser h) (pcProxyPass h)) \<le> 47)"

lemma sprintf_at_ok: "length out + length t < BUFFER_SIZE \<Longrightarrow> sprintf_at out t = Inr (out @ t)"
  by (simp add: sprintf_at_def)

lemma small_encoding:
  assumes "length xs \<le> 47"
  shows "\<exists>t. EncodeBase64 xs (int (length xs)) 256 = Inr (Some t) \<and> length t \<le> 68"
proof -
  have "Base64BufferSize (int (length xs)) \<le> Base64BufferSize 47"
    unfolding Base64BufferSize_def Let_def using assms
    by (intro add_mono zdiv_mono1 mult_right_mono mult_left_mono order_refl) (simp_all add: BASE64_MAXLINE_def)
  also have "\<dots> = 68" by (simp add: Base64BufferSize_def BASE64_MAXLINE_def)
  finally have "Base64BufferSize (int (length xs)) \<le> 68" .
  then show ?thesis using EncodeBase64_text [of xs 256] room_enough [of xs] by simp
qed

lemma small_encoded:
  assumes "length out \<le> 900" and "length (credentials u p) \<le> 47"
  shows "\<exists>t. encoded out u p = Inr (Some t) \<and> length t \<le> 66"
proof -
  obtain t where "EncodeBase64 (credentials u p) (int (length (credentials u p))) 256 = Inr (Some t)" "length t \<le> 68"
    using small_encoding [OF assms(2)] by blast
  then show ?thesis using assms by (simp add: encoded_def sprintf_at_ok BUFFER_SIZE_def)
qed

lemma header_line_length: "length (header_line name v) \<le> length name + length (opt_text v) + 2"
  by (simp add: header_line_def opt_text_def split: option.split)

lemma authorization_fits:
  assumes "length out \<le> 900" and "length (credentials (pcUser h) (pcPass h)) \<le> 47"
  shows "\<exists>o1. authorization h out = Inr o1 \<and> length o1 \<le> length out + 89"
proof (cases "pcUser h = None \<and> pcPass h = None")
  case False
  obtain t where "encoded out (pcUser h) (pcPass h) = Inr (Some t)" "length t \<le> 66" using small_encoded [OF assms] by blast
  then show ?thesis using assms(1) False by (auto simp: authorization_def sprintf_at_ok BUFFER_SIZE_def)
qed (simp add: authorization_def)

lemma proxy_authorization_fits:
  assumes "length out \<le> 900" and "length (credentials (pcProxyUser h) (pcProxyPass h)) \<le> 47"
  shows "\<exists>o1. proxy_authorization h out = Inr o1 \<and> length o1 \<le> length out + 95"
proof -
  obtain t where "encoded out (pcProxyUser h) (pcProxyPass h) = Inr (Some t)" "length t \<le> 66" using small_encoded [OF assms] by blast
  then have "\<exists>t. (if pcProxyUser h = None \<and> pcProxyPass h = None then Inr (Some []) else encoded out (pcProxyUser h) (pcProxyPass h))
      = Inr (Some t) \<and> length t \<le> 66" by simp
  then obtain t where "(if pcProxyUser h = None \<and> pcProxyPass h = None then Inr (Some []) else encoded out (pcProxyUser h) (pcProxyPass h))
      = Inr (Some t)" "length t \<le> 66" by blast
  then show ?thesis using assms(1) by (simp add: proxy_authorization_def sprintf_at_ok BUFFER_SIZE_def opt_text_def)
qed

lemma request_fits:
  assumes "client_fits h"
  shows "\<exists>out. http_request h = Inr out \<and> length out < BUFFER_SIZE"
proof -
  let ?l1 = "request_line h" and ?l2 = "header_line ''HOST: '' (pcHost h)" and ?l3 = "header_line ''User-Agent: '' (pcUserAgent h)"
  have "length ?l1 \<le> 302" using assms by (auto simp: request_line_def client_fits_def port_text_def split: option.split)
  moreover have "length ?l2 \<le> 32" "length ?l3 \<le> 78"
    using assms header_line_length [of "''HOST: ''" "pcHost h"] header_line_length [of "''User-Agent: ''" "pcUserAgent h"]
    by (simp_all add: client_fits_def)
  ultimately have l: "length ?l1 \<le> 302" "length (?l1 @ ?l2) \<le> 334" "length ((?l1 @ ?l2) @ ?l3) \<le> 412" by simp_all
  obtain o4 where o4: "authorization h ((?l1 @ ?l2) @ ?l3) = Inr o4" "length o4 \<le> 501"
    using authorization_fits [of "(?l1 @ ?l2) @ ?l3" h] l(3) assms unfolding client_fits_def by fastforce
  obtain o5 where o5: "proxy_authorization h o4 = Inr o5" "length o5 \<le> 596"
    using proxy_authorization_fits [of o4 h] o4(2) assms unfolding client_fits_def by fastforce
  have "length request_end \<le> 100" by (simp add: request_end_def)
  then show ?thesis using l o4 o5 by (simp add: http_request_def sprintf_at_ok BUFFER_SIZE_def)
qed

subsection \<open>No call leaves the buffers\<close>

definition client_ok :: "httpc fd_t \<Rightarrow> bool" where
  "client_ok p = (case owner p of None \<Rightarrow> False | Some h \<Rightarrow> client_fits h \<and> (iState p = ST_NET_READ \<longrightarrow> iLenOK h < 512))"

lemma next_state_ok: "client_fits h \<Longrightarrow> st = ST_NET_READ \<longrightarrow> iLenOK h < 512 \<Longrightarrow>
    \<exists>p' W'. next_state st r w t h p W = Inr (True, p', W') \<and> client_ok p'"
  by (simp add: next_state_def FD_Next_def client_ok_def)

lemma stay_ok: "client_fits h \<Longrightarrow> iState p = ST_NET_READ \<longrightarrow> iLenOK h < 512 \<Longrightarrow> \<exists>p' W'. stay h p W = Inr (True, p', W') \<and> client_ok p'"
  by (simp add: stay_def client_ok_def)

definition call_ok :: "'x fd_call \<Rightarrow> bool" where
  "call_ok r = (\<exists>keep p' W'. r = Inr (keep, p', W') \<and> client_ok p')"

lemma call_okI: "\<exists>p' W'. r = Inr (True, p', W') \<and> client_ok p' \<Longrightarrow> call_ok r"
  by (auto simp: call_ok_def)

lemmas next_state_call = call_okI [OF next_state_ok] and stay_call = call_okI [OF stay_ok]

lemma client_fits_upd [simp]:
  "client_fits (h\<lparr>tLastOp := t\<rparr>) = client_fits h" "client_fits (h\<lparr>iConnectRetry := n\<rparr>) = client_fits h"
  "client_fits (h\<lparr>addrHost := a\<rparr>) = client_fits h" "client_fits (h\<lparr>iLenTotal := n\<rparr>) = client_fits h"
  "client_fits (h\<lparr>iLenOK := n\<rparr>) = client_fits h" "client_fits (h\<lparr>acBuffer := b\<rparr>) = client_fits h"
  "client_fits (h\<lparr>acBody := b\<rparr>) = client_fits h" "client_fits (h\<lparr>eResState := r\<rparr>) = client_fits h"
  by (simp_all add: client_fits_def)

lemma OnResponse_fits: "OnResponse S r h W = (go, h', W') \<Longrightarrow> client_fits h' = client_fits h"
  by (auto simp: OnResponse_def Let_def split: prod.splits verdict.splits)

lemma write_timeout_ok: "client_fits h \<Longrightarrow> iState p \<noteq> ST_NET_READ \<Longrightarrow> call_ok (write_timeout S h p W)"
  by (auto simp: write_timeout_def net_states split: prod.split intro!: next_state_call stay_call)

lemma answer_over_ok: "client_fits h \<Longrightarrow> call_ok (answer_over S h p W)"
  by (auto simp: answer_over_def answer_so_far_def net_states dest: OnResponse_fits split: prod.split intro!: next_state_call)

lemma st_init_ok: "client_fits h \<Longrightarrow> call_ok (st_init S h p W)"
  unfolding st_init_def by (auto simp: net_states split: prod.split option.split intro!: next_state_call)

lemma st_connect_ok: "client_fits h \<Longrightarrow> call_ok (st_connect S h p W)"
  unfolding st_connect_def Let_def by (simp add: net_states next_state_call split: prod.split)

lemma st_connecting_ok:
  assumes "client_fits h" and "iState p \<noteq> ST_NET_READ"
  shows "call_ok (st_connecting S h p W)"
proof -
  obtain out where "http_request h = Inr out" using request_fits [OF assms(1)] by blast
  then show ?thesis using assms unfolding st_connecting_def
    by (simp add: net_states next_state_call stay_call split: prod.split)
qed

lemma st_write_ok: "client_fits h \<Longrightarrow> iState p \<noteq> ST_NET_READ \<Longrightarrow> call_ok (st_write S h p W)"
  unfolding st_write_def Let_def by (simp add: net_states next_state_call stay_call write_timeout_ok split: prod.split)

lemma st_over_ok: "client_fits h \<Longrightarrow> owner p = Some h \<Longrightarrow> iState p \<noteq> ST_NET_READ \<Longrightarrow> call_ok (st_over S h p W)"
  by (auto simp: st_over_def call_ok_def client_ok_def Let_def)

lemma st_read_ok:
  assumes "os_laws S opn" and "client_fits h" and "iLenOK h < 512"
  shows "call_ok (st_read S h p W)"
proof -
  obtain t W1 where t: "ask_sys (os_time S) W = (t, W1)" by fastforce
  obtain d again W2 where r: "ask_sys (os_read S (iFD p) (BUFFER_SIZE div 2)) W1 = ((d, again), W2)" by (metis surj_pair)
  have d: "length d \<le> 512" using os_lawsD(9) [OF assms(1), of "iFD p" 512 "sys (env W1)"] ask_sys_sel [OF r]
    by (simp add: BUFFER_SIZE_def)
  let ?h = "h\<lparr>acBuffer := take (iLenOK h) (acBuffer h) @ d, iLenOK := iLenOK h + length d\<rparr>"
  obtain go h2 W3 where a: "answer_so_far S ?h W2 = (go, h2, W3)" by (metis surj_pair)
  have "client_fits h2" using a assms(2) by (auto simp: answer_so_far_def dest: OnResponse_fits)
  then show ?thesis using assms(2,3) d a
    unfolding st_read_def t prod.case r Let_def
    by (simp add: answer_over_ok stay_call next_state_call net_states BUFFER_SIZE_def)
qed

lemma HTTPC_Process_ok:
  assumes "os_laws S opn" and "client_ok p"
  shows "call_ok (HTTPC_Process S p W)"
proof -
  obtain h where h: "owner p = Some h" "client_fits h" "iState p = ST_NET_READ \<Longrightarrow> iLenOK h < 512"
    using assms(2) by (auto simp: client_ok_def split: option.splits)
  have "call_ok (Inr (False, p, W))" using assms(2) by (auto simp: call_ok_def)
  then show ?thesis using h
    by (auto simp: HTTPC_Process_def net_states intro: st_init_ok st_connect_ok st_connecting_ok st_write_ok st_over_ok st_read_ok [OF assms(1)])
qed

lemma http_calls_ok:
  "os_laws S opn \<Longrightarrow> client_ok p \<Longrightarrow> \<exists>r. http_calls S ms p W = Inr r"
proof (induction ms arbitrary: p W)
  case (Cons m ms)
  obtain r w where m: "m = (r, w)" by (cases m)
  have "client_ok (p\<lparr>bReadable := r, bWritable := w\<rparr>)" using Cons.prems(2) by (cases "owner p") (simp_all add: client_ok_def)
  then obtain keep p' W' where "HTTPC_Process S (p\<lparr>bReadable := r, bWritable := w\<rparr>) W = Inr (keep, p', W')" "client_ok p'"
    using HTTPC_Process_ok [OF Cons.prems(1)] unfolding call_ok_def by blast
  then show ?case using Cons by (cases keep) (auto simp: m)
qed auto

text \<open>The clients the program makes, by the message that is sent to the thread.\<close>

definition posted :: "'x http_world \<Rightarrow> httpc fd_t \<Rightarrow> 'x http_world \<Rightarrow> bool" where
  "posted W p W' = (msg_queue W' = msg_queue W @ [MSG_CUSTOM_PROC (Some (AddDDNS p))])"

lemma posted_irrefl [simp]: "\<not> posted W p W"
  by (simp add: posted_def)

lemma posted_insert: "posted W p (insert_client c W) \<Longrightarrow> c = Some p"
  by (auto simp: posted_def insert_client_def InsertCustomProcess_def send_msg_def split: option.splits)

lemma opt_text_nonempty: "opt_text (nonempty (Some t)) = t"
  by (simp add: opt_text_def nonempty_def)

lemma credentials_length: "length (credentials (nonempty u) (nonempty p)) \<le> length (opt_text u) + length (opt_text p) + 1"
  by (auto simp: credentials_def nonempty_def opt_text_def split: option.split)

lemma HTTPC_Init_client_ok:
  assumes "HTTPC_Init k server path 80 host agent user pass proxy proxyport proxyuser proxypass = Some p"
    and "length server \<le> 24" "length path \<le> 256" "length (opt_text host) \<le> 24" "length (opt_text agent) \<le> 64"
    and "length (opt_text user) < 24" "length (opt_text pass) < 24" "length (opt_text proxyuser) < 24" "length (opt_text proxypass) < 24"
  shows "client_ok p"
proof -
  have n: "length (opt_text (nonempty t)) \<le> length (opt_text t)" for t by (simp add: nonempty_def opt_text_def)
  show ?thesis using assms n [of host] n [of agent] credentials_length [of user pass] credentials_length [of proxyuser proxypass]
    by (auto simp: HTTPC_Init_def FD_Init_def client_ok_def client_fits_def net_states split: if_splits)
qed

lemma ddns_service_sizes:
  assumes "ddns_service t = Some (server, q, agent)"
  shows "length server \<le> 24 \<and> length agent \<le> 64"
  using assms by (auto simp: ddns_service_def split: if_splits)

lemma Do_DNS_client_ok:
  assumes "posted W p (Do_DNS S t host ip user pass proxy pport puser ppass W)"
    and "length user < 24" "length pass < 24" "length puser < 24" "length ppass < 24"
  shows "client_ok p"
proof (cases "ddns_service t")
  case None
  then show ?thesis using assms(1) by (simp add: Do_DNS_def posted_def)
next
  case (Some r)
  obtain server p1 p2 p3 agent where r: "r = (server, (p1, p2, p3), agent)" by (cases r) auto
  let ?ip = "if ip = 0 then os_pub_ip S (sys (env W)) else ip"
  let ?c = "HTTPC_Init DDNS server (p1 @ host @ p2 @ IP2String S ?ip @ p3) 80 (Some server) (Some agent)
      (Some user) (Some pass) (nonempty (Some proxy)) pport (Some puser) (Some ppass)"
  have l: "length (p1 @ ''%s'' @ p2 @ ''%s'' @ p3) + length (IP2String S ?ip) + length host \<le> ACPATH_SIZE"
    and "posted W p (insert_client ?c W)"
    using assms(1) by (auto simp: Do_DNS_def Some r Let_def split: if_splits)
  then have "?c = Some p" by (intro posted_insert)
  then show ?thesis
    by (rule HTTPC_Init_client_ok) (use l assms(2-5) ddns_service_sizes [OF Some [unfolded r]] in \<open>simp_all add: ACPATH_SIZE_def opt_text_def\<close>)
qed

lemma CheckIP_client_ok:
  assumes "posted W p (DDNS_Do_CheckIP t proxy pport puser ppass W)" and "length puser < 24" "length ppass < 24"
  shows "client_ok p"
proof -
  have i: "client_ok p" if "HTTPC_Init k server ''/'' 80 (Some server) (Some ''Mozilla/4.0 (compatible; MSIE 5.00; Windows 98)'') None None
      (nonempty (Some proxy)) pport (Some puser) (Some ppass) = Some p" "length server \<le> 24" for k server
    by (rule HTTPC_Init_client_ok [OF that(1)]) (use that(2) assms(2,3) in \<open>simp_all add: opt_text_def\<close>)
  show ?thesis using assms(1) by (auto simp: DDNS_Do_CheckIP_def Let_def split: if_splits dest!: posted_insert i)
qed

text \<open>Every client an update makes, to learn the address or to announce it, is one that stays in its buffers.\<close>

lemma update_client_ok:
  assumes "ddns_fits (cfg (env W))" and "posted W p (DDNS_Update S W) \<or> posted W p (DDNS_Update_IP S ip W)"
  shows "client_ok p"
proof -
  have g: "length (acDDNSUserName (cfg (env W))) < 24" "length (acDDNSUserPass (cfg (env W))) < 24"
    "length (acProxyUser (cfg (env W))) < 24" "length (acProxyPass (cfg (env W))) < 24" using assms(1) by (simp_all add: ddns_fits_def)
  have u: "client_ok p" if "posted W p (DDNS_Update_IP S ip W)" for ip
  proof -
    obtain r W1 where r: "ask_sys (os_resolve S (acDDNSDomainName (cfg (env W)))) W = (r, W1)" by fastforce
    then have e: "cfg (env W1) = cfg (env W)" "msg_queue W1 = msg_queue W" by (auto simp: ask_sys_def split: prod.splits)
    have p: "posted W p V = posted W1 p V" for V by (simp add: posted_def e(2))
    show ?thesis using that g r e(1) Do_DNS_client_ok [of W1 p S] unfolding p DDNS_Update_IP_def Let_def
      by (simp split: if_splits)
  qed
  have "client_ok p" if "posted W p (DDNS_Update S W)"
    using that u g CheckIP_client_ok [of W p] by (simp add: DDNS_Update_def DDNS_CheckIP_def Let_def split: if_splits)
  then show ?thesis using u assms(2) by blast
qed

subsection \<open>The answer decides\<close>

text \<open>What is behind the first empty line that follows another line.\<close>

fun http_body :: "string \<Rightarrow> string option" where
  "http_body [] = None"
| "http_body (c # t) =
     (if take 2 (c # t) = [CHR 0x0A, CHR 0x0A] then Some (tl t)
      else if take 3 (c # t) = [CHR 0x0A, CHR 0x0D, CHR 0x0A] then Some (drop 2 t) else http_body t)"

definition accepted :: "string \<Rightarrow> bool" where
  "accepted t = (case http_body t of None \<Rightarrow> False | Some b \<Rightarrow> take 4 b = ''good'' \<or> take 5 b = ''nochg'')"

lemma response_scan_append:
  "response_scan k (xs @ ys) q = (case response_scan k xs q of (q', v) \<Rightarrow> if v = Go then response_scan k ys q' else (q', v))"
  by (induction xs arbitrary: q) (simp_all split: prod.split)

definition body_verdict :: "string \<Rightarrow> verdict" where
  "body_verdict t = (case http_body t of None \<Rightarrow> Go | Some b \<Rightarrow> snd (response_scan DDNS b (RS_CR2, [])))"

lemma scan_header:
  "snd (response_scan DDNS t (RS_LINE, [])) = body_verdict t
   \<and> snd (response_scan DDNS t (RS_CR, [])) = body_verdict (CHR 0x0A # t)
   \<and> snd (response_scan DDNS t (RS_LF2, [])) = body_verdict (CHR 0x0A # CHR 0x0D # t)"
proof (induction t)
  case (Cons c t)
  have "body_verdict (c # t) = body_verdict t" "body_verdict (CHR 0x0D # c # t) = body_verdict t" if "c \<noteq> CHR 0x0A"
    using that by (simp_all add: body_verdict_def)
  moreover have "body_verdict (CHR 0x0A # c # t) = body_verdict t" if "c \<noteq> CHR 0x0A" "c \<noteq> CHR 0x0D"
    using that by (simp add: body_verdict_def)
  moreover have "body_verdict (CHR 0x0A # CHR 0x0D # c # t) = body_verdict t" if "c \<noteq> CHR 0x0A"
    using that by (simp add: body_verdict_def)
  moreover have "body_verdict (CHR 0x0A # CHR 0x0A # t) = snd (response_scan DDNS t (RS_CR2, []))"
    "body_verdict (CHR 0x0A # CHR 0x0D # CHR 0x0A # t) = snd (response_scan DDNS t (RS_CR2, []))"
    by (simp_all add: body_verdict_def)
  ultimately show ?case using Cons by (simp del: http_body.simps)
qed (simp add: body_verdict_def)

lemma scan_body:
  "take 4 b \<noteq> ''good'' \<Longrightarrow> take 5 b \<noteq> ''nochg'' \<Longrightarrow> length b < 64 \<Longrightarrow>
     snd (response_scan DDNS t (RS_CR2, b)) = Good \<longleftrightarrow> take 4 (b @ t) = ''good'' \<or> take 5 (b @ t) = ''nochg''"
proof (induction t arbitrary: b)
  case (Cons c t)
  show ?case
  proof (cases "length b < 63")
    case False
    with Cons.prems show ?thesis by (simp add: BODY_SIZE_def)
  next
    case True
    show ?thesis
    proof (cases "take 5 (b @ [c]) = ''nochg'' \<or> take 4 (b @ [c]) = ''good''")
      case hit: True
      then have "4 \<le> length (b @ [c])" "take 5 (b @ [c]) = ''nochg'' \<longrightarrow> 5 \<le> length (b @ [c])"
        by (auto dest!: arg_cong [of _ _ length])
      then have "take 4 (b @ c # t) = take 4 (b @ [c])" "take 5 (b @ [c]) = ''nochg'' \<longrightarrow> take 5 (b @ c # t) = take 5 (b @ [c])"
        using take_append [of _ "b @ [c]" t] by auto
      with hit True show ?thesis by (simp add: BODY_SIZE_def Let_def) blast
    next
      case miss: False
      then show ?thesis using Cons.IH [of "b @ [c]"] True by (simp add: BODY_SIZE_def Let_def)
    qed
  qed
qed simp

lemma answer_accepted: "snd (response_scan DDNS t (RS_LINE, [])) = Good \<longleftrightarrow> accepted t"
  using scan_header [of t] scan_body [of "[]"] by (simp add: body_verdict_def accepted_def split: option.split)

text \<open>
  A network that gives an answer in the parts \<open>ds\<close> and then closes: each part within the time-out of the one before; \<open>prev\<close> is when
  the client last heard of it.
\<close>

fun gives :: "'x net_os \<Rightarrow> int \<Rightarrow> int \<Rightarrow> int \<Rightarrow> string list \<Rightarrow> 'x \<Rightarrow> bool" where
  "gives S fd lim prev [] x =
     (case os_time S x of (t, y) \<Rightarrow> t - prev \<le> lim \<and> fst (os_read S fd (BUFFER_SIZE div 2) y) = ([], False))"
| "gives S fd lim prev (d # ds) x =
     (case os_time S x of (t, y) \<Rightarrow> t - prev \<le> lim \<and> d \<noteq> [] \<and>
        (case os_read S fd (BUFFER_SIZE div 2) y of ((d', again), z) \<Rightarrow> d' = d \<and> gives S fd lim t ds z))"

text \<open>A client of the service that waits for more of the answer, having read but not yet looked at \<open>pending\<close>.\<close>

definition reading :: "httpc fd_t \<Rightarrow> int \<Rightarrow> int \<Rightarrow> int \<Rightarrow> string \<Rightarrow> resp_state \<times> string \<Rightarrow> bool" where
  "reading p fd lim prev pending q =
     (iFD p = fd \<and> iState p = ST_NET_READ \<and> (\<exists>h. owner p = Some h \<and> kind h = DDNS \<and> tConnTimeout h = lim \<and> tLastOp h = prev
        \<and> (eResState h, acBody h) = q \<and> iLenOK h < 512 \<and> take (iLenOK h) (acBuffer h) = pending \<and> length pending = iLenOK h))"

definition ends_as :: "bool \<Rightarrow> 'x fd_call \<Rightarrow> bool" where
  "ends_as acc r = (\<exists>p' W'. r = Inr (False, p', W') \<and> iDDNSState (env W') = (if acc then DDNS_UPDATE_OK else DDNS_UPDATE_FAIL))"

lemma ask_sys_env: "ask_sys f W = (a, W') \<Longrightarrow> f (sys (env W)) = (a, sys (env W')) \<and> iDDNSState (env W') = iDDNSState (env W)"
  by (auto simp: ask_sys_def split: prod.splits)

text \<open>The last call, after the state was set or not.\<close>

lemma over_ends:
  assumes "iState p = ST_NET_OVER" and "owner p = Some h" and "kind h = DDNS"
    and "if acc then iDDNSState (env W) = DDNS_UPDATE_OK else iDDNSState (env W) \<noteq> DDNS_UPDATE_OK"
  shows "ends_as acc (http_calls S (m # ms) p W)"
proof -
  obtain r w where m: "m = (r, w)" by (cases m)
  let ?p = "p\<lparr>bReadable := r, bWritable := w\<rparr>"
  have "HTTPC_Process S ?p W = st_over S h ?p W" using assms(1,2) by (simp add: HTTPC_Process_def net_states)
  then show ?thesis using assms(3,4)
    by (auto simp: m ends_as_def st_over_def Let_def OnRequestOver_def upd_sys_def set_ddns_state_def)
qed

lemma OnResponse_DDNS:
  assumes "kind h = DDNS" and "response_scan DDNS t (eResState h, acBody h) = (q, v)" and "v \<in> {Go, Stop, Good}"
  shows "\<exists>h'. OnResponse S t h W = (v = Go, h', if v = Good then set_ddns_state DDNS_UPDATE_OK W else W) \<and> (eResState h', acBody h') = q
    \<and> h' = h\<lparr>eResState := eResState h', acBody := acBody h'\<rparr>"
  using assms by (cases q) (auto simp: OnResponse_def Let_def)

lemma DDNS_char_verdict: "snd (DDNSResponse_char c q) \<in> {Go, Stop, Good}"
  by (cases "(c, q)" rule: DDNSResponse_char.cases) (simp_all add: Let_def)

lemma DDNS_verdict: "snd (response_scan DDNS t q) \<in> {Go, Stop, Good}"
proof (induction t arbitrary: q)
  case (Cons c t)
  show ?case using DDNS_char_verdict [of c q] Cons by (cases "DDNSResponse_char c q") auto
qed simp

lemma reading_ends:
  assumes "reading p fd lim prev pending q" and "gives S fd lim prev ds (sys (env W))" and "iDDNSState (env W) \<noteq> DDNS_UPDATE_OK"
  shows "ends_as (snd (response_scan DDNS (pending @ concat ds) q) = Good) (http_calls S (replicate (length ds + 2) (True, w)) p W)"
  using assms
proof (induction ds arbitrary: p prev pending q W)
  case Nil
  let ?p = "p\<lparr>bReadable := True, bWritable := w\<rparr>"
  obtain h where h: "iFD p = fd" "iState p = ST_NET_READ" "owner p = Some h" "kind h = DDNS" "tConnTimeout h = lim" "tLastOp h = prev"
    "(eResState h, acBody h) = q" "iLenOK h < 512" "take (iLenOK h) (acBuffer h) = pending"
    using Nil.prems(1) unfolding reading_def by blast
  obtain t W1 where t: "ask_sys (os_time S) W = (t, W1)" by fastforce
  obtain r W2 where r: "ask_sys (os_read S fd (BUFFER_SIZE div 2)) W1 = (r, W2)" by fastforce
  have g: "t - prev \<le> lim" "r = ([], False)" "iDDNSState (env W2) \<noteq> DDNS_UPDATE_OK"
    using Nil.prems(2,3) ask_sys_env [OF t] ask_sys_env [OF r] by auto
  obtain q' v where v: "response_scan DDNS pending q = (q', v)" by fastforce
  obtain h' where o: "OnResponse S pending h W2 = (v = Go, h', if v = Good then set_ddns_state DDNS_UPDATE_OK W2 else W2)"
    "h' = h\<lparr>eResState := eResState h', acBody := acBody h'\<rparr>"
    using OnResponse_DDNS [OF h(4), of pending q' v S W2] v h(7) DDNS_verdict [of pending q] by auto
  let ?W3 = "if v = Good then set_ddns_state DDNS_UPDATE_OK W2 else W2"
  let ?p' = "(FD_Next ST_NET_OVER False False 0 ?p)\<lparr>owner := Some h'\<rparr>"
  have c: "HTTPC_Process S ?p W = Inr (True, ?p', ?W3)"
    using h g(1,2) t r o(1) by (simp add: HTTPC_Process_def net_states st_read_def answer_over_def answer_so_far_def next_state_def BUFFER_SIZE_def)
  have "kind h' = DDNS" by (subst o(2)) (simp add: h(4))
  then have "ends_as (v = Good) (http_calls S [(True, w)] ?p' ?W3)"
    by (intro over_ends) (simp_all add: FD_Next_def set_ddns_state_def g(3))
  then show ?case using v c by (simp add: numeral_2_eq_2)
next
  case (Cons d ds)
  let ?p = "p\<lparr>bReadable := True, bWritable := w\<rparr>"
  obtain h where h: "iFD p = fd" "iState p = ST_NET_READ" "owner p = Some h" "kind h = DDNS" "tConnTimeout h = lim" "tLastOp h = prev"
    "(eResState h, acBody h) = q" "iLenOK h < 512" "take (iLenOK h) (acBuffer h) = pending" "length pending = iLenOK h"
    using Cons.prems(1) unfolding reading_def by blast
  obtain t W1 where t: "ask_sys (os_time S) W = (t, W1)" by fastforce
  obtain d' again W2 where r: "ask_sys (os_read S fd (BUFFER_SIZE div 2)) W1 = ((d', again), W2)" by (metis surj_pair)
  have g: "t - prev \<le> lim" "d \<noteq> []" "d' = d" "gives S fd lim t ds (sys (env W2))" "iDDNSState (env W2) \<noteq> DDNS_UPDATE_OK"
    using Cons.prems(2,3) ask_sys_env [OF t] ask_sys_env [OF r] by auto
  let ?h1 = "h\<lparr>acBuffer := pending @ d, iLenOK := iLenOK h + length d\<rparr>"
  have c: "HTTPC_Process S ?p W =
      (if iLenOK ?h1 \<ge> 512
       then case OnResponse S (pending @ d) ?h1 W2 of (go, h2, W3) \<Rightarrow>
         if go then stay (h2\<lparr>iLenOK := 0, tLastOp := t\<rparr>) ?p W3 else next_state ST_NET_OVER False False 0 h2 ?p W3
       else stay (?h1\<lparr>tLastOp := t\<rparr>) ?p W2)"
    using h g(1-3) t r by (simp add: HTTPC_Process_def net_states st_read_def answer_so_far_def BUFFER_SIZE_def)
  show ?case
  proof (cases "iLenOK h + length d < 512")
    case True
    let ?p1 = "?p\<lparr>owner := Some (?h1\<lparr>tLastOp := t\<rparr>)\<rparr>"
    have "reading ?p1 fd lim t (pending @ d) q" using h True by (simp add: reading_def)
    from Cons.IH [OF this g(4,5)] show ?thesis using c True by (simp add: stay_def)
  next
    case False
    obtain q' v where v: "response_scan DDNS (pending @ d) q = (q', v)" by fastforce
    obtain h' where o: "OnResponse S (pending @ d) ?h1 W2 = (v = Go, h', if v = Good then set_ddns_state DDNS_UPDATE_OK W2 else W2)"
      "(eResState h', acBody h') = q'" "h' = ?h1\<lparr>eResState := eResState h', acBody := acBody h'\<rparr>"
      using OnResponse_DDNS [of ?h1 "pending @ d" q' v S W2] v h(4,7) DDNS_verdict [of "pending @ d" q] by auto
    have k: "kind h' = DDNS" using arg_cong [OF o(3), of kind] h(4) by simp
    have lim: "tConnTimeout h' = lim" by (subst o(3)) (simp add: h(5))
    have split: "response_scan DDNS (pending @ concat (d # ds)) q = (if v = Go then response_scan DDNS (concat ds) q' else (q', v))"
      using response_scan_append [of DDNS "pending @ d" "concat ds" q] v by simp
    show ?thesis
    proof (cases "v = Go")
      case go: True
      let ?p1 = "?p\<lparr>owner := Some (h'\<lparr>iLenOK := 0, tLastOp := t\<rparr>)\<rparr>"
      have "reading ?p1 fd lim t [] q'" using h(1,2) k lim o(2) by (simp add: reading_def)
      from Cons.IH [OF this g(4,5)] show ?thesis unfolding split using c o(1) False go by (simp add: stay_def)
    next
      case stop: False
      let ?p1 = "(FD_Next ST_NET_OVER False False 0 ?p)\<lparr>owner := Some h'\<rparr>"
      let ?W3 = "if v = Good then set_ddns_state DDNS_UPDATE_OK W2 else W2"
      have "ends_as (v = Good) (http_calls S ((True, w) # replicate (length ds + 1) (True, w)) ?p1 ?W3)"
        by (rule over_ends [where h = h']) (simp_all add: FD_Next_def set_ddns_state_def g(5) k)
      then show ?thesis unfolding split using c o(1) False stop by (simp add: next_state_def)
    qed
  qed
qed

text \<open>
  C25. The answer decides. When the service's answer arrives within the time-outs, in whatever parts, and the connection is closed, the
  client of the service ends after at most as many calls as there are parts and two more, and the state that is reported is
  DDNS_UPDATE_OK if what is behind the header of the whole answer begins with \<open>good\<close> or \<open>nochg\<close>, and DDNS_UPDATE_FAIL otherwise.
\<close>

theorem ddns_answer_decides:
  assumes "reading p fd lim prev [] (RS_LINE, [])" and "gives S fd lim prev ds (sys (env W))" and "iDDNSState (env W) \<noteq> DDNS_UPDATE_OK"
  shows "\<exists>p' W'. http_calls S (replicate (length ds + 2) (True, w)) p W = Inr (False, p', W')
    \<and> iDDNSState (env W') = (if accepted (concat ds) then DDNS_UPDATE_OK else DDNS_UPDATE_FAIL)"
  using reading_ends [OF assms] by (simp add: answer_accepted ends_as_def)

text \<open>A network whose state are the parts that will arrive.\<close>

definition script_net :: "string list net_os" where
  "script_net = \<lparr>os_time = (\<lambda>x. (0, x)), os_resolve = (\<lambda>n x. (Some 0x0A000001, x)), os_socket = (\<lambda>x. (5, x)), os_nonblock = (\<lambda>fd x. (True, x)),
     os_connect = (\<lambda>fd a n x. x), os_close = (\<lambda>fd x. x), os_so_error = (\<lambda>fd x. (Some 0, x)), os_write = (\<lambda>fd t x. ((length t, False), x)),
     os_read = (\<lambda>fd n x. case x of [] \<Rightarrow> (([], False), []) | d # ds \<Rightarrow> ((take n d, False), ds)), os_pub_ip = (\<lambda>x. 0), String2IP = (\<lambda>t. 0), IP2String = (\<lambda>n. [])\<rparr>"

theorem ddns_answer_decides_witness:
  "\<exists>h p' W'. http_calls script_net (replicate 4 (True, False)) (checkip_client\<lparr>iFD := 5, iState := ST_NET_READ, owner := Some h\<rparr>)
      \<lparr>pMsg = MSG_NONE, msg_queue = [],
       env = \<lparr>sys = [''HTTP/1.1 200 OK'' @ EOL, EOL @ ''good 10.0.0.1''], iDDNSState = DDNS_UPDATTING, cfg = example_ddns\<rparr>\<rparr> = Inr (False, p', W')
    \<and> iDDNSState (env W') = DDNS_UPDATE_OK"
proof -
  let ?h = "(the (owner checkip_client))\<lparr>kind := DDNS\<rparr>"
  let ?p = "checkip_client\<lparr>iFD := 5, iState := ST_NET_READ, owner := Some ?h\<rparr>"
  let ?ds = "[''HTTP/1.1 200 OK'' @ EOL, EOL @ ''good 10.0.0.1'']"
  let ?W = "\<lparr>pMsg = MSG_NONE, msg_queue = [], env = \<lparr>sys = ?ds, iDDNSState = DDNS_UPDATTING, cfg = example_ddns\<rparr>\<rparr> :: string list http_world"
  have r: "reading ?p 5 5 0 [] (RS_LINE, [])" by (simp add: reading_def checkip_client_def HTTPC_Init_def FD_Init_def)
  have g: "gives script_net 5 5 0 ?ds (sys (env ?W))" by (simp add: script_net_def BUFFER_SIZE_def EOL_def)
  have u: "iDDNSState (env ?W) \<noteq> DDNS_UPDATE_OK" by (simp add: ddns_states)
  have a: "accepted (concat ?ds)" by code_simp
  have n: "length ?ds + 2 = 4" by simp
  obtain p' W' where "http_calls script_net (replicate 4 (True, False)) ?p ?W = Inr (False, p', W')" "iDDNSState (env W') = DDNS_UPDATE_OK"
    using ddns_answer_decides [OF r g u, of False] a unfolding n by (simp only: if_True) blast
  then show ?thesis by blast
qed

end
