(* ===== verification/DdnsCommands.thy ===== *)
theory DdnsCommands
  imports DdnsClient NetSettings
begin

section \<open>The dynamic DNS commands and what starts an update\<close>

text \<open>
  GetDDNS.cgi and SetDDNS.cgi, and the periodic task that starts an update. The state is that of the configuration interface with the
  world of the clients, whose part of the configuration is the same variable in the code.
\<close>

type_synonym ('h, 'r, 'x) ddns_state = "('h, 'r) ictl_state \<times> 'x http_world"

definition use_cfg :: "ddns_cfg \<Rightarrow> 'x http_world \<Rightarrow> 'x http_world" where
  "use_cfg g W = W\<lparr>env := (env W)\<lparr>cfg := g\<rparr>\<rparr>"

abbreviation ddns_of :: "('h, 'r) ictl_state \<Rightarrow> ddns_cfg" where
  "ddns_of s \<equiv> cfg_ddns (ic_cfg s)"

definition ddns_state_name :: "u32 \<Rightarrow> string" where
  "ddns_state_name v =
     (if v = DDNS_UPDATE_OK then ''Updated'' else if v = DDNS_UPDATE_FAIL then ''Updating Failed''
      else if v = DDNS_UPDATTING then ''Updating'' else if v = DDNS_CHECK_IP_OK then ''IP Checked'' else ''Not Update'')"

definition ddns_service_name :: "u32 \<Rightarrow> string" where
  "ddns_service_name t =
     (if t = DDNS_TYPE_DYNDNS then ''dyndns'' else if t = DDNS_TYPE_NOIP then ''no-ip''
      else if t = DDNS_TYPE_DNSOMATIC then ''dnsomatic'' else [])"

definition ddns_service_type :: "string \<Rightarrow> u32" where
  "ddns_service_type t =
     (if t = ''dyndns'' then DDNS_TYPE_DYNDNS else if t = ''no-ip'' then DDNS_TYPE_NOIP
      else if t = ''dnsomatic'' then DDNS_TYPE_DNSOMATIC else DDNS_TYPE_UNSUPPORTED)"

definition Config_GetDDNS :: "net_lib \<Rightarrow> text_lib \<Rightarrow> ('h, 'r, 'x) ddns_state handler" where
  "Config_GetDDNS N T ps iAction x =
     (case x of (s, W) \<Rightarrow> case iAction of
        CA_AUTH \<Rightarrow> Inr (AUTH_ADMIN, [], x)
      | CA_CONFIG \<Rightarrow>
          let g = ddns_of s
          in Inr (0,
               [(''Enable'', httpLong2String T (if bEnableDDNS g then 1 else 0)), (''Service'', ddns_service_name (eDDNSType g)),
                (''User'', acDDNSUserName g), (''Pass'', acDDNSUserPass g), (''DomainName'', acDDNSDomainName g),
                (''IP'', httpIP2String N (ulDDNSIP g)), (''Proxy'', acProxy g), (''ProxyPort'', httpLong2String T (iProxyPort g)),
                (''ProxyUser'', acProxyUser g), (''ProxyPass'', acProxyPass g), (''Info'', ddns_state_name (iDDNSState (env W)))], x)
      | CA_other \<Rightarrow> Inr (- 1, [], x))"

text \<open>What a request asks for, and how its strings are cut to their arrays.\<close>

definition ddns_asked :: "net_lib \<Rightarrow> text_lib \<Rightarrow> params \<Rightarrow> ddns_cfg" where
  "ddns_asked N T ps =
     \<lparr>bEnableDDNS = httpGetBool T ps ''Enable'', eDDNSType = ddns_service_type (httpGetString ps ''Service''),
      acDDNSUserName = httpGetString ps ''User'', acDDNSUserPass = httpGetString ps ''Pass'',
      acDDNSDomainName = httpGetString ps ''DomainName'', ulDDNSIP = httpGetIP N ps ''IP'',
      acProxyUser = httpGetString ps ''ProxyUser'', acProxyPass = httpGetString ps ''ProxyPass'',
      acProxy = httpGetString ps ''Proxy'', iProxyPort = httpGetLong T ps ''ProxyPort''\<rparr>"

definition ddns_cut :: "(string \<Rightarrow> nat \<Rightarrow> string) \<Rightarrow> ddns_cfg \<Rightarrow> ddns_cfg" where
  "ddns_cut cpy g = g\<lparr>acDDNSUserName := cpy (acDDNSUserName g) 24, acDDNSUserPass := cpy (acDDNSUserPass g) 24,
     acDDNSDomainName := cpy (acDDNSDomainName g) 32, acProxy := cpy (acProxy g) 32,
     acProxyUser := cpy (acProxyUser g) 24, acProxyPass := cpy (acProxyPass g) 24\<rparr>"

text \<open>
  A request that asks for what is configured does nothing, if the address is fixed and was announced. Otherwise the settings are
  taken over, an update is started, and the configuration is saved.
\<close>

definition Config_SetDDNS :: "('h, 'r) ictl_env \<Rightarrow> net_lib \<Rightarrow> text_lib \<Rightarrow> 'x net_os \<Rightarrow> ('h, 'r, 'x) ddns_state handler" where
  "Config_SetDDNS E N T S ps iAction x =
     (case x of (s, W) \<Rightarrow> case iAction of
        CA_AUTH \<Rightarrow> Inr (AUTH_ADMIN, [], x)
      | CA_CONFIG \<Rightarrow>
          let r = ddns_asked N T ps
          in if r = ddns_of s \<and> ulDDNSIP r \<noteq> 0 \<and> iDDNSState (env W) = DDNS_UPDATE_OK then Inr (0, [], x)
             else let g = ddns_cut (httpMyStrncpy (lib E)) r;
                      s1 = s\<lparr>ic_cfg := (ic_cfg s)\<lparr>cfg_ddns := g\<rparr>\<rparr>;
                      W1 = DDNS_Update S (use_cfg g W)
                  in bnd (save_config E s1) (\<lambda>s2. Inr (0, [], (s2, W1)))
      | CA_other \<Rightarrow> Inr (- 1, [], x))"

definition prdTask_CheckDDNS :: "'x net_os \<Rightarrow> 'x http_world \<Rightarrow> 'x http_world" where
  "prdTask_CheckDDNS S W = DDNS_Update S W"

subsection \<open>No setting makes a client unsafe\<close>

text \<open>What can happen: a request, the timer, an answer with the address of the camera, and the thread taking a message.\<close>

datatype ddns_event = Request params | Timer | Answer u32 | Fetch

fun ddns_happens :: "('h, 'r) ictl_env \<Rightarrow> net_lib \<Rightarrow> text_lib \<Rightarrow> 'x net_os \<Rightarrow> ddns_event \<Rightarrow> ('h, 'r, 'x) ddns_state
    \<Rightarrow> ('h, 'r, 'x) ddns_state checked" where
  "ddns_happens E N T S (Request ps) x = bnd (Config_SetDDNS E N T S ps CA_CONFIG x) (\<lambda>(_, _, x'). Inr x')"
| "ddns_happens E N T S Timer (s, W) = Inr (s, prdTask_CheckDDNS S W)"
| "ddns_happens E N T S (Answer ip) (s, W) = Inr (s, DDNS_Update_IP S ip W)"
| "ddns_happens E N T S Fetch (s, W) = Inr (s, W\<lparr>msg_queue := tl (msg_queue W)\<rparr>)"

fun ddns_history :: "('h, 'r) ictl_env \<Rightarrow> net_lib \<Rightarrow> text_lib \<Rightarrow> 'x net_os \<Rightarrow> ddns_event list \<Rightarrow> ('h, 'r, 'x) ddns_state
    \<Rightarrow> ('h, 'r, 'x) ddns_state checked" where
  "ddns_history E N T S [] x = Inr x"
| "ddns_history E N T S (e # es) x = bnd (ddns_happens E N T S e x) (ddns_history E N T S es)"

definition queued :: "'x http_world \<Rightarrow> httpc fd_t set" where
  "queued W = {p. MSG_CUSTOM_PROC (Some (AddDDNS p)) \<in> set (msg_queue W)}"

definition ddns_inv :: "('h, 'r, 'x) ddns_state \<Rightarrow> bool" where
  "ddns_inv x = (case x of (s, W) \<Rightarrow> ddns_fits (ddns_of s) \<and> cfg (env W) = ddns_of s \<and> (\<forall>p\<in>queued W. client_ok p))"

text \<open>An update posts at most one client and leaves the configuration alone.\<close>

definition one_client :: "'x http_world \<Rightarrow> 'x http_world \<Rightarrow> bool" where
  "one_client W W' = (cfg (env W') = cfg (env W) \<and> (msg_queue W' = msg_queue W \<or> (\<exists>p. posted W p W')))"

lemma one_client_refl [simp]: "one_client W W"
  by (simp add: one_client_def)

lemma insert_client_one: "one_client W (insert_client c W)"
  by (auto simp: one_client_def posted_def insert_client_def InsertCustomProcess_def send_msg_def split: option.split)

lemma ask_sys_same: "ask_sys f W = (a, W') \<Longrightarrow> one_client W' W'' \<Longrightarrow> one_client W W''"
  by (auto simp: ask_sys_def one_client_def posted_def split: prod.splits)

lemma Do_DNS_one: "one_client W (Do_DNS S t host ip user pass proxy pport puser ppass W)"
  by (auto simp: Do_DNS_def Let_def insert_client_one split: option.split prod.split)

lemma update_IP_one: "one_client W (DDNS_Update_IP S ip W)"
proof -
  obtain r W1 where r: "ask_sys (os_resolve S (acDDNSDomainName (cfg (env W)))) W = (r, W1)" by fastforce
  show ?thesis by (rule ask_sys_same [OF r]) (simp add: DDNS_Update_IP_def r Let_def Do_DNS_one)
qed

lemma update_one: "one_client W (DDNS_Update S W)"
  by (simp add: DDNS_Update_def DDNS_CheckIP_def DDNS_Do_CheckIP_def Let_def insert_client_one update_IP_one)

lemma one_client_inv:
  assumes "ddns_inv (s, W)" and "one_client W W'" and "\<And>p. posted W p W' \<Longrightarrow> client_ok p"
  shows "ddns_inv (s, W')"
  using assms by (auto simp: ddns_inv_def one_client_def queued_def posted_def)

lemma ddns_happens_inv:
  assumes "\<forall>t n. 0 < n \<longrightarrow> length (httpMyStrncpy (lib E) t n) < n" and "ddns_inv x" and "ddns_happens E N T S e x = Inr x'"
  shows "ddns_inv x'"
proof -
  obtain s W where x: "x = (s, W)" by (cases x)
  have f: "ddns_fits (cfg (env W))" using assms(2) by (simp add: ddns_inv_def x)
  show ?thesis
  proof (cases e)
    case (Request ps)
    let ?r = "ddns_asked N T ps"
    let ?g = "ddns_cut (httpMyStrncpy (lib E)) ?r"
    show ?thesis
    proof (cases "?r = ddns_of s \<and> ulDDNSIP ?r \<noteq> 0 \<and> iDDNSState (env W) = DDNS_UPDATE_OK")
      case True
      then have a: "ddns_asked N T ps = ddns_of s" "iDDNSState (env W) = DDNS_UPDATE_OK" by blast+
      have "ulDDNSIP (ddns_of s) \<noteq> 0" using True unfolding a(1) by blast
      with a show ?thesis using assms(2,3) Request by (simp add: x Config_SetDDNS_def)
    next
      case False
      let ?s1 = "s\<lparr>ic_cfg := (ic_cfg s)\<lparr>cfg_ddns := ?g\<rparr>\<rparr>"
      obtain s2 where s2: "save_config E ?s1 = Inr s2" "x' = (s2, DDNS_Update S (use_cfg ?g W))"
        using assms(3) False Request by (auto simp: x Config_SetDDNS_def Let_def bnd_Inr simp del: de_Morgan_conj)
      have "ddns_of s2 = ?g" using s2(1) by (auto simp: save_config_def split: option.splits)
      moreover have "ddns_fits ?g" using assms(1) by (simp add: ddns_fits_def ddns_cut_def)
      ultimately have "ddns_inv (s2, use_cfg ?g W)" using assms(2) by (simp add: ddns_inv_def use_cfg_def x queued_def)
      moreover have "ddns_fits (cfg (env (use_cfg ?g W)))" using \<open>ddns_fits ?g\<close> by (simp add: use_cfg_def)
      ultimately show ?thesis unfolding s2(2) using one_client_inv [OF _ update_one] update_client_ok by blast
    qed
  next
    case Timer
    then have "x' = (s, DDNS_Update S W)" using assms(3) by (simp add: x prdTask_CheckDDNS_def)
    then show ?thesis using assms(2) one_client_inv [OF _ update_one] update_client_ok [OF f] unfolding x by blast
  next
    case (Answer ip)
    then have "x' = (s, DDNS_Update_IP S ip W)" using assms(3) by (simp add: x)
    then show ?thesis using assms(2) one_client_inv [OF _ update_IP_one] update_client_ok [OF f] unfolding x by blast
  next
    case Fetch
    then show ?thesis using assms(2,3) by (cases "msg_queue W") (auto simp: x ddns_inv_def queued_def)
  qed
qed

lemma ddns_history_inv:
  assumes "\<forall>t n. 0 < n \<longrightarrow> length (httpMyStrncpy (lib E) t n) < n"
  shows "ddns_history E N T S es x = Inr x' \<Longrightarrow> ddns_inv x \<Longrightarrow> ddns_inv x'"
proof (induction es arbitrary: x)
  case (Cons e es)
  from Cons.prems(1) obtain y where "ddns_happens E N T S e x = Inr y" "ddns_history E N T S es y = Inr x'" by (auto simp: bnd_Inr)
  then show ?case using Cons.IH ddns_happens_inv [OF assms Cons.prems(2)] by blast
qed simp

text \<open>
  C26. No setting, no network, no name server and no server makes a client of the service leave its buffers: whatever requests set,
  however often the timer, a request or an answer starts an update, the request of every client that is posted (to learn the address or
  to announce it) fits the buffer, whatever the name servers return, and so does every part of an answer; the calls of the client never
  end in an error.
\<close>

theorem ddns_clients_stay_in_bounds:
  assumes "os_laws S opn" and "\<forall>t n. 0 < n \<longrightarrow> length (httpMyStrncpy (lib E) t n) < n"
    and "ddns_fits (ddns_of s)" and "cfg (env W) = ddns_of s" and "msg_queue W = []"
    and "ddns_history E N T S es (s, W) = Inr (s', W')" and "MSG_CUSTOM_PROC (Some (AddDDNS p)) \<in> set (msg_queue W')"
  shows "\<exists>running p' V'. http_calls S ms p V = Inr (running, p', V')"
proof -
  have "ddns_inv (s, W)" using assms(3-5) by (simp add: ddns_inv_def queued_def)
  then have "ddns_inv (s', W')" by (rule ddns_history_inv [OF assms(2,6)])
  then have "client_ok p" using assms(7) by (simp add: ddns_inv_def queued_def)
  then show ?thesis using http_calls_ok [OF assms(1), of p ms V] by (metis surj_pair)
qed

text \<open>
  Dynamic DNS settings are read back as they were set: for strings that fit and a service the camera knows, the reply to GetDDNS.cgi
  lists what SetDDNS.cgi was given, and the configuration is in the flash.
\<close>

theorem ddns_settings_read_back:
  assumes "ictl_ok E s" and "\<forall>t n. length t < n \<longrightarrow> httpMyStrncpy (lib E) t n = t"
    and "ddns_fits (ddns_asked N T ps)" and "httpGetString ps ''Service'' \<in> {''dyndns'', ''no-ip'', ''dnsomatic''}"
    and "iDDNSState (env W) \<noteq> DDNS_UPDATE_OK"
  shows "\<exists>s' W' state. Config_SetDDNS E N T S ps CA_CONFIG (s, W) = Inr (0, [], (s', W')) \<and> config_saved E s'
    \<and> Config_GetDDNS N T [] CA_CONFIG (s', W') = Inr (0,
        [(''Enable'', httpLong2String T (if httpGetBool T ps ''Enable'' then 1 else 0)), (''Service'', httpGetString ps ''Service''),
         (''User'', httpGetString ps ''User''), (''Pass'', httpGetString ps ''Pass''), (''DomainName'', httpGetString ps ''DomainName''),
         (''IP'', httpIP2String N (httpGetIP N ps ''IP'')), (''Proxy'', httpGetString ps ''Proxy''),
         (''ProxyPort'', httpLong2String T (httpGetLong T ps ''ProxyPort'')), (''ProxyUser'', httpGetString ps ''ProxyUser''),
         (''ProxyPass'', httpGetString ps ''ProxyPass''), (''Info'', state)], (s', W'))"
proof -
  let ?g = "ddns_asked N T ps"
  let ?s1 = "s\<lparr>ic_cfg := (ic_cfg s)\<lparr>cfg_ddns := ?g\<rparr>\<rparr>"
  have cut: "ddns_cut (httpMyStrncpy (lib E)) ?g = ?g" using assms(2,3) by (simp add: ddns_cut_def ddns_fits_def)
  have "ictl_ok E ?s1" using assms(1) by (simp add: ictl_ok_def)
  from save_config_ok [OF this] obtain f where f: "save_config E ?s1 = Inr (?s1\<lparr>ic_flash := f\<rparr>)" "config_saved E (?s1\<lparr>ic_flash := f\<rparr>)" by blast
  let ?s2 = "?s1\<lparr>ic_flash := f\<rparr>" and ?W1 = "DDNS_Update S (use_cfg ?g W)"
  have set: "Config_SetDDNS E N T S ps CA_CONFIG (s, W) = Inr (0, [], (?s2, ?W1))"
    using assms(5) cut f(1) by (simp add: Config_SetDDNS_def Let_def)
  have name: "ddns_service_name (ddns_service_type (httpGetString ps ''Service'')) = httpGetString ps ''Service''"
    using assms(4) by (auto simp: ddns_service_type_def ddns_service_name_def ddns_types)
  have "ddns_of ?s2 = ?g" by simp
  then have get: "Config_GetDDNS N T [] CA_CONFIG (?s2, ?W1) = Inr (0,
      [(''Enable'', httpLong2String T (if httpGetBool T ps ''Enable'' then 1 else 0)), (''Service'', httpGetString ps ''Service''),
       (''User'', httpGetString ps ''User''), (''Pass'', httpGetString ps ''Pass''), (''DomainName'', httpGetString ps ''DomainName''),
       (''IP'', httpIP2String N (httpGetIP N ps ''IP'')), (''Proxy'', httpGetString ps ''Proxy''),
       (''ProxyPort'', httpLong2String T (httpGetLong T ps ''ProxyPort'')), (''ProxyUser'', httpGetString ps ''ProxyUser''),
       (''ProxyPass'', httpGetString ps ''ProxyPass''), (''Info'', ddns_state_name (iDDNSState (env ?W1)))], (?s2, ?W1))"
    using name by (simp add: Config_GetDDNS_def Let_def ddns_asked_def)
  show ?thesis using set f(2) get by blast
qed

text \<open>A camera whose configuration asks for an update, and what its first timer posts.\<close>

definition example_camera :: "(example_users, unit) ictl_state" where
  "example_camera = example_state\<lparr>ic_cfg := (ic_cfg example_state)\<lparr>cfg_ddns := example_ddns\<rparr>\<rparr>"

theorem ddns_clients_stay_in_bounds_witness:
  "\<exists>s' W'. ddns_history example_env NetSettings.example_net example_text offline_net [Timer] (example_camera, example_world [] 0 MSG_NONE)
       = Inr (s', W') \<and> MSG_CUSTOM_PROC (Some (AddDDNS checkip_client)) \<in> set (msg_queue W')
     \<and> (\<exists>running p' V'. http_calls offline_net [(False, False), (True, True)] checkip_client W' = Inr (running, p', V'))"
proof -
  let ?W = "example_world [] 0 MSG_NONE" and ?N = "NetSettings.example_net"
  let ?V = "DDNS_Update offline_net ?W"
  have cpy: "\<forall>t n. 0 < n \<longrightarrow> length (httpMyStrncpy (lib example_env) t n) < n"
    by (simp add: example_env_sel example_lib_sel min_less_iff_disj)
  have start: "ddns_fits (ddns_of example_camera)" "cfg (env ?W) = ddns_of example_camera" "msg_queue ?W = []"
    by (simp_all add: ddns_fits_def example_camera_def example_world_def example_ddns_def)
  have run: "ddns_history example_env ?N example_text offline_net [Timer] (example_camera, ?W) = Inr (example_camera, ?V)"
    by (simp add: prdTask_CheckDDNS_def)
  have posted: "MSG_CUSTOM_PROC (Some (AddDDNS checkip_client)) \<in> set (msg_queue ?V)"
    by (simp add: example_world_def example_ddns_def DDNS_Update_def DDNS_CheckIP_def DDNS_Do_CheckIP_def ddns_types
        insert_client_def InsertCustomProcess_def send_msg_def checkip_client_def HTTPC_Init_def nonempty_def)
  show ?thesis using ddns_clients_stay_in_bounds [OF offline_net_laws cpy start run posted] run posted by blast
qed

theorem ddns_settings_read_back_witness:
  "\<exists>s' W' state. Config_SetDDNS example_env NetSettings.example_net example_text offline_net
       [(''Enable'', ''1''), (''Service'', ''no-ip''), (''User'', ''me'')] CA_CONFIG (example_state, example_world [] 0 MSG_NONE) = Inr (0, [], (s', W'))
     \<and> Config_GetDDNS NetSettings.example_net example_text [] CA_CONFIG (s', W') = Inr (0,
         [(''Enable'', ''1''), (''Service'', ''no-ip''), (''User'', ''me''), (''Pass'', []), (''DomainName'', []), (''IP'', ''0''),
          (''Proxy'', []), (''ProxyPort'', ''0''), (''ProxyUser'', []), (''ProxyPass'', []), (''Info'', state)], (s', W'))"
proof -
  let ?ps = "[(''Enable'', ''1''), (''Service'', ''no-ip''), (''User'', ''me'')]" and ?W = "example_world [] 0 MSG_NONE"
  have cpy: "\<forall>t n. length t < n \<longrightarrow> httpMyStrncpy (lib example_env) t n = t" by (simp add: example_env_sel example_lib_sel)
  have ps: "httpGetString ?ps n = (if n = ''Enable'' then ''1'' else if n = ''Service'' then ''no-ip'' else if n = ''User'' then ''me'' else [])" for n
    by (simp add: httpGetString_def)
  have a: "ddns_fits (ddns_asked NetSettings.example_net example_text ?ps)" "httpGetString ?ps ''Service'' \<in> {''dyndns'', ''no-ip'', ''dnsomatic''}"
    "iDDNSState (env ?W) \<noteq> DDNS_UPDATE_OK"
    by (simp_all add: ddns_fits_def ddns_asked_def ps example_world_def ddns_states)
  have d: "dec 1 = ''1''" "dec 0 = ''0''" by code_simp+
  have v: "httpGetBool example_text ?ps ''Enable''" "httpLong2String example_text 1 = ''1''" "httpIP2String NetSettings.example_net 0 = ''0''"
    "httpGetIP NetSettings.example_net ?ps ''IP'' = 0" "httpGetLong example_text ?ps ''ProxyPort'' = 0" "httpLong2String example_text 0 = ''0''"
    by (simp_all add: httpGetBool_def httpGetIP_def httpGetLong_def example_text_def NetSettings.example_net_def d d(1) [simplified])
  show ?thesis using ddns_settings_read_back [OF example_ictl_ok cpy a, of offline_net] by (simp add: v ps) blast
qed

end
