(* ===== verification/UrlClient.thy ===== *)
theory UrlClient
  imports Rovio_Prelude
begin

section \<open>Handing the answer of /SendHttp.cgi to the browser\<close>

text \<open>
  HttpClient.c, from \<open>URLCGI_HTTPC\<close> on: the select thread receives an answer and puts it, at most 64 characters at a time, into a
  buffer from which the web server sends it to the browser. A lock and a condition protect the buffer; the select thread sleeps on the
  condition, in the middle of a call, until the web server has emptied the buffer and signals it. The lock, sleeping, the signal and
  taking the lock again after it are part of the state here, and each step is one the lock or the condition separates from the others.
\<close>

record url_httpc =
  acBody :: string
  szBodyLen :: nat
  bIsRequestOver :: bool
  bHasResponse :: bool
  bTransparent :: bool

definition URL_BODY_SIZE :: nat where
  "URL_BODY_SIZE = 64"

text \<open>A new client: \<open>ObjInit\<close> (SSelect.c) has cleared the whole object, so that the buffer is empty.\<close>

definition URLCGI_HTTPC_Init :: "bool \<Rightarrow> url_httpc" where
  "URLCGI_HTTPC_Init bT = \<lparr>acBody = replicate URL_BODY_SIZE (CHR 0x00), szBodyLen = 0, bIsRequestOver = False, bHasResponse = False,
     bTransparent = bT\<rparr>"

definition URLCGI_HTTPCRequestOver :: "url_httpc \<Rightarrow> url_httpc" where
  "URLCGI_HTTPCRequestOver c = c\<lparr>bIsRequestOver := True\<rparr>"

text \<open>\<open>URLCGI_HTTPCResponse\<close>: what is left of its text, and a round of its loop; None while it has to wait.\<close>

definition response_begin :: "url_httpc \<Rightarrow> url_httpc" where
  "response_begin c = c\<lparr>bHasResponse := True\<rparr>"

definition response_round :: "string \<Rightarrow> url_httpc \<Rightarrow> (string \<times> url_httpc) option" where
  "response_round pc c =
     (if szBodyLen c > 0 then None
      else let iLenThis = min (length pc) URL_BODY_SIZE
           in Some (drop iLenThis pc, c\<lparr>acBody := take iLenThis pc @ drop iLenThis (acBody c), szBodyLen := iLenThis\<rparr>))"

text \<open>\<open>FillURLCGIData\<close>: what it adds to the reply, and whether it is called again.\<close>

definition no_response :: string where
  "no_response = ''<!--no response-->''"

definition FillURLCGIData :: "url_httpc \<Rightarrow> string \<times> bool \<times> url_httpc" where
  "FillURLCGIData c =
     (if szBodyLen c > 0 then (take (szBodyLen c) (acBody c), True, c\<lparr>szBodyLen := 0\<rparr>)
      else if bIsRequestOver c
           then if \<not> bHasResponse c then (no_response, True, c\<lparr>bHasResponse := True\<rparr>) else ([], False, c)
      else ([], True, c))"

subsection \<open>The two threads\<close>

text \<open>
  \<open>todo\<close>: the parts of the answer the select thread has still to receive; \<open>call\<close>: what is left of the one it is in; \<open>locked\<close>: the select
  thread holds \<open>mLock\<close>; \<open>asleep\<close>: it sleeps in \<open>cyg_cond_wait\<close>, which has released the lock; \<open>sent\<close>: what the browser got; \<open>replied\<close>: the
  reply is complete; \<open>gone\<close>: the browser has closed the connection, so that nothing is taken from the buffer any more.
\<close>

record handover =
  hc :: url_httpc
  todo :: "string list"
  call :: "string option"
  locked :: bool
  asleep :: bool
  sent :: string
  replied :: bool
  gone :: bool

definition cyg_cond_wait :: "handover \<Rightarrow> handover" where
  "cyg_cond_wait h = h\<lparr>locked := False, asleep := True\<rparr>"

definition cyg_cond_signal :: "handover \<Rightarrow> handover" where
  "cyg_cond_signal h = h\<lparr>asleep := False\<rparr>"

text \<open>
  The select thread: it enters \<open>URLCGI_HTTPCResponse\<close> and takes the lock, copies into the empty buffer, goes to sleep when it is full, takes the
  lock again after the signal, and leaves. Without another part the request is over.
\<close>

inductive select_step :: "handover \<Rightarrow> handover \<Rightarrow> bool" where
  enter: "call h = None \<Longrightarrow> todo h = d # ds \<Longrightarrow>
     select_step h (h\<lparr>hc := response_begin (hc h), todo := ds, call := Some d, locked := True\<rparr>)"
| put: "locked h \<Longrightarrow> call h = Some pc \<Longrightarrow> pc \<noteq> [] \<Longrightarrow> response_round pc (hc h) = Some (pc', c) \<Longrightarrow>
     select_step h (h\<lparr>hc := c, call := Some pc'\<rparr>)"
| sleep: "locked h \<Longrightarrow> call h = Some pc \<Longrightarrow> pc \<noteq> [] \<Longrightarrow> response_round pc (hc h) = None \<Longrightarrow> select_step h (cyg_cond_wait h)"
| wake: "call h = Some pc \<Longrightarrow> \<not> locked h \<Longrightarrow> \<not> asleep h \<Longrightarrow> select_step h (h\<lparr>locked := True\<rparr>)"
| leave: "locked h \<Longrightarrow> call h = Some [] \<Longrightarrow> select_step h (h\<lparr>call := None, locked := False\<rparr>)"
| over: "call h = None \<Longrightarrow> todo h = [] \<Longrightarrow> \<not> bIsRequestOver (hc h) \<Longrightarrow> select_step h (h\<lparr>hc := URLCGI_HTTPCRequestOver (hc h)\<rparr>)"

text \<open>The web server: it calls \<open>FillURLCGIData\<close>, under the lock, which ends with the signal, until that has no more; or the browser leaves.\<close>

definition fill_call :: "handover \<Rightarrow> handover" where
  "fill_call h =
     (let (t, again, c) = FillURLCGIData (hc h)
      in cyg_cond_signal (h\<lparr>hc := c, sent := sent h @ t, replied := \<not> again\<rparr>))"

inductive server_step :: "handover \<Rightarrow> handover \<Rightarrow> bool" where
  fill: "\<not> replied h \<Longrightarrow> \<not> gone h \<Longrightarrow> \<not> locked h \<Longrightarrow> server_step h (fill_call h)"
| close: "\<not> replied h \<Longrightarrow> server_step h (h\<lparr>gone := True\<rparr>)"

definition hand_step :: "handover \<Rightarrow> handover \<Rightarrow> bool" where
  "hand_step h h' = (select_step h h' \<or> server_step h h')"

inductive_cases select_stepE: "select_step h h'"
inductive_cases server_stepE: "server_step h h'"

definition hand_start :: "url_httpc \<Rightarrow> string list \<Rightarrow> handover" where
  "hand_start c ds = \<lparr>hc = c, todo = ds, call = None, locked = False, asleep = False, sent = [], replied = False, gone = False\<rparr>"

subsection \<open>Nothing is lost\<close>

definition in_buffer :: "url_httpc \<Rightarrow> string" where
  "in_buffer c = take (szBodyLen c) (acBody c)"

definition on_the_way :: "handover \<Rightarrow> string" where
  "on_the_way h = in_buffer (hc h) @ (case call h of None \<Rightarrow> [] | Some pc \<Rightarrow> pc) @ concat (todo h)"

text \<open>Without an answer the browser gets a note instead.\<close>

definition answered :: "string list \<Rightarrow> string" where
  "answered ds = (if ds = [] then no_response else concat ds)"

definition hand_inv :: "string list \<Rightarrow> handover \<Rightarrow> bool" where
  "hand_inv ds h =
     (length (acBody (hc h)) = URL_BODY_SIZE \<and> szBodyLen (hc h) \<le> URL_BODY_SIZE
    \<and> (bIsRequestOver (hc h) \<longrightarrow> call h = None \<and> todo h = [])
    \<and> (if ds = [] then todo h = [] \<and> call h = None \<and> szBodyLen (hc h) = 0
          \<and> sent h = (if bHasResponse (hc h) then no_response else [])
       else sent h @ on_the_way h = concat ds \<and> (todo h = ds \<and> call h = None \<or> bHasResponse (hc h)))
    \<and> (replied h \<longrightarrow> bIsRequestOver (hc h) \<and> szBodyLen (hc h) = 0 \<and> bHasResponse (hc h))
    \<and> (locked h \<longrightarrow> call h \<noteq> None \<and> \<not> asleep h)
    \<and> (asleep h \<longrightarrow> (\<exists>pc. call h = Some pc \<and> pc \<noteq> []) \<and> 0 < szBodyLen (hc h)))"

lemma hand_start_inv: "hand_inv ds (hand_start (URLCGI_HTTPC_Init bT) ds)"
  by (simp add: hand_inv_def hand_start_def URLCGI_HTTPC_Init_def on_the_way_def in_buffer_def)

text \<open>What a call of \<open>FillURLCGIData\<close> does to the two threads.\<close>

lemma fill_call_cases:
  obtains (data) "0 < szBodyLen (hc h)"
      "fill_call h = h\<lparr>hc := (hc h)\<lparr>szBodyLen := 0\<rparr>, sent := sent h @ in_buffer (hc h), replied := False, asleep := False\<rparr>"
  | (remark) "szBodyLen (hc h) = 0" "bIsRequestOver (hc h)" "\<not> bHasResponse (hc h)"
      "fill_call h = h\<lparr>hc := (hc h)\<lparr>bHasResponse := True\<rparr>, sent := sent h @ no_response, replied := False, asleep := False\<rparr>"
  | (finish) "szBodyLen (hc h) = 0" "bIsRequestOver (hc h)" "bHasResponse (hc h)" "fill_call h = h\<lparr>replied := True, asleep := False\<rparr>"
  | (idle) "szBodyLen (hc h) = 0" "\<not> bIsRequestOver (hc h)" "fill_call h = h\<lparr>replied := False, asleep := False\<rparr>"
proof -
  consider "0 < szBodyLen (hc h)" | "szBodyLen (hc h) = 0" "bIsRequestOver (hc h)" "\<not> bHasResponse (hc h)"
    | "szBodyLen (hc h) = 0" "bIsRequestOver (hc h)" "bHasResponse (hc h)" | "szBodyLen (hc h) = 0" "\<not> bIsRequestOver (hc h)" by blast
  then show ?thesis
  proof cases
    case 1
    then show ?thesis by (intro data) (simp_all add: fill_call_def FillURLCGIData_def cyg_cond_signal_def in_buffer_def)
  next
    case 2
    then show ?thesis by (intro remark) (simp_all add: fill_call_def FillURLCGIData_def cyg_cond_signal_def)
  next
    case 3
    then show ?thesis by (intro finish) (simp_all add: fill_call_def FillURLCGIData_def cyg_cond_signal_def)
  next
    case 4
    then show ?thesis by (intro idle) (simp_all add: fill_call_def FillURLCGIData_def cyg_cond_signal_def)
  qed
qed

lemma select_step_inv:
  assumes "select_step h h'" and "hand_inv ds h"
  shows "hand_inv ds h'"
  using assms(1)
proof (cases rule: select_step.cases)
  case (enter d rest)
  then show ?thesis using assms(2) by (auto simp: hand_inv_def on_the_way_def in_buffer_def response_begin_def split: if_splits)
next
  case (put pc pc' c)
  then have c: "szBodyLen (hc h) = 0" "pc' = drop 64 pc" "in_buffer c = take 64 pc" "length (acBody c) = 64" "szBodyLen c \<le> 64"
    "bHasResponse c = bHasResponse (hc h)" "bIsRequestOver c = bIsRequestOver (hc h)"
    using assms(2) by (auto simp: response_round_def Let_def in_buffer_def hand_inv_def URL_BODY_SIZE_def min_def split: if_splits)
  then have "on_the_way h' = on_the_way h" using put by (simp add: on_the_way_def in_buffer_def)
  then show ?thesis using put c assms(2) by (auto simp: hand_inv_def URL_BODY_SIZE_def split: if_splits)
next
  case (sleep pc)
  then show ?thesis using assms(2)
    by (auto simp: hand_inv_def on_the_way_def cyg_cond_wait_def response_round_def Let_def split: if_splits)
next
  case (wake pc)
  then show ?thesis using assms(2) by (auto simp: hand_inv_def on_the_way_def split: if_splits)
next
  case leave
  then show ?thesis using assms(2) by (auto simp: hand_inv_def on_the_way_def split: if_splits)
next
  case over
  then show ?thesis using assms(2) by (auto simp: hand_inv_def on_the_way_def in_buffer_def URLCGI_HTTPCRequestOver_def split: if_splits)
qed

lemma server_step_inv:
  assumes "server_step h h'" and "hand_inv ds h"
  shows "hand_inv ds h'"
  using assms(1)
proof (cases rule: server_step.cases)
  case fill
  show ?thesis
    by (cases rule: fill_call_cases [of h]) (use fill assms(2) in \<open>auto simp: hand_inv_def on_the_way_def in_buffer_def split: if_splits\<close>)
next
  case close
  then show ?thesis using assms(2) by (auto simp: hand_inv_def on_the_way_def split: if_splits)
qed

lemma hand_run_inv: "hand_step\<^sup>*\<^sup>* h h' \<Longrightarrow> hand_inv ds h \<Longrightarrow> hand_inv ds h'"
  by (induction rule: rtranclp_induct) (auto simp: hand_step_def intro: select_step_inv server_step_inv)

text \<open>
  C27. The browser gets the answer, in order and nothing else: in whatever order the two threads run, what was sent is a beginning of
  what the server answered, over all parts, and when the reply is complete it is all of it; an answer without any part is replaced by a
  note.
\<close>

theorem answer_reaches_browser:
  assumes "hand_step\<^sup>*\<^sup>* (hand_start (URLCGI_HTTPC_Init bT) ds) h"
  shows "\<exists>rest. answered ds = sent h @ rest \<and> (replied h \<longrightarrow> rest = [])"
proof -
  have i: "hand_inv ds h" using assms(1) hand_run_inv hand_start_inv by blast
  show ?thesis
  proof (cases "ds = []")
    case True
    then show ?thesis using i by (auto simp: hand_inv_def answered_def)
  next
    case False
    then have "concat ds = sent h @ on_the_way h" using i by (simp add: hand_inv_def)
    moreover have "on_the_way h = []" if "replied h" using i that by (simp add: hand_inv_def on_the_way_def in_buffer_def)
    ultimately show ?thesis using False by (auto simp: answered_def)
  qed
qed

subsection \<open>The reply is completed, unless the browser leaves\<close>

text \<open>
  A busy step changes something and is not the browser leaving; a call of \<open>FillURLCGIData\<close> that finds neither data nor the end is not one. What
  is left of the work counts the characters not yet in the buffer, the full buffer, and where the select thread is: about to take the
  lock again, holding it, or asleep.
\<close>

definition busy_step :: "handover \<Rightarrow> handover \<Rightarrow> bool" where
  "busy_step h h' = (hand_step h h' \<and> h' \<noteq> h \<and> \<not> gone h')"

definition work_left :: "handover \<Rightarrow> nat" where
  "work_left h = sum_list (map (\<lambda>d. 2 + 4 * length d) (todo h)) + (case call h of None \<Rightarrow> 0 | Some pc \<Rightarrow> 4 * length pc)
     + (if call h = None \<or> asleep h then 0 else if locked h then 1 else 2)
     + (if 0 < szBodyLen (hc h) then 3 else 0) + (if bIsRequestOver (hc h) then 0 else 1) + (if bHasResponse (hc h) then 0 else 1)
     + (if replied h then 0 else 1)"

lemma busy_select:
  assumes "select_step h h'" and "hand_inv ds h"
  shows "work_left h' < work_left h \<and> gone h' = gone h"
  using assms(1)
proof (cases rule: select_step.cases)
  case (put pc pc' c)
  then have "pc' = drop 64 pc" "szBodyLen (hc h) = 0" "bHasResponse c = bHasResponse (hc h)" "bIsRequestOver c = bIsRequestOver (hc h)"
    by (auto simp: response_round_def Let_def URL_BODY_SIZE_def min_def split: if_splits)
  then show ?thesis using put by (cases pc) (auto simp: work_left_def)
qed (use assms(2) in \<open>auto simp: work_left_def hand_inv_def response_begin_def cyg_cond_wait_def URLCGI_HTTPCRequestOver_def\<close>)

lemma busy_fill:
  assumes "\<not> replied h" and "hand_inv ds h" and "fill_call h \<noteq> h"
  shows "work_left (fill_call h) < work_left h"
proof (cases rule: fill_call_cases [of h])
  case idle
  then have "fill_call h = h" using assms(1,2) by (cases h) (auto simp: hand_inv_def)
  with assms(3) show ?thesis by simp
qed (use assms in \<open>auto simp: work_left_def hand_inv_def split: option.splits\<close>)

lemma busy_step_decreases: "busy_step h h' \<Longrightarrow> hand_inv ds h \<Longrightarrow> work_left h' < work_left h \<and> \<not> gone h' \<and> hand_inv ds h'"
  unfolding busy_step_def hand_step_def
  by (auto intro: select_step_inv server_step_inv dest: busy_select) (auto elim!: server_stepE intro: busy_fill)

lemma busy_runs_are_short: "(busy_step ^^ n) h h' \<Longrightarrow> hand_inv ds h \<Longrightarrow> n + work_left h' \<le> work_left h \<and> hand_inv ds h'"
proof (induction n arbitrary: h')
  case (Suc n)
  then obtain y where y: "(busy_step ^^ n) h y" "busy_step y h'" by auto
  from Suc.IH [OF y(1) Suc.prems(2)] busy_step_decreases [OF y(2)] show ?case by fastforce
qed simp

text \<open>As long as the reply is not complete and the browser there, one of the two threads is not waiting.\<close>

lemma one_is_busy:
  assumes "hand_inv ds h" and "\<not> replied h" and "\<not> gone h"
  shows "\<exists>h'. busy_step h h'"
proof -
  have sel: "busy_step h h'" if "select_step h h'" for h'
    using busy_select [OF that assms(1)] that assms(3) by (auto simp: busy_step_def hand_step_def)
  have srv: "busy_step h (fill_call h)" if "\<not> locked h" "fill_call h \<noteq> h"
    using server_step.fill [OF assms(2,3) that(1)] that(2) assms(3)
    by (auto simp: busy_step_def hand_step_def fill_call_def cyg_cond_signal_def split: prod.splits)
  consider (enter) d ds where "call h = None" "todo h = d # ds" | (over) "call h = None" "todo h = []" "\<not> bIsRequestOver (hc h)"
    | (finish) "call h = None" "bIsRequestOver (hc h)"
    | (held) pc where "call h = Some pc" "locked h" | (woken) pc where "call h = Some pc" "\<not> locked h" "\<not> asleep h"
    | (waits) pc where "call h = Some pc" "\<not> locked h" "asleep h"
    by (cases "call h"; cases "todo h") blast+
  then show ?thesis
  proof cases
    case enter
    then show ?thesis using sel select_step.enter by blast
  next
    case over
    then show ?thesis using sel select_step.over by blast
  next
    case finish
    then have "fill_call h \<noteq> h" using assms(2)
      by (cases h, cases "hc h") (auto simp: fill_call_def FillURLCGIData_def cyg_cond_signal_def)
    moreover have "\<not> locked h" using assms(1) finish by (auto simp: hand_inv_def)
    ultimately show ?thesis using srv by blast
  next
    case (held pc)
    show ?thesis
    proof (cases "pc = []")
      case True
      then show ?thesis using sel select_step.leave held by blast
    next
      case False
      then show ?thesis
        by (cases "response_round pc (hc h)") (use sel select_step.put select_step.sleep held in \<open>blast, fastforce\<close>)
    qed
  next
    case woken
    then show ?thesis using sel select_step.wake by blast
  next
    case (waits pc)
    then have "fill_call h \<noteq> h" by (cases h) (auto simp: fill_call_def cyg_cond_signal_def split: prod.splits)
    then show ?thesis using srv waits(2) by blast
  qed
qed

text \<open>
  C28. Neither thread waits in vain while the browser is there, with the sleeping and waking of the code's condition variable: from
  every state the two threads reach, no run in which something happens has more than \<open>work_left\<close> steps; and wherever such a run gets, either
  one of the two threads can go on, or the reply is complete and is the whole answer.
\<close>

theorem reply_is_completed:
  assumes "hand_step\<^sup>*\<^sup>* (hand_start (URLCGI_HTTPC_Init bT) ds) h" and "\<not> gone h" and "(busy_step ^^ n) h h'"
  shows "n \<le> work_left h \<and> ((\<exists>h''. busy_step h' h'') \<or> replied h' \<and> sent h' = answered ds)"
proof -
  have "hand_inv ds h" using assms(1) hand_run_inv hand_start_inv by blast
  from busy_runs_are_short [OF assms(3) this] have i: "hand_inv ds h'" and n: "n \<le> work_left h" by auto
  have g: "\<not> gone h'" using assms(2,3) by (cases n) (auto simp: busy_step_def)
  show ?thesis
  proof (cases "replied h'")
    case True
    then have "sent h' = answered ds" using i
      by (cases "ds = []") (auto simp: hand_inv_def answered_def on_the_way_def in_buffer_def)
    with True n show ?thesis by blast
  qed (use n one_is_busy [OF i _ g] in blast)
qed

lemma blocked_stays:
  assumes "hand_step\<^sup>*\<^sup>* h h'" and "gone h" and "call h = Some pc" and "asleep h" and "\<not> locked h"
  shows "gone h' \<and> call h' = Some pc \<and> asleep h' \<and> \<not> locked h'"
  using assms(1)
proof (induction rule: rtranclp_induct)
  case base
  then show ?case using assms by simp
next
  case (step y z)
  have "\<not> select_step y z" using step.IH by (auto elim!: select_stepE)
  then have "server_step y z" using step.hyps(2) by (simp add: hand_step_def)
  then show ?case using step.IH by (auto elim!: server_stepE)
qed

text \<open>
  C29. A browser that leaves blocks the thread of all network clients: if a part of the answer is longer than the buffer, the browser can
  close the connection at a moment from which on the select thread never makes another step. The message to remove the client, which
  is sent to that thread, is not looked at any more, nor is any other client served.
\<close>

theorem leaving_browser_blocks_thread:
  assumes "URL_BODY_SIZE < length d"
  shows "\<exists>h. hand_step\<^sup>*\<^sup>* (hand_start (URLCGI_HTTPC_Init bT) (d # ds)) h
     \<and> (\<forall>h'. hand_step\<^sup>*\<^sup>* h h' \<longrightarrow> call h' \<noteq> None \<and> (\<forall>h''. \<not> select_step h' h''))"
proof -
  let ?c = "URLCGI_HTTPC_Init bT"
  let ?Start = "hand_start ?c (d # ds)"
  let ?Called = "?Start\<lparr>hc := response_begin ?c, todo := ds, call := Some d, locked := True\<rparr>"
  have d: "d \<noteq> []" "drop 64 d \<noteq> []" using assms(1) by (auto simp: URL_BODY_SIZE_def)
  obtain c where c: "response_round d (response_begin ?c) = Some (drop 64 d, c)" "szBodyLen c = 64"
    using assms(1) by (auto simp: response_round_def response_begin_def URLCGI_HTTPC_Init_def Let_def URL_BODY_SIZE_def min_def)
  let ?Full = "?Called\<lparr>hc := c, call := Some (drop 64 d)\<rparr>"
  let ?Shut = "(cyg_cond_wait ?Full)\<lparr>gone := True\<rparr>"
  have s1: "hand_step ?Start ?Called" using select_step.enter [of ?Start d ds] by (simp add: hand_step_def hand_start_def)
  have s2: "hand_step ?Called ?Full" using select_step.put [of ?Called d "drop 64 d" c] c(1) d(1) by (simp add: hand_step_def)
  have s3: "hand_step ?Full (cyg_cond_wait ?Full)"
    using select_step.sleep [of ?Full "drop 64 d"] c(2) d(2) by (simp add: hand_step_def response_round_def)
  have s4: "hand_step (cyg_cond_wait ?Full) ?Shut"
    using server_step.close [of "cyg_cond_wait ?Full"] by (simp add: hand_step_def hand_start_def cyg_cond_wait_def)
  have "hand_step\<^sup>*\<^sup>* ?Start ?Shut" using s1 s2 s3 s4 by (meson converse_rtranclp_into_rtranclp rtranclp.rtrancl_refl)
  moreover have "call h' \<noteq> None \<and> (\<forall>h''. \<not> select_step h' h'')" if "hand_step\<^sup>*\<^sup>* ?Shut h'" for h'
  proof -
    have "call h' = Some (drop 64 d) \<and> asleep h' \<and> \<not> locked h'"
      using blocked_stays [OF that, of "drop 64 d"] by (simp add: cyg_cond_wait_def)
    then show ?thesis by (auto elim!: select_stepE)
  qed
  ultimately show ?thesis by blast
qed

text \<open>The same, on an answer of two parts: the first is received and sent to the browser before the second arrives.\<close>

definition example_answer :: "string list" where
  "example_answer = [''HTTP/1.0 200 OK'', ''hello'']"

abbreviation url_start :: handover where
  "url_start \<equiv> hand_start (URLCGI_HTTPC_Init True) example_answer"

definition after_enter :: handover where
  "after_enter = url_start\<lparr>hc := response_begin (URLCGI_HTTPC_Init True), todo := [''hello''], call := Some ''HTTP/1.0 200 OK'',
     locked := True\<rparr>"

definition after_put :: handover where
  "after_put = after_enter\<lparr>hc := snd (the (response_round ''HTTP/1.0 200 OK'' (hc after_enter))), call := Some []\<rparr>"

definition after_first :: handover where
  "after_first = fill_call (after_put\<lparr>call := None, locked := False\<rparr>)"

lemma example_run: "hand_step\<^sup>*\<^sup>* url_start after_first"
proof -
  have "hand_step url_start after_enter"
    using select_step.enter [of url_start "''HTTP/1.0 200 OK''" "[''hello'']"]
    by (simp add: hand_step_def after_enter_def hand_start_def example_answer_def)
  moreover have "hand_step after_enter after_put"
    using select_step.put [of after_enter "''HTTP/1.0 200 OK''" "[]" "hc after_put"]
    by (simp add: hand_step_def after_put_def after_enter_def response_round_def response_begin_def URLCGI_HTTPC_Init_def
        URL_BODY_SIZE_def Let_def)
  moreover have "hand_step after_put (after_put\<lparr>call := None, locked := False\<rparr>)"
    using select_step.leave [of after_put] by (simp add: hand_step_def after_put_def after_enter_def)
  moreover have "hand_step (after_put\<lparr>call := None, locked := False\<rparr>) after_first"
    using server_step.fill [of "after_put\<lparr>call := None, locked := False\<rparr>"]
    by (simp add: hand_step_def after_first_def after_put_def after_enter_def hand_start_def)
  ultimately show ?thesis by (meson converse_rtranclp_into_rtranclp rtranclp.rtrancl_refl)
qed

lemma after_first_simps: "sent after_first = ''HTTP/1.0 200 OK''" "\<not> gone after_first" "\<not> replied after_first"
    "todo after_first = [''hello'']" "call after_first = None"
  by (simp_all add: after_first_def after_put_def after_enter_def fill_call_def FillURLCGIData_def cyg_cond_signal_def hand_start_def
      response_round_def response_begin_def URLCGI_HTTPC_Init_def URL_BODY_SIZE_def Let_def)

theorem answer_reaches_browser_witness:
  "sent after_first = ''HTTP/1.0 200 OK'' \<and> (\<exists>rest. answered example_answer = sent after_first @ rest)"
  using answer_reaches_browser [OF example_run] after_first_simps(1) by blast

theorem reply_is_completed_witness:
  "(\<exists>h. busy_step after_first h) \<and> work_left after_first = 24"
proof -
  have "work_left after_first = 24"
    by (simp add: work_left_def after_first_def after_put_def after_enter_def fill_call_def FillURLCGIData_def cyg_cond_signal_def
        hand_start_def response_round_def response_begin_def URLCGI_HTTPC_Init_def URL_BODY_SIZE_def Let_def)
  moreover have "(busy_step ^^ 0) after_first after_first" by simp
  ultimately show ?thesis using reply_is_completed [OF example_run after_first_simps(2)] after_first_simps(3) by blast
qed

theorem leaving_browser_blocks_thread_witness:
  "\<exists>h. hand_step\<^sup>*\<^sup>* (hand_start (URLCGI_HTTPC_Init True) [replicate 100 (CHR ''x'')]) h
     \<and> (\<forall>h'. \<not> select_step h h')"
proof -
  have "URL_BODY_SIZE < length (replicate 100 (CHR ''x''))" by (simp add: URL_BODY_SIZE_def)
  from leaving_browser_blocks_thread [OF this, of True "[]"] show ?thesis by blast
qed

end
