(* ===== verification/SendHttp.thy ===== *)
theory SendHttp
  imports DdnsCommands UrlClient
begin

section \<open>/SendHttp.cgi\<close>

text \<open>
  \<open>Http_SendHttpRequest\<close>: the camera fetches a page for the browser. The request may change the proxy, which it shares with dynamic
  DNS and which is saved; at most ten such clients run at once. What the code reads of the request's parameters after it has deleted
  their list is \<open>freed\<close> of what they were. Whether memory is left for the client is an input.
\<close>

definition MAX_URLCGI :: nat where
  "MAX_URLCGI = 10"

datatype send_reply =
    NoRequest
  | MaxLimit
  | NoMemory
  | BadRequest
  | Started string string u32 "string option" "string option" ddns_cfg bool

definition freed_param :: "(string \<Rightarrow> string) \<Rightarrow> params \<Rightarrow> string \<Rightarrow> string" where
  "freed_param freed ps n = (if httpIsExistParam ps n then freed (httpGetString ps n) else [])"

definition send_port :: "text_lib \<Rightarrow> params \<Rightarrow> u32" where
  "send_port T ps = (let n = (if httpIsExistParam ps ''Port'' then httpGetLong T ps ''Port'' else 0) in if n = 0 then 80 else n)"

text \<open>A path that is empty when it is read is replaced by a constant; any other is read again after it was freed.\<close>

definition send_path :: "(string \<Rightarrow> string) \<Rightarrow> params \<Rightarrow> string" where
  "send_path freed ps = (if httpGetString ps ''Path'' = [] then ''/'' else freed (httpGetString ps ''Path''))"

definition opt_freed :: "(string \<Rightarrow> string) \<Rightarrow> params \<Rightarrow> string \<Rightarrow> string option" where
  "opt_freed freed ps n = (if httpIsExistParam ps n then Some (freed (httpGetString ps n)) else None)"

text \<open>The proxy parameters of the request, each compared with what is configured.\<close>

definition send_proxy :: "(string \<Rightarrow> nat \<Rightarrow> string) \<Rightarrow> text_lib \<Rightarrow> params \<Rightarrow> ddns_cfg \<Rightarrow> ddns_cfg \<times> bool" where
  "send_proxy cpy T ps g =
     (let given = (\<lambda>n old. httpIsExistParam ps n \<and> httpGetString ps n \<noteq> old);
          c1 = given ''Proxy'' (acProxy g);
          c2 = (httpIsExistParam ps ''ProxyPort'' \<and> httpGetLong T ps ''ProxyPort'' \<noteq> iProxyPort g);
          c3 = given ''ProxyUser'' (acProxyUser g);
          c4 = given ''ProxyPass'' (acProxyPass g)
      in (g\<lparr>acProxy := (if c1 then cpy (httpGetString ps ''Proxy'') 32 else acProxy g),
            iProxyPort := (if c2 then httpGetLong T ps ''ProxyPort'' else iProxyPort g),
            acProxyUser := (if c3 then cpy (httpGetString ps ''ProxyUser'') 24 else acProxyUser g),
            acProxyPass := (if c4 then cpy (httpGetString ps ''ProxyPass'') 24 else acProxyPass g)\<rparr>,
          c1 \<or> c2 \<or> c3 \<or> c4))"

text \<open>The query is None if it cannot be read; the state has the number of clients, \<open>g_WebCamState.nHTTPClientNum\<close>.\<close>

definition Http_SendHttpRequest ::
  "('h, 'r) ictl_env \<Rightarrow> text_lib \<Rightarrow> (string \<Rightarrow> string) \<Rightarrow> bool \<Rightarrow> bool \<Rightarrow> params option \<Rightarrow> ('h, 'r) ictl_state \<times> nat
     \<Rightarrow> (int \<times> send_reply \<times> ('h, 'r) ictl_state \<times> nat) checked" where
  "Http_SendHttpRequest E T freed memory is_get query x =
     (case x of (s, n) \<Rightarrow> case query of
        None \<Rightarrow> Inr (- 1, NoRequest, s, n)
      | Some ps \<Rightarrow>
          if \<not> is_get then Inr (- 1, NoRequest, s, n)
          else case send_proxy (httpMyStrncpy (lib E)) T ps (ddns_of s) of (g, bIsChange) \<Rightarrow>
            let s1 = s\<lparr>ic_cfg := (ic_cfg s)\<lparr>cfg_ddns := g\<rparr>\<rparr>
            in bnd (if bIsChange then save_config E s1 else Inr s1) (\<lambda>s2.
                 if n \<ge> MAX_URLCGI then Inr (0, MaxLimit, s2, n)
                 else if \<not> memory then Inr (0, NoMemory, s2, n)
                 else if freed_param freed ps ''Server'' = [] then Inr (0, BadRequest, s2, n)
                 else Inr (0, Started (freed_param freed ps ''Server'') (send_path freed ps) (send_port T ps)
                        (opt_freed freed ps ''User'') (opt_freed freed ps ''Pass'') (ddns_of s2) (httpGetBool T ps ''Transparent''), s2, n + 1)))"

text \<open>\<open>URLCGI_RequestOver\<close>: the connection of the browser is over.\<close>

definition URLCGI_RequestOver :: "nat \<Rightarrow> nat" where
  "URLCGI_RequestOver n = n - 1"

subsection \<open>The limit\<close>

text \<open>Requests and ends of connections in any order; each connection that got a client ends once. \<open>live\<close> counts them.\<close>

inductive send_run for E T where
  start: "send_run E T (s, 0) (s, 0) (0 :: nat)"
| request: "send_run E T x (s, n) live \<Longrightarrow> Http_SendHttpRequest E T freed memory is_get query (s, n) = Inr (r, reply, s', n') \<Longrightarrow>
     send_run E T x (s', n') (case reply of Started _ _ _ _ _ _ _ \<Rightarrow> live + 1 | _ \<Rightarrow> live)"
| finish: "send_run E T x (s, n) live \<Longrightarrow> 0 < live \<Longrightarrow> send_run E T x (s, URLCGI_RequestOver n) (live - 1)"

lemma send_proxy_fits:
  assumes "\<forall>t n. 0 < n \<longrightarrow> length (httpMyStrncpy (lib E) t n) < n" and "ddns_fits g" and "send_proxy (httpMyStrncpy (lib E)) T ps g = (g', c)"
  shows "ddns_fits g'"
proof -
  have "ddns_fits (fst (send_proxy (httpMyStrncpy (lib E)) T ps g))" using assms(1,2) by (simp add: send_proxy_def ddns_fits_def Let_def)
  then show ?thesis using assms(3) by simp
qed

lemma send_request_step:
  assumes "Http_SendHttpRequest E T freed memory is_get query (s, n) = Inr (r, reply, s', n')"
    and "\<forall>t n. 0 < n \<longrightarrow> length (httpMyStrncpy (lib E) t n) < n" and "ddns_fits (ddns_of s)" and "n \<le> MAX_URLCGI"
  shows "ddns_fits (ddns_of s') \<and> n' \<le> MAX_URLCGI \<and> n' = (case reply of Started _ _ _ _ _ _ _ \<Rightarrow> n + 1 | _ \<Rightarrow> n)"
proof (cases "query = None \<or> \<not> is_get")
  case True
  then show ?thesis using assms by (auto simp: Http_SendHttpRequest_def split: option.splits)
next
  case False
  then obtain ps where q: "query = Some ps" "is_get" by auto
  obtain g c where g: "send_proxy (httpMyStrncpy (lib E)) T ps (ddns_of s) = (g, c)" by fastforce
  let ?s1 = "s\<lparr>ic_cfg := (ic_cfg s)\<lparr>cfg_ddns := g\<rparr>\<rparr>"
  have "ic_cfg s2 = ic_cfg ?s1" if "(if c then save_config E ?s1 else Inr ?s1) = Inr s2" for s2
    using that by (auto simp: save_config_def split: if_splits option.splits)
  then have d: "ddns_of s2 = g" if "(if c then save_config E ?s1 else Inr ?s1) = Inr s2" for s2 using that by fastforce
  have "ddns_fits g" by (rule send_proxy_fits [OF assms(2,3) g])
  moreover obtain s2 where s2: "(if c then save_config E ?s1 else Inr ?s1) = Inr s2"
    using assms(1) q by (auto simp: Http_SendHttpRequest_def g Let_def bnd_Inr simp del: if_split)
  ultimately have f: "ddns_fits (ddns_of s2)" using d by simp
  have "(if n \<ge> MAX_URLCGI then Inr (0, MaxLimit, s2, n) else if \<not> memory then Inr (0, NoMemory, s2, n)
      else if freed_param freed ps ''Server'' = [] then Inr (0, BadRequest, s2, n)
      else Inr (0, Started (freed_param freed ps ''Server'') (send_path freed ps) (send_port T ps)
        (opt_freed freed ps ''User'') (opt_freed freed ps ''Pass'') (ddns_of s2) (httpGetBool T ps ''Transparent''), s2, n + 1)) = (Inr (r, reply, s', n') :: fault + _)"
    using assms(1) s2 q by (simp add: Http_SendHttpRequest_def g Let_def split del: if_split)
  then show ?thesis using f assms(4) by (auto split: if_splits)
qed

lemma send_run_ok:
  assumes "\<forall>t n. 0 < n \<longrightarrow> length (httpMyStrncpy (lib E) t n) < n"
  shows "send_run E T x y live \<Longrightarrow> snd x = 0 \<Longrightarrow> ddns_fits (ddns_of (fst x)) \<Longrightarrow>
    snd y = live \<and> live \<le> MAX_URLCGI \<and> ddns_fits (ddns_of (fst y))"
proof (induction rule: send_run.induct)
  case (request x s n live freed memory is_get query r reply s' n')
  then have i: "n = live" "n \<le> MAX_URLCGI" "ddns_fits (ddns_of s)" by simp_all
  show ?case using send_request_step [OF request.hyps(2) assms i(3,2)] i(1) by (cases reply) simp_all
qed (auto simp: URLCGI_RequestOver_def)

text \<open>
  At most ten pages are fetched at once: after any requests and ends of connections, the counter is the number of clients that run,
  which is at most ten, and whatever proxies the requests gave, the configuration's strings fit their arrays.
\<close>

theorem url_clients_limited:
  assumes "send_run E T (s, 0) (s', n) live" and "\<forall>t n. 0 < n \<longrightarrow> length (httpMyStrncpy (lib E) t n) < n" and "ddns_fits (ddns_of s)"
  shows "n = live \<and> live \<le> MAX_URLCGI \<and> ddns_fits (ddns_of s')"
  using send_run_ok [OF assms(2,1)] assms(3) by simp

theorem url_clients_limited_witness:
  "\<exists>s' live. send_run example_env example_text (example_camera, 0) (s', live) live \<and> 0 < live \<and> live \<le> MAX_URLCGI"
proof -
  let ?ps = "[(''Server'', ''wowwee.com'')]"
  have "Http_SendHttpRequest example_env example_text (\<lambda>t. t) True True (Some ?ps) (example_camera, 0) =
      Inr (0, Started ''wowwee.com'' ''/'' 80 None None (ddns_of example_camera) False, example_camera, 1)"
    by (simp add: Http_SendHttpRequest_def send_proxy_def httpIsExistParam_def MAX_URLCGI_def freed_param_def send_path_def send_port_def
        opt_freed_def httpGetString_def httpGetBool_def)
  from send_run.request [OF send_run.start this]
  have r: "send_run example_env example_text (example_camera, 0) (example_camera, 1) 1" by simp
  have cpy: "\<forall>t n. 0 < n \<longrightarrow> length (httpMyStrncpy (lib example_env) t n) < n"
    by (simp add: example_env_sel example_lib_sel min_less_iff_disj)
  have "ddns_fits (ddns_of example_camera)" by (simp add: ddns_fits_def example_camera_def example_ddns_def)
  from url_clients_limited [OF r cpy this] r show ?thesis by (metis zero_less_one)
qed

end
