(* ===== verification/StatusLine.thy ===== *)
theory StatusLine
  imports CameraThread McuLink
begin

section \<open>The status line (LibCamera/Src/Status.c)\<close>

text \<open>
  The browser reads the state of the camera from one line of text in which every field has its place. The signal strength of the
  wireless interface (\<open>rssi\<close>, nothing if the driver does not answer) and \<open>sizeof(WEBCAMSTATE_P)\<close>, which limits the text, are inputs.
\<close>

subsection \<open>Numbers in fields of fixed width\<close>

definition hex_digit :: "nat \<Rightarrow> char" where
  "hex_digit n = char_of (if n < 10 then 48 + n else 87 + n)"

fun hexa :: "nat \<Rightarrow> string" where
  "hexa n = (if n < 16 then [hex_digit n] else hexa (n div 16) @ [hex_digit (n mod 16)])"

declare hexa.simps [simp del]

text \<open>A conversion: hexadecimal or decimal, the width, the value.\<close>

type_synonym field = "bool \<times> nat \<times> nat"

definition print_field :: "field \<Rightarrow> string" where
  "print_field = (\<lambda>(hex, w, n). pad w (CHR ''0'') (if hex then hexa n else dec n))"

definition status_fields :: "webcam \<Rightarrow> field list" where
  "status_fields s =
     [(False, 2, unat (ucCamera s)), (False, 2, unat (ucModem s)), (False, 2, unat (ucPPPoE s)), (False, 3, unat (ucX_Direction s)),
      (False, 3, unat (ucY_Direction s)), (False, 3, unat (usFocus s)), (False, 3, unat (ucBright s)), (False, 3, unat (ucContrast s)),
      (False, 1, unat (ucResolution s)), (False, 1, unat (ucCompressionRatio s)), (False, 1, unat (ucPrivilege s)),
      (False, 6, unat (uiPicIndex s)), (False, 1, unat (ucEmail s)), (False, 1, unat (st_ucUserCheck s)), (False, 8, unat (uiPicSize s)),
      (False, 4, unat (iLeft (st_rMoniteRect s))), (False, 4, unat (iTop (st_rMoniteRect s))),
      (False, 4, unat (iRight (st_rMoniteRect s))), (False, 4, unat (iBottom (st_rMoniteRect s))), (False, 1, unat (ucFtp s)),
      (False, 3, unat (ucSaturation s)), (False, 6, unat (uiPicMotionDetectedIndex s)), (False, 3, unat (ucHue s)),
      (False, 3, unat (ucSharpness s)), (False, 1, unat (st_ucMotionDetectWay s)), (False, 1, 0), (False, 1, 0), (False, 2, 0),
      (False, 3, 0), (False, 1, unat (iDDNSState s)), (False, 1, 0), (False, 3, unat (ucFramerate s)),
      (False, 3, unat (ucSpeakerVolume s)), (False, 3, unat (ucMicVolume s)), (False, 1, if bShowTime s then 1 else 0),
      (True, 2, unat (WiFiStrength s)), (True, 2, unat (BatteryLevel s))]"

definition status_text :: "webcam \<Rightarrow> string" where
  "status_text s = concat (map print_field (status_fields s))"

subsection \<open>The line and its command\<close>

definition GetWiFiStrength :: "u32 option \<Rightarrow> webcam \<Rightarrow> webcam" where
  "GetWiFiStrength rssi s = (case rssi of None \<Rightarrow> s | Some v \<Rightarrow> s\<lparr>WiFiStrength := ucast v\<rparr>)"

text \<open>Both callers have a buffer of 128 characters; \<open>snprintf\<close> is told the size of the state instead.\<close>

definition GetWebCamStateString ::
  "(u8 list \<Rightarrow> uart_line) \<Rightarrow> u8 list \<Rightarrow> nat \<Rightarrow> u32 option \<Rightarrow> webcam \<times> mcu_link \<Rightarrow> (string \<times> webcam \<times> mcu_link) checked" where
  "GetWebCamStateString M stack state_size rssi = (\<lambda>(s, m).
     bnd (mcuGetBattery M stack True False m) (\<lambda>(ucBattery, _, m').
       let s' = GetWiFiStrength rssi (s\<lparr>BatteryLevel := ucBattery\<rparr>);
           txt = take (state_size - 1) (status_text s')
       in if length txt \<ge> 128 then Inl OutOfBounds else Inr (txt, s', m')))"

definition SetRunTimeState :: "config \<Rightarrow> http_connection \<Rightarrow> webcam \<Rightarrow> webcam" where
  "SetRunTimeState c h s = s\<lparr>st_ucUserCheck := (if bUserCheck (cfg_user c) then 1 else 0),
     ucPrivilege := (if bUserCheck (cfg_user c) then word_of_int (GetPrivilege h) else 0),
     st_ucMotionDetectWay := cam_cfg.ucMotionDetectWay (cfg_cam c)\<rparr>"

definition Config_GetStatus ::
  "(u8 list \<Rightarrow> uart_line) \<Rightarrow> u8 list \<Rightarrow> nat \<Rightarrow> u32 option \<Rightarrow> config \<Rightarrow> http_connection \<Rightarrow> (webcam \<times> mcu_link) handler" where
  "Config_GetStatus M stack state_size rssi c h ps a sm =
     (case a of
        CA_AUTH \<Rightarrow> Inr (AUTH_USER, [], sm)
      | CA_CONFIG \<Rightarrow>
          bnd (GetWebCamStateString M stack state_size rssi (SetRunTimeState c h (fst sm), snd sm)) (\<lambda>(txt, sm').
            Inr (0, [(''Status'', txt)], sm'))
      | _ \<Rightarrow> Inr (- 1, [], sm))"

subsection \<open>Reading it back\<close>

definition digit_value :: "char \<Rightarrow> nat" where
  "digit_value c = (let n = of_char c in if n < 58 then n - 48 else n - 87)"

definition read_number :: "nat \<Rightarrow> string \<Rightarrow> nat" where
  "read_number base = foldl (\<lambda>n c. base * n + digit_value c) 0"

definition start_of :: "nat \<Rightarrow> field list \<Rightarrow> nat" where
  "start_of i fs = sum_list (map (\<lambda>(_, w, _). w) (take i fs))"

definition read_field :: "field list \<Rightarrow> string \<Rightarrow> nat \<Rightarrow> nat" where
  "read_field fs t i = (case fs ! i of (hex, w, _) \<Rightarrow> read_number (if hex then 16 else 10) (take w (drop (start_of i fs) t)))"

definition field_ok :: "field \<Rightarrow> bool" where
  "field_ok = (\<lambda>(hex, w, n). 0 < w \<and> n < (if hex then 16 else 10) ^ w)"

lemma digit_value_digit: "n < 10 \<Longrightarrow> digit_value (digit n) = n"
  by (simp add: digit_value_def digit_def)

lemma digit_value_hex: "n < 16 \<Longrightarrow> digit_value (hex_digit n) = n"
  by (auto simp: digit_value_def hex_digit_def)

lemma read_number_snoc: "read_number b (t @ [c]) = b * read_number b t + digit_value c"
  by (simp add: read_number_def)

lemma read_number_dec: "read_number 10 (dec n) = n"
proof (induction n rule: dec.induct)
  case (1 n)
  then show ?case
    by (subst dec.simps) (auto simp: read_number_snoc digit_value_digit, simp add: read_number_def digit_value_digit)
qed

lemma read_number_hexa: "read_number 16 (hexa n) = n"
proof (induction n rule: hexa.induct)
  case (1 n)
  then show ?case
    by (subst hexa.simps) (auto simp: read_number_snoc digit_value_hex, simp add: read_number_def digit_value_hex)
qed

lemma read_number_pad: "read_number b (pad w (CHR ''0'') t) = read_number b t"
proof -
  have z: "foldl (\<lambda>n c. b * n + digit_value c) 0 (replicate k (CHR ''0'')) = 0" for k
    by (induction k) (simp_all add: digit_value_def)
  show ?thesis by (simp add: read_number_def pad_def z)
qed

lemma length_hexa_le: "n < 16 ^ k \<Longrightarrow> 0 < k \<Longrightarrow> length (hexa n) \<le> k"
proof (induction n arbitrary: k rule: hexa.induct)
  case (1 n)
  show ?case
  proof (cases "n < 16")
    case True
    then show ?thesis using 1(3) by (subst hexa.simps) simp
  next
    case False
    then obtain j where k: "k = Suc j" using 1(3) by (cases k) auto
    with False 1(2) have "0 < j" by (cases j) auto
    moreover have "n div 16 < 16 ^ j" using 1(2) by (simp add: k less_mult_imp_div_less mult.commute)
    ultimately have "length (hexa (n div 16)) \<le> j" using 1(1) [OF False] by simp
    then show ?thesis using False by (subst hexa.simps) (simp add: k)
  qed
qed

lemma printed_field:
  assumes "field_ok (hex, w, n)"
  shows "length (print_field (hex, w, n)) = w" and "read_number (if hex then 16 else 10) (print_field (hex, w, n)) = n"
  using assms length_dec_le [of n w] length_hexa_le [of n w]
  by (auto simp: print_field_def field_ok_def read_number_pad read_number_dec read_number_hexa)

lemma printed_fields:
  assumes "\<forall>f \<in> set fs. field_ok f"
  shows "length (concat (map print_field fs)) = start_of (length fs) fs"
    and "i < length fs \<Longrightarrow> read_field fs (concat (map print_field fs)) i = snd (snd (fs ! i))"
proof -
  have len: "length (concat (map print_field xs)) = sum_list (map (\<lambda>(_, w, _). w) xs)" if "set xs \<subseteq> set fs" for xs
    using that assms printed_field(1) by (induction xs) auto
  from len [of fs] show "length (concat (map print_field fs)) = start_of (length fs) fs" by (simp add: start_of_def)
  assume i: "i < length fs"
  obtain hex w n where f: "fs ! i = (hex, w, n)" by (cases "fs ! i")
  have "field_ok (hex, w, n)" using assms i f by (metis nth_mem)
  note p = printed_field [OF this]
  have "concat (map print_field fs) = concat (map print_field (take i fs)) @ print_field (fs ! i) @ concat (map print_field (drop (Suc i) fs))"
    by (subst id_take_nth_drop [OF i]) simp
  moreover have "length (concat (map print_field (take i fs))) = start_of i fs"
    using len [OF set_take_subset, of i] by (simp add: start_of_def)
  ultimately have "take w (drop (start_of i fs) (concat (map print_field fs))) = print_field (hex, w, n)"
    using p(1) by (simp add: f)
  then show "read_field fs (concat (map print_field fs)) i = snd (snd (fs ! i))" using p(2) by (simp add: read_field_def f)
qed

subsection \<open>Every field keeps its place\<close>

definition small_rect :: "rect \<Rightarrow> bool" where
  "small_rect r = (unat (iLeft r) < 10000 \<and> unat (iTop r) < 10000 \<and> unat (iRight r) < 10000 \<and> unat (iBottom r) < 10000)"

definition webcam_ok :: "webcam \<Rightarrow> bool" where
  "webcam_ok w = (unat (ucCamera w) < 100 \<and> unat (ucModem w) < 100 \<and> unat (ucPPPoE w) < 100 \<and> unat (usFocus w) < 1000
     \<and> unat (ucResolution w) < 4 \<and> unat (ucCompressionRatio w) < 3 \<and> unat (ucPrivilege w) < 10
     \<and> unat (uiPicIndex w) < 1000000 \<and> unat (uiPicMotionDetectedIndex w) < 1000000 \<and> unat (uiPicSize w) < 100000000
     \<and> unat (ucEmail w) < 10 \<and> unat (st_ucUserCheck w) < 10 \<and> unat (ucFtp w) < 10 \<and> unat (st_ucMotionDetectWay w) < 10
     \<and> unat (iDDNSState w) < 10 \<and> small_rect (st_rMoniteRect w))"

lemma webcam_fields_ok: "webcam_ok w \<Longrightarrow> \<forall>f \<in> set (status_fields w). field_ok f"
proof -
  have "unat b < 1000" for b :: u8 using unat_byte [of b] by simp
  moreover have "unat b < 256" for b :: u8 by (rule unat_byte)
  ultimately show "webcam_ok w \<Longrightarrow> \<forall>f \<in> set (status_fields w). field_ok f"
    by (simp add: status_fields_def webcam_ok_def small_rect_def field_ok_def)
qed

lemma status_positions:
  "length (status_fields w) = 37"
  "map (\<lambda>i. start_of i (status_fields w)) [0 ..< 38] =
     [0, 2, 4, 6, 9, 12, 15, 18, 21, 22, 23, 24, 30, 31, 32, 40, 44, 48, 52, 56, 57, 60, 66, 69, 72, 73, 74, 75, 77, 80, 81, 82, 85, 88,
      91, 92, 94, 96]"
  by (simp_all add: status_fields_def start_of_def upt_rec)

lemma reset_webcam_ok: "webcam_ok (reset_webcam c check)"
  by (simp add: webcam_ok_def reset_webcam_def zero_webcam_def small_rect_def INVALID_PICTURE_def CAMERA_OFF_def)

lemma open_webcam_ok: "webcam_ok w \<Longrightarrow> W99702_OpenCamera c (w, e) = (w', e') \<Longrightarrow> webcam_ok w'"
  by (auto simp: W99702_OpenCamera_def webcam_ok_def)

lemma SetRunTimeState_ok:
  "webcam_ok w \<Longrightarrow> unat (cam_cfg.ucMotionDetectWay (cfg_cam c)) < 10 \<Longrightarrow> webcam_ok (SetRunTimeState c h w)"
  by (auto simp: SetRunTimeState_def webcam_ok_def GetPrivilege_def)

lemma battery_defined: "\<exists>b c m'. mcuGetBattery M stack True False m = Inr (b, c, m')"
proof -
  have "15 < length report_cmd" by (simp add: report_cmd_def)
  from mcuSendCommand_defined [OF this, of "length report_cmd"] obtain rt buf s where
    "mcuSendCommand M report_cmd (length report_cmd) stack m = Inr (rt, buf, s)" by blast
  then show ?thesis by (auto simp: mcuGetBattery_def mcuGetReport_def Let_def split: option.splits)
qed

lemma webcam_ok_upd:
  "webcam_ok (w\<lparr>ucFramerate := x\<rparr>) = webcam_ok w" "webcam_ok (w\<lparr>ucBright := x\<rparr>) = webcam_ok w"
  "webcam_ok (w\<lparr>ucSpeakerVolume := x\<rparr>) = webcam_ok w" "webcam_ok (w\<lparr>ucMicVolume := x\<rparr>) = webcam_ok w"
  "webcam_ok (w\<lparr>eRotate := y, ucX_Direction := x, ucY_Direction := z\<rparr>) = webcam_ok w"
  "webcam_ok (w\<lparr>BatteryLevel := x\<rparr>) = webcam_ok w" "webcam_ok (w\<lparr>WiFiStrength := x\<rparr>) = webcam_ok w"
  "webcam_ok w \<Longrightarrow> unat r < 4 \<Longrightarrow> webcam_ok (w\<lparr>ucResolution := r\<rparr>)"
  "webcam_ok w \<Longrightarrow> unat q < 3 \<Longrightarrow> webcam_ok (w\<lparr>ucCompressionRatio := q\<rparr>)"
  by (simp_all add: webcam_ok_def)

text \<open>The value a quality message leaves is one of the table, whatever was asked for.\<close>

lemma message_keeps_webcam_ok:
  assumes "on_message A d m (w, e) = Inr (w', e')" and "webcam_ok w"
  shows "webcam_ok w'"
proof -
  obtain k v where m: "m = (k, v)" by (cases m)
  have small: "unat (ucast v :: u8) < 3" if "sint v < 3" "0 \<le> sint v"
  proof -
    have "sint v = 0 \<or> sint v = 1 \<or> sint v = 2" using that by linarith
    moreover have "v = word_of_int (sint v)" by simp
    ultimately have "v = 0 \<or> v = 1 \<or> v = 2" by (elim disjE) (simp_all only: word_of_int_0 word_of_int_1 word_of_int_numeral simp_thms)
    then show ?thesis by auto
  qed
  have q: "unat (ucast v :: u8) < 3" if "W99702_SetImageQuality (sint v) w x = Inr (True, y)" for x y
  proof (cases "sint v = uint (ucCompressionRatio w)")
    case True
    have "ucCompressionRatio w < 3" using assms(2) by (simp add: webcam_ok_def word_less_nat_alt)
    then have "sint v < 3" "0 \<le> sint v" unfolding True by (simp_all add: word_less_def)
    then show ?thesis by (rule small)
  next
    case False
    then show ?thesis using that small
      by (simp add: W99702_SetImageQuality_def set_image_quality_def case_prod_unfold Let_def split: option.splits if_splits)
  qed
  have r: "webcam_ok w'" if "on_resolution x v w e = Inr (w', e')" for x
    using that assms(2) by (auto simp: on_resolution_def bnd_Inr Let_def webcam_ok_upd split: if_splits)
  have d: "webcam_ok w'" if "on_direction v w e = Inr (w', e')"
    using that assms(2) by (auto simp: on_direction_def Let_def webcam_ok_upd split: if_splits option.splits)
  show ?thesis using assms unfolding m on_message_def
    by (auto simp: bnd_Inr webcam_ok_upd split: if_splits prod.splits dest: q r d)
qed


lemma status_line_printed:
  assumes "webcam_ok w" and "96 < state_size"
  shows "\<exists>b w' m'. GetWebCamStateString M stack state_size rssi (w, m) = Inr (status_text w', w', m') \<and> webcam_ok w'
     \<and> w' = GetWiFiStrength rssi (w\<lparr>BatteryLevel := b\<rparr>) \<and> length (status_text w') = 96
     \<and> (\<forall>i < 37. read_field (status_fields w') (status_text w') i = snd (snd (status_fields w' ! i)))"
proof -
  obtain b c m' where b: "mcuGetBattery M stack True False m = Inr (b, c, m')" using battery_defined by blast
  let ?w = "GetWiFiStrength rssi (w\<lparr>BatteryLevel := b\<rparr>)"
  have ok: "webcam_ok ?w" using assms(1) by (simp add: GetWiFiStrength_def webcam_ok_upd split: option.split)
  note p = printed_fields [OF webcam_fields_ok [OF ok], folded status_text_def]
  have "map (\<lambda>i. start_of i (status_fields ?w)) [0 ..< 38] ! 37 = 96" unfolding status_positions by simp
  then have "start_of 37 (status_fields ?w) = 96" by simp
  then have len: "length (status_text ?w) = 96" using p(1) by (simp add: status_positions)
  have "read_field (status_fields ?w) (status_text ?w) i = snd (snd (status_fields ?w ! i))" if "i < 37" for i
    using p(2) [of i] that by (simp add: status_positions)
  moreover have "GetWebCamStateString M stack state_size rssi (w, m) = Inr (status_text ?w, ?w, m')"
    using assms(2) by (simp add: GetWebCamStateString_def b len Let_def)
  ultimately show ?thesis using ok len by blast
qed


text \<open>
  C36. The status command always answers with a line of 96 characters that fits its buffer, in which every one of the 37 fields is found
  at the place the comments of Status.c give it and reads as the value of the state, whatever the motor controller and the wireless
  driver answer; the state keeps the ranges this rests on.
\<close>

theorem status_line_readable:
  assumes "webcam_ok w" and "unat (cam_cfg.ucMotionDetectWay (cfg_cam c)) < 10" and "96 < state_size"
  shows "\<exists>txt w' m'. Config_GetStatus M stack state_size rssi c h ps CA_CONFIG (w, m) = Inr (0, [(''Status'', txt)], (w', m'))
     \<and> webcam_ok w' \<and> length txt = 96
     \<and> map (\<lambda>i. start_of i (status_fields w')) [0 ..< 38] =
         [0, 2, 4, 6, 9, 12, 15, 18, 21, 22, 23, 24, 30, 31, 32, 40, 44, 48, 52, 56, 57, 60, 66, 69, 72, 73, 74, 75, 77, 80, 81, 82, 85,
          88, 91, 92, 94, 96]
     \<and> (\<forall>i < 37. read_field (status_fields w') txt i = snd (snd (status_fields w' ! i)))"
proof -
  have "webcam_ok (SetRunTimeState c h w)" by (rule SetRunTimeState_ok [OF assms(1,2)])
  from status_line_printed [OF this assms(3)] obtain b w' m' where
    "GetWebCamStateString M stack state_size rssi (SetRunTimeState c h w, m) = Inr (status_text w', w', m')" "webcam_ok w'"
    "length (status_text w') = 96" "\<forall>i < 37. read_field (status_fields w') (status_text w') i = snd (snd (status_fields w' ! i))" by blast
  then show ?thesis
    unfolding status_positions
    by (intro exI [of _ "status_text w'"] exI [of _ w'] exI [of _ m']) (simp add: Config_GetStatus_def)
qed

theorem status_line_readable_witness:
  "\<exists>txt w' m'. Config_GetStatus (\<lambda>_. []) [] 160 (Some 40) (InitDefaultParam (\<lambda>_. 0)) example_client [] CA_CONFIG
      (reset_webcam (InitDefaultParam (\<lambda>_. 0)) True, idle_link) = Inr (0, [(''Status'', txt)], (w', m'))
     \<and> webcam_ok w' \<and> length txt = 96"
  using status_line_readable [of "reset_webcam (InitDefaultParam (\<lambda>_. 0)) True" "InitDefaultParam (\<lambda>_. 0)" 160 "\<lambda>_. []" "[]" "Some 40"
      example_client "[]" idle_link] reset_webcam_ok
  by (auto simp: InitDefaultParam_def zero_config_def)

end
