(* ===== verification/Pictures.thy ===== *)
theory Pictures
  imports StatusLine "HOL-Library.Sublist"
begin

section \<open>Pictures: from the camera thread to the browsers (CameraCtl.c, W99702Camera.c)\<close>

text \<open>
  Two buffers hold pictures: the camera thread copies the next one from the encoder into the buffer that is not shown, without a
  lock, and then shows it (\<open>SaveJpeg\<close>) with \<open>g_ptmState\<close> held; the threads of the web server send the shown one, with that lock held.
  So the copy is a step per byte here, and everything under the lock is one step. \<open>taken\<close> is the history of the pictures shown so far,
  which the code does not keep.
\<close>

definition MAX_CAMERA_IMG_LENGTH :: nat where "MAX_CAMERA_IMG_LENGTH = 128 * 1024"
definition MAX_IMG_INDEX :: u32 where "MAX_IMG_INDEX = 800000"

datatype camera_pc = Fetch | Copying "u8 list" nat | Got "u8 list"

record pictures =
  iReadyImg :: int
  iImgBufLen :: "nat list"
  acImgBuf :: "u8 list list"
  pic_state :: webcam
  pic_pc :: camera_pc
  taken :: "u8 list list"

subsection \<open>The camera thread\<close>

definition next_img :: "pictures \<Rightarrow> nat" where
  "next_img P = nat (let n = iReadyImg P + 1 in if n \<ge> 2 then 0 else n)"

definition next_index :: "u32 \<Rightarrow> u32" where
  "next_index i = (let n = (if i = INVALID_PICTURE then 0 else i + 1) in if n \<ge> MAX_IMG_INDEX then 0 else n)"

definition SaveJpeg :: "cam_cfg \<Rightarrow> nat \<Rightarrow> bool \<Rightarrow> pictures \<Rightarrow> pictures" where
  "SaveJpeg c iJpegLen bIsMotionDetected P =
     (let w = pic_state P;
          w1 = w\<lparr>uiPicIndex := next_index (uiPicIndex w), uiPicSize := of_nat iJpegLen, ucContrast := ucast (ulImgContrast c),
                 ucSaturation := ucast (ulImgSaturation c), ucHue := ucast (ulImgHue c), ucSharpness := ucast (ulImgSharpness c)\<rparr>;
          w2 = (if bIsMotionDetected then w1\<lparr>uiPicMotionDetectedIndex := next_index (uiPicMotionDetectedIndex w)\<rparr> else w1)
      in P\<lparr>iReadyImg := int (next_img P), pic_state := w2\<rparr>)"

text \<open>
  One step of the thread's inner loop without a message. \<open>frame\<close> is what \<open>iothread_EventRead\<close> returns, \<open>on_image\<close> what
  \<open>g_pOnGetImage\<close> says of a picture (\<open>\<lambda>_. True\<close> when it is null).
\<close>

definition camera_step :: "cam_cfg \<Rightarrow> (u8 list \<Rightarrow> bool) \<Rightarrow> u8 list option \<Rightarrow> pictures \<Rightarrow> pictures checked" where
  "camera_step c on_image frame P =
     (case pic_pc P of
        Fetch \<Rightarrow>
          (case frame of None \<Rightarrow> Inr P
           | Some j \<Rightarrow> Inr (if length j > MAX_CAMERA_IMG_LENGTH then P else P\<lparr>pic_pc := Copying j 0\<rparr>))
      | Copying j i \<Rightarrow>
          (let n = next_img P
           in if i < length j
              then if n < length (acImgBuf P) \<and> i < length (acImgBuf P ! n)
                   then Inr (P\<lparr>acImgBuf := (acImgBuf P)[n := (acImgBuf P ! n)[i := j ! i]], pic_pc := Copying j (i + 1)\<rparr>)
                   else Inl OutOfBounds
              else if n < length (iImgBufLen P) then Inr (P\<lparr>iImgBufLen := (iImgBufLen P)[n := length j], pic_pc := Got j\<rparr>)
                   else Inl OutOfBounds)
      | Got j \<Rightarrow>
          (let n = next_img P
           in if on_image (take (iImgBufLen P ! n) (acImgBuf P ! n))
              then Inr ((SaveJpeg c (iImgBufLen P ! n) False P)\<lparr>pic_pc := Fetch, taken := taken P @ [take (iImgBufLen P ! n) (acImgBuf P ! n)]\<rparr>)
              else Inr (P\<lparr>pic_pc := Fetch\<rparr>)))"

subsection \<open>The web server\<close>

definition shown_picture :: "pictures \<Rightarrow> u8 list option" where
  "shown_picture P =
     (if 0 \<le> iReadyImg P \<and> iReadyImg P \<le> 1
      then Some (take (iImgBufLen P ! nat (iReadyImg P)) (acImgBuf P ! nat (iReadyImg P))) else None)"

text \<open>What is added to the body of a reply: text, or the bytes of a picture.\<close>

datatype part = Body string | Jpeg "u8 list"

definition Http_SendJpeg :: "bool \<Rightarrow> pictures \<Rightarrow> int \<times> part list" where
  "Http_SendJpeg is_get P =
     (if \<not> is_get then (- 1, []) else case shown_picture P of None \<Rightarrow> (- 1, []) | Some j \<Rightarrow> (0, [Jpeg j]))"

text \<open>Without a picture, or with one that is too big, the caller's buffer and length stay as they were (\<open>None\<close>).\<close>

definition ictlGetCurrentJPEG :: "nat \<Rightarrow> pictures \<Rightarrow> int \<times> u8 list option" where
  "ictlGetCurrentJPEG szMaxBufferLength P =
     (case shown_picture P of
        None \<Rightarrow> (ICTL_OK, None)
      | Some j \<Rightarrow> (ICTL_OK, if iImgBufLen P ! nat (iReadyImg P) < szMaxBufferLength then Some j else None))"

text \<open>A browser that is sent every picture: its part of \<open>FILLDATA_T\<close>, the time of the last part and what was sent.\<close>

record stream =
  uiIndex :: u32
  uiIfSendStatus :: bool
  tLastFill :: int
  st_over :: bool
  st_out :: "part list"

definition Http_GetCameraData :: "bool \<Rightarrow> int \<Rightarrow> stream" where
  "Http_GetCameraData status t = \<lparr>uiIndex = take_bit 20 INVALID_PICTURE, uiIfSendStatus = status, tLastFill = t, st_over = False, st_out = []\<rparr>"

text \<open>
  \<open>rd\<close> holds the inputs of the status line: the link to the motor controller, the signal strength, and the connection's privilege;
  \<open>uiIndex\<close> has 20 bits.
\<close>

record readings =
  rd_mcu :: "u8 list \<Rightarrow> uart_line"
  rd_stack :: "u8 list"
  rd_size :: nat
  rd_rssi :: "u32 option"
  rd_config :: config
  rd_conn :: http_connection

definition CRLF :: string where "CRLF = [char_of (13 :: nat), char_of (10 :: nat)]"

definition boundary :: "string \<Rightarrow> string" where
  "boundary mime = ''--WINBONDBOUDARY'' @ CRLF @ ''Content-Type: '' @ mime @ CRLF @ CRLF"

definition add_status :: "readings \<Rightarrow> webcam \<times> mcu_link \<Rightarrow> (part list \<times> webcam \<times> mcu_link) checked" where
  "add_status rd = (\<lambda>(w, m).
     bnd (GetWebCamStateString (rd_mcu rd) (rd_stack rd) (rd_size rd) (rd_rssi rd) (SetRunTimeState (rd_config rd) (rd_conn rd) w, m))
       (\<lambda>(txt, w', m'). if length txt + 2 \<ge> 128 then Inl OutOfBounds
                        else Inr ([Body (boundary ''text/plain''), Body (txt @ CRLF)], w', m')))"

definition FillCameraData ::
  "readings \<Rightarrow> bool \<Rightarrow> int \<Rightarrow> stream \<Rightarrow> pictures \<times> mcu_link \<Rightarrow> (int \<times> stream \<times> pictures \<times> mcu_link) checked" where
  "FillCameraData rd disconnected tCur b = (\<lambda>(P, m).
     if disconnected then Inr (0, b\<lparr>st_over := True\<rparr>, P, m)
     else
       let fresh = (uiPicIndex (pic_state P) \<noteq> uiIndex b);
           jpeg = (if fresh then shown_picture P else None);
           b1 = (case jpeg of None \<Rightarrow> b
                 | Some j \<Rightarrow> b\<lparr>st_out := st_out b @ [Body (boundary ''image/jpeg''), Jpeg j], tLastFill := tCur\<rparr>);
           b2 = (if fresh then b1\<lparr>uiIndex := take_bit 20 (uiPicIndex (pic_state P))\<rparr> else b1);
           due = (jpeg = None \<and> tCur - tLastFill b2 \<ge> 1);
           b3 = (if due then b2\<lparr>tLastFill := tCur\<rparr> else b2)
       in if uiIfSendStatus b \<and> (jpeg \<noteq> None \<or> due)
          then bnd (add_status rd (pic_state P, m)) (\<lambda>(ps, w', m'). Inr (1, b3\<lparr>st_out := st_out b3 @ ps\<rparr>, P\<lparr>pic_state := w'\<rparr>, m'))
          else Inr (1, if due then b3\<lparr>st_out := st_out b3 @ [Body CRLF]\<rparr> else b3, P, m))"

subsection \<open>Camera, settings and browsers together\<close>

text \<open>
  A run of the threads: a step of the camera thread, a message it reads (it does so between two pictures), a browser that connects, and
  a call of the web server to fill one browser's reply.
\<close>

datatype action = Camera "u8 list option" | Setting "int \<times> u32" | Connect bool int | Fill nat readings bool int

record world =
  w_pics :: pictures
  w_engine :: engine
  w_mcu :: mcu_link
  w_streams :: "stream list"

fun world_step :: "audio_lib \<Rightarrow> config \<Rightarrow> (u8 list \<Rightarrow> bool) \<Rightarrow> action \<Rightarrow> world \<Rightarrow> world checked" where
  "world_step A d on_image (Camera frame) W = bnd (camera_step (cfg_cam d) on_image frame (w_pics W)) (\<lambda>P. Inr (W\<lparr>w_pics := P\<rparr>))"
| "world_step A d on_image (Setting m) W =
     (if pic_pc (w_pics W) = Fetch
      then bnd (on_message A d m (pic_state (w_pics W), w_engine W)) (\<lambda>(w, e). Inr (W\<lparr>w_pics := (w_pics W)\<lparr>pic_state := w\<rparr>, w_engine := e\<rparr>))
      else Inr W)"
| "world_step A d on_image (Connect status t) W = Inr (W\<lparr>w_streams := w_streams W @ [Http_GetCameraData status t]\<rparr>)"
| "world_step A d on_image (Fill i rd gone t) W =
     (if i < length (w_streams W) \<and> \<not> st_over (w_streams W ! i)
      then bnd (FillCameraData rd gone t (w_streams W ! i) (w_pics W, w_mcu W)) (\<lambda>(_, b, P, m).
             Inr (W\<lparr>w_pics := P, w_mcu := m, w_streams := (w_streams W)[i := b]\<rparr>))
      else Inr W)"

fun world_run :: "audio_lib \<Rightarrow> config \<Rightarrow> (u8 list \<Rightarrow> bool) \<Rightarrow> action list \<Rightarrow> world \<Rightarrow> world checked" where
  "world_run A d f [] W = Inr W"
| "world_run A d f (a # as) W = bnd (world_step A d f a W) (world_run A d f as)"

definition start_pictures :: "webcam \<Rightarrow> pictures" where
  "start_pictures w = \<lparr>iReadyImg = - 1, iImgBufLen = [0, 0],
     acImgBuf = [replicate MAX_CAMERA_IMG_LENGTH 0, replicate MAX_CAMERA_IMG_LENGTH 0], pic_state = w, pic_pc = Fetch, taken = []\<rparr>"

definition start_world :: "config \<Rightarrow> bool \<Rightarrow> engine \<Rightarrow> mcu_link \<Rightarrow> world" where
  "start_world c check e m = \<lparr>w_pics = start_pictures (reset_webcam c check), w_engine = e, w_mcu = m, w_streams = []\<rparr>"

definition frames :: "action list \<Rightarrow> u8 list list" where
  "frames as = concat (map (\<lambda>a. case a of Camera (Some j) \<Rightarrow> [j] | _ \<Rightarrow> []) as)"

definition jpegs :: "part list \<Rightarrow> u8 list list" where
  "jpegs ps = concat (map (\<lambda>p. case p of Jpeg j \<Rightarrow> [j] | _ \<Rightarrow> []) ps)"

subsection \<open>Invariants\<close>

definition index_of :: "nat \<Rightarrow> u32" where
  "index_of n = (if n = 0 then INVALID_PICTURE else of_nat ((n - 1) mod 800000))"

lemma index_of_small: "unat (index_of n) < 1000000"
proof -
  have "(n - Suc 0) mod 800000 < 1000000" using mod_less_divisor [of 800000 "n - Suc 0"] by linarith
  then show ?thesis by (simp add: index_of_def INVALID_PICTURE_def unat_of_nat take_bit_nat_eq_self)
qed

lemma index_of_20_bits [simp]: "take_bit 20 (index_of n) = index_of n"
proof -
  have "unat (index_of n) < 2 ^ 20" by (rule order_less_trans [OF index_of_small]) simp
  then show ?thesis by (simp add: word_unat_eq_iff unsigned_take_bit_eq take_bit_nat_eq_self)
qed

lemma next_index_of: "next_index (index_of n) = index_of (Suc n)"
proof (cases "n = 0")
  case False
  let ?r = "(n - 1) mod 800000"
  have r: "?r < 800000" by simp
  then have i: "index_of n = of_nat ?r" "index_of n \<noteq> INVALID_PICTURE"
    using False by (simp_all add: index_of_def INVALID_PICTURE_def word_unat_eq_iff unat_of_nat take_bit_nat_eq_self)
  have u: "unat (index_of n + 1) = Suc ?r" using r i(1) by (simp add: unat_word_ariths unat_of_nat take_bit_nat_eq_self)
  have n: "n mod 800000 = (if Suc ?r = 800000 then 0 else Suc ?r)" using False mod_Suc [of "n - 1" 800000] by simp
  have "MAX_IMG_INDEX \<le> index_of n + 1 \<longleftrightarrow> Suc ?r = 800000" 
    unfolding word_le_nat_alt u MAX_IMG_INDEX_def using r by auto
  moreover have "index_of n + 1 = of_nat (Suc ?r)" using i(1) by simp
  ultimately show ?thesis using i(2) n by (simp add: next_index_def Let_def index_of_def)
qed (simp add: index_of_def next_index_def MAX_IMG_INDEX_def)

text \<open>\<open>fs\<close> are the frames the encoder has given so far.\<close>

definition pic_inv :: "u8 list list \<Rightarrow> pictures \<Rightarrow> bool" where
  "pic_inv fs P = (iReadyImg P \<in> {- 1, 0, 1} \<and> length (iImgBufLen P) = 2 \<and> length (acImgBuf P) = 2
     \<and> (\<forall>b \<in> set (acImgBuf P). length b = MAX_CAMERA_IMG_LENGTH)
     \<and> uiPicIndex (pic_state P) = index_of (length (taken P))
     \<and> shown_picture P = (if taken P = [] then None else Some (last (taken P)))
     \<and> (\<forall>j \<in> set (taken P). length j \<le> MAX_CAMERA_IMG_LENGTH)
     \<and> (case pic_pc P of
          Fetch \<Rightarrow> subseq (taken P) fs
        | Copying j i \<Rightarrow> subseq (taken P @ [j]) fs \<and> i \<le> length j \<and> length j \<le> MAX_CAMERA_IMG_LENGTH
            \<and> take i (acImgBuf P ! next_img P) = take i j
        | Got j \<Rightarrow> subseq (taken P @ [j]) fs \<and> length j \<le> MAX_CAMERA_IMG_LENGTH \<and> iImgBufLen P ! next_img P = length j
            \<and> take (length j) (acImgBuf P ! next_img P) = j))"

definition stream_inv :: "u8 list list \<Rightarrow> stream \<Rightarrow> bool" where
  "stream_inv ts b = (\<exists>n \<le> length ts. uiIndex b = index_of n \<and> subseq (jpegs (st_out b)) (take n ts))"

lemma jpegs_simps [simp]: "jpegs [] = []" "jpegs (xs @ ys) = jpegs xs @ jpegs ys" "jpegs (Jpeg j # ps) = j # jpegs ps"
  "jpegs (Body t # ps) = jpegs ps"
  by (simp_all add: jpegs_def)

lemma frames_simps [simp]: "frames [] = []" "frames (as @ bs) = frames as @ frames bs" "frames (Camera (Some j) # as) = j # frames as"
  "frames (Camera None # as) = frames as" "frames (Setting m # as) = frames as" "frames (Connect s t # as) = frames as"
  "frames (Fill i rd g t # as) = frames as"
  by (simp_all add: frames_def)

lemma next_img_simps:
  "iReadyImg P \<in> {- 1, 0, 1} \<Longrightarrow> next_img P < 2 \<and> int (next_img P) \<noteq> iReadyImg P"
  by (auto simp: next_img_def Let_def)

lemma start_inv: "w = reset_webcam c check \<Longrightarrow> pic_inv [] (start_pictures w)"
  by (simp add: pic_inv_def start_pictures_def shown_picture_def reset_webcam_def index_of_def)


definition given :: "u8 list option \<Rightarrow> u8 list list" where
  "given frame = (case frame of None \<Rightarrow> [] | Some j \<Rightarrow> [j])"

lemma frames_Camera [simp]: "frames (Camera frame # as) = given frame @ frames as"
  by (cases frame) (simp_all add: given_def)

lemma pic_inv_more: "pic_inv fs P \<Longrightarrow> pic_inv (fs @ gs) P"
  by (auto simp: pic_inv_def list_emb_prefix split: camera_pc.splits)

lemma shown_other_buffer:
  assumes "iReadyImg P \<in> {- 1, 0, 1}" and "n = next_img P"
  shows "shown_picture (P\<lparr>acImgBuf := (acImgBuf P)[n := b]\<rparr>) = shown_picture P"
    "shown_picture (P\<lparr>iImgBufLen := (iImgBufLen P)[n := l]\<rparr>) = shown_picture P"
  using assms next_img_simps [OF assms(1)] by (auto simp: shown_picture_def)

lemma next_img_sel [simp]: "next_img (P\<lparr>acImgBuf := x\<rparr>) = next_img P" "next_img (P\<lparr>iImgBufLen := l\<rparr>) = next_img P"
  "next_img (P\<lparr>pic_pc := k\<rparr>) = next_img P" "next_img (P\<lparr>pic_state := w\<rparr>) = next_img P" "next_img (P\<lparr>taken := ts\<rparr>) = next_img P"
  by (simp_all add: next_img_def)

lemma shown_picture_sel [simp]: "shown_picture (P\<lparr>pic_pc := k\<rparr>) = shown_picture P" "shown_picture (P\<lparr>pic_state := w\<rparr>) = shown_picture P"
  "shown_picture (P\<lparr>taken := ts\<rparr>) = shown_picture P"
  by (simp_all add: shown_picture_def)

lemma copy_step_inv:
  assumes "pic_inv fs P" and "pic_pc P = Copying j i"
  shows "\<exists>P'. camera_step c f frame P = Inr P' \<and> pic_inv fs P' \<and> taken P' = taken P"
proof -
  let ?n = "next_img P"
  have P: "iReadyImg P \<in> {- 1, 0, 1}" "length (iImgBufLen P) = 2" "length (acImgBuf P) = 2"
    "subseq (taken P @ [j]) fs" "i \<le> length j" "length j \<le> MAX_CAMERA_IMG_LENGTH" "take i (acImgBuf P ! ?n) = take i j"
    using assms by (simp_all add: pic_inv_def)
  have n: "?n < 2" using next_img_simps [OF P(1)] by simp
  have len: "\<forall>b \<in> set (acImgBuf P). length b = MAX_CAMERA_IMG_LENGTH" using assms(1) by (simp add: pic_inv_def)
  then have b: "length (acImgBuf P ! ?n) = MAX_CAMERA_IMG_LENGTH" using n P(3) by simp
  show ?thesis
  proof (cases "i < length j")
    case True
    let ?P = "P\<lparr>acImgBuf := (acImgBuf P)[?n := (acImgBuf P ! ?n)[i := j ! i]], pic_pc := Copying j (i + 1)\<rparr>"
    have i: "i < length (acImgBuf P ! ?n)" using True P(6) b by simp
    then have "take (i + 1) ((acImgBuf P ! ?n)[i := j ! i]) = take (i + 1) j"
      using True P(7) by (simp add: take_Suc_conv_app_nth)
    moreover have "\<forall>b \<in> set ((acImgBuf P)[?n := (acImgBuf P ! ?n)[i := j ! i]]). length b = MAX_CAMERA_IMG_LENGTH"
      using len b set_update_subset_insert [of "acImgBuf P" ?n "(acImgBuf P ! ?n)[i := j ! i]"] by auto
    ultimately have "pic_inv fs ?P" using assms True n P(3) shown_other_buffer(1) [OF P(1) refl] by (simp add: pic_inv_def)
    then show ?thesis using assms(2) True n P(3) i by (simp add: camera_step_def Let_def)
  next
    case False
    let ?P = "P\<lparr>iImgBufLen := (iImgBufLen P)[?n := length j], pic_pc := Got j\<rparr>"
    have "take (length j) (acImgBuf P ! ?n) = j" using False P(5,7) by simp
    then have "pic_inv fs ?P" using assms n P(2) shown_other_buffer(2) [OF P(1) refl] by (simp add: pic_inv_def)
    then show ?thesis using assms(2) False n P(2) by (simp add: camera_step_def Let_def)
  qed
qed

lemma save_step_inv:
  assumes "pic_inv fs P" and "pic_pc P = Got j"
  shows "\<exists>P'. camera_step c f frame P = Inr P' \<and> pic_inv fs P' \<and> taken P' = taken P @ (if f j then [j] else [])"
proof -
  let ?n = "next_img P"
  have P: "iReadyImg P \<in> {- 1, 0, 1}" "subseq (taken P @ [j]) fs" "length j \<le> MAX_CAMERA_IMG_LENGTH"
    "iImgBufLen P ! ?n = length j" "take (length j) (acImgBuf P ! ?n) = j"
    using assms by (simp_all add: pic_inv_def)
  show ?thesis
  proof (cases "f j")
    case True
    let ?P = "(SaveJpeg c (length j) False P)\<lparr>pic_pc := Fetch, taken := taken P @ [j]\<rparr>"
    have n: "int ?n \<in> {0, 1}" using next_img_simps [OF P(1)] by auto
    then have "shown_picture ?P = Some j" using P(4,5) by (auto simp: shown_picture_def SaveJpeg_def Let_def)
    moreover have "uiPicIndex (pic_state ?P) = index_of (length (taken P @ [j]))"
      using assms(1) by (simp add: SaveJpeg_def Let_def pic_inv_def next_index_of)
    moreover have "iReadyImg ?P \<in> {- 1, 0, 1}" using n by (auto simp: SaveJpeg_def Let_def)
    ultimately have "pic_inv fs ?P" using assms(1) P(2,3) by (auto simp: pic_inv_def SaveJpeg_def Let_def)
    then show ?thesis using assms(2) True P(4,5) by (simp add: camera_step_def Let_def)
  next
    case False
    have "subseq (taken P) (taken P @ [j])" by (rule list_emb_prefix) simp
    then have "subseq (taken P) fs" using P(2) by (rule subseq_order.trans)
    then have "pic_inv fs (P\<lparr>pic_pc := Fetch\<rparr>)" using assms(1) by (simp add: pic_inv_def)
    then show ?thesis using assms(2) False P(4,5) by (simp add: camera_step_def Let_def)
  qed
qed

lemma camera_step_inv:
  assumes "pic_inv fs P"
  shows "\<exists>P' ts. camera_step c f frame P = Inr P' \<and> pic_inv (fs @ given frame) P' \<and> taken P' = taken P @ ts"
proof (cases "pic_pc P")
  case Fetch
  show ?thesis
  proof (cases frame)
    case None
    then show ?thesis using Fetch pic_inv_more [OF assms] by (simp add: camera_step_def)
  next
    case (Some j)
    show ?thesis
    proof (cases "length j > MAX_CAMERA_IMG_LENGTH")
      case True
      then show ?thesis using Some Fetch pic_inv_more [OF assms] by (simp add: camera_step_def)
    next
      case False
      have "subseq (taken P @ [j]) (fs @ [j])" using assms Fetch by (intro list_emb_append_mono) (simp_all add: pic_inv_def)
      then have "pic_inv (fs @ [j]) (P\<lparr>pic_pc := Copying j 0\<rparr>)" using assms False by (simp add: pic_inv_def)
      then show ?thesis using Some Fetch False by (simp add: camera_step_def given_def)
    qed
  qed
next
  case (Copying j i)
  then show ?thesis using copy_step_inv [OF assms, of j i c f frame] pic_inv_more by fastforce
next
  case (Got j)
  then show ?thesis using save_step_inv [OF assms, of j c f frame] pic_inv_more by fastforce
qed


lemma status_line_index:
  "GetWebCamStateString M st n rssi (w, m) = Inr (txt, w', m') \<Longrightarrow> uiPicIndex w' = uiPicIndex w"
  by (auto simp: GetWebCamStateString_def GetWiFiStrength_def bnd_Inr Let_def split: option.splits if_splits)

lemma add_status_index:
  "add_status rd (w, m) = Inr (ps, w', m') \<Longrightarrow> uiPicIndex w' = uiPicIndex w \<and> jpegs ps = []"
  by (auto simp: add_status_def bnd_Inr SetRunTimeState_def dest!: status_line_index split: if_splits)

lemma message_keeps_index:
  "on_message A d m (w, e) = Inr (w', e') \<Longrightarrow> uiPicIndex w' = uiPicIndex w"
proof -
  have r: "uiPicIndex w' = uiPicIndex w" if "on_resolution x v w e = Inr (w', e')" for x v
    using that by (auto simp: on_resolution_def bnd_Inr Let_def split: if_splits)
  have d: "uiPicIndex w' = uiPicIndex w" if "on_direction v w e = Inr (w', e')" for v
    using that by (auto simp: on_direction_def Let_def split: if_splits option.splits)
  show "on_message A d m (w, e) = Inr (w', e') \<Longrightarrow> uiPicIndex w' = uiPicIndex w"
    by (cases m) (auto simp: on_message_def bnd_Inr split: if_splits prod.splits dest: r d)
qed

lemma stream_inv_more: "stream_inv ts b \<Longrightarrow> stream_inv (ts @ us) b"
proof -
  assume "stream_inv ts b"
  then obtain n where "n \<le> length ts" "uiIndex b = index_of n" "subseq (jpegs (st_out b)) (take n ts)" by (auto simp: stream_inv_def)
  then show ?thesis unfolding stream_inv_def by (intro exI [of _ n]) simp
qed

lemma fill_inv:
  assumes "pic_inv fs P" and "stream_inv (taken P) b" and "FillCameraData rd gone t b (P, m) = Inr (r, b', P', m')"
  shows "stream_inv (taken P) b' \<and> pic_inv fs P' \<and> taken P' = taken P"
proof (cases gone)
  case True
  then show ?thesis using assms by (auto simp: FillCameraData_def stream_inv_def)
next
  case False
  let ?i = "uiPicIndex (pic_state P)"
  let ?jpeg = "if ?i \<noteq> uiIndex b then shown_picture P else None"
  have i: "?i = index_of (length (taken P))" using assms(1) by (simp add: pic_inv_def)
  obtain n where n: "n \<le> length (taken P)" "uiIndex b = index_of n" "subseq (jpegs (st_out b)) (take n (taken P))"
    using assms(2) by (auto simp: stream_inv_def)
  have P': "uiPicIndex (pic_state P') = ?i \<and> (\<exists>w. P' = P\<lparr>pic_state := w\<rparr>)"
    using assms(3) False by (auto simp: FillCameraData_def bnd_Inr Let_def dest!: add_status_index split: if_splits
      intro: exI [of _ "pic_state P"])
  then have inv: "pic_inv fs P' \<and> taken P' = taken P" using assms(1) by (auto simp: pic_inv_def split: camera_pc.split)
  have out: "jpegs (st_out b') = jpegs (st_out b) @ (case ?jpeg of None \<Rightarrow> [] | Some j \<Rightarrow> [j])"
    "uiIndex b' = (if ?i \<noteq> uiIndex b then ?i else uiIndex b)"
    using assms(3) False i
    by (auto simp: FillCameraData_def bnd_Inr Let_def dest!: add_status_index split: if_splits option.splits)
  have "stream_inv (taken P) b'"
  proof (cases "?i = uiIndex b")
    case True
    then show ?thesis using n out by (auto simp: stream_inv_def)
  next
    case False
    then have lt: "n < length (taken P)" using n(1,2) i by (cases "n = length (taken P)") auto
    then have shown: "?jpeg = Some (last (taken P))" using False assms(1) by (auto simp: pic_inv_def)
    have "taken P = butlast (taken P) @ [last (taken P)]" using lt by (cases "taken P" rule: rev_cases) auto
    moreover have "subseq (jpegs (st_out b)) (butlast (taken P))"
    proof -
      have "take n (butlast (taken P)) = take n (taken P)" using lt by (simp add: take_butlast)
      then have "subseq (take n (taken P)) (butlast (taken P))" by (metis append_take_drop_id list_emb_prefix subseq_order.refl)
      then show ?thesis using n(3) subseq_order.trans by blast
    qed
    ultimately have "subseq (jpegs (st_out b) @ [last (taken P)]) (taken P)"
      by (metis list_emb_append_mono subseq_order.refl)
    then show ?thesis using out shown i False by (auto simp: stream_inv_def intro!: exI [of _ "length (taken P)"])
  qed
  then show ?thesis using inv by simp
qed

definition world_inv :: "u8 list list \<Rightarrow> world \<Rightarrow> bool" where
  "world_inv fs W = (pic_inv fs (w_pics W) \<and> (\<forall>b \<in> set (w_streams W). stream_inv (taken (w_pics W)) b))"

lemma new_stream_inv: "stream_inv ts (Http_GetCameraData status t)"
proof -
  have "uiIndex (Http_GetCameraData status t) = index_of 0" using index_of_20_bits [of 0] by (simp add: Http_GetCameraData_def index_of_def)
  then show ?thesis by (auto simp: stream_inv_def Http_GetCameraData_def intro!: exI [of _ 0])
qed

lemma world_step_inv:
  assumes "world_inv fs W" and "world_step A d f a W = Inr W'"
  shows "world_inv (fs @ frames [a]) W'"
proof (cases a)
  case (Camera frame)
  from assms(1) have "pic_inv fs (w_pics W)" by (simp add: world_inv_def)
  from camera_step_inv [OF this, of "cfg_cam d" f frame] obtain P ts where
    "camera_step (cfg_cam d) f frame (w_pics W) = Inr P" "pic_inv (fs @ given frame) P" "taken P = taken (w_pics W) @ ts" by blast
  then show ?thesis using assms Camera by (auto simp: world_inv_def stream_inv_more)
next
  case (Setting m)
  show ?thesis
  proof (cases "pic_pc (w_pics W) = Fetch")
    case True
    then obtain w e where w: "on_message A d m (pic_state (w_pics W), w_engine W) = Inr (w, e)"
      "W' = W\<lparr>w_pics := (w_pics W)\<lparr>pic_state := w\<rparr>, w_engine := e\<rparr>"
      using assms(2) Setting by (auto simp: bnd_Inr)
    then show ?thesis using message_keeps_index [OF w(1)] assms(1) Setting True by (auto simp: world_inv_def pic_inv_def)
  qed (use assms Setting in simp)
next
  case (Connect status t)
  then show ?thesis using assms new_stream_inv by (auto simp: world_inv_def)
next
  case (Fill i rd gone t)
  show ?thesis
  proof (cases "i < length (w_streams W) \<and> \<not> st_over (w_streams W ! i)")
    case True
    then obtain r b P m where 1: "FillCameraData rd gone t (w_streams W ! i) (w_pics W, w_mcu W) = Inr (r, b, P, m)"
      "W' = W\<lparr>w_pics := P, w_mcu := m, w_streams := (w_streams W)[i := b]\<rparr>"
      using assms(2) Fill by (auto simp: bnd_Inr)
    have "pic_inv fs (w_pics W)" "stream_inv (taken (w_pics W)) (w_streams W ! i)" using assms(1) True by (simp_all add: world_inv_def)
    from fill_inv [OF this 1(1)] show ?thesis
      using 1(2) assms(1) Fill by (auto simp: world_inv_def dest!: subsetD [OF set_update_subset_insert])
  qed (use assms Fill in \<open>simp split: if_splits\<close>)
qed

lemma world_run_inv:
  "world_run A d f as W = Inr W' \<Longrightarrow> world_inv fs W \<Longrightarrow> world_inv (fs @ frames as) W'"
proof (induction as arbitrary: W fs)
  case (Cons a as)
  then obtain W1 where "world_step A d f a W = Inr W1" "world_run A d f as W1 = Inr W'" by (auto simp: bnd_Inr)
  then have "world_inv ((fs @ frames [a]) @ frames as) W'" using Cons.IH Cons.prems(2) world_step_inv by blast
  then show ?case using frames_simps(2) [of "[a]" as] by simp
qed simp


text \<open>
  C16. However the threads run: what is shown, and so what a snapshot or a fill sends, is always the whole of the newest picture, never a
  mixture of two and never one being copied; every browser of the stream gets pictures in the order they were taken, each at most once; a picture
  shown is a frame of the encoder; and the camera thread never writes outside its buffers.
\<close>

theorem browsers_see_whole_pictures:
  assumes "world_run A d f as (start_world c check e m) = Inr W"
  shows "subseq (taken (w_pics W)) (frames as)
     \<and> shown_picture (w_pics W) = (if taken (w_pics W) = [] then None else Some (last (taken (w_pics W))))
     \<and> Http_SendJpeg True (w_pics W) = (if taken (w_pics W) = [] then (- 1, []) else (0, [Jpeg (last (taken (w_pics W)))]))
     \<and> (\<forall>b \<in> set (w_streams W). subseq (jpegs (st_out b)) (taken (w_pics W)))
     \<and> (\<forall>frame. \<exists>W'. world_step A d f (Camera frame) W = Inr W')"
proof -
  have "world_inv [] (start_world c check e m)" using start_inv by (simp add: world_inv_def start_world_def)
  from world_run_inv [OF assms this] have W: "world_inv (frames as) W" by simp
  then have P: "pic_inv (frames as) (w_pics W)" by (simp add: world_inv_def)
  have one_less: "subseq ts fs" if "subseq (ts @ [j]) fs" for ts j and fs :: "u8 list list"
  proof -
    have "subseq ts (ts @ [j])" by (rule list_emb_prefix) simp
    then show ?thesis using that by (rule subseq_order.trans)
  qed
  have "subseq (taken (w_pics W)) (frames as)"
    using P by (cases "pic_pc (w_pics W)") (auto simp: pic_inv_def intro: one_less)
  moreover have "subseq (jpegs (st_out b)) (taken (w_pics W))" if "b \<in> set (w_streams W)" for b
  proof -
    have "stream_inv (taken (w_pics W)) b" using W that by (simp add: world_inv_def)
    then obtain n where "subseq (jpegs (st_out b)) (take n (taken (w_pics W)))" by (auto simp: stream_inv_def)
    moreover have "subseq (take n (taken (w_pics W))) (taken (w_pics W))" by (metis append_take_drop_id list_emb_prefix subseq_order.refl)
    ultimately show ?thesis by (rule subseq_order.trans)
  qed
  moreover have "\<exists>W'. world_step A d f (Camera frame) W = Inr W'" for frame
    using camera_step_inv [OF P, of "cfg_cam d" f frame] by auto
  ultimately show ?thesis using P by (simp add: pic_inv_def Http_SendJpeg_def)
qed

definition example_readings :: readings where
  "example_readings = \<lparr>rd_mcu = (\<lambda>_. []), rd_stack = [], rd_size = 160, rd_rssi = None, rd_config = InitDefaultParam (\<lambda>_. 0),
     rd_conn = example_client\<rparr>"

definition example_actions :: "action list" where
  "example_actions = [Connect False 0, Fill 0 example_readings False 1, Camera (Some [7]), Camera None, Fill 0 example_readings False 1,
     Camera None, Camera None, Fill 0 example_readings False 1, Fill 0 example_readings False 1]"

lemma MAX_CAMERA_IMG_LENGTH_pos [simp]: "0 < MAX_CAMERA_IMG_LENGTH" "\<not> MAX_CAMERA_IMG_LENGTH < Suc 0"
  by (simp_all add: MAX_CAMERA_IMG_LENGTH_def)

lemma first_byte: "0 < n \<Longrightarrow> take (Suc 0) ((replicate n x)[0 := y]) = [y]"
  by (cases n) simp_all

theorem browsers_see_whole_pictures_witness:
  "\<exists>W. world_run example_audio (InitDefaultParam (\<lambda>_. 0)) (\<lambda>_. True) example_actions
      (start_world (InitDefaultParam (\<lambda>_. 0)) False example_engine idle_link) = Inr W
     \<and> shown_picture (w_pics W) = Some [7] \<and> map (\<lambda>b. jpegs (st_out b)) (w_streams W) = [[[7]]]"
proof -
  let ?r = "world_run example_audio (InitDefaultParam (\<lambda>_. 0)) (\<lambda>_. True) example_actions
      (start_world (InitDefaultParam (\<lambda>_. 0)) False example_engine idle_link)"
  have "case ?r of Inl _ \<Rightarrow> False | Inr W \<Rightarrow> taken (w_pics W) = [[7]] \<and> map (\<lambda>b. jpegs (st_out b)) (w_streams W) = [[[7]]]"
    by (simp add: example_actions_def start_world_def start_pictures_def camera_step_def next_img_def SaveJpeg_def Let_def
      FillCameraData_def Http_GetCameraData_def shown_picture_def reset_webcam_def next_index_def MAX_IMG_INDEX_def INVALID_PICTURE_def
      first_byte)
  then obtain W where "?r = Inr W" "taken (w_pics W) = [[7]]" "map (\<lambda>b. jpegs (st_out b)) (w_streams W) = [[[7]]]"
    by (auto split: sum.splits)
  then show ?thesis using browsers_see_whole_pictures [of example_audio "InitDefaultParam (\<lambda>_. 0)" "\<lambda>_. True" example_actions
      "InitDefaultParam (\<lambda>_. 0)" False example_engine idle_link W] by simp
qed

end
