(* ===== verification/AudioPlay.thy ===== *)
theory AudioPlay
  imports Rovio_Prelude
begin

section \<open>Sound from the browser to the loudspeaker (VideoPhone/Src/vp_audio.c, vp_interfaces.c)\<close>

text \<open>
  Three parties share the state: a writer (one at a time, under the lock of \<open>iothread_Write\<close>) puts encoded sound into the splitter
  buffer and waits while it is full; the decoder thread cuts it into frames, decodes them and attaches the sound to a list of at most
  four blocks; the interrupt of the sound device takes a block from the list. Each party's work between two points where it can wait
  or give up the lock is one step here. The counters that keep the decoder from taking a fifth block are those of the thread library
  (\<open>TT_PC_T\<close>, a binary), whose documented behaviour is \<open>pc_laws\<close>; the codecs are parameters.
\<close>

datatype audio_format = FMT_AMR | FMT_PCM | FMT_IMA_ADPCM | FMT_ULAW | FMT_ALAW

definition OPT_AUDIO_BUFFER_SIZE :: nat where "OPT_AUDIO_BUFFER_SIZE = 320"
definition SPLITTER_SIZE :: nat where "SPLITTER_SIZE = 1056"
definition BUF_REMOTE_PCM_NUM :: nat where "BUF_REMOTE_PCM_NUM = 4"
definition ENC_AUDIO_SIZE :: nat where "ENC_AUDIO_SIZE = 1024"

lemmas audio_sizes = OPT_AUDIO_BUFFER_SIZE_def SPLITTER_SIZE_def BUF_REMOTE_PCM_NUM_def ENC_AUDIO_SIZE_def

subsection \<open>The splitter\<close>

record splitter =
  sp_aucBuffer :: "u8 list"
  sp_szMaxLength :: nat
  sp_szLength :: nat
  sp_szTotalLength :: u32

definition auSplitter_Init :: "u8 list \<Rightarrow> splitter" where
  "auSplitter_Init mem = \<lparr>sp_aucBuffer = mem, sp_szMaxLength = SPLITTER_SIZE, sp_szLength = 0, sp_szTotalLength = 0\<rparr>"

definition auSplitter_DelData :: "nat \<Rightarrow> splitter \<Rightarrow> splitter" where
  "auSplitter_DelData n p =
     (let szLength = min n (sp_szLength p); rest = sp_szLength p - szLength
      in p\<lparr>sp_aucBuffer := blit 0 (take rest (drop szLength (sp_aucBuffer p))) (sp_aucBuffer p), sp_szLength := rest\<rparr>)"

definition auSplitter_FreeSize :: "splitter \<Rightarrow> nat" where
  "auSplitter_FreeSize p = sp_szMaxLength p - sp_szLength p"

definition auSplitter_AddData :: "u8 list \<Rightarrow> splitter \<Rightarrow> splitter" where
  "auSplitter_AddData d p =
     (if length d > sp_szMaxLength p then p
      else let p1 = (if sp_szLength p + length d > sp_szMaxLength p
                     then auSplitter_DelData (sp_szLength p + length d - sp_szMaxLength p) p else p)
           in p1\<lparr>sp_aucBuffer := blit (sp_szLength p1) d (sp_aucBuffer p1), sp_szLength := sp_szLength p1 + length d,
                 sp_szTotalLength := sp_szTotalLength p1 + of_nat (length d)\<rparr>)"

definition amr_frame_size :: "u8 \<Rightarrow> nat" where
  "amr_frame_size b = [13, 14, 16, 18, 20, 21, 27, 32] ! (unat b div 8 mod 8)"

definition auSplitter_GetFrame :: "audio_format \<Rightarrow> nat \<Rightarrow> splitter \<Rightarrow> nat" where
  "auSplitter_GetFrame eDecodeFormat iLAWSize p =
     (case eDecodeFormat of
        FMT_AMR \<Rightarrow> if sp_szLength p \<ge> 1 then (let n = amr_frame_size (sp_aucBuffer p ! 0) in if sp_szLength p < n then 0 else n) else 0
      | FMT_PCM \<Rightarrow> if sp_szLength p \<ge> OPT_AUDIO_BUFFER_SIZE then OPT_AUDIO_BUFFER_SIZE else 0
      | FMT_IMA_ADPCM \<Rightarrow> 0
      | FMT_ULAW \<Rightarrow> if sp_szLength p \<ge> iLAWSize then iLAWSize else 0
      | FMT_ALAW \<Rightarrow> if sp_szLength p \<ge> iLAWSize then iLAWSize else 0)"

subsection \<open>Decoding\<close>

text \<open>
  \<open>amrDecode\<close> reads one frame, whose length its first byte tells; \<open>DecodeLAW\<close> reads as many bytes as it is told and leaves the block
  as it is when it fails; both write within the block (\<open>codec_laws\<close>). \<open>mem\<close> is what the block held before.
\<close>

record codecs =
  amrDecode :: "u8 list \<Rightarrow> u8 list"
  DecodeLAW :: "audio_format \<Rightarrow> u8 list \<Rightarrow> u8 list \<Rightarrow> u8 list"

definition codec_laws :: "codecs \<Rightarrow> bool" where
  "codec_laws C = ((\<forall>x. length (amrDecode C x) = OPT_AUDIO_BUFFER_SIZE)
     \<and> (\<forall>f x mem. length mem = OPT_AUDIO_BUFFER_SIZE \<longrightarrow> length (DecodeLAW C f x mem) = OPT_AUDIO_BUFFER_SIZE))"

definition decode_frame :: "codecs \<Rightarrow> audio_format \<Rightarrow> u8 list \<Rightarrow> nat \<Rightarrow> u8 list \<Rightarrow> u8 list" where
  "decode_frame C eDecodeFormat cpucData uLen mem =
     (case eDecodeFormat of
        FMT_AMR \<Rightarrow> amrDecode C (take (amr_frame_size (cpucData ! 0)) cpucData)
      | FMT_PCM \<Rightarrow> take OPT_AUDIO_BUFFER_SIZE cpucData
      | FMT_IMA_ADPCM \<Rightarrow> mem
      | FMT_ULAW \<Rightarrow> DecodeLAW C FMT_ULAW (take uLen cpucData) mem
      | FMT_ALAW \<Rightarrow> DecodeLAW C FMT_ALAW (take uLen cpucData) mem)"

subsection \<open>The sound of notifications\<close>

text \<open>
  A sound that is played on top: the samples, how far it has been played, its volume and whether something is to be called at its end.
  Samples are little endian; the division of C rounds towards 0.
\<close>

record notification =
  pucNotificationBuffer :: "u8 list option"
  iNotificationBufferPlayFrom :: nat
  iNotificationVolume :: int
  notificationCallback :: bool

definition AUDIO_NOTIFICATION_VOLUME_MAX :: int where "AUDIO_NOTIFICATION_VOLUME_MAX = 60"

definition silent_notification :: notification where
  "silent_notification = \<lparr>pucNotificationBuffer = None, iNotificationBufferPlayFrom = 0, iNotificationVolume = 2, notificationCallback = False\<rparr>"

definition vauSetNotificationVolume :: "int \<Rightarrow> notification \<Rightarrow> notification" where
  "vauSetNotificationVolume v n =
     n\<lparr>iNotificationVolume := if v \<le> 1 then 2 else if v > AUDIO_NOTIFICATION_VOLUME_MAX then AUDIO_NOTIFICATION_VOLUME_MAX else v\<rparr>"

definition end_notification :: "notification \<Rightarrow> notification" where
  "end_notification n = n\<lparr>pucNotificationBuffer := None, iNotificationBufferPlayFrom := 0, notificationCallback := False\<rparr>"

definition vauNotificationPlay :: "u8 list option \<Rightarrow> bool \<Rightarrow> notification \<Rightarrow> notification" where
  "vauNotificationPlay pucBuffer callback n =
     (if iNotificationVolume n < AUDIO_NOTIFICATION_VOLUME_MAX
      then n\<lparr>pucNotificationBuffer := pucBuffer, iNotificationBufferPlayFrom := 0, notificationCallback := callback\<rparr>
      else end_notification n)"

definition sample :: "u8 list \<Rightarrow> nat \<Rightarrow> int" where
  "sample d i = sint (word_cat (d ! (i + 1)) (d ! i) :: u16)"

definition c_div :: "int \<Rightarrow> int \<Rightarrow> int" where
  "c_div a b = sgn a * sgn b * (\<bar>a\<bar> div \<bar>b\<bar>)"

definition mixed :: "int \<Rightarrow> int \<Rightarrow> int \<Rightarrow> u8 list" where
  "mixed vol a b = (let p = (word_of_int (c_div a 2 + c_div b vol) :: u16) in [ucast p, ucast (drop_bit 8 p)])"

text \<open>The loop over the samples, from byte i on.\<close>

function mix_samples :: "nat \<Rightarrow> nat \<Rightarrow> nat \<Rightarrow> int \<Rightarrow> u8 list \<Rightarrow> u8 list \<Rightarrow> u8 list checked" where
  "mix_samples i copylen from vol sound buf =
     (if i \<ge> copylen then Inr buf
      else if i + 2 > length buf \<or> from + i + 2 > length sound then Inl OutOfBounds
      else mix_samples (i + 2) copylen from vol sound (blit i (mixed vol (sample buf i) (sample sound (from + i))) buf))"
  by pat_completeness auto
termination by (relation "measure (\<lambda>(i, copylen, _). copylen - i)") auto

declare mix_samples.simps [simp del]

text \<open>The answer tells whether the callback was called; without the lock nothing happens.\<close>

definition vauNotificationGet :: "bool \<Rightarrow> u8 list \<Rightarrow> notification \<Rightarrow> (u8 list \<times> bool \<times> notification) checked" where
  "vauNotificationGet lock pucBuffer n =
     (case (if lock then pucNotificationBuffer n else None) of
        None \<Rightarrow> Inr (pucBuffer, False, n)
      | Some sound \<Rightarrow>
          let copylen = min (length sound - iNotificationBufferPlayFrom n) (length pucBuffer);
              from = iNotificationBufferPlayFrom n + copylen
          in bnd (mix_samples 0 copylen (iNotificationBufferPlayFrom n) (iNotificationVolume n) sound pucBuffer) (\<lambda>out.
               if from \<ge> length sound then Inr (out, notificationCallback n, end_notification n)
               else Inr (out, False, n\<lparr>iNotificationBufferPlayFrom := from\<rparr>)))"

subsection \<open>The shared state\<close>

text \<open>
  The thread library's counters: \<open>tt_pc_produce\<close> waits for a free place, calls its function and reports a full one;
  \<open>tt_pc_try_consume\<close> without a function turns a full place into a free one, if there is any.
\<close>

record 'p pc_lib =
  tt_pc_init :: "nat \<Rightarrow> 'p"
  pc_produce_begin :: "'p \<Rightarrow> 'p option"
  pc_produce_end :: "'p \<Rightarrow> 'p"
  tt_pc_try_consume :: "'p \<Rightarrow> 'p option"

definition pc_laws :: "'p pc_lib \<Rightarrow> ('p \<Rightarrow> nat) \<Rightarrow> ('p \<Rightarrow> nat) \<Rightarrow> bool" where
  "pc_laws L free full =
     ((\<forall>n. free (tt_pc_init L n) = n \<and> full (tt_pc_init L n) = 0)
    \<and> (\<forall>p. (pc_produce_begin L p = None \<longleftrightarrow> free p = 0)
        \<and> (\<forall>q. pc_produce_begin L p = Some q \<longrightarrow> free p = Suc (free q) \<and> full q = full p)
        \<and> free (pc_produce_end L p) = free p \<and> full (pc_produce_end L p) = Suc (full p)
        \<and> (tt_pc_try_consume L p = None \<longleftrightarrow> full p = 0)
        \<and> (\<forall>q. tt_pc_try_consume L p = Some q \<longrightarrow> full p = Suc (full q) \<and> free q = Suc (free p))))"

text \<open>
  Where the decoder thread is: waiting for a message, before \<open>auSplitter_GetFrame\<close>, waiting in \<open>tt_pc_produce\<close>, before taking a block,
  before decoding, before the report, before \<open>auSplitter_DelData\<close>. Where the writer is: outside, before adding (what is left of) its
  data, before sending the message.
\<close>

datatype decoder_at = D_recv | D_look | D_wait nat | D_new nat | D_decode nat | D_post nat | D_del nat
datatype writer_at = W_idle | W_add "u8 list" | W_send "u8 list"

record 'p vau =
  pSplitterBuffer :: splitter
  eDecodeFormat :: audio_format
  iLAWSize :: nat
  pcRemotePCM :: 'p
  bufRemotePCM_free :: nat
  listPCM_Remote :: "u8 list list"
  notify :: notification
  msg_count :: nat
  decoder :: decoder_at
  writer :: writer_at
  halted :: bool
  given :: "u8 list"
  decoded :: "(u8 list \<times> u8 list) list"
  played :: "u8 list list"

text \<open>\<open>mem\<close>: what the memory of the splitter held before.\<close>

definition vauInit :: "'p pc_lib \<Rightarrow> u8 list \<Rightarrow> 'p vau" where
  "vauInit L mem =
     \<lparr>pSplitterBuffer = auSplitter_Init mem, eDecodeFormat = FMT_AMR, iLAWSize = 0, pcRemotePCM = tt_pc_init L BUF_REMOTE_PCM_NUM,
      bufRemotePCM_free = BUF_REMOTE_PCM_NUM, listPCM_Remote = [], notify = silent_notification, msg_count = 0, decoder = D_recv,
      writer = W_idle, halted = False, given = [], decoded = [], played = []\<rparr>"

subsection \<open>The writer (vauDecode)\<close>

text \<open>\<open>iothread_Write\<close> copies the sound into a buffer of \<open>ENC_AUDIO_SIZE\<close> bytes for each call.\<close>

function audio_calls :: "u8 list \<Rightarrow> u8 list list" where
  "audio_calls d =
     (if length d > ENC_AUDIO_SIZE then take ENC_AUDIO_SIZE d # audio_calls (drop ENC_AUDIO_SIZE d) else if d \<noteq> [] then [d] else [])"
  by pat_completeness auto
termination by (relation "measure length") (auto simp: ENC_AUDIO_SIZE_def)

declare audio_calls.simps [simp del]

lemma concat_audio_calls: "concat (audio_calls d) = d"
  by (induction d rule: audio_calls.induct) (subst audio_calls.simps, simp)

definition vauDecode :: "u8 list \<Rightarrow> 'p vau \<Rightarrow> 'p vau" where
  "vauDecode d s = s\<lparr>writer := if d = [] then W_idle else W_add d, given := given s @ d\<rparr>"

text \<open>A round of its loop up to the message; None while it waits on \<open>cPlayWait\<close>.\<close>

definition vauDecode_add :: "u8 list \<Rightarrow> 'p vau \<Rightarrow> 'p vau option" where
  "vauDecode_add d s =
     (let uLenThis = min (length d) (SPLITTER_SIZE div 2)
      in if auSplitter_FreeSize (pSplitterBuffer s) < uLenThis then None
         else Some (s\<lparr>pSplitterBuffer := auSplitter_AddData (take uLenThis d) (pSplitterBuffer s), writer := W_send (drop uLenThis d)\<rparr>))"

text \<open>\<open>tt_msg_try_send\<close> to a queue with cap places.\<close>

definition vauDecode_send :: "nat \<Rightarrow> u8 list \<Rightarrow> 'p vau \<Rightarrow> 'p vau" where
  "vauDecode_send cap d s =
     s\<lparr>msg_count := if msg_count s < cap then msg_count s + 1 else msg_count s, writer := if d = [] then W_idle else W_add d\<rparr>"

subsection \<open>The decoder thread (vauThreadEntry, vauThread_OnPlay, \_\_vauDecode)\<close>

definition OnPlay_look :: "'p vau \<Rightarrow> 'p vau" where
  "OnPlay_look s =
     (let szLen = auSplitter_GetFrame (eDecodeFormat s) (iLAWSize s) (pSplitterBuffer s)
      in s\<lparr>decoder := if szLen = 0 then D_recv else D_wait szLen\<rparr>)"

definition OnPlay_produce :: "'p pc_lib \<Rightarrow> nat \<Rightarrow> 'p vau \<Rightarrow> 'p vau option" where
  "OnPlay_produce L n s = map_option (\<lambda>q. s\<lparr>pcRemotePCM := q, decoder := D_new n\<rparr>) (pc_produce_begin L (pcRemotePCM s))"

text \<open>Without a block \<open>\_\_vauDecode\<close> stops in an endless loop: "Must be None-NULL, this is ensured by producer".\<close>

definition vauDecode_new :: "nat \<Rightarrow> 'p vau \<Rightarrow> 'p vau" where
  "vauDecode_new n s =
     (if bufRemotePCM_free s = 0 then s\<lparr>halted := True\<rparr>
      else s\<lparr>bufRemotePCM_free := bufRemotePCM_free s - 1, decoder := D_decode n\<rparr>)"

definition vauDecode_attach :: "codecs \<Rightarrow> u8 list \<Rightarrow> nat \<Rightarrow> 'p vau \<Rightarrow> 'p vau" where
  "vauDecode_attach C mem n s =
     (let d = sp_aucBuffer (pSplitterBuffer s); pcm = decode_frame C (eDecodeFormat s) d n mem
      in s\<lparr>listPCM_Remote := listPCM_Remote s @ [pcm], decoder := D_post n, decoded := decoded s @ [(take n d, pcm)]\<rparr>)"

definition OnPlay_produced :: "'p pc_lib \<Rightarrow> nat \<Rightarrow> 'p vau \<Rightarrow> 'p vau" where
  "OnPlay_produced L n s = s\<lparr>pcRemotePCM := pc_produce_end L (pcRemotePCM s), decoder := D_del n\<rparr>"

definition OnPlay_del :: "nat \<Rightarrow> 'p vau \<Rightarrow> 'p vau" where
  "OnPlay_del n s = s\<lparr>pSplitterBuffer := auSplitter_DelData n (pSplitterBuffer s), decoder := D_look\<rparr>"

subsection \<open>The interrupt (vauPlayCallback)\<close>

text \<open>
  The device asks for \<open>OPT_AUDIO_BUFFER_SIZE\<close> bytes. With the lock and a full place it gets the first block of the list, otherwise
  silence; the notification is mixed in. An empty list with a full place is "Can not run to here!!!".
\<close>

definition vauPlayCallback :: "'p pc_lib \<Rightarrow> bool \<Rightarrow> bool \<Rightarrow> 'p vau \<Rightarrow> (u8 list \<times> 'p vau) checked" where
  "vauPlayCallback L lock notify_lock s =
     (let say = (\<lambda>pcm s. bnd (vauNotificationGet notify_lock pcm (notify s)) (\<lambda>(out, _, n). Inr (out, s\<lparr>notify := n\<rparr>)));
          silence = replicate OPT_AUDIO_BUFFER_SIZE 0
      in case (if lock then tt_pc_try_consume L (pcRemotePCM s) else None) of
           None \<Rightarrow> say silence s
         | Some q \<Rightarrow>
             (case listPCM_Remote s of
                [] \<Rightarrow> Inr ([], s\<lparr>pcRemotePCM := q, halted := True\<rparr>)
              | pcm # rest \<Rightarrow> say (take OPT_AUDIO_BUFFER_SIZE pcm)
                  (s\<lparr>pcRemotePCM := q, listPCM_Remote := rest, bufRemotePCM_free := bufRemotePCM_free s + 1, played := played s @ [pcm]\<rparr>)))"

subsection \<open>Steps\<close>

text \<open>
  A machine that has halted does nothing any more. \<open>config_step\<close>: what others do to the state; a notification consists of whole samples.
\<close>

inductive work_step :: "'p pc_lib \<Rightarrow> codecs \<Rightarrow> nat \<Rightarrow> 'p vau \<Rightarrow> 'p vau \<Rightarrow> bool" for L C cap where
  call_in: "\<not> halted s \<Longrightarrow> writer s = W_idle \<Longrightarrow> work_step L C cap s (vauDecode d s)"
| add: "\<not> halted s \<Longrightarrow> writer s = W_add d \<Longrightarrow> vauDecode_add d s = Some s' \<Longrightarrow> work_step L C cap s s'"
| send: "\<not> halted s \<Longrightarrow> writer s = W_send d \<Longrightarrow> work_step L C cap s (vauDecode_send cap d s)"
| recv: "\<not> halted s \<Longrightarrow> decoder s = D_recv \<Longrightarrow> 0 < msg_count s \<Longrightarrow> work_step L C cap s (s\<lparr>msg_count := msg_count s - 1, decoder := D_look\<rparr>)"
| look: "\<not> halted s \<Longrightarrow> decoder s = D_look \<Longrightarrow> work_step L C cap s (OnPlay_look s)"
| produce: "\<not> halted s \<Longrightarrow> decoder s = D_wait n \<Longrightarrow> OnPlay_produce L n s = Some s' \<Longrightarrow> work_step L C cap s s'"
| new_block: "\<not> halted s \<Longrightarrow> decoder s = D_new n \<Longrightarrow> work_step L C cap s (vauDecode_new n s)"
| decode: "\<not> halted s \<Longrightarrow> decoder s = D_decode n \<Longrightarrow> length mem = OPT_AUDIO_BUFFER_SIZE \<Longrightarrow> work_step L C cap s (vauDecode_attach C mem n s)"
| produced: "\<not> halted s \<Longrightarrow> decoder s = D_post n \<Longrightarrow> work_step L C cap s (OnPlay_produced L n s)"
| del: "\<not> halted s \<Longrightarrow> decoder s = D_del n \<Longrightarrow> work_step L C cap s (OnPlay_del n s)"
| play: "\<not> halted s \<Longrightarrow> vauPlayCallback L lock nlock s = Inr (out, s') \<Longrightarrow> work_step L C cap s s'"
| play_fault: "\<not> halted s \<Longrightarrow> vauPlayCallback L lock nlock s = Inl e \<Longrightarrow> work_step L C cap s (s\<lparr>halted := True\<rparr>)"

inductive config_step :: "'p vau \<Rightarrow> 'p vau \<Rightarrow> bool" where
  set_format: "config_step s (s\<lparr>eDecodeFormat := f\<rparr>)"
| recorded: "config_step s (s\<lparr>iLAWSize := n\<rparr>)"
| notification: "(\<forall>x. b = Some x \<longrightarrow> even (length x)) \<Longrightarrow> config_step s (s\<lparr>notify := vauNotificationPlay b cb (notify s)\<rparr>)"
| volume: "config_step s (s\<lparr>notify := vauSetNotificationVolume v (notify s)\<rparr>)"

definition vau_step :: "'p pc_lib \<Rightarrow> codecs \<Rightarrow> nat \<Rightarrow> 'p vau \<Rightarrow> 'p vau \<Rightarrow> bool" where
  "vau_step L C cap s s' = (work_step L C cap s s' \<or> config_step s s')"

inductive_cases work_stepE: "work_step L C cap s s'"
inductive_cases config_stepE: "config_step s s'"

subsection \<open>The splitter as a list\<close>

definition sp_content :: "splitter \<Rightarrow> u8 list" where
  "sp_content p = take (sp_szLength p) (sp_aucBuffer p)"

definition sp_ok :: "splitter \<Rightarrow> bool" where
  "sp_ok p = (length (sp_aucBuffer p) = SPLITTER_SIZE \<and> sp_szMaxLength p = SPLITTER_SIZE \<and> sp_szLength p \<le> SPLITTER_SIZE)"

lemma length_sp_content [simp]: "sp_ok p \<Longrightarrow> length (sp_content p) = sp_szLength p"
  by (simp add: sp_ok_def sp_content_def)

lemma DelData_content:
  assumes "sp_ok p"
  shows "sp_content (auSplitter_DelData n p) = drop n (sp_content p)" "sp_ok (auSplitter_DelData n p)"
    "sp_szLength (auSplitter_DelData n p) = sp_szLength p - n"
  using assms by (auto simp: auSplitter_DelData_def Let_def sp_content_def sp_ok_def blit_def min_def drop_take)

lemma AddData_content:
  assumes "sp_ok p" and "length d \<le> auSplitter_FreeSize p"
  shows "sp_content (auSplitter_AddData d p) = sp_content p @ d" "sp_ok (auSplitter_AddData d p)"
    "sp_szLength (auSplitter_AddData d p) = sp_szLength p + length d"
  using assms by (auto simp: auSplitter_AddData_def auSplitter_FreeSize_def Let_def sp_content_def sp_ok_def blit_def)

lemma amr_frame_bounds: "13 \<le> amr_frame_size b" "amr_frame_size b \<le> 32"
proof -
  have k: "k < 8 \<Longrightarrow> k = 0 \<or> k = 1 \<or> k = 2 \<or> k = 3 \<or> k = 4 \<or> k = 5 \<or> k = 6 \<or> k = 7" for k :: nat by presburger
  have "unat b div 8 mod 8 < 8" by simp
  from k [OF this] have "unat b div 8 mod 8 \<in> {0, 1, 2, 3, 4, 5, 6, 7}" by simp
  then have "13 \<le> amr_frame_size b \<and> amr_frame_size b \<le> 32" unfolding amr_frame_size_def by auto
  then show "13 \<le> amr_frame_size b" "amr_frame_size b \<le> 32" by simp_all
qed

lemma GetFrame_le: "auSplitter_GetFrame f law p \<le> sp_szLength p"
  by (auto simp: auSplitter_GetFrame_def Let_def split: audio_format.split)

subsection \<open>Mixing\<close>

lemma mix_samples_ok:
  assumes "even i" "even copylen" "copylen \<le> length buf" "from + copylen \<le> length sound"
  shows "\<exists>out. mix_samples i copylen from vol sound buf = Inr out \<and> length out = length buf"
  using assms
proof (induction i copylen "from" vol sound buf rule: mix_samples.induct)
  case (1 i copylen "from" vol sound buf)
  show ?case
  proof (cases "i \<ge> copylen")
    case True
    then show ?thesis by (subst mix_samples.simps) simp
  next
    case False
    have i: "i + 2 \<le> copylen" using False 1(2,3) by presburger
    let ?b = "blit i (mixed vol (sample buf i) (sample sound (from + i))) buf"
    have l: "length ?b = length buf" using i 1(4) by (intro length_blit) (simp add: mixed_def Let_def)
    have "\<not> (i + 2 > length buf \<or> from + i + 2 > length sound)" using i 1(4,5) by simp
    with False l 1(1) [OF False] 1(2-5) show ?thesis by (subst mix_samples.simps) simp
  qed
qed

definition notification_ok :: "notification \<Rightarrow> bool" where
  "notification_ok n = (2 \<le> iNotificationVolume n
     \<and> (\<forall>x. pucNotificationBuffer n = Some x \<longrightarrow> even (length x) \<and> even (iNotificationBufferPlayFrom n) \<and> iNotificationBufferPlayFrom n \<le> length x))"

lemma notification_kept:
  assumes "notification_ok n" and "even (length buf)"
  shows "\<exists>out cb n'. vauNotificationGet lock buf n = Inr (out, cb, n') \<and> length out = length buf \<and> notification_ok n'"
proof (cases "if lock then pucNotificationBuffer n else None")
  case None
  then have "vauNotificationGet lock buf n = Inr (buf, False, n)" by (simp add: vauNotificationGet_def)
  then show ?thesis using assms(1) by blast
next
  case (Some x)
  then have b: "lock" "pucNotificationBuffer n = Some x" by (simp_all split: if_splits)
  define m where "m = min (length x - iNotificationBufferPlayFrom n) (length buf)"
  have e: "even m" "m \<le> length buf" "iNotificationBufferPlayFrom n + m \<le> length x" "even (iNotificationBufferPlayFrom n)"
    using assms b unfolding notification_ok_def m_def by (auto simp: min_def)
  from mix_samples_ok [OF _ e(1,2,3), of 0] obtain out where
    o: "mix_samples 0 m (iNotificationBufferPlayFrom n) (iNotificationVolume n) x buf = Inr out" "length out = length buf" by auto
  then show ?thesis using assms b e
    by (auto simp: vauNotificationGet_def Let_def m_def [symmetric] notification_ok_def end_notification_def)
qed

subsection \<open>Nothing halts, nothing is lost\<close>

definition taken_bytes :: "decoder_at \<Rightarrow> nat" where
  "taken_bytes d = (case d of D_post n \<Rightarrow> n | D_del n \<Rightarrow> n | _ \<Rightarrow> 0)"

definition frame_bytes :: "decoder_at \<Rightarrow> nat" where
  "frame_bytes d = (case d of D_recv \<Rightarrow> 0 | D_look \<Rightarrow> 0 | D_wait n \<Rightarrow> n | D_new n \<Rightarrow> n | D_decode n \<Rightarrow> n | D_post n \<Rightarrow> n | D_del n \<Rightarrow> n)"

definition has_frame :: "decoder_at \<Rightarrow> bool" where
  "has_frame d = (d \<noteq> D_recv \<and> d \<noteq> D_look)"

definition holds_place :: "decoder_at \<Rightarrow> nat" where
  "holds_place d = (case d of D_new n \<Rightarrow> 1 | D_decode n \<Rightarrow> 1 | D_post n \<Rightarrow> 1 | _ \<Rightarrow> 0)"

definition unsent :: "writer_at \<Rightarrow> u8 list" where
  "unsent w = (case w of W_idle \<Rightarrow> [] | W_add d \<Rightarrow> d | W_send d \<Rightarrow> d)"

definition is_decoding :: "decoder_at \<Rightarrow> nat" where
  "is_decoding d = (case d of D_decode n \<Rightarrow> 1 | _ \<Rightarrow> 0)"

definition unreported :: "decoder_at \<Rightarrow> nat" where
  "unreported d = (case d of D_post n \<Rightarrow> 1 | _ \<Rightarrow> 0)"

lemmas place_defs = taken_bytes_def frame_bytes_def has_frame_def holds_place_def unsent_def is_decoding_def unreported_def

definition counts_ok :: "('p \<Rightarrow> nat) \<Rightarrow> ('p \<Rightarrow> nat) \<Rightarrow> 'p vau \<Rightarrow> bool" where
  "counts_ok free full s =
     (bufRemotePCM_free s + length (listPCM_Remote s) + is_decoding (decoder s) = BUF_REMOTE_PCM_NUM
    \<and> free (pcRemotePCM s) + full (pcRemotePCM s) + holds_place (decoder s) = BUF_REMOTE_PCM_NUM
    \<and> full (pcRemotePCM s) + unreported (decoder s) = length (listPCM_Remote s))"

definition bytes_ok :: "'p vau \<Rightarrow> bool" where
  "bytes_ok s = (sp_ok (pSplitterBuffer s) \<and> frame_bytes (decoder s) \<le> sp_szLength (pSplitterBuffer s)
    \<and> (has_frame (decoder s) \<longrightarrow> 0 < frame_bytes (decoder s))
    \<and> concat (map fst (decoded s)) @ drop (taken_bytes (decoder s)) (sp_content (pSplitterBuffer s)) @ unsent (writer s) = given s
    \<and> (\<forall>d. writer s = W_add d \<longrightarrow> d \<noteq> []))"

definition blocks_ok :: "codecs \<Rightarrow> 'p vau \<Rightarrow> bool" where
  "blocks_ok C s = (played s @ listPCM_Remote s = map snd (decoded s) \<and> (\<forall>pcm \<in> set (listPCM_Remote s). length pcm = OPT_AUDIO_BUFFER_SIZE)
    \<and> (\<forall>(frame, pcm) \<in> set (decoded s). \<exists>f d mem. pcm = decode_frame C f d (length frame) mem \<and> take (length frame) d = frame))"

definition vau_inv :: "codecs \<Rightarrow> ('p \<Rightarrow> nat) \<Rightarrow> ('p \<Rightarrow> nat) \<Rightarrow> 'p vau \<Rightarrow> bool" where
  "vau_inv C free full s = (\<not> halted s \<and> counts_ok free full s \<and> bytes_ok s \<and> blocks_ok C s \<and> notification_ok (notify s))"

lemmas inv_defs = vau_inv_def counts_ok_def bytes_ok_def blocks_ok_def

lemma callback_run:
  assumes "pc_laws L free full" and "vau_inv C free full s"
  shows "\<exists>out s' n. vauPlayCallback L lock nlock s = Inr (out, s') \<and> notification_ok n
    \<and> (s' = s\<lparr>notify := n\<rparr> \<or>
       (\<exists>q pcm rest. tt_pc_try_consume L (pcRemotePCM s) = Some q \<and> listPCM_Remote s = pcm # rest
         \<and> s' = s\<lparr>pcRemotePCM := q, listPCM_Remote := rest, bufRemotePCM_free := bufRemotePCM_free s + 1, played := played s @ [pcm], notify := n\<rparr>))"
proof -
  have n: "notification_ok (notify s)" using assms(2) by (simp add: vau_inv_def)
  show ?thesis
  proof (cases "if lock then tt_pc_try_consume L (pcRemotePCM s) else None")
    case None
    have "even (length (replicate OPT_AUDIO_BUFFER_SIZE (0 :: u8)))" by (simp add: OPT_AUDIO_BUFFER_SIZE_def)
    from notification_kept [OF n this, of nlock] obtain out cb n' where
      "vauNotificationGet nlock (replicate OPT_AUDIO_BUFFER_SIZE 0) (notify s) = Inr (out, cb, n')" "notification_ok n'" by blast
    then show ?thesis unfolding vauPlayCallback_def Let_def None by auto
  next
    case (Some q)
    then have q: "tt_pc_try_consume L (pcRemotePCM s) = Some q" by (simp split: if_splits)
    then have "0 < full (pcRemotePCM s)" using assms(1) by (auto simp: pc_laws_def)
    then obtain pcm rest where l: "listPCM_Remote s = pcm # rest"
      using assms(2) by (cases "listPCM_Remote s") (auto simp: inv_defs)
    then have "length pcm = OPT_AUDIO_BUFFER_SIZE" using assms(2) by (simp add: inv_defs)
    then have "even (length (take OPT_AUDIO_BUFFER_SIZE pcm))" by (simp add: OPT_AUDIO_BUFFER_SIZE_def)
    from notification_kept [OF n this, of nlock] obtain out cb n' where
      "vauNotificationGet nlock (take OPT_AUDIO_BUFFER_SIZE pcm) (notify s) = Inr (out, cb, n')" "notification_ok n'" by blast
    then show ?thesis using q l unfolding vauPlayCallback_def Let_def Some by auto
  qed
qed

lemma play_inv:
  assumes "pc_laws L free full" and "vau_inv C free full s"
  shows "vauPlayCallback L lock nlock s = Inr (out, s') \<Longrightarrow> vau_inv C free full s'"
    and "vauPlayCallback L lock nlock s \<noteq> Inl e"
proof -
  obtain out1 s1 n where r: "vauPlayCallback L lock nlock s = Inr (out1, s1)" "notification_ok n"
    "s1 = s\<lparr>notify := n\<rparr> \<or> (\<exists>q pcm rest. tt_pc_try_consume L (pcRemotePCM s) = Some q \<and> listPCM_Remote s = pcm # rest
       \<and> s1 = s\<lparr>pcRemotePCM := q, listPCM_Remote := rest, bufRemotePCM_free := bufRemotePCM_free s + 1, played := played s @ [pcm], notify := n\<rparr>)"
    using callback_run [OF assms] by blast
  have "vau_inv C free full s1"
    using r(3)
  proof
    assume "s1 = s\<lparr>notify := n\<rparr>"
    then show ?thesis using assms(2) r(2) by (simp add: inv_defs)
  next
    assume "\<exists>q pcm rest. tt_pc_try_consume L (pcRemotePCM s) = Some q \<and> listPCM_Remote s = pcm # rest
       \<and> s1 = s\<lparr>pcRemotePCM := q, listPCM_Remote := rest, bufRemotePCM_free := bufRemotePCM_free s + 1, played := played s @ [pcm], notify := n\<rparr>"
    then obtain q pcm rest where q: "tt_pc_try_consume L (pcRemotePCM s) = Some q" "listPCM_Remote s = pcm # rest"
      "s1 = s\<lparr>pcRemotePCM := q, listPCM_Remote := rest, bufRemotePCM_free := bufRemotePCM_free s + 1, played := played s @ [pcm], notify := n\<rparr>" by blast
    have "full (pcRemotePCM s) = Suc (full q)" "free q = Suc (free (pcRemotePCM s))" using assms(1) q(1) unfolding pc_laws_def by blast+
    then show ?thesis using assms(2) r(2) q(2,3) by (simp add: inv_defs)
  qed
  then show "vauPlayCallback L lock nlock s = Inr (out, s') \<Longrightarrow> vau_inv C free full s'" "vauPlayCallback L lock nlock s \<noteq> Inl e"
    using r(1) by simp_all
qed

lemma work_step_inv:
  assumes "pc_laws L free full" and "codec_laws C" and "vau_inv C free full s" and "work_step L C cap s s'"
  shows "vau_inv C free full s'"
  using assms(4)
proof (cases rule: work_step.cases)
  case (call_in d)
  then show ?thesis using assms(3) by (auto simp: inv_defs vauDecode_def place_defs)
next
  case (add d)
  define m where "m = min (length d) (SPLITTER_SIZE div 2)"
  have sp: "sp_ok (pSplitterBuffer s)" using assms(3) by (simp add: inv_defs)
  have f: "\<not> auSplitter_FreeSize (pSplitterBuffer s) < m"
    and s': "s' = s\<lparr>pSplitterBuffer := auSplitter_AddData (take m d) (pSplitterBuffer s), writer := W_send (drop m d)\<rparr>"
    using add by (auto simp: vauDecode_add_def Let_def m_def split: if_splits)
  have "length (take m d) \<le> auSplitter_FreeSize (pSplitterBuffer s)" using f by simp
  note a = AddData_content [OF sp this]
  have "taken_bytes (decoder s) \<le> sp_szLength (pSplitterBuffer s)"
    using assms(3) by (cases "decoder s") (simp_all add: inv_defs place_defs)
  then have "drop (taken_bytes (decoder s)) (sp_content (auSplitter_AddData (take m d) (pSplitterBuffer s))) @ drop m d
      = drop (taken_bytes (decoder s)) (sp_content (pSplitterBuffer s)) @ d"
    using sp by (simp add: a)
  then show ?thesis using assms(3) add(2) a unfolding s' by (simp add: inv_defs unsent_def)
next
  case (send d)
  then show ?thesis using assms(3) by (auto simp: inv_defs vauDecode_send_def unsent_def)
next
  case recv
  then show ?thesis using assms(3) by (simp add: inv_defs place_defs)
next
  case look
  then show ?thesis using assms(3) GetFrame_le [of "eDecodeFormat s" "iLAWSize s" "pSplitterBuffer s"]
    by (auto simp: inv_defs OnPlay_look_def Let_def place_defs)
next
  case (produce n)
  then obtain q where q: "pc_produce_begin L (pcRemotePCM s) = Some q" "s' = s\<lparr>pcRemotePCM := q, decoder := D_new n\<rparr>"
    by (auto simp: OnPlay_produce_def)
  have "free (pcRemotePCM s) = Suc (free q)" "full q = full (pcRemotePCM s)" using assms(1) q(1) unfolding pc_laws_def by blast+
  then show ?thesis using assms(3) produce(2) unfolding q(2) by (simp add: inv_defs place_defs)
next
  case (new_block n)
  then have "bufRemotePCM_free s \<noteq> 0" using assms(3) by (auto simp: inv_defs place_defs)
  then show ?thesis using assms(3) new_block by (simp add: inv_defs vauDecode_new_def place_defs)
next
  case (decode n mem)
  let ?d = "sp_aucBuffer (pSplitterBuffer s)"
  have sp: "sp_ok (pSplitterBuffer s)" and n: "n \<le> sp_szLength (pSplitterBuffer s)" "0 < n"
    using assms(3) decode(3) by (simp_all add: inv_defs place_defs)
  have d: "length ?d = SPLITTER_SIZE" "n \<le> SPLITTER_SIZE" using sp n by (simp_all add: sp_ok_def)
  have l: "length (decode_frame C (eDecodeFormat s) ?d n mem) = OPT_AUDIO_BUFFER_SIZE"
    using assms(2) decode(4) d by (auto simp: decode_frame_def codec_laws_def audio_sizes split: audio_format.split)
  have "take n ?d = take n (sp_content (pSplitterBuffer s))" using n by (simp add: sp_content_def min_def)
  then have t: "take n ?d @ drop n (sp_content (pSplitterBuffer s)) @ x = sp_content (pSplitterBuffer s) @ x" for x
    by (simp add: append_assoc [symmetric] del: append_assoc)
  have m: "min (length ?d) n = n" "min SPLITTER_SIZE n = n" using d by simp_all
  have e: "\<exists>f x. (\<exists>m. decode_frame C (eDecodeFormat s) ?d n mem = decode_frame C f x n m) \<and> take n x = take n ?d" by blast
  have "concat (map fst (decoded s)) @ sp_content (pSplitterBuffer s) @ unsent (writer s) = given s"
    using assms(3) decode(3) by (simp add: inv_defs taken_bytes_def)
  then have g: "concat (map fst (decoded s)) @ take n ?d @ drop n (sp_content (pSplitterBuffer s)) @ unsent (writer s) = given s"
    using t by metis
  show ?thesis unfolding decode(1) using assms(3) decode(3) l g e n m
    by (simp add: inv_defs vauDecode_attach_def Let_def place_defs)
next
  case (produced n)
  have "free (pc_produce_end L (pcRemotePCM s)) = free (pcRemotePCM s)" "full (pc_produce_end L (pcRemotePCM s)) = Suc (full (pcRemotePCM s))"
    using assms(1) unfolding pc_laws_def by blast+
  then show ?thesis using assms(3) produced by (simp add: inv_defs OnPlay_produced_def place_defs)
next
  case (del n)
  then have sp: "sp_ok (pSplitterBuffer s)" using assms(3) by (simp add: inv_defs)
  then show ?thesis using assms(3) del DelData_content [OF sp, of n] by (simp add: inv_defs OnPlay_del_def place_defs)
next
  case (play lock nlock out)
  then show ?thesis using play_inv(1) [OF assms(1,3)] by blast
next
  case (play_fault lock nlock e)
  then show ?thesis using play_inv(2) [OF assms(1,3)] by blast
qed

lemma config_step_inv:
  assumes "vau_inv C free full s" and "config_step s s'"
  shows "vau_inv C free full s'"
  using assms(2,1)
proof cases
  case (notification b cb)
  then show ?thesis using assms(1)
    by (auto simp: inv_defs vauNotificationPlay_def end_notification_def notification_ok_def)
next
  case (volume v)
  then show ?thesis using assms(1)
    by (auto simp: inv_defs vauSetNotificationVolume_def notification_ok_def AUDIO_NOTIFICATION_VOLUME_MAX_def)
qed (simp_all add: inv_defs)

lemma vauInit_inv:
  assumes "pc_laws L free full" and "length mem = SPLITTER_SIZE"
  shows "vau_inv C free full (vauInit L mem)"
  using assms by (simp add: inv_defs vauInit_def auSplitter_Init_def sp_ok_def sp_content_def place_defs notification_ok_def
      silent_notification_def pc_laws_def)

lemma vau_run_inv:
  assumes "pc_laws L free full" and "codec_laws C" and "(vau_step L C cap)\<^sup>*\<^sup>* s s'" and "vau_inv C free full s"
  shows "vau_inv C free full s'"
  using assms(3,4)
proof (induction rule: rtranclp_induct)
  case (step y z)
  then show ?case using work_step_inv [OF assms(1,2)] config_step_inv unfolding vau_step_def by blast
qed

text \<open>
  C17. However the writers, the decoder thread and the interrupt run, and whatever formats, sizes, volumes and notifications are set in
  between: the decoder always finds a free block and the interrupt always a full one where the code relies on it (nothing runs into
  its endless loops), the splitter never leaves its buffer, the frames that were decoded are the bytes that were given, in order and
  without a gap, and what was played is what was decoded, in order, each block once, with at most four waiting.
\<close>

theorem sound_is_played_in_order:
  assumes "pc_laws L free full" and "codec_laws C" and "length mem = SPLITTER_SIZE"
    and "(vau_step L C cap)\<^sup>*\<^sup>* (vauInit L mem) s"
  shows "\<not> halted s \<and> sp_szLength (pSplitterBuffer s) \<le> SPLITTER_SIZE
     \<and> (\<exists>rest. concat (map fst (decoded s)) @ rest = given s)
     \<and> (\<exists>waiting. played s @ waiting = map snd (decoded s) \<and> length waiting \<le> 4)
     \<and> (\<forall>(frame, pcm) \<in> set (decoded s). \<exists>f d mem. pcm = decode_frame C f d (length frame) mem \<and> take (length frame) d = frame)"
proof -
  have i: "vau_inv C free full s" using vau_run_inv [OF assms(1,2,4) vauInit_inv [OF assms(1,3)]] .
  then have "length (listPCM_Remote s) \<le> 4" by (simp add: inv_defs BUF_REMOTE_PCM_NUM_def)
  then show ?thesis using i unfolding inv_defs sp_ok_def by blast
qed


subsection \<open>Everything is played\<close>

text \<open>The formats whose frames fit into half of the splitter's buffer.\<close>

definition frame_limit :: "audio_format \<Rightarrow> nat \<Rightarrow> nat" where
  "frame_limit f law = (case f of FMT_AMR \<Rightarrow> 32 | FMT_PCM \<Rightarrow> OPT_AUDIO_BUFFER_SIZE | FMT_IMA_ADPCM \<Rightarrow> 0 | _ \<Rightarrow> law)"

definition steady :: "audio_format \<Rightarrow> nat \<Rightarrow> bool" where
  "steady f law = (0 < frame_limit f law \<and> frame_limit f law \<le> SPLITTER_SIZE div 2)"

definition told :: "'p vau \<Rightarrow> bool" where
  "told s = (0 < auSplitter_GetFrame (eDecodeFormat s) (iLAWSize s) (pSplitterBuffer s)
     \<longrightarrow> decoder s \<noteq> D_recv \<or> 0 < msg_count s \<or> (\<exists>d. writer s = W_send d))"

lemma frame_there:
  assumes "steady f law" and "frame_limit f law \<le> sp_szLength p"
  shows "0 < auSplitter_GetFrame f law p"
proof (cases f)
  case FMT_AMR
  have "amr_frame_size (sp_aucBuffer p ! 0) \<le> sp_szLength p" "0 < amr_frame_size (sp_aucBuffer p ! 0)"
    using assms(2) FMT_AMR amr_frame_bounds [of "sp_aucBuffer p ! 0"] by (simp_all add: frame_limit_def)
  then show ?thesis using FMT_AMR by (simp add: auSplitter_GetFrame_def Let_def)
qed (use assms in \<open>simp_all add: steady_def frame_limit_def auSplitter_GetFrame_def OPT_AUDIO_BUFFER_SIZE_def\<close>)

lemma callback_keeps:
  assumes "vauPlayCallback L lock nlock s = Inr (out, s')"
  shows "pSplitterBuffer s' = pSplitterBuffer s \<and> eDecodeFormat s' = eDecodeFormat s \<and> iLAWSize s' = iLAWSize s
    \<and> decoder s' = decoder s \<and> msg_count s' = msg_count s \<and> writer s' = writer s \<and> given s' = given s"
  using assms by (auto simp: vauPlayCallback_def Let_def bnd_Inr split: option.splits list.splits prod.splits)

lemma work_step_told:
  assumes "0 < cap" and "told s" and "work_step L C cap s s'"
  shows "told s' \<and> eDecodeFormat s' = eDecodeFormat s \<and> iLAWSize s' = iLAWSize s"
  using assms(3)
proof cases
  case (add d)
  then show ?thesis by (auto simp: told_def vauDecode_add_def Let_def split: if_splits)
next
  case (play lock nlock out)
  then show ?thesis using assms(2) callback_keeps [OF play(2)] by (simp add: told_def)
qed (use assms(1,2) in \<open>auto simp: told_def vauDecode_def vauDecode_send_def OnPlay_look_def Let_def OnPlay_produce_def vauDecode_new_def
    vauDecode_attach_def OnPlay_produced_def OnPlay_del_def split: if_splits\<close>)

definition decoder_rank :: "decoder_at \<Rightarrow> nat" where
  "decoder_rank d = (case d of D_recv \<Rightarrow> 0 | D_look \<Rightarrow> 12 | D_wait n \<Rightarrow> 11 | D_new n \<Rightarrow> 9 | D_decode n \<Rightarrow> 8 | D_post n \<Rightarrow> 7 | D_del n \<Rightarrow> 6)"

definition writer_rank :: "writer_at \<Rightarrow> nat" where
  "writer_rank w = (case w of W_send d \<Rightarrow> 20 | _ \<Rightarrow> 0)"

definition weight :: "('p \<Rightarrow> nat) \<Rightarrow> 'p vau \<Rightarrow> nat" where
  "weight free s = 64 * (2 * length (unsent (writer s)) + sp_szLength (pSplitterBuffer s)) + writer_rank (writer s) + 16 * msg_count s
     + decoder_rank (decoder s) + (BUF_REMOTE_PCM_NUM - free (pcRemotePCM s))"

definition all_played :: "'p vau \<Rightarrow> bool" where
  "all_played s = (writer s = W_idle \<and> decoder s = D_recv \<and> listPCM_Remote s = []
     \<and> auSplitter_GetFrame (eDecodeFormat s) (iLAWSize s) (pSplitterBuffer s) = 0)"

lemma pop_progress:
  assumes "pc_laws L free full" and "vau_inv C free full s" and "0 < full (pcRemotePCM s)"
  shows "\<exists>s'. work_step L C cap s s' \<and> weight free s' < weight free s \<and> given s' = given s"
proof -
  obtain q where q: "tt_pc_try_consume L (pcRemotePCM s) = Some q" using assms(1,3) unfolding pc_laws_def
    by (metis not_less_zero option.exhaust)
  have f: "full (pcRemotePCM s) = Suc (full q)" "free q = Suc (free (pcRemotePCM s))" using assms(1) q unfolding pc_laws_def by blast+
  obtain pcm rest where l: "listPCM_Remote s = pcm # rest" using assms(2,3) by (cases "listPCM_Remote s") (auto simp: inv_defs)
  let ?s = "s\<lparr>pcRemotePCM := q, listPCM_Remote := rest, bufRemotePCM_free := bufRemotePCM_free s + 1, played := played s @ [pcm]\<rparr>"
  have "vauPlayCallback L True False s = Inr (take OPT_AUDIO_BUFFER_SIZE pcm, ?s)"
    using q l by (simp add: vauPlayCallback_def vauNotificationGet_def)
  moreover have "\<not> halted s" "free (pcRemotePCM s) < BUF_REMOTE_PCM_NUM" using assms(2) f by (simp_all add: inv_defs)
  ultimately show ?thesis using f by (intro exI [of _ ?s]) (auto simp: weight_def intro: work_step.play)
qed

lemma decoder_progress:
  assumes "pc_laws L free full" and "vau_inv C free full s" and "decoder s \<noteq> D_recv"
  shows "\<exists>s'. work_step L C cap s s' \<and> weight free s' < weight free s \<and> given s' = given s"
proof -
  have h: "\<not> halted s" and c: "counts_ok free full s" and b: "bytes_ok s" using assms(2) by (simp_all add: vau_inv_def)
  show ?thesis
  proof (cases "decoder s")
    case D_recv
    then show ?thesis using assms(3) by simp
  next
    case D_look
    have "work_step L C cap s (OnPlay_look s)" using h D_look by (rule work_step.look)
    moreover have "weight free (OnPlay_look s) < weight free s" "given (OnPlay_look s) = given s"
      using D_look by (simp_all add: OnPlay_look_def Let_def weight_def decoder_rank_def)
    ultimately show ?thesis by blast
  next
    case (D_wait n)
    show ?thesis
    proof (cases "pc_produce_begin L (pcRemotePCM s)")
      case None
      then have "free (pcRemotePCM s) = 0" using assms(1) by (simp add: pc_laws_def)
      then have "0 < full (pcRemotePCM s)" using c D_wait by (simp add: counts_ok_def holds_place_def BUF_REMOTE_PCM_NUM_def)
      from pop_progress [OF assms(1,2) this] show ?thesis .
    next
      case (Some q)
      let ?s = "s\<lparr>pcRemotePCM := q, decoder := D_new n\<rparr>"
      have f: "free (pcRemotePCM s) = Suc (free q)" using assms(1) Some unfolding pc_laws_def by blast
      have "work_step L C cap s ?s" using h D_wait Some by (intro work_step.produce [of s n]) (simp_all add: OnPlay_produce_def)
      then show ?thesis using f D_wait c by (intro exI [of _ ?s]) (simp add: weight_def decoder_rank_def counts_ok_def, arith)
    qed
  next
    case (D_new n)
    then have "bufRemotePCM_free s \<noteq> 0" using c by (simp add: counts_ok_def holds_place_def is_decoding_def unreported_def)
    then show ?thesis using h D_new
      by (intro exI [of _ "vauDecode_new n s"] conjI work_step.new_block) (simp_all add: vauDecode_new_def weight_def decoder_rank_def)
  next
    case (D_decode n)
    then show ?thesis using h
      by (intro exI [of _ "vauDecode_attach C (replicate OPT_AUDIO_BUFFER_SIZE 0) n s"] conjI work_step.decode)
        (simp_all add: vauDecode_attach_def Let_def weight_def decoder_rank_def)
  next
    case (D_post n)
    have "free (pc_produce_end L (pcRemotePCM s)) = free (pcRemotePCM s)" using assms(1) unfolding pc_laws_def by blast
    then show ?thesis using h D_post
      by (intro exI [of _ "OnPlay_produced L n s"] conjI work_step.produced) (simp_all add: OnPlay_produced_def weight_def decoder_rank_def)
  next
    case (D_del n)
    then have "0 < n" "n \<le> sp_szLength (pSplitterBuffer s)" "sp_ok (pSplitterBuffer s)" using b by (simp_all add: bytes_ok_def has_frame_def frame_bytes_def)
    then show ?thesis using h D_del DelData_content(3) [of "pSplitterBuffer s" n]
      by (intro exI [of _ "OnPlay_del n s"] conjI work_step.del) (simp_all add: OnPlay_del_def weight_def decoder_rank_def)
  qed
qed

lemma frame_progress:
  assumes "pc_laws L free full" and "vau_inv C free full s" and "told s" and "\<nexists>d. writer s = W_send d"
    and "0 < auSplitter_GetFrame (eDecodeFormat s) (iLAWSize s) (pSplitterBuffer s)"
  shows "\<exists>s'. work_step L C cap s s' \<and> weight free s' < weight free s \<and> given s' = given s"
proof (cases "decoder s = D_recv")
  case True
  then have m: "0 < msg_count s" using assms(3-5) by (simp add: told_def)
  have "work_step L C cap s (s\<lparr>msg_count := msg_count s - 1, decoder := D_look\<rparr>)"
    using assms(2) True m by (intro work_step.recv) (simp_all add: vau_inv_def)
  then show ?thesis using True m
    by (intro exI [of _ "s\<lparr>msg_count := msg_count s - 1, decoder := D_look\<rparr>"]) (simp add: weight_def decoder_rank_def)
next
  case False
  then show ?thesis by (rule decoder_progress [OF assms(1,2)])
qed

lemma work_progress:
  assumes "pc_laws L free full" and "vau_inv C free full s" and "told s" and "steady (eDecodeFormat s) (iLAWSize s)" and "\<not> all_played s"
  shows "\<exists>s'. work_step L C cap s s' \<and> weight free s' < weight free s \<and> given s' = given s"
proof (cases "writer s")
  case W_idle
  show ?thesis
  proof (cases "0 < auSplitter_GetFrame (eDecodeFormat s) (iLAWSize s) (pSplitterBuffer s)")
    case True
    then show ?thesis using frame_progress [OF assms(1-3)] W_idle by simp
  next
    case noframe: False
    show ?thesis
    proof (cases "decoder s = D_recv")
      case True
      then have "listPCM_Remote s \<noteq> []" using assms(5) W_idle noframe by (simp add: all_played_def)
      then have "0 < full (pcRemotePCM s)" using assms(2) True by (simp add: inv_defs unreported_def)
      then show ?thesis by (rule pop_progress [OF assms(1,2)])
    next
      case False
      then show ?thesis by (rule decoder_progress [OF assms(1,2)])
    qed
  qed
next
  case (W_add d)
  have sp: "sp_ok (pSplitterBuffer s)" "d \<noteq> []" "\<not> halted s" using assms(2) W_add by (simp_all add: inv_defs)
  show ?thesis
  proof (cases "vauDecode_add d s")
    case None
    then have "auSplitter_FreeSize (pSplitterBuffer s) < SPLITTER_SIZE div 2" by (simp add: vauDecode_add_def Let_def split: if_splits)
    then have "frame_limit (eDecodeFormat s) (iLAWSize s) \<le> sp_szLength (pSplitterBuffer s)"
      using sp(1) assms(4) by (simp add: auSplitter_FreeSize_def sp_ok_def steady_def SPLITTER_SIZE_def, linarith)
    from frame_progress [OF assms(1-3) _ frame_there [OF assms(4) this]] W_add show ?thesis by simp
  next
    case (Some s')
    define m where "m = min (length d) (SPLITTER_SIZE div 2)"
    have f: "m \<le> auSplitter_FreeSize (pSplitterBuffer s)" and s': "s' = s\<lparr>pSplitterBuffer := auSplitter_AddData (take m d) (pSplitterBuffer s), writer := W_send (drop m d)\<rparr>"
      using Some by (auto simp: vauDecode_add_def Let_def m_def not_less split: if_splits)
    have m: "0 < m" "m \<le> length d" using sp(2) by (simp_all add: m_def SPLITTER_SIZE_def)
    have "sp_szLength (auSplitter_AddData (take m d) (pSplitterBuffer s)) = sp_szLength (pSplitterBuffer s) + m"
      using AddData_content(3) [OF sp(1), of "take m d"] f m by simp
    then have "weight free s' < weight free s" using m W_add unfolding s' by (simp add: weight_def unsent_def writer_rank_def)
    moreover have "work_step L C cap s s'" using sp(3) W_add Some by (rule work_step.add)
    ultimately show ?thesis using s' by auto
  qed
next
  case (W_send d)
  have "work_step L C cap s (vauDecode_send cap d s)" using assms(2) W_send by (intro work_step.send) (simp_all add: vau_inv_def)
  then show ?thesis using W_send
    by (intro exI [of _ "vauDecode_send cap d s"]) (simp add: vauDecode_send_def weight_def unsent_def writer_rank_def)
qed

lemma runs_to_all_played:
  assumes "pc_laws L free full" and "codec_laws C" and "0 < cap"
  shows "vau_inv C free full s \<Longrightarrow> told s \<Longrightarrow> steady (eDecodeFormat s) (iLAWSize s)
    \<Longrightarrow> \<exists>s'. (work_step L C cap)\<^sup>*\<^sup>* s s' \<and> all_played s' \<and> given s' = given s \<and> vau_inv C free full s'
          \<and> eDecodeFormat s' = eDecodeFormat s \<and> iLAWSize s' = iLAWSize s"
proof (induction "weight free s" arbitrary: s rule: less_induct)
  case less
  show ?case
  proof (cases "all_played s")
    case True
    then show ?thesis using less.prems by blast
  next
    case False
    from work_progress [OF assms(1) less.prems False, of cap] obtain t where
      t: "work_step L C cap s t" "weight free t < weight free s" "given t = given s" by blast
    note i = work_step_inv [OF assms(1,2) less.prems(1) t(1)]
    note k = work_step_told [OF assms(3) less.prems(2) t(1)]
    have st: "steady (eDecodeFormat t) (iLAWSize t)" using less.prems(3) k by simp
    from less.hyps [OF t(2) i conjunct1 [OF k] st] t k show ?thesis by (metis converse_rtranclp_into_rtranclp)
  qed
qed

definition same_format_step :: "'p pc_lib \<Rightarrow> codecs \<Rightarrow> nat \<Rightarrow> 'p vau \<Rightarrow> 'p vau \<Rightarrow> bool" where
  "same_format_step L C cap s s' = (vau_step L C cap s s' \<and> eDecodeFormat s' = eDecodeFormat s \<and> iLAWSize s' = iLAWSize s)"

lemma same_format_told:
  assumes "0 < cap" and "told s" and "same_format_step L C cap s s'"
  shows "told s'"
proof (cases "work_step L C cap s s'")
  case True
  then show ?thesis using work_step_told [OF assms(1,2)] by blast
next
  case False
  then have "config_step s s'" "eDecodeFormat s' = eDecodeFormat s" "iLAWSize s' = iLAWSize s"
    using assms(3) by (simp_all add: same_format_step_def vau_step_def)
  then show ?thesis using assms(2) by (elim config_stepE) (simp_all add: told_def)
qed

lemma config_told:
  assumes "config_step\<^sup>*\<^sup>* (vauInit L mem) s" and "steady (eDecodeFormat s) (iLAWSize s)"
  shows "told s"
proof -
  have "sp_szLength (pSplitterBuffer s) = 0"
    using assms(1) by (induction rule: rtranclp_induct) (auto simp: vauInit_def auSplitter_Init_def elim!: config_stepE)
  then show ?thesis using GetFrame_le [of "eDecodeFormat s" "iLAWSize s" "pSplitterBuffer s"] by (simp add: told_def)
qed

text \<open>
  C18. Everything is played: once a format whose frames are not empty and fit into half of the splitter's buffer is set, from every state
  that the writers, the decoder thread, the interrupt and notifications reach, the threads can go on, without more sound being given,
  until the writer has returned and all that was given has been decoded and played, except for an incomplete frame at the end. So nobody
  waits for ever.
\<close>

theorem all_sound_is_played:
  assumes "pc_laws L free full" and "codec_laws C" and "length mem = SPLITTER_SIZE" and "0 < cap"
    and "config_step\<^sup>*\<^sup>* (vauInit L mem) c" and "steady (eDecodeFormat c) (iLAWSize c)"
    and "(same_format_step L C cap)\<^sup>*\<^sup>* c s"
  shows "\<exists>s' rest. (work_step L C cap)\<^sup>*\<^sup>* s s' \<and> writer s' = W_idle \<and> played s' = map snd (decoded s')
     \<and> concat (map fst (decoded s')) @ rest = given s \<and> length rest < frame_limit (eDecodeFormat c) (iLAWSize c)"
proof -
  have "vau_inv C free full c"
    using assms(5) vauInit_inv [OF assms(1,3)] by (induction rule: rtranclp_induct) (auto intro: config_step_inv)
  note c = this config_told [OF assms(5,6)]
  have "vau_inv C free full s \<and> told s \<and> eDecodeFormat s = eDecodeFormat c \<and> iLAWSize s = iLAWSize c"
    using assms(7)
  proof (induction rule: rtranclp_induct)
    case base
    show ?case using c by simp
  next
    case (step y z)
    then have "vau_inv C free full z" using work_step_inv [OF assms(1,2)] config_step_inv unfolding same_format_step_def vau_step_def by blast
    moreover have "told z" using same_format_told [OF assms(4) _ step(2)] step(3) by blast
    ultimately show ?case using step(2,3) by (simp add: same_format_step_def)
  qed
  then obtain s' where s': "(work_step L C cap)\<^sup>*\<^sup>* s s'" "all_played s'" "given s' = given s" "vau_inv C free full s'"
    "eDecodeFormat s' = eDecodeFormat c" "iLAWSize s' = iLAWSize c"
    using runs_to_all_played [OF assms(1,2,4)] assms(6) by metis
  let ?rest = "sp_content (pSplitterBuffer s')"
  have "played s' = map snd (decoded s')" "concat (map fst (decoded s')) @ ?rest = given s" "sp_ok (pSplitterBuffer s')"
    using s'(2-4) by (simp_all add: inv_defs all_played_def place_defs)
  moreover have "length ?rest < frame_limit (eDecodeFormat c) (iLAWSize c)"
    using frame_there [OF assms(6), of "pSplitterBuffer s'"] s'(2,5,6) calculation(3) by (force simp: all_played_def)
  moreover have "writer s' = W_idle" using s'(2) by (simp add: all_played_def)
  ultimately show ?thesis using s'(1) by (intro exI [of _ s'] exI [of _ ?rest]) simp
qed

subsection \<open>Sound that comes too early\<close>

text \<open>The length of a frame of the LAW formats is only known once the encoder has encoded some sound of the microphone; until then it is 0.\<close>

definition stuck :: "('p \<Rightarrow> nat) \<Rightarrow> u8 list \<Rightarrow> 'p vau \<Rightarrow> bool" where
  "stuck full d s = (writer s = W_add d \<and> auSplitter_FreeSize (pSplitterBuffer s) < min (length d) (SPLITTER_SIZE div 2)
     \<and> decoder s = D_recv \<and> msg_count s = 0 \<and> full (pcRemotePCM s) = 0 \<and> played s = [])"

lemma stuck_stays:
  assumes "pc_laws L free full" and "stuck full d s" and "vau_step L C cap s s'"
  shows "stuck full d s'"
proof -
  have n: "tt_pc_try_consume L (pcRemotePCM s) = None" using assms(1,2) unfolding pc_laws_def stuck_def by blast
  from assms(3) show ?thesis unfolding vau_step_def
  proof
    assume "work_step L C cap s s'"
    then show ?thesis
    proof cases
      case (play lock nlock out)
      then show ?thesis using n assms(2)
        by (auto simp: vauPlayCallback_def Let_def stuck_def bnd_Inr split: option.splits if_splits prod.splits)
    qed (use assms(2) in \<open>auto simp: stuck_def vauDecode_add_def Let_def\<close>)
  next
    assume "config_step s s'"
    then show ?thesis using assms(2) by cases (simp_all add: stuck_def)
  qed
qed

lemma stuck_run:
  assumes "pc_laws L free full" and "(vau_step L C cap)\<^sup>*\<^sup>* s s'" and "stuck full d s"
  shows "stuck full d s'"
  using assms(2,3) by (induction rule: rtranclp_induct) (auto intro: stuck_stays [OF assms(1)])

lemma vau_run_step: "(vau_step L C cap)\<^sup>*\<^sup>* s t \<Longrightarrow> work_step L C cap t u \<Longrightarrow> (vau_step L C cap)\<^sup>*\<^sup>* s u"
  by (rule rtranclp.rtrancl_into_rtrancl [of "vau_step L C cap"]) (auto simp: vau_step_def)

text \<open>One round of the writer while the length of a frame is 0: the decoder thread looks and goes back to waiting for a message.\<close>

lemma early_round:
  fixes s :: "'p vau"
  assumes "0 < cap" and "\<not> halted s" and "writer s = W_add d" and "decoder s = D_recv" and "msg_count s = 0"
    and "eDecodeFormat s \<in> {FMT_ULAW, FMT_ALAW}" and "iLAWSize s = 0"
    and "min (length d) (SPLITTER_SIZE div 2) \<le> auSplitter_FreeSize (pSplitterBuffer s)"
  defines "m \<equiv> min (length d) (SPLITTER_SIZE div 2)"
  shows "(vau_step L C cap)\<^sup>*\<^sup>* s (s\<lparr>pSplitterBuffer := auSplitter_AddData (take m d) (pSplitterBuffer s),
     writer := if drop m d = [] then W_idle else W_add (drop m d)\<rparr>)"
proof -
  let ?a = "s\<lparr>pSplitterBuffer := auSplitter_AddData (take m d) (pSplitterBuffer s), writer := W_send (drop m d)\<rparr>"
  let ?w = "if drop m d = [] then W_idle else W_add (drop m d)"
  let ?b = "?a\<lparr>msg_count := 1, writer := ?w\<rparr>"
  let ?c = "?b\<lparr>msg_count := msg_count ?b - 1, decoder := D_look\<rparr>"
  have "vauDecode_add d s = Some ?a" using assms(8) unfolding vauDecode_add_def Let_def m_def by (simp only: not_less [symmetric] if_False)
  with assms(2,3) have "work_step L C cap s ?a" by (rule work_step.add)
  note r = vau_run_step [OF rtranclp.rtrancl_refl this]
  have "vauDecode_send cap (drop m d) ?a = ?b" using assms(1,5) by (simp add: vauDecode_send_def)
  then have "work_step L C cap ?a ?b" using work_step.send [of ?a "drop m d" L C cap] assms(2) by simp
  note r = vau_run_step [OF r this]
  have "work_step L C cap ?b ?c" using assms(2,4) by (intro work_step.recv) simp_all
  note r = vau_run_step [OF r this]
  have "OnPlay_look ?c = s\<lparr>pSplitterBuffer := auSplitter_AddData (take m d) (pSplitterBuffer s), writer := ?w\<rparr>"
    using assms(4-7) by (auto simp: OnPlay_look_def auSplitter_GetFrame_def)
  then have "work_step L C cap ?c (s\<lparr>pSplitterBuffer := auSplitter_AddData (take m d) (pSplitterBuffer s), writer := ?w\<rparr>)"
    using work_step.look [of ?c L C cap] assms(2) by simp
  from vau_run_step [OF r this] show ?thesis .
qed

text \<open>
  Sound in one of the LAW formats that comes before the encoder has encoded any sound can block the writer for good: after 1024 bytes
  that found no frame and more than 32 bytes that found no place, nothing that any of the parties does brings the writer back, not even
  the length of the frames becoming known, because nobody sends the decoder thread another message.
\<close>

theorem early_sound_blocks_writer:
  assumes "pc_laws L free full" and "length mem = SPLITTER_SIZE" and "0 < cap" and "f \<in> {FMT_ULAW, FMT_ALAW}"
    and "length d1 = ENC_AUDIO_SIZE" and "32 < length d2"
  shows "\<exists>s. (vau_step L C cap)\<^sup>*\<^sup>* (vauInit L mem) s \<and> given s = d1 @ d2
     \<and> (\<forall>s'. (vau_step L C cap)\<^sup>*\<^sup>* s s' \<longrightarrow> writer s' = W_add d2 \<and> played s' = [])"
proof -
  let ?s0 = "(vauInit L mem)\<lparr>eDecodeFormat := f\<rparr>"
  let ?s1 = "vauDecode d1 ?s0"
  let ?p2 = "auSplitter_AddData (take 528 d1) (auSplitter_Init mem)"
  let ?s2 = "?s1\<lparr>pSplitterBuffer := ?p2, writer := W_add (drop 528 d1)\<rparr>"
  let ?p3 = "auSplitter_AddData (drop 528 d1) ?p2"
  let ?s3 = "?s2\<lparr>pSplitterBuffer := ?p3, writer := W_idle\<rparr>"
  have ne: "d1 \<noteq> []" "drop 528 d1 \<noteq> []" "d2 \<noteq> []" using assms(5,6) by (auto simp: ENC_AUDIO_SIZE_def)
  have p1: "sp_ok (auSplitter_Init mem)" "sp_szLength (auSplitter_Init mem) = 0" using assms(2) by (simp_all add: sp_ok_def auSplitter_Init_def)
  then have "length (take 528 d1) \<le> auSplitter_FreeSize (auSplitter_Init mem)" using assms(5) by (simp add: auSplitter_FreeSize_def sp_ok_def audio_sizes)
  from AddData_content [OF p1(1) this] p1(2) have p2: "sp_ok ?p2" "sp_szLength ?p2 = 528" using assms(5) by (simp_all add: audio_sizes)
  then have "length (drop 528 d1) \<le> auSplitter_FreeSize ?p2" using assms(5) by (simp add: auSplitter_FreeSize_def sp_ok_def audio_sizes)
  from AddData_content [OF p2(1) this] p2(2) have p3: "sp_ok ?p3" "sp_szLength ?p3 = 1024" using assms(5) by (simp_all add: audio_sizes)
  have "vau_step L C cap (vauInit L mem) ?s0" by (simp add: vau_step_def config_step.set_format)
  then have r0: "(vau_step L C cap)\<^sup>*\<^sup>* (vauInit L mem) ?s0" by blast
  have "work_step L C cap ?s0 ?s1" by (intro work_step.call_in) (simp_all add: vauInit_def)
  note r1 = vau_run_step [OF r0 this]
  have "(vau_step L C cap)\<^sup>*\<^sup>* ?s1 ?s2"
    using early_round [of cap ?s1 d1 L C] assms(3-5) ne p1 by (simp add: vauDecode_def vauInit_def audio_sizes auSplitter_FreeSize_def sp_ok_def)
  note r2 = rtranclp_trans [OF r1 this]
  have "(vau_step L C cap)\<^sup>*\<^sup>* ?s2 ?s3"
    using early_round [of cap ?s2 "drop 528 d1" L C] assms(3-5) p2 by (simp add: vauDecode_def vauInit_def audio_sizes auSplitter_FreeSize_def sp_ok_def)
  note r3 = rtranclp_trans [OF r2 this]
  have "work_step L C cap ?s3 (vauDecode d2 ?s3)" by (intro work_step.call_in) (simp_all add: vauDecode_def vauInit_def)
  note r4 = vau_run_step [OF r3 this]
  have "full (tt_pc_init L BUF_REMOTE_PCM_NUM) = 0" using assms(1) by (simp add: pc_laws_def)
  then have s: "stuck full d2 (vauDecode d2 ?s3)" using p3 ne assms(6)
    by (simp add: stuck_def vauDecode_def vauInit_def auSplitter_FreeSize_def sp_ok_def SPLITTER_SIZE_def)
  have "given (vauDecode d2 ?s3) = d1 @ d2" by (simp add: vauDecode_def vauInit_def)
  moreover have "(vau_step L C cap)\<^sup>*\<^sup>* (vauDecode d2 ?s3) s' \<longrightarrow> writer s' = W_add d2 \<and> played s' = []" for s'
    using stuck_run [OF assms(1) _ s] unfolding stuck_def by blast
  ultimately show ?thesis using r4 by blast
qed

subsection \<open>Examples\<close>

definition example_pc :: "(nat \<times> nat) pc_lib" where
  "example_pc = \<lparr>tt_pc_init = (\<lambda>n. (n, 0)), pc_produce_begin = (\<lambda>p. if fst p = 0 then None else Some (fst p - 1, snd p)),
     pc_produce_end = (\<lambda>p. (fst p, Suc (snd p))), tt_pc_try_consume = (\<lambda>p. if snd p = 0 then None else Some (Suc (fst p), snd p - 1))\<rparr>"

definition example_codecs :: codecs where
  "example_codecs = \<lparr>amrDecode = (\<lambda>x. replicate 320 0), DecodeLAW = (\<lambda>f x mem. mem)\<rparr>"

definition example_memory :: "u8 list" where "example_memory = replicate SPLITTER_SIZE 0"
definition example_sound :: "u8 list" where "example_sound = replicate 320 7"

definition example_vau :: "(nat \<times> nat) vau" where
  "example_vau = (vauInit example_pc example_memory)\<lparr>eDecodeFormat := FMT_PCM\<rparr>"

definition example_played :: "(nat \<times> nat) vau" where
  "example_played = example_vau\<lparr>pSplitterBuffer := auSplitter_AddData example_sound (auSplitter_Init example_memory), decoder := D_del 320,
     given := example_sound, decoded := [(example_sound, example_sound)], played := [example_sound]\<rparr>"

lemma example_pc_laws: "pc_laws example_pc fst snd"
  by (auto simp: pc_laws_def example_pc_def)

lemma example_codec_laws: "codec_laws example_codecs"
  by (simp add: codec_laws_def example_codecs_def OPT_AUDIO_BUFFER_SIZE_def)

lemma example_memory_size: "length example_memory = SPLITTER_SIZE"
  by (simp add: example_memory_def)

lemma example_config: "config_step (vauInit example_pc example_memory) example_vau"
  by (simp add: example_vau_def config_step.set_format)

lemma example_sound_run: "(vau_step example_pc example_codecs 1)\<^sup>*\<^sup>* (vauInit example_pc example_memory) example_played"
proof -
  let ?p = "auSplitter_AddData example_sound (auSplitter_Init example_memory)"
  let ?d = example_sound
  have p: "sp_szLength ?p = 320" "take 320 (sp_aucBuffer ?p) = ?d" "length ?d = 320"
    by (simp_all add: auSplitter_AddData_def auSplitter_Init_def example_sound_def example_memory_def SPLITTER_SIZE_def blit_def)
  let ?run = "\<lambda>s. (vau_step example_pc example_codecs 1)\<^sup>*\<^sup>* (vauInit example_pc example_memory) s"
  let ?step = "work_step example_pc example_codecs 1"
  let ?a = "vauDecode ?d example_vau"
  let ?b = "?a\<lparr>pSplitterBuffer := ?p, writer := W_send []\<rparr>"
  let ?c = "?b\<lparr>msg_count := 1, writer := W_idle\<rparr>"
  let ?e = "?c\<lparr>msg_count := 0, decoder := D_look\<rparr>"
  let ?f = "?e\<lparr>decoder := D_wait 320\<rparr>"
  let ?g = "?f\<lparr>pcRemotePCM := (3, 0), decoder := D_new 320\<rparr>"
  let ?h = "?g\<lparr>bufRemotePCM_free := 3, decoder := D_decode 320\<rparr>"
  let ?i = "?h\<lparr>listPCM_Remote := [?d], decoder := D_post 320, decoded := [(?d, ?d)]\<rparr>"
  let ?j = "?i\<lparr>pcRemotePCM := (3, 1), decoder := D_del 320\<rparr>"
  note defs = example_vau_def vauInit_def vauDecode_def
  have "vau_step example_pc example_codecs 1 (vauInit example_pc example_memory) example_vau" by (simp add: vau_step_def example_config)
  then have "?run example_vau" by blast
  moreover have "?step example_vau ?a" by (intro work_step.call_in) (simp_all add: defs)
  moreover have "?step ?a ?b" using p(3)
    by (intro work_step.add [of ?a ?d]) (auto simp: defs vauDecode_add_def auSplitter_FreeSize_def auSplitter_Init_def SPLITTER_SIZE_def)
  moreover have "?step ?b ?c" using work_step.send [of ?b "[]" example_pc example_codecs 1] by (simp add: defs vauDecode_send_def)
  moreover have "?step ?c ?e" using work_step.recv [of ?c example_pc example_codecs 1] by (simp add: defs)
  moreover have "?step ?e ?f" using work_step.look [of ?e example_pc example_codecs 1] p(1)
    by (simp add: defs OnPlay_look_def auSplitter_GetFrame_def OPT_AUDIO_BUFFER_SIZE_def)
  moreover have "?step ?f ?g" by (intro work_step.produce [of ?f 320]) (simp_all add: defs OnPlay_produce_def example_pc_def BUF_REMOTE_PCM_NUM_def)
  moreover have "?step ?g ?h" using work_step.new_block [of ?g 320 example_pc example_codecs 1]
    by (simp add: defs vauDecode_new_def BUF_REMOTE_PCM_NUM_def)
  moreover have "?step ?h ?i" using work_step.decode [of ?h 320 "replicate 320 0" example_pc example_codecs 1] p(2)
    by (simp add: defs vauDecode_attach_def decode_frame_def OPT_AUDIO_BUFFER_SIZE_def)
  moreover have "?step ?i ?j" using work_step.produced [of ?i 320 example_pc example_codecs 1]
    by (simp add: defs OnPlay_produced_def example_pc_def)
  moreover have "vauPlayCallback example_pc True False ?j = Inr (?d, example_played)" using p(3)
    by (simp add: example_played_def vauPlayCallback_def vauNotificationGet_def example_pc_def defs OPT_AUDIO_BUFFER_SIZE_def BUF_REMOTE_PCM_NUM_def)
  then have "?step ?j example_played" by (rule work_step.play [rotated]) (simp add: defs)
  ultimately show ?thesis by (meson vau_run_step)
qed

lemma sound_is_played_in_order_witness:
  "played example_played = [example_sound] \<and> (\<exists>waiting. played example_played @ waiting = map snd (decoded example_played))"
  using sound_is_played_in_order [OF example_pc_laws example_codec_laws example_memory_size example_sound_run]
  by (auto simp: example_played_def)

lemma all_sound_is_played_witness:
  "\<exists>s' rest. (work_step example_pc example_codecs 1)\<^sup>*\<^sup>* (vauDecode example_sound example_vau) s' \<and> played s' = map snd (decoded s')
     \<and> concat (map fst (decoded s')) @ rest = example_sound \<and> length rest < 320"
proof -
  have c: "config_step\<^sup>*\<^sup>* (vauInit example_pc example_memory) example_vau" using example_config by blast
  have st: "steady (eDecodeFormat example_vau) (iLAWSize example_vau)"
    by (simp add: steady_def frame_limit_def example_vau_def vauInit_def audio_sizes)
  have "work_step example_pc example_codecs 1 example_vau (vauDecode example_sound example_vau)"
    by (intro work_step.call_in) (simp_all add: example_vau_def vauInit_def)
  then have "same_format_step example_pc example_codecs 1 example_vau (vauDecode example_sound example_vau)"
    by (simp add: same_format_step_def vau_step_def vauDecode_def)
  then have r: "(same_format_step example_pc example_codecs 1)\<^sup>*\<^sup>* example_vau (vauDecode example_sound example_vau)" by blast
  have "given (vauDecode example_sound example_vau) = example_sound" "frame_limit (eDecodeFormat example_vau) (iLAWSize example_vau) = 320"
    by (simp_all add: vauDecode_def example_vau_def vauInit_def frame_limit_def OPT_AUDIO_BUFFER_SIZE_def)
  then show ?thesis
    using all_sound_is_played [OF example_pc_laws example_codec_laws example_memory_size _ c st r] by auto
qed

lemma early_sound_blocks_writer_witness:
  "\<exists>s. (vau_step example_pc example_codecs 1)\<^sup>*\<^sup>* (vauInit example_pc example_memory) s \<and> given s = replicate 1024 1 @ replicate 33 2
     \<and> (\<forall>s'. (vau_step example_pc example_codecs 1)\<^sup>*\<^sup>* s s' \<longrightarrow> writer s' = W_add (replicate 33 2) \<and> played s' = [])"
  by (rule early_sound_blocks_writer [OF example_pc_laws example_memory_size, of 1 FMT_ULAW]) (simp_all add: ENC_AUDIO_SIZE_def)

end
