(* ===== verification/Spec2Isabelle.thy ===== *)
theory Spec2Isabelle
  imports IntrusiveList MemPool SpiFlash FlashConfig WebLog Users Dispatch CameraSettings NetSettings WlanSettings
    MsgQueue McuLink PeriodTask WebCommands StatusTasks FirmwareUpload FlashFiles WebFiles NetClients DdnsClient DdnsCommands UrlClient SendHttp
    CameraThread StatusLine Pictures Relay VNetCommands DeviceCommands AudioPlay
begin

text \<open>
  The firmware of the Rovio, a web camera on wheels (src/Host, C): a W99702 processor under eCos, a motor controller on a serial
  line, a wireless interface, and a serial flash that holds the boot loader, the firmware with the files appended to it and the
  configuration. The camera's own program is LibCamera; the libraries SPI, libList, libMemPool and libMemMgmt are the part of the
  supporting code that keeps state of its own. These are modelled here, from the source, by shallow embedding.

  How the parts work together. The web server (a binary library) calls a handler per command, twice: to ask for the privilege it
  needs and to run it (Dispatch, WebCommands). Most handlers call the configuration interface, which holds its mutex, changes the
  configuration record in RAM and writes it to the flash through a write-back cache of one sector (Users, CameraSettings,
  NetSettings, WlanSettings, DdnsCommands, VNetCommands, DeviceCommands; FlashConfig, SpiFlash). Some stream: the firmware upload and download, the pages (FirmwareUpload,
  MultipartBuffer, WebFiles, ChunkedReply). A periodic thread runs tasks with deadlines: it drives the LED, measures the battery, checks the
  network and starts the update of the dynamic DNS entry (PeriodTask, TimedTasks, StatusLed, StatusTasks, DdnsCommands). The select thread
  runs the network clients and the channels of the relay (Relay); other threads reach it by a message queue (MsgQueue, SelectLoop, HttpClient, NetClients, DdnsClient), and
  for /SendHttp.cgi it hands what it receives to the web server's thread through a buffer with a condition variable (UrlClient, SendHttp). The camera thread
  gets the settings as messages and sets the video engine (CameraThread); between messages it copies pictures from the encoder into
  one of two buffers, from which the web server's threads send snapshots, the stream of pictures and the status line (Pictures, StatusLine).
  Sound that a browser sends goes through a writer and a decoder thread to the interrupt of the loudspeaker (AudioPlay).

  Theories and the code they model (paths below src/Host; LibCamera/Src where none is given), with what their lemmas show.

  \<^item> Rovio_Prelude: word types, the fault type (\<open>NullDeref\<close>, \<open>OutOfBounds\<close>, \<open>Uninitialised\<close>, \<open>Hang\<close>, for what C leaves undefined or
    what never returns), blits of byte arrays.
  \<^item> IntrusiveList: libList/Inc/list.h, rings in a heap of prev and next pointers. Every operation keeps the rings and does on the list of
    nodes what its name says (locale \<open>linked_rings\<close>, interpretation \<open>clist\<close>).
  \<^item> MemPool: libMemPool and libMemMgmt. The locale \<open>free_list\<close> extends \<open>linked_rings\<close>; both pools interpret it. From the initialisation
    on, every allowed sequence of operations answers and counts as a queue of free blocks with reference counts does.
  \<^item> SpiFlash: SPI/Src/spiflash.c, myspi.c. Reads and writes through the sector cache behave as a flat byte store (locale \<open>byte_store\<close>,
    interpretation \<open>flash\<close>); flushed bytes survive a power cut, and power lost at any moment of a write-back, in the erase or inside
    a page, damages its sector only.
  \<^item> FlashConfig: CameraConfig.c and the boot part of LibIPCamera.c. The checksum, the boot counter, the fall back to the defaults.
  \<^item> ConfigParam: the record of Inc/IPCamera.h and its defaults, with the type invariant \<open>config_fits\<close>: every string of every part fits its array.
  \<^item> WebLog: WebCameraLog.c, the ring of 500 log entries and its listing.
  \<^item> Users: User.c and the user operations of ConfigInterface/configinterface.c. The three copies of the user table agree; an
    administrator always remains, whatever is asked for and also when the library fails; who may change what; when the table overflows.
  \<^item> Dispatch: Register.c. One command or several, the reply tree and its printing, the collection of posted data. The locale
    \<open>auth_server\<close> states what handlers promise (nothing done without the privilege they ask for).
  \<^item> CameraSettings, NetSettings, WlanSettings: the settings of Camera/CameraCtl.c, System.c, Wireless/wlan0.c and
    configinterface.c: what is stored on every branch, and that it is read back.
  \<^item> DeviceCommands: the commands for mail settings, the clock, the text in the picture, UPnP, progress and version (Mail/Mailapp.c,
    Register.c, System.c, Upload/Upload.c, Version.c). The clock that is set is kept, the text that is set is drawn.
  \<^item> WebCommands: the table that RegisterUrls of LibIPCamera.c fills, as far as the handlers are modelled; the interpretation \<open>cam\<close> of
    \<open>auth_server\<close> by the whole table. Requests keep the type of the configuration, and only the user table and a redirect can be overrun.
  \<^item> MsgQueue: Msg.c. Senders and receivers as a step relation, one step per critical section; a queue is a bounded first-in
    first-out channel (locale \<open>fifo\<close>, interpretation \<open>mq\<close>), and who waits, waits for something.
  \<^item> McuLink: MCU.c with the web command to the motor controller: framing, retries, matching of answers to commands.
  \<^item> PeriodTask, TimedTasks: PeriodTask.c; each task runs at most one round late, while nobody adds a record that is still linked
    (which would damage the rings; the field \<open>relinked\<close> notes it). The locale \<open>timed_body\<close> is the contract of a task that
    reschedules itself, interpreted by the LED task (StatusLed) and the network check (StatusTasks).
  \<^item> StatusLed, StatusTasks: PeriodTask_LED.c and the PeriodTask_Check files. The LED's task takes no lock: its steps run between those of
    the operations, and the table of colours is always the signal of the state.
  \<^item> MultipartBuffer, FirmwareUpload: Upload/Upload.c. The rotating buffer is a window on the byte stream, and the parser on top of it
    finds the file of the form wherever the network cuts the stream; the flash gets this file, followed, for some lengths of the
    boundary, by the line end before it, and the configuration is kept on chips of 2 MB and more.
  \<^item> ChunkedReply, WebFiles, FlashFiles: answers sent in parts (locale \<open>chunked_reply\<close>, interpretations \<open>firmware\<close> and \<open>page\<close>),
    WebFiles/web_files.c, and the table of SPI/Src/flash_file.c with its binary search (locale \<open>search_table\<close>, interpretation \<open>name_table\<close>).
  \<^item> Base64: the encoder of Mail/Mailapp.c, which the HTTP client shares; its text is read back by a decoder, and its length.
  \<^item> SelectLoop: SSelect.c and the queue adapter of Msg.c. The sets for \<open>select\<close>, which are only corrected between rounds, are always
    those of the objects, and of objects that were thrown out of the list while they were ready (locale \<open>select_clients\<close>, interpretation \<open>http_loop\<close> by the clients of HttpClient).
  \<^item> HttpClient, NetClients, DdnsClient, DdnsCommands, UrlClient, SendHttp: HttpClient/HttpClient.c. The state machine of a request and its
    sockets; the two clients of the dynamic DNS service, what they send and how the answer is read; the commands and the task that
    start them; and the two threads that carry an answer to the browser, with the condition variable on which one of them sleeps
    until the other signals it.

  \<^item> CameraThread: Camera/CameraCtl.c (\<open>CameraThread\<close>), Camera/W99702Camera.c and the setters of VideoPhone/Src they call. What the settings
    operations of CameraSettings store, together with the messages they send, is what the engine is set to, except a value of 0 that
    was 0 since the boot, which is never passed on.
  \<^item> StatusLine: Status.c. The line of 96 characters and a reader for it; its fields keep their widths under every message (\<open>webcam_ok\<close>).
  \<^item> Pictures: the two picture buffers of CameraCtl.c, snapshots and server push. The copy is one step per byte and interleaves with
    messages, browsers that connect and replies that are filled.

  \<^item> Relay, VNetCommands: BypassClient.c. A channel that carries the web server to a server on the Internet: two sockets and two buffers of
    256 bytes in the select thread, each end filling the buffer of the other; it is connected anew whatever happened, but for one state in which the answer of a call is
    undefined; the settings, whose text is read back, and the start.

  \<^item> AudioPlay: the playback half of VideoPhone/Src/vp_audio.c and \<open>iothread_Write\<close>. The writer, the decoder thread and the interrupt as steps
    on one state; none of them runs into its endless loops, all sound is played in order, and when it is not.

  Conventions. A C structure is a record, an enumeration a datatype, an integer that can wrap a word of its width; buffers are
  byte lists whose length is the array's, and an access outside is the value \<open>Inl OutOfBounds\<close>. A lock that is held for a whole operation makes it
  one step; where a thread waits or releases the lock, the steps are separate and interleave (MsgQueue, UrlClient,
  Pictures, AudioPlay, and the link of McuLink). What is not under src is a parameter: \<open>http_lib\<close>, \<open>text_lib\<close> (web server library), the serial line, the flash chip and the
  compiler's layout (\<open>board\<close>), the operating system (\<open>net_os\<close>), the thread library's counters (\<open>pc_lib\<close>) and the sound codecs, with its documented behaviour, failures included, as named hypotheses (\<open>auth_laws\<close> and
  others) and concrete instances in the witnesses.

  Loops. Loops that end by their structure are recursive functions; the scheduler's pass and the parser's buffer have measures. Loops whose
  end depends on data (list walks, the cached read and write, the log, sending in parts, the binary search) are \<open>partial_function (option)\<close>,
  so that not returning is a value, and the lemmas prove that they return. No fuel is used.

  Not modelled, and why. Of LibCamera: sending mail, FTP, RTSP and recording drive libraries of which only binaries are in the repository; the
  threads of the video engine drive the capture and encoder hardware, and the one that adapts the bit rate computes in floating point (it may
  change the bit rate that the quality chose); USB rescue upload and the reset button are registers; NTP computes its
  offsets in floating point around socket calls; the network test and the other relay protocols (TestNetServer.c, TransBack.c, NSII.c) speak to servers
  outside the repository; \<open>URLCGI_DelFD\<close> frees an object that
  another thread may still name, which a model without addresses cannot show; the text form of the configuration is compiled only with a
  file system. That memory runs out is an input where the code reacts in an interesting way, and left out elsewhere. Outside LibCamera:
  drivers, codecs, fonts and bitmaps, board support, sample programs, and third-party systems (eCos, OpenSSL, wpa_supplicant).
\<close>

end
